(* ===== verification/Nginx_Prelude.thy ===== *)
theory Nginx_Prelude
  imports Main "HOL-Library.Word" "HOL-Library.Char_ord"
begin

text \<open>
  Shared vocabulary of the development: the C integer types at their width on a
  64-bit Linux build, NUL-terminated character strings as lists of \<open>char\<close>, the
  nginx return codes, and the generic lemmas on words, lists and options that
  the component theories use.

  A C string is the list of its characters without the terminating NUL; reading
  past the last character gives the NUL (\<open>chd [] = 0\<close>).  An \<open>ngx_str_t\<close> is the
  same list, its \<open>len\<close> being the length of the list.
\<close>

unbundle bit_operations_syntax

named_theorems ngx_simps \<open>unfolding rules for the small helper operations\<close>
named_theorems ngx_arith \<open>bounds on the machine integers of the model\<close>

section \<open>Integer types\<close>

type_synonym u_char = "8 word"
type_synonym uint32_t = "32 word"
type_synonym uint64_t = "64 word"
type_synonym ngx_uint_t = "64 word"
type_synonym ngx_msec_t = "64 word"

text \<open>\<open>ngx_int_t\<close> is a signed 64-bit integer; where its arithmetic cannot overflow it is
  an \<open>int\<close> whose bounds are proved, where it can it is a word read with \<open>sint\<close>.\<close>

abbreviation (input) NGX_MAX_INT_T_VALUE :: int where
  "NGX_MAX_INT_T_VALUE \<equiv> 9223372036854775807"

abbreviation (input) NGX_OK :: int where "NGX_OK \<equiv> 0"
abbreviation (input) NGX_ERROR :: int where "NGX_ERROR \<equiv> -1"
abbreviation (input) NGX_AGAIN :: int where "NGX_AGAIN \<equiv> -2"
abbreviation (input) NGX_BUSY :: int where "NGX_BUSY \<equiv> -3"
abbreviation (input) NGX_DECLINED :: int where "NGX_DECLINED \<equiv> -5"

definition c_div :: "int \<Rightarrow> int \<Rightarrow> int" where
  \<comment> \<open>C's signed division truncates towards zero\<close>
  "c_div a b = sgn a * sgn b * (\<bar>a\<bar> div \<bar>b\<bar>)"

lemma c_div_nonneg [simp]: "0 \<le> a \<Longrightarrow> 0 < b \<Longrightarrow> c_div a b = a div b"
  by (cases "a = 0") (auto simp: c_div_def)

section \<open>Characters and C strings\<close>

definition cval :: "char \<Rightarrow> int" where
  "cval c = int (of_char c)"

definition chd :: "string \<Rightarrow> int" where
  "chd s = (case s of [] \<Rightarrow> 0 | c # _ \<Rightarrow> cval c)"

lemma cval_bounds [simp]: "0 \<le> cval c" "cval c < 256"
proof -
  have "(of_char c :: nat) < 256" by simp
  then show "0 \<le> cval c" and "cval c < 256" by (simp_all add: cval_def)
qed

lemma cval_eq_iff [simp]: "cval a = cval b \<longleftrightarrow> a = b"
  by (simp add: cval_def)

lemma chd_simps [simp]: "chd [] = 0" "chd (c # s) = cval c"
  by (simp_all add: chd_def)

lemma chd_bounds [simp]: "0 \<le> chd s" "chd s < 256"
  by (cases s; simp)+

definition no_nul :: "string \<Rightarrow> bool" where
  \<comment> \<open>a list of characters that can be a C string\<close>
  "no_nul s \<longleftrightarrow> list_all (\<lambda>c. cval c \<noteq> 0) s"

lemma no_nul_simps [simp]:
  "no_nul []" "no_nul (c # s) \<longleftrightarrow> cval c \<noteq> 0 \<and> no_nul s"
  "no_nul (s @ t) \<longleftrightarrow> no_nul s \<and> no_nul t"
  by (auto simp: no_nul_def)

lemma no_nul_take [simp]: "no_nul s \<Longrightarrow> no_nul (take n s)"
  by (auto simp: no_nul_def list_all_iff dest: in_set_takeD)

lemma no_nul_drop [simp]: "no_nul s \<Longrightarrow> no_nul (drop n s)"
  by (auto simp: no_nul_def list_all_iff dest: in_set_dropD)

section \<open>The string functions of the C library that the sources call\<close>

fun c_strncmp :: "string \<Rightarrow> string \<Rightarrow> nat \<Rightarrow> int" where
  "c_strncmp s1 s2 0 = 0"
| "c_strncmp s1 s2 (Suc n) =
     (if chd s1 \<noteq> chd s2 then chd s1 - chd s2
      else if chd s1 = 0 then 0
      else c_strncmp (tl s1) (tl s2) n)"

definition c_strcmp :: "string \<Rightarrow> string \<Rightarrow> int" where
  "c_strcmp s1 s2 = c_strncmp s1 s2 (Suc (max (length s1) (length s2)))"

fun c_strchr :: "string \<Rightarrow> char \<Rightarrow> nat option" where
  \<comment> \<open>offset of the first occurrence of a character other than NUL\<close>
  "c_strchr [] c = None"
| "c_strchr (x # xs) c = (if x = c then Some 0 else map_option Suc (c_strchr xs c))"

fun c_strstr :: "string \<Rightarrow> string \<Rightarrow> bool" where
  \<comment> \<open>whether \<open>strstr\<close> finds the needle\<close>
  "c_strstr [] needle = (needle = [])"
| "c_strstr (x # xs) needle =
     (take (length needle) (x # xs) = needle \<or> c_strstr xs needle)"

text \<open>\<open>strncmp (s, lit, length lit) == 0\<close> is the prefix test the directive parsers use.\<close>

lemma c_strncmp_prefix:
  assumes "no_nul p"
  shows "c_strncmp s p (length p) = 0 \<longleftrightarrow> take (length p) s = p"
  using assms
proof (induction p arbitrary: s)
  case Nil
  then show ?case by simp
next
  case (Cons c p)
  show ?case
  proof (cases s)
    case Nil
    with Cons.prems show ?thesis by auto
  next
    case (Cons d s')
    with Cons.prems Cons.IH [of s'] show ?thesis by auto
  qed
qed

lemma c_strncmp_full_length:
  "no_nul s \<Longrightarrow> no_nul t \<Longrightarrow> length s < n \<Longrightarrow> length t < n \<Longrightarrow>
   c_strncmp s t n = 0 \<longleftrightarrow> s = t"
proof (induction n arbitrary: s t)
  case 0
  then show ?case by simp
next
  case (Suc n)
  show ?case
  proof (cases s)
    case Nil
    with Suc.prems show ?thesis by (cases t) auto
  next
    case (Cons c s')
    with Suc.prems Suc.IH [of s'] show ?thesis by (cases t) auto
  qed
qed

lemma c_strcmp_eq_0: "no_nul s \<Longrightarrow> no_nul t \<Longrightarrow> c_strcmp s t = 0 \<longleftrightarrow> s = t"
  by (simp add: c_strcmp_def c_strncmp_full_length del: c_strncmp.simps)

lemma c_strchr_Some:
  "c_strchr s c = Some n \<Longrightarrow> n < length s \<and> s ! n = c \<and> c \<notin> set (take n s)"
  by (induction s arbitrary: n) (auto split: if_splits)

lemma c_strchr_None: "c_strchr s c = None \<longleftrightarrow> c \<notin> set s"
  by (induction s) auto

lemma c_strchr_append: "c \<notin> set s \<Longrightarrow> c_strchr (s @ c # t) c = Some (length s)"
  by (induction s) auto

lemma c_strstr_iff: "c_strstr s needle \<longleftrightarrow> (\<exists>u v. s = u @ needle @ v)"
proof (induction s)
  case Nil
  then show ?case by auto
next
  case (Cons x xs)
  have "take (length needle) (x # xs) = needle \<longleftrightarrow> (\<exists>v. x # xs = needle @ v)"
    by (metis append_eq_conv_conj)
  with Cons show ?case
    by (auto simp: Cons_eq_append_conv)
qed

section \<open>Words\<close>

lemma sint_cases_64:
  fixes w :: "64 word"
  shows "sint w = (if uint w < 2 ^ 63 then uint w else uint w - 2 ^ 64)"
proof -
  have lo: "- (2 ^ 63) \<le> sint w" and hi: "sint w < 2 ^ 63"
    using sint_ge [of w] sint_lt [of w] by simp_all
  have eq: "uint w = sint w mod 2 ^ 64"
    by (simp add: uint_sint take_bit_eq_mod)
  show ?thesis
  proof (cases "0 \<le> sint w")
    case True
    with hi have "sint w mod 2 ^ 64 = sint w" by simp
    with eq hi show ?thesis by simp
  next
    case False
    then have "sint w mod 2 ^ 64 = (sint w + 2 ^ 64) mod 2 ^ 64" by simp
    also have "\<dots> = sint w + 2 ^ 64"
      using False lo by (intro mod_pos_pos_trivial) auto
    finally have "uint w = sint w + 2 ^ 64" using eq by simp
    with lo show ?thesis by simp
  qed
qed

lemma int_less_two_power [simp]: "int n < 2 ^ k \<longleftrightarrow> n < 2 ^ k"
  by (metis of_nat_less_iff of_nat_numeral of_nat_power)

lemma sint_eq_unat:
  fixes w :: "64 word"
  assumes "unat w < 2 ^ 63"
  shows "sint w = int (unat w)"
proof -
  have "uint w = int (unat w)" by (rule uint_nat)
  moreover have "int (unat w) < 2 ^ 63" using assms by (simp only: int_less_two_power)
  ultimately show ?thesis unfolding sint_cases_64 by argo
qed

lemma sint_neg_iff:
  fixes w :: "64 word"
  shows "sint w < 0 \<longleftrightarrow> 2 ^ 63 \<le> unat w"
proof -
  have "uint w < 2 ^ 64" "0 \<le> uint w" using uint_lt2p [of w] by simp_all
  then have "sint w < 0 \<longleftrightarrow> \<not> uint w < 2 ^ 63" unfolding sint_cases_64 by auto
  also have "\<dots> \<longleftrightarrow> \<not> int (unat w) < 2 ^ 63" by (simp only: uint_nat)
  also have "\<dots> \<longleftrightarrow> 2 ^ 63 \<le> unat w" by (simp only: int_less_two_power not_less)
  finally show ?thesis .
qed

end
