(* ===== verification/Ngx_Crc32.thy ===== *)
theory Ngx_Crc32
  imports Nginx_Prelude
begin

text \<open>
  The CRC-32 of \<open>nginx/src/core/ngx_crc32.h\<close> and \<open>ngx_crc32.c\<close>, which hashes the keys
  of a rate-limiting zone: the variant with the 16-entry table, four bits at a time, and
  the variant with the 256-entry table, a byte at a time.  Both are proved equal to the
  bit-by-bit definition with the reflected polynomial.
\<close>

definition ngx_crc32_table16 :: "uint32_t list" where
  "ngx_crc32_table16 =
     [0x00000000, 0x1db71064, 0x3b6e20c8, 0x26d930ac, 0x76dc4190, 0x6b6b51f4, 0x4db26158, 0x5005713c,
      0xedb88320, 0xf00f9344, 0xd6d6a3e8, 0xcb61b38c, 0x9b64c2b0, 0x86d3d2d4, 0xa00ae278, 0xbdbdf21c]"

definition ngx_crc32_table256 :: "uint32_t list" where
  "ngx_crc32_table256 =
     [0x00000000, 0x77073096, 0xee0e612c, 0x990951ba, 0x076dc419, 0x706af48f, 0xe963a535, 0x9e6495a3,
      0x0edb8832, 0x79dcb8a4, 0xe0d5e91e, 0x97d2d988, 0x09b64c2b, 0x7eb17cbd, 0xe7b82d07, 0x90bf1d91,
      0x1db71064, 0x6ab020f2, 0xf3b97148, 0x84be41de, 0x1adad47d, 0x6ddde4eb, 0xf4d4b551, 0x83d385c7,
      0x136c9856, 0x646ba8c0, 0xfd62f97a, 0x8a65c9ec, 0x14015c4f, 0x63066cd9, 0xfa0f3d63, 0x8d080df5,
      0x3b6e20c8, 0x4c69105e, 0xd56041e4, 0xa2677172, 0x3c03e4d1, 0x4b04d447, 0xd20d85fd, 0xa50ab56b,
      0x35b5a8fa, 0x42b2986c, 0xdbbbc9d6, 0xacbcf940, 0x32d86ce3, 0x45df5c75, 0xdcd60dcf, 0xabd13d59,
      0x26d930ac, 0x51de003a, 0xc8d75180, 0xbfd06116, 0x21b4f4b5, 0x56b3c423, 0xcfba9599, 0xb8bda50f,
      0x2802b89e, 0x5f058808, 0xc60cd9b2, 0xb10be924, 0x2f6f7c87, 0x58684c11, 0xc1611dab, 0xb6662d3d,
      0x76dc4190, 0x01db7106, 0x98d220bc, 0xefd5102a, 0x71b18589, 0x06b6b51f, 0x9fbfe4a5, 0xe8b8d433,
      0x7807c9a2, 0x0f00f934, 0x9609a88e, 0xe10e9818, 0x7f6a0dbb, 0x086d3d2d, 0x91646c97, 0xe6635c01,
      0x6b6b51f4, 0x1c6c6162, 0x856530d8, 0xf262004e, 0x6c0695ed, 0x1b01a57b, 0x8208f4c1, 0xf50fc457,
      0x65b0d9c6, 0x12b7e950, 0x8bbeb8ea, 0xfcb9887c, 0x62dd1ddf, 0x15da2d49, 0x8cd37cf3, 0xfbd44c65,
      0x4db26158, 0x3ab551ce, 0xa3bc0074, 0xd4bb30e2, 0x4adfa541, 0x3dd895d7, 0xa4d1c46d, 0xd3d6f4fb,
      0x4369e96a, 0x346ed9fc, 0xad678846, 0xda60b8d0, 0x44042d73, 0x33031de5, 0xaa0a4c5f, 0xdd0d7cc9,
      0x5005713c, 0x270241aa, 0xbe0b1010, 0xc90c2086, 0x5768b525, 0x206f85b3, 0xb966d409, 0xce61e49f,
      0x5edef90e, 0x29d9c998, 0xb0d09822, 0xc7d7a8b4, 0x59b33d17, 0x2eb40d81, 0xb7bd5c3b, 0xc0ba6cad,
      0xedb88320, 0x9abfb3b6, 0x03b6e20c, 0x74b1d29a, 0xead54739, 0x9dd277af, 0x04db2615, 0x73dc1683,
      0xe3630b12, 0x94643b84, 0x0d6d6a3e, 0x7a6a5aa8, 0xe40ecf0b, 0x9309ff9d, 0x0a00ae27, 0x7d079eb1,
      0xf00f9344, 0x8708a3d2, 0x1e01f268, 0x6906c2fe, 0xf762575d, 0x806567cb, 0x196c3671, 0x6e6b06e7,
      0xfed41b76, 0x89d32be0, 0x10da7a5a, 0x67dd4acc, 0xf9b9df6f, 0x8ebeeff9, 0x17b7be43, 0x60b08ed5,
      0xd6d6a3e8, 0xa1d1937e, 0x38d8c2c4, 0x4fdff252, 0xd1bb67f1, 0xa6bc5767, 0x3fb506dd, 0x48b2364b,
      0xd80d2bda, 0xaf0a1b4c, 0x36034af6, 0x41047a60, 0xdf60efc3, 0xa867df55, 0x316e8eef, 0x4669be79,
      0xcb61b38c, 0xbc66831a, 0x256fd2a0, 0x5268e236, 0xcc0c7795, 0xbb0b4703, 0x220216b9, 0x5505262f,
      0xc5ba3bbe, 0xb2bd0b28, 0x2bb45a92, 0x5cb36a04, 0xc2d7ffa7, 0xb5d0cf31, 0x2cd99e8b, 0x5bdeae1d,
      0x9b64c2b0, 0xec63f226, 0x756aa39c, 0x026d930a, 0x9c0906a9, 0xeb0e363f, 0x72076785, 0x05005713,
      0x95bf4a82, 0xe2b87a14, 0x7bb12bae, 0x0cb61b38, 0x92d28e9b, 0xe5d5be0d, 0x7cdcefb7, 0x0bdbdf21,
      0x86d3d2d4, 0xf1d4e242, 0x68ddb3f8, 0x1fda836e, 0x81be16cd, 0xf6b9265b, 0x6fb077e1, 0x18b74777,
      0x88085ae6, 0xff0f6a70, 0x66063bca, 0x11010b5c, 0x8f659eff, 0xf862ae69, 0x616bffd3, 0x166ccf45,
      0xa00ae278, 0xd70dd2ee, 0x4e048354, 0x3903b3c2, 0xa7672661, 0xd06016f7, 0x4969474d, 0x3e6e77db,
      0xaed16a4a, 0xd9d65adc, 0x40df0b66, 0x37d83bf0, 0xa9bcae53, 0xdebb9ec5, 0x47b2cf7f, 0x30b5ffe9,
      0xbdbdf21c, 0xcabac28a, 0x53b39330, 0x24b4a3a6, 0xbad03605, 0xcdd70693, 0x54de5729, 0x23d967bf,
      0xb3667a2e, 0xc4614ab8, 0x5d681b02, 0x2a6f2b94, 0xb40bbe37, 0xc30c8ea1, 0x5a05df1b, 0x2d02ef8d]"

definition byte32 :: "char \<Rightarrow> uint32_t" where
  "byte32 c = word_of_int (cval c)"

fun crc32_short_loop :: "uint32_t \<Rightarrow> string \<Rightarrow> uint32_t" where
  "crc32_short_loop crc [] = crc"
| "crc32_short_loop crc (p # ps) =
     (let c = byte32 p;
          crc = (ngx_crc32_table16 ! unat ((crc XOR (c AND 0xf)) AND 0xf)) XOR drop_bit 4 crc;
          crc = (ngx_crc32_table16 ! unat ((crc XOR drop_bit 4 c) AND 0xf)) XOR drop_bit 4 crc
      in crc32_short_loop crc ps)"

definition ngx_crc32_short :: "string \<Rightarrow> uint32_t" where
  "ngx_crc32_short s = crc32_short_loop 0xffffffff s XOR 0xffffffff"

fun ngx_crc32_update :: "uint32_t \<Rightarrow> string \<Rightarrow> uint32_t" where
  "ngx_crc32_update c [] = c"
| "ngx_crc32_update c (p # ps) =
     ngx_crc32_update
       ((ngx_crc32_table256 ! unat ((c XOR byte32 p) AND 0xff)) XOR drop_bit 8 c) ps"

definition ngx_crc32_long :: "string \<Rightarrow> uint32_t" where
  \<comment> \<open>\<open>ngx_crc32_init\<close>, the loop of \<open>ngx_crc32_update\<close>, \<open>ngx_crc32_final\<close>\<close>
  "ngx_crc32_long s = ngx_crc32_update 0xffffffff s XOR 0xffffffff"

section \<open>The bit-by-bit definition\<close>

definition crc_bit :: "uint32_t \<Rightarrow> uint32_t" where
  "crc_bit x = drop_bit 1 x XOR (if bit x 0 then 0xedb88320 else 0)"

definition crc_nibble :: "uint32_t \<Rightarrow> uint32_t" where
  "crc_nibble x = crc_bit (crc_bit (crc_bit (crc_bit x)))"

definition crc_byte :: "uint32_t \<Rightarrow> uint32_t" where
  "crc_byte x = crc_nibble (crc_nibble x)"

fun crc_bytes :: "uint32_t \<Rightarrow> string \<Rightarrow> uint32_t" where
  "crc_bytes crc [] = crc"
| "crc_bytes crc (c # cs) = crc_bytes (crc_byte (crc XOR byte32 c)) cs"

definition crc32_reference :: "string \<Rightarrow> uint32_t" where
  "crc32_reference s = crc_bytes 0xffffffff s XOR 0xffffffff"

lemma crc_bit_xor: "crc_bit (a XOR b) = crc_bit a XOR crc_bit b"
  unfolding crc_bit_def by (rule bit_word_eqI) (auto simp: bit_simps)

lemma crc_nibble_xor: "crc_nibble (a XOR b) = crc_nibble a XOR crc_nibble b"
  by (simp only: crc_nibble_def crc_bit_xor)

lemma crc_bit_drop: "\<not> bit x k \<Longrightarrow> crc_bit (drop_bit k x) = drop_bit (k + 1) x"
  by (simp add: crc_bit_def bit_drop_bit_eq drop_bit_drop_bit add.commute)

lemma crc_nibble_low_zero: "take_bit 4 x = 0 \<Longrightarrow> crc_nibble x = drop_bit 4 x"
proof -
  assume "take_bit 4 x = 0"
  then have "\<not> bit x n" if "n < 4" for n
    using that by (metis bit_0_eq bit_take_bit_iff bot_apply bot_bool_def)
  then have "crc_bit (drop_bit k x) = drop_bit (k + 1) x" if "k < 4" for k
    using that by (simp only: crc_bit_drop not_False_eq_True)
  from this [of 0] this [of 1] this [of 2] this [of 3] show ?thesis
    by (simp add: crc_nibble_def numeral_eq_Suc)
qed

lemma xor_split: "x = take_bit n x XOR push_bit n (drop_bit n (x :: uint32_t))"
  by (rule bit_word_eqI) (auto simp: bit_simps)

lemma crc_nibble_split: "crc_nibble x = crc_nibble (take_bit 4 x) XOR drop_bit 4 x"
proof -
  have "crc_nibble x = crc_nibble (take_bit 4 x) XOR crc_nibble (push_bit 4 (drop_bit 4 x))"
    by (subst xor_split [of x 4]) (rule crc_nibble_xor)
  also have "crc_nibble (push_bit 4 (drop_bit 4 x)) = drop_bit 4 (push_bit 4 (drop_bit 4 x))"
    by (rule crc_nibble_low_zero) (rule bit_word_eqI, auto simp: bit_simps)
  also have "\<dots> = drop_bit 4 x"
    by (rule bit_word_eqI) (auto simp: bit_simps dest: bit_imp_le_length)
  finally show ?thesis .
qed

lemma table16_entry: "k < 16 \<Longrightarrow> ngx_crc32_table16 ! k = crc_nibble (of_nat k)"
proof -
  assume "k < 16"
  then have "k = 0 \<or> k = 1 \<or> k = 2 \<or> k = 3 \<or> k = 4 \<or> k = 5 \<or> k = 6 \<or> k = 7 \<or>
      k = 8 \<or> k = 9 \<or> k = 10 \<or> k = 11 \<or> k = 12 \<or> k = 13 \<or> k = 14 \<or> k = 15"
    by presburger
  then show ?thesis
    by (elim disjE) (simp_all add: ngx_crc32_table16_def crc_nibble_def crc_bit_def)
qed

lemma uint32_masks: "(x :: uint32_t) AND 0xf = take_bit 4 x" "x AND 0xff = take_bit 8 x"
  by (simp_all add: take_bit_eq_mask mask_eq_exp_minus_1)

lemma unat_take_bit_32: "unat (take_bit n (x :: uint32_t)) < 2 ^ n"
  by (simp add: unsigned_take_bit_eq take_bit_nat_less_exp)

lemma nibble_step:
  assumes "drop_bit 4 n = 0"
  shows "(ngx_crc32_table16 ! unat ((crc XOR n) AND 0xf)) XOR drop_bit 4 crc = crc_nibble (crc XOR n)"
proof -
  have "unat (take_bit 4 (crc XOR n)) < 16" using unat_take_bit_32 [of 4 "crc XOR n"]
    by (simp del: take_bit_xor)
  then have "ngx_crc32_table16 ! unat ((crc XOR n) AND 0xf) = crc_nibble (take_bit 4 (crc XOR n))"
    by (simp only: uint32_masks table16_entry of_nat_unat ucast_id)
  moreover have "drop_bit 4 (crc XOR n) = drop_bit 4 crc" using assms by simp
  ultimately show ?thesis using crc_nibble_split [of "crc XOR n"] by (simp only:)
qed

lemma byte32_high: "drop_bit 8 (byte32 c) = 0"
proof -
  have "uint (byte32 c) = cval c"
    using cval_bounds [of c]
    by (simp add: byte32_def uint_word_of_int take_bit_int_eq_self del: cval_bounds)
  then have "byte32 c < 256" using cval_bounds [of c] by (simp add: word_less_def)
  then show ?thesis
    by (simp add: drop_bit_eq_div div_word_less)
qed

lemma short_byte_step:
  "(let c = byte32 p;
        crc = (ngx_crc32_table16 ! unat ((crc XOR (c AND 0xf)) AND 0xf)) XOR drop_bit 4 crc
    in (ngx_crc32_table16 ! unat ((crc XOR drop_bit 4 c) AND 0xf)) XOR drop_bit 4 crc) =
   crc_byte (crc XOR byte32 p)"
proof -
  let ?c = "byte32 p"
  let ?lo = "take_bit 4 ?c" and ?hi = "drop_bit 4 ?c"
  have lo: "drop_bit 4 (?c AND 0xf) = 0"
    by (simp only: uint32_masks) (rule bit_word_eqI, auto simp: bit_simps)
  have hi: "drop_bit 4 ?hi = 0" using byte32_high [of p] by (simp add: drop_bit_drop_bit)
  have up: "crc_nibble (push_bit 4 ?hi) = ?hi"
  proof -
    have "crc_nibble (push_bit 4 ?hi) = drop_bit 4 (push_bit 4 ?hi)"
      by (rule crc_nibble_low_zero) (rule bit_word_eqI, auto simp: bit_simps)
    also have "\<dots> = ?hi"
      by (rule bit_word_eqI) (auto simp: bit_simps dest: bit_imp_le_length)
    finally show ?thesis .
  qed
  have "crc_byte (crc XOR ?c) = crc_nibble (crc_nibble ((crc XOR ?lo) XOR push_bit 4 ?hi))"
    unfolding crc_byte_def by (subst xor_split [of ?c 4]) (simp only: xor.assoc)
  also have "\<dots> = crc_nibble (crc_nibble (crc XOR ?lo) XOR ?hi)"
    by (simp only: crc_nibble_xor up)
  finally show ?thesis
    using nibble_step [OF lo, of crc] nibble_step [OF hi]
    by (simp only: Let_def uint32_masks)
qed

lemma crc32_short_loop_eq: "crc32_short_loop crc s = crc_bytes crc s"
proof (induction s arbitrary: crc)
  case Nil
  then show ?case by simp
next
  case (Cons p s)
  then show ?case using short_byte_step [of p crc] by (simp only: crc32_short_loop.simps
      crc_bytes.simps Let_def)
qed

lemmas crc_eval = crc_byte_def crc_nibble_def crc_bit_def

lemma table256_row0: "map crc_byte
    [0x00, 0x01, 0x02, 0x03, 0x04, 0x05, 0x06, 0x07,
     0x08, 0x09, 0x0a, 0x0b, 0x0c, 0x0d, 0x0e, 0x0f] =
    [0x00000000, 0x77073096, 0xee0e612c, 0x990951ba, 0x076dc419, 0x706af48f, 0xe963a535, 0x9e6495a3,
     0x0edb8832, 0x79dcb8a4, 0xe0d5e91e, 0x97d2d988, 0x09b64c2b, 0x7eb17cbd, 0xe7b82d07, 0x90bf1d91]"
  by (simp add: crc_eval)

lemma table256_row1: "map crc_byte
    [0x10, 0x11, 0x12, 0x13, 0x14, 0x15, 0x16, 0x17,
     0x18, 0x19, 0x1a, 0x1b, 0x1c, 0x1d, 0x1e, 0x1f] =
    [0x1db71064, 0x6ab020f2, 0xf3b97148, 0x84be41de, 0x1adad47d, 0x6ddde4eb, 0xf4d4b551, 0x83d385c7,
     0x136c9856, 0x646ba8c0, 0xfd62f97a, 0x8a65c9ec, 0x14015c4f, 0x63066cd9, 0xfa0f3d63, 0x8d080df5]"
  by (simp add: crc_eval)

lemma table256_row2: "map crc_byte
    [0x20, 0x21, 0x22, 0x23, 0x24, 0x25, 0x26, 0x27,
     0x28, 0x29, 0x2a, 0x2b, 0x2c, 0x2d, 0x2e, 0x2f] =
    [0x3b6e20c8, 0x4c69105e, 0xd56041e4, 0xa2677172, 0x3c03e4d1, 0x4b04d447, 0xd20d85fd, 0xa50ab56b,
     0x35b5a8fa, 0x42b2986c, 0xdbbbc9d6, 0xacbcf940, 0x32d86ce3, 0x45df5c75, 0xdcd60dcf, 0xabd13d59]"
  by (simp add: crc_eval)

lemma table256_row3: "map crc_byte
    [0x30, 0x31, 0x32, 0x33, 0x34, 0x35, 0x36, 0x37,
     0x38, 0x39, 0x3a, 0x3b, 0x3c, 0x3d, 0x3e, 0x3f] =
    [0x26d930ac, 0x51de003a, 0xc8d75180, 0xbfd06116, 0x21b4f4b5, 0x56b3c423, 0xcfba9599, 0xb8bda50f,
     0x2802b89e, 0x5f058808, 0xc60cd9b2, 0xb10be924, 0x2f6f7c87, 0x58684c11, 0xc1611dab, 0xb6662d3d]"
  by (simp add: crc_eval)

lemma table256_row4: "map crc_byte
    [0x40, 0x41, 0x42, 0x43, 0x44, 0x45, 0x46, 0x47,
     0x48, 0x49, 0x4a, 0x4b, 0x4c, 0x4d, 0x4e, 0x4f] =
    [0x76dc4190, 0x01db7106, 0x98d220bc, 0xefd5102a, 0x71b18589, 0x06b6b51f, 0x9fbfe4a5, 0xe8b8d433,
     0x7807c9a2, 0x0f00f934, 0x9609a88e, 0xe10e9818, 0x7f6a0dbb, 0x086d3d2d, 0x91646c97, 0xe6635c01]"
  by (simp add: crc_eval)

lemma table256_row5: "map crc_byte
    [0x50, 0x51, 0x52, 0x53, 0x54, 0x55, 0x56, 0x57,
     0x58, 0x59, 0x5a, 0x5b, 0x5c, 0x5d, 0x5e, 0x5f] =
    [0x6b6b51f4, 0x1c6c6162, 0x856530d8, 0xf262004e, 0x6c0695ed, 0x1b01a57b, 0x8208f4c1, 0xf50fc457,
     0x65b0d9c6, 0x12b7e950, 0x8bbeb8ea, 0xfcb9887c, 0x62dd1ddf, 0x15da2d49, 0x8cd37cf3, 0xfbd44c65]"
  by (simp add: crc_eval)

lemma table256_row6: "map crc_byte
    [0x60, 0x61, 0x62, 0x63, 0x64, 0x65, 0x66, 0x67,
     0x68, 0x69, 0x6a, 0x6b, 0x6c, 0x6d, 0x6e, 0x6f] =
    [0x4db26158, 0x3ab551ce, 0xa3bc0074, 0xd4bb30e2, 0x4adfa541, 0x3dd895d7, 0xa4d1c46d, 0xd3d6f4fb,
     0x4369e96a, 0x346ed9fc, 0xad678846, 0xda60b8d0, 0x44042d73, 0x33031de5, 0xaa0a4c5f, 0xdd0d7cc9]"
  by (simp add: crc_eval)

lemma table256_row7: "map crc_byte
    [0x70, 0x71, 0x72, 0x73, 0x74, 0x75, 0x76, 0x77,
     0x78, 0x79, 0x7a, 0x7b, 0x7c, 0x7d, 0x7e, 0x7f] =
    [0x5005713c, 0x270241aa, 0xbe0b1010, 0xc90c2086, 0x5768b525, 0x206f85b3, 0xb966d409, 0xce61e49f,
     0x5edef90e, 0x29d9c998, 0xb0d09822, 0xc7d7a8b4, 0x59b33d17, 0x2eb40d81, 0xb7bd5c3b, 0xc0ba6cad]"
  by (simp add: crc_eval)

lemma table256_row8: "map crc_byte
    [0x80, 0x81, 0x82, 0x83, 0x84, 0x85, 0x86, 0x87,
     0x88, 0x89, 0x8a, 0x8b, 0x8c, 0x8d, 0x8e, 0x8f] =
    [0xedb88320, 0x9abfb3b6, 0x03b6e20c, 0x74b1d29a, 0xead54739, 0x9dd277af, 0x04db2615, 0x73dc1683,
     0xe3630b12, 0x94643b84, 0x0d6d6a3e, 0x7a6a5aa8, 0xe40ecf0b, 0x9309ff9d, 0x0a00ae27, 0x7d079eb1]"
  by (simp add: crc_eval)

lemma table256_row9: "map crc_byte
    [0x90, 0x91, 0x92, 0x93, 0x94, 0x95, 0x96, 0x97,
     0x98, 0x99, 0x9a, 0x9b, 0x9c, 0x9d, 0x9e, 0x9f] =
    [0xf00f9344, 0x8708a3d2, 0x1e01f268, 0x6906c2fe, 0xf762575d, 0x806567cb, 0x196c3671, 0x6e6b06e7,
     0xfed41b76, 0x89d32be0, 0x10da7a5a, 0x67dd4acc, 0xf9b9df6f, 0x8ebeeff9, 0x17b7be43, 0x60b08ed5]"
  by (simp add: crc_eval)

lemma table256_row10: "map crc_byte
    [0xa0, 0xa1, 0xa2, 0xa3, 0xa4, 0xa5, 0xa6, 0xa7,
     0xa8, 0xa9, 0xaa, 0xab, 0xac, 0xad, 0xae, 0xaf] =
    [0xd6d6a3e8, 0xa1d1937e, 0x38d8c2c4, 0x4fdff252, 0xd1bb67f1, 0xa6bc5767, 0x3fb506dd, 0x48b2364b,
     0xd80d2bda, 0xaf0a1b4c, 0x36034af6, 0x41047a60, 0xdf60efc3, 0xa867df55, 0x316e8eef, 0x4669be79]"
  by (simp add: crc_eval)

lemma table256_row11: "map crc_byte
    [0xb0, 0xb1, 0xb2, 0xb3, 0xb4, 0xb5, 0xb6, 0xb7,
     0xb8, 0xb9, 0xba, 0xbb, 0xbc, 0xbd, 0xbe, 0xbf] =
    [0xcb61b38c, 0xbc66831a, 0x256fd2a0, 0x5268e236, 0xcc0c7795, 0xbb0b4703, 0x220216b9, 0x5505262f,
     0xc5ba3bbe, 0xb2bd0b28, 0x2bb45a92, 0x5cb36a04, 0xc2d7ffa7, 0xb5d0cf31, 0x2cd99e8b, 0x5bdeae1d]"
  by (simp add: crc_eval)

lemma table256_row12: "map crc_byte
    [0xc0, 0xc1, 0xc2, 0xc3, 0xc4, 0xc5, 0xc6, 0xc7,
     0xc8, 0xc9, 0xca, 0xcb, 0xcc, 0xcd, 0xce, 0xcf] =
    [0x9b64c2b0, 0xec63f226, 0x756aa39c, 0x026d930a, 0x9c0906a9, 0xeb0e363f, 0x72076785, 0x05005713,
     0x95bf4a82, 0xe2b87a14, 0x7bb12bae, 0x0cb61b38, 0x92d28e9b, 0xe5d5be0d, 0x7cdcefb7, 0x0bdbdf21]"
  by (simp add: crc_eval)

lemma table256_row13: "map crc_byte
    [0xd0, 0xd1, 0xd2, 0xd3, 0xd4, 0xd5, 0xd6, 0xd7,
     0xd8, 0xd9, 0xda, 0xdb, 0xdc, 0xdd, 0xde, 0xdf] =
    [0x86d3d2d4, 0xf1d4e242, 0x68ddb3f8, 0x1fda836e, 0x81be16cd, 0xf6b9265b, 0x6fb077e1, 0x18b74777,
     0x88085ae6, 0xff0f6a70, 0x66063bca, 0x11010b5c, 0x8f659eff, 0xf862ae69, 0x616bffd3, 0x166ccf45]"
  by (simp add: crc_eval)

lemma table256_row14: "map crc_byte
    [0xe0, 0xe1, 0xe2, 0xe3, 0xe4, 0xe5, 0xe6, 0xe7,
     0xe8, 0xe9, 0xea, 0xeb, 0xec, 0xed, 0xee, 0xef] =
    [0xa00ae278, 0xd70dd2ee, 0x4e048354, 0x3903b3c2, 0xa7672661, 0xd06016f7, 0x4969474d, 0x3e6e77db,
     0xaed16a4a, 0xd9d65adc, 0x40df0b66, 0x37d83bf0, 0xa9bcae53, 0xdebb9ec5, 0x47b2cf7f, 0x30b5ffe9]"
  by (simp add: crc_eval)

lemma table256_row15: "map crc_byte
    [0xf0, 0xf1, 0xf2, 0xf3, 0xf4, 0xf5, 0xf6, 0xf7,
     0xf8, 0xf9, 0xfa, 0xfb, 0xfc, 0xfd, 0xfe, 0xff] =
    [0xbdbdf21c, 0xcabac28a, 0x53b39330, 0x24b4a3a6, 0xbad03605, 0xcdd70693, 0x54de5729, 0x23d967bf,
     0xb3667a2e, 0xc4614ab8, 0x5d681b02, 0x2a6f2b94, 0xb40bbe37, 0xc30c8ea1, 0x5a05df1b, 0x2d02ef8d]"
  by (simp add: crc_eval)

lemmas table256_rows = table256_row0 table256_row1 table256_row2 table256_row3
  table256_row4 table256_row5 table256_row6 table256_row7 table256_row8 table256_row9
  table256_row10 table256_row11 table256_row12 table256_row13 table256_row14 table256_row15

lemma table256_words: "ngx_crc32_table256 = map crc_byte (map of_nat [0..<256])"
proof -
  have "map of_nat [0..<256] = ([0, 1, 2, 3, 4, 5, 6, 7, 8, 9, 10, 11, 12, 13, 14, 15, 16, 17, 18, 19, 20, 21, 22, 23, 24, 25, 26, 27, 28, 29, 30, 31, 32, 33, 34, 35, 36, 37, 38, 39, 40, 41, 42, 43, 44, 45, 46, 47, 48, 49, 50, 51, 52, 53, 54, 55, 56, 57, 58, 59, 60, 61, 62, 63, 64, 65, 66, 67, 68, 69, 70, 71, 72, 73, 74, 75, 76, 77, 78, 79, 80, 81, 82, 83, 84, 85, 86, 87, 88, 89, 90, 91, 92, 93, 94, 95, 96, 97, 98, 99, 100, 101, 102, 103, 104, 105, 106, 107, 108, 109, 110, 111, 112, 113, 114, 115, 116, 117, 118, 119, 120, 121, 122, 123, 124, 125, 126, 127, 128, 129, 130, 131, 132, 133, 134, 135, 136, 137, 138, 139, 140, 141, 142, 143, 144, 145, 146, 147, 148, 149, 150, 151, 152, 153, 154, 155, 156, 157, 158, 159, 160, 161, 162, 163, 164, 165, 166, 167, 168, 169, 170, 171, 172, 173, 174, 175, 176, 177, 178, 179, 180, 181, 182, 183, 184, 185, 186, 187, 188, 189, 190, 191, 192, 193, 194, 195, 196, 197, 198, 199, 200, 201, 202, 203, 204, 205, 206, 207, 208, 209, 210, 211, 212, 213, 214, 215, 216, 217, 218, 219, 220, 221, 222, 223, 224, 225, 226, 227, 228, 229, 230, 231, 232, 233, 234, 235, 236, 237, 238, 239, 240, 241, 242, 243, 244, 245, 246, 247, 248, 249, 250, 251, 252, 253, 254, 255] :: uint32_t list)"
    by (simp add: upt_conv_Cons)
  then show ?thesis
    using table256_rows by (simp only: ngx_crc32_table256_def list.map list.inject)
qed

lemma table256_entry: "k < 256 \<Longrightarrow> ngx_crc32_table256 ! k = crc_byte (of_nat k)"
  by (simp add: table256_words)

lemma crc_byte_low_zero: "take_bit 8 x = 0 \<Longrightarrow> crc_byte x = drop_bit 8 x"
proof -
  assume z: "take_bit 8 x = 0"
  have "take_bit 4 x = take_bit 4 (take_bit 8 x)" by simp
  with z have "take_bit 4 x = 0" by (simp only: take_bit_of_0)
  moreover have "take_bit 4 (drop_bit 4 x) = drop_bit 4 (take_bit 8 x)"
    by (simp add: take_bit_drop_bit)
  with z have "take_bit 4 (drop_bit 4 x) = 0" by (simp only: drop_bit_of_0)
  ultimately show ?thesis by (simp add: crc_byte_def crc_nibble_low_zero drop_bit_drop_bit)
qed

lemma crc_byte_split: "crc_byte x = crc_byte (take_bit 8 x) XOR drop_bit 8 x"
proof -
  have "crc_byte x = crc_byte (take_bit 8 x) XOR crc_byte (push_bit 8 (drop_bit 8 x))"
    unfolding crc_byte_def by (subst xor_split [of x 8]) (simp only: crc_nibble_xor)
  also have "crc_byte (push_bit 8 (drop_bit 8 x)) = drop_bit 8 (push_bit 8 (drop_bit 8 x))"
    by (rule crc_byte_low_zero) (rule bit_word_eqI, auto simp: bit_simps)
  also have "\<dots> = drop_bit 8 x"
    by (rule bit_word_eqI) (auto simp: bit_simps dest: bit_imp_le_length)
  finally show ?thesis .
qed

lemma update_byte_step:
  "(ngx_crc32_table256 ! unat ((c XOR byte32 p) AND 0xff)) XOR drop_bit 8 c = crc_byte (c XOR byte32 p)"
proof -
  have "unat (take_bit 8 (c XOR byte32 p)) < 256"
    using unat_take_bit_32 [of 8 "c XOR byte32 p"] by (simp del: take_bit_xor)
  then have "ngx_crc32_table256 ! unat ((c XOR byte32 p) AND 0xff) = crc_byte (take_bit 8 (c XOR byte32 p))"
    by (simp only: uint32_masks table256_entry of_nat_unat ucast_id)
  moreover have "drop_bit 8 (c XOR byte32 p) = drop_bit 8 c" using byte32_high [of p] by simp
  ultimately show ?thesis using crc_byte_split [of "c XOR byte32 p"] by (simp only:)
qed

lemma ngx_crc32_update_eq: "ngx_crc32_update c s = crc_bytes c s"
  by (induction s arbitrary: c) (simp_all add: update_byte_step del: One_nat_def)

lemma crc_bytes_append: "crc_bytes c (s @ t) = crc_bytes (crc_bytes c s) t"
  by (induction s arbitrary: c) simp_all

lemma ngx_crc32_short_eq: "ngx_crc32_short s = crc32_reference s"
  by (simp add: ngx_crc32_short_def crc32_reference_def crc32_short_loop_eq)

lemma ngx_crc32_long_eq: "ngx_crc32_long s = crc32_reference s"
  by (simp add: ngx_crc32_long_def crc32_reference_def ngx_crc32_update_eq)

lemma ngx_crc32_check: "ngx_crc32_short ''123456789'' = 0xcbf43926"
  by code_simp

section \<open>Properties\<close>

text \<open>C31. The nibble-wise \<open>ngx_crc32_short\<close>, the byte-wise \<open>ngx_crc32_long\<close> and the bit-by-bit definition
  of the checksum agree on every string, and the checksum of the standard check string is the
  published one.\<close>
theorem crc32_equivalence:
  "ngx_crc32_short s = crc32_reference s \<and> ngx_crc32_long s = crc32_reference s \<and>
   ngx_crc32_short ''123456789'' = 0xcbf43926"
  by (simp add: ngx_crc32_short_eq ngx_crc32_long_eq ngx_crc32_check [unfolded ngx_crc32_short_eq])

text \<open>\<open>ngx_crc32_update\<close> is incremental: updating with two pieces in turn is updating with their
  concatenation.\<close>
theorem crc32_incremental:
  "ngx_crc32_update (ngx_crc32_update crc s) t = ngx_crc32_update crc (s @ t)"
  by (simp add: ngx_crc32_update_eq crc_bytes_append)

end
