(* ===== verification/Ngx_String.thy ===== *)
theory Ngx_String
  imports Nginx_Prelude "HOL-Library.List_Lexorder" "HOL-Library.Multiset"
begin

text \<open>
  The string functions of \<open>nginx/src/core/ngx_string.c\<close>: copies, case-insensitive and
  length-bounded comparisons, substring search and the stable sort.  A pointer that the
  code advances is the rest of the list, a returned pointer is an offset from the start
  of the string (\<open>None\<close> for \<open>NULL\<close>).  The comparisons return differences of unsigned
  values converted to \<open>ngx_int_t\<close>, which is the difference of the \<open>int\<close> values.
\<close>

section \<open>Case folding and copies\<close>

definition ngx_tolower :: "int \<Rightarrow> int" where
  "ngx_tolower c = (if 65 \<le> c \<and> c \<le> 90 then c OR 0x20 else c)"

definition ngx_strlow :: "string \<Rightarrow> nat \<Rightarrow> int list" where
  \<comment> \<open>the \<open>n\<close> characters written to \<open>dst\<close>\<close>
  "ngx_strlow src n = map (\<lambda>c. ngx_tolower (cval c)) (take n src)"

fun ngx_strnlen_from :: "nat \<Rightarrow> string \<Rightarrow> nat \<Rightarrow> nat" where
  "ngx_strnlen_from i p 0 = i"
| "ngx_strnlen_from i p (Suc n) =
     (if chd p = 0 then i else ngx_strnlen_from (i + 1) (tl p) n)"

definition ngx_strnlen :: "string \<Rightarrow> nat \<Rightarrow> nat" where
  "ngx_strnlen p n = ngx_strnlen_from 0 p n"

fun cpystrn_loop :: "string \<Rightarrow> nat \<Rightarrow> string" where
  \<comment> \<open>the characters before the NUL that ends the copy\<close>
  "cpystrn_loop src 0 = []"
| "cpystrn_loop src (Suc n) =
     (case src of [] \<Rightarrow> []
      | c # rest \<Rightarrow> if cval c = 0 then [] else c # cpystrn_loop rest n)"

definition ngx_cpystrn :: "string \<Rightarrow> nat \<Rightarrow> string option" where
  \<comment> \<open>\<open>None\<close>: nothing is written, not even the NUL; \<open>Some s\<close>: \<open>s\<close> and a NUL are written\<close>
  "ngx_cpystrn src n = (if n = 0 then None else Some (cpystrn_loop src (n - 1)))"

section \<open>Comparisons\<close>

fun ngx_strncasecmp :: "string \<Rightarrow> string \<Rightarrow> nat \<Rightarrow> int" where
  "ngx_strncasecmp s1 s2 0 = 0"
| "ngx_strncasecmp s1 s2 (Suc n) =
     (let c1 = ngx_tolower (chd s1); c2 = ngx_tolower (chd s2)
      in if c1 = c2 then (if c1 \<noteq> 0 then ngx_strncasecmp (tl s1) (tl s2) n else 0)
         else c1 - c2)"

fun ngx_strcasecmp :: "string \<Rightarrow> string \<Rightarrow> int" where
  \<comment> \<open>the loop ends at the NUL of the shorter string at the latest\<close>
  "ngx_strcasecmp (a # s1) (b # s2) =
     (let c1 = ngx_tolower (cval a); c2 = ngx_tolower (cval b)
      in if c1 = c2 then (if c1 \<noteq> 0 then ngx_strcasecmp s1 s2 else 0) else c1 - c2)"
| "ngx_strcasecmp s1 s2 = ngx_tolower (chd s1) - ngx_tolower (chd s2)"

fun ngx_dns_strcmp :: "string \<Rightarrow> string \<Rightarrow> int" where
  "ngx_dns_strcmp (a # s1) (b # s2) =
     (let c1 = ngx_tolower (cval a); c2 = ngx_tolower (cval b)
      in if c1 = c2 then (if c1 \<noteq> 0 then ngx_dns_strcmp s1 s2 else 0)
         else (if c1 = 46 then 32 else c1) - (if c2 = 46 then 32 else c2))"
| "ngx_dns_strcmp s1 s2 =
     (let c1 = ngx_tolower (chd s1); c2 = ngx_tolower (chd s2)
      in if c1 = c2 then 0
         else (if c1 = 46 then 32 else c1) - (if c2 = 46 then 32 else c2))"

fun ngx_filename_cmp :: "string \<Rightarrow> string \<Rightarrow> nat \<Rightarrow> int" where
  \<comment> \<open>on a case-sensitive file system\<close>
  "ngx_filename_cmp s1 s2 0 = 0"
| "ngx_filename_cmp s1 s2 (Suc n) =
     (let c1 = chd s1; c2 = chd s2
      in if c1 = c2 then (if c1 \<noteq> 0 then ngx_filename_cmp (tl s1) (tl s2) n else 0)
         else if c1 = 0 \<or> c2 = 0 then c1 - c2
         else (if c1 = 47 then 0 else c1) - (if c2 = 47 then 0 else c2))"

fun c_memcmp :: "string \<Rightarrow> string \<Rightarrow> nat \<Rightarrow> int" where
  \<comment> \<open>\<open>memcmp\<close> promises the sign only; here it is the difference of the first two bytes that differ\<close>
  "c_memcmp s1 s2 0 = 0"
| "c_memcmp s1 s2 (Suc n) =
     (if chd s1 \<noteq> chd s2 then chd s1 - chd s2 else c_memcmp (tl s1) (tl s2) n)"

definition ngx_memn2cmp :: "string \<Rightarrow> string \<Rightarrow> nat \<Rightarrow> nat \<Rightarrow> int" where
  "ngx_memn2cmp s1 s2 n1 n2 =
     (let (n, z) = (if n1 \<le> n2 then (n1, -1) else (n2, 1));
          m = c_memcmp s1 s2 n
      in if m \<noteq> 0 \<or> n1 = n2 then m else z)"

fun rstrncmp_loop :: "string \<Rightarrow> string \<Rightarrow> nat \<Rightarrow> int" where
  "rstrncmp_loop s1 s2 n =
     (if s1 ! n \<noteq> s2 ! n then cval (s1 ! n) - cval (s2 ! n)
      else case n of 0 \<Rightarrow> 0 | Suc m \<Rightarrow> rstrncmp_loop s1 s2 m)"

definition ngx_rstrncmp :: "string \<Rightarrow> string \<Rightarrow> nat \<Rightarrow> int" where
  "ngx_rstrncmp s1 s2 n = (if n = 0 then 0 else rstrncmp_loop s1 s2 (n - 1))"

definition upcase :: "int \<Rightarrow> int" where
  "upcase c = (if 97 \<le> c \<and> c \<le> 122 then c - 32 else c)"

fun rstrncasecmp_loop :: "string \<Rightarrow> string \<Rightarrow> nat \<Rightarrow> int" where
  "rstrncasecmp_loop s1 s2 n =
     (let c1 = upcase (cval (s1 ! n)); c2 = upcase (cval (s2 ! n))
      in if c1 \<noteq> c2 then c1 - c2
         else case n of 0 \<Rightarrow> 0 | Suc m \<Rightarrow> rstrncasecmp_loop s1 s2 m)"

definition ngx_rstrncasecmp :: "string \<Rightarrow> string \<Rightarrow> nat \<Rightarrow> int" where
  "ngx_rstrncasecmp s1 s2 n = (if n = 0 then 0 else rstrncasecmp_loop s1 s2 (n - 1))"

section \<open>Searching\<close>

fun ngx_strlchr :: "string \<Rightarrow> nat \<Rightarrow> char \<Rightarrow> nat option" where
  \<comment> \<open>search the characters before \<open>last\<close>, given by its distance from \<open>p\<close>\<close>
  "ngx_strlchr p 0 c = None"
| "ngx_strlchr p (Suc n) c =
     (case p of [] \<Rightarrow> None
      | x # xs \<Rightarrow> if x = c then Some 0 else map_option Suc (ngx_strlchr xs n c))"

fun strnstr_loop :: "int \<Rightarrow> string \<Rightarrow> string \<Rightarrow> nat \<Rightarrow> nat option" where
  \<comment> \<open>\<open>c2\<close> and \<open>s2\<close> are the first character and the rest of the needle\<close>
  "strnstr_loop c2 s2 s1 0 = None"
| "strnstr_loop c2 s2 s1 (Suc len) =
     (let c1 = chd s1
      in if c1 = 0 then None
         else if c1 \<noteq> c2 then map_option Suc (strnstr_loop c2 s2 (tl s1) len)
         else if length s2 > len then None
         else if c_strncmp (tl s1) s2 (length s2) \<noteq> 0
         then map_option Suc (strnstr_loop c2 s2 (tl s1) len)
         else Some 0)"

definition ngx_strnstr :: "string \<Rightarrow> string \<Rightarrow> nat \<Rightarrow> nat option" where
  "ngx_strnstr s1 s2 len = strnstr_loop (chd s2) (tl s2) s1 len"

fun strstrn_loop :: "int \<Rightarrow> string \<Rightarrow> nat \<Rightarrow> string \<Rightarrow> nat option" where
  "strstrn_loop c2 s2 n [] = None"
| "strstrn_loop c2 s2 n (x # s1) =
     (if cval x = 0 then None
      else if cval x \<noteq> c2 then map_option Suc (strstrn_loop c2 s2 n s1)
      else if c_strncmp s1 s2 n \<noteq> 0 then map_option Suc (strstrn_loop c2 s2 n s1)
      else Some 0)"

definition ngx_strstrn :: "string \<Rightarrow> string \<Rightarrow> nat \<Rightarrow> nat option" where
  "ngx_strstrn s1 s2 n = strstrn_loop (chd s2) (tl s2) n s1"

fun strcasestrn_loop :: "int \<Rightarrow> string \<Rightarrow> nat \<Rightarrow> string \<Rightarrow> nat option" where
  "strcasestrn_loop c2 s2 n [] = None"
| "strcasestrn_loop c2 s2 n (x # s1) =
     (if cval x = 0 then None
      else if ngx_tolower (cval x) \<noteq> c2 then map_option Suc (strcasestrn_loop c2 s2 n s1)
      else if ngx_strncasecmp s1 s2 n \<noteq> 0 then map_option Suc (strcasestrn_loop c2 s2 n s1)
      else Some 0)"

definition char_to_uint :: "int \<Rightarrow> int" where
  \<comment> \<open>\<open>(ngx_uint_t) c\<close> of a \<open>char\<close>, which is signed\<close>
  "char_to_uint c = (if c < 128 then c else 2 ^ 64 - 256 + c)"

definition ngx_strcasestrn :: "string \<Rightarrow> string \<Rightarrow> nat \<Rightarrow> nat option" where
  \<comment> \<open>the needle is a \<open>char *\<close>, the text an \<open>u_char *\<close>\<close>
  "ngx_strcasestrn s1 s2 n = strcasestrn_loop (ngx_tolower (char_to_uint (chd s2))) (tl s2) n s1"

fun strlcasestrn_loop :: "int \<Rightarrow> string \<Rightarrow> nat \<Rightarrow> string \<Rightarrow> nat \<Rightarrow> nat option" where
  \<comment> \<open>the last argument is \<open>last - s1\<close>, after \<open>last -= n\<close>\<close>
  "strlcasestrn_loop c2 s2 n s1 0 = None"
| "strlcasestrn_loop c2 s2 n s1 (Suc left) =
     (if ngx_tolower (chd s1) \<noteq> c2
      then map_option Suc (strlcasestrn_loop c2 s2 n (tl s1) left)
      else if ngx_strncasecmp (tl s1) s2 n \<noteq> 0
      then map_option Suc (strlcasestrn_loop c2 s2 n (tl s1) left)
      else Some 0)"

definition ngx_strlcasestrn :: "string \<Rightarrow> nat \<Rightarrow> string \<Rightarrow> nat \<Rightarrow> nat option" where
  "ngx_strlcasestrn s1 lst s2 n =
     strlcasestrn_loop (ngx_tolower (chd s2)) (tl s2) n s1 (lst - n)"

section \<open>The stable insertion sort\<close>

fun sift_back :: "('a \<Rightarrow> 'a \<Rightarrow> int) \<Rightarrow> 'a list \<Rightarrow> nat \<Rightarrow> 'a \<Rightarrow> 'a list" where
  \<comment> \<open>the inner loop: move the elements before \<open>p2\<close> that compare greater one place up,
    then store the saved element\<close>
  "sift_back cmp xs 0 p = xs[0 := p]"
| "sift_back cmp xs (Suc p2) p =
     (if cmp (xs ! p2) p > 0 then sift_back cmp (xs[Suc p2 := xs ! p2]) p2 p
      else xs[Suc p2 := p])"

fun ngx_sort_from :: "('a \<Rightarrow> 'a \<Rightarrow> int) \<Rightarrow> 'a list \<Rightarrow> nat \<Rightarrow> nat \<Rightarrow> 'a list" where
  \<comment> \<open>the outer loop from \<open>p1\<close>, with the number of elements left\<close>
  "ngx_sort_from cmp xs p1 0 = xs"
| "ngx_sort_from cmp xs p1 (Suc k) =
     ngx_sort_from cmp (sift_back cmp xs p1 (xs ! p1)) (Suc p1) k"

definition ngx_sort :: "bool \<Rightarrow> ('a \<Rightarrow> 'a \<Rightarrow> int) \<Rightarrow> 'a list \<Rightarrow> 'a list" where
  \<comment> \<open>the first argument says whether \<open>ngx_alloc\<close> gave the buffer for the saved element\<close>
  "ngx_sort alloc_ok cmp base =
     (if alloc_ok then ngx_sort_from cmp base 1 (length base - 1) else base)"

section \<open>What the functions compute\<close>

lemma cval_less_iff: "cval a < cval b \<longleftrightarrow> a < b"
  by (simp add: cval_def less_char_def)

lemma c_memcmp_sign:
  "n \<le> length s \<Longrightarrow> n \<le> length t \<Longrightarrow>
   (c_memcmp s t n = 0 \<longleftrightarrow> take n s = take n t) \<and>
   (c_memcmp s t n < 0 \<longleftrightarrow> take n s < take n t)"
proof (induction n arbitrary: s t)
  case 0
  then show ?case by simp
next
  case (Suc n)
  then obtain a s' b t' where "s = a # s'" "t = b # t'"
    by (cases s; cases t) auto
  with Suc show ?case
    using cval_less_iff [of a b] cval_eq_iff [of a b] by (auto simp: Cons_less_Cons)
qed

text \<open>\<open>ngx_memn2cmp\<close> is the lexicographic order on byte strings.\<close>

lemma less_append_take:
  fixes s t :: "string"
  shows "length s \<le> length t \<Longrightarrow> s < t \<longleftrightarrow> s < take (length s) t \<or> (s = take (length s) t \<and> length s < length t)"
proof (induction s arbitrary: t)
  case Nil
  then show ?case by (cases t) auto
next
  case (Cons a s)
  then obtain b t' where t: "t = b # t'" by (cases t) auto
  define u where "u = take (length s) t'"
  have IH: "s < t' \<longleftrightarrow> s < u \<or> (s = u \<and> length s < length t')"
    unfolding u_def using Cons.IH [of t'] Cons.prems t by simp
  have u: "take (length (a # s)) t = b # u" by (simp add: t u_def)
  have "length (a # s) < length t \<longleftrightarrow> length s < length t'" by (simp add: t)
  then show ?case unfolding u unfolding t Cons_less_Cons list.inject using IH by blast
qed

lemma c_memcmp_0: "n \<le> length s \<Longrightarrow> n \<le> length t \<Longrightarrow> c_memcmp s t n = 0 \<longleftrightarrow> take n s = take n t"
  using c_memcmp_sign by blast

lemma c_memcmp_neg: "n \<le> length s \<Longrightarrow> n \<le> length t \<Longrightarrow> c_memcmp s t n < 0 \<longleftrightarrow> take n s < take n t"
  using c_memcmp_sign by blast

lemma ngx_memn2cmp_le:
  "length s \<le> length t \<Longrightarrow> ngx_memn2cmp s t (length s) (length t) =
    (if c_memcmp s t (length s) \<noteq> 0 \<or> length s = length t then c_memcmp s t (length s) else -1)"
  by (simp add: ngx_memn2cmp_def Let_def)

lemma ngx_memn2cmp_gt:
  "length t < length s \<Longrightarrow> ngx_memn2cmp s t (length s) (length t) =
    (if c_memcmp s t (length t) \<noteq> 0 then c_memcmp s t (length t) else 1)"
  by (simp add: ngx_memn2cmp_def Let_def)

lemma ngx_memn2cmp_eq_0: "ngx_memn2cmp s t (length s) (length t) = 0 \<longleftrightarrow> s = t"
proof (cases "length s = length t")
  case True
  then have "ngx_memn2cmp s t (length s) (length t) = c_memcmp s t (length s)"
    by (simp add: ngx_memn2cmp_def)
  with True show ?thesis by (simp add: c_memcmp_0)
next
  case False
  then have "ngx_memn2cmp s t (length s) (length t) \<noteq> 0"
    by (cases "length s \<le> length t") (simp_all add: ngx_memn2cmp_le ngx_memn2cmp_gt)
  with False show ?thesis by auto
qed

lemma ngx_memn2cmp_less: "ngx_memn2cmp s t (length s) (length t) < 0 \<longleftrightarrow> s < t"
proof (cases "length s \<le> length t")
  case True
  let ?m = "c_memcmp s t (length s)"
  have "?m = 0 \<longleftrightarrow> s = take (length s) t" "?m < 0 \<longleftrightarrow> s < take (length s) t"
    using True by (simp_all add: c_memcmp_0 c_memcmp_neg)
  moreover have "ngx_memn2cmp s t (length s) (length t) < 0 \<longleftrightarrow>
      ?m < 0 \<or> (?m = 0 \<and> length s < length t)"
    using True by (simp add: ngx_memn2cmp_le) linarith
  ultimately show ?thesis using less_append_take [OF True] by blast
next
  case False
  let ?m = "c_memcmp s t (length t)"
  have gt: "length t < length s" using False by simp
  then have m: "?m = 0 \<longleftrightarrow> take (length t) s = t" "?m < 0 \<longleftrightarrow> take (length t) s < t"
    by (simp_all add: c_memcmp_0 c_memcmp_neg)
  have "ngx_memn2cmp s t (length s) (length t) < 0 \<longleftrightarrow> ?m < 0"
    using gt by (simp add: ngx_memn2cmp_gt)
  also have "\<dots> \<longleftrightarrow> \<not> (t < take (length t) s \<or> t = take (length t) s)"
    unfolding m by auto
  also have "\<dots> \<longleftrightarrow> \<not> t < s"
    using less_append_take [of t s] gt by auto
  also have "\<dots> \<longleftrightarrow> s < t"
    using gt not_less [of t s] order_le_less [of s t] by auto
  finally show ?thesis .
qed

definition lower :: "string \<Rightarrow> int list" where
  "lower s = map (\<lambda>c. ngx_tolower (cval c)) s"

lemma ngx_tolower_0 [simp]: "ngx_tolower c = 0 \<longleftrightarrow> c = 0"
proof (cases "65 \<le> c \<and> c \<le> 90")
  case True
  then have "c OR 0x20 \<noteq> 0"
    by (metis or_eq_0_iff zero_neq_numeral)
  with True show ?thesis by (auto simp: ngx_tolower_def)
qed (auto simp: ngx_tolower_def)

lemma ngx_tolower_zero [simp]: "ngx_tolower 0 = 0"
  by simp

lemma ngx_strncasecmp_0:
  "no_nul s \<Longrightarrow> no_nul t \<Longrightarrow> n \<le> length s \<Longrightarrow> n \<le> length t \<Longrightarrow>
   ngx_strncasecmp s t n = 0 \<longleftrightarrow> lower (take n s) = lower (take n t)"
proof (induction n arbitrary: s t)
  case 0
  then show ?case by simp
next
  case (Suc n)
  then obtain a s' b t' where "s = a # s'" "t = b # t'"
    by (cases s; cases t) auto
  with Suc show ?case by (auto simp: lower_def Let_def)
qed

lemma chd_no_nul: "no_nul t \<Longrightarrow> chd t = 0 \<longleftrightarrow> t = []"
  by (cases t) simp_all

lemma ngx_strcasecmp_0:
  "no_nul s \<Longrightarrow> no_nul t \<Longrightarrow> ngx_strcasecmp s t = 0 \<longleftrightarrow> lower s = lower t"
proof (induction s t rule: ngx_strcasecmp.induct)
  case (1 a s1 b s2)
  then show ?case by (auto simp: lower_def Let_def)
qed (simp_all add: lower_def chd_no_nul)

definition occurs_at :: "string \<Rightarrow> string \<Rightarrow> nat \<Rightarrow> nat \<Rightarrow> bool" where
  \<comment> \<open>the needle lies at offset \<open>k\<close> within the first \<open>len\<close> characters\<close>
  "occurs_at s needle len k \<longleftrightarrow> k + length needle \<le> len \<and> take (length needle) (drop k s) = needle"

lemma occurs_at_Suc [simp]:
  "occurs_at (x # s) needle (Suc len) (Suc k) \<longleftrightarrow> occurs_at s needle len k"
  by (simp add: occurs_at_def)

lemma occurs_at_0:
  "occurs_at (x # s) (c # cs) (Suc len) 0 \<longleftrightarrow>
     x = c \<and> length cs \<le> len \<and> take (length cs) s = cs"
  by (auto simp: occurs_at_def)

lemma strnstr_loop_first:
  assumes "no_nul s1" "no_nul (c # s2)" "len \<le> length s1"
  shows "case strnstr_loop (cval c) s2 s1 len of
      None \<Rightarrow> (\<forall>k. \<not> occurs_at s1 (c # s2) len k)
    | Some k \<Rightarrow> occurs_at s1 (c # s2) len k \<and> (\<forall>j<k. \<not> occurs_at s1 (c # s2) len j)"
  using assms
proof (induction len arbitrary: s1)
  case 0
  then show ?case by (auto simp: occurs_at_def)
next
  case (Suc len)
  then obtain x s where s1: "s1 = x # s" by (cases s1) auto
  let ?rec = "strnstr_loop (cval c) s2 s len"
  have IH: "case ?rec of None \<Rightarrow> (\<forall>k. \<not> occurs_at s (c # s2) len k)
    | Some k \<Rightarrow> occurs_at s (c # s2) len k \<and> (\<forall>j<k. \<not> occurs_at s (c # s2) len j)"
    using Suc s1 by simp
  have step: "case map_option Suc ?rec of None \<Rightarrow> (\<forall>k. \<not> occurs_at s1 (c # s2) (Suc len) k)
      | Some k \<Rightarrow> occurs_at s1 (c # s2) (Suc len) k \<and> (\<forall>j<k. \<not> occurs_at s1 (c # s2) (Suc len) j)"
    if no0: "\<not> occurs_at s1 (c # s2) (Suc len) 0"
  proof (cases ?rec)
    case None
    with IH no0 s1 show ?thesis by (auto simp: gr0_conv_Suc) (metis not0_implies_Suc occurs_at_Suc)
  next
    case (Some k)
    have "\<not> occurs_at s1 (c # s2) (Suc len) j" if "j < Suc k" for j
      using that IH no0 s1 Some by (cases j) auto
    with IH Some s1 show ?thesis by auto
  qed
  consider (other) "x \<noteq> c" | (long) "x = c" "length s2 > len"
    | (miss) "x = c" "length s2 \<le> len" "take (length s2) s \<noteq> s2"
    | (hit) "x = c" "length s2 \<le> len" "take (length s2) s = s2" by linarith
  then show ?case
  proof cases
    case other
    then have eq: "strnstr_loop (cval c) s2 s1 (Suc len) = map_option Suc ?rec"
      using Suc.prems s1 by (simp add: Let_def)
    show ?thesis unfolding eq by (rule step) (use other s1 in \<open>simp add: occurs_at_0\<close>)
  next
    case long
    have "strnstr_loop (cval c) s2 s1 (Suc len) = None"
      using long Suc.prems s1 by (simp add: Let_def)
    then show ?thesis using long by (auto simp: occurs_at_def)
  next
    case miss
    then have eq: "strnstr_loop (cval c) s2 s1 (Suc len) = map_option Suc ?rec"
      using Suc.prems s1 c_strncmp_prefix [of s2 s] by (simp add: Let_def)
    show ?thesis unfolding eq by (rule step) (use miss s1 in \<open>simp add: occurs_at_0\<close>)
  next
    case hit
    then have "strnstr_loop (cval c) s2 s1 (Suc len) = Some 0"
      using Suc.prems s1 c_strncmp_prefix [of s2 s] by (simp add: Let_def)
    then show ?thesis using hit s1 by (simp add: occurs_at_0)
  qed
qed

section \<open>The sort is a stable insertion sort\<close>

definition ins_back :: "('a \<Rightarrow> 'a \<Rightarrow> int) \<Rightarrow> 'a \<Rightarrow> 'a list \<Rightarrow> 'a list" where
  \<comment> \<open>insert before the longest suffix of elements that compare greater\<close>
  "ins_back cmp x ys =
     rev (dropWhile (\<lambda>y. cmp y x > 0) (rev ys)) @ x # rev (takeWhile (\<lambda>y. cmp y x > 0) (rev ys))"

lemma sift_back_eq:
  "p2 < length xs \<Longrightarrow> sift_back cmp xs p2 p = ins_back cmp p (take p2 xs) @ drop (Suc p2) xs"
proof (induction p2 arbitrary: xs)
  case 0
  then show ?case by (cases xs) (auto simp: ins_back_def)
next
  case (Suc p2)
  then have snoc: "take (Suc p2) xs = take p2 xs @ [xs ! p2]"
    by (simp add: take_Suc_conv_app_nth)
  show ?case
  proof (cases "cmp (xs ! p2) p > 0")
    case True
    have "drop (Suc p2) (xs[Suc p2 := xs ! p2]) = xs ! p2 # drop (Suc (Suc p2)) xs"
      using Suc.prems by (simp add: drop_update_swap Cons_nth_drop_Suc [symmetric])
    with True Suc.prems Suc.IH [of "xs[Suc p2 := xs ! p2]"] snoc show ?thesis
      by (simp add: ins_back_def)
  next
    case False
    have "xs[Suc p2 := p] = take (Suc p2) xs @ p # drop (Suc (Suc p2)) xs"
      using Suc.prems by (simp add: upd_conv_take_nth_drop)
    with False snoc show ?thesis by (simp add: ins_back_def)
  qed
qed

lemma length_ins_back [simp]: "length (ins_back cmp x ys) = Suc (length ys)"
proof -
  have "length (takeWhile P zs) + length (dropWhile P zs) = length zs" for P and zs :: "'a list"
    by (metis length_append takeWhile_dropWhile_id)
  from this [of "\<lambda>y. cmp y x > 0" "rev ys"] show ?thesis by (simp add: ins_back_def)
qed

lemma ngx_sort_from_foldl:
  "p1 + k = length xs \<Longrightarrow>
   ngx_sort_from cmp xs p1 k = foldl (\<lambda>ys x. ins_back cmp x ys) (take p1 xs) (drop p1 xs)"
proof (induction k arbitrary: xs p1)
  case 0
  then show ?case by simp
next
  case (Suc k)
  let ?xs = "sift_back cmp xs p1 (xs ! p1)"
  have eq: "?xs = ins_back cmp (xs ! p1) (take p1 xs) @ drop (Suc p1) xs"
    using Suc.prems by (intro sift_back_eq) simp
  have len: "length (ins_back cmp (xs ! p1) (take p1 xs)) = Suc p1"
    using Suc.prems by simp
  have "Suc p1 + k = length ?xs" using Suc.prems len by (simp add: eq)
  then have "ngx_sort_from cmp ?xs (Suc p1) k =
      foldl (\<lambda>ys x. ins_back cmp x ys) (take (Suc p1) ?xs) (drop (Suc p1) ?xs)"
    by (rule Suc.IH)
  also have "\<dots> = foldl (\<lambda>ys x. ins_back cmp x ys) (ins_back cmp (xs ! p1) (take p1 xs)) (drop (Suc p1) xs)"
    using len by (simp add: eq)
  finally show ?case
    using Suc.prems by (simp add: Cons_nth_drop_Suc [symmetric])
qed

lemma ngx_sort_foldl:
  "ngx_sort True cmp xs = foldl (\<lambda>ys x. ins_back cmp x ys) [] xs"
proof (cases xs)
  case Nil
  then show ?thesis by (simp add: ngx_sort_def)
next
  case (Cons x ys)
  then show ?thesis
    by (simp add: ngx_sort_def ngx_sort_from_foldl ins_back_def)
qed

lemma mset_ins_back: "mset (ins_back cmp x ys) = add_mset x (mset ys)"
proof -
  have "mset (dropWhile P zs) + mset (takeWhile P zs) = mset zs" for P and zs :: "'a list"
    by (metis mset_append takeWhile_dropWhile_id union_commute)
  from this [of "\<lambda>y. cmp y x > 0" "rev ys"] show ?thesis by (simp add: ins_back_def)
qed

lemma mset_foldl_ins_back:
  "mset (foldl (\<lambda>ys x. ins_back cmp x ys) acc xs) = mset acc + mset xs"
  by (induction xs arbitrary: acc) (simp_all add: mset_ins_back)

text \<open>The contract a comparison callback has to meet for the result to be sorted.\<close>

locale sort_order =
  fixes cmp :: "'a \<Rightarrow> 'a \<Rightarrow> int"
  assumes cmp_total: "cmp a b > 0 \<Longrightarrow> cmp b a \<le> 0"
    and cmp_trans: "cmp a b \<le> 0 \<Longrightarrow> cmp b c \<le> 0 \<Longrightarrow> cmp a c \<le> 0"
begin

lemma ins_back_sorted:
  assumes "sorted_wrt (\<lambda>a b. cmp a b \<le> 0) ys"
  shows "sorted_wrt (\<lambda>a b. cmp a b \<le> 0) (ins_back cmp x ys)"
proof -
  define le where "le = rev (dropWhile (\<lambda>y. cmp y x > 0) (rev ys))"
  define gt where "gt = rev (takeWhile (\<lambda>y. cmp y x > 0) (rev ys))"
  have ys: "ys = le @ gt"
    unfolding le_def gt_def by (metis rev_append rev_rev_ident takeWhile_dropWhile_id)
  have gt: "\<forall>y \<in> set gt. cmp x y \<le> 0"
    unfolding gt_def by (auto dest!: set_takeWhileD intro: cmp_total)
  have le: "\<forall>y \<in> set le. cmp y x \<le> 0"
  proof (cases "dropWhile (\<lambda>y. cmp y x > 0) (rev ys)")
    case Nil
    have "le = []" unfolding le_def Nil by simp
    then show ?thesis by simp
  next
    case (Cons z zs)
    then have z: "cmp z x \<le> 0" by (metis dropWhile_eq_Cons_conv not_le)
    have "le = rev zs @ [z]" by (simp add: le_def Cons)
    with assms ys have "\<forall>y \<in> set zs. cmp y z \<le> 0" by (auto simp: sorted_wrt_append)
    with z \<open>le = rev zs @ [z]\<close> show ?thesis by (auto intro: cmp_trans)
  qed
  have "ins_back cmp x ys = le @ x # gt" by (simp add: ins_back_def le_def gt_def)
  with assms ys gt le show ?thesis by (auto simp: sorted_wrt_append)
qed

lemma ngx_sort_sorted: "sorted_wrt (\<lambda>a b. cmp a b \<le> 0) (ngx_sort True cmp xs)"
proof -
  have "sorted_wrt (\<lambda>a b. cmp a b \<le> 0) acc \<Longrightarrow>
      sorted_wrt (\<lambda>a b. cmp a b \<le> 0) (foldl (\<lambda>ys x. ins_back cmp x ys) acc xs)" for acc
    by (induction xs arbitrary: acc) (simp_all add: ins_back_sorted)
  then show ?thesis by (simp add: ngx_sort_foldl)
qed

lemma filter_ins_back:
  "filter (\<lambda>y. cmp a y \<le> 0 \<and> cmp y a \<le> 0) (ins_back cmp x ys) =
   filter (\<lambda>y. cmp a y \<le> 0 \<and> cmp y a \<le> 0) (ys @ [x])"
proof -
  let ?E = "\<lambda>y. cmp a y \<le> 0 \<and> cmp y a \<le> 0"
  define le where "le = rev (dropWhile (\<lambda>y. cmp y x > 0) (rev ys))"
  define gt where "gt = rev (takeWhile (\<lambda>y. cmp y x > 0) (rev ys))"
  have ys: "ys = le @ gt"
    unfolding le_def gt_def by (metis rev_append rev_rev_ident takeWhile_dropWhile_id)
  have "\<not> ?E y" if "?E x" "y \<in> set gt" for y
  proof
    assume "?E y"
    with that(1) have "cmp y x \<le> 0" by (blast intro: cmp_trans)
    with that(2) show False unfolding gt_def by (auto dest!: set_takeWhileD)
  qed
  then have "?E x \<Longrightarrow> filter ?E gt = []" by (auto simp: filter_empty_conv)
  moreover have "ins_back cmp x ys = le @ x # gt" by (simp add: ins_back_def le_def gt_def)
  ultimately show ?thesis by (auto simp: ys)
qed

lemma ngx_sort_stable:
  "filter (\<lambda>y. cmp a y \<le> 0 \<and> cmp y a \<le> 0) (ngx_sort True cmp xs) =
   filter (\<lambda>y. cmp a y \<le> 0 \<and> cmp y a \<le> 0) xs"
proof -
  let ?E = "\<lambda>y. cmp a y \<le> 0 \<and> cmp y a \<le> 0"
  have "filter ?E (foldl (\<lambda>ys x. ins_back cmp x ys) acc xs) = filter ?E (acc @ xs)" for acc
  proof (induction xs arbitrary: acc)
    case Nil
    then show ?case by simp
  next
    case (Cons x xs)
    have "filter ?E (foldl (\<lambda>ys x. ins_back cmp x ys) acc (x # xs)) =
        filter ?E (ins_back cmp x acc) @ filter ?E xs"
      using Cons [of "ins_back cmp x acc"] by simp
    also have "\<dots> = filter ?E (acc @ [x]) @ filter ?E xs"
      by (simp only: filter_ins_back)
    finally show ?case by simp
  qed
  then show ?thesis by (simp add: ngx_sort_foldl)
qed

end

interpretation bytes_order: sort_order "\<lambda>s t. ngx_memn2cmp s t (length s) (length t)"
proof
  have le: "ngx_memn2cmp s t (length s) (length t) \<le> 0 \<longleftrightarrow> s \<le> t" for s t
    using ngx_memn2cmp_less [of s t] ngx_memn2cmp_eq_0 [of s t] by (auto simp: order_le_less)
  fix a b c :: string
  show "0 < ngx_memn2cmp a b (length a) (length b) \<Longrightarrow> ngx_memn2cmp b a (length b) (length a) \<le> 0"
    using le [of a b] le [of b a] by auto
  show "ngx_memn2cmp a b (length a) (length b) \<le> 0 \<Longrightarrow>
      ngx_memn2cmp b c (length b) (length c) \<le> 0 \<Longrightarrow> ngx_memn2cmp a c (length a) (length c) \<le> 0"
    unfolding le by simp
qed

section \<open>Properties\<close>

text \<open>\<open>ngx_memn2cmp\<close> decides the lexicographic order of two byte strings, the shorter first when
  one is a prefix of the other: it is a total order, the one the trees keyed by strings rely on.\<close>
theorem memn2cmp_lexicographic:
  "(ngx_memn2cmp s t (length s) (length t) < 0 \<longleftrightarrow> s < t) \<and>
   (ngx_memn2cmp s t (length s) (length t) = 0 \<longleftrightarrow> s = t)"
  by (simp add: ngx_memn2cmp_less ngx_memn2cmp_eq_0)

text \<open>\<open>ngx_strnstr\<close> finds the first occurrence of a needle that lies within the first \<open>len\<close>
  characters, and \<open>NULL\<close> only when there is none.\<close>
theorem strnstr_first:
  assumes "no_nul s" "no_nul needle" "needle \<noteq> []" "len \<le> length s"
  shows "ngx_strnstr s needle len =
    (if \<exists>k \<le> len. occurs_at s needle len k
     then Some (LEAST k. occurs_at s needle len k) else None)"
proof -
  obtain c cs where n: "needle = c # cs" using assms(3) by (cases needle) auto
  note f = strnstr_loop_first [OF assms(1) _ assms(4), of c cs]
  show ?thesis
  proof (cases "ngx_strnstr s needle len")
    case None
    then show ?thesis using f assms(2) n by (auto simp: ngx_strnstr_def)
  next
    case (Some k)
    then have k: "occurs_at s needle len k" "\<forall>j<k. \<not> occurs_at s needle len j"
      using f assms(2) n by (auto simp: ngx_strnstr_def)
    then have "(LEAST k. occurs_at s needle len k) = k"
      by (intro Least_equality) (auto simp: not_less [symmetric])
    moreover have "k \<le> len" using k(1) by (simp add: occurs_at_def)
    ultimately show ?thesis using Some k(1) by auto
  qed
qed

theorem strnstr_first_witness:
  "ngx_strnstr ''a/b/c'' ''/b'' 5 = Some (LEAST k. occurs_at ''a/b/c'' ''/b'' 5 k)"
proof -
  have "occurs_at ''a/b/c'' ''/b'' 5 1" by (simp add: occurs_at_def)
  then have "\<exists>k \<le> 5. occurs_at ''a/b/c'' ''/b'' 5 k" by (intro exI [of _ 1]) simp
  then show ?thesis using strnstr_first [of "''a/b/c''" "''/b''" 5] by (simp add: cval_def)
qed

text \<open>\<open>ngx_sort\<close> sorts stably whenever the comparison is a total preorder: a permutation of its
  input, in order, with equivalent elements in the order they had.\<close>
theorem sort_stable:
  assumes "\<And>a b. cmp a b > 0 \<Longrightarrow> cmp b a \<le> (0 :: int)" "\<And>a b c. cmp a b \<le> 0 \<Longrightarrow> cmp b c \<le> 0 \<Longrightarrow> cmp a c \<le> 0"
  shows "mset (ngx_sort True cmp xs) = mset xs \<and>
    sorted_wrt (\<lambda>a b. cmp a b \<le> 0) (ngx_sort True cmp xs) \<and>
    filter (\<lambda>y. cmp a y \<le> 0 \<and> cmp y a \<le> 0) (ngx_sort True cmp xs) =
    filter (\<lambda>y. cmp a y \<le> 0 \<and> cmp y a \<le> 0) xs"
proof -
  have o: "sort_order cmp" using assms by (intro sort_order.intro) blast+
  have "mset (ngx_sort True cmp xs) = mset xs" by (simp add: ngx_sort_foldl mset_foldl_ins_back)
  then show ?thesis using sort_order.ngx_sort_sorted [OF o] sort_order.ngx_sort_stable [OF o] by blast
qed

theorem sort_stable_witness:
  "filter (\<lambda>y. snd y = 1) (ngx_sort True (\<lambda>a b. snd a - snd b) [(0 :: nat, 2 :: int), (1, 1), (2, 1)]) =
   [(1, 1), (2, 1)]"
proof -
  let ?xs = "[(0 :: nat, 2 :: int), (1, 1), (2, 1)]"
  have "filter (\<lambda>y. (1 :: int) - snd y \<le> 0 \<and> snd y - 1 \<le> 0) (ngx_sort True (\<lambda>a b. snd a - snd b) ?xs) =
      filter (\<lambda>y. 1 - snd y \<le> 0 \<and> snd y - 1 \<le> 0) ?xs"
    using sort_stable [of "\<lambda>a b. snd a - snd b" ?xs "(1, 1)"] by simp
  moreover have "(\<lambda>y. (1 :: int) - snd y \<le> 0 \<and> snd y - 1 \<le> 0) = (\<lambda>y :: nat \<times> int. snd y = 1)" by auto
  ultimately show ?thesis by simp
qed

end
