(* ===== verification/Ngx_Queue.thy ===== *)
theory Ngx_Queue
  imports Ngx_String
begin

text \<open>
  The intrusive doubly linked queue of \<open>nginx/src/core/ngx_queue.h\<close> and \<open>ngx_queue.c\<close>,
  with its \<open>prev\<close> and \<open>next\<close> pointers explicit: a queue is a circular chain through a
  head (the sentinel), and each macro is the sequence of pointer assignments it expands to.
  The predicate \<open>queue_rep\<close> relates the pointers to a list, and the locale \<open>lru_queue\<close>
  states what the rate limiter relies on; the pointer operations are an instance of it.
\<close>

record 'a queue_links =
  prev_of :: "'a \<Rightarrow> 'a"
  next_of :: "'a \<Rightarrow> 'a"

definition set_prev :: "'a \<Rightarrow> 'a \<Rightarrow> 'a queue_links \<Rightarrow> 'a queue_links" where
  "set_prev x y Q = Q\<lparr>prev_of := (prev_of Q)(x := y)\<rparr>"

definition set_next :: "'a \<Rightarrow> 'a \<Rightarrow> 'a queue_links \<Rightarrow> 'a queue_links" where
  "set_next x y Q = Q\<lparr>next_of := (next_of Q)(x := y)\<rparr>"

lemma queue_links_simps [simp]:
  "prev_of (set_prev x y Q) = (prev_of Q)(x := y)" "next_of (set_prev x y Q) = next_of Q"
  "prev_of (set_next x y Q) = prev_of Q" "next_of (set_next x y Q) = (next_of Q)(x := y)"
  by (simp_all add: set_prev_def set_next_def)

section \<open>The macros\<close>

definition ngx_queue_init :: "'a \<Rightarrow> 'a queue_links \<Rightarrow> 'a queue_links" where
  "ngx_queue_init q Q = set_next q q (set_prev q q Q)"

definition ngx_queue_empty :: "'a \<Rightarrow> 'a queue_links \<Rightarrow> bool" where
  "ngx_queue_empty h Q \<longleftrightarrow> h = prev_of Q h"

definition ngx_queue_insert_head :: "'a \<Rightarrow> 'a \<Rightarrow> 'a queue_links \<Rightarrow> 'a queue_links" where
  "ngx_queue_insert_head h x Q =
     (let Q = set_next x (next_of Q h) Q;
          Q = set_prev (next_of Q x) x Q;
          Q = set_prev x h Q
      in set_next h x Q)"

definition ngx_queue_insert_after :: "'a \<Rightarrow> 'a \<Rightarrow> 'a queue_links \<Rightarrow> 'a queue_links" where
  "ngx_queue_insert_after = ngx_queue_insert_head"

definition ngx_queue_insert_tail :: "'a \<Rightarrow> 'a \<Rightarrow> 'a queue_links \<Rightarrow> 'a queue_links" where
  "ngx_queue_insert_tail h x Q =
     (let Q = set_prev x (prev_of Q h) Q;
          Q = set_next (prev_of Q x) x Q;
          Q = set_next x h Q
      in set_prev h x Q)"

definition ngx_queue_head :: "'a \<Rightarrow> 'a queue_links \<Rightarrow> 'a" where
  "ngx_queue_head h Q = next_of Q h"

definition ngx_queue_last :: "'a \<Rightarrow> 'a queue_links \<Rightarrow> 'a" where
  "ngx_queue_last h Q = prev_of Q h"

definition ngx_queue_next :: "'a \<Rightarrow> 'a queue_links \<Rightarrow> 'a" where
  "ngx_queue_next q Q = next_of Q q"

definition ngx_queue_prev :: "'a \<Rightarrow> 'a queue_links \<Rightarrow> 'a" where
  "ngx_queue_prev q Q = prev_of Q q"

definition ngx_queue_remove :: "'a option \<Rightarrow> 'a \<Rightarrow> 'a queue_links \<Rightarrow> 'a queue_links" where
  \<comment> \<open>the first argument selects the variant: \<open>Some\<close> of the null pointer under \<open>NGX_DEBUG\<close>\<close>
  "ngx_queue_remove dbg x Q =
     (let Q = set_prev (next_of Q x) (prev_of Q x) Q;
          Q = set_next (prev_of Q x) (next_of Q x) Q
      in case dbg of
           None \<Rightarrow> Q
         | Some null \<Rightarrow> set_next x null (set_prev x null Q))"

definition ngx_queue_split :: "'a \<Rightarrow> 'a \<Rightarrow> 'a \<Rightarrow> 'a queue_links \<Rightarrow> 'a queue_links" where
  "ngx_queue_split h q n Q =
     (let Q = set_prev n (prev_of Q h) Q;
          Q = set_next (prev_of Q n) n Q;
          Q = set_next n q Q;
          Q = set_prev h (prev_of Q q) Q;
          Q = set_next (prev_of Q h) h Q
      in set_prev q n Q)"

definition ngx_queue_add :: "'a \<Rightarrow> 'a \<Rightarrow> 'a queue_links \<Rightarrow> 'a queue_links" where
  "ngx_queue_add h n Q =
     (let Q = set_next (prev_of Q h) (next_of Q n) Q;
          Q = set_prev (next_of Q n) (prev_of Q h) Q;
          Q = set_prev h (prev_of Q n) Q
      in set_next (prev_of Q h) h Q)"

section \<open>The functions of \<open>ngx_queue.c\<close>\<close>

text \<open>The loops follow pointers, so on ill-formed links they need not end: not returning
  is the value \<open>None\<close>, and on a well-formed queue they are proved to return.\<close>

partial_function (option) queue_middle_loop ::
    "'a \<Rightarrow> 'a queue_links \<Rightarrow> 'a \<Rightarrow> 'a \<Rightarrow> 'a option" where
  [code]: "queue_middle_loop queue Q middle nxt =
     (let middle = ngx_queue_next middle Q;
          nxt = ngx_queue_next nxt Q
      in if nxt = ngx_queue_last queue Q then Some middle
         else (let nxt = ngx_queue_next nxt Q
               in if nxt = ngx_queue_last queue Q then Some middle
                  else queue_middle_loop queue Q middle nxt))"

definition ngx_queue_middle :: "'a \<Rightarrow> 'a queue_links \<Rightarrow> 'a option" where
  "ngx_queue_middle queue Q =
     (let middle = ngx_queue_head queue Q
      in if middle = ngx_queue_last queue Q then Some middle
         else queue_middle_loop queue Q middle (ngx_queue_head queue Q))"

partial_function (option) queue_sort_back ::
    "('a \<Rightarrow> 'a \<Rightarrow> int) \<Rightarrow> 'a \<Rightarrow> 'a queue_links \<Rightarrow> 'a \<Rightarrow> 'a \<Rightarrow> 'a option" where
  [code]: "queue_sort_back cmp queue Q prv q =
     (if cmp prv q \<le> 0 then Some prv
      else (let prv = ngx_queue_prev prv Q
            in if prv = queue then Some prv
               else queue_sort_back cmp queue Q prv q))"

partial_function (option) queue_sort_loop ::
    "'a option \<Rightarrow> ('a \<Rightarrow> 'a \<Rightarrow> int) \<Rightarrow> 'a \<Rightarrow> 'a \<Rightarrow> 'a queue_links \<Rightarrow> 'a queue_links option" where
  [code]: "queue_sort_loop dbg cmp queue q Q =
     (if q = queue then Some Q
      else (let prv = ngx_queue_prev q Q;
                nxt = ngx_queue_next q Q;
                Q = ngx_queue_remove dbg q Q
            in Option.bind (queue_sort_back cmp queue Q prv q)
                 (\<lambda>prv. queue_sort_loop dbg cmp queue nxt (ngx_queue_insert_after prv q Q))))"

definition ngx_queue_sort :: "'a option \<Rightarrow> ('a \<Rightarrow> 'a \<Rightarrow> int) \<Rightarrow> 'a \<Rightarrow> 'a queue_links \<Rightarrow> 'a queue_links option" where
  "ngx_queue_sort dbg cmp queue Q =
     (let q = ngx_queue_head queue Q
      in if q = ngx_queue_last queue Q then Some Q
         else queue_sort_loop dbg cmp queue (ngx_queue_next q Q) Q)"

lemmas ngx_queue_defs =
  ngx_queue_init_def ngx_queue_empty_def ngx_queue_insert_head_def ngx_queue_insert_after_def
  ngx_queue_insert_tail_def ngx_queue_head_def ngx_queue_last_def ngx_queue_next_def
  ngx_queue_prev_def ngx_queue_remove_def ngx_queue_split_def ngx_queue_add_def Let_def

section \<open>Chains and the represented list\<close>

fun chain :: "'a queue_links \<Rightarrow> 'a \<Rightarrow> 'a list \<Rightarrow> 'a \<Rightarrow> bool" where
  "chain Q a [] b \<longleftrightarrow> next_of Q a = b \<and> prev_of Q b = a"
| "chain Q a (x # xs) b \<longleftrightarrow> next_of Q a = x \<and> prev_of Q x = a \<and> chain Q x xs b"

definition queue_rep :: "'a \<Rightarrow> 'a queue_links \<Rightarrow> 'a list \<Rightarrow> bool" where
  "queue_rep h Q xs \<longleftrightarrow> distinct (h # xs) \<and> chain Q h xs h"

lemma chain_append: "chain Q a (xs @ y # ys) b \<longleftrightarrow> chain Q a xs y \<and> chain Q y ys b"
  by (induction xs arbitrary: a) auto

lemma chain_cong:
  assumes "chain Q a xs b"
    and "\<And>y. y \<in> set (a # xs) \<Longrightarrow> next_of Q' y = next_of Q y"
    and "\<And>y. y \<in> set (xs @ [b]) \<Longrightarrow> prev_of Q' y = prev_of Q y"
  shows "chain Q' a xs b"
  using assms by (induction xs arbitrary: a) auto

lemma queue_rep_unique: "queue_rep h Q xs \<Longrightarrow> queue_rep h Q ys \<Longrightarrow> xs = ys"
proof -
  have "chain Q a xs h \<Longrightarrow> chain Q a ys h \<Longrightarrow> h \<notin> set xs \<Longrightarrow> h \<notin> set ys \<Longrightarrow> xs = ys" for a
    by (induction xs arbitrary: a ys) (metis chain.simps list.set_intros(1) neq_Nil_conv,
        metis chain.simps list.set_intros neq_Nil_conv)
  then show "queue_rep h Q xs \<Longrightarrow> queue_rep h Q ys \<Longrightarrow> xs = ys" by (auto simp: queue_rep_def)
qed

lemma chain_last: "chain Q a xs b \<Longrightarrow> prev_of Q b = last (a # xs)"
  by (induction xs arbitrary: a) auto

lemma chain_hd: "chain Q a xs b \<Longrightarrow> next_of Q a = hd (xs @ [b])"
  by (cases xs) auto

lemma queue_rep_init: "queue_rep h (ngx_queue_init h Q) []"
  by (simp add: queue_rep_def ngx_queue_defs)

lemma queue_rep_empty: "queue_rep h Q xs \<Longrightarrow> ngx_queue_empty h Q \<longleftrightarrow> xs = []"
  by (cases xs rule: rev_cases) (auto simp: queue_rep_def ngx_queue_empty_def chain_append)

lemma queue_rep_last: "queue_rep h Q xs \<Longrightarrow> ngx_queue_last h Q = last (h # xs)"
  unfolding queue_rep_def ngx_queue_last_def by (blast dest: chain_last)

lemma queue_rep_head: "queue_rep h Q xs \<Longrightarrow> ngx_queue_head h Q = hd (xs @ [h])"
  by (simp add: queue_rep_def ngx_queue_head_def chain_hd)

lemma queue_rep_insert_head:
  assumes "queue_rep h Q xs" "x \<notin> set (h # xs)"
  shows "queue_rep h (ngx_queue_insert_head h x Q) (x # xs)"
proof (cases xs)
  case Nil
  with assms show ?thesis by (auto simp: queue_rep_def ngx_queue_defs)
next
  case (Cons y ys)
  with assms have d: "distinct (h # x # y # ys)" and c: "chain Q y ys h"
    by (auto simp: queue_rep_def)
  have "chain (ngx_queue_insert_head h x Q) y ys h"
    using c d assms Cons by (elim chain_cong) (auto simp: ngx_queue_defs queue_rep_def)
  with assms Cons d show ?thesis by (auto simp: queue_rep_def ngx_queue_defs)
qed

lemma queue_rep_insert_tail:
  assumes "queue_rep h Q xs" "x \<notin> set (h # xs)"
  shows "queue_rep h (ngx_queue_insert_tail h x Q) (xs @ [x])"
proof (cases xs rule: rev_cases)
  case Nil
  with assms show ?thesis by (auto simp: queue_rep_def ngx_queue_defs)
next
  case (snoc ys y)
  with assms have d: "distinct (h # ys @ [y, x])" and c: "chain Q h ys y" and p: "prev_of Q h = y"
    by (auto simp: queue_rep_def chain_append)
  have "chain (ngx_queue_insert_tail h x Q) h ys y"
    using c d p by (elim chain_cong) (auto simp: ngx_queue_defs)
  with assms snoc d p show ?thesis by (auto simp: queue_rep_def chain_append ngx_queue_defs)
qed

text \<open>Removing an element, and inserting one after another, anywhere in a chain.\<close>

lemma chain_join:
  assumes "\<And>vs v. xs = vs @ [v] \<Longrightarrow> chain Q a vs v" "\<And>z zs. ys = z # zs \<Longrightarrow> chain Q z zs b"
    and "next_of Q (last (a # xs)) = hd (ys @ [b])" "prev_of Q (hd (ys @ [b])) = last (a # xs)"
  shows "chain Q a (xs @ ys) b"
  using assms by (cases xs rule: rev_cases; cases ys) (auto simp: chain_append)

lemma chain_parts:
  assumes "chain Q a (xs @ ys) b"
  shows "xs = vs @ [v] \<Longrightarrow> chain Q a vs v" "ys = z # zs \<Longrightarrow> chain Q z zs b"
    and "next_of Q (last (a # xs)) = hd (ys @ [b])" "prev_of Q (hd (ys @ [b])) = last (a # xs)"
  using assms by ((cases xs rule: rev_cases; cases ys), auto simp: chain_append)+

lemma last_hd_in_set: "last (a # xs) \<in> set (a # xs)" "hd (ys @ [b]) \<in> set (ys @ [b])"
  by (rule last_in_set, simp) (cases ys; simp)

text \<open>Two parts of a chain survive a change of the pointers between them.\<close>

lemma chain_left_part:
  assumes "chain Q a (xs @ ys) b" "distinct (a # xs @ ys)" "b \<notin> set (xs @ ys)" "xs = vs @ [v]"
    and nxt: "\<And>y. y \<in> set (a # b # xs @ ys) \<Longrightarrow> y \<noteq> last (a # xs) \<Longrightarrow> next_of Q' y = next_of Q y"
    and prv: "\<And>y. y \<in> set (a # b # xs @ ys) \<Longrightarrow> y \<noteq> hd (ys @ [b]) \<Longrightarrow> prev_of Q' y = prev_of Q y"
  shows "chain Q' a vs v"
proof (rule chain_cong)
  show "chain Q a vs v" using assms chain_parts by metis
next
  fix y assume "y \<in> set (a # vs)"
  then have "y \<noteq> last (a # xs)" using assms by auto
  then show "next_of Q' y = next_of Q y" using nxt \<open>y \<in> set (a # vs)\<close> assms(4) by auto
next
  fix y assume y: "y \<in> set (vs @ [v])"
  then have "y \<noteq> hd (ys @ [b])" using assms(2-4) last_hd_in_set(2) [of ys b] by auto
  then show "prev_of Q' y = prev_of Q y" using prv y assms(4) by auto
qed

lemma chain_right_part:
  assumes "chain Q a (xs @ ys) b" "distinct (a # xs @ ys)" "b \<notin> set (xs @ ys)" "ys = z # zs"
    and nxt: "\<And>y. y \<in> set (a # b # xs @ ys) \<Longrightarrow> y \<noteq> last (a # xs) \<Longrightarrow> next_of Q' y = next_of Q y"
    and prv: "\<And>y. y \<in> set (a # b # xs @ ys) \<Longrightarrow> y \<noteq> hd (ys @ [b]) \<Longrightarrow> prev_of Q' y = prev_of Q y"
  shows "chain Q' z zs b"
proof (rule chain_cong)
  show "chain Q z zs b" using assms chain_parts by metis
next
  fix y assume y: "y \<in> set (z # zs)"
  then have "y \<noteq> last (a # xs)" using assms(2-4) last_hd_in_set(1) [of a xs] by auto
  then show "next_of Q' y = next_of Q y" using nxt y assms(4) by auto
next
  fix y assume y: "y \<in> set (zs @ [b])"
  then have "y \<noteq> hd (ys @ [b])" using assms by auto
  then show "prev_of Q' y = prev_of Q y" using prv y assms(4) by auto
qed

lemma chain_remove:
  assumes c: "chain Q a (xs @ x # ys) b" and d: "distinct (a # xs @ x # ys)" "x \<noteq> b" "b \<notin> set (xs @ ys)"
  shows "chain (ngx_queue_remove dbg x Q) a (xs @ ys) b"
proof -
  define p where "p = last (a # xs)"
  define n where "n = hd (ys @ [b])"
  let ?Q = "ngx_queue_remove dbg x Q"
  have p: "prev_of Q x = p" and n: "next_of Q x = n"
    using chain_parts(4) [OF c] chain_parts(3) [of Q a "xs @ [x]" ys b] c
    by (simp_all add: p_def n_def)
  have px: "p \<noteq> x" and nx: "n \<noteq> x"
    using last_hd_in_set(1) [of a xs] last_hd_in_set(2) [of ys b] d by (auto simp: p_def n_def)
  have nxt: "y \<noteq> x \<Longrightarrow> next_of ?Q y = (if y = p then n else next_of Q y)" for y
    using p n px nx by (auto simp: ngx_queue_defs split: option.split)
  have prv: "y \<noteq> x \<Longrightarrow> prev_of ?Q y = (if y = n then p else prev_of Q y)" for y
    using p n px nx by (auto simp: ngx_queue_defs split: option.split)
  show ?thesis
  proof (rule chain_join)
    show "chain ?Q a vs v" if "xs = vs @ [v]" for vs v
    proof (rule chain_cong)
      show "chain Q a vs v" using c that chain_parts by metis
    next
      fix y assume y: "y \<in> set (a # vs)"
      then have "y \<noteq> x \<and> y \<noteq> p" using that d by (auto simp: p_def)
      then show "next_of ?Q y = next_of Q y" by (simp add: nxt)
    next
      fix y assume y: "y \<in> set (vs @ [v])"
      then have "y \<noteq> x \<and> y \<noteq> n" using that d last_hd_in_set(2) [of ys b] by (auto simp: n_def)
      then show "prev_of ?Q y = prev_of Q y" by (simp add: prv)
    qed
    show "chain ?Q z zs b" if "ys = z # zs" for z zs
    proof (rule chain_cong)
      show "chain Q z zs b" using c that chain_parts(2) [of Q a "xs @ [x]" ys b z zs] by simp
    next
      fix y assume y: "y \<in> set (z # zs)"
      then have "y \<noteq> x \<and> y \<noteq> p" using that d last_hd_in_set(1) [of a xs] by (auto simp: p_def)
      then show "next_of ?Q y = next_of Q y" by (simp add: nxt)
    next
      fix y assume y: "y \<in> set (zs @ [b])"
      then have "y \<noteq> x \<and> y \<noteq> n" using that d by (auto simp: n_def)
      then show "prev_of ?Q y = prev_of Q y" by (simp add: prv)
    qed
    show "next_of ?Q (last (a # xs)) = hd (ys @ [b])" using nxt [of p] px by (simp add: p_def n_def)
    show "prev_of ?Q (hd (ys @ [b])) = last (a # xs)" using prv [of n] nx by (simp add: p_def n_def)
  qed
qed

lemma queue_rep_remove:
  "queue_rep h Q (xs @ x # ys) \<Longrightarrow> queue_rep h (ngx_queue_remove dbg x Q) (xs @ ys)"
  by (auto simp: queue_rep_def intro: chain_remove)

lemma chain_insert_after:
  assumes c: "chain Q a (xs @ ys) b" and d: "distinct (a # xs @ ys)" "b \<notin> set (xs @ ys)"
    and x: "x \<notin> set (a # b # xs @ ys)"
  shows "chain (ngx_queue_insert_after (last (a # xs)) x Q) a (xs @ x # ys) b"
proof -
  define p where "p = last (a # xs)"
  define n where "n = hd (ys @ [b])"
  let ?Q = "ngx_queue_insert_after p x Q"
  have n: "next_of Q p = n" using chain_parts(3) [OF c] by (simp only: p_def n_def)
  have px: "p \<noteq> x" and nx: "n \<noteq> x"
    using last_hd_in_set(1) [of a xs] last_hd_in_set(2) [of ys b] x by (auto simp: p_def n_def)
  have nxt: "next_of ?Q y = (if y = p then x else if y = x then n else next_of Q y)" for y
    using n px nx by (auto simp: ngx_queue_defs)
  have prv: "prev_of ?Q y = (if y = x then p else if y = n then x else prev_of Q y)" for y
    using n px nx by (auto simp: ngx_queue_defs)
  have nxt': "next_of ?Q y = next_of Q y" if "y \<in> set (a # b # xs @ ys)" "y \<noteq> last (a # xs)" for y
    using that nxt x by (auto simp: p_def)
  have prv': "prev_of ?Q y = prev_of Q y" if "y \<in> set (a # b # xs @ ys)" "y \<noteq> hd (ys @ [b])" for y
    using that prv x by (auto simp: n_def)
  have "chain ?Q a (xs @ []) x"
  proof (rule chain_join)
    show "chain ?Q a vs v" if "xs = vs @ [v]" for vs v
      using chain_left_part [OF c d that nxt' prv'] .
    show "next_of ?Q (last (a # xs)) = hd ([] @ [x])" "prev_of ?Q (hd ([] @ [x])) = last (a # xs)"
      using nxt [of p] prv [of x] by (simp_all add: p_def)
  qed simp
  moreover have "chain ?Q x ([] @ ys) b"
  proof (rule chain_join)
    show "chain ?Q z zs b" if "ys = z # zs" for z zs
      using chain_right_part [OF c d that nxt' prv'] .
    show "next_of ?Q (last [x]) = hd (ys @ [b])" "prev_of ?Q (hd (ys @ [b])) = last [x]"
      using nxt [of x] prv [of n] px nx by (simp_all add: p_def n_def)
  qed simp
  ultimately show ?thesis by (simp add: chain_append p_def)
qed

lemma queue_rep_insert_after:
  "queue_rep h Q (xs @ ys) \<Longrightarrow> x \<notin> set (h # xs @ ys) \<Longrightarrow>
   queue_rep h (ngx_queue_insert_after (last (h # xs)) x Q) (xs @ x # ys)"
  using chain_insert_after [of Q h xs ys h x] by (auto simp: queue_rep_def simp del: last.simps)

section \<open>Splitting and joining queues\<close>

lemma queue_rep_split:
  assumes "queue_rep h Q (xs @ q # ys)" "n \<notin> set (h # xs @ q # ys)"
  shows "queue_rep h (ngx_queue_split h q n Q) xs" and "queue_rep n (ngx_queue_split h q n Q) (q # ys)"
proof -
  let ?Q = "ngx_queue_split h q n Q"
  have c1: "chain Q h xs q" and c2: "chain Q q ys h"
    using assms by (auto simp: queue_rep_def chain_append)
  have d: "distinct (n # h # xs @ q # ys)" using assms by (auto simp: queue_rep_def)
  define p where "p = last (h # xs)"
  define l where "l = last (q # ys)"
  have p: "prev_of Q q = p" and l: "prev_of Q h = l"
    using chain_last [OF c1] chain_last [OF c2] by (simp_all only: p_def l_def)
  have lin: "l \<in> set (q # ys)" and pin: "p \<in> set (h # xs)" by (simp_all only: l_def p_def last_hd_in_set)
  have ne: "l \<noteq> n" "l \<noteq> h" "p \<noteq> n" "q \<noteq> n" "q \<noteq> h" "h \<noteq> n" "l \<noteq> p" "p \<noteq> q"
    using lin pin d by auto
  have nxt: "next_of ?Q y = (if y = p then h else if y = l then n else if y = n then q else next_of Q y)" for y
    using p l ne by (auto simp: ngx_queue_defs)
  have prv: "prev_of ?Q y = (if y = q then n else if y = h then p else if y = n then l else prev_of Q y)" for y
    using p l ne by (auto simp: ngx_queue_defs)
  have "chain ?Q h (xs @ []) h"
  proof (rule chain_join)
    show "chain ?Q h vs v" if "xs = vs @ [v]" for vs v
    proof (rule chain_cong)
      show "chain Q h vs v" using c1 that by (simp add: chain_append)
    next
      fix y assume "y \<in> set (h # vs)"
      then have "y \<noteq> p \<and> y \<noteq> l \<and> y \<noteq> n" using that d lin by (auto simp: p_def)
      then show "next_of ?Q y = next_of Q y" by (simp add: nxt)
    next
      fix y assume "y \<in> set (vs @ [v])"
      then have "y \<noteq> q \<and> y \<noteq> h \<and> y \<noteq> n" using that d by auto
      then show "prev_of ?Q y = prev_of Q y" by (simp add: prv)
    qed
    show "next_of ?Q (last (h # xs)) = hd ([] @ [h])" "prev_of ?Q (hd ([] @ [h])) = last (h # xs)"
      using nxt [of p] prv [of h] ne by (simp_all add: p_def)
  qed simp
  with d show "queue_rep h ?Q xs" by (simp add: queue_rep_def)
  have "chain ?Q q (ys @ []) n"
  proof (rule chain_join)
    show "chain ?Q q vs v" if "ys = vs @ [v]" for vs v
    proof (rule chain_cong)
      show "chain Q q vs v" using c2 that by (simp add: chain_append)
    next
      fix y assume "y \<in> set (q # vs)"
      then have "y \<noteq> p \<and> y \<noteq> l \<and> y \<noteq> n" using that d pin by (auto simp: l_def)
      then show "next_of ?Q y = next_of Q y" by (simp add: nxt)
    next
      fix y assume "y \<in> set (vs @ [v])"
      then have "y \<noteq> q \<and> y \<noteq> h \<and> y \<noteq> n" using that d by auto
      then show "prev_of ?Q y = prev_of Q y" by (simp add: prv)
    qed
    show "next_of ?Q (last (q # ys)) = hd ([] @ [n])" "prev_of ?Q (hd ([] @ [n])) = last (q # ys)"
      using nxt [of l] prv [of n] ne by (simp_all add: l_def)
  qed simp
  with d nxt [of n] prv [of q] ne show "queue_rep n ?Q (q # ys)" by (simp add: queue_rep_def)
qed

lemma queue_rep_add:
  assumes "queue_rep h Q xs" "queue_rep n Q ys" "ys \<noteq> []" "set (h # xs) \<inter> set (n # ys) = {}"
  shows "queue_rep h (ngx_queue_add h n Q) (xs @ ys)"
proof -
  let ?Q = "ngx_queue_add h n Q"
  obtain y ys' where ys: "ys = y # ys'" using assms(3) by (cases ys) auto
  have c1: "chain Q h xs h" and c2: "chain Q n (y # ys') n" and d: "distinct (h # n # xs @ y # ys')"
    using assms by (auto simp: queue_rep_def ys)
  define p where "p = last (h # xs)"
  define l where "l = last (y # ys')"
  have p: "prev_of Q h = p" and l: "prev_of Q n = l" and ny: "next_of Q n = y"
    using chain_last [OF c1] chain_last [OF c2] c2 by (simp_all add: p_def l_def)
  have lin: "l \<in> set (y # ys')" and pin: "p \<in> set (h # xs)" by (simp_all only: l_def p_def last_hd_in_set)
  have ne: "l \<noteq> n" "l \<noteq> h" "p \<noteq> n" "y \<noteq> n" "y \<noteq> h" "h \<noteq> n" "l \<noteq> p" "p \<noteq> y"
    using lin pin d by auto
  have nxt: "next_of ?Q z = (if z = l then h else if z = p then y else next_of Q z)" for z
    using p l ny ne by (auto simp: ngx_queue_defs)
  have prv: "prev_of ?Q z = (if z = h then l else if z = y then p else prev_of Q z)" for z
    using p l ny ne by (auto simp: ngx_queue_defs)
  have "chain ?Q h (xs @ []) y"
  proof (rule chain_join)
    show "chain ?Q h vs v" if "xs = vs @ [v]" for vs v
    proof (rule chain_cong)
      show "chain Q h vs v" using c1 that by (simp add: chain_append)
    next
      fix z assume "z \<in> set (h # vs)"
      then have "z \<noteq> p \<and> z \<noteq> l" using that d lin by (auto simp: p_def)
      then show "next_of ?Q z = next_of Q z" by (simp add: nxt)
    next
      fix z assume "z \<in> set (vs @ [v])"
      then have "z \<noteq> y \<and> z \<noteq> h" using that d by auto
      then show "prev_of ?Q z = prev_of Q z" by (simp add: prv)
    qed
    show "next_of ?Q (last (h # xs)) = hd ([] @ [y])" "prev_of ?Q (hd ([] @ [y])) = last (h # xs)"
      using nxt [of p] prv [of y] ne by (simp_all add: p_def)
  qed simp
  moreover have "chain ?Q y (ys' @ []) h"
  proof (rule chain_join)
    show "chain ?Q y vs v" if "ys' = vs @ [v]" for vs v
    proof (rule chain_cong)
      show "chain Q y vs v" using c2 that by (simp add: chain_append)
    next
      fix z assume "z \<in> set (y # vs)"
      then have "z \<noteq> p \<and> z \<noteq> l" using that d pin by (auto simp: l_def)
      then show "next_of ?Q z = next_of Q z" by (simp add: nxt)
    next
      fix z assume "z \<in> set (vs @ [v])"
      then have "z \<noteq> y \<and> z \<noteq> h" using that d by auto
      then show "prev_of ?Q z = prev_of Q z" by (simp add: prv)
    qed
    show "next_of ?Q (last (y # ys')) = hd ([] @ [h])" "prev_of ?Q (hd ([] @ [h])) = last (y # ys')"
      using nxt [of l] prv [of h] ne by (simp_all add: l_def)
  qed simp
  ultimately show ?thesis using d by (simp add: queue_rep_def ys chain_append)
qed

section \<open>The middle element and the sort\<close>

lemma queue_rep_nth:
  assumes "queue_rep h Q xs" "i < length xs"
  shows "next_of Q (xs ! i) = (if Suc i < length xs then xs ! Suc i else h)"
proof -
  have "xs = take i xs @ xs ! i # drop (Suc i) xs" using assms(2) by (rule id_take_nth_drop)
  then have "chain Q (xs ! i) (drop (Suc i) xs) h" using assms(1) unfolding queue_rep_def by (metis chain_append)
  then have "next_of Q (xs ! i) = hd (drop (Suc i) xs @ [h])" by (rule chain_hd)
  then show ?thesis by (auto simp: hd_append hd_drop_conv_nth)
qed

lemma queue_middle_loop_rep:
  assumes "queue_rep h Q xs" "Suc (2 * i) < length xs"
  shows "queue_middle_loop h Q (xs ! i) (xs ! (2 * i)) = Some (xs ! (length xs div 2))"
  using assms(2)
proof (induction "length xs - 2 * i" arbitrary: i rule: less_induct)
  case less
  have d: "distinct xs" and l: "ngx_queue_last h Q = xs ! (length xs - 1)"
    using assms(1) less.prems queue_rep_last [OF assms(1)] by (auto simp: queue_rep_def last_conv_nth)
  have "next_of Q (xs ! i) = xs ! Suc i" "next_of Q (xs ! (2 * i)) = xs ! Suc (2 * i)"
    using queue_rep_nth [OF assms(1)] less.prems by simp_all
  moreover have "next_of Q (xs ! Suc (2 * i)) = xs ! (2 * Suc i)" if "Suc (2 * i) \<noteq> length xs - 1"
    using queue_rep_nth [OF assms(1), of "Suc (2 * i)"] less.prems that by (auto split: if_splits)
  moreover have "queue_middle_loop h Q (xs ! Suc i) (xs ! (2 * Suc i)) = Some (xs ! (length xs div 2))"
    if "Suc (2 * i) \<noteq> length xs - 1" "2 * Suc i \<noteq> length xs - 1"
    using that less.prems by (intro less.hyps) auto
  moreover have "length xs div 2 = Suc i" if "Suc (2 * i) = length xs - 1 \<or> 2 * Suc i = length xs - 1"
    using that less.prems by auto
  ultimately show ?case
    using less.prems d
    by (subst queue_middle_loop.simps)
       (auto simp: Let_def ngx_queue_next_def l nth_eq_iff_index_eq)
qed

lemma ngx_queue_middle_rep:
  assumes "queue_rep h Q xs" "xs \<noteq> []"
  shows "ngx_queue_middle h Q = Some (xs ! (length xs div 2))"
proof (cases "length xs = 1")
  case True
  then show ?thesis
    using queue_rep_head [OF assms(1)] queue_rep_last [OF assms(1)] assms(2)
    by (auto simp: ngx_queue_middle_def length_Suc_conv)
next
  case False
  then have len: "Suc (2 * 0) < length xs" using assms(2) by (cases xs) auto
  have "xs ! 0 \<noteq> xs ! (length xs - 1)"
    using assms len by (auto simp: queue_rep_def nth_eq_iff_index_eq)
  then show ?thesis
    using queue_middle_loop_rep [OF assms(1) len] queue_rep_head [OF assms(1)]
      queue_rep_last [OF assms(1)] assms(2)
    by (simp add: ngx_queue_middle_def Let_def last_conv_nth hd_conv_nth nth_append)
qed

lemma queue_sort_back_rep:
  assumes "queue_rep h Q (us @ ws)" "us \<noteq> []"
  shows "queue_sort_back cmp h Q (last us) q =
    Some (last (h # rev (dropWhile (\<lambda>y. cmp y q > 0) (rev us))))"
  using assms
proof (induction us arbitrary: ws rule: rev_induct)
  case Nil
  then show ?case by simp
next
  case (snoc u us)
  then have "chain Q h us u" "u \<noteq> h" and d: "h \<notin> set us" by (auto simp: queue_rep_def chain_append)
  then have prv: "prev_of Q u = last (h # us)" by (auto dest: chain_last)
  have IH: "us \<noteq> [] \<Longrightarrow> queue_sort_back cmp h Q (last us) q =
      Some (last (h # rev (dropWhile (\<lambda>y. cmp y q > 0) (rev us))))"
    using snoc.IH [of "u # ws"] snoc.prems by simp
  have nh: "last us \<noteq> h" if "us \<noteq> []" using that d by auto
  show ?case
  proof (cases "us = []")
    case True
    with prv show ?thesis
      by (subst queue_sort_back.simps) (simp add: Let_def ngx_queue_prev_def)
  next
    case False
    with prv IH nh show ?thesis
      by (subst queue_sort_back.simps) (simp add: Let_def ngx_queue_prev_def)
  qed
qed

lemma queue_sort_loop_rep:
  assumes "queue_rep h Q (ys @ zs)" "ys \<noteq> []"
  shows "\<exists>Q'. queue_sort_loop dbg cmp h (hd (zs @ [h])) Q = Some Q' \<and>
    queue_rep h Q' (foldl (\<lambda>ys x. ins_back cmp x ys) ys zs)"
  using assms
proof (induction zs arbitrary: Q ys)
  case Nil
  then show ?case by (subst queue_sort_loop.simps) simp
next
  case (Cons q zs)
  let ?Q = "ngx_queue_remove dbg q Q"
  define us where "us = rev (dropWhile (\<lambda>y. cmp y q > 0) (rev ys))"
  define gs where "gs = rev (takeWhile (\<lambda>y. cmp y q > 0) (rev ys))"
  have ys: "ys = us @ gs"
    unfolding us_def gs_def by (metis rev_append rev_rev_ident takeWhile_dropWhile_id)
  have c: "chain Q h ys q" "chain Q q zs h" "q \<noteq> h"
    using Cons.prems by (auto simp: queue_rep_def chain_append)
  have prv: "prev_of Q q = last ys" and nxt: "next_of Q q = hd (zs @ [h])"
    using chain_last [OF c(1)] chain_hd [OF c(2)] Cons.prems by simp_all
  have rep: "queue_rep h ?Q (ys @ zs)" using Cons.prems by (intro queue_rep_remove) simp
  have bk: "queue_sort_back cmp h ?Q (last ys) q = Some (last (h # us))"
    using queue_sort_back_rep [OF rep Cons.prems(2)] by (simp only: us_def)
  have "queue_rep h (ngx_queue_insert_after (last (h # us)) q ?Q) (us @ q # gs @ zs)"
    using rep Cons.prems unfolding ys
    by (intro queue_rep_insert_after) (auto simp: queue_rep_def)
  then have rep': "queue_rep h (ngx_queue_insert_after (last (h # us)) q ?Q) (ins_back cmp q ys @ zs)"
    by (simp add: ins_back_def us_def gs_def)
  have "ins_back cmp q ys \<noteq> []" by (simp add: ins_back_def)
  from Cons.IH [OF rep' this] show ?case
    using c(3) by (subst queue_sort_loop.simps)
      (simp add: Let_def ngx_queue_prev_def ngx_queue_next_def prv nxt bk del: last.simps)
qed

lemma ngx_queue_sort_rep:
  assumes "queue_rep h Q xs"
  shows "\<exists>Q'. ngx_queue_sort dbg cmp h Q = Some Q' \<and> queue_rep h Q' (ngx_sort True cmp xs)"
proof (cases "length xs < 2")
  case True
  then consider "xs = []" | x where "xs = [x]" by (cases xs) auto
  then show ?thesis
    using assms queue_rep_head [OF assms] queue_rep_last [OF assms]
    by cases (simp_all add: ngx_queue_sort_def ngx_sort_foldl ins_back_def)
next
  case False
  then obtain x zs where xs: "xs = x # zs" and zs: "zs \<noteq> []"
    by (cases xs) auto
  have "x \<noteq> last zs" using assms zs by (auto simp: queue_rep_def xs)
  moreover have "next_of Q x = hd (zs @ [h])"
    using assms chain_hd by (auto simp: queue_rep_def xs)
  moreover have "ngx_sort True cmp xs = foldl (\<lambda>ys x. ins_back cmp x ys) [x] zs"
    by (simp add: xs ngx_sort_foldl ins_back_def)
  ultimately show ?thesis
    using queue_sort_loop_rep [of h Q "[x]" zs dbg cmp] assms queue_rep_head [OF assms]
      queue_rep_last [OF assms] zs
    by (simp add: ngx_queue_sort_def Let_def ngx_queue_next_def xs)
qed

section \<open>The queue as the rate limiter uses it\<close>

text \<open>A queue of entries ordered by last use: what the client relies on is that inserting at
  the head and removing act on the represented list, and that the tail is the entry unused
  for longest.\<close>

locale lru_queue =
  fixes rep :: "'q \<Rightarrow> 'a list \<Rightarrow> bool"
    and is_empty :: "'q \<Rightarrow> bool"
    and push :: "'a \<Rightarrow> 'q \<Rightarrow> 'q"
    and unlink :: "'a \<Rightarrow> 'q \<Rightarrow> 'q"
    and oldest :: "'q \<Rightarrow> 'a option"
  assumes rep_distinct: "rep q xs \<Longrightarrow> distinct xs"
    and rep_empty: "rep q xs \<Longrightarrow> is_empty q \<longleftrightarrow> xs = []"
    and rep_push: "rep q xs \<Longrightarrow> x \<notin> set xs \<Longrightarrow> rep (push x q) (x # xs)"
    and rep_unlink: "rep q xs \<Longrightarrow> x \<in> set xs \<Longrightarrow> rep (unlink x q) (remove1 x xs)"
    and rep_oldest: "rep q xs \<Longrightarrow> xs \<noteq> [] \<Longrightarrow> oldest q = Some (last xs)"
begin

lemma rep_touch: "rep q xs \<Longrightarrow> x \<in> set xs \<Longrightarrow> rep (push x (unlink x q)) (x # remove1 x xs)"
  by (rule rep_push [OF rep_unlink]) (auto dest: rep_distinct)

lemma rep_evict:
  assumes "rep q (xs @ [x])"
  shows "oldest q = Some x" and "rep (unlink x q) xs"
proof -
  show "oldest q = Some x" using rep_oldest [OF assms] by simp
  have "x \<notin> set xs" using rep_distinct [OF assms] by simp
  then have "remove1 x (xs @ [x]) = xs" by (simp add: remove1_append)
  then show "rep (unlink x q) xs" using rep_unlink [OF assms, of x] by simp
qed

lemma touch_protects:
  \<comment> \<open>an entry used last is evicted only when it is the only one\<close>
  assumes "rep q xs" "x \<in> set xs" "oldest (push x (unlink x q)) = Some x"
  shows "xs = [x]"
proof -
  have "last (x # remove1 x xs) = x" using rep_oldest [OF rep_touch [OF assms(1,2)]] assms(3) by simp
  then have "remove1 x xs = []"
    using rep_distinct [OF rep_touch [OF assms(1,2)]] by (metis distinct.simps(2) last_ConsR last_in_set)
  then show ?thesis using assms(2) by (cases xs) (auto split: if_splits)
qed

end

datatype qaddr = QNull | QHead | QNode nat

fun ngx_queue_data :: "qaddr \<Rightarrow> nat option" where
  \<comment> \<open>the node a link field belongs to\<close>
  "ngx_queue_data (QNode i) = Some i"
| "ngx_queue_data _ = None"

abbreviation lru_rep :: "qaddr queue_links \<Rightarrow> nat list \<Rightarrow> bool" where
  "lru_rep Q ids \<equiv> queue_rep QHead Q (map QNode ids)"

abbreviation lru_push :: "nat \<Rightarrow> qaddr queue_links \<Rightarrow> qaddr queue_links" where
  "lru_push i \<equiv> ngx_queue_insert_head QHead (QNode i)"

abbreviation lru_unlink :: "nat \<Rightarrow> qaddr queue_links \<Rightarrow> qaddr queue_links" where
  "lru_unlink i \<equiv> ngx_queue_remove (Some QNull) (QNode i)"

lemma lru_rep_unlink: "lru_rep Q ids \<Longrightarrow> i \<in> set ids \<Longrightarrow> lru_rep (lru_unlink i Q) (remove1 i ids)"
proof -
  assume rep: "lru_rep Q ids" and i: "i \<in> set ids"
  then obtain us vs where ids: "ids = us @ i # vs" "i \<notin> set us" by (metis split_list_first)
  with queue_rep_remove [of QHead Q "map QNode us" "QNode i" "map QNode vs" "Some QNull"] rep
  show ?thesis by (simp add: remove1_append)
qed

interpretation lru: lru_queue lru_rep "ngx_queue_empty QHead" lru_push lru_unlink
  "\<lambda>Q. ngx_queue_data (ngx_queue_last QHead Q)"
proof unfold_locales
  fix Q xs and x :: nat
  show "lru_rep Q xs \<Longrightarrow> distinct xs" by (auto simp: queue_rep_def distinct_map)
  show "lru_rep Q xs \<Longrightarrow> ngx_queue_empty QHead Q \<longleftrightarrow> xs = []" by (simp add: queue_rep_empty)
  show "lru_rep Q xs \<Longrightarrow> x \<notin> set xs \<Longrightarrow> lru_rep (lru_push x Q) (x # xs)"
    using queue_rep_insert_head [of QHead Q "map QNode xs" "QNode x"] by auto
  show "lru_rep Q xs \<Longrightarrow> x \<in> set xs \<Longrightarrow> lru_rep (lru_unlink x Q) (remove1 x xs)"
    by (rule lru_rep_unlink)
  show "lru_rep Q xs \<Longrightarrow> xs \<noteq> [] \<Longrightarrow> ngx_queue_data (ngx_queue_last QHead Q) = Some (last xs)"
    using queue_rep_last [of QHead Q "map QNode xs"] by (simp add: last_map)
qed

section \<open>Properties\<close>

definition sample_queue :: "nat queue_links" where
  \<comment> \<open>a queue of two elements behind the head 0\<close>
  "sample_queue = ngx_queue_insert_tail 0 2 (ngx_queue_insert_tail 0 1
     (ngx_queue_init 0 \<lparr>prev_of = id, next_of = id\<rparr>))"

lemma sample_queue_rep: "queue_rep 0 sample_queue [1, 2]"
  using queue_rep_insert_tail [OF queue_rep_insert_tail [OF queue_rep_init, of 1 "0 :: nat"], of 2 "\<lparr>prev_of = id, next_of = id\<rparr>"]
  by (simp add: sample_queue_def)

text \<open>The pointer assignments of the queue macros implement the operations of a list: insertion at
  either end of what is not in the queue, removal, splitting off a tail at an element to a head that is not in the queue, appending
  another queue that is not empty and has no link in common, the first and the last element.\<close>
theorem queue_macros_refine:
  assumes "queue_rep h Q (us @ q # vs)" "x \<notin> set (h # us @ q # vs)"
  shows "queue_rep h (ngx_queue_insert_head h x Q) (x # us @ q # vs) \<and>
    queue_rep h (ngx_queue_insert_tail h x Q) (us @ q # vs @ [x]) \<and>
    queue_rep h (ngx_queue_remove dbg q Q) (us @ vs) \<and>
    queue_rep h (ngx_queue_split h q x Q) us \<and> queue_rep x (ngx_queue_split h q x Q) (q # vs) \<and>
    (\<forall>n ys. queue_rep n Q ys \<and> ys \<noteq> [] \<and> set (h # us @ q # vs) \<inter> set (n # ys) = {} \<longrightarrow>
       queue_rep h (ngx_queue_add h n Q) (us @ q # vs @ ys)) \<and>
    ngx_queue_head h Q = hd (us @ [q]) \<and> ngx_queue_last h Q = last (q # vs) \<and> \<not> ngx_queue_empty h Q"
proof -
  have "hd ((us @ q # vs) @ [h]) = hd (us @ [q])" "last (h # us @ q # vs) = last (q # vs)"
    by (cases us; simp)+
  moreover have "queue_rep h (ngx_queue_add h n Q) (us @ q # vs @ ys)"
    if "queue_rep n Q ys" "ys \<noteq> []" "set (h # us @ q # vs) \<inter> set (n # ys) = {}" for n ys
    using queue_rep_add [OF assms(1) that] by simp
  ultimately show ?thesis
    using assms queue_rep_insert_head [OF assms] queue_rep_insert_tail [OF assms] queue_rep_remove [OF assms(1)]
      queue_rep_split [OF assms] queue_rep_head [OF assms(1)] queue_rep_last [OF assms(1)] queue_rep_empty [OF assms(1)]
    by simp
qed

definition sample_queues :: "nat queue_links" where
  \<comment> \<open>the queue of two elements, and another of one element\<close>
  "sample_queues = ngx_queue_split 0 3 9 (ngx_queue_insert_tail 0 3 sample_queue)"

theorem queue_macros_refine_witness:
  "queue_rep 0 (ngx_queue_insert_head 0 4 sample_queues) [4, 1, 2] \<and> ngx_queue_last 0 sample_queues = 2 \<and>
   queue_rep 0 (ngx_queue_add 0 9 sample_queues) [1, 2, 3]"
proof -
  have q: "queue_rep 0 (ngx_queue_insert_tail 0 3 sample_queue) ([1, 2] @ 3 # [])"
    using queue_rep_insert_tail [OF sample_queue_rep, of 3] by simp
  have r: "queue_rep 0 sample_queues [1, 2]" "queue_rep 9 sample_queues [3]"
    using queue_rep_split [OF q, of 9] by (simp_all add: sample_queues_def)
  show ?thesis using queue_macros_refine [of 0 sample_queues "[1]" 2 "[]" 4] r by fastforce
qed

text \<open>C30. \<open>ngx_queue_sort\<close> ends on every queue, whatever the comparison, and leaves the queue that
  \<open>ngx_sort\<close> makes of the list of its elements: the sort through pointers and the sort of an array
  are the same function.\<close>
theorem queue_sort_refines:
  assumes "queue_rep h Q xs"
  shows "\<exists>Q'. ngx_queue_sort dbg cmp h Q = Some Q' \<and> queue_rep h Q' (ngx_sort True cmp xs)"
  by (rule ngx_queue_sort_rep [OF assms])

theorem queue_sort_refines_witness:
  "\<exists>Q'. ngx_queue_sort None (\<lambda>a b. int b - int a) 0 sample_queue = Some Q' \<and>
     queue_rep 0 Q' (ngx_sort True (\<lambda>a b. int b - int a) [1, 2])"
  by (rule queue_sort_refines [OF sample_queue_rep])

text \<open>\<open>ngx_queue_middle\<close> ends on every queue that is not empty and returns the element in the
  middle, the first of the second half when their number is even.\<close>
theorem queue_middle_correct:
  assumes "queue_rep h Q xs" "xs \<noteq> []"
  shows "ngx_queue_middle h Q = Some (xs ! (length xs div 2))"
  by (rule ngx_queue_middle_rep [OF assms])

theorem queue_middle_correct_witness: "ngx_queue_middle 0 sample_queue = Some 2"
  using queue_middle_correct [OF sample_queue_rep] by simp

end
