(* ===== verification/Ngx_Rbtree.thy ===== *)
theory Ngx_Rbtree
  imports Nginx_Prelude "HOL-Library.Multiset"
begin

text \<open>
  The red-black tree of \<open>nginx/src/core/ngx_rbtree.h\<close> and \<open>ngx_rbtree.c\<close>.  The
  sentinel is the leaf of the tree.  The C code moves a node pointer up and down through
  \<open>left\<close>, \<open>right\<close> and \<open>parent\<close>; here such a pointer is a focused subtree together with the
  path of its ancestors, nearest first, so that \<open>node->parent\<close> is the head of the path,
  \<open>node == *root\<close> is an empty path, and a test such as \<open>node == node->parent->left\<close> is the
  direction recorded in the path.  A dereference of a null parent or a use of the sentinel's
  children, which the C code leaves undefined, gives \<open>None\<close>; on red-black trees it is proved
  not to happen.
\<close>

datatype rb_color = Red | Black

datatype 'a rbtree = Sentinel | Node rb_color 'a "'a rbtree" "'a rbtree"

datatype 'a crumb =
    CLeft rb_color 'a "'a rbtree"   \<comment> \<open>the parent; the focus is its left child, its right child is kept\<close>
  | CRight rb_color 'a "'a rbtree"  \<comment> \<open>the parent; the focus is its right child, its left child is kept\<close>

type_synonym 'a rbpath = "'a crumb list"

fun rbt_color :: "'a rbtree \<Rightarrow> rb_color" where
  "rbt_color Sentinel = Black"
| "rbt_color (Node c v l r) = c"

definition ngx_rbt_is_red :: "'a rbtree \<Rightarrow> bool" where
  "ngx_rbt_is_red t \<longleftrightarrow> rbt_color t = Red"

definition ngx_rbt_is_black :: "'a rbtree \<Rightarrow> bool" where
  "ngx_rbt_is_black t \<longleftrightarrow> \<not> ngx_rbt_is_red t"

fun ngx_rbt_black :: "'a rbtree \<Rightarrow> 'a rbtree" where
  "ngx_rbt_black Sentinel = Sentinel"
| "ngx_rbt_black (Node c v l r) = Node Black v l r"

fun crumb_color :: "'a crumb \<Rightarrow> rb_color" where
  "crumb_color (CLeft c v r) = c"
| "crumb_color (CRight c v l) = c"

fun crumb_paint :: "rb_color \<Rightarrow> 'a crumb \<Rightarrow> 'a crumb" where
  "crumb_paint c (CLeft _ v r) = CLeft c v r"
| "crumb_paint c (CRight _ v l) = CRight c v l"

fun up :: "'a crumb \<Rightarrow> 'a rbtree \<Rightarrow> 'a rbtree" where
  "up (CLeft c v r) t = Node c v t r"
| "up (CRight c v l) t = Node c v l t"

fun plug :: "'a rbpath \<Rightarrow> 'a rbtree \<Rightarrow> 'a rbtree" where
  \<comment> \<open>the whole tree around a focus\<close>
  "plug [] t = t"
| "plug (p # ps) t = plug ps (up p t)"

fun inorder :: "'a rbtree \<Rightarrow> 'a list" where
  "inorder Sentinel = []"
| "inorder (Node c v l r) = inorder l @ v # inorder r"

section \<open>Rotations\<close>

fun ngx_rbtree_left_rotate :: "'a rbtree \<Rightarrow> 'a rbtree option" where
  "ngx_rbtree_left_rotate (Node c v l (Node c' v' l' r')) = Some (Node c' v' (Node c v l l') r')"
| "ngx_rbtree_left_rotate _ = None"

fun ngx_rbtree_right_rotate :: "'a rbtree \<Rightarrow> 'a rbtree option" where
  "ngx_rbtree_right_rotate (Node c v (Node c' v' l' r') r) = Some (Node c' v' l' (Node c v r' r))"
| "ngx_rbtree_right_rotate _ = None"

section \<open>Insertion\<close>

fun rbtree_descend :: "('a \<Rightarrow> 'a \<Rightarrow> bool) \<Rightarrow> 'a \<Rightarrow> 'a rbpath \<Rightarrow> 'a rbtree \<Rightarrow> 'a rbpath" where
  \<comment> \<open>the loop every insert callback has, with its test for going left\<close>
  "rbtree_descend goes_left node path Sentinel = path"
| "rbtree_descend goes_left node path (Node c temp l r) =
     (if goes_left node temp then rbtree_descend goes_left node (CLeft c temp r # path) l
      else rbtree_descend goes_left node (CRight c temp l # path) r)"

definition ngx_rbtree_insert_value :: "('a \<Rightarrow> ngx_uint_t) \<Rightarrow> 'a rbtree \<Rightarrow> 'a \<Rightarrow> 'a rbpath" where
  "ngx_rbtree_insert_value key root node = rbtree_descend (\<lambda>node temp. key node < key temp) node [] root"

definition ngx_rbtree_insert_timer_value :: "('a \<Rightarrow> ngx_uint_t) \<Rightarrow> 'a rbtree \<Rightarrow> 'a \<Rightarrow> 'a rbpath" where
  "ngx_rbtree_insert_timer_value key root node =
     rbtree_descend (\<lambda>node temp. sint (key node - key temp) < 0) node [] root"

fun insert_inner_left :: "'a crumb \<Rightarrow> 'a rbtree \<Rightarrow> ('a crumb \<times> 'a rbtree) option" where
  \<comment> \<open>\<open>if (node == node->parent->right) { node = node->parent; left_rotate(node) }\<close>\<close>
  "insert_inner_left (CLeft c v r) node = Some (CLeft c v r, node)"
| "insert_inner_left (CRight c v l) node =
     (case ngx_rbtree_left_rotate (Node c v l node) of
        Some (Node c' v' l' r') \<Rightarrow> Some (CLeft c' v' r', l')
      | _ \<Rightarrow> None)"

fun insert_inner_right :: "'a crumb \<Rightarrow> 'a rbtree \<Rightarrow> ('a crumb \<times> 'a rbtree) option" where
  "insert_inner_right (CRight c v l) node = Some (CRight c v l, node)"
| "insert_inner_right (CLeft c v r) node =
     (case ngx_rbtree_right_rotate (Node c v node r) of
        Some (Node c' v' l' r') \<Rightarrow> Some (CRight c' v' l', r')
      | _ \<Rightarrow> None)"

fun insert_fixup :: "'a rbpath \<Rightarrow> 'a rbtree \<Rightarrow> 'a rbtree option" where
  \<comment> \<open>the loop of \<open>ngx_rbtree_insert\<close>, at \<open>node\<close> under its ancestors\<close>
  "insert_fixup [] node = Some node"
| "insert_fixup [p] node = (if crumb_color p = Red then None else Some (plug [p] node))"
| "insert_fixup (p # CLeft gc gv temp # gs) node =
     (if crumb_color p = Black then Some (plug (p # CLeft gc gv temp # gs) node)
      else if ngx_rbt_is_red temp then
        insert_fixup gs (Node Red gv (up (crumb_paint Black p) node) (ngx_rbt_black temp))
      else
        (case insert_inner_left p node of
           None \<Rightarrow> None
         | Some (p', node') \<Rightarrow>
             (case ngx_rbtree_right_rotate (Node Red gv (up (crumb_paint Black p') node') temp) of
                Some (Node c v l r) \<Rightarrow> insert_fixup (CLeft c v r # gs) l
              | _ \<Rightarrow> None)))"
| "insert_fixup (p # CRight gc gv temp # gs) node =
     (if crumb_color p = Black then Some (plug (p # CRight gc gv temp # gs) node)
      else if ngx_rbt_is_red temp then
        insert_fixup gs (Node Red gv (ngx_rbt_black temp) (up (crumb_paint Black p) node))
      else
        (case insert_inner_right p node of
           None \<Rightarrow> None
         | Some (p', node') \<Rightarrow>
             (case ngx_rbtree_left_rotate (Node Red gv temp (up (crumb_paint Black p') node')) of
                Some (Node c v l r) \<Rightarrow> insert_fixup (CRight c v l # gs) r
              | _ \<Rightarrow> None)))"

definition ngx_rbtree_insert ::
    "('a rbtree \<Rightarrow> 'a \<Rightarrow> 'a rbpath) \<Rightarrow> 'a rbtree \<Rightarrow> 'a \<Rightarrow> 'a rbtree option" where
  \<comment> \<open>the first argument is \<open>tree->insert\<close>, giving the place of the new node\<close>
  "ngx_rbtree_insert insert_pt root node =
     (case root of
        Sentinel \<Rightarrow> Some (Node Black node Sentinel Sentinel)
      | Node _ _ _ _ \<Rightarrow>
          map_option ngx_rbt_black
            (insert_fixup (insert_pt root node) (Node Red node Sentinel Sentinel)))"

section \<open>Deletion\<close>

fun node_path :: "'a \<Rightarrow> 'a rbpath \<Rightarrow> 'a rbtree \<Rightarrow> ('a rbpath \<times> 'a rbtree) option" where
  \<comment> \<open>the place the pointer to a node stands for\<close>
  "node_path x path Sentinel = None"
| "node_path x path (Node c v l r) =
     (if v = x then Some (path, Node c v l r)
      else (case node_path x (CLeft c v r # path) l of
              Some res \<Rightarrow> Some res
            | None \<Rightarrow> node_path x (CRight c v l # path) r))"

fun ngx_rbtree_min :: "'a rbpath \<Rightarrow> 'a rbtree \<Rightarrow> 'a rbpath \<times> 'a rbtree" where
  "ngx_rbtree_min path (Node c v (Node cl vl ll rl) r) =
     ngx_rbtree_min (CLeft c v r # path) (Node cl vl ll rl)"
| "ngx_rbtree_min path node = (path, node)"

fun delete_left_case1 ::
    "rb_color \<Rightarrow> 'a \<Rightarrow> 'a rbtree \<Rightarrow> 'a rbtree \<Rightarrow> 'a rbpath \<Rightarrow> (rb_color \<times> 'a rbtree \<times> 'a rbpath) option" where
  \<comment> \<open>\<open>if (ngx_rbt_is_red(w))\<close> of the first half: the parent's color, \<open>w\<close> and the path after it\<close>
  "delete_left_case1 pc pv (Node Red wv wl wr) temp ps =
     (case ngx_rbtree_left_rotate (Node Red pv temp (Node Black wv wl wr)) of
        Some (Node c v (Node pc' pv' temp' w) r) \<Rightarrow> Some (pc', w, CLeft c v r # ps)
      | _ \<Rightarrow> None)"
| "delete_left_case1 pc pv w temp ps = Some (pc, w, ps)"

fun delete_right_case1 ::
    "rb_color \<Rightarrow> 'a \<Rightarrow> 'a rbtree \<Rightarrow> 'a rbtree \<Rightarrow> 'a rbpath \<Rightarrow> (rb_color \<times> 'a rbtree \<times> 'a rbpath) option" where
  "delete_right_case1 pc pv (Node Red wv wl wr) temp ps =
     (case ngx_rbtree_right_rotate (Node Red pv (Node Black wv wl wr) temp) of
        Some (Node c v l (Node pc' pv' w temp')) \<Rightarrow> Some (pc', w, CRight c v l # ps)
      | _ \<Rightarrow> None)"
| "delete_right_case1 pc pv w temp ps = Some (pc, w, ps)"

fun delete_left_last :: "rb_color \<Rightarrow> 'a \<Rightarrow> 'a rbtree \<Rightarrow> 'a rbtree \<Rightarrow> 'a rbtree option" where
  \<comment> \<open>the last branch of the first half: the subtree at the parent's place\<close>
  "delete_left_last pc pv temp w =
     (case w of
        Sentinel \<Rightarrow> None
      | Node wc wv wl wr \<Rightarrow>
          (case (if ngx_rbt_is_black wr
                 then ngx_rbtree_right_rotate (Node Red wv (ngx_rbt_black wl) wr)
                 else Some w) of
             Some (Node wc' wv' wl' wr') \<Rightarrow>
               ngx_rbtree_left_rotate (Node Black pv temp (Node pc wv' wl' (ngx_rbt_black wr')))
           | _ \<Rightarrow> None))"

fun delete_right_last :: "rb_color \<Rightarrow> 'a \<Rightarrow> 'a rbtree \<Rightarrow> 'a rbtree \<Rightarrow> 'a rbtree option" where
  "delete_right_last pc pv temp w =
     (case w of
        Sentinel \<Rightarrow> None
      | Node wc wv wl wr \<Rightarrow>
          (case (if ngx_rbt_is_black wl
                 then ngx_rbtree_left_rotate (Node Red wv wl (ngx_rbt_black wr))
                 else Some w) of
             Some (Node wc' wv' wl' wr') \<Rightarrow>
               ngx_rbtree_right_rotate (Node Black pv (Node pc wv' (ngx_rbt_black wl') wr') temp)
           | _ \<Rightarrow> None))"

declare delete_left_last.simps [simp del] delete_right_last.simps [simp del]

lemma delete_left_case1_Some:
  "delete_left_case1 pc pv w temp ps = Some (pc', w', ps') \<Longrightarrow>
   pc' = pc \<and> w' = w \<and> ps' = ps \<or> pc' = Red \<and> length ps' = Suc (length ps)"
  by (cases "(pc, pv, w, temp, ps)" rule: delete_left_case1.cases) auto

lemma delete_right_case1_Some:
  "delete_right_case1 pc pv w temp ps = Some (pc', w', ps') \<Longrightarrow>
   pc' = pc \<and> w' = w \<and> ps' = ps \<or> pc' = Red \<and> length ps' = Suc (length ps)"
  by (cases "(pc, pv, w, temp, ps)" rule: delete_right_case1.cases) auto

function (sequential) delete_fixup :: "'a rbpath \<Rightarrow> 'a rbtree \<Rightarrow> 'a rbtree option" where
  \<comment> \<open>the loop of \<open>ngx_rbtree_delete\<close>, at \<open>temp\<close> under its ancestors\<close>
  "delete_fixup [] temp = Some (ngx_rbt_black temp)"
| "delete_fixup (CLeft pc pv w # ps) temp =
     (if ngx_rbt_is_red temp then Some (plug (CLeft pc pv w # ps) (ngx_rbt_black temp))
      else (case delete_left_case1 pc pv w temp ps of
              None \<Rightarrow> None
            | Some (pc', w', ps') \<Rightarrow>
                (case w' of
                   Sentinel \<Rightarrow> None
                 | Node wc wv wl wr \<Rightarrow>
                     if ngx_rbt_is_black wl \<and> ngx_rbt_is_black wr
                     then delete_fixup ps' (Node pc' pv temp (Node Red wv wl wr))
                     else map_option (\<lambda>t. ngx_rbt_black (plug ps' t)) (delete_left_last pc' pv temp w'))))"
| "delete_fixup (CRight pc pv w # ps) temp =
     (if ngx_rbt_is_red temp then Some (plug (CRight pc pv w # ps) (ngx_rbt_black temp))
      else (case delete_right_case1 pc pv w temp ps of
              None \<Rightarrow> None
            | Some (pc', w', ps') \<Rightarrow>
                (case w' of
                   Sentinel \<Rightarrow> None
                 | Node wc wv wl wr \<Rightarrow>
                     if ngx_rbt_is_black wl \<and> ngx_rbt_is_black wr
                     then delete_fixup ps' (Node pc' pv (Node Red wv wl wr) temp)
                     else map_option (\<lambda>t. ngx_rbt_black (plug ps' t)) (delete_right_last pc' pv temp w'))))"
  by pat_completeness auto
termination
  by (relation "measure (\<lambda>(ps, t). 2 * length ps + (if ngx_rbt_is_red t then 0 else 1))")
    (auto simp: ngx_rbt_is_red_def dest: delete_left_case1_Some delete_right_case1_Some)

fun rbtree_unlink :: "rb_color \<Rightarrow> 'a rbpath \<Rightarrow> 'a rbtree \<Rightarrow> 'a rbtree option" where
  \<comment> \<open>\<open>temp\<close> takes the place of \<open>subst\<close>, of the given color\<close>
  "rbtree_unlink c [] temp = Some (ngx_rbt_black temp)"
| "rbtree_unlink c (p # ps) temp =
     (if c = Red then Some (plug (p # ps) temp) else delete_fixup (p # ps) temp)"

definition ngx_rbtree_delete :: "'a rbtree \<Rightarrow> 'a \<Rightarrow> 'a rbtree option" where
  "ngx_rbtree_delete root node =
     (case node_path node [] root of
        Some (ps, Node c v Sentinel r) \<Rightarrow> rbtree_unlink c ps r
      | Some (ps, Node c v l Sentinel) \<Rightarrow> rbtree_unlink c ps l
      | Some (ps, Node c v l r) \<Rightarrow>
          (case ngx_rbtree_min [] r of
             (qs, Node sc sv _ sr) \<Rightarrow> rbtree_unlink sc (qs @ CRight c sv l # ps) sr
           | _ \<Rightarrow> None)
      | _ \<Rightarrow> None)"

section \<open>The next node in order\<close>

fun rbtree_ascend :: "'a rbpath \<Rightarrow> 'a option" where
  \<comment> \<open>the loop of \<open>ngx_rbtree_next\<close>: up to the first ancestor of which the node is on the left\<close>
  "rbtree_ascend [] = None"
| "rbtree_ascend (CLeft c v r # ps) = Some v"
| "rbtree_ascend (CRight c v l # ps) = rbtree_ascend ps"

definition ngx_rbtree_next :: "'a rbtree \<Rightarrow> 'a \<Rightarrow> 'a option" where
  "ngx_rbtree_next root node =
     (case node_path node [] root of
        Some (ps, Node c v l Sentinel) \<Rightarrow> rbtree_ascend ps
      | Some (ps, Node c v l r) \<Rightarrow>
          (case ngx_rbtree_min [] r of (_, Node _ sv _ _) \<Rightarrow> Some sv | _ \<Rightarrow> None)
      | _ \<Rightarrow> None)"

section \<open>The order of the nodes\<close>

fun before :: "'a rbpath \<Rightarrow> 'a list" where
  \<comment> \<open>what precedes the focus in the order of the tree\<close>
  "before [] = []"
| "before (CLeft c v r # ps) = before ps"
| "before (CRight c v l # ps) = before ps @ inorder l @ [v]"

fun after :: "'a rbpath \<Rightarrow> 'a list" where
  "after [] = []"
| "after (CLeft c v r # ps) = v # inorder r @ after ps"
| "after (CRight c v l # ps) = after ps"

lemma inorder_plug [simp]: "inorder (plug ps t) = before ps @ inorder t @ after ps"
proof (induction ps arbitrary: t)
  case (Cons p ps)
  then show ?case by (cases p) simp_all
qed simp

lemma inorder_black [simp]: "inorder (ngx_rbt_black t) = inorder t"
  by (cases t) simp_all

lemma before_after_paint [simp]:
  "before (crumb_paint c p # ps) = before (p # ps)" "after (crumb_paint c p # ps) = after (p # ps)"
  by (cases p; simp)+

lemma inorder_up [simp]: "inorder (up p t) = before [p] @ inorder t @ after [p]"
  by (cases p) simp_all

lemma before_append: "before (ps @ qs) = before qs @ before ps"
  by (induction ps rule: before.induct) simp_all

lemma after_append: "after (ps @ qs) = after ps @ after qs"
  by (induction ps rule: after.induct) simp_all

lemma inorder_left_rotate: "ngx_rbtree_left_rotate t = Some t' \<Longrightarrow> inorder t' = inorder t"
  by (cases t rule: ngx_rbtree_left_rotate.cases) auto

lemma inorder_right_rotate: "ngx_rbtree_right_rotate t = Some t' \<Longrightarrow> inorder t' = inorder t"
  by (cases t rule: ngx_rbtree_right_rotate.cases) auto

lemma inorder_inner_left:
  "insert_inner_left p t = Some (p', t') \<Longrightarrow>
   before [p'] @ inorder t' @ after [p'] = before [p] @ inorder t @ after [p]"
  by (cases "(p, t)" rule: insert_inner_left.cases)
    (auto split: option.splits rbtree.splits dest!: inorder_left_rotate)

lemma inorder_inner_right:
  "insert_inner_right p t = Some (p', t') \<Longrightarrow>
   before [p'] @ inorder t' @ after [p'] = before [p] @ inorder t @ after [p]"
  by (cases "(p, t)" rule: insert_inner_right.cases)
    (auto split: option.splits rbtree.splits dest!: inorder_right_rotate)

lemma before_Cons: "before (p # q # ps) = before (q # ps) @ before [p]"
  and after_Cons: "after (p # q # ps) = after [p] @ after (q # ps)"
  by (cases p; simp)+

lemma inorder_insert_fixup:
  "insert_fixup ps t = Some t' \<Longrightarrow> inorder t' = before ps @ inorder t @ after ps"
proof (induction ps t rule: insert_fixup.induct)
  case (1 node)
  then show ?case by simp
next
  case (2 p node)
  then show ?case by (auto split: if_splits)
next
  case (3 p gc gv temp gs node)
  show ?case
  proof (cases "crumb_color p = Black \<or> ngx_rbt_is_red temp")
    case True
    with 3 show ?thesis
      by (auto split: if_splits simp: before_Cons after_Cons)
  next
    case False
    with "3.prems" obtain p' n' c v l r where
      i: "insert_inner_left p node = Some (p', n')" and
      o: "ngx_rbtree_right_rotate (Node Red gv (up (crumb_paint Black p') n') temp) = Some (Node c v l r)"
      and f: "insert_fixup (CLeft c v r # gs) l = Some t'"
      by (auto split: if_splits option.splits rbtree.splits)
    have "inorder t' = before gs @ inorder (Node c v l r) @ after gs"
      using "3.IH"(2) [OF _ _ i refl o refl f] False by auto
    with inorder_right_rotate [OF o] inorder_inner_left [OF i]
    show ?thesis by (simp add: before_Cons after_Cons)
  qed
next
  case (4 p gc gv temp gs node)
  show ?case
  proof (cases "crumb_color p = Black \<or> ngx_rbt_is_red temp")
    case True
    with 4 show ?thesis
      by (auto split: if_splits simp: before_Cons after_Cons)
  next
    case False
    with "4.prems" obtain p' n' c v l r where
      i: "insert_inner_right p node = Some (p', n')" and
      o: "ngx_rbtree_left_rotate (Node Red gv temp (up (crumb_paint Black p') n')) = Some (Node c v l r)"
      and f: "insert_fixup (CRight c v l # gs) r = Some t'"
      by (auto split: if_splits option.splits rbtree.splits)
    have "inorder t' = before gs @ inorder (Node c v l r) @ after gs"
      using "4.IH"(2) [OF _ _ i refl o refl f] False by auto
    with inorder_left_rotate [OF o] inorder_inner_right [OF i]
    show ?thesis by (simp add: before_Cons after_Cons)
  qed
qed

lemma before_after_descend:
  "before (rbtree_descend gl x ps t) @ after (rbtree_descend gl x ps t) = before ps @ inorder t @ after ps"
  by (induction gl x ps t rule: rbtree_descend.induct) simp_all

lemma inorder_insert:
  assumes "ngx_rbtree_insert ins t x = Some t'" "before (ins t x) @ after (ins t x) = inorder t"
  shows "inorder t' = (if t = Sentinel then [x] else before (ins t x) @ x # after (ins t x))"
  using assms by (cases t) (auto simp: ngx_rbtree_insert_def dest!: inorder_insert_fixup)

lemma inorder_delete_left_case1:
  "delete_left_case1 pc pv w temp ps = Some (pc', w', ps') \<Longrightarrow>
   before ps' @ inorder temp @ pv # inorder w' @ after ps' = before ps @ inorder temp @ pv # inorder w @ after ps"
  by (cases "(pc, pv, w, temp, ps)" rule: delete_left_case1.cases) auto

lemma inorder_delete_right_case1:
  "delete_right_case1 pc pv w temp ps = Some (pc', w', ps') \<Longrightarrow>
   before ps' @ inorder w' @ pv # inorder temp @ after ps' = before ps @ inorder w @ pv # inorder temp @ after ps"
  by (cases "(pc, pv, w, temp, ps)" rule: delete_right_case1.cases) auto

lemma inorder_delete_left_last:
  "delete_left_last pc pv temp w = Some t \<Longrightarrow> inorder t = inorder temp @ pv # inorder w"
  by (auto simp: delete_left_last.simps split: rbtree.splits option.splits if_splits
      dest!: inorder_left_rotate inorder_right_rotate)

lemma inorder_delete_right_last:
  "delete_right_last pc pv temp w = Some t \<Longrightarrow> inorder t = inorder w @ pv # inorder temp"
  by (auto simp: delete_right_last.simps split: rbtree.splits option.splits if_splits
      dest!: inorder_left_rotate inorder_right_rotate)

lemma inorder_delete_fixup:
  "delete_fixup ps t = Some t' \<Longrightarrow> inorder t' = before ps @ inorder t @ after ps"
proof (induction ps t rule: delete_fixup.induct)
  case (1 temp)
  then show ?case by auto
next
  case (2 pc pv w ps temp)
  show ?case
  proof (cases "ngx_rbt_is_red temp")
    case True
    with 2 show ?thesis by auto
  next
    case False
    with "2.prems" obtain pc' w' ps' wc wv wl wr where
      c1: "delete_left_case1 pc pv w temp ps = Some (pc', w', ps')" and w': "w' = Node wc wv wl wr"
      by (auto split: option.splits rbtree.splits)
    note eq = inorder_delete_left_case1 [OF c1]
    show ?thesis
    proof (cases "ngx_rbt_is_black wl \<and> ngx_rbt_is_black wr")
      case True
      have "inorder t' = before ps' @ inorder (Node pc' pv temp (Node Red wv wl wr)) @ after ps'"
        using "2.IH" [OF False c1 refl refl w' True] "2.prems" False c1 w' True by simp
      with eq w' show ?thesis by simp
    next
      case False
      with "2.prems" \<open>\<not> ngx_rbt_is_red temp\<close> c1 w'
      obtain u where "delete_left_last pc' pv temp w' = Some u" "t' = ngx_rbt_black (plug ps' u)"
        by auto
      with eq show ?thesis by (auto dest!: inorder_delete_left_last)
    qed
  qed
next
  case (3 pc pv w ps temp)
  show ?case
  proof (cases "ngx_rbt_is_red temp")
    case True
    with 3 show ?thesis by auto
  next
    case False
    with "3.prems" obtain pc' w' ps' wc wv wl wr where
      c1: "delete_right_case1 pc pv w temp ps = Some (pc', w', ps')" and w': "w' = Node wc wv wl wr"
      by (auto split: option.splits rbtree.splits)
    note eq = inorder_delete_right_case1 [OF c1]
    show ?thesis
    proof (cases "ngx_rbt_is_black wl \<and> ngx_rbt_is_black wr")
      case True
      have "inorder t' = before ps' @ inorder (Node pc' pv (Node Red wv wl wr) temp) @ after ps'"
        using "3.IH" [OF False c1 refl refl w' True] "3.prems" False c1 w' True by simp
      with eq w' show ?thesis by simp
    next
      case False
      with "3.prems" \<open>\<not> ngx_rbt_is_red temp\<close> c1 w'
      obtain u where "delete_right_last pc' pv temp w' = Some u" "t' = ngx_rbt_black (plug ps' u)"
        by auto
      with eq show ?thesis by (auto dest!: inorder_delete_right_last)
    qed
  qed
qed

lemma inorder_unlink:
  "rbtree_unlink c ps t = Some t' \<Longrightarrow> inorder t' = before ps @ inorder t @ after ps"
proof (cases "(c, ps, t)" rule: rbtree_unlink.cases)
  case (2 c' p ps' temp)
  assume "rbtree_unlink c ps t = Some t'"
  with 2 show ?thesis
    by (cases p) (auto simp del: delete_fixup.simps split: if_splits dest!: inorder_delete_fixup)
qed auto

lemma plug_append: "plug (qs @ ps) t = plug ps (plug qs t)"
  by (induction qs arbitrary: t) simp_all

lemma node_path_Some:
  "node_path x ps t = Some (qs, n) \<Longrightarrow>
   plug qs n = plug ps t \<and> (\<exists>c l r. n = Node c x l r)"
  by (induction x ps t rule: node_path.induct) (auto split: if_splits option.splits)

lemma node_path_None: "node_path x ps t = None \<longleftrightarrow> x \<notin> set (inorder t)"
  by (induction x ps t rule: node_path.induct) (auto split: if_splits option.splits)

lemma ngx_rbtree_min_plug:
  "ngx_rbtree_min ps t = (qs, n) \<Longrightarrow> t \<noteq> Sentinel \<Longrightarrow>
   plug qs n = plug ps t \<and> before qs = before ps \<and> (\<exists>c v r. n = Node c v Sentinel r)"
proof (induction ps t rule: ngx_rbtree_min.induct)
  case (1 path c v cl vl ll rl r)
  then show ?case by auto
qed auto

lemma inorder_delete:
  assumes "ngx_rbtree_delete t x = Some t'"
  shows "\<exists>us vs. inorder t = us @ x # vs \<and> inorder t' = us @ vs"
proof -
  from assms obtain ps c l r where p: "node_path x [] t = Some (ps, Node c x l r)"
    by (auto simp: ngx_rbtree_delete_def split: option.splits prod.splits dest: node_path_Some)
  have t: "plug ps (Node c x l r) = t" using node_path_Some [OF p] by simp
  then have io: "inorder t = before ps @ (inorder l @ x # inorder r) @ after ps"
    by (metis inorder.simps(2) inorder_plug)
  have "inorder t' = before ps @ inorder l @ inorder r @ after ps"
  proof (cases "l = Sentinel \<or> r = Sentinel")
    case True
    with assms p show ?thesis
      by (cases l; cases r) (auto simp: ngx_rbtree_delete_def dest: inorder_unlink)
  next
    case False
    obtain qs n where m: "ngx_rbtree_min [] r = (qs, n)" by fastforce
    from ngx_rbtree_min_plug [OF m] False obtain sc sv sr where
      n: "n = Node sc sv Sentinel sr" and r: "plug qs n = r" and bq: "before qs = []" by auto
    from r have ir: "inorder r = sv # inorder sr @ after qs"
      by (metis append_Nil bq inorder.simps inorder_plug n append_Cons)
    have "rbtree_unlink sc (qs @ CRight c sv l # ps) sr = Some t'"
      using assms p m n False by (cases l; cases r) (auto simp: ngx_rbtree_delete_def)
    then show ?thesis
      by (auto dest!: inorder_unlink simp: before_append after_append bq ir)
  qed
  with io show ?thesis by (intro exI [of _ "before ps @ inorder l"] exI [of _ "inorder r @ after ps"]) simp
qed

lemma inorder_delete_remove1:
  assumes "ngx_rbtree_delete t x = Some t'" "distinct (inorder t)"
  shows "inorder t' = remove1 x (inorder t)"
  using inorder_delete [OF assms(1)] assms(2) by (auto simp: remove1_append)

section \<open>The red-black invariants\<close>

fun invc :: "'a rbtree \<Rightarrow> bool" where
  "invc Sentinel = True"
| "invc (Node c v l r) = ((c = Red \<longrightarrow> rbt_color l = Black \<and> rbt_color r = Black) \<and> invc l \<and> invc r)"

fun bheight :: "'a rbtree \<Rightarrow> nat" where
  "bheight Sentinel = 0"
| "bheight (Node c v l r) = bheight l + (if c = Black then 1 else 0)"

fun invh :: "'a rbtree \<Rightarrow> bool" where
  "invh Sentinel = True"
| "invh (Node c v l r) = (bheight l = bheight r \<and> invh l \<and> invh r)"

definition rbt :: "'a rbtree \<Rightarrow> bool" where
  "rbt t \<longleftrightarrow> invc t \<and> invh t \<and> rbt_color t = Black"

fun crumb_sibling :: "'a crumb \<Rightarrow> 'a rbtree" where
  "crumb_sibling (CLeft c v r) = r"
| "crumb_sibling (CRight c v l) = l"

fun path_ok :: "'a rbpath \<Rightarrow> rb_color \<Rightarrow> nat \<Rightarrow> bool" where
  \<comment> \<open>a focus of this color and black height completes the path to a red-black tree\<close>
  "path_ok [] fc h = (fc = Black)"
| "path_ok (p # ps) fc h =
     (invc (crumb_sibling p) \<and> invh (crumb_sibling p) \<and> bheight (crumb_sibling p) = h \<and>
      (crumb_color p = Red \<longrightarrow> rbt_color (crumb_sibling p) = Black \<and> fc = Black) \<and>
      path_ok ps (crumb_color p) (h + (if crumb_color p = Black then 1 else 0)))"

lemma path_ok_plug: "rbt (plug ps t) \<longleftrightarrow> invc t \<and> invh t \<and> path_ok ps (rbt_color t) (bheight t)"
proof (induction ps arbitrary: t)
  case Nil
  then show ?case by (auto simp: rbt_def)
next
  case (Cons p ps)
  then show ?case by (cases p) auto
qed

lemma path_ok_black: "path_ok ps fc h \<Longrightarrow> path_ok ps Black h"
  by (cases ps) auto

lemma rb_color_not_iff: "c \<noteq> Red \<longleftrightarrow> c = Black" "c \<noteq> Black \<longleftrightarrow> c = Red"
  by (cases c; simp)+

lemma ngx_rbt_black_simps [simp]:
  "invc t \<Longrightarrow> invc (ngx_rbt_black t)" "invh (ngx_rbt_black t) = invh t"
  "rbt_color (ngx_rbt_black t) = Black"
  "bheight (ngx_rbt_black t) = bheight t + (if rbt_color t = Red then 1 else 0)"
  by (cases t, simp_all add: rb_color_not_iff)+

lemmas rb_simps = ngx_rbt_is_red_def ngx_rbt_is_black_def rb_color_not_iff

lemma red_node: "rbt_color t = Red \<Longrightarrow> \<exists>v l r. t = Node Red v l r"
  by (cases t) auto

lemma insert_fixup_rbt:
  assumes "invc n" "invh n" "rbt_color n = Red" "path_ok ps Black (bheight n)"
  shows "\<exists>t. insert_fixup ps n = Some t \<and> invc t \<and> invh t \<and> t \<noteq> Sentinel"
  using assms
proof (induction ps n rule: insert_fixup.induct)
  case (1 node)
  then show ?case by auto
next
  case (2 p node)
  then show ?case by (cases p) (auto simp: rb_simps)
next
  case (3 p gc gv temp gs node)
  obtain nv nl nr where n: "node = Node Red nv nl nr" using "3.prems" red_node by blast
  show ?case
  proof (cases "crumb_color p = Black")
    case True
    have "rbt (plug (p # CLeft gc gv temp # gs) node)"
      using "3.prems" True by (simp add: path_ok_plug del: plug.simps)
    moreover have "plug (p # CLeft gc gv temp # gs) node \<noteq> Sentinel"
      by (metis inorder.simps(1) inorder_plug n append_is_Nil_conv inorder.simps(2) list.distinct(1))
    ultimately show ?thesis using True by (simp add: rbt_def)
  next
    case pr: False
    show ?thesis
    proof (cases "ngx_rbt_is_red temp")
      case True
      show ?thesis
        using "3.IH"(1) [OF pr True] "3.prems" pr True by (cases p) (auto simp: rb_simps)
    next
      case False
      with "3.IH"(2) [OF pr] "3.prems" pr n show ?thesis
        by (cases p) (auto simp: rb_simps)
    qed
  qed
next
  case (4 p gc gv temp gs node)
  obtain nv nl nr where n: "node = Node Red nv nl nr" using "4.prems" red_node by blast
  show ?case
  proof (cases "crumb_color p = Black")
    case True
    have "rbt (plug (p # CRight gc gv temp # gs) node)"
      using "4.prems" True by (simp add: path_ok_plug del: plug.simps)
    moreover have "plug (p # CRight gc gv temp # gs) node \<noteq> Sentinel"
      by (metis inorder.simps(1) inorder_plug n append_is_Nil_conv inorder.simps(2) list.distinct(1))
    ultimately show ?thesis using True by (simp add: rbt_def)
  next
    case pr: False
    show ?thesis
    proof (cases "ngx_rbt_is_red temp")
      case True
      show ?thesis
        using "4.IH"(1) [OF pr True] "4.prems" pr True by (cases p) (auto simp: rb_simps)
    next
      case False
      with "4.IH"(2) [OF pr] "4.prems" pr n show ?thesis
        by (cases p) (auto simp: rb_simps)
    qed
  qed
qed

lemma path_ok_descend:
  assumes "path_ok ps (rbt_color t) (bheight t)" "invc t" "invh t"
  shows "path_ok (rbtree_descend gl x ps t) Black 0"
  using assms
proof (induction gl x ps t rule: rbtree_descend.induct)
  case (2 gl x ps c v l r)
  then show ?case by (auto simp: path_ok_black)
qed simp

lemma ngx_rbtree_insert_rbt:
  assumes "rbt t" "path_ok (ins t x) Black 0"
  shows "\<exists>t'. ngx_rbtree_insert ins t x = Some t' \<and> rbt t' \<and> t' \<noteq> Sentinel"
proof (cases t)
  case Sentinel
  then show ?thesis by (simp add: ngx_rbtree_insert_def rbt_def)
next
  case (Node c v l r)
  from insert_fixup_rbt [of "Node Red x Sentinel Sentinel" "ins t x"] assms(2)
  obtain u where "insert_fixup (ins t x) (Node Red x Sentinel Sentinel) = Some u" "invc u" "invh u" "u \<noteq> Sentinel"
    by auto
  moreover have "ngx_rbt_black u \<noteq> Sentinel" using \<open>u \<noteq> Sentinel\<close> by (cases u) auto
  ultimately show ?thesis using Node by (simp add: ngx_rbtree_insert_def rbt_def)
qed

lemma delete_left_case1_ok:
  assumes "path_ok (CLeft pc pv w # ps) Black (Suc (bheight temp))" "invc temp" "invh temp"
  shows "\<exists>pc' w' ps'. delete_left_case1 pc pv w temp ps = Some (pc', w', ps') \<and>
    path_ok (CLeft pc' pv w' # ps') Black (Suc (bheight temp)) \<and>
    (\<exists>wv wl wr. w' = Node Black wv wl wr)"
proof (cases w)
  case Sentinel
  with assms show ?thesis by auto
next
  case (Node wc wv wl wr)
  then show ?thesis
    using assms by (cases wc; cases wl) (auto simp: rb_simps split: if_splits)
qed

lemma delete_right_case1_ok:
  assumes "path_ok (CRight pc pv w # ps) Black (Suc (bheight temp))" "invc temp" "invh temp"
  shows "\<exists>pc' w' ps'. delete_right_case1 pc pv w temp ps = Some (pc', w', ps') \<and>
    path_ok (CRight pc' pv w' # ps') Black (Suc (bheight temp)) \<and>
    (\<exists>wv wl wr. w' = Node Black wv wl wr)"
proof (cases w)
  case Sentinel
  with assms show ?thesis by auto
next
  case (Node wc wv wl wr)
  then show ?thesis
    using assms by (cases wc; cases wr) (auto simp: rb_simps split: if_splits)
qed

lemma delete_left_last_ok:
  assumes "path_ok (CLeft pc pv (Node Black wv wl wr) # ps) Black (Suc (bheight temp))"
    and "invc temp" "invh temp" "rbt_color temp = Black"
    and "\<not> (ngx_rbt_is_black wl \<and> ngx_rbt_is_black wr)"
  shows "\<exists>u. delete_left_last pc pv temp (Node Black wv wl wr) = Some u \<and> rbt (plug ps u)"
proof (cases "ngx_rbt_is_black wr")
  case True
  then obtain lv ll lr where "wl = Node Red lv ll lr"
    using assms(5) red_node [of wl] by (auto simp: rb_simps)
  with True assms show ?thesis
    by (cases pc) (auto simp: delete_left_last.simps path_ok_plug rb_simps)
next
  case False
  then obtain rv rl rr where "wr = Node Red rv rl rr"
    using red_node [of wr] by (auto simp: rb_simps)
  with assms show ?thesis
    by (cases pc) (auto simp: delete_left_last.simps path_ok_plug rb_simps)
qed

lemma delete_right_last_ok:
  assumes "path_ok (CRight pc pv (Node Black wv wl wr) # ps) Black (Suc (bheight temp))"
    and "invc temp" "invh temp" "rbt_color temp = Black"
    and "\<not> (ngx_rbt_is_black wl \<and> ngx_rbt_is_black wr)"
  shows "\<exists>u. delete_right_last pc pv temp (Node Black wv wl wr) = Some u \<and> rbt (plug ps u)"
proof (cases "ngx_rbt_is_black wl")
  case True
  then obtain lv ll lr where "wr = Node Red lv ll lr"
    using assms(5) red_node [of wr] by (auto simp: rb_simps)
  with True assms show ?thesis
    by (cases pc) (auto simp: delete_right_last.simps path_ok_plug rb_simps)
next
  case False
  then obtain rv rl rr where "wl = Node Red rv rl rr"
    using red_node [of wl] by (auto simp: rb_simps)
  with assms show ?thesis
    by (cases pc) (auto simp: delete_right_last.simps path_ok_plug rb_simps)
qed

lemma ngx_rbt_black_rbt: "rbt t \<Longrightarrow> rbt (ngx_rbt_black t)"
  by (simp add: rbt_def)

lemma delete_fixup_rbt:
  assumes "invc (ngx_rbt_black t)" "invh t" "path_ok ps Black (Suc (bheight t))"
  shows "\<exists>u. delete_fixup ps t = Some u \<and> rbt u"
  using assms
proof (induction ps t rule: delete_fixup.induct)
  case (1 temp)
  then show ?case by (simp add: rbt_def)
next
  case (2 pc pv w ps temp)
  show ?case
  proof (cases "ngx_rbt_is_red temp")
    case True
    then have "rbt (plug (CLeft pc pv w # ps) (ngx_rbt_black temp))"
      using "2.prems" by (simp add: path_ok_plug rb_simps del: plug.simps)
    with True show ?thesis by simp
  next
    case False
    have inv: "invc temp" using "2.prems"(1) False by (cases temp) (auto simp: rb_simps)
    obtain pc' wv wl wr ps' where
      c1: "delete_left_case1 pc pv w temp ps = Some (pc', Node Black wv wl wr, ps')" and
      ok: "path_ok (CLeft pc' pv (Node Black wv wl wr) # ps') Black (Suc (bheight temp))"
      using delete_left_case1_ok [OF "2.prems"(3) inv "2.prems"(2)] by blast
    show ?thesis
    proof (cases "ngx_rbt_is_black wl \<and> ngx_rbt_is_black wr")
      case True
      have up: "path_ok ps' Black (Suc (bheight (Node pc' pv temp (Node Red wv wl wr))))"
        using ok by (auto intro: path_ok_black)
      have "\<exists>u. delete_fixup ps' (Node pc' pv temp (Node Red wv wl wr)) = Some u \<and> rbt u"
        using "2.IH" [OF False c1 refl refl refl True] up "2.prems"(2) inv ok True False
        by (auto simp: rb_simps)
      with False c1 True show ?thesis by simp
    next
      case nb: False
      have "rbt_color temp = Black" using False by (simp add: rb_simps)
      from delete_left_last_ok [OF ok inv "2.prems"(2) this nb] obtain u
        where "delete_left_last pc' pv temp (Node Black wv wl wr) = Some u" "rbt (plug ps' u)" by auto
      with False c1 nb ngx_rbt_black_rbt show ?thesis by auto
    qed
  qed
next
  case (3 pc pv w ps temp)
  show ?case
  proof (cases "ngx_rbt_is_red temp")
    case True
    then have "rbt (plug (CRight pc pv w # ps) (ngx_rbt_black temp))"
      using "3.prems" by (simp add: path_ok_plug rb_simps del: plug.simps)
    with True show ?thesis by simp
  next
    case False
    have inv: "invc temp" using "3.prems"(1) False by (cases temp) (auto simp: rb_simps)
    obtain pc' wv wl wr ps' where
      c1: "delete_right_case1 pc pv w temp ps = Some (pc', Node Black wv wl wr, ps')" and
      ok: "path_ok (CRight pc' pv (Node Black wv wl wr) # ps') Black (Suc (bheight temp))"
      using delete_right_case1_ok [OF "3.prems"(3) inv "3.prems"(2)] by blast
    show ?thesis
    proof (cases "ngx_rbt_is_black wl \<and> ngx_rbt_is_black wr")
      case True
      have up: "path_ok ps' Black (Suc (bheight (Node pc' pv (Node Red wv wl wr) temp)))"
        using ok by (auto intro: path_ok_black)
      have "\<exists>u. delete_fixup ps' (Node pc' pv (Node Red wv wl wr) temp) = Some u \<and> rbt u"
        using "3.IH" [OF False c1 refl refl refl True] up "3.prems"(2) inv ok True False
        by (auto simp: rb_simps)
      with False c1 True show ?thesis by simp
    next
      case nb: False
      have "rbt_color temp = Black" using False by (simp add: rb_simps)
      from delete_right_last_ok [OF ok inv "3.prems"(2) this nb] obtain u
        where "delete_right_last pc' pv temp (Node Black wv wl wr) = Some u" "rbt (plug ps' u)" by auto
      with False c1 nb ngx_rbt_black_rbt show ?thesis by auto
    qed
  qed
qed

lemma rbtree_unlink_rbt:
  assumes "path_ok ps c (bheight t + (if c = Black then 1 else 0))" "invc t" "invh t"
    and "c = Red \<longrightarrow> rbt_color t = Black"
  shows "\<exists>u. rbtree_unlink c ps t = Some u \<and> rbt u"
proof (cases ps)
  case Nil
  with assms show ?thesis by (simp add: rbt_def)
next
  case (Cons p qs)
  show ?thesis
  proof (cases c)
    case Red
    with assms Cons have "rbt (plug ps t)"
      by (auto simp: path_ok_plug simp del: path_ok.simps plug.simps intro: path_ok_black)
    with Red Cons show ?thesis by simp
  next
    case Black
    with assms Cons show ?thesis
      using delete_fixup_rbt [of t ps] by (simp del: delete_fixup.simps)
  qed
qed

lemma ngx_rbtree_min_path_ok:
  assumes "ngx_rbtree_min ps t = (qs, n)" "path_ok ps (rbt_color t) (bheight t)" "invc t" "invh t"
  shows "path_ok qs (rbt_color n) (bheight n) \<and> invc n \<and> invh n"
  using assms by (induction ps t rule: ngx_rbtree_min.induct) auto

lemma ngx_rbtree_min_append:
  "ngx_rbtree_min (qs @ ps) t = (let (rs, n) = ngx_rbtree_min qs t in (rs @ ps, n))"
  by (induction qs t rule: ngx_rbtree_min.induct) (auto simp: Let_def split: prod.splits)

lemma node_path_rbt:
  assumes "node_path x [] t = Some (ps, n)" "rbt t"
  shows "path_ok ps (rbt_color n) (bheight n)" "invc n" "invh n"
  using node_path_Some [OF assms(1)] assms(2) path_ok_plug [of ps n] by auto

lemma ngx_rbtree_delete_rbt:
  assumes "rbt t" "x \<in> set (inorder t)"
  shows "\<exists>u. ngx_rbtree_delete t x = Some u \<and> rbt u"
proof -
  from assms(2) obtain ps n where p: "node_path x [] t = Some (ps, n)"
    using node_path_None [of x "[]" t] by (metis option.exhaust prod.exhaust)
  then obtain c l r where n: "n = Node c x l r" by (auto dest: node_path_Some)
  note inv = node_path_rbt [OF p assms(1), unfolded n]
  show ?thesis
  proof (cases "l = Sentinel \<or> r = Sentinel")
    case True
    then show ?thesis
      using inv p n rbtree_unlink_rbt [of ps c l] rbtree_unlink_rbt [of ps c r]
      by (cases l; cases r) (auto simp: ngx_rbtree_delete_def)
  next
    case False
    obtain qs m where m: "ngx_rbtree_min [] r = (qs, m)" by fastforce
    from ngx_rbtree_min_plug [OF m] False obtain sc sv sr where mn: "m = Node sc sv Sentinel sr" by auto
    have "ngx_rbtree_min ([] @ CRight c sv l # ps) r = (qs @ CRight c sv l # ps, m)"
      by (subst ngx_rbtree_min_append) (simp add: m)
    then have "path_ok (qs @ CRight c sv l # ps) (rbt_color m) (bheight m) \<and> invc m \<and> invh m"
      using inv by (intro ngx_rbtree_min_path_ok) auto
    then have "\<exists>u. rbtree_unlink sc (qs @ CRight c sv l # ps) sr = Some u \<and> rbt u"
      by (intro rbtree_unlink_rbt) (auto simp: mn)
    then show ?thesis
      using p n m mn False by (cases l; cases r) (auto simp: ngx_rbtree_delete_def)
  qed
qed

section \<open>Trees ordered by an insert callback\<close>

lemma rbtree_descend_cong:
  assumes "\<And>v. v \<in> set (inorder t) \<Longrightarrow> g x v \<longleftrightarrow> h x v"
  shows "rbtree_descend g x ps t = rbtree_descend h x ps t"
  using assms by (induction t arbitrary: ps) auto

text \<open>An insert callback goes left on a strict weak order; the nodes then stay ordered,
  and a new node comes after those it is equivalent to.\<close>

locale rbtree_order =
  fixes less :: "'a \<Rightarrow> 'a \<Rightarrow> bool"
  assumes less_asym: "less a b \<Longrightarrow> \<not> less b a"
    and less_le_trans: "less a b \<Longrightarrow> \<not> less c b \<Longrightarrow> less a c"
    and le_trans: "\<not> less b a \<Longrightarrow> \<not> less c b \<Longrightarrow> \<not> less c a"
begin

lemma descend_ordered:
  assumes "sorted_wrt (\<lambda>a b. \<not> less b a) (inorder t)"
    and "\<forall>v \<in> set (before ps). \<not> less x v" "\<forall>v \<in> set (after ps). less x v"
  shows "(\<forall>v \<in> set (before (rbtree_descend less x ps t)). \<not> less x v) \<and>
    (\<forall>v \<in> set (after (rbtree_descend less x ps t)). less x v)"
  using assms
proof (induction t arbitrary: ps)
  case Sentinel
  then show ?case by simp
next
  case (Node c v l r)
  have sl: "sorted_wrt (\<lambda>a b. \<not> less b a) (inorder l)" and sr: "sorted_wrt (\<lambda>a b. \<not> less b a) (inorder r)"
    and lv: "\<forall>w \<in> set (inorder l). \<not> less v w" and vr: "\<forall>w \<in> set (inorder r). \<not> less w v"
    using Node.prems(1) by (simp_all add: sorted_wrt_append)
  show ?case
  proof (cases "less x v")
    case True
    have "\<forall>w \<in> set (inorder r). less x w" using vr less_le_trans [OF True] by blast
    then have "\<forall>w \<in> set (after (CLeft c v r # ps)). less x w" using True Node.prems(3) by (simp add: ball_Un)
    moreover have "\<forall>w \<in> set (before (CLeft c v r # ps)). \<not> less x w"
      unfolding before.simps by (rule Node.prems)
    moreover have "rbtree_descend less x ps (Node c v l r) = rbtree_descend less x (CLeft c v r # ps) l"
      by (simp only: rbtree_descend.simps if_P [OF True])
    ultimately show ?thesis using Node.IH(1) [OF sl, of "CLeft c v r # ps"] by metis
  next
    case False
    have "\<forall>w \<in> set (inorder l). \<not> less x w" using lv le_trans [OF _ False] by blast
    then have "\<forall>w \<in> set (before (CRight c v l # ps)). \<not> less x w" using False Node.prems(2) by (simp add: ball_Un)
    moreover have "\<forall>w \<in> set (after (CRight c v l # ps)). less x w"
      unfolding after.simps by (rule Node.prems)
    moreover have "rbtree_descend less x ps (Node c v l r) = rbtree_descend less x (CRight c v l # ps) r"
      by (simp only: rbtree_descend.simps if_not_P [OF False])
    ultimately show ?thesis using Node.IH(2) [OF sr, of "CRight c v l # ps"] by metis
  qed
qed

lemma insert_sorted:
  assumes "rbt t" "sorted_wrt (\<lambda>a b. \<not> less b a) (inorder t)"
    and ins: "ins t x = rbtree_descend less x [] t"
  shows "\<exists>t'. ngx_rbtree_insert ins t x = Some t' \<and> rbt t' \<and> t' \<noteq> Sentinel \<and>
    sorted_wrt (\<lambda>a b. \<not> less b a) (inorder t') \<and> mset (inorder t') = add_mset x (mset (inorder t))"
proof -
  let ?p = "rbtree_descend less x [] t"
  have io: "before ?p @ after ?p = inorder t" using before_after_descend [of less x "[]" t] by simp
  have ord: "(\<forall>v \<in> set (before ?p). \<not> less x v) \<and> (\<forall>v \<in> set (after ?p). less x v)"
    by (rule descend_ordered) (use assms(2) in simp_all)
  have "path_ok ?p Black 0"
    using assms(1) by (intro path_ok_descend) (auto simp: rbt_def)
  then obtain t' where t': "ngx_rbtree_insert ins t x = Some t'" "rbt t'" "t' \<noteq> Sentinel"
    using ngx_rbtree_insert_rbt [OF assms(1), of ins x] ins by auto
  have io': "inorder t' = before ?p @ x # after ?p"
    using inorder_insert [OF t'(1)] ins io by (auto split: if_splits)
  have "sorted_wrt (\<lambda>a b. \<not> less b a) (before ?p @ after ?p)" using assms(2) io by simp
  then have "sorted_wrt (\<lambda>a b. \<not> less b a) (inorder t')"
    using ord by (auto simp: io' sorted_wrt_append dest: less_asym)
  moreover have "mset (inorder t') = add_mset x (mset (inorder t))"
    by (simp add: io' io [symmetric])
  ultimately show ?thesis using t' by auto
qed

lemma delete_sorted:
  assumes "rbt t" "sorted_wrt (\<lambda>a b. \<not> less b a) (inorder t)" "x \<in> set (inorder t)"
  shows "\<exists>t'. ngx_rbtree_delete t x = Some t' \<and> rbt t' \<and>
    sorted_wrt (\<lambda>a b. \<not> less b a) (inorder t') \<and> add_mset x (mset (inorder t')) = mset (inorder t)"
proof -
  from ngx_rbtree_delete_rbt [OF assms(1,3)] obtain u
    where u: "ngx_rbtree_delete t x = Some u" "rbt u" by auto
  from inorder_delete [OF u(1)] obtain us vs
    where "inorder t = us @ x # vs" "inorder u = us @ vs" by auto
  with u assms(2) show ?thesis by (auto simp: sorted_wrt_append)
qed

end

interpretation key_order: rbtree_order "\<lambda>a b. key a < (key b :: ngx_uint_t)" for key
  by unfold_locales auto

section \<open>The successor\<close>

lemma rbtree_ascend_after: "rbtree_ascend ps = (case after ps of [] \<Rightarrow> None | v # _ \<Rightarrow> Some v)"
  by (induction ps rule: rbtree_ascend.induct) simp_all

lemma ngx_rbtree_next_inorder:
  assumes "distinct (inorder t)" "inorder t = us @ x # vs"
  shows "ngx_rbtree_next t x = (case vs of [] \<Rightarrow> None | y # _ \<Rightarrow> Some y)"
proof -
  have "x \<in> set (inorder t)" using assms by simp
  then obtain ps n where p: "node_path x [] t = Some (ps, n)"
    using node_path_None [of x "[]" t] by (metis option.exhaust prod.exhaust)
  then obtain c l r where n: "n = Node c x l r" and pl: "plug ps n = t"
    by (auto dest: node_path_Some)
  have "inorder t = (before ps @ inorder l) @ x # (inorder r @ after ps)"
    using pl by (metis n append_assoc append_Cons inorder.simps(2) inorder_plug)
  with assms have vs: "vs = inorder r @ after ps"
    by (metis append_Cons_eq_iff distinct_append distinct.simps(2) not_distinct_conv_prefix disjoint_iff list.set_intros(1))
  show ?thesis
  proof (cases "r = Sentinel")
    case True
    with p n vs show ?thesis by (simp add: ngx_rbtree_next_def rbtree_ascend_after)
  next
    case False
    obtain qs m where m: "ngx_rbtree_min [] r = (qs, m)" by fastforce
    from ngx_rbtree_min_plug [OF m] False obtain sc sv sr where
      mn: "m = Node sc sv Sentinel sr" and r: "plug qs m = r" and bq: "before qs = []" by auto
    from r have "inorder r = sv # inorder sr @ after qs"
      by (metis append_Nil bq inorder.simps inorder_plug mn append_Cons)
    with vs have "vs = sv # inorder sr @ after qs @ after ps" by simp
    with p n m mn False show ?thesis
      by (cases r) (simp_all add: ngx_rbtree_next_def del: inorder.simps)
  qed
qed

section \<open>Properties\<close>

text \<open>C28. \<open>ngx_rbtree_insert\<close> with the ordinary insertion function never follows the sentinel, and gives a
  red-black tree (black root, no two reds in a row, equal black heights) that is still ordered by
  key and holds the old values and the new one.\<close>
theorem rbtree_insert_correct:
  assumes "rbt t" "sorted_wrt (\<lambda>a b. \<not> key b < key a) (inorder t)"
  shows "\<exists>t'. ngx_rbtree_insert (ngx_rbtree_insert_value key) t x = Some t' \<and> rbt t' \<and>
    sorted_wrt (\<lambda>a b. \<not> key b < key a) (inorder t') \<and> mset (inorder t') = add_mset x (mset (inorder t))"
  using key_order.insert_sorted [OF assms, of "ngx_rbtree_insert_value key" x]
  by (auto simp: ngx_rbtree_insert_value_def)

theorem rbtree_insert_correct_witness:
  "\<exists>t'. ngx_rbtree_insert (ngx_rbtree_insert_value id) (Node Black 5 Sentinel Sentinel) 3 = Some t' \<and> rbt t'"
  using rbtree_insert_correct [of "Node Black 5 Sentinel Sentinel" id 3] by (auto simp: rbt_def)

text \<open>C29. \<open>ngx_rbtree_delete\<close> of a value in the tree never follows the sentinel, and gives a red-black
  tree, still ordered, without that value and with every other one.\<close>
theorem rbtree_delete_correct:
  assumes "rbt t" "sorted_wrt (\<lambda>a b. \<not> key b < (key a :: ngx_uint_t)) (inorder t)" "x \<in> set (inorder t)"
  shows "\<exists>t'. ngx_rbtree_delete t x = Some t' \<and> rbt t' \<and>
    sorted_wrt (\<lambda>a b. \<not> key b < key a) (inorder t') \<and> add_mset x (mset (inorder t')) = mset (inorder t)"
  by (rule key_order.delete_sorted [OF assms])

theorem rbtree_delete_correct_witness:
  "\<exists>t'. ngx_rbtree_delete (Node Black 5 (Node Red 3 Sentinel Sentinel) Sentinel) (5 :: ngx_uint_t) = Some t' \<and>
     inorder t' = [3]"
proof -
  let ?t = "Node Black 5 (Node Red 3 Sentinel Sentinel) Sentinel :: ngx_uint_t rbtree"
  obtain t' where t: "ngx_rbtree_delete ?t 5 = Some t'" "add_mset 5 (mset (inorder t')) = mset (inorder ?t)"
    using rbtree_delete_correct [of ?t id 5] by (auto simp: rbt_def)
  then have "mset (inorder t') = {#3#}" by simp
  then show ?thesis using t(1) by (auto simp: mset_single_iff)
qed

text \<open>\<open>ngx_rbtree_next\<close> steps through the values of a tree in order and ends after the last one.\<close>
theorem rbtree_next_successor:
  assumes "distinct (inorder t)" "inorder t = us @ x # vs"
  shows "ngx_rbtree_next t x = (case vs of [] \<Rightarrow> None | y # _ \<Rightarrow> Some y)"
  by (rule ngx_rbtree_next_inorder [OF assms])

theorem rbtree_next_successor_witness:
  "ngx_rbtree_next (Node Black 5 (Node Red 3 Sentinel Sentinel) Sentinel) (3 :: nat) = Some 5"
  using rbtree_next_successor [of "Node Black 5 (Node Red 3 Sentinel Sentinel) Sentinel" "[]" "3 :: nat" "[5]"] by simp

end
