(* ===== verification/Limit_Req.thy ===== *)
theory Limit_Req
  imports Ngx_Crc32 Ngx_Queue Ngx_Rbtree "HOL-Library.Monad_Syntax"
begin

text \<open>
  The run-time part of the request limiter,
  \<open>nginx/src/http/modules/ngx_http_limit_req_module.c\<close>: the shared memory zone with its
  tree and queue of entries, the lookup that meets or makes the entry of a key, the
  accounting of delayed zones, the eviction of old entries, the handler that walks the
  configured limits with its rollback, and the set-up of a zone.

  Shared memory is a map from addresses to entries; the slab allocator is a parameter
  giving the address of a new entry, or \<open>None\<close> when the zone is full.  A result \<open>None\<close> of
  an operation is undefined behaviour of the C code: a dangling entry, the sentinel
  dereferenced, or a division by a rate of zero.
\<close>

section \<open>Data\<close>

record lr_node =
  lr_key :: ngx_uint_t      \<comment> \<open>the \<open>key\<close> of the tree node: the hash\<close>
  lr_len :: "16 word"
  lr_last :: ngx_msec_t
  lr_excess :: ngx_uint_t   \<comment> \<open>1 corresponds to 0.001 r/s\<close>
  lr_count :: ngx_uint_t
  lr_data :: string

type_synonym lr_nodes = "nat \<rightharpoonup> lr_node"

record lr_zone =  \<comment> \<open>\<open>ngx_http_limit_req_shctx_t\<close> with the memory it lives in\<close>
  sh_rbtree :: "nat rbtree"
  sh_queue :: "qaddr queue_links"
  sh_nodes :: lr_nodes

record lr_ctx =   \<comment> \<open>\<open>ngx_http_limit_req_ctx_t\<close>, in the memory of one worker\<close>
  ctx_sh :: nat             \<comment> \<open>the address of the shared zone, 0 when unset\<close>
  ctx_rate :: ngx_uint_t    \<comment> \<open>1 corresponds to 0.001 r/s\<close>
  ctx_key :: string         \<comment> \<open>the source text of the key\<close>
  ctx_node :: "nat option"

record lr_limit =
  lim_zone :: nat
  lim_burst :: ngx_uint_t
  lim_delay :: ngx_uint_t

record lr_conf =
  lc_limits :: "lr_limit list option"   \<comment> \<open>\<open>None\<close> when \<open>limits.elts\<close> is \<open>NULL\<close>\<close>
  lc_limit_log_level :: ngx_uint_t
  lc_delay_log_level :: ngx_uint_t
  lc_status_code :: ngx_uint_t
  lc_dry_run :: int

record lr_world =
  w_ctx :: "nat \<Rightarrow> lr_ctx"   \<comment> \<open>the context of each configured zone\<close>
  w_sh :: "nat \<Rightarrow> lr_zone"  \<comment> \<open>the shared zones by address\<close>

type_synonym slab = "lr_nodes \<Rightarrow> nat \<Rightarrow> nat option"

abbreviation (input) NGX_HTTP_LIMIT_REQ_PASSED :: nat where "NGX_HTTP_LIMIT_REQ_PASSED \<equiv> 1"
abbreviation (input) NGX_HTTP_LIMIT_REQ_DELAYED :: nat where "NGX_HTTP_LIMIT_REQ_DELAYED \<equiv> 2"
abbreviation (input) NGX_HTTP_LIMIT_REQ_REJECTED :: nat where "NGX_HTTP_LIMIT_REQ_REJECTED \<equiv> 3"
abbreviation (input) NGX_HTTP_LIMIT_REQ_DELAYED_DRY_RUN :: nat where
  "NGX_HTTP_LIMIT_REQ_DELAYED_DRY_RUN \<equiv> 4"
abbreviation (input) NGX_HTTP_LIMIT_REQ_REJECTED_DRY_RUN :: nat where
  "NGX_HTTP_LIMIT_REQ_REJECTED_DRY_RUN \<equiv> 5"
abbreviation (input) NGX_HTTP_INTERNAL_SERVER_ERROR :: int where
  "NGX_HTTP_INTERNAL_SERVER_ERROR \<equiv> 500"

section \<open>The arithmetic of one entry\<close>

definition lr_elapsed :: "ngx_msec_t \<Rightarrow> ngx_msec_t \<Rightarrow> ngx_msec_t" where
  \<comment> \<open>\<open>ms = now - last\<close> as a signed number, with a small step back in time taken as none
      and a large one as one millisecond\<close>
  "lr_elapsed now lst =
     (let ms = now - lst
      in if sint ms < -60000 then 1 else if sint ms < 0 then 0 else ms)"

definition lr_next_excess :: "ngx_uint_t \<Rightarrow> ngx_uint_t \<Rightarrow> ngx_msec_t \<Rightarrow> ngx_uint_t" where
  \<comment> \<open>\<open>excess = lr->excess - ctx->rate * ms / 1000 + 1000\<close>, and 0 when negative\<close>
  "lr_next_excess rate excess ms =
     (let e = excess - rate * ms div 1000 + 1000
      in if sint e < 0 then 0 else e)"

definition lr_goes_left :: "lr_nodes \<Rightarrow> nat \<Rightarrow> nat \<Rightarrow> bool" where
  \<comment> \<open>the comparison of \<open>ngx_http_limit_req_rbtree_insert_value\<close>\<close>
  "lr_goes_left nodes node temp =
     (case (nodes node, nodes temp) of
        (Some lrn, Some lrnt) \<Rightarrow>
          if lr_key lrn < lr_key lrnt then True
          else if lr_key lrn > lr_key lrnt then False
          else ngx_memn2cmp (lr_data lrn) (lr_data lrnt) (unat (lr_len lrn)) (unat (lr_len lrnt)) < 0
      | _ \<Rightarrow> False)"

definition ngx_http_limit_req_rbtree_insert_value :: "lr_nodes \<Rightarrow> nat rbtree \<Rightarrow> nat \<Rightarrow> nat rbpath" where
  "ngx_http_limit_req_rbtree_insert_value nodes temp node =
     rbtree_descend (lr_goes_left nodes) node [] temp"

section \<open>Eviction\<close>

function ngx_http_limit_req_expire ::
    "ngx_msec_t \<Rightarrow> ngx_uint_t \<Rightarrow> nat \<Rightarrow> lr_zone \<Rightarrow> lr_zone option" where
  "ngx_http_limit_req_expire now rate n sh =
     (if n < 3 then
        if ngx_queue_empty QHead (sh_queue sh) then Some sh
        else do {
          q \<leftarrow> ngx_queue_data (ngx_queue_last QHead (sh_queue sh));
          lr \<leftarrow> sh_nodes sh q;
          if lr_count lr \<noteq> 0 then Some sh
          else
            let ms = now - lr_last lr;
                ms = (if sint ms \<ge> 0 then ms else - ms);
                excess = lr_excess lr - rate * ms div 1000
            in if n \<noteq> 0 \<and> (sint ms < 60000 \<or> sint excess > 0) then Some sh
               else do {
                 t \<leftarrow> ngx_rbtree_delete (sh_rbtree sh) q;
                 ngx_http_limit_req_expire now rate (Suc n)
                   (sh\<lparr>sh_queue := lru_unlink q (sh_queue sh), sh_rbtree := t,
                       sh_nodes := (sh_nodes sh)(q := None)\<rparr>)
               }
        }
      else Some sh)"
  by pat_completeness auto
termination by (relation "measure (\<lambda>(_, _, n, _). 3 - n)") auto

declare ngx_http_limit_req_expire.simps [simp del]

section \<open>Lookup\<close>

fun lr_find :: "lr_nodes \<Rightarrow> ngx_uint_t \<Rightarrow> string \<Rightarrow> nat rbtree \<Rightarrow> nat option option" where
  \<comment> \<open>the walk of \<open>ngx_http_limit_req_lookup\<close>: the entry of the key, or \<open>Some None\<close>\<close>
  "lr_find nodes hash key Sentinel = Some None"
| "lr_find nodes hash key (Node c node l r) =
     (case nodes node of
        None \<Rightarrow> None
      | Some lr \<Rightarrow>
          if hash < lr_key lr then lr_find nodes hash key l
          else if hash > lr_key lr then lr_find nodes hash key r
          else
            let rc = ngx_memn2cmp key (lr_data lr) (length key) (unat (lr_len lr))
            in if rc = 0 then Some (Some node)
               else if rc < 0 then lr_find nodes hash key l
               else lr_find nodes hash key r)"

definition lr_found ::
    "ngx_msec_t \<Rightarrow> lr_limit \<Rightarrow> nat \<Rightarrow> lr_node \<Rightarrow> bool \<Rightarrow> lr_ctx \<Rightarrow> lr_zone \<Rightarrow>
     int \<times> ngx_uint_t \<times> lr_ctx \<times> lr_zone" where
  \<comment> \<open>the branch of an entry that exists, with the return code and \<open>*ep\<close>\<close>
  "lr_found now limit i lr account ctx sh =
     (let sh = sh\<lparr>sh_queue := lru_push i (lru_unlink i (sh_queue sh))\<rparr>;
          ms = lr_elapsed now (lr_last lr);
          excess = lr_next_excess (ctx_rate ctx) (lr_excess lr) ms
      in if excess > lim_burst limit then (NGX_BUSY, excess, ctx, sh)
         else if account then
           (NGX_OK, excess, ctx,
            sh\<lparr>sh_nodes := (sh_nodes sh)(i \<mapsto> lr\<lparr>lr_excess := excess,
                 lr_last := (if ms \<noteq> 0 then now else lr_last lr)\<rparr>)\<rparr>)
         else
           (NGX_AGAIN, excess, ctx\<lparr>ctx_node := Some i\<rparr>,
            sh\<lparr>sh_nodes := (sh_nodes sh)(i \<mapsto> lr\<lparr>lr_count := lr_count lr + 1\<rparr>)\<rparr>))"

definition lr_node_size :: "string \<Rightarrow> nat" where
  \<comment> \<open>the offsets of \<open>color\<close> in the tree node and of \<open>data\<close> in the entry, and the key\<close>
  "lr_node_size key = 32 + 48 + length key"

definition lr_alloc ::
    "slab \<Rightarrow> ngx_msec_t \<Rightarrow> ngx_uint_t \<Rightarrow> string \<Rightarrow> lr_zone \<Rightarrow> (nat option \<times> lr_zone) option" where
  \<comment> \<open>room is made before the allocation, and by force after it failed\<close>
  "lr_alloc alloc now rate key sh = do {
     sh \<leftarrow> ngx_http_limit_req_expire now rate 1 sh;
     case alloc (sh_nodes sh) (lr_node_size key) of
       Some i \<Rightarrow> Some (Some i, sh)
     | None \<Rightarrow> do {
         sh \<leftarrow> ngx_http_limit_req_expire now rate 0 sh;
         Some (alloc (sh_nodes sh) (lr_node_size key), sh)
       }
   }"

definition lr_insert_new ::
    "ngx_msec_t \<Rightarrow> ngx_uint_t \<Rightarrow> string \<Rightarrow> bool \<Rightarrow> nat \<Rightarrow> lr_zone \<Rightarrow> lr_zone option" where
  "lr_insert_new now hash key account i sh =
     (let lr = \<lparr>lr_key = hash, lr_len = word_of_nat (length key),
                lr_last = (if account then now else 0), lr_excess = 0,
                lr_count = (if account then 0 else 1), lr_data = key\<rparr>;
          nodes = (sh_nodes sh)(i \<mapsto> lr)
      in do {
        t \<leftarrow> ngx_rbtree_insert (ngx_http_limit_req_rbtree_insert_value nodes) (sh_rbtree sh) i;
        Some \<lparr>sh_rbtree = t, sh_queue = lru_push i (sh_queue sh), sh_nodes = nodes\<rparr>
      })"

definition ngx_http_limit_req_lookup ::
    "slab \<Rightarrow> ngx_msec_t \<Rightarrow> lr_limit \<Rightarrow> ngx_uint_t \<Rightarrow> string \<Rightarrow> bool \<Rightarrow> lr_ctx \<Rightarrow> lr_zone \<Rightarrow>
     (int \<times> ngx_uint_t \<times> lr_ctx \<times> lr_zone) option" where
  "ngx_http_limit_req_lookup alloc now limit hash key account ctx sh = do {
     found \<leftarrow> lr_find (sh_nodes sh) hash key (sh_rbtree sh);
     case found of
       Some i \<Rightarrow> do {
         lr \<leftarrow> sh_nodes sh i;
         Some (lr_found now limit i lr account ctx sh)
       }
     | None \<Rightarrow> do {
         (node, sh) \<leftarrow> lr_alloc alloc now (ctx_rate ctx) key sh;
         case node of
           None \<Rightarrow> Some (NGX_ERROR, 0, ctx, sh)
         | Some i \<Rightarrow> do {
             sh \<leftarrow> lr_insert_new now hash key account i sh;
             Some (if account then (NGX_OK, 0, ctx, sh)
                   else (NGX_AGAIN, 0, ctx\<lparr>ctx_node := Some i\<rparr>, sh))
           }
       }
   }"

section \<open>Accounting of the zones passed on the way\<close>

definition lr_delay_of :: "ngx_uint_t \<Rightarrow> ngx_uint_t \<Rightarrow> ngx_uint_t \<Rightarrow> ngx_msec_t option" where
  \<comment> \<open>\<open>(excess - delay) * 1000 / rate\<close>\<close>
  "lr_delay_of rate excess delay =
     (if rate = 0 then None else Some ((excess - delay) * 1000 div rate))"

definition w_zone :: "lr_world \<Rightarrow> nat \<Rightarrow> lr_zone" where
  "w_zone w z = w_sh w (ctx_sh (w_ctx w z))"

definition w_update :: "nat \<Rightarrow> lr_ctx \<Rightarrow> lr_zone \<Rightarrow> lr_world \<Rightarrow> lr_world" where
  "w_update z ctx sh w =
     w\<lparr>w_ctx := (w_ctx w)(z := ctx), w_sh := (w_sh w)(ctx_sh (w_ctx w z) := sh)\<rparr>"

definition lr_accounted :: "ngx_msec_t \<Rightarrow> ngx_uint_t \<Rightarrow> lr_node \<Rightarrow> lr_node" where
  \<comment> \<open>the entry of a zone passed with \<open>NGX_AGAIN\<close>, accounted and released\<close>
  "lr_accounted now rate lr =
     (let ms = lr_elapsed now (lr_last lr);
          excess = lr_next_excess rate (lr_excess lr) ms
      in lr\<lparr>lr_last := (if ms \<noteq> 0 then now else lr_last lr),
            lr_excess := excess, lr_count := lr_count lr - 1\<rparr>)"

definition lr_released :: "lr_node \<Rightarrow> lr_node" where
  "lr_released lr = lr\<lparr>lr_count := lr_count lr - 1\<rparr>"

fun lr_account_loop ::
    "ngx_msec_t \<Rightarrow> lr_limit list \<Rightarrow> nat \<Rightarrow> ngx_msec_t \<times> ngx_uint_t \<times> nat \<Rightarrow> lr_world \<Rightarrow>
     ((ngx_msec_t \<times> ngx_uint_t \<times> nat) \<times> lr_world) option" where
  \<comment> \<open>\<open>while (n--)\<close>, with \<open>max_delay\<close>, \<open>*ep\<close> and the index of \<open>*limit\<close>\<close>
  "lr_account_loop now limits 0 acc w = Some (acc, w)"
| "lr_account_loop now limits (Suc n) (max_delay, ep, limit) w =
     (let z = lim_zone (limits ! n); ctx = w_ctx w z; sh = w_zone w z
      in case ctx_node ctx of
           None \<Rightarrow> lr_account_loop now limits n (max_delay, ep, limit) w
         | Some i \<Rightarrow> do {
             lr \<leftarrow> sh_nodes sh i;
             let lr = lr_accounted now (ctx_rate ctx) lr;
                 excess = lr_excess lr;
                 w = w_update z (ctx\<lparr>ctx_node := None\<rparr>)
                       (sh\<lparr>sh_nodes := (sh_nodes sh)(i \<mapsto> lr)\<rparr>) w
             in if excess \<le> lim_delay (limits ! n)
                then lr_account_loop now limits n (max_delay, ep, limit) w
                else do {
                  delay \<leftarrow> lr_delay_of (ctx_rate ctx) excess (lim_delay (limits ! n));
                  if delay > max_delay
                  then lr_account_loop now limits n (delay, excess, n) w
                  else lr_account_loop now limits n (max_delay, ep, limit) w
                }
           })"

definition ngx_http_limit_req_account ::
    "ngx_msec_t \<Rightarrow> lr_limit list \<Rightarrow> nat \<Rightarrow> ngx_uint_t \<Rightarrow> nat \<Rightarrow> lr_world \<Rightarrow>
     ((ngx_msec_t \<times> ngx_uint_t \<times> nat) \<times> lr_world) option" where
  "ngx_http_limit_req_account now limits n excess limit w = do {
     max_delay \<leftarrow> (if excess \<le> lim_delay (limits ! limit) then Some 0
                  else lr_delay_of (ctx_rate (w_ctx w (lim_zone (limits ! limit)))) excess
                         (lim_delay (limits ! limit)));
     lr_account_loop now limits n (max_delay, excess, limit) w
   }"

section \<open>The handler\<close>

datatype lr_loop_end =
    Key_Failed                 \<comment> \<open>the key's value could not be computed\<close>
  | Loop_End int nat ngx_uint_t nat  \<comment> \<open>\<open>rc\<close>, \<open>n\<close>, \<open>excess\<close> and the index of \<open>limit\<close>\<close>

function lr_handler_loop ::
    "slab \<Rightarrow> ngx_msec_t \<Rightarrow> (string \<Rightarrow> string option) \<Rightarrow> lr_limit list \<Rightarrow> nat \<Rightarrow> int \<Rightarrow> ngx_uint_t \<Rightarrow>
     nat \<Rightarrow> lr_world \<Rightarrow> (lr_loop_end \<times> lr_world) option" where
  "lr_handler_loop alloc now complex_value limits n rc excess limit w =
     (if n < length limits then
        let z = lim_zone (limits ! n); ctx = w_ctx w z
        in case complex_value (ctx_key ctx) of
             None \<Rightarrow> Some (Key_Failed, w)
           | Some key \<Rightarrow>
               if length key = 0 \<or> length key > 65535
               then lr_handler_loop alloc now complex_value limits (Suc n) rc excess n w
               else do {
                 (rc, excess, ctx, sh) \<leftarrow>
                   ngx_http_limit_req_lookup alloc now (limits ! n) (ucast (ngx_crc32_short key)) key
                     (n = length limits - 1) ctx (w_zone w z);
                 let w = w_update z ctx sh w
                 in if rc \<noteq> NGX_AGAIN then Some (Loop_End rc n excess n, w)
                    else lr_handler_loop alloc now complex_value limits (Suc n) rc excess n w
               }
      else Some (Loop_End rc n excess limit, w))"
  by pat_completeness auto
termination
  by (relation "measure (\<lambda>(_, _, _, limits, n, _). length limits - n)") auto

declare lr_handler_loop.simps [simp del]

fun lr_rollback :: "lr_limit list \<Rightarrow> nat \<Rightarrow> lr_world \<Rightarrow> lr_world option" where
  "lr_rollback limits 0 w = Some w"
| "lr_rollback limits (Suc n) w =
     (let z = lim_zone (limits ! n); ctx = w_ctx w z; sh = w_zone w z
      in case ctx_node ctx of
           None \<Rightarrow> lr_rollback limits n w
         | Some i \<Rightarrow> do {
             lr \<leftarrow> sh_nodes sh i;
             lr_rollback limits n
               (w_update z (ctx\<lparr>ctx_node := None\<rparr>)
                 (sh\<lparr>sh_nodes := (sh_nodes sh)(i \<mapsto> lr_released lr)\<rparr>) w)
           })"

record lr_outcome =
  out_rc :: int                     \<comment> \<open>what the handler returns\<close>
  out_status :: nat                 \<comment> \<open>\<open>r->main->limit_req_status\<close> afterwards\<close>
  out_timer :: "ngx_msec_t option"  \<comment> \<open>the timer set on the connection\<close>

definition ngx_http_limit_req_handler ::
    "slab \<Rightarrow> ngx_msec_t \<Rightarrow> (string \<Rightarrow> string option) \<Rightarrow> bool \<Rightarrow> lr_conf \<Rightarrow> nat \<Rightarrow> lr_world \<Rightarrow>
     (lr_outcome \<times> lr_world) option" where
  \<comment> \<open>\<open>read_event_ok\<close> is the success of \<open>ngx_handle_read_event\<close>\<close>
  "ngx_http_limit_req_handler alloc now complex_value read_event_ok lrcf status w =
     (if status \<noteq> 0 then Some (\<lparr>out_rc = NGX_DECLINED, out_status = status, out_timer = None\<rparr>, w)
      else
        let limits = (case lc_limits lrcf of None \<Rightarrow> [] | Some ls \<Rightarrow> ls)
        in do {
          (res, w) \<leftarrow> lr_handler_loop alloc now complex_value limits 0 NGX_DECLINED 0 0 w;
          case res of
            Key_Failed \<Rightarrow>
              Some (\<lparr>out_rc = NGX_HTTP_INTERNAL_SERVER_ERROR, out_status = 0, out_timer = None\<rparr>, w)
          | Loop_End rc n excess limit \<Rightarrow>
              if rc = NGX_DECLINED then
                Some (\<lparr>out_rc = NGX_DECLINED, out_status = 0, out_timer = None\<rparr>, w)
              else if rc = NGX_BUSY \<or> rc = NGX_ERROR then do {
                w \<leftarrow> lr_rollback limits n w;
                Some (if lc_dry_run lrcf \<noteq> 0
                  then (\<lparr>out_rc = NGX_DECLINED, out_status = NGX_HTTP_LIMIT_REQ_REJECTED_DRY_RUN,
                         out_timer = None\<rparr>, w)
                  else (\<lparr>out_rc = sint (lc_status_code lrcf), out_status = NGX_HTTP_LIMIT_REQ_REJECTED,
                         out_timer = None\<rparr>, w))
              }
              else do {
                ((delay, excess, limit), w) \<leftarrow>
                  ngx_http_limit_req_account now limits n (if rc = NGX_AGAIN then 0 else excess) limit w;
                Some (if delay = 0 then
                    (\<lparr>out_rc = NGX_DECLINED, out_status = NGX_HTTP_LIMIT_REQ_PASSED, out_timer = None\<rparr>, w)
                  else if lc_dry_run lrcf \<noteq> 0 then
                    (\<lparr>out_rc = NGX_DECLINED, out_status = NGX_HTTP_LIMIT_REQ_DELAYED_DRY_RUN,
                      out_timer = None\<rparr>, w)
                  else if \<not> read_event_ok then
                    (\<lparr>out_rc = NGX_HTTP_INTERNAL_SERVER_ERROR, out_status = NGX_HTTP_LIMIT_REQ_DELAYED,
                      out_timer = None\<rparr>, w)
                  else
                    (\<lparr>out_rc = NGX_AGAIN, out_status = NGX_HTTP_LIMIT_REQ_DELAYED,
                      out_timer = Some delay\<rparr>, w))
              }
        })"

datatype lr_delay_action = Delay_Wait | Delay_Finalize int | Delay_Run_Phases

definition ngx_http_limit_req_delay :: "bool \<Rightarrow> bool \<Rightarrow> bool \<Rightarrow> lr_delay_action" where
  \<comment> \<open>the write event of a delayed request: still delayed, and whether the write and the
      read event could be armed\<close>
  "ngx_http_limit_req_delay delayed write_event_ok read_event_ok =
     (if delayed then
        if \<not> write_event_ok then Delay_Finalize NGX_HTTP_INTERNAL_SERVER_ERROR else Delay_Wait
      else if \<not> read_event_ok then Delay_Finalize NGX_HTTP_INTERNAL_SERVER_ERROR
      else Delay_Run_Phases)"

section \<open>Setting up a zone\<close>

definition lr_empty_zone :: "lr_zone \<Rightarrow> lr_zone" where
  \<comment> \<open>\<open>ngx_rbtree_init\<close> and \<open>ngx_queue_init\<close>\<close>
  "lr_empty_zone sh = sh\<lparr>sh_rbtree := Sentinel, sh_queue := ngx_queue_init QHead (sh_queue sh)\<rparr>"

record lr_pool =   \<comment> \<open>the slab pool at the start of a shared memory segment\<close>
  pool_exists :: bool      \<comment> \<open>\<open>shm_zone->shm.exists\<close>\<close>
  pool_data :: nat         \<comment> \<open>\<open>shpool->data\<close>\<close>

definition ngx_http_limit_req_init_zone ::
    "nat option \<Rightarrow> bool \<Rightarrow> lr_ctx option \<Rightarrow> lr_ctx \<Rightarrow> lr_pool \<Rightarrow> (nat \<Rightarrow> lr_zone) \<Rightarrow>
     int \<times> lr_ctx \<times> lr_pool \<times> (nat \<Rightarrow> lr_zone)" where
  \<comment> \<open>the first arguments are the results of the two allocations: the shared context, and
      whether there was room for the log context\<close>
  "ngx_http_limit_req_init_zone sh_alloc log_ctx_ok octx ctx pool shs =
     (case octx of
        Some oc \<Rightarrow>
          if length (ctx_key ctx) \<noteq> length (ctx_key oc)
             \<or> c_strncmp (ctx_key ctx) (ctx_key oc) (length (ctx_key ctx)) \<noteq> 0
          then (NGX_ERROR, ctx, pool, shs)
          else (NGX_OK, ctx\<lparr>ctx_sh := ctx_sh oc\<rparr>, pool, shs)
      | None \<Rightarrow>
          if pool_exists pool then (NGX_OK, ctx\<lparr>ctx_sh := pool_data pool\<rparr>, pool, shs)
          else
            (case sh_alloc of
               None \<Rightarrow> (NGX_ERROR, ctx\<lparr>ctx_sh := 0\<rparr>, pool, shs)
             | Some a \<Rightarrow>
                 (if log_ctx_ok then NGX_OK else NGX_ERROR, ctx\<lparr>ctx_sh := a\<rparr>,
                  pool\<lparr>pool_data := a\<rparr>, shs(a := lr_empty_zone (shs a)))))"

definition ngx_http_limit_req_status_variable :: "nat \<Rightarrow> string option option" where
  \<comment> \<open>the value of \<open>$limit_req_status\<close>: \<open>Some None\<close> is \<open>not_found\<close>, \<open>None\<close> is out of the table\<close>
  "ngx_http_limit_req_status_variable status =
     (let names = [''PASSED'', ''DELAYED'', ''REJECTED'', ''DELAYED_DRY_RUN'', ''REJECTED_DRY_RUN'']
      in if status = 0 then Some None
         else if status - 1 < length names then Some (Some (names ! (status - 1)))
         else None)"

end
