(* ===== verification/Limit_Req_Zone.thy ===== *)
theory Limit_Req_Zone
  imports Limit_Req "HOL-Library.Product_Lexorder"
begin

text \<open>
  The invariant of a shared zone of the request limiter, and what each operation does to it:
  the tree is a red-black tree ordered by hash and key, the queue lists the same entries by
  last use, and every entry knows the length of its key.  The lookup finds exactly the entry
  of a key, eviction removes unreferenced entries from the end of the queue, and no operation
  meets a dangling entry or the sentinel.
\<close>

section \<open>The order of the entries\<close>

definition lr_rank :: "lr_nodes \<Rightarrow> nat \<Rightarrow> ngx_uint_t \<times> string" where
  "lr_rank nodes i = (case nodes i of Some n \<Rightarrow> (lr_key n, lr_data n) | None \<Rightarrow> (0, []))"

definition lens_ok :: "lr_nodes \<Rightarrow> bool" where
  "lens_ok nodes \<longleftrightarrow> (\<forall>i n. nodes i = Some n \<longrightarrow> unat (lr_len n) = length (lr_data n))"

definition zone_ok :: "lr_zone \<Rightarrow> bool" where
  "zone_ok sh \<longleftrightarrow>
     rbt (sh_rbtree sh) \<and> set (inorder (sh_rbtree sh)) = dom (sh_nodes sh) \<and>
     sorted_wrt (\<lambda>i j. lr_rank (sh_nodes sh) i < lr_rank (sh_nodes sh) j) (inorder (sh_rbtree sh)) \<and>
     (\<exists>ids. lru_rep (sh_queue sh) ids \<and> set ids = dom (sh_nodes sh)) \<and>
     lens_ok (sh_nodes sh)"

lemma prod_less_iff: "(a, b) < (c, d) \<longleftrightarrow> a < c \<or> a = c \<and> b < (d :: 'b :: linorder)"
  for a :: "'a :: linorder" by (auto simp: less_prod_simp)

lemma lr_goes_left_rank:
  assumes "lens_ok nodes" "i \<in> dom nodes" "j \<in> dom nodes"
  shows "lr_goes_left nodes i j \<longleftrightarrow> lr_rank nodes i < lr_rank nodes j"
proof -
  obtain a b where a: "nodes i = Some a" and b: "nodes j = Some b" using assms by auto
  moreover have "unat (lr_len a) = length (lr_data a)" "unat (lr_len b) = length (lr_data b)"
    using assms(1) a b by (auto simp: lens_ok_def)
  ultimately show ?thesis
    by (auto simp: lr_goes_left_def lr_rank_def prod_less_iff ngx_memn2cmp_less)
qed

interpretation rank_order: rbtree_order "\<lambda>i j. lr_rank nodes i < lr_rank nodes j" for nodes
  by unfold_locales auto

lemma sorted_rank_distinct:
  "sorted_wrt (\<lambda>i j. lr_rank nodes i < lr_rank nodes j) xs \<Longrightarrow> distinct xs"
  by (induction xs) auto

lemma sorted_rank_inj:
  assumes "sorted_wrt (\<lambda>i j. lr_rank nodes i < lr_rank nodes j) xs" "i \<in> set xs" "j \<in> set xs"
    and "lr_rank nodes i = lr_rank nodes j"
  shows "i = j"
  using assms
proof (induction xs)
  case Nil
  then show ?case by simp
next
  case (Cons x xs)
  then show ?case by (metis order_less_irrefl set_ConsD sorted_wrt.simps(2))
qed

section \<open>The walk of the tree\<close>

lemma lr_find_correct:
  assumes "sorted_wrt (\<lambda>i j. lr_rank nodes i < lr_rank nodes j) (inorder t)"
    and "set (inorder t) \<subseteq> dom nodes" "lens_ok nodes"
  shows "\<exists>res. lr_find nodes hash key t = Some res \<and>
    (case res of
       Some i \<Rightarrow> i \<in> set (inorder t) \<and> lr_rank nodes i = (hash, key)
     | None \<Rightarrow> \<forall>i \<in> set (inorder t). lr_rank nodes i \<noteq> (hash, key))"
  using assms
proof (induction t)
  case Sentinel
  then show ?case by simp
next
  case (Node c v l r)
  from Node.prems obtain n where n: "nodes v = Some n" by auto
  then have len: "unat (lr_len n) = length (lr_data n)" using Node.prems by (auto simp: lens_ok_def)
  have sl: "sorted_wrt (\<lambda>i j. lr_rank nodes i < lr_rank nodes j) (inorder l)"
    and sr: "sorted_wrt (\<lambda>i j. lr_rank nodes i < lr_rank nodes j) (inorder r)"
    and lv: "\<forall>w \<in> set (inorder l). lr_rank nodes w < lr_rank nodes v"
    and vr: "\<forall>w \<in> set (inorder r). lr_rank nodes v < lr_rank nodes w"
    using Node.prems(1) by (simp_all add: sorted_wrt_append)
  have rv: "lr_rank nodes v = (lr_key n, lr_data n)" using n by (simp add: lr_rank_def)
  have step: "lr_find nodes hash key (Node c v l r) =
      (if (hash, key) < lr_rank nodes v then lr_find nodes hash key l
       else if lr_rank nodes v < (hash, key) then lr_find nodes hash key r
       else Some (Some v))"
    using len
    by (auto simp: n rv prod_less_iff ngx_memn2cmp_less ngx_memn2cmp_eq_0 Let_def)
  consider "(hash, key) < lr_rank nodes v" | "lr_rank nodes v < (hash, key)"
    | "lr_rank nodes v = (hash, key)" by (metis linorder_neqE)
  then show ?case
  proof cases
    case 1
    then have "\<forall>w \<in> set (inorder r). lr_rank nodes w \<noteq> (hash, key)" using vr by auto
    with 1 Node.IH(1) [OF sl _ Node.prems(3)] Node.prems(2) step show ?thesis
      by (auto split: option.splits)
  next
    case 2
    then have "\<forall>w \<in> set (inorder l). lr_rank nodes w \<noteq> (hash, key)" using lv by auto
    with 2 Node.IH(2) [OF sr _ Node.prems(3)] Node.prems(2) step show ?thesis
      by (auto split: option.splits)
  next
    case 3
    with step show ?thesis by simp
  qed
qed

lemma lr_find_zone:
  assumes "zone_ok sh"
  obtains i lr where "lr_find (sh_nodes sh) hash key (sh_rbtree sh) = Some (Some i)"
      "sh_nodes sh i = Some lr" "lr_key lr = hash" "lr_data lr = key"
  | "lr_find (sh_nodes sh) hash key (sh_rbtree sh) = Some None"
      "\<forall>i lr. sh_nodes sh i = Some lr \<longrightarrow> (lr_key lr, lr_data lr) \<noteq> (hash, key)"
proof -
  from assms have ok: "sorted_wrt (\<lambda>i j. lr_rank (sh_nodes sh) i < lr_rank (sh_nodes sh) j) (inorder (sh_rbtree sh))"
    and dom: "set (inorder (sh_rbtree sh)) = dom (sh_nodes sh)" and lens: "lens_ok (sh_nodes sh)"
    by (auto simp: zone_ok_def)
  from lr_find_correct [OF ok _ lens, of hash key, unfolded dom] obtain res where
    f: "lr_find (sh_nodes sh) hash key (sh_rbtree sh) = Some res" and
    r: "case res of Some i \<Rightarrow> i \<in> dom (sh_nodes sh) \<and> lr_rank (sh_nodes sh) i = (hash, key)
        | None \<Rightarrow> \<forall>i \<in> dom (sh_nodes sh). lr_rank (sh_nodes sh) i \<noteq> (hash, key)"
    by auto
  show thesis
  proof (cases res)
    case None
    have "(lr_key lr, lr_data lr) \<noteq> (hash, key)" if "sh_nodes sh i = Some lr" for i lr
    proof -
      have "lr_rank (sh_nodes sh) i \<noteq> (hash, key)" using r None that by auto
      with that show ?thesis by (simp add: lr_rank_def)
    qed
    with f None show thesis by (intro that(2)) auto
  next
    case (Some i)
    with r obtain lr where "sh_nodes sh i = Some lr" "lr_key lr = hash" "lr_data lr = key"
      by (auto simp: lr_rank_def)
    with f Some show thesis by (intro that(1)) auto
  qed
qed

lemma zone_ok_unique:
  assumes "zone_ok sh" "sh_nodes sh i = Some a" "sh_nodes sh j = Some b"
    and "lr_key a = lr_key b" "lr_data a = lr_data b"
  shows "i = j"
  using assms sorted_rank_inj [of "sh_nodes sh" "inorder (sh_rbtree sh)" i j]
  by (auto simp: zone_ok_def lr_rank_def)

section \<open>Changes that keep the zone well-formed\<close>

text \<open>An entry may change its times, excess and count, not its hash and key.\<close>

definition lr_id :: "lr_node \<Rightarrow> ngx_uint_t \<times> string \<times> 16 word" where
  "lr_id n = (lr_key n, lr_data n, lr_len n)"

definition same_keys :: "lr_nodes \<Rightarrow> lr_nodes \<Rightarrow> bool" where
  "same_keys nodes nodes' \<longleftrightarrow> (\<forall>i. map_option lr_id (nodes' i) = map_option lr_id (nodes i))"

lemma same_keysE:
  assumes "same_keys nodes nodes'" "nodes' i = Some n"
  obtains m where "nodes i = Some m" "lr_key n = lr_key m" "lr_data n = lr_data m" "lr_len n = lr_len m"
proof -
  from assms have "map_option lr_id (nodes i) = Some (lr_id n)" unfolding same_keys_def by (metis option.map(2))
  then obtain m where "nodes i = Some m" "lr_id m = lr_id n" by auto
  then show thesis by (intro that [of m]) (simp_all add: lr_id_def)
qed

lemma same_keys_None: "same_keys nodes nodes' \<Longrightarrow> nodes' i = None \<longleftrightarrow> nodes i = None"
  unfolding same_keys_def by (metis option.map_disc_iff)

lemma same_keys_dom: "same_keys nodes nodes' \<Longrightarrow> dom nodes' = dom nodes"
  by (simp add: dom_def same_keys_None)

lemma same_keys_rank: "same_keys nodes nodes' \<Longrightarrow> lr_rank nodes' = lr_rank nodes"
proof
  fix i assume s: "same_keys nodes nodes'"
  show "lr_rank nodes' i = lr_rank nodes i"
  proof (cases "nodes' i")
    case None
    with same_keys_None [OF s, of i] show ?thesis by (simp add: lr_rank_def)
  next
    case (Some n)
    with s show ?thesis by (elim same_keysE [of _ _ i n]) (simp_all add: lr_rank_def)
  qed
qed

lemma same_keys_lens: "same_keys nodes nodes' \<Longrightarrow> lens_ok nodes \<Longrightarrow> lens_ok nodes'"
  unfolding lens_ok_def by (metis same_keysE)

lemma same_keys_upd:
  "nodes i = Some a \<Longrightarrow> lr_id b = lr_id a \<Longrightarrow> same_keys nodes (nodes(i \<mapsto> b))"
  by (simp add: same_keys_def)

lemma zone_ok_nodes:
  assumes "zone_ok sh" "same_keys (sh_nodes sh) nodes"
  shows "zone_ok (sh\<lparr>sh_nodes := nodes\<rparr>)"
  using assms same_keys_rank [OF assms(2)] same_keys_lens [OF assms(2)] same_keys_dom [OF assms(2)]
  by (simp add: zone_ok_def)

lemma zone_ok_queue:
  assumes "zone_ok sh" "lru_rep Q ids" "set ids = dom (sh_nodes sh)"
  shows "zone_ok (sh\<lparr>sh_queue := Q\<rparr>)"
  using assms by (auto simp: zone_ok_def)

lemma zone_ok_lru:
  assumes "zone_ok sh"
  obtains ids where "lru_rep (sh_queue sh) ids" "set ids = dom (sh_nodes sh)" "distinct ids"
  using assms lru.rep_distinct by (auto simp: zone_ok_def)

lemma lru_rep_unique: "lru_rep Q ids \<Longrightarrow> lru_rep Q ids' \<Longrightarrow> ids = ids'"
  by (drule (1) queue_rep_unique) (metis inj_map_eq_map inj_def qaddr.inject)

lemma lru_rep_dom:
  assumes "zone_ok sh" "lru_rep (sh_queue sh) ids"
  shows "set ids = dom (sh_nodes sh)"
proof -
  from zone_ok_lru [OF assms(1)] obtain ids' where
    "lru_rep (sh_queue sh) ids'" "set ids' = dom (sh_nodes sh)" by metis
  with lru_rep_unique [OF assms(2)] show ?thesis by simp
qed

lemma lr_rank_restrict: "i \<in> A \<Longrightarrow> lr_rank (nodes |` A) i = lr_rank nodes i"
  by (simp add: lr_rank_def)

lemma sorted_rank_cong:
  assumes "sorted_wrt (\<lambda>i j. lr_rank nodes i < lr_rank nodes j) xs"
    and "\<And>i. i \<in> set xs \<Longrightarrow> lr_rank nodes' i = lr_rank nodes i"
  shows "sorted_wrt (\<lambda>i j. lr_rank nodes' i < lr_rank nodes' j) xs"
  using assms(1) by (rule sorted_wrt_mono_rel [rotated]) (simp add: assms(2))

lemma zone_ok_evict:
  assumes ok: "zone_ok sh" and rep: "lru_rep (sh_queue sh) (ids @ [q])"
  shows "\<exists>t. ngx_rbtree_delete (sh_rbtree sh) q = Some t \<and>
    zone_ok (sh\<lparr>sh_queue := lru_unlink q (sh_queue sh), sh_rbtree := t,
                sh_nodes := (sh_nodes sh)(q := None)\<rparr>)"
proof -
  let ?n = "sh_nodes sh" and ?n' = "(sh_nodes sh)(q := None)"
  have dom: "dom ?n = insert q (set ids)" using lru_rep_dom [OF ok rep] by auto
  have q: "q \<notin> set ids" using lru.rep_distinct [OF rep] by simp
  have t0: "rbt (sh_rbtree sh)" "set (inorder (sh_rbtree sh)) = dom ?n" and
    s: "sorted_wrt (\<lambda>i j. lr_rank ?n i < lr_rank ?n j) (inorder (sh_rbtree sh))" and
    lens: "lens_ok ?n"
    using ok by (auto simp: zone_ok_def)
  have "q \<in> set (inorder (sh_rbtree sh))" using t0(2) dom by simp
  with ngx_rbtree_delete_rbt t0(1) obtain t where
    t: "ngx_rbtree_delete (sh_rbtree sh) q = Some t" "rbt t" by metis
  have d: "distinct (inorder (sh_rbtree sh))" using s by (rule sorted_rank_distinct)
  have io: "inorder t = remove1 q (inorder (sh_rbtree sh))"
    by (rule inorder_delete_remove1 [OF t(1) d])
  have set: "set (inorder t) = set ids"
    using io d t0(2) dom q by (auto simp: set_remove1_eq)
  from inorder_delete [OF t(1)] obtain us vs where
    uv: "inorder (sh_rbtree sh) = us @ q # vs" "inorder t = us @ vs" by auto
  have "sorted_wrt (\<lambda>i j. lr_rank ?n i < lr_rank ?n j) (inorder t)"
    using s unfolding uv by (simp add: sorted_wrt_append)
  then have "sorted_wrt (\<lambda>i j. lr_rank ?n' i < lr_rank ?n' j) (inorder t)"
    by (rule sorted_rank_cong) (use q set in \<open>auto simp: lr_rank_def\<close>)
  moreover have "dom ?n' = set ids" using dom q by auto
  moreover have "lens_ok ?n'" using lens by (simp add: lens_ok_def)
  moreover have "lru_rep (lru_unlink q (sh_queue sh)) ids" by (rule lru.rep_evict(2) [OF rep])
  ultimately show ?thesis using t set by (auto simp: zone_ok_def)
qed

section \<open>Eviction\<close>

definition lr_idle :: "ngx_msec_t \<Rightarrow> ngx_uint_t \<Rightarrow> lr_node \<Rightarrow> bool" where
  \<comment> \<open>unused for a minute, and with no excess left\<close>
  "lr_idle now rate lr \<longleftrightarrow>
     (let ms = now - lr_last lr; ms = (if sint ms \<ge> 0 then ms else - ms)
      in 60000 \<le> sint ms \<and> sint (lr_excess lr - rate * ms div 1000) \<le> 0)"

lemma expire_spec:
  assumes "zone_ok sh" "lru_rep (sh_queue sh) ids"
  shows "\<exists>k sh'. ngx_http_limit_req_expire now rate n sh = Some sh' \<and> zone_ok sh' \<and>
    lru_rep (sh_queue sh') (take k ids) \<and> sh_nodes sh' = sh_nodes sh |` set (take k ids) \<and>
    length ids \<le> k + (3 - n) \<and>
    (\<forall>i \<in> set (drop k ids). \<exists>lr. sh_nodes sh i = Some lr \<and> lr_count lr = 0 \<and>
       (n = 0 \<and> i = last ids \<or> lr_idle now rate lr))"
  using assms
proof (induction "3 - n" arbitrary: n sh ids)
  case 0
  then have "ngx_http_limit_req_expire now rate n sh = Some sh"
    by (subst ngx_http_limit_req_expire.simps) simp
  with 0 lru_rep_dom [OF 0(2,3)] show ?case
    by (intro exI [of _ "length ids"] exI [of _ sh]) (auto simp: restrict_map_def dom_def fun_eq_iff)
next
  case (Suc m)
  have dom: "set ids = dom (sh_nodes sh)" by (rule lru_rep_dom [OF Suc.prems])
  have stay: ?case if "ngx_http_limit_req_expire now rate n sh = Some sh"
    using that Suc.prems dom
    by (intro exI [of _ "length ids"] exI [of _ sh]) (auto simp: restrict_map_def dom_def fun_eq_iff)
  show ?case
  proof (cases ids rule: rev_cases)
    case Nil
    then have "ngx_queue_empty QHead (sh_queue sh)" using lru.rep_empty [OF Suc.prems(2)] by simp
    then show ?thesis using Suc.hyps(2) by (intro stay) (simp add: ngx_http_limit_req_expire.simps)
  next
    case (snoc ids' q)
    note rep = Suc.prems(2) [unfolded snoc]
    have ne: "\<not> ngx_queue_empty QHead (sh_queue sh)" using lru.rep_empty [OF rep] by simp
    have ol: "ngx_queue_data (ngx_queue_last QHead (sh_queue sh)) = Some q"
      by (rule lru.rep_evict(1) [OF rep])
    obtain lr where lr: "sh_nodes sh q = Some lr" using dom snoc by auto
    let ?go = "lr_count lr = 0 \<and> (n = 0 \<or> lr_idle now rate lr)"
    let ?sh = "\<lambda>t. sh\<lparr>sh_queue := lru_unlink q (sh_queue sh), sh_rbtree := t,
                sh_nodes := (sh_nodes sh)(q := None)\<rparr>"
    show ?thesis
    proof (cases ?go)
      case False
      then show ?thesis using Suc.hyps(2) ne ol lr
        by (intro stay)
           (auto simp: ngx_http_limit_req_expire.simps [of now rate n sh] lr_idle_def Let_def)
    next
      case True
      from zone_ok_evict [OF Suc.prems(1) rep] obtain t where
        t: "ngx_rbtree_delete (sh_rbtree sh) q = Some t" and ok: "zone_ok (?sh t)" by auto
      have rep': "lru_rep (sh_queue (?sh t)) ids'" using lru.rep_evict(2) [OF rep] by simp
      have eq: "ngx_http_limit_req_expire now rate n sh = ngx_http_limit_req_expire now rate (Suc n) (?sh t)"
        using Suc.hyps(2) ne ol lr True t
        by (subst ngx_http_limit_req_expire.simps) (auto simp: lr_idle_def Let_def)
      have "m = 3 - Suc n" using Suc.hyps(2) by simp
      from Suc.hyps(1) [OF this ok rep'] obtain k sh' where
        k: "ngx_http_limit_req_expire now rate (Suc n) (?sh t) = Some sh'" "zone_ok sh'"
        "lru_rep (sh_queue sh') (take k ids')"
        "sh_nodes sh' = ((sh_nodes sh)(q := None)) |` set (take k ids')"
        "length ids' \<le> k + (3 - Suc n)"
        "\<forall>i \<in> set (drop k ids'). \<exists>lr. ((sh_nodes sh)(q := None)) i = Some lr \<and> lr_count lr = 0 \<and>
           lr_idle now rate lr" by auto
      define k' where "k' = min k (length ids')"
      have tk: "take k' ids = take k ids'" and dk: "drop k' ids = drop k ids' @ [q]"
        by (simp_all add: k'_def snoc min_def)
      have q: "q \<notin> set (take k ids')"
        using lru.rep_distinct [OF rep] by (auto dest: in_set_takeD)
      have "sh_nodes sh' = sh_nodes sh |` set (take k' ids)"
        unfolding k(4) tk using q by (auto simp: restrict_map_def fun_eq_iff)
      moreover have "\<forall>i \<in> set (drop k' ids). \<exists>lr. sh_nodes sh i = Some lr \<and> lr_count lr = 0 \<and>
          (n = 0 \<and> i = last ids \<or> lr_idle now rate lr)"
      proof
        fix i assume "i \<in> set (drop k' ids)"
        then consider "i = q" | "i \<in> set (drop k ids')" by (auto simp only: dk set_append list.set Un_iff)
        then show "\<exists>lr. sh_nodes sh i = Some lr \<and> lr_count lr = 0 \<and> (n = 0 \<and> i = last ids \<or> lr_idle now rate lr)"
          using k(6) True lr by cases (auto simp: snoc split: if_splits)
      qed
      moreover have "length ids \<le> k' + (3 - n)" using k(5) Suc.hyps(2) by (auto simp: k'_def snoc)
      ultimately show ?thesis using k eq
        by (intro exI [of _ k'] exI [of _ sh']) (simp add: tk)
    qed
  qed
qed

section \<open>New entries\<close>

lemma sorted_strict:
  fixes f :: "'a \<Rightarrow> 'b :: linorder"
  assumes "sorted_wrt (\<lambda>a b. \<not> f b < f a) xs" "distinct xs"
    and "\<And>a b. a \<in> set xs \<Longrightarrow> b \<in> set xs \<Longrightarrow> a \<noteq> b \<Longrightarrow> f a \<noteq> f b"
  shows "sorted_wrt (\<lambda>a b. f a < f b) xs"
  using assms
proof (induction xs)
  case Nil
  then show ?case by simp
next
  case (Cons x xs)
  have "f x < f y" if "y \<in> set xs" for y
  proof -
    have "f x \<noteq> f y" "\<not> f y < f x" using Cons.prems that by auto
    then show ?thesis by simp
  qed
  moreover have "sorted_wrt (\<lambda>a b. f a < f b) xs"
    using Cons.prems by (intro Cons.IH) auto
  ultimately show ?case by simp
qed

lemma zone_ok_insert:
  assumes ok: "zone_ok sh" and rep: "lru_rep (sh_queue sh) ids" and new: "sh_nodes sh i = None"
    and len: "length key \<le> 65535"
    and fresh: "\<forall>j lr. sh_nodes sh j = Some lr \<longrightarrow> (lr_key lr, lr_data lr) \<noteq> (hash, key)"
  shows "\<exists>sh'. lr_insert_new now hash key account i sh = Some sh' \<and> zone_ok sh' \<and>
    lru_rep (sh_queue sh') (i # ids) \<and>
    sh_nodes sh' = (sh_nodes sh)(i \<mapsto> \<lparr>lr_key = hash, lr_len = word_of_nat (length key),
      lr_last = (if account then now else 0), lr_excess = 0,
      lr_count = (if account then 0 else 1), lr_data = key\<rparr>)"
proof -
  define lr where "lr = \<lparr>lr_key = hash, lr_len = word_of_nat (length key),
      lr_last = (if account then now else 0), lr_excess = 0,
      lr_count = (if account then 0 else 1), lr_data = key\<rparr>"
  let ?n = "sh_nodes sh" and ?n' = "(sh_nodes sh)(i \<mapsto> lr)" and ?t = "sh_rbtree sh"
  have dom: "set ids = dom ?n" by (rule lru_rep_dom [OF ok rep])
  have i: "i \<notin> set ids" using new dom by auto
  have t0: "rbt ?t" "set (inorder ?t) = dom ?n" and
    s: "sorted_wrt (\<lambda>i j. lr_rank ?n i < lr_rank ?n j) (inorder ?t)" and lens: "lens_ok ?n"
    using ok by (auto simp: zone_ok_def)
  have lens': "lens_ok ?n'"
    using lens len by (auto simp: lens_ok_def lr_def unat_of_nat)
  have rank: "lr_rank ?n' j = lr_rank ?n j" if "j \<in> set (inorder ?t)" for j
    using that t0(2) new by (auto simp: lr_rank_def)
  have ranki: "lr_rank ?n' i = (hash, key)" by (simp add: lr_rank_def lr_def)
  have ne: "lr_rank ?n' j \<noteq> (hash, key)" if j: "j \<in> set (inorder ?t)" for j
  proof -
    from j t0(2) obtain b where "?n j = Some b" by auto
    with fresh rank [OF j] show ?thesis by (auto simp: lr_rank_def)
  qed
  have s': "sorted_wrt (\<lambda>i j. lr_rank ?n' i < lr_rank ?n' j) (inorder ?t)"
    using s rank by (rule sorted_rank_cong)
  have le: "sorted_wrt (\<lambda>a b. \<not> lr_rank ?n' b < lr_rank ?n' a) (inorder ?t)"
    using s' by (rule sorted_wrt_mono_rel [rotated]) auto
  have ins: "ngx_http_limit_req_rbtree_insert_value ?n' ?t i =
      rbtree_descend (\<lambda>i j. lr_rank ?n' i < lr_rank ?n' j) i [] ?t"
    unfolding ngx_http_limit_req_rbtree_insert_value_def
    by (rule rbtree_descend_cong) (use t0(2) in \<open>auto intro!: lr_goes_left_rank [OF lens']\<close>)
  from rank_order.insert_sorted [OF t0(1) le, of "ngx_http_limit_req_rbtree_insert_value ?n'" i, OF ins]
  obtain t where t: "ngx_rbtree_insert (ngx_http_limit_req_rbtree_insert_value ?n') ?t i = Some t"
    "rbt t" "sorted_wrt (\<lambda>a b. \<not> lr_rank ?n' b < lr_rank ?n' a) (inorder t)"
    "mset (inorder t) = add_mset i (mset (inorder ?t))" by auto
  have setm: "set (inorder t) = insert i (set (inorder ?t))"
    using arg_cong [OF t(4), of set_mset] by simp
  have d: "distinct (inorder t)"
  proof -
    have "distinct (i # inorder ?t)" using sorted_rank_distinct [OF s'] t0(2) new by auto
    then show ?thesis using t(4) by (metis mset.simps(2) mset_eq_imp_distinct_iff)
  qed
  have inj: "lr_rank ?n' a \<noteq> lr_rank ?n' b"
    if "a \<in> set (inorder t)" "b \<in> set (inorder t)" "a \<noteq> b" for a b
  proof -
    have "a = i \<or> a \<in> set (inorder ?t)" "b = i \<or> b \<in> set (inorder ?t)" using that setm by auto
    with \<open>a \<noteq> b\<close> show ?thesis
      using sorted_rank_inj [OF s', of a b] ne [of a] ne [of b] ranki by metis
  qed
  have "sorted_wrt (\<lambda>i j. lr_rank ?n' i < lr_rank ?n' j) (inorder t)"
    by (rule sorted_strict [OF t(3) d]) (rule inj)
  then have sorted: "sorted_wrt (\<lambda>i j. lr_rank ?n' i < lr_rank ?n' j) (inorder t)" .
  have rep': "lru_rep (lru_push i (sh_queue sh)) (i # ids)" by (rule lru.rep_push [OF rep i])
  have dom': "dom ?n' = set (i # ids)" "set (inorder t) = set (i # ids)"
    using dom setm t0(2) by simp_all
  define sh' where "sh' = \<lparr>sh_rbtree = t, sh_queue = lru_push i (sh_queue sh), sh_nodes = ?n'\<rparr>"
  have "zone_ok sh'"
    unfolding zone_ok_def sh'_def lr_zone.simps
    using t(2) sorted rep' dom' lens' by (intro conjI exI [of _ "i # ids"]) (simp_all only:)
  moreover have "lr_insert_new now hash key account i sh = Some sh'"
    unfolding lr_insert_new_def lr_def [symmetric] Let_def t(1) sh'_def by simp
  ultimately show ?thesis
    using rep' unfolding lr_def [symmetric] by (intro exI [of _ sh']) (simp add: sh'_def)
qed

section \<open>Lookup\<close>

definition slab_ok :: "slab \<Rightarrow> bool" where
  \<comment> \<open>the allocator gives memory that is not in use\<close>
  "slab_ok alloc \<longleftrightarrow> (\<forall>nodes size i. alloc nodes size = Some i \<longrightarrow> nodes i = None)"

definition lr_cnt :: "lr_zone \<Rightarrow> nat \<Rightarrow> ngx_uint_t" where
  \<comment> \<open>the references an address carries; memory that is not an entry carries none\<close>
  "lr_cnt sh i = (case sh_nodes sh i of Some lr \<Rightarrow> lr_count lr | None \<Rightarrow> 0)"

lemma expire_cnt:
  assumes "zone_ok sh" "ngx_http_limit_req_expire now rate n sh = Some sh'"
  shows "zone_ok sh'" "lr_cnt sh' = lr_cnt sh" "sh_nodes sh' \<subseteq>\<^sub>m sh_nodes sh"
proof -
  obtain ids where rep: "lru_rep (sh_queue sh) ids" "set ids = dom (sh_nodes sh)"
    using zone_ok_lru [OF assms(1)] by metis
  from expire_spec [OF assms(1) rep(1), of now rate n] assms(2) obtain k where
    ok: "zone_ok sh'" and n: "sh_nodes sh' = sh_nodes sh |` set (take k ids)" and
    c: "\<forall>i \<in> set (drop k ids). \<exists>lr. sh_nodes sh i = Some lr \<and> lr_count lr = 0"
    by fastforce
  show "zone_ok sh'" by (rule ok)
  show "sh_nodes sh' \<subseteq>\<^sub>m sh_nodes sh" by (simp add: n map_le_def)
  show "lr_cnt sh' = lr_cnt sh"
  proof
    fix i
    show "lr_cnt sh' i = lr_cnt sh i"
    proof (cases "i \<in> set (take k ids)")
      case True
      then show ?thesis by (simp add: lr_cnt_def n)
    next
      case False
      then have "i \<in> set (drop k ids) \<or> i \<notin> dom (sh_nodes sh)"
        using rep(2) by (metis Un_iff append_take_drop_id set_append)
      with False c show ?thesis by (auto simp: lr_cnt_def n restrict_map_def domIff)
    qed
  qed
qed

lemma expire_total: "zone_ok sh \<Longrightarrow> \<exists>sh'. ngx_http_limit_req_expire now rate n sh = Some sh'"
  using zone_ok_lru [of sh] expire_spec [of sh _ now rate n] by metis

lemma lr_alloc_spec:
  assumes "zone_ok sh" "slab_ok alloc"
  shows "\<exists>node sh'. lr_alloc alloc now rate key sh = Some (node, sh') \<and> zone_ok sh' \<and>
    lr_cnt sh' = lr_cnt sh \<and> sh_nodes sh' \<subseteq>\<^sub>m sh_nodes sh \<and>
    (\<forall>i. node = Some i \<longrightarrow> sh_nodes sh' i = None)"
proof -
  obtain sh1 where e1: "ngx_http_limit_req_expire now rate 1 sh = Some sh1"
    using expire_total [OF assms(1)] by metis
  note s1 = expire_cnt [OF assms(1) e1]
  obtain sh2 where e2: "ngx_http_limit_req_expire now rate 0 sh1 = Some sh2"
    using expire_total [OF s1(1)] by metis
  note s2 = expire_cnt [OF s1(1) e2]
  have le: "sh_nodes sh2 \<subseteq>\<^sub>m sh_nodes sh" using s1(3) s2(3) by (rule map_le_trans [rotated])
  show ?thesis
  proof (cases "alloc (sh_nodes sh1) (lr_node_size key)")
    case None
    with e1 e2 s1 s2 le assms(2) show ?thesis
      unfolding lr_alloc_def slab_ok_def by auto
  next
    case (Some i)
    with e1 s1 assms(2) show ?thesis
      unfolding lr_alloc_def slab_ok_def by auto
  qed
qed

lemma zone_ok_touch:
  assumes "zone_ok sh" "sh_nodes sh i = Some lr"
  shows "zone_ok (sh\<lparr>sh_queue := lru_push i (lru_unlink i (sh_queue sh))\<rparr>)"
proof -
  obtain ids where rep: "lru_rep (sh_queue sh) ids" and d: "set ids = dom (sh_nodes sh)" "distinct ids"
    using zone_ok_lru [OF assms(1)] by metis
  have i: "i \<in> set ids" using assms(2) d by auto
  have "set (i # remove1 i ids) = set ids" using i d(2) by (auto simp: set_remove1_eq)
  then show ?thesis
    using zone_ok_queue [OF assms(1) lru.rep_touch [OF rep i]] d(1) by simp
qed

lemma lr_found_spec:
  assumes ok: "zone_ok sh" and lr: "sh_nodes sh i = Some lr"
    and res: "lr_found now limit i lr account ctx sh = (rc, e, ctx', sh')"
  shows "zone_ok sh'" "rc \<in> {NGX_OK, NGX_AGAIN, NGX_BUSY}"
    "ctx' = (if rc = NGX_AGAIN then ctx\<lparr>ctx_node := Some i\<rparr> else ctx)"
    "lr_cnt sh' j = lr_cnt sh j + (if rc = NGX_AGAIN \<and> j = i then 1 else 0)"
    "dom (sh_nodes sh') = dom (sh_nodes sh)"
proof -
  let ?ms = "lr_elapsed now (lr_last lr)"
  let ?e = "lr_next_excess (ctx_rate ctx) (lr_excess lr) ?ms"
  let ?sh = "sh\<lparr>sh_queue := lru_push i (lru_unlink i (sh_queue sh))\<rparr>"
  define lr1 where "lr1 = lr\<lparr>lr_excess := ?e, lr_last := (if ?ms \<noteq> 0 then now else lr_last lr)\<rparr>"
  define lr2 where "lr2 = lr\<lparr>lr_count := lr_count lr + 1\<rparr>"
  have t: "zone_ok ?sh" by (rule zone_ok_touch [OF ok lr])
  have z: "zone_ok (?sh\<lparr>sh_nodes := (sh_nodes sh)(i \<mapsto> b)\<rparr>)" if "lr_id b = lr_id lr" for b
    using zone_ok_nodes [OF t, of "(sh_nodes sh)(i \<mapsto> b)"] same_keys_upd [of "sh_nodes sh" i lr b] lr that
    by simp
  have z1: "zone_ok (?sh\<lparr>sh_nodes := (sh_nodes sh)(i \<mapsto> lr1)\<rparr>)" by (rule z) (simp add: lr_id_def lr1_def)
  have z2: "zone_ok (?sh\<lparr>sh_nodes := (sh_nodes sh)(i \<mapsto> lr2)\<rparr>)" by (rule z) (simp add: lr_id_def lr2_def)
  consider (busy) "?e > lim_burst limit" "rc = NGX_BUSY" "ctx' = ctx" "sh' = ?sh"
    | (ok) "rc = NGX_OK" "ctx' = ctx" "sh' = ?sh\<lparr>sh_nodes := (sh_nodes sh)(i \<mapsto> lr1)\<rparr>"
    | (again) "rc = NGX_AGAIN" "ctx' = ctx\<lparr>ctx_node := Some i\<rparr>" "sh' = ?sh\<lparr>sh_nodes := (sh_nodes sh)(i \<mapsto> lr2)\<rparr>"
    using res by (auto simp: lr_found_def Let_def lr1_def lr2_def split: if_splits)
  note cs = this
  show "zone_ok sh'" using cs by cases (simp_all only: t z1 z2)
  show "rc \<in> {NGX_OK, NGX_AGAIN, NGX_BUSY}" using cs by cases simp_all
  show "ctx' = (if rc = NGX_AGAIN then ctx\<lparr>ctx_node := Some i\<rparr> else ctx)" using cs by cases simp_all
  show "lr_cnt sh' j = lr_cnt sh j + (if rc = NGX_AGAIN \<and> j = i then 1 else 0)"
    using cs lr by cases (simp_all add: lr_cnt_def lr1_def lr2_def)
  show "dom (sh_nodes sh') = dom (sh_nodes sh)"
    using cs lr by cases (auto simp: insert_absorb domI)
qed

theorem lookup_spec:
  assumes ok: "zone_ok sh" and alloc: "slab_ok alloc" and len: "length key \<le> 65535"
  shows "\<exists>rc e ctx' sh'. ngx_http_limit_req_lookup alloc now limit hash key account ctx sh =
      Some (rc, e, ctx', sh') \<and> zone_ok sh' \<and> rc \<in> {NGX_OK, NGX_AGAIN, NGX_BUSY, NGX_ERROR} \<and>
      (if rc = NGX_AGAIN then \<exists>i. ctx' = ctx\<lparr>ctx_node := Some i\<rparr> \<and> sh_nodes sh' i \<noteq> None \<and>
           (\<forall>j. lr_cnt sh' j = lr_cnt sh j + (if j = i then 1 else 0))
       else ctx' = ctx \<and> lr_cnt sh' = lr_cnt sh)"
  using ok
proof (cases rule: lr_find_zone [where hash = hash and key = key])
  case (1 i lr)
  obtain rc e ctx' sh' where res: "lr_found now limit i lr account ctx sh = (rc, e, ctx', sh')"
    by (metis prod_cases4)
  note s = lr_found_spec [OF ok 1(2) res]
  have eq: "ngx_http_limit_req_lookup alloc now limit hash key account ctx sh = Some (rc, e, ctx', sh')"
    using 1 res by (simp add: ngx_http_limit_req_lookup_def)
  have "sh_nodes sh' i \<noteq> None" using s(5) 1(2) by auto
  moreover have "lr_cnt sh' = lr_cnt sh" if "rc \<noteq> NGX_AGAIN" using s(4) that by auto
  ultimately show ?thesis using eq s by (intro exI conjI) auto
next
  case 2
  from lr_alloc_spec [OF ok alloc, of now "ctx_rate ctx" key] obtain node sh1 where
    a: "lr_alloc alloc now (ctx_rate ctx) key sh = Some (node, sh1)" "zone_ok sh1"
    "lr_cnt sh1 = lr_cnt sh" "sh_nodes sh1 \<subseteq>\<^sub>m sh_nodes sh"
    "\<forall>i. node = Some i \<longrightarrow> sh_nodes sh1 i = None" by metis
  show ?thesis
  proof (cases node)
    case None
    with a 2 show ?thesis by (simp add: ngx_http_limit_req_lookup_def)
  next
    case (Some i)
    obtain ids where rep: "lru_rep (sh_queue sh1) ids" using zone_ok_lru [OF a(2)] by metis
    have fresh: "\<forall>j lr. sh_nodes sh1 j = Some lr \<longrightarrow> (lr_key lr, lr_data lr) \<noteq> (hash, key)"
    proof (intro allI impI)
      fix j lr assume "sh_nodes sh1 j = Some lr"
      then have "sh_nodes sh j = Some lr" using a(4) by (metis domI map_le_def)
      then show "(lr_key lr, lr_data lr) \<noteq> (hash, key)" using 2(2) by blast
    qed
    from zone_ok_insert [OF a(2) rep _ len fresh, of i now account] a(5) Some obtain sh' where
      n: "lr_insert_new now hash key account i sh1 = Some sh'" "zone_ok sh'" and
      nodes: "sh_nodes sh' = (sh_nodes sh1)(i \<mapsto> \<lparr>lr_key = hash, lr_len = word_of_nat (length key),
        lr_last = (if account then now else 0), lr_excess = 0,
        lr_count = (if account then 0 else 1), lr_data = key\<rparr>)" by auto
    have c0: "lr_cnt sh i = 0" using a(3,5) Some by (metis lr_cnt_def option.simps(4))
    have cj: "lr_cnt sh' j = (if j = i then (if account then 0 else 1) else lr_cnt sh j)" for j
      using a(3) by (auto simp: lr_cnt_def nodes dest: fun_cong [of _ _ j])
    have "lr_cnt sh' = lr_cnt sh" if account using cj c0 that by auto
    moreover have "sh_nodes sh' i \<noteq> None" by (simp add: nodes)
    moreover have "ngx_http_limit_req_lookup alloc now limit hash key account ctx sh =
        Some (if account then (NGX_OK, 0, ctx, sh') else (NGX_AGAIN, 0, ctx\<lparr>ctx_node := Some i\<rparr>, sh'))"
      using a n 2 Some by (simp add: ngx_http_limit_req_lookup_def)
    ultimately show ?thesis
      using n(2) c0 cj by (cases account) (simp, force)
  qed
qed

section \<open>Zones to start from\<close>

lemma lr_empty_zone_ok: "zone_ok (lr_empty_zone (sh\<lparr>sh_nodes := Map.empty\<rparr>))"
proof -
  have "lru_rep (ngx_queue_init QHead (sh_queue sh)) []" using queue_rep_init [of QHead "sh_queue sh"] by simp
  then show ?thesis by (auto simp: zone_ok_def lr_empty_zone_def rbt_def lens_ok_def)
qed

definition first_free :: slab where
  \<comment> \<open>an allocator for a zone of two entries\<close>
  "first_free nodes sz = (if nodes 0 = None then Some 0 else if nodes 1 = None then Some 1 else None)"

lemma first_free_ok: "slab_ok first_free"
  by (auto simp: slab_ok_def first_free_def split: if_splits)

definition sample_zone :: lr_zone where
  \<comment> \<open>a zone as it is set up\<close>
  "sample_zone = lr_empty_zone \<lparr>sh_rbtree = Sentinel,
     sh_queue = \<lparr>prev_of = (\<lambda>_. QNull), next_of = (\<lambda>_. QNull)\<rparr>, sh_nodes = Map.empty\<rparr>"

lemma sample_zone_ok: "zone_ok sample_zone" "sh_nodes sample_zone = Map.empty"
  "lru_rep (sh_queue sample_zone) []"
proof -
  let ?sh = "\<lparr>sh_rbtree = Sentinel, sh_queue = \<lparr>prev_of = (\<lambda>_. QNull), next_of = (\<lambda>_. QNull)\<rparr>,
     sh_nodes = Map.empty\<rparr> :: lr_zone"
  show "zone_ok sample_zone" using lr_empty_zone_ok [of ?sh] by (simp add: sample_zone_def)
  show "sh_nodes sample_zone = Map.empty" by (simp add: sample_zone_def lr_empty_zone_def)
  show "lru_rep (sh_queue sample_zone) []"
    using queue_rep_init [of QHead "sh_queue ?sh"] by (simp add: sample_zone_def lr_empty_zone_def)
qed

definition sample_lr :: lr_node where
  "sample_lr = \<lparr>lr_key = 5, lr_len = 1, lr_last = 0, lr_excess = 0, lr_count = 0, lr_data = ''k''\<rparr>"

lemma one_entry_zone:
  "\<exists>sh. zone_ok sh \<and> lru_rep (sh_queue sh) [7] \<and> sh_nodes sh = [7 \<mapsto> sample_lr]"
  using zone_ok_insert [OF sample_zone_ok(1,3), of 7 "''k''" 5 0 True] sample_zone_ok(2)
  by (auto simp: sample_lr_def)

section \<open>Properties\<close>

text \<open>\<open>ngx_http_limit_req_lookup\<close> on a well-formed zone, with an allocator that gives memory not in use and a key of at
  most 65535 bytes, never touches memory that is not an entry,
  whatever the rate, the time and the key; it leaves the zone well-formed (tree, queue and memory
  hold the same entries), returns one of the four codes, and takes exactly one reference, on the
  entry it notes in the context, when it answers \<open>NGX_AGAIN\<close>, and none otherwise.\<close>
theorem lookup_safe:
  assumes "zone_ok sh" "slab_ok alloc" "length key \<le> 65535"
  shows "\<exists>rc e ctx' sh'. ngx_http_limit_req_lookup alloc now limit hash key account ctx sh =
      Some (rc, e, ctx', sh') \<and> zone_ok sh' \<and> rc \<in> {NGX_OK, NGX_AGAIN, NGX_BUSY, NGX_ERROR} \<and>
      (if rc = NGX_AGAIN then \<exists>i. ctx' = ctx\<lparr>ctx_node := Some i\<rparr> \<and> sh_nodes sh' i \<noteq> None \<and>
           (\<forall>j. lr_cnt sh' j = lr_cnt sh j + (if j = i then 1 else 0))
       else ctx' = ctx \<and> lr_cnt sh' = lr_cnt sh)"
  by (rule lookup_spec [OF assms])

theorem lookup_safe_witness:
  "\<exists>rc e ctx' sh'. ngx_http_limit_req_lookup first_free 1000 \<lparr>lim_zone = 0, lim_burst = 0, lim_delay = 0\<rparr> 5 ''k'' False
     \<lparr>ctx_sh = 0, ctx_rate = 1000, ctx_key = ''k'', ctx_node = None\<rparr> sample_zone = Some (rc, e, ctx', sh') \<and> zone_ok sh'"
  using lookup_safe [OF sample_zone_ok(1) first_free_ok, of "''k''"] by fastforce

text \<open>In a well-formed zone the walk of the tree finds the entry of a hash and key exactly when the
  zone has one, and there is never more than one.\<close>
theorem find_exact:
  assumes "zone_ok sh"
  shows "\<exists>res. lr_find (sh_nodes sh) hash key (sh_rbtree sh) = Some res \<and>
    (\<forall>i. res = Some i \<longleftrightarrow> (\<exists>lr. sh_nodes sh i = Some lr \<and> lr_key lr = hash \<and> lr_data lr = key))"
  using assms
proof (cases rule: lr_find_zone [where hash = hash and key = key])
  case (1 i lr)
  have "i = j" if "sh_nodes sh j = Some lr'" "lr_key lr' = hash" "lr_data lr' = key" for j lr'
    using zone_ok_unique [OF assms 1(2) that(1)] 1(3,4) that(2,3) by simp
  then have "Some i = Some j \<longleftrightarrow> (\<exists>lr. sh_nodes sh j = Some lr \<and> lr_key lr = hash \<and> lr_data lr = key)" for j
    using 1(2-4) by blast
  with 1(1) show ?thesis by blast
next
  case 2
  have "None = Some j \<longleftrightarrow> (\<exists>lr. sh_nodes sh j = Some lr \<and> lr_key lr = hash \<and> lr_data lr = key)" for j
    using 2(2) by blast
  with 2(1) show ?thesis by blast
qed

theorem find_exact_witness:
  "\<exists>sh :: lr_zone. sh_nodes sh = [7 \<mapsto> sample_lr] \<and> lr_find (sh_nodes sh) 5 ''k'' (sh_rbtree sh) = Some (Some 7)"
proof -
  obtain sh where sh: "zone_ok sh" "sh_nodes sh = [7 \<mapsto> sample_lr]" using one_entry_zone by metis
  obtain res where r: "lr_find (sh_nodes sh) 5 ''k'' (sh_rbtree sh) = Some res"
    "\<forall>i. res = Some i \<longleftrightarrow> (\<exists>lr. sh_nodes sh i = Some lr \<and> lr_key lr = 5 \<and> lr_data lr = ''k'')"
    using find_exact [OF sh(1)] by blast
  then have "res = Some 7" using sh(2) by (auto simp: sample_lr_def)
  with sh(2) r(1) show ?thesis by metis
qed

text \<open>\<open>ngx_http_limit_req_expire\<close> evicts from the least recently used end only, at most three entries
  (two unless it is forced), none of which is referenced; unless forced, every one of them has been
  unused for a minute and has no excess left, and what remains is a well-formed zone.\<close>
theorem expire_only_idle:
  assumes "zone_ok sh" "lru_rep (sh_queue sh) ids"
  shows "\<exists>k sh'. ngx_http_limit_req_expire now rate n sh = Some sh' \<and> zone_ok sh' \<and>
    lru_rep (sh_queue sh') (take k ids) \<and> sh_nodes sh' = sh_nodes sh |` set (take k ids) \<and>
    length ids \<le> k + (3 - n) \<and>
    (\<forall>i \<in> set (drop k ids). \<exists>lr. sh_nodes sh i = Some lr \<and> lr_count lr = 0 \<and>
       (n = 0 \<and> i = last ids \<or> lr_idle now rate lr))"
  by (rule expire_spec [OF assms])

theorem expire_only_idle_witness:
  "\<exists>sh sh'. sh_nodes sh = [7 \<mapsto> sample_lr] \<and> ngx_http_limit_req_expire 61000 1000 1 sh = Some sh' \<and> zone_ok sh'"
  using one_entry_zone expire_only_idle by metis

text \<open>An entry that a lookup has just used is at the head of the queue, so eviction reaches it only
  when it is the only one.\<close>
theorem used_entry_protected:
  assumes "lru_rep Q ids" "i \<in> set ids"
    and "ngx_queue_data (ngx_queue_last QHead (lru_push i (lru_unlink i Q))) = Some i"
  shows "ids = [i]"
  by (rule lru.touch_protects [OF assms])

theorem used_entry_protected_witness:
  "\<exists>Q. lru_rep Q [7] \<and> ngx_queue_data (ngx_queue_last QHead (lru_push 7 (lru_unlink 7 Q))) = Some 7 \<and> [7 :: nat] = [7]"
proof -
  obtain sh :: lr_zone where sh: "lru_rep (sh_queue sh) [7]" using one_entry_zone by metis
  have "lru_rep (lru_push 7 (lru_unlink 7 (sh_queue sh))) [7]" using lru.rep_touch [OF sh, of 7] by simp
  then have "ngx_queue_data (ngx_queue_last QHead (lru_push 7 (lru_unlink 7 (sh_queue sh)))) = Some 7"
    using lru.rep_oldest by fastforce
  then show ?thesis using sh used_entry_protected [OF sh, of 7] by auto
qed

end
