(* ===== verification/Limit_Req_Handler.thy ===== *)
theory Limit_Req_Handler
  imports Limit_Req_Zone
begin

text \<open>
  The handler of the request limiter over all configured limits: it is defined on every
  well-formed set of zones and keeps them well-formed.  When the keys could be computed it gives back every
  reference it took on an entry.  When the key of a later limit could not, the references taken before stay noted in
  the contexts of the worker, and a later request overwrites them: an entry then stays counted for ever.
\<close>

section \<open>Worlds of several zones\<close>

definition world_ok :: "lr_limit list \<Rightarrow> lr_world \<Rightarrow> bool" where
  \<comment> \<open>each limit has its own zone, as the directive \<open>limit_req\<close> checks, the zones are at
      different addresses and well-formed, and no rate is zero\<close>
  "world_ok limits w \<longleftrightarrow>
     distinct (map lim_zone limits) \<and>
     (\<forall>a < length limits. \<forall>b < length limits. a \<noteq> b \<longrightarrow>
        ctx_sh (w_ctx w (lim_zone (limits ! a))) \<noteq> ctx_sh (w_ctx w (lim_zone (limits ! b)))) \<and>
     (\<forall>k < length limits. zone_ok (w_zone w (lim_zone (limits ! k))) \<and>
        ctx_rate (w_ctx w (lim_zone (limits ! k))) \<noteq> 0)"

definition held :: "lr_limit list \<Rightarrow> lr_world \<Rightarrow> bool" where
  \<comment> \<open>a reference that is noted is counted, so it is to an entry that is not evicted\<close>
  "held limits w \<longleftrightarrow>
     (\<forall>k < length limits. \<forall>i. ctx_node (w_ctx w (lim_zone (limits ! k))) = Some i \<longrightarrow>
        lr_cnt (w_zone w (lim_zone (limits ! k))) i \<noteq> 0)"

definition countable_from :: "nat \<Rightarrow> lr_limit list \<Rightarrow> lr_world \<Rightarrow> bool" where
  \<comment> \<open>no counter of the zones from the given index on is at its end, \<open>2 ^ 64 - 1\<close>\<close>
  "countable_from n limits w \<longleftrightarrow>
     (\<forall>k < length limits. n \<le> k \<longrightarrow> (\<forall>i. lr_cnt (w_zone w (lim_zone (limits ! k))) i \<noteq> -1))"

definition balance :: "lr_world \<Rightarrow> nat \<Rightarrow> nat \<Rightarrow> ngx_uint_t" where
  \<comment> \<open>the references of an entry less the one the worker notes\<close>
  "balance w z i = lr_cnt (w_zone w z) i - (if ctx_node (w_ctx w z) = Some i then 1 else 0)"

definition balanced :: "lr_limit list \<Rightarrow> lr_world \<Rightarrow> lr_world \<Rightarrow> bool" where
  "balanced limits w w' \<longleftrightarrow>
     (\<forall>k < length limits. balance w' (lim_zone (limits ! k)) = balance w (lim_zone (limits ! k)))"

definition kept_at :: "nat \<Rightarrow> lr_world \<Rightarrow> lr_world \<Rightarrow> bool" where
  \<comment> \<open>the references of a zone add up, but one that was noted before may have been overwritten: it stays
      counted and is noted no more\<close>
  "kept_at z w w' \<longleftrightarrow> balance w' z = balance w z \<or>
     (\<exists>i. ctx_node (w_ctx w z) = Some i \<and> balance w' z = (balance w z)(i := balance w z i + 1))"

definition kept :: "lr_limit list \<Rightarrow> lr_world \<Rightarrow> lr_world \<Rightarrow> bool" where
  "kept limits w w' \<longleftrightarrow> (\<forall>k < length limits. kept_at (lim_zone (limits ! k)) w w')"

lemma balanced_refl [simp]: "balanced limits w w"
  by (simp add: balanced_def)

lemma balanced_trans: "balanced limits w w' \<Longrightarrow> balanced limits w' w'' \<Longrightarrow> balanced limits w w''"
  by (simp add: balanced_def)

lemma kept_balanced: "kept limits w w' \<Longrightarrow> balanced limits w' w'' \<Longrightarrow> kept limits w w''"
  by (simp add: kept_def kept_at_def balanced_def)

lemma w_zone_update [simp]:
  "ctx_sh ctx = ctx_sh (w_ctx w z) \<Longrightarrow> w_zone (w_update z ctx sh w) z = sh"
  "w_ctx (w_update z ctx sh w) z = ctx"
  by (simp_all add: w_zone_def w_update_def)

lemma w_zone_update_other:
  assumes "z' \<noteq> z" "ctx_sh (w_ctx w z') \<noteq> ctx_sh (w_ctx w z)"
  shows "w_zone (w_update z ctx sh w) z' = w_zone w z'" "w_ctx (w_update z ctx sh w) z' = w_ctx w z'"
  using assms by (simp_all add: w_zone_def w_update_def)

text \<open>One step on the zone of limit \<open>n\<close>.\<close>

lemma world_step:
  assumes ok: "world_ok limits w" and n: "n < length limits"
    and ctx: "ctx_sh ctx = ctx_sh (w_ctx w (lim_zone (limits ! n)))"
      "ctx_rate ctx = ctx_rate (w_ctx w (lim_zone (limits ! n)))"
    and sh: "zone_ok sh"
  shows "world_ok limits (w_update (lim_zone (limits ! n)) ctx sh w)"
    and "k < length limits \<Longrightarrow> k \<noteq> n \<Longrightarrow>
      w_zone (w_update (lim_zone (limits ! n)) ctx sh w) (lim_zone (limits ! k)) =
      w_zone w (lim_zone (limits ! k))"
    and "k < length limits \<Longrightarrow> k \<noteq> n \<Longrightarrow>
      w_ctx (w_update (lim_zone (limits ! n)) ctx sh w) (lim_zone (limits ! k)) =
      w_ctx w (lim_zone (limits ! k))"
proof -
  let ?w = "w_update (lim_zone (limits ! n)) ctx sh w"
  have ne: "lim_zone (limits ! k) \<noteq> lim_zone (limits ! n)" if "k < length limits" "k \<noteq> n" for k
    using ok n that by (auto simp: world_ok_def distinct_conv_nth)
  have sh_ne: "ctx_sh (w_ctx w (lim_zone (limits ! k))) \<noteq> ctx_sh (w_ctx w (lim_zone (limits ! n)))"
    if "k < length limits" "k \<noteq> n" for k
    using ok n that by (simp add: world_ok_def)
  show zone: "w_zone ?w (lim_zone (limits ! k)) = w_zone w (lim_zone (limits ! k))"
    if "k < length limits" "k \<noteq> n" for k
    by (rule w_zone_update_other [OF ne [OF that] sh_ne [OF that]])
  show wctx: "w_ctx ?w (lim_zone (limits ! k)) = w_ctx w (lim_zone (limits ! k))"
    if "k < length limits" "k \<noteq> n" for k
    by (rule w_zone_update_other [OF ne [OF that] sh_ne [OF that]])
  have shs: "ctx_sh (w_ctx ?w (lim_zone (limits ! k))) = ctx_sh (w_ctx w (lim_zone (limits ! k)))"
    if "k < length limits" for k
    using wctx [OF that] ctx by (cases "k = n") simp_all
  have "zone_ok (w_zone ?w (lim_zone (limits ! k))) \<and> ctx_rate (w_ctx ?w (lim_zone (limits ! k))) \<noteq> 0"
    if "k < length limits" for k
    using wctx [OF that] zone [OF that] ctx sh ok that n by (cases "k = n") (simp_all add: world_ok_def)
  then show "world_ok limits ?w"
    using ok shs by (simp add: world_ok_def)
qed

lemma balanced_step:
  assumes ok: "world_ok limits w" and n: "n < length limits"
    and ctx: "ctx_sh ctx = ctx_sh (w_ctx w (lim_zone (limits ! n)))"
      "ctx_rate ctx = ctx_rate (w_ctx w (lim_zone (limits ! n)))"
    and sh: "zone_ok sh"
    and bal: "\<And>i. lr_cnt sh i - (if ctx_node ctx = Some i then 1 else 0) = balance w (lim_zone (limits ! n)) i"
  shows "balanced limits w (w_update (lim_zone (limits ! n)) ctx sh w)"
  unfolding balanced_def
proof (intro allI impI)
  fix k assume k: "k < length limits"
  let ?w = "w_update (lim_zone (limits ! n)) ctx sh w"
  show "balance ?w (lim_zone (limits ! k)) = balance w (lim_zone (limits ! k))"
  proof (cases "k = n")
    case True
    then show ?thesis
      using bal ctx by (simp add: fun_eq_iff) (simp add: balance_def)
  next
    case False
    then show ?thesis
      using world_step(2,3) [OF ok n ctx sh k False] by (simp add: balance_def fun_eq_iff)
  qed
qed

lemma held_step:
  assumes ok: "world_ok limits w" and n: "n < length limits"
    and ctx: "ctx_sh ctx = ctx_sh (w_ctx w (lim_zone (limits ! n)))"
      "ctx_rate ctx = ctx_rate (w_ctx w (lim_zone (limits ! n)))"
    and sh: "zone_ok sh" and held: "held limits w"
    and node: "\<And>i. ctx_node ctx = Some i \<Longrightarrow> lr_cnt sh i \<noteq> 0"
  shows "held limits (w_update (lim_zone (limits ! n)) ctx sh w)"
  unfolding held_def
proof (intro allI impI)
  fix k i assume k: "k < length limits"
  let ?w = "w_update (lim_zone (limits ! n)) ctx sh w"
  assume "ctx_node (w_ctx ?w (lim_zone (limits ! k))) = Some i"
  then show "lr_cnt (w_zone ?w (lim_zone (limits ! k))) i \<noteq> 0"
    using world_step(2,3) [OF ok n ctx sh k] held k node ctx
    by (cases "k = n") (simp_all add: held_def)
qed

section \<open>The loop over the limits\<close>

definition same_at :: "nat \<Rightarrow> lr_world \<Rightarrow> lr_world \<Rightarrow> bool" where
  "same_at z w w' \<longleftrightarrow> w_ctx w' z = w_ctx w z \<and> w_zone w' z = w_zone w z"

definition loop_post ::
    "(string \<Rightarrow> string option) \<Rightarrow> lr_limit list \<Rightarrow> lr_world \<Rightarrow> nat \<Rightarrow> int \<Rightarrow> nat \<Rightarrow> lr_loop_end \<Rightarrow>
     lr_world \<Rightarrow> bool" where
  "loop_post complex_value limits w n rc limit res w' \<longleftrightarrow>
    world_ok limits w' \<and> held limits w' \<and> kept limits w w' \<and> (\<forall>k < n. k < length limits \<longrightarrow> same_at (lim_zone (limits ! k)) w w') \<and>
    (case res of
       Key_Failed \<Rightarrow> \<exists>k < length limits. complex_value (ctx_key (w_ctx w (lim_zone (limits ! k)))) = None
     | Loop_End rc' n' e l \<Rightarrow>
         (\<forall>k < length limits. n' \<le> k \<longrightarrow>
            ctx_node (w_ctx w' (lim_zone (limits ! k))) = ctx_node (w_ctx w (lim_zone (limits ! k)))) \<and>
         n \<le> n' \<and> n' \<le> length limits \<and>
         (n = n' \<and> n = length limits \<and> l = limit \<and> rc' = rc \<or> l < length limits) \<and>
         (rc' = NGX_DECLINED \<longrightarrow> rc = NGX_DECLINED \<and> w' = w) \<and>
         rc' \<in> {NGX_DECLINED, NGX_AGAIN, NGX_OK, NGX_BUSY, NGX_ERROR})"

lemma same_at_refl [simp]: "same_at z w w"
  by (simp add: same_at_def)

lemma balance_same: "same_at z w w' \<Longrightarrow> balance w' z = balance w z"
  by (simp add: same_at_def balance_def fun_eq_iff)

lemma kept_at_same: "same_at z w w' \<Longrightarrow> kept_at z w w'"
  by (simp add: kept_at_def balance_same)

lemma kept_at_trans:
  "same_at z w w1 \<Longrightarrow> kept_at z w1 w' \<Longrightarrow> kept_at z w w'"
  "kept_at z w w1 \<Longrightarrow> same_at z w1 w' \<Longrightarrow> kept_at z w w'"
  by (simp_all add: kept_at_def balance_same) (simp add: same_at_def)

lemma loop_post_step:
  assumes post: "loop_post complex_value limits w1 (Suc n) rc1 n res w'" and n: "n < length limits"
    and rc: "rc1 = rc \<and> w1 = w \<or> rc1 = NGX_AGAIN"
    and at: "kept_at (lim_zone (limits ! n)) w w1" "ctx_key (w_ctx w1 (lim_zone (limits ! n))) = ctx_key (w_ctx w (lim_zone (limits ! n)))"
    and other: "\<And>k. k < length limits \<Longrightarrow> k \<noteq> n \<Longrightarrow> same_at (lim_zone (limits ! k)) w w1"
  shows "loop_post complex_value limits w n rc limit res w'"
proof -
  have "kept_at (lim_zone (limits ! k)) w w'" if k: "k < length limits" for k
  proof (cases "k = n")
    case True
    have "same_at (lim_zone (limits ! n)) w1 w'" using post n by (simp add: loop_post_def)
    then show ?thesis using kept_at_trans(2) [OF at(1)] True by simp
  next
    case False
    have "kept_at (lim_zone (limits ! k)) w1 w'" using post k by (simp add: loop_post_def kept_def)
    then show ?thesis using kept_at_trans(1) other [OF k False] by blast
  qed
  then have kept: "kept limits w w'" by (simp add: kept_def)
  have "same_at (lim_zone (limits ! k)) w1 w'" if "k < n" for k
    using post n that by (simp add: loop_post_def)
  then have same: "same_at (lim_zone (limits ! k)) w w'" if "k < n" for k
    using other [of k] n that by (simp add: same_at_def)
  have key: "ctx_key (w_ctx w1 (lim_zone (limits ! k))) = ctx_key (w_ctx w (lim_zone (limits ! k)))"
    if "k < length limits" for k using at(2) other [OF that] by (cases "k = n") (simp_all add: same_at_def)
  show ?thesis
  proof (cases res)
    case Key_Failed
    then obtain k where "k < length limits" "complex_value (ctx_key (w_ctx w1 (lim_zone (limits ! k)))) = None"
      using post by (auto simp: loop_post_def)
    with key have "\<exists>k < length limits. complex_value (ctx_key (w_ctx w (lim_zone (limits ! k)))) = None" by metis
    with Key_Failed post kept same show ?thesis by (simp add: loop_post_def)
  next
    case (Loop_End rc' n' e l)
    have "ctx_node (w_ctx w' (lim_zone (limits ! k))) = ctx_node (w_ctx w (lim_zone (limits ! k)))"
      if "k < length limits" "n' \<le> k" for k
      using post that other [OF that(1)] Loop_End by (auto simp: loop_post_def same_at_def)
    with Loop_End post n rc kept same show ?thesis by (auto simp: loop_post_def)
  qed
qed

lemma lr_handler_loop_spec:
  assumes "world_ok limits w" "slab_ok alloc" "countable_from n limits w" "held limits w" "n \<le> length limits"
    and "rc \<in> {NGX_DECLINED, NGX_AGAIN}"
  shows "\<exists>res w'. lr_handler_loop alloc now complex_value limits n rc excess limit w = Some (res, w') \<and>
    loop_post complex_value limits w n rc limit res w'"
  using assms
proof (induction "length limits - n" arbitrary: n rc excess limit w)
  case 0
  then show ?case by (subst lr_handler_loop.simps) (auto simp: loop_post_def kept_def kept_at_def)
next
  case (Suc m)
  then have n: "n < length limits" by simp
  let ?z = "lim_zone (limits ! n)"
  let ?ctx = "w_ctx w ?z"
  have loop: "lr_handler_loop alloc now complex_value limits n rc excess limit w =
     (case complex_value (ctx_key ?ctx) of
             None \<Rightarrow> Some (Key_Failed, w)
           | Some key \<Rightarrow>
               if length key = 0 \<or> length key > 65535
               then lr_handler_loop alloc now complex_value limits (Suc n) rc excess n w
               else do {
                 (rc, excess, ctx, sh) \<leftarrow>
                   ngx_http_limit_req_lookup alloc now (limits ! n) (ucast (ngx_crc32_short key)) key
                     (n = length limits - 1) ?ctx (w_zone w ?z);
                 let w = w_update ?z ctx sh w
                 in if rc \<noteq> NGX_AGAIN then Some (Loop_End rc n excess n, w)
                    else lr_handler_loop alloc now complex_value limits (Suc n) rc excess n w
               })"
    using n by (subst lr_handler_loop.simps) (simp add: Let_def)
  show ?case
  proof (cases "complex_value (ctx_key ?ctx)")
    case None
    with n Suc.prems loop show ?thesis by (auto simp: loop_post_def kept_def kept_at_def)
  next
    case (Some key)
    show ?thesis
    proof (cases "length key = 0 \<or> length key > 65535")
      case True
      have cf: "countable_from (Suc n) limits w" using Suc.prems by (simp add: countable_from_def)
      have "m = length limits - Suc n" "Suc n \<le> length limits" using Suc.hyps(2) n by simp_all
      from Suc.hyps(1) [OF this(1) Suc.prems(1,2) cf Suc.prems(4) this(2) Suc.prems(6), of excess n]
      obtain res w' where r: "lr_handler_loop alloc now complex_value limits (Suc n) rc excess n w = Some (res, w')"
        "loop_post complex_value limits w (Suc n) rc n res w'" by metis
      have "lr_handler_loop alloc now complex_value limits n rc excess limit w = Some (res, w')"
        using loop Some True r(1) by simp
      with loop_post_step [OF r(2) n _ kept_at_same] show ?thesis by fastforce
    next
      case False
      then have len: "length key \<le> 65535" by simp
      have zok: "zone_ok (w_zone w ?z)" using Suc.prems(1) n by (simp add: world_ok_def)
      from lookup_spec [OF zok Suc.prems(2) len, of now "limits ! n" "ucast (ngx_crc32_short key)"
          "n = length limits - 1" ?ctx]
      obtain rc' e ctx' sh' where
        l: "ngx_http_limit_req_lookup alloc now (limits ! n) (ucast (ngx_crc32_short key)) key
          (n = length limits - 1) ?ctx (w_zone w ?z) = Some (rc', e, ctx', sh')" and
        z: "zone_ok sh'" "rc' \<in> {NGX_OK, NGX_AGAIN, NGX_BUSY, NGX_ERROR}" and
        c: "if rc' = NGX_AGAIN then \<exists>i. ctx' = ?ctx\<lparr>ctx_node := Some i\<rparr> \<and> sh_nodes sh' i \<noteq> None \<and>
             (\<forall>j. lr_cnt sh' j = lr_cnt (w_zone w ?z) j + (if j = i then 1 else 0))
           else ctx' = ?ctx \<and> lr_cnt sh' = lr_cnt (w_zone w ?z)" by metis
      have ctx: "ctx_sh ctx' = ctx_sh ?ctx" "ctx_rate ctx' = ctx_rate ?ctx" "ctx_key ctx' = ctx_key ?ctx"
        using c by (auto split: if_splits)
      let ?w = "w_update ?z ctx' sh' w"
      have wok: "world_ok limits ?w" by (rule world_step(1) [OF Suc.prems(1) n ctx(1,2) z(1)])
      have zw: "w_zone ?w ?z = sh'" "w_ctx ?w ?z = ctx'" using ctx(1) by simp_all
      have cnt: "lr_cnt sh' j \<noteq> 0" if "lr_cnt (w_zone w ?z) j \<noteq> 0" for j
      proof -
        have "lr_cnt (w_zone w ?z) j + 1 \<noteq> 0"
          using Suc.prems(3) n by (simp add: countable_from_def add_eq_0_iff2)
        moreover have "lr_cnt sh' j = lr_cnt (w_zone w ?z) j \<or> lr_cnt sh' j = lr_cnt (w_zone w ?z) j + 1"
          using c by (auto split: if_splits)
        ultimately show ?thesis using that by metis
      qed
      have noted: "lr_cnt sh' i \<noteq> 0" if i: "ctx_node ctx' = Some i" for i
      proof (cases "rc' = NGX_AGAIN")
        case True
        then have "lr_cnt sh' i = lr_cnt (w_zone w ?z) i + 1" using c i by auto
        then show ?thesis using Suc.prems(3) n by (simp add: countable_from_def add_eq_0_iff2)
      next
        case False
        then have "ctx_node ?ctx = Some i" using c i by simp
        then show ?thesis using Suc.prems(4) n cnt by (simp add: held_def)
      qed
      have hd: "held limits ?w"
        by (rule held_step [OF Suc.prems(1) n ctx(1,2) z(1) Suc.prems(4) noted])
      have other: "same_at (lim_zone (limits ! k)) w ?w" if "k < length limits" "k \<noteq> n" for k
        using world_step(2,3) [OF Suc.prems(1) n ctx(1,2) z(1) that] by (simp add: same_at_def)
      have at: "kept_at ?z w ?w"
      proof (cases "rc' = NGX_AGAIN")
        case True
        then obtain i where i: "ctx' = ?ctx\<lparr>ctx_node := Some i\<rparr>" "lr_cnt sh' = (\<lambda>j. lr_cnt (w_zone w ?z) j + (if j = i then 1 else 0))"
          using c by auto
        have "balance ?w ?z = lr_cnt (w_zone w ?z)" using i zw by (auto simp: balance_def fun_eq_iff)
        moreover have "lr_cnt (w_zone w ?z) = (case ctx_node ?ctx of None \<Rightarrow> balance w ?z
            | Some j \<Rightarrow> (balance w ?z)(j := balance w ?z j + 1))"
          by (auto simp: balance_def fun_eq_iff split: option.split)
        ultimately show ?thesis by (auto simp: kept_at_def split: option.splits)
      next
        case False
        then show ?thesis using c zw by (simp add: kept_at_def balance_def fun_eq_iff)
      qed
      have key: "ctx_key (w_ctx ?w ?z) = ctx_key ?ctx" using ctx zw by simp
      have cf: "countable_from (Suc n) limits ?w"
        using Suc.prems(3) other by (auto simp: countable_from_def same_at_def)
      show ?thesis
      proof (cases "rc' = NGX_AGAIN")
        case again: False
        have "ctx_node (w_ctx ?w (lim_zone (limits ! k))) = ctx_node (w_ctx w (lim_zone (limits ! k)))"
          if "k < length limits" for k
          using other [OF that] c again zw by (cases "k = n") (simp_all add: same_at_def)
        moreover have "kept limits w ?w" using at other kept_at_same by (metis kept_def)
        ultimately have "loop_post complex_value limits w n rc limit (Loop_End rc' n e n) ?w"
          using wok hd other z(2) n again by (auto simp: loop_post_def)
        moreover have "lr_handler_loop alloc now complex_value limits n rc excess limit w =
            Some (Loop_End rc' n e n, ?w)"
          using loop Some False l again by (simp add: Let_def)
        ultimately show ?thesis by blast
      next
        case True
        have "m = length limits - Suc n" "Suc n \<le> length limits" "rc' \<in> {NGX_DECLINED, NGX_AGAIN}"
          using Suc.hyps(2) n True by simp_all
        from Suc.hyps(1) [OF this(1) wok Suc.prems(2) cf hd this(2,3), of e n]
        obtain res w' where r: "lr_handler_loop alloc now complex_value limits (Suc n) rc' e n ?w = Some (res, w')"
          "loop_post complex_value limits ?w (Suc n) rc' n res w'" by metis
        have eq: "lr_handler_loop alloc now complex_value limits n rc excess limit w = Some (res, w')"
          using loop Some False l True r(1) by (simp add: Let_def)
        with loop_post_step [OF r(2) n _ at key other] True show ?thesis by blast
      qed
    qed
  qed
qed

section \<open>Giving the references back\<close>

definition released :: "nat \<Rightarrow> lr_limit list \<Rightarrow> lr_world \<Rightarrow> lr_world \<Rightarrow> bool" where
  \<comment> \<open>the references noted for the first \<open>n\<close> limits are given back, and no others\<close>
  "released n limits w w' \<longleftrightarrow> world_ok limits w' \<and> held limits w' \<and> balanced limits w w' \<and>
     (\<forall>k < length limits. ctx_node (w_ctx w' (lim_zone (limits ! k))) =
        (if k < n then None else ctx_node (w_ctx w (lim_zone (limits ! k)))))"

lemma released_0: "world_ok limits w \<Longrightarrow> held limits w \<Longrightarrow> released 0 limits w w"
  by (simp add: released_def)

lemma release_step:
  assumes ok: "world_ok limits w" and held: "held limits w"
    and n: "n < length limits" and node: "ctx_node (w_ctx w (lim_zone (limits ! n))) = Some i"
    and lr: "sh_nodes (w_zone w (lim_zone (limits ! n))) i = Some lr"
    and lr': "lr_id lr' = lr_id lr" "lr_count lr' = lr_count lr - 1"
  defines "w' \<equiv> w_update (lim_zone (limits ! n)) ((w_ctx w (lim_zone (limits ! n)))\<lparr>ctx_node := None\<rparr>)
    ((w_zone w (lim_zone (limits ! n)))\<lparr>sh_nodes := (sh_nodes (w_zone w (lim_zone (limits ! n))))(i \<mapsto> lr')\<rparr>) w"
  shows "world_ok limits w'" "held limits w'" "released n limits w' w'' \<Longrightarrow> released (Suc n) limits w w''"
proof -
  let ?z = "lim_zone (limits ! n)"
  let ?ctx = "(w_ctx w ?z)\<lparr>ctx_node := None\<rparr>"
  let ?sh = "(w_zone w ?z)\<lparr>sh_nodes := (sh_nodes (w_zone w ?z))(i \<mapsto> lr')\<rparr>"
  have ctx: "ctx_sh ?ctx = ctx_sh (w_ctx w ?z)" "ctx_rate ?ctx = ctx_rate (w_ctx w ?z)" by simp_all
  have zok: "zone_ok (w_zone w ?z)" using ok n by (simp add: world_ok_def)
  have sh: "zone_ok ?sh"
    by (rule zone_ok_nodes [OF zok]) (rule same_keys_upd [of "sh_nodes (w_zone w ?z)" i lr lr', OF lr lr'(1)])
  show "world_ok limits w'" unfolding w'_def by (rule world_step(1) [OF ok n ctx sh])
  show "held limits w'" unfolding w'_def by (rule held_step [OF ok n ctx sh held]) simp
  have bal: "balanced limits w w'" unfolding w'_def
    by (rule balanced_step [OF ok n ctx sh])
      (use node lr lr'(2) in \<open>auto simp: balance_def lr_cnt_def\<close>)
  have node': "ctx_node (w_ctx w' (lim_zone (limits ! k))) =
      (if k = n then None else ctx_node (w_ctx w (lim_zone (limits ! k))))" if "k < length limits" for k
    using world_step(3) [OF ok n ctx sh that] by (cases "k = n") (simp_all add: w'_def)
  assume "released n limits w' w''"
  then show "released (Suc n) limits w w''"
    using balanced_trans [OF bal] node' by (auto simp: released_def less_Suc_eq)
qed

lemma released_skip:
  assumes "released n limits w w'" "ctx_node (w_ctx w (lim_zone (limits ! n))) = None"
  shows "released (Suc n) limits w w'"
  using assms by (auto simp: released_def less_Suc_eq)

lemma held_entry_at:
  assumes "held limits w" "n < length limits" "ctx_node (w_ctx w (lim_zone (limits ! n))) = Some i"
  obtains lr where "sh_nodes (w_zone w (lim_zone (limits ! n))) i = Some lr"
  using assms by (fastforce simp: held_def lr_cnt_def split: option.splits)

lemma lr_rollback_spec:
  assumes "world_ok limits w" "held limits w" "n \<le> length limits"
  shows "\<exists>w'. lr_rollback limits n w = Some w' \<and> released n limits w w'"
  using assms
proof (induction n arbitrary: w)
  case 0
  then show ?case by (simp add: released_0)
next
  case (Suc n)
  let ?z = "lim_zone (limits ! n)"
  have n: "n < length limits" "n \<le> length limits" using Suc.prems by simp_all
  show ?case
  proof (cases "ctx_node (w_ctx w ?z)")
    case None
    with Suc.IH [OF Suc.prems(1,2) n(2)] released_skip [OF _ None] show ?thesis by (auto simp: Let_def)
  next
    case (Some i)
    obtain lr where lr: "sh_nodes (w_zone w ?z) i = Some lr" by (rule held_entry_at [OF Suc.prems(2) n(1) Some])
    have "lr_id (lr_released lr) = lr_id lr" "lr_count (lr_released lr) = lr_count lr - 1"
      by (simp_all add: lr_released_def lr_id_def)
    note st = release_step [OF Suc.prems(1,2) n(1) Some lr this]
    from Suc.IH [OF st(1,2) n(2)] Some lr st(3) show ?thesis by (auto simp: Let_def)
  qed
qed

lemma lr_accounted_simps [simp]:
  "lr_id (lr_accounted now rate lr) = lr_id lr"
  "lr_count (lr_accounted now rate lr) = lr_count lr - 1"
  by (simp_all add: lr_accounted_def lr_id_def Let_def)

lemma lr_account_loop_spec:
  assumes "world_ok limits w" "held limits w" "n \<le> length limits"
  shows "\<exists>acc' w'. lr_account_loop now limits n acc w = Some (acc', w') \<and> released n limits w w' \<and>
    fst acc \<le> fst acc'"
  using assms
proof (induction n arbitrary: w acc)
  case 0
  then show ?case by (simp add: released_0)
next
  case (Suc n)
  obtain md ep l where acc: "acc = (md, ep, l)" by (metis prod_cases3)
  let ?z = "lim_zone (limits ! n)"
  have n: "n < length limits" "n \<le> length limits" using Suc.prems by simp_all
  have rate: "ctx_rate (w_ctx w ?z) \<noteq> 0" using Suc.prems(1) n by (simp add: world_ok_def)
  show ?case
  proof (cases "ctx_node (w_ctx w ?z)")
    case None
    with Suc.IH [OF Suc.prems(1,2) n(2), of acc] released_skip [OF _ None] show ?thesis
      by (fastforce simp: Let_def acc)
  next
    case (Some i)
    obtain lr where lr: "sh_nodes (w_zone w ?z) i = Some lr" by (rule held_entry_at [OF Suc.prems(2) n(1) Some])
    let ?lr = "lr_accounted now (ctx_rate (w_ctx w ?z)) lr"
    note st = release_step [OF Suc.prems(1,2) n(1) Some lr, of ?lr, OF lr_accounted_simps]
    let ?w = "w_update ?z ((w_ctx w ?z)\<lparr>ctx_node := None\<rparr>)
       ((w_zone w ?z)\<lparr>sh_nodes := (sh_nodes (w_zone w ?z))(i \<mapsto> ?lr)\<rparr>) w"
    obtain d where d: "lr_delay_of (ctx_rate (w_ctx w ?z)) (lr_excess ?lr) (lim_delay (limits ! n)) = Some d"
      using rate by (simp add: lr_delay_of_def)
    define acc2 where "acc2 = (if lr_excess ?lr \<le> lim_delay (limits ! n) then (md, ep, l)
        else if d > md then (d, lr_excess ?lr, n) else (md, ep, l))"
    have eq: "lr_account_loop now limits (Suc n) acc w = lr_account_loop now limits n acc2 ?w"
      using Some lr d by (simp add: acc Let_def acc2_def)
    have le: "fst acc \<le> fst acc2" by (auto simp: acc acc2_def)
    from Suc.IH [OF st(1,2) n(2), of acc2] obtain acc' w' where
      "lr_account_loop now limits n acc2 ?w = Some (acc', w')" "released n limits ?w w'" "fst acc2 \<le> fst acc'"
      by blast
    with eq le st(3) show ?thesis by (auto intro: order_trans)
  qed
qed

section \<open>The handler\<close>

definition lr_status_matches :: "lr_conf \<Rightarrow> lr_outcome \<Rightarrow> bool" where
  \<comment> \<open>which return code goes with which \<open>$limit_req_status\<close>\<close>
  "lr_status_matches lrcf out \<longleftrightarrow>
     (if out_status out \<in> {0, NGX_HTTP_LIMIT_REQ_PASSED, NGX_HTTP_LIMIT_REQ_DELAYED_DRY_RUN,
          NGX_HTTP_LIMIT_REQ_REJECTED_DRY_RUN}
      then out_timer out = None \<and> (out_rc out = NGX_DECLINED \<or>
         out_status out = 0 \<and> out_rc out = NGX_HTTP_INTERNAL_SERVER_ERROR)
      else if out_status out = NGX_HTTP_LIMIT_REQ_REJECTED
      then out_timer out = None \<and> out_rc out = sint (lc_status_code lrcf) \<and> lc_dry_run lrcf = 0
      else out_status out = NGX_HTTP_LIMIT_REQ_DELAYED \<and> lc_dry_run lrcf = 0 \<and>
        (\<exists>d. d \<noteq> 0 \<and> out_timer out = Some d \<and> out_rc out = NGX_AGAIN \<or>
           out_timer out = None \<and> out_rc out = NGX_HTTP_INTERNAL_SERVER_ERROR))"

lemma ngx_http_limit_req_account_spec:
  assumes "world_ok limits w" "held limits w" "n \<le> length limits"
    and "limit < length limits"
  shows "\<exists>d e l w'. ngx_http_limit_req_account now limits n excess limit w = Some ((d, e, l), w') \<and>
    released n limits w w'"
proof -
  have "ctx_rate (w_ctx w (lim_zone (limits ! limit))) \<noteq> 0"
    using assms(1,4) by (simp add: world_ok_def)
  then obtain md where "(if excess \<le> lim_delay (limits ! limit) then Some 0
                  else lr_delay_of (ctx_rate (w_ctx w (lim_zone (limits ! limit)))) excess
                         (lim_delay (limits ! limit))) = Some md"
    by (cases "excess \<le> lim_delay (limits ! limit)") (auto simp: lr_delay_of_def)
  with lr_account_loop_spec [OF assms(1-3), of now "(md, excess, limit)"] show ?thesis
    by (auto simp: ngx_http_limit_req_account_def)
qed

definition handler_post :: "(string \<Rightarrow> string option) \<Rightarrow> lr_limit list \<Rightarrow> lr_world \<Rightarrow> lr_world \<Rightarrow> bool" where
  "handler_post complex_value limits w w' \<longleftrightarrow> world_ok limits w' \<and> held limits w' \<and> kept limits w w' \<and>
     ((\<forall>k < length limits. complex_value (ctx_key (w_ctx w (lim_zone (limits ! k)))) \<noteq> None) \<longrightarrow>
      (\<forall>k < length limits. ctx_node (w_ctx w' (lim_zone (limits ! k))) = None \<or>
         ctx_node (w_ctx w' (lim_zone (limits ! k))) = ctx_node (w_ctx w (lim_zone (limits ! k)))))"

lemma handler_post_released:
  assumes "loop_post complex_value limits w 0 rc0 0 (Loop_End rc n e lim) w1" "released n limits w1 w'"
  shows "handler_post complex_value limits w w'"
proof -
  have "kept limits w w'" using assms kept_balanced by (auto simp: loop_post_def released_def)
  moreover have "ctx_node (w_ctx w' (lim_zone (limits ! k))) = None \<or>
      ctx_node (w_ctx w' (lim_zone (limits ! k))) = ctx_node (w_ctx w (lim_zone (limits ! k)))" if "k < length limits" for k
    using assms that by (cases "k < n") (simp_all add: released_def loop_post_def)
  ultimately show ?thesis using assms(2) unfolding handler_post_def released_def by blast
qed

lemma handler_spec:
  assumes ok: "world_ok limits w" and held: "held limits w" and cf: "countable_from 0 limits w" and alloc: "slab_ok alloc"
    and conf: "lc_limits lrcf = Some limits" and status: "status = 0"
  shows "\<exists>out w'. ngx_http_limit_req_handler alloc now complex_value read_event_ok lrcf status w = Some (out, w') \<and>
    handler_post complex_value limits w w' \<and> lr_status_matches lrcf out"
proof -
  from lr_handler_loop_spec [OF ok alloc cf held, of NGX_DECLINED now complex_value 0 0]
  obtain res w1 where
    l: "lr_handler_loop alloc now complex_value limits 0 NGX_DECLINED 0 0 w = Some (res, w1)" and
    p: "loop_post complex_value limits w 0 NGX_DECLINED 0 res w1" by auto
  have w1: "world_ok limits w1" "held limits w1" "kept limits w w1" using p by (simp_all add: loop_post_def)
  show ?thesis
  proof (cases res)
    case Key_Failed
    with l p w1 conf status show ?thesis
      by (auto simp: ngx_http_limit_req_handler_def loop_post_def handler_post_def lr_status_matches_def)
  next
    case (Loop_End rc n e lim)
    have i: "n \<le> length limits" "rc \<noteq> NGX_DECLINED \<longrightarrow> lim < length limits" "rc = NGX_DECLINED \<longrightarrow> w1 = w"
      "rc \<in> {NGX_DECLINED, NGX_AGAIN, NGX_OK, NGX_BUSY, NGX_ERROR}"
      using p Loop_End by (auto simp: loop_post_def)
    obtain w2 where r: "lr_rollback limits n w1 = Some w2" "released n limits w1 w2"
      using lr_rollback_spec [OF w1(1,2) i(1)] by blast
    note rel = handler_post_released [OF p [unfolded Loop_End]]
    consider (declined) "rc = NGX_DECLINED" | (busy) "rc = NGX_BUSY \<or> rc = NGX_ERROR"
      | (pass) "rc = NGX_AGAIN \<or> rc = NGX_OK" using i(4) by auto
    then show ?thesis
    proof cases
      case busy
      with l Loop_End r rel [OF r(2)] conf status show ?thesis
        by (auto simp: ngx_http_limit_req_handler_def lr_status_matches_def)
    next
      case declined
      with l Loop_End w1 i(3) conf status show ?thesis
        by (auto simp: ngx_http_limit_req_handler_def lr_status_matches_def handler_post_def)
    next
      case pass
      then have "lim < length limits" using i(2) by auto
      from ngx_http_limit_req_account_spec [OF w1(1,2) i(1) this, of now "if rc = NGX_AGAIN then 0 else e"]
      obtain d e' l' w2 where a: "ngx_http_limit_req_account now limits n (if rc = NGX_AGAIN then 0 else e) lim w1 =
          Some ((d, e', l'), w2)" "released n limits w1 w2" by blast
      have "rc \<noteq> NGX_DECLINED" "\<not> (rc = NGX_BUSY \<or> rc = NGX_ERROR)" using pass by auto
      then have "\<exists>out. ngx_http_limit_req_handler alloc now complex_value read_event_ok lrcf status w = Some (out, w2) \<and>
          lr_status_matches lrcf out"
        using l Loop_End a(1) conf status
        by (simp add: ngx_http_limit_req_handler_def lr_status_matches_def)
      with rel [OF a(2)] show ?thesis by blast
    qed
  qed
qed

end
