(* ===== verification/Limit_Req_Rate.thy ===== *)
theory Limit_Req_Rate
  imports Limit_Req_Handler
begin

text \<open>
  What the limiter promises to a client: the accounting of one key refines a leaky bucket
  over natural numbers, in which every request adds 1000 and the configured rate drains.
  The bounds on the accepted requests are proved on the bucket and carried over to the
  machine arithmetic of the lookup, with its wrap-around, under the bounds that keep it exact.
\<close>

section \<open>The leaky bucket\<close>

definition bucket_level :: "nat \<Rightarrow> nat \<Rightarrow> nat \<Rightarrow> nat" where
  \<comment> \<open>the level after one more request, the given time after the last accepted one\<close>
  "bucket_level rate e ms = e + 1000 - rate * ms div 1000"

fun bucket :: "nat \<Rightarrow> nat \<Rightarrow> nat \<Rightarrow> nat \<Rightarrow> nat list \<Rightarrow> bool list" where
  "bucket rate burst e lst [] = []"
| "bucket rate burst e lst (t # ts) =
     (let e' = bucket_level rate e (t - lst)
      in if e' > burst then False # bucket rate burst e lst ts
         else True # bucket rate burst e' t ts)"

definition accepted :: "bool list \<Rightarrow> nat" where
  "accepted rs = length (filter id rs)"

lemma accepted_simps [simp]: "accepted [] = 0" "accepted (True # rs) = Suc (accepted rs)"
  "accepted (False # rs) = accepted rs"
  by (simp_all add: accepted_def)

lemma length_bucket [simp]: "length (bucket rate burst e lst ts) = length ts"
  by (induction rate burst e lst ts rule: bucket.induct) (simp_all add: Let_def)

text \<open>The rate bound: in any time after an accepted request.\<close>

lemma div_add_le: "(a::nat) div k + b div k \<le> (a + b) div k"
  by (metis div_add1_eq le_add1)

lemma bucket_rate_bound:
  assumes "sorted (lst # ts)" "ts \<noteq> []"
  shows "e + 1000 * accepted (bucket rate burst e lst ts) \<le>
    (if accepted (bucket rate burst e lst ts) = 0 then e else burst) + rate * (last ts - lst) div 1000"
  using assms
proof (induction rate burst e lst ts rule: bucket.induct)
  case (1 rate burst e lst)
  then show ?case by simp
next
  case (2 rate burst e lst t ts)
  let ?e = "bucket_level rate e (t - lst)"
  have sl: "lst \<le> t" "sorted (t # ts)" "sorted (lst # ts)" using "2.prems" by auto
  have tl: "t \<le> last (t # ts)" using sl(2) by (cases ts) (auto dest: last_in_set)
  show ?case
  proof (cases "?e > burst")
    case True
    show ?thesis
    proof (cases "ts = []")
      case True
      with \<open>?e > burst\<close> show ?thesis by (simp add: Let_def)
    next
      case False
      with True "2.IH"(1) [OF refl True sl(3)] show ?thesis by (simp add: Let_def)
    qed
  next
    case False
    have up: "e + 1000 \<le> ?e + rate * (t - lst) div 1000" by (simp add: bucket_level_def)
    show ?thesis
    proof (cases "ts = []")
      case True
      with False up show ?thesis by (simp add: Let_def)
    next
      case ne: False
      have "rate * (t - lst) div 1000 + rate * (last ts - t) div 1000 \<le> rate * (last ts - lst) div 1000"
      proof -
        have "rate * (last ts - lst) = rate * (t - lst) + rate * (last ts - t)"
          using sl(1) tl ne by (simp add: add_mult_distrib2 [symmetric])
        then show ?thesis using div_add_le by presburger
      qed
      moreover have "?e + 1000 * accepted (bucket rate burst ?e t ts) \<le>
          max ?e burst + rate * (last ts - t) div 1000"
        using "2.IH"(2) [OF refl False sl(2) ne] False by (auto split: if_splits)
      moreover have "max ?e burst = burst" using False by simp
      ultimately show ?thesis using False up ne by (simp add: Let_def)
    qed
  qed
qed

text \<open>A client that leaves at least the time of one request between two requests.\<close>

fun spaced :: "nat \<Rightarrow> nat \<Rightarrow> nat list \<Rightarrow> bool" where
  "spaced rate lst [] = True"
| "spaced rate lst (t # ts) \<longleftrightarrow> lst \<le> t \<and> 1000000 \<le> rate * (t - lst) \<and> spaced rate t ts"

lemma bucket_spaced:
  "spaced rate lst ts \<Longrightarrow> e \<le> burst \<Longrightarrow> bucket rate burst e lst ts = replicate (length ts) True"
proof (induction ts arbitrary: e lst)
  case Nil
  then show ?case by simp
next
  case (Cons t ts)
  have "1000000 div 1000 \<le> rate * (t - lst) div 1000" using Cons.prems by (intro div_le_mono) simp
  then have "bucket_level rate e (t - lst) \<le> e" by (simp add: bucket_level_def)
  then have le: "bucket_level rate e (t - lst) \<le> burst" using Cons.prems(2) by simp
  then show ?case using Cons.IH [OF _ le, of t] Cons.prems by (simp add: Let_def)
qed

text \<open>A burst of simultaneous requests.\<close>

lemma bucket_burst:
  "bucket rate burst e t (replicate n t) =
     replicate (min n ((burst - e) div 1000)) True @ replicate (n - (burst - e) div 1000) False"
proof (induction n arbitrary: e)
  case 0
  then show ?case by simp
next
  case (Suc n)
  show ?case
  proof (cases "e + 1000 > burst")
    case True
    then have z: "(burst - e) div 1000 = 0" by simp
    with True Suc [of e] show ?thesis by (simp add: Let_def bucket_level_def)
  next
    case False
    then have s: "(burst - e) div 1000 = Suc ((burst - (e + 1000)) div 1000)"
      by (metis diff_diff_left div_if not_less le_diff_conv2 add.commute leI diff_is_0_eq' div_less zero_less_diff nat_less_le le_div_geq zero_less_numeral add_leE)
    with False Suc [of "e + 1000"] show ?thesis by (simp add: Let_def bucket_level_def)
  qed
qed

section \<open>The machine arithmetic\<close>

lemma unat_mult_exact:
  fixes a b :: "64 word"
  assumes "unat a * unat b < 2 ^ 64"
  shows "unat (a * b) = unat a * unat b"
  using assms by (simp add: unat_word_ariths)

lemma lr_next_excess_bucket:
  assumes m: "unat rate * unat ms < 2 ^ 64" and e: "unat e < 2 ^ 62"
  shows "unat (lr_next_excess rate e ms) = bucket_level (unat rate) (unat e) (unat ms)"
proof -
  define Q where "Q = unat rate * unat ms div 1000"
  have q: "unat (rate * ms div 1000) = Q"
    by (simp add: Q_def unat_div unat_mult_exact [OF m])
  have Q: "Q < 2 ^ 55" using m unfolding Q_def by simp
  have w: "e - rate * ms div 1000 + 1000 = word_of_int (int (unat e) - int Q + 1000)"
    by (simp add: q [symmetric] flip: uint_nat)
  show ?thesis
  proof (cases "Q \<le> unat e + 1000")
    case True
    then have "int (unat e) - int Q + 1000 = int (unat e + 1000 - Q)" by simp
    then have v: "e - rate * ms div 1000 + 1000 = word_of_nat (unat e + 1000 - Q)"
      using w by (simp only: of_int_of_nat_eq)
    have b: "unat e + 1000 - Q < 2 ^ 63" using e by simp
    then have u: "unat (e - rate * ms div 1000 + 1000) = unat e + 1000 - Q"
      unfolding v by (simp add: unat_of_nat)
    then have "\<not> sint (e - rate * ms div 1000 + 1000) < 0"
      using b by (simp only: sint_neg_iff not_le)
    then show ?thesis using u by (simp add: lr_next_excess_def Let_def bucket_level_def Q_def)
  next
    case False
    define D where "D = Q - unat e - 1000"
    have D: "0 < D" "D < 2 ^ 55" using False Q by (simp_all add: D_def)
    have "int (unat e) - int Q + 1000 = - int D" using False by (simp add: D_def)
    with w have "e - rate * ms div 1000 + 1000 = word_of_int (- int D)" by metis
    then have "uint (e - rate * ms div 1000 + 1000) = (- int D) mod 2 ^ 64"
      by (simp only: uint_word_of_int) (simp add: take_bit_eq_mod)
    also have "\<dots> = (2 ^ 64 - int D) mod 2 ^ 64" by simp
    also have "\<dots> = 2 ^ 64 - int D" using D by (intro mod_pos_pos_trivial) auto
    finally have "unat (e - rate * ms div 1000 + 1000) = 2 ^ 64 - D"
      using D by (simp add: nat_diff_distrib flip: nat_uint_eq)
    then have "2 ^ 63 \<le> unat (e - rate * ms div 1000 + 1000)" using D by simp
    then have "sint (e - rate * ms div 1000 + 1000) < 0" by (simp only: sint_neg_iff)
    then show ?thesis using False by (simp add: lr_next_excess_def Let_def bucket_level_def Q_def)
  qed
qed

lemma lr_elapsed_forward:
  assumes "unat lst \<le> unat now" "unat now < 2 ^ 63"
  shows "lr_elapsed now lst = now - lst" "unat (now - lst) = unat now - unat lst"
proof -
  show u: "unat (now - lst) = unat now - unat lst"
    using assms(1) by (simp add: unat_sub_if')
  then have "unat (now - lst) < 2 ^ 63" using assms(2) by simp
  then have "0 \<le> sint (now - lst)" by (simp add: sint_eq_unat)
  then show "lr_elapsed now lst = now - lst" by (simp add: lr_elapsed_def Let_def)
qed

section \<open>The requests of one key\<close>

fun lr_serve ::
    "slab \<Rightarrow> lr_limit \<Rightarrow> ngx_uint_t \<Rightarrow> string \<Rightarrow> lr_ctx \<Rightarrow> ngx_msec_t list \<Rightarrow> lr_zone \<Rightarrow>
     (bool list \<times> lr_zone) option" where
  \<comment> \<open>lookups of one key at the given times, for the last limit of a location\<close>
  "lr_serve alloc limit hash key ctx [] sh = Some ([], sh)"
| "lr_serve alloc limit hash key ctx (t # ts) sh = do {
     (rc, e, ctx', sh) \<leftarrow> ngx_http_limit_req_lookup alloc t limit hash key True ctx sh;
     (rs, sh) \<leftarrow> lr_serve alloc limit hash key ctx ts sh;
     Some ((rc = NGX_OK) # rs, sh)
   }"

lemma lookup_existing:
  assumes "zone_ok sh" "sh_nodes sh i = Some lr"
  shows "ngx_http_limit_req_lookup alloc now limit (lr_key lr) (lr_data lr) account ctx sh =
    Some (lr_found now limit i lr account ctx sh)"
  using assms(1)
proof (cases rule: lr_find_zone [where hash = "lr_key lr" and key = "lr_data lr"])
  case (1 j lr')
  then have "i = j" using zone_ok_unique [OF assms(1), of i lr j lr'] assms(2) by simp
  with 1 assms(2) show ?thesis by (simp add: ngx_http_limit_req_lookup_def)
next
  case 2
  with assms(2) show ?thesis by blast
qed

definition exact_times :: "ngx_uint_t \<Rightarrow> ngx_msec_t \<Rightarrow> ngx_msec_t list \<Rightarrow> bool" where
  \<comment> \<open>the clock does not go back, and the drained amount fits 64 bits\<close>
  "exact_times rate lst ts \<longleftrightarrow> sorted (map unat (lst # ts)) \<and>
     list_all (\<lambda>t. unat t < 2 ^ 63 \<and> unat rate * (unat t - unat lst) < 2 ^ 64) ts"

lemma exact_times_Cons:
  assumes "exact_times rate lst (t # ts)"
  shows "unat lst \<le> unat t" "unat t < 2 ^ 63" "unat rate * (unat t - unat lst) < 2 ^ 64"
    "exact_times rate lst ts" "exact_times rate t ts"
proof -
  show le: "unat lst \<le> unat t" "unat t < 2 ^ 63" "unat rate * (unat t - unat lst) < 2 ^ 64"
    using assms by (simp_all add: exact_times_def)
  show "exact_times rate lst ts" using assms by (auto simp: exact_times_def)
  have "unat rate * (unat u - unat t) < 2 ^ 64" if "unat rate * (unat u - unat lst) < 2 ^ 64" for u
  proof -
    have "unat rate * (unat u - unat t) \<le> unat rate * (unat u - unat lst)"
      using le(1) by (intro mult_le_mono2 diff_le_mono2)
    with that show ?thesis by (rule le_less_trans [rotated])
  qed
  with assms show "exact_times rate t ts" by (auto simp: exact_times_def list_all_iff)
qed

lemma lr_serve_bucket:
  assumes "zone_ok sh" "sh_nodes sh i = Some lr"
    and "exact_times (ctx_rate ctx) (lr_last lr) ts" "unat (lr_excess lr) < 2 ^ 62"
    and "unat (lim_burst limit) < 2 ^ 62"
  shows "\<exists>sh' lr'. lr_serve alloc limit (lr_key lr) (lr_data lr) ctx ts sh =
    Some (bucket (unat (ctx_rate ctx)) (unat (lim_burst limit)) (unat (lr_excess lr)) (unat (lr_last lr))
            (map unat ts), sh') \<and> zone_ok sh' \<and> sh_nodes sh' i = Some lr'"
  using assms
proof (induction ts arbitrary: sh lr)
  case Nil
  then show ?case by simp
next
  case (Cons t ts)
  note et = exact_times_Cons [OF Cons.prems(3)]
  let ?ms = "t - lr_last lr"
  let ?e = "lr_next_excess (ctx_rate ctx) (lr_excess lr) ?ms"
  note el = lr_elapsed_forward [OF et(1,2)]
  have lv: "unat ?e = bucket_level (unat (ctx_rate ctx)) (unat (lr_excess lr)) (unat t - unat (lr_last lr))"
    using lr_next_excess_bucket [of "ctx_rate ctx" ?ms "lr_excess lr"] et(3) Cons.prems(4) el(2) by simp
  obtain rc e ctx' sh1 where f: "lr_found t limit i lr True ctx sh = (rc, e, ctx', sh1)"
    by (metis prod_cases4)
  note fs = lr_found_spec [OF Cons.prems(1,2) f]
  have l: "ngx_http_limit_req_lookup alloc t limit (lr_key lr) (lr_data lr) True ctx sh = Some (rc, e, ctx', sh1)"
    using lookup_existing [OF Cons.prems(1,2)] f by simp
  show ?case
  proof (cases "?e > lim_burst limit")
    case True
    then have r: "rc = NGX_BUSY" "sh_nodes sh1 i = Some lr"
      using f el(1) Cons.prems(2) by (auto simp: lr_found_def Let_def)
    from Cons.IH [OF fs(1) r(2) et(4) Cons.prems(4,5)] l r(1) True lv show ?thesis
      by (auto simp: Let_def word_less_nat_alt)
  next
    case False
    define lr1 where "lr1 = lr\<lparr>lr_excess := ?e, lr_last := (if ?ms \<noteq> 0 then t else lr_last lr)\<rparr>"
    have r: "rc = NGX_OK" "sh_nodes sh1 i = Some lr1"
      using f el(1) False by (auto simp: lr_found_def Let_def lr1_def)
    have last1: "lr_last lr1 = t" by (auto simp: lr1_def)
    have b: "unat ?e < 2 ^ 62" using False Cons.prems(5) by (simp add: word_less_nat_alt)
    then have b1: "unat (lr_excess lr1) < 2 ^ 62" by (simp add: lr1_def)
    have k: "lr_key lr1 = lr_key lr" "lr_data lr1 = lr_data lr" "lr_excess lr1 = ?e" by (simp_all add: lr1_def)
    from Cons.IH [OF fs(1) r(2) _ b1 Cons.prems(5)] et(5) last1 k obtain sh' lr' where
      "lr_serve alloc limit (lr_key lr) (lr_data lr) ctx ts sh1 =
        Some (bucket (unat (ctx_rate ctx)) (unat (lim_burst limit)) (unat ?e) (unat t) (map unat ts), sh')"
      "zone_ok sh'" "sh_nodes sh' i = Some lr'" by auto
    with l r(1) False lv show ?thesis by (simp add: Let_def word_less_nat_alt)
  qed
qed

end
