(* ===== verification/Limit_Req_Workers.thy ===== *)
theory Limit_Req_Workers
  imports Limit_Req_Handler
begin

text \<open>
  Several worker processes on one shared zone.  Between the critical sections of one
  worker any other worker may run its own; a worker that passed a zone with \<open>NGX_AGAIN\<close>
  notes a pointer to the entry until it accounts or rolls back.  A worker whose request failed on the key
  of a later limit does neither; its next lookup overwrites the reference it still notes, which
  a history field records.  The count of an entry is the number of workers that note it and of references to it that
  were overwritten, so eviction never frees an entry that is still pointed to.
\<close>

record lr_sys =
  sys_sh :: lr_zone
  sys_node :: "nat \<Rightarrow> nat option"   \<comment> \<open>\<open>ctx->node\<close> of each worker\<close>
  sys_lost :: "nat \<Rightarrow> nat"          \<comment> \<open>history: how many references to an entry were overwritten\<close>

definition overwrite :: "int \<Rightarrow> nat option \<Rightarrow> (nat \<Rightarrow> nat) \<Rightarrow> nat \<Rightarrow> nat" where
  \<comment> \<open>by a lookup with the given result\<close>
  "overwrite rc node lost i = lost i + (if rc = NGX_AGAIN \<and> node = Some i then 1 else 0)"

inductive lr_step :: "nat \<Rightarrow> lr_ctx \<Rightarrow> lr_sys \<Rightarrow> lr_sys \<Rightarrow> bool" for workers ctx where
  Lookup: "u < workers \<Longrightarrow> slab_ok alloc \<Longrightarrow> length key \<le> 65535 \<Longrightarrow>
    ngx_http_limit_req_lookup alloc now limit hash key account (ctx\<lparr>ctx_node := sys_node s u\<rparr>) (sys_sh s) =
      Some (rc, e, ctx', sh') \<Longrightarrow>
    lr_step workers ctx s \<lparr>sys_sh = sh', sys_node = (sys_node s)(u := ctx_node ctx'),
      sys_lost = overwrite rc (sys_node s u) (sys_lost s)\<rparr>"
| Account: "u < workers \<Longrightarrow> sys_node s u = Some i \<Longrightarrow> sh_nodes (sys_sh s) i = Some lr \<Longrightarrow>
    lr_step workers ctx s
      \<lparr>sys_sh = (sys_sh s)\<lparr>sh_nodes := (sh_nodes (sys_sh s))(i \<mapsto> lr_accounted now (ctx_rate ctx) lr)\<rparr>,
       sys_node = (sys_node s)(u := None), sys_lost = sys_lost s\<rparr>"
| Rollback: "u < workers \<Longrightarrow> sys_node s u = Some i \<Longrightarrow> sh_nodes (sys_sh s) i = Some lr \<Longrightarrow>
    lr_step workers ctx s
      \<lparr>sys_sh = (sys_sh s)\<lparr>sh_nodes := (sh_nodes (sys_sh s))(i \<mapsto> lr_released lr)\<rparr>,
       sys_node = (sys_node s)(u := None), sys_lost = sys_lost s\<rparr>"

inductive_cases lr_stepE: "lr_step workers ctx s s'"

definition holders :: "nat \<Rightarrow> lr_sys \<Rightarrow> nat \<Rightarrow> nat set" where
  "holders workers s i = {u. u < workers \<and> sys_node s u = Some i}"

definition sys_ok :: "nat \<Rightarrow> lr_sys \<Rightarrow> bool" where
  "sys_ok workers s \<longleftrightarrow> zone_ok (sys_sh s) \<and> (\<forall>u. sys_node s u \<noteq> None \<longrightarrow> u < workers) \<and>
     (\<forall>i. lr_cnt (sys_sh s) i = word_of_nat (card (holders workers s i) + sys_lost s i))"

definition sys_init :: "lr_sys \<Rightarrow> bool" where
  \<comment> \<open>a zone as it is set up, and idle workers\<close>
  "sys_init s \<longleftrightarrow> (\<exists>sh. sys_sh s = lr_empty_zone (sh\<lparr>sh_nodes := Map.empty\<rparr>)) \<and> sys_node s = (\<lambda>_. None) \<and>
     sys_lost s = (\<lambda>_. 0)"

lemma sys_init_ok: "sys_init s \<Longrightarrow> sys_ok workers s"
  by (auto simp: sys_init_def sys_ok_def lr_empty_zone_ok holders_def)
    (simp add: lr_cnt_def lr_empty_zone_def)

lemma finite_holders [simp]: "finite (holders workers s i)"
  by (simp add: holders_def)

lemma card_holders: "card (holders workers s i) \<le> workers"
proof -
  have "holders workers s i \<subseteq> {..< workers}" by (auto simp: holders_def)
  then show ?thesis using card_mono [OF finite_lessThan] by (metis card_lessThan)
qed

lemma held_entry:
  assumes ok: "sys_ok workers s" and N: "workers + sys_lost s i < 2 ^ 64" and u: "sys_node s u = Some i"
  obtains lr where "sh_nodes (sys_sh s) i = Some lr" "unat (lr_count lr) = card (holders workers s i) + sys_lost s i"
    "0 < card (holders workers s i)"
proof -
  let ?c = "card (holders workers s i) + sys_lost s i"
  have "u \<in> holders workers s i" using ok u by (auto simp: sys_ok_def holders_def)
  then have c: "0 < card (holders workers s i)" by (metis card_gt_0_iff empty_iff finite_holders)
  have "?c < 2 ^ 64" using card_holders [of workers s i] N by simp
  then have "unat (word_of_nat ?c :: 64 word) = ?c"
    unfolding unat_of_nat by simp
  then have n: "unat (lr_cnt (sys_sh s) i) = ?c" using ok by (simp add: sys_ok_def)
  then have "lr_cnt (sys_sh s) i \<noteq> 0" using c by auto
  then show thesis using that n c by (auto simp: lr_cnt_def split: option.splits)
qed

lemma holders_upd:
  "holders workers \<lparr>sys_sh = sh, sys_node = (sys_node s)(u := x), sys_lost = l\<rparr> j =
    (if x = Some j \<and> u < workers then insert u (holders workers s j) else holders workers s j - {u})"
  by (auto simp: holders_def)

lemma release_ok:
  assumes ok: "sys_ok workers s" and u: "u < workers" "sys_node s u = Some i"
    and lr: "sh_nodes (sys_sh s) i = Some lr" "lr_id lr' = lr_id lr" "lr_count lr' = lr_count lr - 1"
  shows "sys_ok workers \<lparr>sys_sh = (sys_sh s)\<lparr>sh_nodes := (sh_nodes (sys_sh s))(i \<mapsto> lr')\<rparr>,
       sys_node = (sys_node s)(u := None), sys_lost = sys_lost s\<rparr>" (is "sys_ok workers ?s")
proof -
  have z: "zone_ok (sys_sh ?s)"
    using zone_ok_nodes [OF _ same_keys_upd [of "sh_nodes (sys_sh s)" i lr lr']] ok lr
    by (simp add: sys_ok_def)
  have "lr_cnt (sys_sh ?s) j = word_of_nat (card (holders workers ?s j) + sys_lost ?s j)" for j
  proof (cases "j = i")
    case True
    have "u \<in> holders workers s i" using u by (simp add: holders_def)
    then have "card (holders workers s i) = Suc (card (holders workers s i - {u}))"
      by (metis card_Suc_Diff1 finite_holders)
    moreover have "lr_count lr = word_of_nat (card (holders workers s i) + sys_lost s i)"
      using ok lr by (auto simp: sys_ok_def lr_cnt_def dest!: spec [of _ i])
    ultimately show ?thesis using True lr by (simp add: lr_cnt_def holders_upd)
  next
    case False
    then have "holders workers s j - {u} = holders workers s j" using u by (auto simp: holders_def)
    then show ?thesis using False ok by (simp add: lr_cnt_def holders_upd sys_ok_def)
  qed
  with z ok show ?thesis by (auto simp: sys_ok_def)
qed

lemma lookup_step_ok:
  assumes ok: "sys_ok workers s" and u: "u < workers"
    and a: "slab_ok alloc" "length key \<le> 65535"
    and l: "ngx_http_limit_req_lookup alloc now limit hash key account (ctx\<lparr>ctx_node := sys_node s u\<rparr>) (sys_sh s) =
      Some (rc, e, ctx', sh')"
  shows "sys_ok workers \<lparr>sys_sh = sh', sys_node = (sys_node s)(u := ctx_node ctx'),
    sys_lost = overwrite rc (sys_node s u) (sys_lost s)\<rparr>" (is "sys_ok workers ?s")
proof -
  let ?ctx = "ctx\<lparr>ctx_node := sys_node s u\<rparr>"
  have z: "zone_ok (sys_sh s)" using ok by (simp add: sys_ok_def)
  obtain rc2 e2 c2 sh2 where
    l2: "ngx_http_limit_req_lookup alloc now limit hash key account ?ctx (sys_sh s) =
      Some (rc2, e2, c2, sh2)" and z2: "zone_ok sh2" and
    c2: "if rc2 = NGX_AGAIN then \<exists>i. c2 = ?ctx\<lparr>ctx_node := Some i\<rparr> \<and>
           sh_nodes sh2 i \<noteq> None \<and> (\<forall>j. lr_cnt sh2 j = lr_cnt (sys_sh s) j + (if j = i then 1 else 0))
       else c2 = ?ctx \<and> lr_cnt sh2 = lr_cnt (sys_sh s)"
    using lookup_spec [OF z a, of now limit hash account ?ctx]
    by (elim exE conjE) (rule that)
  from l l2 have eq: "rc2 = rc" "c2 = ctx'" "sh2 = sh'" by simp_all
  note z' = z2 [unfolded eq] and c = c2 [unfolded eq]
  have "lr_cnt sh' j = word_of_nat (card (holders workers ?s j) + sys_lost ?s j)" for j
  proof (cases "rc = NGX_AGAIN")
    case True
    with c obtain i where i: "ctx_node ctx' = Some i"
      "\<forall>j. lr_cnt sh' j = lr_cnt (sys_sh s) j + (if j = i then 1 else 0)" by auto
    have h: "card (holders workers ?s j) + (if sys_node s u = Some j then 1 else 0) =
        card (holders workers s j) + (if j = i then 1 else 0)"
    proof (cases "sys_node s u = Some j")
      case True
      then have "u \<in> holders workers s j" using u by (simp add: holders_def)
      then have "card (holders workers s j) = Suc (card (holders workers s j - {u}))" "insert u (holders workers s j) = holders workers s j"
        by (metis card_Suc_Diff1 finite_holders, auto)
      then show ?thesis using True i(1) u by (auto simp: holders_upd)
    next
      case False
      then have "u \<notin> holders workers s j" by (simp add: holders_def)
      then show ?thesis using False i(1) u by (auto simp: holders_upd)
    qed
    have "card (holders workers ?s j) + sys_lost ?s j = card (holders workers s j) + sys_lost s j + (if j = i then 1 else 0)"
      using h True by (simp add: overwrite_def)
    then show ?thesis using i(2) ok by (simp add: sys_ok_def)
  next
    case False
    with c have "ctx_node ctx' = sys_node s u" "lr_cnt sh' = lr_cnt (sys_sh s)" by auto
    moreover have "sys_lost ?s = sys_lost s" using False by (simp add: overwrite_def fun_eq_iff)
    ultimately show ?thesis using ok by (simp add: sys_ok_def holders_def)
  qed
  moreover have "\<forall>v. sys_node ?s v \<noteq> None \<longrightarrow> v < workers" using ok u by (auto simp: sys_ok_def)
  ultimately show ?thesis using z' by (simp add: sys_ok_def)
qed

lemma lr_step_ok: "lr_step workers ctx s s' \<Longrightarrow> sys_ok workers s \<Longrightarrow> sys_ok workers s'"
proof (induction rule: lr_step.induct)
  case (Lookup u s alloc key)
  then show ?case using lookup_step_ok by blast
next
  case (Account u s i lr now)
  then show ?case using release_ok [OF _ _ _ _ lr_accounted_simps] by blast
next
  case (Rollback u s i lr)
  then show ?case using release_ok [of workers s u i lr "lr_released lr"] by (simp add: lr_released_def lr_id_def)
qed

lemma lr_steps_ok: "(lr_step workers ctx)\<^sup>*\<^sup>* s s' \<Longrightarrow> sys_ok workers s \<Longrightarrow> sys_ok workers s'"
  by (induction rule: rtranclp_induct) (auto intro: lr_step_ok)

end
