(* ===== verification/Ngx_Number.thy ===== *)
theory Ngx_Number
  imports Nginx_Prelude
begin

text \<open>
  The number parsers of \<open>nginx/src/core/ngx_string.c\<close> (\<open>ngx_atoi\<close>, \<open>ngx_atofp\<close>,
  \<open>ngx_atosz\<close>, \<open>ngx_atoof\<close>, \<open>ngx_atotm\<close>, \<open>ngx_hextoi\<close>, \<open>ngx_hex_dump\<close>) and the size
  and time parsers of \<open>nginx/src/core/ngx_parse.c\<close> built on them.  A parser gets the
  characters from \<open>line\<close> on and the count \<open>n\<close>; each loop is the recursion on the
  count, with the accumulated \<open>val\<close> as an argument.  The values are \<open>int\<close>: the
  theorems show that they stay below the largest val of their C type, so that the
  signed arithmetic of the code never overflows.
\<close>

abbreviation (input) NGX_MAX_SIZE_T_VALUE :: int where
  "NGX_MAX_SIZE_T_VALUE \<equiv> 9223372036854775807"
abbreviation (input) NGX_MAX_OFF_T_VALUE :: int where
  "NGX_MAX_OFF_T_VALUE \<equiv> 9223372036854775807"
abbreviation (input) NGX_MAX_TIME_T_VALUE :: int where
  "NGX_MAX_TIME_T_VALUE \<equiv> 9223372036854775807"

section \<open>Decimal numbers\<close>

fun ato_loop :: "int \<Rightarrow> int \<Rightarrow> int \<Rightarrow> string \<Rightarrow> nat \<Rightarrow> int" where
  \<comment> \<open>the loop the four decimal parsers share\<close>
  "ato_loop cutoff cutlim val line 0 = val"
| "ato_loop cutoff cutlim val line (Suc n) =
     (let c = chd line
      in if c < 48 \<or> c > 57 then NGX_ERROR
         else if val \<ge> cutoff \<and> (val > cutoff \<or> c - 48 > cutlim) then NGX_ERROR
         else ato_loop cutoff cutlim (val * 10 + (c - 48)) (tl line) n)"

definition ngx_atoi :: "string \<Rightarrow> nat \<Rightarrow> int" where
  "ngx_atoi line n =
     (if n = 0 then NGX_ERROR
      else ato_loop (NGX_MAX_INT_T_VALUE div 10) (NGX_MAX_INT_T_VALUE mod 10) 0 line n)"

definition ngx_atosz :: "string \<Rightarrow> nat \<Rightarrow> int" where
  "ngx_atosz line n =
     (if n = 0 then NGX_ERROR
      else ato_loop (NGX_MAX_SIZE_T_VALUE div 10) (NGX_MAX_SIZE_T_VALUE mod 10) 0 line n)"

definition ngx_atoof :: "string \<Rightarrow> nat \<Rightarrow> int" where
  "ngx_atoof line n =
     (if n = 0 then NGX_ERROR
      else ato_loop (NGX_MAX_OFF_T_VALUE div 10) (NGX_MAX_OFF_T_VALUE mod 10) 0 line n)"

definition ngx_atotm :: "string \<Rightarrow> nat \<Rightarrow> int" where
  "ngx_atotm line n =
     (if n = 0 then NGX_ERROR
      else ato_loop (NGX_MAX_TIME_T_VALUE div 10) (NGX_MAX_TIME_T_VALUE mod 10) 0 line n)"

text \<open>The reference: the value of a string of decimal digits, without bound.\<close>

definition is_digit :: "char \<Rightarrow> bool" where
  "is_digit c \<longleftrightarrow> 48 \<le> cval c \<and> cval c \<le> 57"

definition dec_value_from :: "int \<Rightarrow> string \<Rightarrow> int" where
  "dec_value_from v s = foldl (\<lambda>a c. a * 10 + (cval c - 48)) v s"

abbreviation dec_value :: "string \<Rightarrow> int" where
  "dec_value \<equiv> dec_value_from 0"

lemma dec_value_from_simps [simp]:
  "dec_value_from v [] = v"
  "dec_value_from v (c # s) = dec_value_from (v * 10 + (cval c - 48)) s"
  by (simp_all add: dec_value_from_def)

lemma dec_value_from_mono:
  "list_all is_digit s \<Longrightarrow> 0 \<le> v \<Longrightarrow> v \<le> dec_value_from v s"
proof (induction s arbitrary: v)
  case Nil
  then show ?case by simp
next
  case (Cons c s)
  have "v \<le> v * 10 + (cval c - 48)" using Cons.prems by (auto simp: is_digit_def)
  also have "\<dots> \<le> dec_value_from (v * 10 + (cval c - 48)) s"
    using Cons.prems by (intro Cons.IH) (auto simp: is_digit_def)
  finally show ?case by simp
qed

text \<open>
  The loop computes the value exactly when every character is a digit and the value
  fits; the guard against overflow never rejects a number that fits.
\<close>

lemma overflow_guard:
  fixes v d mx :: int
  assumes "0 \<le> d" "d \<le> 9"
  shows "v \<ge> mx div 10 \<and> (v > mx div 10 \<or> d > mx mod 10) \<longleftrightarrow> v * 10 + d > mx"
proof -
  obtain q r where "mx div 10 = q" "mx mod 10 = r" "mx = 10 * q + r" "0 \<le> r" "r < 10"
    by (metis mult_div_mod_eq pos_mod_bound pos_mod_sign zero_less_numeral)
  with assms show ?thesis by auto
qed

lemma ato_loop_correct:
  assumes "0 \<le> v" "v \<le> mx" "0 \<le> mx"
  shows "ato_loop (mx div 10) (mx mod 10) v line n =
    (if n \<le> length line \<and> list_all is_digit (take n line) \<and>
        dec_value_from v (take n line) \<le> mx
     then dec_value_from v (take n line) else NGX_ERROR)"
  using assms
proof (induction n arbitrary: v line)
  case 0
  then show ?case by simp
next
  case (Suc n)
  show ?case
  proof (cases line)
    case Nil
    then show ?thesis by simp
  next
    case (Cons c s)
    let ?v = "v * 10 + (cval c - 48)"
    show ?thesis
    proof (cases "is_digit c")
      case False
      with Cons show ?thesis by (auto simp: is_digit_def)
    next
      case dig: True
      have guard: "v \<ge> mx div 10 \<and> (v > mx div 10 \<or> cval c - 48 > mx mod 10) \<longleftrightarrow> ?v > mx"
        using dig by (intro overflow_guard) (auto simp: is_digit_def)
      show ?thesis
      proof (cases "?v > mx")
        case True
        have big: "list_all is_digit (take n s) \<Longrightarrow> mx < dec_value_from ?v (take n s)"
          using dec_value_from_mono [of "take n s" ?v] True Suc.prems by linarith
        have "ato_loop (mx div 10) (mx mod 10) v line (Suc n) = NGX_ERROR"
          using guard True Cons dig by (simp add: is_digit_def Let_def)
        with big Cons show ?thesis by auto
      next
        case False
        then have "ato_loop (mx div 10) (mx mod 10) v line (Suc n) =
            ato_loop (mx div 10) (mx mod 10) ?v s n"
          using guard Cons dig by (auto simp: is_digit_def Let_def)
        also have "\<dots> = (if n \<le> length s \<and> list_all is_digit (take n s) \<and>
            dec_value_from ?v (take n s) \<le> mx
          then dec_value_from ?v (take n s) else NGX_ERROR)"
          using Suc.prems False dig by (intro Suc.IH) (auto simp: is_digit_def)
        finally show ?thesis using Cons dig by simp
      qed
    qed
  qed
qed

definition dec_spec :: "int \<Rightarrow> string \<Rightarrow> nat \<Rightarrow> int" where
  \<comment> \<open>what the decimal parsers promise: the value of the first \<open>n\<close> characters when
    they are digits and fit \<open>mx\<close>, the error code otherwise\<close>
  "dec_spec mx line n =
     (if 0 < n \<and> n \<le> length line \<and> list_all is_digit (take n line) \<and>
         dec_value (take n line) \<le> mx
      then dec_value (take n line) else NGX_ERROR)"

lemmas decimal_parsers = ngx_atoi_def ngx_atosz_def ngx_atoof_def ngx_atotm_def

lemma ngx_atoi_dec_spec: "ngx_atoi line n = dec_spec NGX_MAX_INT_T_VALUE line n"
  by (simp only: ngx_atoi_def dec_spec_def) (subst ato_loop_correct; simp)

lemma ngx_atosz_dec_spec: "ngx_atosz line n = dec_spec NGX_MAX_SIZE_T_VALUE line n"
  by (simp only: ngx_atosz_def dec_spec_def) (subst ato_loop_correct; simp)

lemma ngx_atoof_dec_spec: "ngx_atoof line n = dec_spec NGX_MAX_OFF_T_VALUE line n"
  by (simp only: ngx_atoof_def dec_spec_def) (subst ato_loop_correct; simp)

lemma ngx_atotm_dec_spec: "ngx_atotm line n = dec_spec NGX_MAX_TIME_T_VALUE line n"
  by (simp only: ngx_atotm_def dec_spec_def) (subst ato_loop_correct; simp)

lemma dec_value_nonneg: "list_all is_digit s \<Longrightarrow> 0 \<le> dec_value s"
  using dec_value_from_mono [of s 0] by simp

lemma dec_spec_bounds: "0 \<le> mx \<Longrightarrow> -1 \<le> dec_spec mx line n \<and> dec_spec mx line n \<le> mx"
  using dec_value_nonneg [of "take n line"] by (auto simp: dec_spec_def)

lemma dec_spec_nonneg_iff:
  "0 \<le> dec_spec mx line n \<longleftrightarrow>
     0 < n \<and> n \<le> length line \<and> list_all is_digit (take n line) \<and> dec_value (take n line) \<le> mx"
  using dec_value_nonneg [of "take n line"] by (auto simp: dec_spec_def)

section \<open>Hexadecimal numbers\<close>

definition hex_digit :: "int \<Rightarrow> int option" where
  \<comment> \<open>the two tests of the loop body; \<open>ch | 0x20\<close> folds the case of a letter\<close>
  "hex_digit ch =
     (if 48 \<le> ch \<and> ch \<le> 57 then Some (ch - 48)
      else let c = ch OR 32
           in if 97 \<le> c \<and> c \<le> 102 then Some (c - 97 + 10) else None)"

fun hextoi_loop :: "int \<Rightarrow> int \<Rightarrow> string \<Rightarrow> nat \<Rightarrow> int" where
  "hextoi_loop cutoff val line 0 = val"
| "hextoi_loop cutoff val line (Suc n) =
     (if val > cutoff then NGX_ERROR
      else case hex_digit (chd line) of
             None \<Rightarrow> NGX_ERROR
           | Some d \<Rightarrow> hextoi_loop cutoff (val * 16 + d) (tl line) n)"

definition ngx_hextoi :: "string \<Rightarrow> nat \<Rightarrow> int" where
  "ngx_hextoi line n =
     (if n = 0 then NGX_ERROR else hextoi_loop (NGX_MAX_INT_T_VALUE div 16) 0 line n)"

definition hex_chars :: string where
  "hex_chars = ''0123456789abcdef''"

definition hex_dump_byte :: "char \<Rightarrow> string" where
  "hex_dump_byte c =
     [hex_chars ! unat (drop_bit 4 (word_of_int (cval c) :: u_char)),
      hex_chars ! unat ((word_of_int (cval c) :: u_char) AND 0xf)]"

definition ngx_hex_dump :: "string \<Rightarrow> nat \<Rightarrow> string" where
  \<comment> \<open>the characters written to \<open>dst\<close>\<close>
  "ngx_hex_dump src len = concat (map hex_dump_byte (take len src))"

section \<open>Fixed point numbers\<close>

fun atofp_loop :: "int \<Rightarrow> int \<Rightarrow> int \<Rightarrow> bool \<Rightarrow> nat \<Rightarrow> string \<Rightarrow> nat \<Rightarrow> (int \<times> nat) option" where
  \<comment> \<open>the value and what is left of \<open>point\<close> after the loop, \<open>None\<close> for an error return\<close>
  "atofp_loop cutoff cutlim val dot point line 0 = Some (val, point)"
| "atofp_loop cutoff cutlim val dot point line (Suc n) =
     (let c = chd line
      in if point = 0 then None
         else if c = 46 then
           (if dot then None
            else atofp_loop cutoff cutlim val True point (tl line) n)
         else if c < 48 \<or> c > 57 then None
         else if val \<ge> cutoff \<and> (val > cutoff \<or> c - 48 > cutlim) then None
         else atofp_loop cutoff cutlim (val * 10 + (c - 48)) dot
                (point - (if dot then 1 else 0)) (tl line) n)"

fun atofp_scale :: "int \<Rightarrow> int \<Rightarrow> nat \<Rightarrow> int" where
  \<comment> \<open>the second loop: multiply by ten for every missing fractional digit\<close>
  "atofp_scale cutoff val 0 = val"
| "atofp_scale cutoff val (Suc point) =
     (if val > cutoff then NGX_ERROR else atofp_scale cutoff (val * 10) point)"

definition ngx_atofp :: "string \<Rightarrow> nat \<Rightarrow> nat \<Rightarrow> int" where
  "ngx_atofp line n point =
     (if n = 0 then NGX_ERROR
      else case atofp_loop (NGX_MAX_INT_T_VALUE div 10) (NGX_MAX_INT_T_VALUE mod 10)
                  0 False point line n of
             None \<Rightarrow> NGX_ERROR
           | Some (val, left) \<Rightarrow> atofp_scale (NGX_MAX_INT_T_VALUE div 10) val left)"

section \<open>Sizes and offsets\<close>

definition size_unit :: "int \<Rightarrow> int \<Rightarrow> (int \<times> int) option" where
  \<comment> \<open>the suffixes of \<open>ngx_parse_size\<close>: the largest number and the scale\<close>
  "size_unit mx unit =
     (if unit = 75 \<or> unit = 107 then Some (mx div 1024, 1024)
      else if unit = 77 \<or> unit = 109 then Some (mx div (1024 * 1024), 1024 * 1024)
      else None)"

definition ngx_parse_size :: "string \<Rightarrow> int" where
  "ngx_parse_size line =
     (let len = length line
      in if len = 0 then NGX_ERROR
         else let (mx, scale, len) =
                (case size_unit NGX_MAX_SIZE_T_VALUE (cval (line ! (len - 1))) of
                   Some (mx, scale) \<Rightarrow> (mx, scale, len - 1)
                 | None \<Rightarrow> (NGX_MAX_SIZE_T_VALUE, 1, len));
              size = ngx_atosz line len
         in if size = NGX_ERROR \<or> size > mx then NGX_ERROR else size * scale)"

definition offset_unit :: "int \<Rightarrow> int \<Rightarrow> (int \<times> int) option" where
  "offset_unit mx unit =
     (if unit = 75 \<or> unit = 107 then Some (mx div 1024, 1024)
      else if unit = 77 \<or> unit = 109 then Some (mx div (1024 * 1024), 1024 * 1024)
      else if unit = 71 \<or> unit = 103
        then Some (mx div (1024 * 1024 * 1024), 1024 * 1024 * 1024)
      else None)"

definition ngx_parse_offset :: "string \<Rightarrow> int" where
  "ngx_parse_offset line =
     (let len = length line
      in if len = 0 then NGX_ERROR
         else let (mx, scale, len) =
                (case offset_unit NGX_MAX_OFF_T_VALUE (cval (line ! (len - 1))) of
                   Some (mx, scale) \<Rightarrow> (mx, scale, len - 1)
                 | None \<Rightarrow> (NGX_MAX_OFF_T_VALUE, 1, len));
              offset = ngx_atoof line len
         in if offset = NGX_ERROR \<or> offset > mx then NGX_ERROR else offset * scale)"

section \<open>Times\<close>

datatype time_step =
  St_start | St_year | St_month | St_week | St_day | St_hour | St_min | St_sec | St_msec | St_last

fun step_num :: "time_step \<Rightarrow> nat" where
  \<comment> \<open>the values of the enumeration\<close>
  "step_num St_start = 0" | "step_num St_year = 1" | "step_num St_month = 2"
| "step_num St_week = 3" | "step_num St_day = 4" | "step_num St_hour = 5"
| "step_num St_min = 6" | "step_num St_sec = 7" | "step_num St_msec = 8"
| "step_num St_last = 9"

lemma step_num_inj: "step_num a = step_num b \<Longrightarrow> a = b"
  by (cases a; cases b; simp only: step_num.simps)

instantiation time_step :: linorder
begin

definition less_eq_time_step :: "time_step \<Rightarrow> time_step \<Rightarrow> bool" where
  "less_eq_time_step a b \<longleftrightarrow> step_num a \<le> step_num b"

definition less_time_step :: "time_step \<Rightarrow> time_step \<Rightarrow> bool" where
  "less_time_step a b \<longleftrightarrow> step_num a < step_num b"

instance
proof
  fix a b c :: time_step
  show "(a < b) = (a \<le> b \<and> \<not> b \<le> a)" "a \<le> a" "a \<le> b \<or> b \<le> a"
    unfolding less_eq_time_step_def less_time_step_def by linarith+
  show "a \<le> b \<Longrightarrow> b \<le> c \<Longrightarrow> a \<le> c"
    unfolding less_eq_time_step_def by linarith
  show "a \<le> b \<Longrightarrow> b \<le> a \<Longrightarrow> a = b"
    unfolding less_eq_time_step_def by (rule step_num_inj) linarith
qed

end

definition time_unit ::
  "bool \<Rightarrow> time_step \<Rightarrow> char \<Rightarrow> string \<Rightarrow> (time_step \<times> int \<times> int \<times> string) option" where
  \<comment> \<open>the \<open>switch\<close> on the unit character: the next step, the largest value, the scale and
    the rest of the line; \<open>None\<close> for an error return\<close>
  "time_unit is_sec step c rest =
     (let big = NGX_MAX_INT_T_VALUE
      in if c = CHR ''y'' then
           (if step > St_start then None
            else Some (St_year, big div (60 * 60 * 24 * 365), 60 * 60 * 24 * 365, rest))
         else if c = CHR ''M'' then
           (if step \<ge> St_month then None
            else Some (St_month, big div (60 * 60 * 24 * 30), 60 * 60 * 24 * 30, rest))
         else if c = CHR ''w'' then
           (if step \<ge> St_week then None
            else Some (St_week, big div (60 * 60 * 24 * 7), 60 * 60 * 24 * 7, rest))
         else if c = CHR ''d'' then
           (if step \<ge> St_day then None
            else Some (St_day, big div (60 * 60 * 24), 60 * 60 * 24, rest))
         else if c = CHR ''h'' then
           (if step \<ge> St_hour then None
            else Some (St_hour, big div (60 * 60), 60 * 60, rest))
         else if c = CHR ''m'' then
           (case rest of
              d # rest' \<Rightarrow>
                if d = CHR ''s'' then
                  (if is_sec \<or> step \<ge> St_msec then None else Some (St_msec, big, 1, rest'))
                else if step \<ge> St_min then None
                else Some (St_min, big div 60, 60, rest)
            | [] \<Rightarrow> if step \<ge> St_min then None else Some (St_min, big div 60, 60, rest))
         else if c = CHR ''s'' then
           (if step \<ge> St_sec then None else Some (St_sec, big, 1, rest))
         else if c = CHR '' '' then
           (if step \<ge> St_sec then None else Some (St_last, big, 1, rest))
         else None)"

definition time_scaled ::
  "bool \<Rightarrow> time_step \<times> int \<times> int \<times> string \<Rightarrow> time_step \<times> int \<times> int \<times> string" where
  \<comment> \<open>unless seconds are asked for, every unit but milliseconds counts a thousandfold\<close>
  "time_scaled is_sec u = (case u of (step, mx, scale, rest) \<Rightarrow>
     if step \<noteq> St_msec \<and> \<not> is_sec then (step, mx div 1000, scale * 1000, rest) else u)"

definition skip_spaces :: "string \<Rightarrow> string" where
  "skip_spaces = dropWhile (\<lambda>c. c = CHR '' '')"

definition parse_time_end :: "bool \<Rightarrow> int \<Rightarrow> int \<Rightarrow> bool \<Rightarrow> int" where
  \<comment> \<open>what follows the loop\<close>
  "parse_time_end is_sec val tot valid =
     (if \<not> valid then NGX_ERROR
      else if \<not> is_sec \<and> val > NGX_MAX_INT_T_VALUE div 1000 then NGX_ERROR
      else let val = (if is_sec then val else val * 1000)
           in if tot > NGX_MAX_INT_T_VALUE - val then NGX_ERROR else tot + val)"

lemma time_unit_rest: "time_unit is_sec step c rest = Some (st, mx, sc, r) \<Longrightarrow> length r \<le> length rest"
  by (auto simp: time_unit_def Let_def split: if_splits list.splits)

lemma length_skip_spaces [simp]: "length (skip_spaces s) \<le> length s"
  by (simp add: skip_spaces_def length_dropWhile_le)

function parse_time_loop ::
  "bool \<Rightarrow> time_step \<Rightarrow> int \<Rightarrow> int \<Rightarrow> bool \<Rightarrow> string \<Rightarrow> int" where
  "parse_time_loop is_sec step val tot valid [] = parse_time_end is_sec val tot valid"
| "parse_time_loop is_sec step val tot valid (c # rest) =
     (if 48 \<le> cval c \<and> cval c \<le> 57 then
        (if val \<ge> NGX_MAX_INT_T_VALUE div 10 \<and>
            (val > NGX_MAX_INT_T_VALUE div 10 \<or> cval c - 48 > NGX_MAX_INT_T_VALUE mod 10)
         then NGX_ERROR
         else parse_time_loop is_sec step (val * 10 + (cval c - 48)) tot True rest)
      else case map_option (time_scaled is_sec) (time_unit is_sec step c rest) of
             None \<Rightarrow> NGX_ERROR
           | Some (step, mx, scale, rest) \<Rightarrow>
               if val > mx then NGX_ERROR
               else if tot > NGX_MAX_INT_T_VALUE - val * scale then NGX_ERROR
               else parse_time_loop is_sec step 0 (tot + val * scale) valid (skip_spaces rest))"
  by pat_completeness auto
termination
  by (relation "measure (\<lambda>(is_sec, step, val, tot, valid, line). length line)")
    (auto dest!: time_unit_rest simp: less_Suc_eq_le time_scaled_def split: if_splits
      intro: order_trans [OF length_skip_spaces])

definition ngx_parse_time :: "string \<Rightarrow> bool \<Rightarrow> int" where
  "ngx_parse_time line is_sec =
     parse_time_loop is_sec (if is_sec then St_start else St_month) 0 0 False line"

section \<open>Correctness of the hexadecimal parser\<close>

definition is_hex :: "char \<Rightarrow> bool" where
  "is_hex c \<longleftrightarrow> hex_digit (cval c) \<noteq> None"

definition hex_value_from :: "int \<Rightarrow> string \<Rightarrow> int" where
  "hex_value_from v s = foldl (\<lambda>a c. a * 16 + the (hex_digit (cval c))) v s"

abbreviation hex_value :: "string \<Rightarrow> int" where
  "hex_value \<equiv> hex_value_from 0"

lemma hex_value_from_simps [simp]:
  "hex_value_from v [] = v"
  "hex_value_from v (c # s) = hex_value_from (v * 16 + the (hex_digit (cval c))) s"
  "hex_value_from v (s @ t) = hex_value_from (hex_value_from v s) t"
  by (simp_all add: hex_value_from_def)

lemma hex_digit_bounds: "hex_digit c = Some d \<Longrightarrow> 0 \<le> d \<and> d \<le> 15"
  by (auto simp: hex_digit_def Let_def split: if_splits)

lemma hex_digit_0 [simp]: "hex_digit 0 = None"
  by (simp add: hex_digit_def)

lemma hex_value_from_mono:
  "list_all is_hex s \<Longrightarrow> 0 \<le> v \<Longrightarrow> v \<le> hex_value_from v s"
proof (induction s arbitrary: v)
  case Nil
  then show ?case by simp
next
  case (Cons c s)
  then obtain d where d: "hex_digit (cval c) = Some d" by (auto simp: is_hex_def)
  have "v \<le> v * 16 + d" using Cons.prems hex_digit_bounds [OF d] by linarith
  also have "\<dots> \<le> hex_value_from (v * 16 + d) s"
    using Cons.prems hex_digit_bounds [OF d] by (intro Cons.IH) auto
  finally show ?case using d by simp
qed

lemma hextoi_loop_correct:
  assumes "0 \<le> v" "v \<le> NGX_MAX_INT_T_VALUE"
  shows "hextoi_loop (NGX_MAX_INT_T_VALUE div 16) v line n =
    (if n \<le> length line \<and> list_all is_hex (take n line) \<and>
        hex_value_from v (take n line) \<le> NGX_MAX_INT_T_VALUE
     then hex_value_from v (take n line) else NGX_ERROR)"
  using assms
proof (induction n arbitrary: v line)
  case 0
  then show ?case by simp
next
  case (Suc n)
  show ?case
  proof (cases line)
    case Nil
    then show ?thesis by simp
  next
    case (Cons c s)
    show ?thesis
    proof (cases "hex_digit (cval c)")
      case None
      with Cons show ?thesis by (simp add: is_hex_def)
    next
      case (Some d)
      note d = hex_digit_bounds [OF Some]
      let ?v = "v * 16 + d"
      show ?thesis
      proof (cases "v > NGX_MAX_INT_T_VALUE div 16")
        case True
        have "list_all is_hex (take n s) \<Longrightarrow> NGX_MAX_INT_T_VALUE < hex_value_from ?v (take n s)"
          using hex_value_from_mono [of "take n s" ?v] True d Suc.prems by simp
        with True Cons Some show ?thesis by auto
      next
        case False
        then have "hextoi_loop (NGX_MAX_INT_T_VALUE div 16) v line (Suc n) =
            hextoi_loop (NGX_MAX_INT_T_VALUE div 16) ?v s n"
          using Cons Some by simp
        also have "\<dots> = (if n \<le> length s \<and> list_all is_hex (take n s) \<and>
            hex_value_from ?v (take n s) \<le> NGX_MAX_INT_T_VALUE
          then hex_value_from ?v (take n s) else NGX_ERROR)"
          using Suc.prems False d by (intro Suc.IH) auto
        moreover have "is_hex c" using Some by (simp add: is_hex_def)
        ultimately show ?thesis using Cons Some by simp
      qed
    qed
  qed
qed

lemma ngx_hextoi_correct:
  "ngx_hextoi line n =
    (if 0 < n \<and> n \<le> length line \<and> list_all is_hex (take n line) \<and>
        hex_value (take n line) \<le> NGX_MAX_INT_T_VALUE
     then hex_value (take n line) else NGX_ERROR)"
  using hextoi_loop_correct [of 0 line n] by (simp add: ngx_hextoi_def)

text \<open>\<open>ngx_hex_dump\<close> writes two digits per byte that \<open>ngx_hextoi\<close> reads back.\<close>

definition be_value :: "string \<Rightarrow> int" where
  \<comment> \<open>the bytes read as a big-endian number\<close>
  "be_value s = foldl (\<lambda>a c. a * 256 + cval c) 0 s"

lemma hex_digit_hex_chars: "k < 16 \<Longrightarrow> hex_digit (cval (hex_chars ! k)) = Some (int k)"
proof -
  assume "k < 16"
  then have "k = 0 \<or> k = 1 \<or> k = 2 \<or> k = 3 \<or> k = 4 \<or> k = 5 \<or> k = 6 \<or> k = 7 \<or>
      k = 8 \<or> k = 9 \<or> k = 10 \<or> k = 11 \<or> k = 12 \<or> k = 13 \<or> k = 14 \<or> k = 15"
    by presburger
  then show ?thesis
    by (elim disjE) (simp_all add: hex_chars_def hex_digit_def cval_def)
qed

lemma hex_dump_byte_value:
  "list_all is_hex (hex_dump_byte c)"
  "hex_value_from v (hex_dump_byte c) = v * 256 + cval c"
proof -
  let ?w = "word_of_int (cval c) :: u_char"
  have u: "uint ?w = cval c" by (simp add: uint_word_of_int)
  have n: "int (unat ?w) = cval c" using u by simp
  have hi: "unat (drop_bit 4 ?w) = unat ?w div 16"
    by (simp add: drop_bit_eq_div unat_div_distrib)
  have lo: "unat (?w AND 0xf) = unat ?w mod 16"
  proof -
    have "?w AND 0xf = take_bit 4 ?w" by (simp add: take_bit_eq_mask mask_eq_exp_minus_1)
    then show ?thesis by (simp add: take_bit_eq_mod unat_mod_distrib)
  qed
  have "unat ?w < 256" using cval_bounds(2) [of c] n by linarith
  then have k: "unat ?w div 16 < 16" "unat ?w mod 16 < 16" by auto
  show "list_all is_hex (hex_dump_byte c)"
    using k by (simp add: hex_dump_byte_def hi lo is_hex_def hex_digit_hex_chars)
  have "hex_value_from v (hex_dump_byte c) = (v * 16 + int (unat ?w div 16)) * 16 + int (unat ?w mod 16)"
    using k by (simp add: hex_dump_byte_def hi lo hex_digit_hex_chars)
  also have "\<dots> = v * 256 + int (16 * (unat ?w div 16) + unat ?w mod 16)"
    by (simp only: of_nat_add of_nat_mult) simp
  finally show "hex_value_from v (hex_dump_byte c) = v * 256 + cval c" using n by simp
qed

lemma hex_dump_value_from:
  "list_all is_hex (concat (map hex_dump_byte s)) \<and>
   hex_value_from v (concat (map hex_dump_byte s)) = foldl (\<lambda>a c. a * 256 + cval c) v s"
  by (induction s arbitrary: v) (simp_all add: hex_dump_byte_value)

lemma length_hex_dump_bytes: "length (concat (map hex_dump_byte s)) = 2 * length s"
  by (induction s) (simp_all add: hex_dump_byte_def)

section \<open>Correctness of the size parser\<close>

definition size_scale :: "char \<Rightarrow> int" where
  "size_scale u = (if u \<in> {CHR ''K'', CHR ''k''} then 1024
    else if u \<in> {CHR ''M'', CHR ''m''} then 1024 * 1024 else 1)"

lemma size_unit_scale:
  "size_unit NGX_MAX_SIZE_T_VALUE (cval u) =
    (if size_scale u = 1 then None
     else Some (NGX_MAX_SIZE_T_VALUE div size_scale u, size_scale u))"
proof -
  have "cval u = 75 \<longleftrightarrow> u = CHR ''K''" "cval u = 107 \<longleftrightarrow> u = CHR ''k''"
    "cval u = 77 \<longleftrightarrow> u = CHR ''M''" "cval u = 109 \<longleftrightarrow> u = CHR ''m''"
    using cval_eq_iff [of u "CHR ''K''"] cval_eq_iff [of u "CHR ''k''"]
      cval_eq_iff [of u "CHR ''M''"] cval_eq_iff [of u "CHR ''m''"]
    by (simp_all add: cval_def)
  then show ?thesis by (simp add: size_unit_def size_scale_def)
qed

lemma le_div_scale:
  fixes x m k :: int
  assumes "0 < k"
  shows "x \<le> m div k \<longleftrightarrow> x * k \<le> m"
proof
  assume "x \<le> m div k"
  then have "x * k \<le> m div k * k" using assms by simp
  also have "\<dots> \<le> m" using assms pos_mod_sign [of k m] div_mult_mod_eq [of m k] by linarith
  finally show "x * k \<le> m" .
next
  assume "x * k \<le> m"
  then have "x * k div k \<le> m div k" using assms by (intro zdiv_mono1) auto
  with assms show "x \<le> m div k" by simp
qed

lemma ngx_parse_size_scaled:
  assumes "size_scale u \<noteq> 1"
  shows "ngx_parse_size (ds @ [u]) =
    (if ds \<noteq> [] \<and> list_all is_digit ds \<and> dec_value ds * size_scale u \<le> NGX_MAX_SIZE_T_VALUE
     then dec_value ds * size_scale u else NGX_ERROR)"
proof -
  have sc: "1024 \<le> size_scale u" using assms by (auto simp: size_scale_def split: if_splits)
  let ?size = "ngx_atosz (ds @ [u]) (length ds)"
  have val: "?size = (if ds \<noteq> [] \<and> list_all is_digit ds \<and> dec_value ds \<le> NGX_MAX_SIZE_T_VALUE
      then dec_value ds else NGX_ERROR)"
    by (auto simp: ngx_atosz_dec_spec dec_spec_def)
  have le: "x \<le> NGX_MAX_SIZE_T_VALUE div size_scale u \<longleftrightarrow> x * size_scale u \<le> NGX_MAX_SIZE_T_VALUE" for x
    using sc by (intro le_div_scale) simp
  have fit: "list_all is_digit ds \<Longrightarrow> dec_value ds * size_scale u \<le> NGX_MAX_SIZE_T_VALUE \<Longrightarrow>
      dec_value ds \<le> NGX_MAX_SIZE_T_VALUE"
    using sc dec_value_nonneg [of ds] mult_left_mono [of 1 "size_scale u" "dec_value ds"] by simp
  have "ngx_parse_size (ds @ [u]) =
      (if ?size = NGX_ERROR \<or> ?size * size_scale u > NGX_MAX_SIZE_T_VALUE then NGX_ERROR
       else ?size * size_scale u)"
    using assms by (simp add: ngx_parse_size_def size_unit_scale Let_def nth_append not_le [symmetric] le)
  then show ?thesis using val fit dec_value_nonneg [of ds] by auto
qed

lemma ngx_parse_size_plain:
  assumes "size_scale u = 1"
  shows "ngx_parse_size (ds @ [u]) = dec_spec NGX_MAX_SIZE_T_VALUE (ds @ [u]) (length ds + 1)"
  using assms dec_spec_bounds [of NGX_MAX_SIZE_T_VALUE "ds @ [u]" "Suc (length ds)"]
  by (auto simp: ngx_parse_size_def size_unit_scale Let_def ngx_atosz_dec_spec)

section \<open>Correctness of the time parser\<close>

lemmas time_step_less [simp] = less_time_step_def less_eq_time_step_def

lemma time_unit_scale:
  "time_unit is_sec step c rest = Some (st, mx, sc, r) \<Longrightarrow>
   0 < sc \<and> mx = NGX_MAX_INT_T_VALUE div sc"
  by (auto simp: time_unit_def Let_def split: if_splits list.splits)

lemma time_unit_fits:
  assumes "map_option (time_scaled is_sec) (time_unit is_sec step c rest) = Some (st, mx, sc, r)"
    and "\<not> val > mx" "0 \<le> val"
  shows "0 \<le> val * sc \<and> val * sc \<le> NGX_MAX_INT_T_VALUE"
proof -
  obtain st' mx' sc' r' where u: "time_unit is_sec step c rest = Some (st', mx', sc', r')"
    and v: "time_scaled is_sec (st', mx', sc', r') = (st, mx, sc, r)"
    using assms(1) by (auto simp: map_option_case split: option.splits)
  have sc': "0 < sc'" "mx' = NGX_MAX_INT_T_VALUE div sc'" using time_unit_scale [OF u] by auto
  have "NGX_MAX_INT_T_VALUE div sc' div 1000 = NGX_MAX_INT_T_VALUE div (sc' * 1000)"
    by (rule zdiv_zmult2_eq [symmetric]) simp
  with v sc' have "0 < sc \<and> mx = NGX_MAX_INT_T_VALUE div sc"
    by (auto simp: time_scaled_def split: if_splits)
  with assms(2,3) show ?thesis using le_div_scale [of sc val NGX_MAX_INT_T_VALUE] by auto
qed

lemma parse_time_end_bounds:
  "0 \<le> val \<Longrightarrow> 0 \<le> tot \<Longrightarrow>
   -1 \<le> parse_time_end is_sec val tot valid \<and>
   parse_time_end is_sec val tot valid \<le> NGX_MAX_INT_T_VALUE"
  by (auto simp: parse_time_end_def Let_def)

lemma parse_time_loop_bounds:
  "0 \<le> val \<Longrightarrow> 0 \<le> tot \<Longrightarrow> tot \<le> NGX_MAX_INT_T_VALUE \<Longrightarrow>
   -1 \<le> parse_time_loop is_sec step val tot valid line \<and>
   parse_time_loop is_sec step val tot valid line \<le> NGX_MAX_INT_T_VALUE"
proof (induction is_sec step val tot valid line rule: parse_time_loop.induct)
  case (1 is_sec step val tot valid)
  then show ?case using parse_time_end_bounds by simp
next
  case (2 is_sec step val tot valid c rest)
  show ?case
  proof (cases "48 \<le> cval c \<and> cval c \<le> 57")
    case True
    with "2.IH"(1) "2.prems" show ?thesis by simp
  next
    case False
    show ?thesis
    proof (cases "map_option (time_scaled is_sec) (time_unit is_sec step c rest)")
      case None
      with False show ?thesis by auto
    next
      case (Some q)
      obtain st mx sc r where q: "q = (st, mx, sc, r)" by (cases q)
      note some = Some [unfolded q]
      have eq: "parse_time_loop is_sec step val tot valid (c # rest) =
          (if val > mx then NGX_ERROR
           else if tot > NGX_MAX_INT_T_VALUE - val * sc then NGX_ERROR
           else parse_time_loop is_sec st 0 (tot + val * sc) valid (skip_spaces r))"
        using False some by auto
      show ?thesis
      proof (cases "val > mx \<or> tot > NGX_MAX_INT_T_VALUE - val * sc")
        case True
        then show ?thesis unfolding eq by auto
      next
        case fits: False
        then have "0 \<le> val * sc"
          using time_unit_fits [OF some] "2.prems" by blast
        with "2.IH"(2) [OF False some refl refl refl] fits "2.prems"
        show ?thesis unfolding eq by simp
      qed
    qed
  qed
qed

text \<open>A run of digits is read into \<open>value\<close>.\<close>

lemma parse_time_digits:
  assumes "list_all is_digit ds" "0 \<le> v" "dec_value_from v ds \<le> NGX_MAX_INT_T_VALUE"
  shows "parse_time_loop is_sec step v tot valid (ds @ rest) =
    parse_time_loop is_sec step (dec_value_from v ds) tot (valid \<or> ds \<noteq> []) rest"
  using assms
proof (induction ds arbitrary: v valid)
  case Nil
  then show ?case by simp
next
  case (Cons c ds)
  then have c: "48 \<le> cval c" "cval c \<le> 57" by (auto simp: is_digit_def)
  let ?v = "v * 10 + (cval c - 48)"
  have "?v \<le> dec_value_from ?v ds"
    using Cons.prems c by (intro dec_value_from_mono) auto
  then have "?v \<le> NGX_MAX_INT_T_VALUE" using Cons.prems by simp
  then have "\<not> (v \<ge> NGX_MAX_INT_T_VALUE div 10 \<and>
      (v > NGX_MAX_INT_T_VALUE div 10 \<or> cval c - 48 > NGX_MAX_INT_T_VALUE mod 10))"
    by (subst overflow_guard) (use c in auto)
  then have "parse_time_loop is_sec step v tot valid ((c # ds) @ rest) =
      parse_time_loop is_sec step ?v tot True (ds @ rest)"
    using c by (simp only: append_Cons parse_time_loop.simps) simp
  also have "\<dots> = parse_time_loop is_sec step (dec_value_from ?v ds) tot (True \<or> ds \<noteq> []) rest"
    using Cons.prems c by (intro Cons.IH) auto
  finally show ?case by simp
qed

text \<open>
  The reference for times in seconds: a list of numbers with their units, the units from
  the largest to the smallest, stands for the sum of the numbers scaled.
\<close>

definition unit_step :: "char \<Rightarrow> time_step option" where
  "unit_step u = map_of
     [(CHR ''y'', St_year), (CHR ''M'', St_month), (CHR ''w'', St_week), (CHR ''d'', St_day),
      (CHR ''h'', St_hour), (CHR ''m'', St_min), (CHR ''s'', St_sec)] u"

definition unit_secs :: "char \<Rightarrow> int" where
  "unit_secs u =
     (if u = CHR ''y'' then 31536000 else if u = CHR ''M'' then 2592000
      else if u = CHR ''w'' then 604800 else if u = CHR ''d'' then 86400
      else if u = CHR ''h'' then 3600 else if u = CHR ''m'' then 60 else 1)"

fun time_items :: "time_step \<Rightarrow> (string \<times> char) list \<Rightarrow> bool" where
  \<comment> \<open>well-formed items whose units come after the given step\<close>
  "time_items step [] = True"
| "time_items step ((ds, u) # items) =
     (ds \<noteq> [] \<and> list_all is_digit ds \<and>
      (case unit_step u of None \<Rightarrow> False | Some st \<Rightarrow> step < st \<and> time_items st items))"

definition render_items :: "(string \<times> char) list \<Rightarrow> string" where
  "render_items items = concat (map (\<lambda>(ds, u). ds @ [u]) items)"

definition items_secs :: "(string \<times> char) list \<Rightarrow> int" where
  "items_secs items = sum_list (map (\<lambda>(ds, u). dec_value ds * unit_secs u) items)"

lemma unit_secs_pos: "0 < unit_secs u"
  by (simp add: unit_secs_def)

lemma items_secs_nonneg: "time_items step items \<Longrightarrow> 0 \<le> items_secs items"
proof (induction step items rule: time_items.induct)
  case (2 step ds u items)
  then have "0 \<le> dec_value ds * unit_secs u"
    using dec_value_nonneg [of ds] unit_secs_pos [of u] by simp
  with 2 show ?case by (auto simp: items_secs_def split: option.splits)
qed (simp add: items_secs_def)

lemma time_unit_secs:
  assumes "unit_step u = Some st" "step < st" "rest = [] \<or> is_digit (hd rest)"
  shows "time_unit True step u rest =
    Some (st, NGX_MAX_INT_T_VALUE div unit_secs u, unit_secs u, rest)"
proof -
  have "rest = [] \<or> hd rest \<noteq> CHR ''s''"
    using assms(3) by (auto simp: is_digit_def cval_def)
  then show ?thesis
    using assms(1,2)
    by (cases step; cases rest)
      (auto simp: unit_step_def unit_secs_def time_unit_def split: if_splits)
qed

lemma render_items_start:
  "time_items step items \<Longrightarrow> render_items items = [] \<or> is_digit (hd (render_items items))"
  by (induction step items rule: time_items.induct)
    (auto simp: render_items_def neq_Nil_conv)

lemma parse_time_items:
  assumes "time_items step items" "0 \<le> tot" "tot + items_secs items \<le> NGX_MAX_INT_T_VALUE"
    "valid \<or> items \<noteq> []"
  shows "parse_time_loop True step 0 tot valid (render_items items) = tot + items_secs items"
  using assms
proof (induction step items arbitrary: tot valid rule: time_items.induct)
  case (1 step)
  then show ?case by (simp add: render_items_def items_secs_def parse_time_end_def)
next
  case (2 step ds u items)
  then obtain st where u: "unit_step u = Some st" "step < st" and ti: "time_items st items"
    and ds: "ds \<noteq> []" "list_all is_digit ds"
    by (auto split: option.splits)
  let ?v = "dec_value ds" and ?r = "render_items items"
  have sum: "items_secs ((ds, u) # items) = ?v * unit_secs u + items_secs items"
    by (simp add: items_secs_def)
  have v: "0 \<le> ?v" and "0 \<le> items_secs items"
    using dec_value_nonneg ds items_secs_nonneg [OF ti] by auto
  then have fit: "tot + ?v * unit_secs u \<le> NGX_MAX_INT_T_VALUE" and
    fit': "tot + ?v * unit_secs u + items_secs items \<le> NGX_MAX_INT_T_VALUE"
    using "2.prems" sum by auto
  have nn: "0 \<le> ?v * unit_secs u" using v unit_secs_pos [of u] by simp
  have "?v * 1 \<le> ?v * unit_secs u"
    using v unit_secs_pos [of u] by (intro mult_left_mono) auto
  then have "?v \<le> NGX_MAX_INT_T_VALUE" using fit "2.prems" by simp
  then have "parse_time_loop True step 0 tot valid (render_items ((ds, u) # items)) =
      parse_time_loop True step ?v tot True (u # ?r)"
    using parse_time_digits [of ds 0 True step tot valid "u # ?r"] ds
    by (simp add: render_items_def)
  also have "\<dots> = parse_time_loop True st 0 (tot + ?v * unit_secs u) True ?r"
  proof -
    have "time_unit True step u ?r =
        Some (st, NGX_MAX_INT_T_VALUE div unit_secs u, unit_secs u, ?r)"
      using u render_items_start [OF ti] by (intro time_unit_secs)
    moreover have "\<not> (48 \<le> cval u \<and> cval u \<le> 57)"
      using u(1) by (auto simp: unit_step_def cval_def split: if_splits)
    moreover have "\<not> ?v > NGX_MAX_INT_T_VALUE div unit_secs u"
      using le_div_scale [OF unit_secs_pos, of ?v NGX_MAX_INT_T_VALUE u] fit "2.prems"(2) by auto
    moreover have "skip_spaces ?r = ?r"
      using render_items_start [OF ti]
      by (cases ?r) (auto simp: skip_spaces_def is_digit_def cval_def)
    ultimately show ?thesis using fit by (auto simp: time_scaled_def)
  qed
  also have "\<dots> = tot + ?v * unit_secs u + items_secs items"
    using "2.IH" [OF u(1) ti] "2.prems" fit' nn by simp
  finally show ?case by (simp add: sum)
qed

section \<open>Properties\<close>

text \<open>C32. The four decimal parsers \<open>ngx_atoi\<close>, \<open>ngx_atosz\<close>, \<open>ngx_atoof\<close> and \<open>ngx_atotm\<close> return the
  value of the first \<open>n\<close> characters exactly when there are some, all of them are digits and the
  value fits the type, and \<open>NGX_ERROR\<close> in every other case: the guard on \<open>cutoff\<close> and \<open>cutlim\<close>
  rejects every overflow and nothing else.\<close>
theorem decimal_parsers_exact:
  "ngx_atoi line n = dec_spec NGX_MAX_INT_T_VALUE line n \<and>
   ngx_atosz line n = dec_spec NGX_MAX_SIZE_T_VALUE line n \<and>
   ngx_atoof line n = dec_spec NGX_MAX_OFF_T_VALUE line n \<and>
   ngx_atotm line n = dec_spec NGX_MAX_TIME_T_VALUE line n"
  by (simp add: ngx_atoi_dec_spec ngx_atosz_dec_spec ngx_atoof_dec_spec ngx_atotm_dec_spec)

text \<open>What \<open>ngx_hex_dump\<close> writes is read back by \<open>ngx_hextoi\<close> as the big-endian value of the
  dumped bytes, or refused when that value does not fit an \<open>ngx_int_t\<close>.\<close>
theorem hex_dump_roundtrip:
  assumes "s \<noteq> []"
  shows "ngx_hextoi (ngx_hex_dump s (length s)) (2 * length s) =
    (if be_value s \<le> NGX_MAX_INT_T_VALUE then be_value s else NGX_ERROR)"
proof -
  have "length (concat (map hex_dump_byte s)) = 2 * length s" by (rule length_hex_dump_bytes)
  then show ?thesis
    using assms hex_dump_value_from [of s 0]
    by (simp add: ngx_hextoi_correct ngx_hex_dump_def be_value_def)
qed

theorem hex_dump_roundtrip_witness:
  "ngx_hextoi (ngx_hex_dump [CHR 0x01, CHR 0xff] 2) 4 = 511"
  using hex_dump_roundtrip [of "[CHR 0x01, CHR 0xff]"] by (simp add: be_value_def cval_def eval_nat_numeral)

text \<open>A size with one of the suffixes of \<open>ngx_parse_size\<close> is its number of kilo- or megabytes in
  bytes, without overflow: a size that does not fit is an error, as is one without digits.\<close>
theorem parse_size_scaled:
  assumes "u \<in> {CHR ''k'', CHR ''K'', CHR ''m'', CHR ''M''}"
  shows "ngx_parse_size (ds @ [u]) =
    (let scale = (if u \<in> {CHR ''k'', CHR ''K''} then 1024 else 1048576)
     in if ds \<noteq> [] \<and> list_all is_digit ds \<and> dec_value ds * scale \<le> NGX_MAX_SIZE_T_VALUE
        then dec_value ds * scale else NGX_ERROR)"
proof -
  have "size_scale u = (if u \<in> {CHR ''k'', CHR ''K''} then 1024 else 1048576)" "size_scale u \<noteq> 1"
    using assms by (auto simp: size_scale_def)
  then show ?thesis using ngx_parse_size_scaled [of u ds] by simp
qed

theorem parse_size_scaled_witness: "ngx_parse_size (''10'' @ ''m'') = 10485760"
  using parse_size_scaled [of "CHR ''m''" "''10''"] by (simp add: is_digit_def cval_def)

text \<open>A time made of numbers with units from the largest to the smallest is, in seconds, the sum
  of the numbers scaled by their units, whenever that sum fits; the running total never overflows.\<close>
theorem parse_time_sum:
  assumes "items \<noteq> []" "time_items St_start items" "items_secs items \<le> NGX_MAX_INT_T_VALUE"
  shows "ngx_parse_time (render_items items) True = items_secs items"
  using parse_time_items [OF assms(2), of 0 False] assms(1,3) by (simp add: ngx_parse_time_def)

theorem parse_time_sum_witness: "ngx_parse_time ''1h30m5s'' True = 5405"
proof -
  let ?items = "[(''1'', CHR ''h''), (''30'', CHR ''m''), (''5'', CHR ''s'')]"
  have "items_secs ?items = 5405" by (simp add: items_secs_def unit_secs_def cval_def)
  moreover have "time_items St_start ?items"
    by (simp add: unit_step_def is_digit_def cval_def less_time_step_def)
  ultimately show ?thesis
    using parse_time_sum [of ?items] by (simp add: render_items_def)
qed

text \<open>On any input the result of \<open>ngx_parse_time\<close> is \<open>NGX_ERROR\<close> or a number of milliseconds or
  seconds an \<open>ngx_int_t\<close> holds.\<close>
theorem parse_time_range:
  "-1 \<le> ngx_parse_time line is_sec \<and> ngx_parse_time line is_sec \<le> NGX_MAX_INT_T_VALUE"
  using parse_time_loop_bounds [of 0 0 is_sec _ False line] by (simp add: ngx_parse_time_def)

end
