(* ===== verification/Limit_Req_Conf.thy ===== *)
theory Limit_Req_Conf
  imports Limit_Req Ngx_Number
begin

text \<open>
  The configuration of the request limiter: the directives \<open>limit_req_zone\<close> and
  \<open>limit_req\<close> of \<open>ngx_http_limit_req_module.c\<close> with their argument parsing, the list of
  shared memory zones of \<open>ngx_shared_memory_add\<close> in \<open>ngx_cycle.c\<close>, and the creation and
  merging of the location configuration.
\<close>

section \<open>Shared memory zones\<close>

record shm_zone =
  sz_name :: string
  sz_size :: nat
  sz_tag :: nat
  sz_data :: "lr_ctx option"

fun shm_find :: "string \<Rightarrow> nat \<Rightarrow> shm_zone list \<Rightarrow> nat option" where
  \<comment> \<open>the index of the zone of that name\<close>
  "shm_find name i [] = None"
| "shm_find name i (z # zs) =
     (if length name \<noteq> length (sz_name z) then shm_find name (Suc i) zs
      else if c_strncmp name (sz_name z) (length name) \<noteq> 0 then shm_find name (Suc i) zs
      else Some i)"

definition ngx_shared_memory_add ::
    "bool \<Rightarrow> string \<Rightarrow> nat \<Rightarrow> nat \<Rightarrow> shm_zone list \<Rightarrow> nat option \<times> shm_zone list" where
  \<comment> \<open>the zone's index and the zones; the first argument is the success of \<open>ngx_list_push\<close>\<close>
  "ngx_shared_memory_add push_ok name sz tag zones =
     (case shm_find name 0 zones of
        Some i \<Rightarrow>
          if tag \<noteq> sz_tag (zones ! i) then (None, zones)
          else
            let zones = (if sz_size (zones ! i) = 0
                         then zones[i := (zones ! i)\<lparr>sz_size := sz\<rparr>] else zones)
            in if sz \<noteq> 0 \<and> sz \<noteq> sz_size (zones ! i) then (None, zones) else (Some i, zones)
      | None \<Rightarrow>
          if push_ok then
            (Some (length zones),
             zones @ [\<lparr>sz_name = name, sz_size = sz, sz_tag = tag, sz_data = None\<rparr>])
          else (None, zones))"

section \<open>The directive \<open>limit_req_zone\<close>\<close>

datatype lr_conf_error =
    Out_Of_Memory | Bad_Key | Invalid_Zone_Size | Zone_Too_Small | Invalid_Rate
  | Invalid_Parameter | Missing_Zone | Zone_Conflict | Already_Bound
  | Invalid_Burst | Invalid_Delay | Is_Duplicate

record zone_args =
  za_size :: int
  za_rate :: int
  za_scale :: int
  za_name :: string

definition wrap_int :: "int \<Rightarrow> int" where
  \<comment> \<open>a signed 64-bit product, overflow wrapping around\<close>
  "wrap_int x = sint (word_of_int x :: 64 word)"

fun limit_req_zone_args ::
    "int \<Rightarrow> string list \<Rightarrow> zone_args \<Rightarrow> lr_conf_error + zone_args" where
  \<comment> \<open>the loop over \<open>value[2]\<close> and the following; the first argument is \<open>ngx_pagesize\<close>\<close>
  "limit_req_zone_args pagesize [] za = Inr za"
| "limit_req_zone_args pagesize (v # vs) za =
     (if c_strncmp v ''zone='' 5 = 0 then
        let name = drop 5 v
        in case c_strchr name CHR '':'' of
             None \<Rightarrow> Inl Invalid_Zone_Size
           | Some p \<Rightarrow>
               let size = ngx_parse_size (drop (Suc p) name)
               in if size = NGX_ERROR then Inl Invalid_Zone_Size
                  else if size < 8 * pagesize then Inl Zone_Too_Small
                  else limit_req_zone_args pagesize vs (za\<lparr>za_size := size, za_name := take p name\<rparr>)
      else if c_strncmp v ''rate='' 5 = 0 then
        let p = drop (length v - 3) v;
            (scale, len) = (if c_strncmp p ''r/s'' 3 = 0 then (1, length v - 3)
                            else if c_strncmp p ''r/m'' 3 = 0 then (60, length v - 3)
                            else (za_scale za, length v));
            rate = ngx_atoi (drop 5 v) (len - 5)
        in if rate \<le> 0 then Inl Invalid_Rate
           else limit_req_zone_args pagesize vs (za\<lparr>za_rate := rate, za_scale := scale\<rparr>)
      else Inl Invalid_Parameter)"

definition LIMIT_REQ_TAG :: nat where
  \<comment> \<open>\<open>&ngx_http_limit_req_module\<close>\<close>
  "LIMIT_REQ_TAG = 1"

definition ngx_http_limit_req_zone ::
    "bool \<Rightarrow> bool \<Rightarrow> bool \<Rightarrow> int \<Rightarrow> string list \<Rightarrow> shm_zone list \<Rightarrow>
     lr_conf_error + shm_zone list" where
  \<comment> \<open>the arguments after the directive's name; the flags are the success of the allocation of
      the context, of compiling the key, and of extending the list of zones\<close>
  "ngx_http_limit_req_zone alloc_ok compile_ok push_ok pagesize value zones =
     (if \<not> alloc_ok then Inl Out_Of_Memory
      else if \<not> compile_ok then Inl Bad_Key
      else
        case limit_req_zone_args pagesize (tl value)
               \<lparr>za_size = 0, za_rate = 1, za_scale = 1, za_name = []\<rparr> of
          Inl e \<Rightarrow> Inl e
        | Inr za \<Rightarrow>
            if za_name za = [] then Inl Missing_Zone
            else
              let rate = word_of_int (c_div (wrap_int (za_rate za * 1000)) (za_scale za));
                  ctx = \<lparr>ctx_sh = 0, ctx_rate = rate, ctx_key = hd value, ctx_node = None\<rparr>
              in case ngx_shared_memory_add push_ok (za_name za) (nat (za_size za)) LIMIT_REQ_TAG zones of
                   (None, zones) \<Rightarrow> Inl Zone_Conflict
                 | (Some i, zones) \<Rightarrow>
                     if sz_data (zones ! i) \<noteq> None then Inl Already_Bound
                     else Inr (zones[i := (zones ! i)\<lparr>sz_data := Some ctx\<rparr>]))"

section \<open>The directive \<open>limit_req\<close>\<close>

record req_args =
  ra_zone :: "nat option"
  ra_burst :: int
  ra_delay :: int

fun limit_req_args ::
    "bool \<Rightarrow> string list \<Rightarrow> req_args \<Rightarrow> shm_zone list \<Rightarrow> lr_conf_error + req_args \<times> shm_zone list" where
  "limit_req_args push_ok [] ra zones = Inr (ra, zones)"
| "limit_req_args push_ok (v # vs) ra zones =
     (if c_strncmp v ''zone='' 5 = 0 then
        (case ngx_shared_memory_add push_ok (drop 5 v) 0 LIMIT_REQ_TAG zones of
           (None, _) \<Rightarrow> Inl Zone_Conflict
         | (Some i, zones) \<Rightarrow> limit_req_args push_ok vs (ra\<lparr>ra_zone := Some i\<rparr>) zones)
      else if c_strncmp v ''burst='' 6 = 0 then
        let burst = ngx_atoi (drop 6 v) (length v - 6)
        in if burst \<le> 0 then Inl Invalid_Burst
           else limit_req_args push_ok vs (ra\<lparr>ra_burst := burst\<rparr>) zones
      else if c_strncmp v ''delay='' 6 = 0 then
        let delay = ngx_atoi (drop 6 v) (length v - 6)
        in if delay \<le> 0 then Inl Invalid_Delay
           else limit_req_args push_ok vs (ra\<lparr>ra_delay := delay\<rparr>) zones
      else if c_strcmp v ''nodelay'' = 0 then
        limit_req_args push_ok vs (ra\<lparr>ra_delay := NGX_MAX_INT_T_VALUE div 1000\<rparr>) zones
      else Inl Invalid_Parameter)"

definition ngx_http_limit_req ::
    "bool \<Rightarrow> bool \<Rightarrow> bool \<Rightarrow> string list \<Rightarrow> lr_conf \<Rightarrow> shm_zone list \<Rightarrow>
     lr_conf_error + lr_conf \<times> shm_zone list" where
  \<comment> \<open>the flags are the success of extending the list of zones, of creating and of extending
      the array of limits\<close>
  "ngx_http_limit_req push_ok array_ok array_push_ok value lrcf zones =
     (case limit_req_args push_ok value \<lparr>ra_zone = None, ra_burst = 0, ra_delay = 0\<rparr> zones of
        Inl e \<Rightarrow> Inl e
      | Inr (ra, zones) \<Rightarrow>
          case ra_zone ra of
            None \<Rightarrow> Inl Missing_Zone
          | Some z \<Rightarrow>
              if lc_limits lrcf = None \<and> \<not> array_ok then Inl Out_Of_Memory
              else
                let limits = (case lc_limits lrcf of None \<Rightarrow> [] | Some ls \<Rightarrow> ls)
                in if list_ex (\<lambda>l. z = lim_zone l) limits then Inl Is_Duplicate
                   else if \<not> array_push_ok then Inl Out_Of_Memory
                   else
                     let limit = \<lparr>lim_zone = z, lim_burst = word_of_int (ra_burst ra * 1000),
                                  lim_delay = word_of_int (ra_delay ra * 1000)\<rparr>
                     in Inr (lrcf\<lparr>lc_limits := Some (limits @ [limit])\<rparr>, zones))"

section \<open>The location configuration\<close>

abbreviation (input) NGX_CONF_UNSET :: int where "NGX_CONF_UNSET \<equiv> -1"
abbreviation (input) NGX_CONF_UNSET_UINT :: ngx_uint_t where "NGX_CONF_UNSET_UINT \<equiv> -1"
abbreviation (input) NGX_LOG_ERR :: ngx_uint_t where "NGX_LOG_ERR \<equiv> 4"
abbreviation (input) NGX_LOG_INFO :: ngx_uint_t where "NGX_LOG_INFO \<equiv> 7"
abbreviation (input) NGX_HTTP_SERVICE_UNAVAILABLE :: ngx_uint_t where
  "NGX_HTTP_SERVICE_UNAVAILABLE \<equiv> 503"

definition ngx_http_limit_req_create_conf :: "bool \<Rightarrow> lr_conf option" where
  "ngx_http_limit_req_create_conf alloc_ok =
     (if alloc_ok then
        Some \<lparr>lc_limits = None, lc_limit_log_level = NGX_CONF_UNSET_UINT, lc_delay_log_level = 0,
              lc_status_code = NGX_CONF_UNSET_UINT, lc_dry_run = NGX_CONF_UNSET\<rparr>
      else None)"

definition ngx_conf_merge_uint_value :: "ngx_uint_t \<Rightarrow> ngx_uint_t \<Rightarrow> ngx_uint_t \<Rightarrow> ngx_uint_t" where
  "ngx_conf_merge_uint_value conf prev dflt =
     (if conf = NGX_CONF_UNSET_UINT then if prev = NGX_CONF_UNSET_UINT then dflt else prev else conf)"

definition ngx_conf_merge_value :: "int \<Rightarrow> int \<Rightarrow> int \<Rightarrow> int" where
  "ngx_conf_merge_value conf prev dflt =
     (if conf = NGX_CONF_UNSET then if prev = NGX_CONF_UNSET then dflt else prev else conf)"

definition ngx_http_limit_req_merge_conf :: "lr_conf \<Rightarrow> lr_conf \<Rightarrow> lr_conf" where
  "ngx_http_limit_req_merge_conf prev conf =
     (let level = ngx_conf_merge_uint_value (lc_limit_log_level conf) (lc_limit_log_level prev) NGX_LOG_ERR
      in \<lparr>lc_limits = (case lc_limits conf of None \<Rightarrow> lc_limits prev | Some ls \<Rightarrow> Some ls),
          lc_limit_log_level = level,
          lc_delay_log_level = (if level = NGX_LOG_INFO then NGX_LOG_INFO else level + 1),
          lc_status_code = ngx_conf_merge_uint_value (lc_status_code conf) (lc_status_code prev)
                             NGX_HTTP_SERVICE_UNAVAILABLE,
          lc_dry_run = ngx_conf_merge_value (lc_dry_run conf) (lc_dry_run prev) 0\<rparr>)"

section \<open>What the directives accept\<close>

lemma strncmp_lit: "length p = n \<Longrightarrow> no_nul p \<Longrightarrow> c_strncmp v p n = 0 \<longleftrightarrow> take n v = p"
  using c_strncmp_prefix [of p v] by (simp del: c_strncmp.simps)

lemma prefix_tests:
  "c_strncmp v ''zone='' 5 = 0 \<longleftrightarrow> take 5 v = ''zone=''"
  "c_strncmp v ''rate='' 5 = 0 \<longleftrightarrow> take 5 v = ''rate=''"
  "c_strncmp v ''burst='' 6 = 0 \<longleftrightarrow> take 6 v = ''burst=''"
  "c_strncmp v ''delay='' 6 = 0 \<longleftrightarrow> take 6 v = ''delay=''"
  "c_strncmp v ''r/s'' 3 = 0 \<longleftrightarrow> take 3 v = ''r/s''"
  "c_strncmp v ''r/m'' 3 = 0 \<longleftrightarrow> take 3 v = ''r/m''"
  by (rule strncmp_lit; simp add: cval_def)+

definition rate_unit :: "string \<Rightarrow> int option" where
  "rate_unit u = (if u = ''r/s'' \<or> u = [] then Some 1 else if u = ''r/m'' then Some 60 else None)"

definition decimal :: "string \<Rightarrow> bool" where
  \<comment> \<open>a positive decimal number that fits an \<open>ngx_int_t\<close>\<close>
  "decimal ds \<longleftrightarrow> ds \<noteq> [] \<and> list_all is_digit ds \<and> 0 < dec_value ds \<and> dec_value ds \<le> NGX_MAX_INT_T_VALUE"

lemma decimal_atoi: "decimal ds \<Longrightarrow> ngx_atoi (ds @ u) (length ds) = dec_value ds"
  by (auto simp: decimal_def ngx_atoi_dec_spec dec_spec_def)

lemma last3_digits:
  assumes "list_all is_digit ds" "ds \<noteq> []"
  shows "take 3 (drop (length (''rate='' @ ds) - 3) (''rate='' @ ds)) \<noteq> ''r/s''"
    and "take 3 (drop (length (''rate='' @ ds) - 3) (''rate='' @ ds)) \<noteq> ''r/m''"
proof -
  let ?v = "''rate='' @ ds"
  let ?p = "drop (length ?v - 3) ?v"
  have len: "length ?p = 3" by simp
  have "last ?p = last ?v" by (rule last_drop) simp
  then have "last ?p = last ds" using assms(2) by simp
  then have d: "is_digit (last ?p)" using assms by (simp add: list_all_iff)
  have p: "take 3 ?p = ?p" using len by simp
  have no: "\<not> is_digit (last ''r/s'')" "\<not> is_digit (last ''r/m'')" by (simp_all add: is_digit_def cval_def)
  show "take 3 ?p \<noteq> ''r/s''" "take 3 ?p \<noteq> ''r/m''"
    using d no unfolding p by metis+
qed

lemma zone_args_rate:
  assumes "decimal ds" "rate_unit u = Some k"
  shows "limit_req_zone_args pg ((''rate='' @ ds @ u) # vs) za =
    limit_req_zone_args pg vs (za\<lparr>za_rate := dec_value ds,
      za_scale := (if u = [] then za_scale za else k)\<rparr>)"
proof -
  have dg: "list_all is_digit ds" "ds \<noteq> []" "0 < dec_value ds" using assms(1) by (auto simp: decimal_def)
  have zone: "c_strncmp (''rate='' @ ds @ u) ''zone='' 5 \<noteq> 0" by (simp only: prefix_tests) simp
  have rate: "c_strncmp (''rate='' @ ds @ u) ''rate='' 5 = 0" by (simp only: prefix_tests) simp
  consider "u = []" "k = 1" | "u = ''r/s''" "k = 1" | "u = ''r/m''" "k = 60"
    using assms(2) by (auto simp: rate_unit_def split: if_splits)
  then show ?thesis
  proof cases
    case 1
    have "ngx_atoi (drop 5 (''rate='' @ ds)) (length (''rate='' @ ds) - 5) = dec_value ds"
      using decimal_atoi [OF assms(1), of "[]"] by simp
    with last3_digits [OF dg(1,2)] zone rate dg(3) 1 show ?thesis
      by (simp add: Let_def prefix_tests del: c_strncmp.simps drop_append take_append length_append append.simps)
  next
    case 2
    have "ngx_atoi (drop 5 (''rate='' @ ds @ u)) (length (''rate='' @ ds @ u) - 3 - 5) = dec_value ds"
      using decimal_atoi [OF assms(1), of u] 2 by simp
    moreover have "drop (length (''rate='' @ ds @ u) - 3) (''rate='' @ ds @ u) = ''r/s''" using 2 by simp
    ultimately show ?thesis using zone rate dg(3) 2
      by (simp add: Let_def prefix_tests del: c_strncmp.simps)
  next
    case 3
    have "ngx_atoi (drop 5 (''rate='' @ ds @ u)) (length (''rate='' @ ds @ u) - 3 - 5) = dec_value ds"
      using decimal_atoi [OF assms(1), of u] 3 by simp
    moreover have "drop (length (''rate='' @ ds @ u) - 3) (''rate='' @ ds @ u) = ''r/m''" using 3 by simp
    ultimately show ?thesis using zone rate dg(3) 3
      by (simp add: Let_def prefix_tests del: c_strncmp.simps)
  qed
qed

lemma zone_args_zone:
  assumes "CHR '':'' \<notin> set name" "ngx_parse_size s = sz" "sz \<noteq> NGX_ERROR" "8 * pg \<le> sz"
  shows "limit_req_zone_args pg ((''zone='' @ name @ '':'' @ s) # vs) za =
    limit_req_zone_args pg vs (za\<lparr>za_size := sz, za_name := name\<rparr>)"
proof -
  have "c_strchr (name @ CHR '':'' # s) CHR '':'' = Some (length name)"
    by (rule c_strchr_append [OF assms(1)])
  then show ?thesis using assms(2-4)
    by (simp add: Let_def prefix_tests del: c_strncmp.simps)
qed

lemma wrap_int_exact: "0 \<le> x \<Longrightarrow> x \<le> NGX_MAX_INT_T_VALUE \<Longrightarrow> wrap_int x = x"
  by (simp add: wrap_int_def sint_cases_64 uint_word_of_int)

lemma limit_req_zone_args_accept:
  assumes rate: "decimal ds" "rate_unit u = Some k"
    and zone: "name \<noteq> []" "CHR '':'' \<notin> set name" "ngx_parse_size s = sz" "sz \<noteq> NGX_ERROR" "8 * pg \<le> sz"
    and fresh: "shm_find name 0 zones = None"
  shows "ngx_http_limit_req_zone True True True pg
      [key, ''zone='' @ name @ '':'' @ s, ''rate='' @ ds @ u] zones =
    Inr (zones @ [\<lparr>sz_name = name, sz_size = nat sz, sz_tag = LIMIT_REQ_TAG,
      sz_data = Some \<lparr>ctx_sh = 0, ctx_rate = word_of_int (c_div (wrap_int (dec_value ds * 1000)) k),
                      ctx_key = key, ctx_node = None\<rparr>\<rparr>])"
proof -
  have k: "u = [] \<Longrightarrow> k = 1" using rate(2) by (auto simp: rate_unit_def split: if_splits)
  show ?thesis
    using zone(1) fresh k
    unfolding ngx_http_limit_req_zone_def list.sel zone_args_zone [OF zone(2-5)] zone_args_rate [OF rate]
    by (simp add: ngx_shared_memory_add_def list_update_append)
qed

lemma limit_req_zone_accepts:
  assumes rate: "decimal ds" "dec_value ds * 1000 \<le> NGX_MAX_INT_T_VALUE" "rate_unit u = Some k"
    and zone: "name \<noteq> []" "CHR '':'' \<notin> set name" "ngx_parse_size s = sz" "sz \<noteq> NGX_ERROR" "8 * pg \<le> sz"
    and fresh: "shm_find name 0 zones = None"
  shows "ngx_http_limit_req_zone True True True pg
      [key, ''zone='' @ name @ '':'' @ s, ''rate='' @ ds @ u] zones =
    Inr (zones @ [\<lparr>sz_name = name, sz_size = nat sz, sz_tag = LIMIT_REQ_TAG,
      sz_data = Some \<lparr>ctx_sh = 0, ctx_rate = word_of_int (dec_value ds * 1000 div k),
                      ctx_key = key, ctx_node = None\<rparr>\<rparr>])"
proof -
  have k: "0 < k" using rate(3) by (auto simp: rate_unit_def split: if_splits)
  have "wrap_int (dec_value ds * 1000) = dec_value ds * 1000" "0 < dec_value ds"
    using rate(1,2) by (simp_all add: decimal_def wrap_int_exact)
  then have "c_div (wrap_int (dec_value ds * 1000)) k = dec_value ds * 1000 div k" using k by simp
  with limit_req_zone_args_accept [OF rate(1,3) zone fresh] show ?thesis by simp
qed

lemma limit_req_zone_rate_bounds:
  assumes "decimal ds" "dec_value ds * 1000 \<le> NGX_MAX_INT_T_VALUE" "rate_unit u = Some k"
  shows "0 < unat (word_of_int (dec_value ds * 1000 div k) :: ngx_uint_t)"
    and "unat (word_of_int (dec_value ds * 1000 div k) :: ngx_uint_t) < 2 ^ 63"
proof -
  have k: "k = 1 \<or> k = 60" using assms(3) by (auto simp: rate_unit_def split: if_splits)
  have v: "0 < dec_value ds" "dec_value ds * 1000 \<le> NGX_MAX_INT_T_VALUE" using assms(1,2) by (auto simp: decimal_def)
  let ?r = "dec_value ds * 1000 div k"
  have r: "0 < ?r" "?r \<le> NGX_MAX_INT_T_VALUE" using k v by auto
  then have "uint (word_of_int ?r :: ngx_uint_t) = ?r"
    by (simp add: uint_word_of_int)
  then have "unat (word_of_int ?r :: ngx_uint_t) = nat ?r" by (metis nat_uint_eq)
  with r show "0 < unat (word_of_int ?r :: ngx_uint_t)" "unat (word_of_int ?r :: ngx_uint_t) < 2 ^ 63" by auto
qed

text \<open>A rate of which the thousandfold overflows is accepted; it can give a rate of zero.\<close>

lemma dec_value_2_61: "dec_value ''2305843009213693952'' = 2305843009213693952"
  by (simp add: cval_def)

lemma limit_req_zone_overflow:
  assumes zone: "name \<noteq> []" "CHR '':'' \<notin> set name" "ngx_parse_size s = sz" "sz \<noteq> NGX_ERROR" "8 * pg \<le> sz"
    and fresh: "shm_find name 0 zones = None"
  shows "ngx_http_limit_req_zone True True True pg
      [key, ''zone='' @ name @ '':'' @ s, ''rate='' @ ''2305843009213693952'' @ ''r/s''] zones =
    Inr (zones @ [\<lparr>sz_name = name, sz_size = nat sz, sz_tag = LIMIT_REQ_TAG,
      sz_data = Some \<lparr>ctx_sh = 0, ctx_rate = 0, ctx_key = key, ctx_node = None\<rparr>\<rparr>])"
proof -
  have d: "decimal ''2305843009213693952''"
    unfolding decimal_def dec_value_2_61 by (simp add: is_digit_def cval_def)
  have "c_div (wrap_int (dec_value ''2305843009213693952'' * 1000)) 1 = 0"
    unfolding dec_value_2_61 by (simp add: wrap_int_def c_div_def sint_cases_64 uint_word_of_int)
  with limit_req_zone_args_accept [OF d _ zone fresh, of "''r/s''" 1 key] show ?thesis
    by (simp add: rate_unit_def)
qed

text \<open>The options of \<open>limit_req\<close>, as written and as meant.\<close>

datatype req_opt = Opt_Burst string | Opt_Delay string | Opt_Nodelay

fun render_opt :: "req_opt \<Rightarrow> string" where
  "render_opt (Opt_Burst ds) = ''burst='' @ ds"
| "render_opt (Opt_Delay ds) = ''delay='' @ ds"
| "render_opt Opt_Nodelay = ''nodelay''"

fun valid_opt :: "req_opt \<Rightarrow> bool" where
  "valid_opt (Opt_Burst ds) = decimal ds"
| "valid_opt (Opt_Delay ds) = decimal ds"
| "valid_opt Opt_Nodelay = True"

fun apply_opt :: "req_args \<Rightarrow> req_opt \<Rightarrow> req_args" where
  "apply_opt ra (Opt_Burst ds) = ra\<lparr>ra_burst := dec_value ds\<rparr>"
| "apply_opt ra (Opt_Delay ds) = ra\<lparr>ra_delay := dec_value ds\<rparr>"
| "apply_opt ra Opt_Nodelay = ra\<lparr>ra_delay := NGX_MAX_INT_T_VALUE div 1000\<rparr>"

lemma limit_req_args_opts:
  "list_all valid_opt opts \<Longrightarrow>
   limit_req_args push_ok (map render_opt opts) ra zones = Inr (foldl apply_opt ra opts, zones)"
proof (induction opts arbitrary: ra)
  case Nil
  then show ?case by simp
next
  case (Cons opt opts)
  then have v: "valid_opt opt" and IH: "limit_req_args push_ok (map render_opt opts) ra zones =
      Inr (foldl apply_opt ra opts, zones)" for ra by simp_all
  show ?case
  proof (cases opt)
    case (Opt_Burst ds)
    with v have "ngx_atoi (drop 6 (''burst='' @ ds)) (length (''burst='' @ ds) - 6) = dec_value ds" "0 < dec_value ds"
      using decimal_atoi [of ds "[]"] by (simp_all add: decimal_def)
    with Opt_Burst IH show ?thesis by (simp add: Let_def prefix_tests del: c_strncmp.simps)
  next
    case (Opt_Delay ds)
    with v have "ngx_atoi (drop 6 (''delay='' @ ds)) (length (''delay='' @ ds) - 6) = dec_value ds" "0 < dec_value ds"
      using decimal_atoi [of ds "[]"] by (simp_all add: decimal_def)
    with Opt_Delay IH show ?thesis by (simp add: Let_def prefix_tests del: c_strncmp.simps)
  next
    case Opt_Nodelay
    have "c_strcmp ''nodelay'' ''nodelay'' = 0" by (simp add: c_strcmp_eq_0 cval_def)
    with Opt_Nodelay IH show ?thesis by (simp add: prefix_tests del: c_strncmp.simps)
  qed
qed

lemma shm_size_same: "sz_size z = 0 \<Longrightarrow> z\<lparr>sz_size := 0\<rparr> = z"
  by (cases z) simp

lemma limit_req_args_zone:
  assumes "shm_find name 0 zones = Some i" "sz_tag (zones ! i) = LIMIT_REQ_TAG"
  shows "limit_req_args push_ok ((''zone='' @ name) # vs) ra zones =
    limit_req_args push_ok vs (ra\<lparr>ra_zone := Some i\<rparr>) zones"
proof -
  have "ngx_shared_memory_add push_ok name 0 LIMIT_REQ_TAG zones = (Some i, zones)"
  proof (cases "sz_size (zones ! i) = 0")
    case True
    have "zones[i := (zones ! i)\<lparr>sz_size := 0\<rparr>] = zones" unfolding shm_size_same [OF True] by simp
    with True assms show ?thesis by (simp add: ngx_shared_memory_add_def Let_def)
  next
    case False
    with assms show ?thesis by (simp add: ngx_shared_memory_add_def Let_def)
  qed
  then show ?thesis by (simp add: prefix_tests del: c_strncmp.simps)
qed

lemma limit_req_accepts:
  assumes "shm_find name 0 zones = Some i" "sz_tag (zones ! i) = LIMIT_REQ_TAG"
    and "list_all valid_opt opts"
    and "\<not> list_ex (\<lambda>l. i = lim_zone l) (case lc_limits lrcf of None \<Rightarrow> [] | Some ls \<Rightarrow> ls)"
  defines "ra \<equiv> foldl apply_opt \<lparr>ra_zone = Some i, ra_burst = 0, ra_delay = 0\<rparr> opts"
  shows "ngx_http_limit_req True True True ((''zone='' @ name) # map render_opt opts) lrcf zones =
    Inr (lrcf\<lparr>lc_limits := Some ((case lc_limits lrcf of None \<Rightarrow> [] | Some ls \<Rightarrow> ls) @
      [\<lparr>lim_zone = i, lim_burst = word_of_int (ra_burst ra * 1000),
        lim_delay = word_of_int (ra_delay ra * 1000)\<rparr>])\<rparr>, zones)"
proof -
  have "ra_zone (foldl apply_opt ra opts) = ra_zone ra" for ra
  proof (induction opts arbitrary: ra)
    case (Cons opt opts)
    then show ?case by (cases opt) simp_all
  qed simp
  then have "ra_zone ra = Some i" by (simp add: ra_def)
  moreover have "limit_req_args True ((''zone='' @ name) # map render_opt opts)
      \<lparr>ra_zone = None, ra_burst = 0, ra_delay = 0\<rparr> zones = Inr (ra, zones)"
    unfolding limit_req_args_zone [OF assms(1,2)] using limit_req_args_opts [OF assms(3)]
    by (simp add: ra_def)
  ultimately show ?thesis using assms(4) by (simp add: ngx_http_limit_req_def Let_def)
qed

lemma limit_req_duplicate:
  assumes "shm_find name 0 zones = Some i" "sz_tag (zones ! i) = LIMIT_REQ_TAG"
    and "list_all valid_opt opts" "lc_limits lrcf = Some ls" "list_ex (\<lambda>l. i = lim_zone l) ls"
  shows "ngx_http_limit_req True array_ok array_push_ok ((''zone='' @ name) # map render_opt opts) lrcf zones =
    Inl Is_Duplicate"
proof -
  have "ra_zone (foldl apply_opt ra opts) = ra_zone ra" for ra
  proof (induction opts arbitrary: ra)
    case (Cons opt opts)
    then show ?case by (cases opt) simp_all
  qed simp
  moreover have "limit_req_args True ((''zone='' @ name) # map render_opt opts)
      \<lparr>ra_zone = None, ra_burst = 0, ra_delay = 0\<rparr> zones =
      Inr (foldl apply_opt \<lparr>ra_zone = Some i, ra_burst = 0, ra_delay = 0\<rparr> opts, zones)"
    unfolding limit_req_args_zone [OF assms(1,2)] using limit_req_args_opts [OF assms(3)] by simp
  ultimately show ?thesis using assms(4,5) by (simp add: ngx_http_limit_req_def Let_def)
qed

text \<open>The zones of the limits of a location stay distinct.\<close>

lemma limit_req_distinct:
  assumes "ngx_http_limit_req push_ok array_ok array_push_ok value lrcf zones = Inr (lrcf', zones')"
    and "distinct (map lim_zone (case lc_limits lrcf of None \<Rightarrow> [] | Some ls \<Rightarrow> ls))"
  shows "\<exists>ls. lc_limits lrcf' = Some ls \<and> distinct (map lim_zone ls)"
  using assms
  by (fastforce simp: ngx_http_limit_req_def Let_def list_ex_iff split: sum.splits option.splits if_splits)

section \<open>Merging\<close>

lemma merge_conf_set:
  "lc_limit_log_level (ngx_http_limit_req_merge_conf prev conf) \<noteq> NGX_CONF_UNSET_UINT"
  "lc_status_code (ngx_http_limit_req_merge_conf prev conf) \<noteq> NGX_CONF_UNSET_UINT"
  "lc_dry_run (ngx_http_limit_req_merge_conf prev conf) \<noteq> NGX_CONF_UNSET"
  by (auto simp: ngx_http_limit_req_merge_conf_def ngx_conf_merge_uint_value_def
      ngx_conf_merge_value_def Let_def)

lemma merge_conf_assoc:
  "ngx_http_limit_req_merge_conf (ngx_http_limit_req_merge_conf a b) c =
   ngx_http_limit_req_merge_conf a (ngx_http_limit_req_merge_conf b c)
   \<or> lc_limit_log_level b = NGX_CONF_UNSET_UINT \<or> lc_status_code b = NGX_CONF_UNSET_UINT \<or> lc_dry_run b = NGX_CONF_UNSET"
  by (auto simp: ngx_http_limit_req_merge_conf_def ngx_conf_merge_uint_value_def
      ngx_conf_merge_value_def Let_def split: option.splits)

section \<open>Properties\<close>

lemma size_1m: "ngx_parse_size ''1m'' = 1048576"
  using ngx_parse_size_scaled [of "CHR ''m''" "''1''"] by (simp add: size_scale_def is_digit_def cval_def)

text \<open>A well-formed \<open>limit_req_zone\<close> directive, with a rate per second or per minute whose thousandfold
  fits, adds a zone of the size given whose context has exactly that rate in thousandths of a
  request per second; and that rate is not zero, so the divisions by it are defined.\<close>
theorem zone_directive_rate:
  assumes "decimal ds" "dec_value ds * 1000 \<le> NGX_MAX_INT_T_VALUE" "rate_unit u = Some k"
    and "name \<noteq> []" "CHR '':'' \<notin> set name" "ngx_parse_size s = sz" "sz \<noteq> NGX_ERROR" "8 * pg \<le> sz"
    and "shm_find name 0 zones = None"
  shows "ngx_http_limit_req_zone True True True pg [key, ''zone='' @ name @ '':'' @ s, ''rate='' @ ds @ u] zones =
      Inr (zones @ [\<lparr>sz_name = name, sz_size = nat sz, sz_tag = LIMIT_REQ_TAG,
        sz_data = Some \<lparr>ctx_sh = 0, ctx_rate = word_of_int (dec_value ds * 1000 div k),
                        ctx_key = key, ctx_node = None\<rparr>\<rparr>]) \<and>
    (word_of_int (dec_value ds * 1000 div k) :: ngx_uint_t) \<noteq> 0"
  using limit_req_zone_accepts [OF assms] limit_req_zone_rate_bounds(1) [OF assms(1-3)]
  by (auto simp del: One_nat_def)

theorem zone_directive_rate_witness:
  "ngx_http_limit_req_zone True True True 4096 [''$binary_remote_addr'', ''zone=one:1m'', ''rate=30r/m''] [] =
    Inr [\<lparr>sz_name = ''one'', sz_size = 1048576, sz_tag = LIMIT_REQ_TAG,
      sz_data = Some \<lparr>ctx_sh = 0, ctx_rate = 500, ctx_key = ''$binary_remote_addr'', ctx_node = None\<rparr>\<rparr>]"
proof -
  have d: "decimal ''30''" "dec_value ''30'' = 30" by (simp_all add: decimal_def is_digit_def cval_def)
  have u: "rate_unit ''r/m'' = Some 60" by (simp add: rate_unit_def)
  show ?thesis
    using zone_directive_rate [OF d(1) _ u _ _ size_1m, of "''one''" 4096 "[]" "''$binary_remote_addr''"] d(2)
    by (simp del: dec_value_from_simps)
qed

text \<open>C23. The thousandfold of the rate is not checked: a rate of \<open>2^61\<close> requests per second is accepted and
  gives a zone of rate zero, and accounting a request with excess beyond the delay then divides by
  zero (the model's \<open>None\<close>).\<close>
theorem zone_directive_overflow:
  assumes "name \<noteq> []" "CHR '':'' \<notin> set name" "ngx_parse_size s = sz" "sz \<noteq> NGX_ERROR" "8 * pg \<le> sz"
    and "shm_find name 0 zones = None"
    and "ctx_rate (w_ctx w (lim_zone (limits ! limit))) = 0" "lim_delay (limits ! limit) < excess"
  shows "\<exists>z ctx. ngx_http_limit_req_zone True True True pg
      [key, ''zone='' @ name @ '':'' @ s, ''rate='' @ ''2305843009213693952'' @ ''r/s''] zones = Inr (zones @ [z]) \<and>
      sz_data z = Some ctx \<and> ctx_rate ctx = 0 \<and>
    ngx_http_limit_req_account now limits n excess limit w = None"
  using limit_req_zone_overflow [OF assms(1-6)] assms(7,8)
  by (simp add: ngx_http_limit_req_account_def lr_delay_of_def not_le [symmetric])

theorem zone_directive_overflow_witness:
  "(\<exists>z ctx. ngx_http_limit_req_zone True True True 4096
      [''k'', ''zone=one:1m'', ''rate=2305843009213693952r/s''] [] = Inr [z] \<and> sz_data z = Some ctx \<and> ctx_rate ctx = 0) \<and>
   ngx_http_limit_req_account 0 [\<lparr>lim_zone = 0, lim_burst = 5000, lim_delay = 0\<rparr>] 0 1000 0
     \<lparr>w_ctx = (\<lambda>_. \<lparr>ctx_sh = 0, ctx_rate = 0, ctx_key = ''k'', ctx_node = None\<rparr>), w_sh = (\<lambda>_. undefined)\<rparr> = None"
  using zone_directive_overflow [of "''one''" "''1m''", OF _ _ size_1m, of 4096 "[]"
      "\<lparr>w_ctx = (\<lambda>_. \<lparr>ctx_sh = 0, ctx_rate = 0, ctx_key = ''k'', ctx_node = None\<rparr>), w_sh = (\<lambda>_. undefined)\<rparr>"
      "[\<lparr>lim_zone = 0, lim_burst = 5000, lim_delay = 0\<rparr>]" 0 1000 "''k''" 0 0]
  by auto

text \<open>A \<open>limit_req\<close> directive that names a zone and gives any sequence of \<open>burst=\<close>, \<open>delay=\<close> and
  \<open>nodelay\<close> options appends one limit, with the last burst and delay given, in thousandths; on a zone
  that the location already limits it is refused as a duplicate.\<close>
theorem limit_directive_options:
  assumes "shm_find name 0 zones = Some i" "sz_tag (zones ! i) = LIMIT_REQ_TAG" "list_all valid_opt opts"
  shows "ngx_http_limit_req True True True ((''zone='' @ name) # map render_opt opts) lrcf zones =
    (let ls = (case lc_limits lrcf of None \<Rightarrow> [] | Some ls \<Rightarrow> ls);
         ra = foldl apply_opt \<lparr>ra_zone = Some i, ra_burst = 0, ra_delay = 0\<rparr> opts
     in if list_ex (\<lambda>l. i = lim_zone l) ls then Inl Is_Duplicate
        else Inr (lrcf\<lparr>lc_limits := Some (ls @ [\<lparr>lim_zone = i, lim_burst = word_of_int (ra_burst ra * 1000),
               lim_delay = word_of_int (ra_delay ra * 1000)\<rparr>])\<rparr>, zones))"
proof (cases "list_ex (\<lambda>l. i = lim_zone l) (case lc_limits lrcf of None \<Rightarrow> [] | Some ls \<Rightarrow> ls)")
  case False
  then show ?thesis using limit_req_accepts [OF assms False] by (simp add: Let_def)
next
  case True
  then obtain ls where "lc_limits lrcf = Some ls" "list_ex (\<lambda>l. i = lim_zone l) ls"
    by (cases "lc_limits lrcf") simp_all
  with limit_req_duplicate [OF assms this] show ?thesis by (simp add: Let_def)
qed

theorem limit_directive_options_witness:
  "ngx_http_limit_req True True True [''zone=one'', ''burst=20'', ''nodelay'']
     \<lparr>lc_limits = None, lc_limit_log_level = -1, lc_delay_log_level = 0, lc_status_code = -1, lc_dry_run = -1\<rparr>
     [\<lparr>sz_name = ''one'', sz_size = 1048576, sz_tag = LIMIT_REQ_TAG, sz_data = None\<rparr>] =
   Inr (\<lparr>lc_limits = Some [\<lparr>lim_zone = 0, lim_burst = 20000, lim_delay = 9223372036854775000\<rparr>],
          lc_limit_log_level = -1, lc_delay_log_level = 0, lc_status_code = -1, lc_dry_run = -1\<rparr>,
     [\<lparr>sz_name = ''one'', sz_size = 1048576, sz_tag = LIMIT_REQ_TAG, sz_data = None\<rparr>])"
proof -
  have "decimal ''20''" "dec_value ''20'' = 20" by (simp_all add: decimal_def is_digit_def cval_def)
  then show ?thesis
    using limit_directive_options [of "''one''" "[\<lparr>sz_name = ''one'', sz_size = 1048576, sz_tag = LIMIT_REQ_TAG, sz_data = None\<rparr>]"
        0 "[Opt_Burst ''20'', Opt_Nodelay]"
        "\<lparr>lc_limits = None, lc_limit_log_level = -1, lc_delay_log_level = 0, lc_status_code = -1, lc_dry_run = -1\<rparr>"]
    by (simp add: cval_def)
qed

text \<open>However many \<open>limit_req\<close> directives a location has, the zones of its limits stay distinct: the
  invariant the handler's rollback relies on.\<close>
theorem limit_directive_distinct:
  assumes "ngx_http_limit_req push_ok array_ok array_push_ok args lrcf zones = Inr (lrcf', zones')"
    and "distinct (map lim_zone (case lc_limits lrcf of None \<Rightarrow> [] | Some ls \<Rightarrow> ls))"
  shows "\<exists>ls. lc_limits lrcf' = Some ls \<and> distinct (map lim_zone ls)"
  by (rule limit_req_distinct [OF assms])

theorem limit_directive_distinct_witness:
  "\<exists>ls. lc_limits (fst (projr (ngx_http_limit_req True True True [''zone=one'']
     \<lparr>lc_limits = None, lc_limit_log_level = -1, lc_delay_log_level = 0, lc_status_code = -1, lc_dry_run = -1\<rparr>
     [\<lparr>sz_name = ''one'', sz_size = 1, sz_tag = LIMIT_REQ_TAG, sz_data = None\<rparr>]))) = Some ls \<and> distinct (map lim_zone ls)"
proof -
  let ?c = "\<lparr>lc_limits = None, lc_limit_log_level = -1, lc_delay_log_level = 0, lc_status_code = -1, lc_dry_run = -1\<rparr>"
  let ?z = "[\<lparr>sz_name = ''one'', sz_size = 1, sz_tag = LIMIT_REQ_TAG, sz_data = None\<rparr>]"
  obtain c z where r: "ngx_http_limit_req True True True [''zone=one''] ?c ?z = Inr (c, z)"
    using limit_req_accepts [of "''one''" ?z 0 "[]" ?c] by (simp add: cval_def)
  then show ?thesis using limit_directive_distinct [OF r] by simp
qed

text \<open>Merging a location's configuration leaves nothing unset and never overrides what the location
  sets itself; its limits are its own when it has any, and the enclosing level's otherwise.\<close>
theorem merge_conf_complete:
  "lc_limit_log_level (ngx_http_limit_req_merge_conf prev conf) \<noteq> NGX_CONF_UNSET_UINT \<and>
   lc_status_code (ngx_http_limit_req_merge_conf prev conf) \<noteq> NGX_CONF_UNSET_UINT \<and>
   lc_dry_run (ngx_http_limit_req_merge_conf prev conf) \<noteq> NGX_CONF_UNSET \<and>
   lc_status_code (ngx_http_limit_req_merge_conf prev conf) =
     (if lc_status_code conf \<noteq> NGX_CONF_UNSET_UINT then lc_status_code conf
      else if lc_status_code prev \<noteq> NGX_CONF_UNSET_UINT then lc_status_code prev else 503) \<and>
   lc_limits (ngx_http_limit_req_merge_conf prev conf) =
     (if lc_limits conf \<noteq> None then lc_limits conf else lc_limits prev)"
  using merge_conf_set [of prev conf]
  by (auto simp: ngx_http_limit_req_merge_conf_def ngx_conf_merge_uint_value_def Let_def split: option.split)

end
