(* ===== verification/Limit_Req_Service.thy ===== *)
theory Limit_Req_Service
  imports Limit_Req_Handler Limit_Req_Rate Limit_Req_Workers Limit_Req_Conf
begin

text \<open>
  What the request limiter promises as a service, put together from its parts: the safety of
  the handler and of several workers, the decision on one request, the rate and the burst a
  client gets, and what survives a reload of the configuration.
\<close>

section \<open>A world to start from\<close>

definition sample_limit :: lr_limit where
  "sample_limit = \<lparr>lim_zone = 0, lim_burst = 5000, lim_delay = 2000\<rparr>"

definition sample_conf :: lr_conf where
  "sample_conf = \<lparr>lc_limits = Some [sample_limit], lc_limit_log_level = 4, lc_delay_log_level = 5,
     lc_status_code = 503, lc_dry_run = 0\<rparr>"

definition sample_world :: "lr_zone \<Rightarrow> lr_world" where
  "sample_world sh = \<lparr>w_ctx = (\<lambda>_. \<lparr>ctx_sh = 1, ctx_rate = 1000, ctx_key = ''$k'', ctx_node = None\<rparr>),
     w_sh = (\<lambda>_. sh)\<rparr>"

lemma sample_world_ok: "zone_ok sh \<Longrightarrow> world_ok [sample_limit] (sample_world sh)"
  by (simp add: world_ok_def sample_world_def w_zone_def)

section \<open>Safety\<close>

text \<open>C1. On well-formed zones, each with its own limit and with a rate that is not zero, whose noted references are counted and
  whose counters are not at their end (\<open>2 ^ 64 - 1\<close>), with an allocator that gives memory not in use, the handler always answers a new request: it never touches memory that is not an entry and never divides by zero.  It leaves the zones well-formed and
  the noted references counted, and its return code, status and timer agree with each other and with the dry-run setting.
  The references add up, except that one which a failed request left noted may be overwritten and then stays
  counted for ever.  When all keys could be computed the request leaves no reference of its own: every context notes none
  or what it noted before.\<close>
theorem handler_safe:
  assumes "world_ok limits w" "held limits w" "countable_from 0 limits w" "slab_ok alloc"
    and "lc_limits lrcf = Some limits" "status = 0"
  shows "\<exists>out w'. ngx_http_limit_req_handler alloc now complex_value read_event_ok lrcf status w = Some (out, w') \<and>
    world_ok limits w' \<and> held limits w' \<and> kept limits w w' \<and> lr_status_matches lrcf out \<and>
    ((\<forall>k < length limits. complex_value (ctx_key (w_ctx w (lim_zone (limits ! k)))) \<noteq> None) \<longrightarrow>
      (\<forall>k < length limits. ctx_node (w_ctx w' (lim_zone (limits ! k))) = None \<or>
         ctx_node (w_ctx w' (lim_zone (limits ! k))) = ctx_node (w_ctx w (lim_zone (limits ! k)))))"
  using handler_spec [OF assms, of now complex_value read_event_ok] unfolding handler_post_def by blast

theorem handler_safe_witness:
  "\<exists>out w'. ngx_http_limit_req_handler first_free 1000 (\<lambda>_. Some ''k'') True sample_conf 0 (sample_world sample_zone) =
     Some (out, w') \<and> world_ok [sample_limit] w' \<and> ctx_node (w_ctx w' 0) = None"
proof -
  have "held [sample_limit] (sample_world sample_zone)" "countable_from 0 [sample_limit] (sample_world sample_zone)"
    by (simp_all add: held_def countable_from_def sample_world_def w_zone_def lr_cnt_def sample_zone_ok(2))
  from handler_safe [OF sample_world_ok [OF sample_zone_ok(1)] this first_free_ok, of sample_conf 0 1000
      "\<lambda>_. Some ''k''" True]
  show ?thesis by (auto simp: sample_conf_def sample_limit_def sample_world_def)
qed

text \<open>C2. Whatever the interleaving of lookups, accounting and rollbacks of any number of workers on one
  zone that was set up empty, the entry that a worker notes a reference on stays in the zone, so no worker ever follows a pointer to
  an evicted entry.  Its count is the number of workers that note it, and of the references to it that were overwritten when
  a worker looked up again with a reference still noted (which a failed request leaves).  All this holds as long as the workers and
  the overwritten references to the entry are together fewer than \<open>2 ^ 64\<close>; the keys have at most 65535 bytes, as the handler
  checks, and the allocator gives memory not in use.\<close>
theorem workers_no_dangling:
  assumes "sys_init s" "(lr_step workers ctx)\<^sup>*\<^sup>* s s'" "sys_node s' u = Some i" "workers + sys_lost s' i < 2 ^ 64"
  shows "\<exists>lr. sh_nodes (sys_sh s') i = Some lr \<and> 0 < card (holders workers s' i) \<and>
    unat (lr_count lr) = card (holders workers s' i) + sys_lost s' i \<and> zone_ok (sys_sh s')"
proof -
  have ok: "sys_ok workers s'" by (rule lr_steps_ok [OF assms(2) sys_init_ok [OF assms(1)]])
  then show ?thesis using held_entry [OF ok assms(4,3)] by (metis sys_ok_def)
qed

lemma fresh_lookup:
  \<comment> \<open>the first request for a key, when there is room\<close>
  assumes ok: "zone_ok sh" and alloc: "lr_alloc alloc now (ctx_rate ctx) key sh = Some (Some i, sh1)" and s: "slab_ok alloc"
    and fresh: "\<forall>j lr. sh_nodes sh j = Some lr \<longrightarrow> (lr_key lr, lr_data lr) \<noteq> (hash, key)"
    and len: "length key \<le> 65535"
  obtains sh' lr where "ngx_http_limit_req_lookup alloc now limit hash key account ctx sh =
      Some (if account then (NGX_OK, 0, ctx, sh') else (NGX_AGAIN, 0, ctx\<lparr>ctx_node := Some i\<rparr>, sh'))"
    "zone_ok sh'" "sh_nodes sh' i = Some lr" "lr_key lr = hash" "lr_data lr = key" "lr_excess lr = 0"
    "lr_last lr = (if account then now else 0)"
proof -
  obtain node sh2 where "lr_alloc alloc now (ctx_rate ctx) key sh = Some (node, sh2)" "zone_ok sh2"
    "sh_nodes sh2 \<subseteq>\<^sub>m sh_nodes sh" "\<forall>i. node = Some i \<longrightarrow> sh_nodes sh2 i = None"
    using lr_alloc_spec [OF ok s] by metis
  then have a: "zone_ok sh1" "sh_nodes sh1 \<subseteq>\<^sub>m sh_nodes sh" "sh_nodes sh1 i = None" using alloc by auto
  obtain ids where rep: "lru_rep (sh_queue sh1) ids" using zone_ok_lru [OF a(1)] by metis
  have "sh_nodes sh j = Some lr" if "sh_nodes sh1 j = Some lr" for j lr
    using a(2) that by (metis domI map_le_def)
  then have fr: "\<forall>j lr. sh_nodes sh1 j = Some lr \<longrightarrow> (lr_key lr, lr_data lr) \<noteq> (hash, key)"
    using fresh by blast
  from zone_ok_insert [OF a(1) rep a(3) len fr, of now account] obtain sh' where
    n: "lr_insert_new now hash key account i sh1 = Some sh'" "zone_ok sh'" and
    nodes: "sh_nodes sh' = (sh_nodes sh1)(i \<mapsto> \<lparr>lr_key = hash, lr_len = word_of_nat (length key),
      lr_last = (if account then now else 0), lr_excess = 0,
      lr_count = (if account then 0 else 1), lr_data = key\<rparr>)" by auto
  have "lr_find (sh_nodes sh) hash key (sh_rbtree sh) = Some None"
    using ok
  proof (cases rule: lr_find_zone [where hash = hash and key = key])
    case (1 j lr)
    with fresh show ?thesis by blast
  qed simp
  then have "ngx_http_limit_req_lookup alloc now limit hash key account ctx sh =
      Some (if account then (NGX_OK, 0, ctx, sh') else (NGX_AGAIN, 0, ctx\<lparr>ctx_node := Some i\<rparr>, sh'))"
    using alloc n(1) by (simp add: ngx_http_limit_req_lookup_def)
  moreover have "sh_nodes sh' i = Some \<lparr>lr_key = hash, lr_len = word_of_nat (length key),
      lr_last = (if account then now else 0), lr_excess = 0,
      lr_count = (if account then 0 else 1), lr_data = key\<rparr>" by (simp add: nodes)
  ultimately show thesis using that n(2) by simp
qed

lemma sample_alloc: "lr_alloc first_free now rate key sample_zone = Some (Some 0, sample_zone)"
proof -
  have "ngx_queue_empty QHead (sh_queue sample_zone)" using lru.rep_empty [OF sample_zone_ok(3)] by simp
  then have "ngx_http_limit_req_expire now rate n sample_zone = Some sample_zone" for n
    by (simp add: ngx_http_limit_req_expire.simps)
  then show ?thesis by (simp add: lr_alloc_def first_free_def sample_zone_ok(2))
qed

theorem workers_no_dangling_witness:
  "\<exists>s s'. sys_init s \<and> (lr_step 2 \<lparr>ctx_sh = 1, ctx_rate = 1000, ctx_key = ''$k'', ctx_node = None\<rparr>)\<^sup>*\<^sup>* s s' \<and>
     sys_node s' 0 = Some 0 \<and> (\<exists>lr. sh_nodes (sys_sh s') 0 = Some lr \<and> lr_count lr \<noteq> 0)"
proof -
  let ?ctx = "\<lparr>ctx_sh = 1, ctx_rate = 1000, ctx_key = ''$k'', ctx_node = None\<rparr> :: lr_ctx"
  let ?s = "\<lparr>sys_sh = sample_zone, sys_node = (\<lambda>_. None), sys_lost = (\<lambda>_. 0)\<rparr> :: lr_sys"
  have init: "sys_init ?s"
    unfolding sys_init_def sample_zone_def
    by (simp, rule exI [of _ "\<lparr>sh_rbtree = Sentinel, sh_queue = \<lparr>prev_of = (\<lambda>_. QNull), next_of = (\<lambda>_. QNull)\<rparr>,
      sh_nodes = Map.empty\<rparr>"], simp)
  obtain sh' where "ngx_http_limit_req_lookup first_free 1000 sample_limit 5 ''k'' False ?ctx sample_zone =
      Some (NGX_AGAIN, 0, ?ctx\<lparr>ctx_node := Some 0\<rparr>, sh')"
    using fresh_lookup [OF sample_zone_ok(1), of first_free 1000 ?ctx "''k''" 0 sample_zone 5 sample_limit False]
    by (simp add: sample_alloc first_free_ok sample_zone_ok(2)) metis
  then have "lr_step 2 ?ctx ?s \<lparr>sys_sh = sh', sys_node = (sys_node ?s)(0 := ctx_node (?ctx\<lparr>ctx_node := Some 0\<rparr>)),
      sys_lost = overwrite NGX_AGAIN (sys_node ?s 0) (sys_lost ?s)\<rparr>"
    by (intro Lookup [where alloc = first_free and key = "''k''"]) (simp_all add: first_free_ok)
  moreover have "overwrite NGX_AGAIN None (\<lambda>_. 0) = (\<lambda>_. 0)" by (simp add: overwrite_def fun_eq_iff)
  ultimately have r: "(lr_step 2 ?ctx)\<^sup>*\<^sup>* ?s \<lparr>sys_sh = sh', sys_node = (\<lambda>_. None)(0 := Some 0), sys_lost = (\<lambda>_. 0)\<rparr>" by auto
  show ?thesis
    using workers_no_dangling [OF init r, of 0 0] init r by fastforce
qed

section \<open>The decision on one request\<close>

definition limit_outcome :: "lr_conf \<Rightarrow> lr_limit \<Rightarrow> ngx_uint_t \<Rightarrow> ngx_uint_t \<Rightarrow> lr_outcome" where
  \<comment> \<open>what the handler answers for a request with the given excess, at a rate\<close>
  "limit_outcome lrcf limit rate e =
    (let d = (e - lim_delay limit) * 1000 div rate
     in if e > lim_burst limit
        then \<lparr>out_rc = sint (lc_status_code lrcf), out_status = NGX_HTTP_LIMIT_REQ_REJECTED, out_timer = None\<rparr>
        else if e \<le> lim_delay limit \<or> d = 0
        then \<lparr>out_rc = NGX_DECLINED, out_status = NGX_HTTP_LIMIT_REQ_PASSED, out_timer = None\<rparr>
        else \<lparr>out_rc = NGX_AGAIN, out_status = NGX_HTTP_LIMIT_REQ_DELAYED, out_timer = Some d\<rparr>)"

lemma handler_one_limit:
  \<comment> \<open>the handler for a location with one limit, from the result of the lookup\<close>
  assumes "world_ok [limit] w" "complex_value (ctx_key (w_ctx w (lim_zone limit))) = Some key"
    and "key \<noteq> []" "length key \<le> 65535" "lc_limits lrcf = Some [limit]" "lc_dry_run lrcf = 0"
    and "ngx_http_limit_req_lookup alloc now limit (ucast (ngx_crc32_short key)) key True
           (w_ctx w (lim_zone limit)) (w_zone w (lim_zone limit)) =
         Some (if e > lim_burst limit then NGX_BUSY else NGX_OK, e, w_ctx w (lim_zone limit), sh')"
  shows "ngx_http_limit_req_handler alloc now complex_value True lrcf 0 w =
    Some (limit_outcome lrcf limit (ctx_rate (w_ctx w (lim_zone limit))) e,
      w_update (lim_zone limit) (w_ctx w (lim_zone limit)) sh' w)"
proof -
  let ?z = "lim_zone limit"
  let ?ctx = "w_ctx w ?z"
  have rate: "ctx_rate ?ctx \<noteq> 0" using assms(1) by (simp add: world_ok_def)
  have upd: "ctx_rate (w_ctx (w_update ?z ?ctx sh' w) ?z) = ctx_rate ?ctx" by (simp add: w_update_def)
  have loop: "lr_handler_loop alloc now complex_value [limit] 0 NGX_DECLINED 0 0 w =
      Some (Loop_End (if e > lim_burst limit then NGX_BUSY else NGX_OK) 0 e 0, w_update ?z ?ctx sh' w)"
    using assms(2-4,7) by (simp add: lr_handler_loop.simps Let_def)
  show ?thesis
  proof (cases "e > lim_burst limit")
    case True
    then show ?thesis using loop assms(5,6)
      by (simp add: ngx_http_limit_req_handler_def limit_outcome_def Let_def)
  next
    case False
    have "ngx_http_limit_req_account now [limit] 0 e 0 (w_update ?z ?ctx sh' w) =
        Some ((if e \<le> lim_delay limit then 0 else (e - lim_delay limit) * 1000 div ctx_rate ?ctx, e, 0),
          w_update ?z ?ctx sh' w)"
      using rate upd by (simp add: ngx_http_limit_req_account_def lr_delay_of_def)
    with False loop assms(5,6) show ?thesis
      by (simp add: ngx_http_limit_req_handler_def limit_outcome_def Let_def)
  qed
qed

lemma limiter_decision:
  assumes "world_ok [limit] w" "complex_value (ctx_key (w_ctx w (lim_zone limit))) = Some key"
    and "key \<noteq> []" "length key \<le> 65535" "sh_nodes (w_zone w (lim_zone limit)) i = Some lr"
    and "lr_key lr = ucast (ngx_crc32_short key)" "lr_data lr = key"
    and "lc_limits lrcf = Some [limit]" "lc_dry_run lrcf = 0"
    and "e = lr_next_excess (ctx_rate (w_ctx w (lim_zone limit))) (lr_excess lr) (lr_elapsed now (lr_last lr))"
  shows "\<exists>w'. ngx_http_limit_req_handler alloc now complex_value True lrcf 0 w =
      Some (limit_outcome lrcf limit (ctx_rate (w_ctx w (lim_zone limit))) e, w') \<and> w_ctx w' = w_ctx w \<and>
    world_ok [limit] w' \<and> sh_nodes (w_zone w' (lim_zone limit)) i =
      Some (if e > lim_burst limit then lr
            else lr\<lparr>lr_excess := e, lr_last := (if lr_elapsed now (lr_last lr) \<noteq> 0 then now else lr_last lr)\<rparr>)"
proof -
  let ?z = "lim_zone limit"
  let ?ctx = "w_ctx w ?z" and ?sh = "w_zone w ?z"
  have zok: "zone_ok ?sh" using assms(1) by (simp add: world_ok_def)
  have look: "ngx_http_limit_req_lookup alloc now limit (ucast (ngx_crc32_short key)) key True ?ctx ?sh =
      Some (lr_found now limit i lr True ?ctx ?sh)"
    using lookup_existing [OF zok assms(5), of alloc now limit True ?ctx] assms(6,7) by simp
  obtain sh' where f: "lr_found now limit i lr True ?ctx ?sh = (if e > lim_burst limit then NGX_BUSY else NGX_OK, e, ?ctx, sh')"
    and nodes: "sh_nodes sh' i =
      Some (if e > lim_burst limit then lr
            else lr\<lparr>lr_excess := e, lr_last := (if lr_elapsed now (lr_last lr) \<noteq> 0 then now else lr_last lr)\<rparr>)"
    using assms(5,10) by (cases "e > lim_burst limit") (simp_all add: lr_found_def Let_def)
  from handler_one_limit [of limit w complex_value key lrcf alloc now e sh', OF assms(1-4,8,9)] look f
  have "ngx_http_limit_req_handler alloc now complex_value True lrcf 0 w =
    Some (limit_outcome lrcf limit (ctx_rate ?ctx) e, w_update ?z ?ctx sh' w)" by simp
  moreover have "w_ctx (w_update ?z ?ctx sh' w) = w_ctx w" "w_zone (w_update ?z ?ctx sh' w) ?z = sh'"
    by (simp_all add: w_update_def w_zone_def)
  moreover have "world_ok [limit] (w_update ?z ?ctx sh' w)"
    using world_step(1) [OF assms(1), of 0 ?ctx sh'] lr_found_spec(1) [OF zok assms(5) f] by simp
  ultimately show ?thesis using nodes by auto
qed

text \<open>C7. Outside of the dry-run mode, for a location with one limit, a new request whose key (of 1 to 65535 bytes) has an entry in a
  well-formed zone of a rate that is not zero, and whose read event can be armed, is decided by the entry's level
  alone: the excess, drained by the time since the last request and raised by one request, rejects it
  above the burst, passes it up to the delay, and otherwise delays it by the milliseconds that drain
  the part beyond the delay.\<close>
theorem single_limit_decision:
  assumes "world_ok [limit] w" "complex_value (ctx_key (w_ctx w (lim_zone limit))) = Some key"
    and "key \<noteq> []" "length key \<le> 65535" "sh_nodes (w_zone w (lim_zone limit)) i = Some lr"
    and "lr_key lr = ucast (ngx_crc32_short key)" "lr_data lr = key"
    and "lc_limits lrcf = Some [limit]" "lc_dry_run lrcf = 0"
  shows "\<exists>w'. ngx_http_limit_req_handler alloc now complex_value True lrcf 0 w = Some
    (let rate = ctx_rate (w_ctx w (lim_zone limit));
         e = lr_next_excess rate (lr_excess lr) (lr_elapsed now (lr_last lr));
         d = (e - lim_delay limit) * 1000 div rate
     in if e > lim_burst limit
        then \<lparr>out_rc = sint (lc_status_code lrcf), out_status = NGX_HTTP_LIMIT_REQ_REJECTED, out_timer = None\<rparr>
        else if e \<le> lim_delay limit \<or> d = 0
        then \<lparr>out_rc = NGX_DECLINED, out_status = NGX_HTTP_LIMIT_REQ_PASSED, out_timer = None\<rparr>
        else \<lparr>out_rc = NGX_AGAIN, out_status = NGX_HTTP_LIMIT_REQ_DELAYED, out_timer = Some d\<rparr>, w')"
  using limiter_decision [of limit w complex_value key i lr lrcf _ now alloc, OF assms refl]
  by (auto simp: limit_outcome_def Let_def)

lemma key_zone:
  "\<exists>sh lr. zone_ok sh \<and> sh_nodes sh = [7 \<mapsto> lr] \<and> lr_key lr = ucast (ngx_crc32_short ''k'') \<and> lr_data lr = ''k'' \<and>
     lr_excess lr = 0 \<and> lr_last lr = 0"
proof -
  let ?lr = "sample_lr\<lparr>lr_key := ucast (ngx_crc32_short ''k'')\<rparr>"
  have "\<exists>sh. zone_ok sh \<and> sh_nodes sh = [7 \<mapsto> ?lr]"
    using zone_ok_insert [OF sample_zone_ok(1,3), of 7 "''k''" "ucast (ngx_crc32_short ''k'')" 0 True] sample_zone_ok(2)
    by (auto simp: sample_lr_def)
  then obtain sh where "zone_ok sh" "sh_nodes sh = [7 \<mapsto> ?lr]" by blast
  then show ?thesis by (intro exI [of _ sh] exI [of _ ?lr]) (simp add: sample_lr_def)
qed

theorem single_limit_decision_witness:
  "\<exists>sh w'. ngx_http_limit_req_handler first_free 0 (\<lambda>_. Some ''k'') True sample_conf 0 (sample_world sh) =
     Some (\<lparr>out_rc = NGX_DECLINED, out_status = NGX_HTTP_LIMIT_REQ_PASSED, out_timer = None\<rparr>, w')"
proof -
  obtain sh lr where sh: "zone_ok sh" "sh_nodes sh = [7 \<mapsto> lr]" "lr_key lr = ucast (ngx_crc32_short ''k'')"
    "lr_data lr = ''k''" "lr_excess lr = 0" "lr_last lr = 0" using key_zone by blast
  have "lr_next_excess 1000 0 (lr_elapsed 0 0) = 1000" by (simp add: lr_next_excess_def lr_elapsed_def)
  then show ?thesis
    using single_limit_decision [OF sample_world_ok [OF sh(1)], of "\<lambda>_. Some ''k''" "''k''" 7 lr sample_conf first_free 0] sh(2-6)
    by (simp add: sample_limit_def sample_conf_def sample_world_def w_zone_def Let_def) blast
qed

text \<open>The delay of a request is the number of whole milliseconds in which its excess drains to the
  delay threshold at the zone's rate: one millisecond more would drain below it.\<close>
theorem delay_is_drain_time:
  assumes "rate \<noteq> 0" "delay < excess" "(unat excess - unat delay) * 1000 < 2 ^ 64"
  shows "\<exists>d. lr_delay_of rate excess delay = Some d \<and>
    unat rate * unat d \<le> (unat excess - unat delay) * 1000 \<and>
    (unat excess - unat delay) * 1000 < unat rate * (unat d + 1)"
proof -
  have "unat (excess - delay) = unat excess - unat delay"
    using assms(2) by (simp add: unat_sub word_less_nat_alt order_less_imp_le word_le_nat_alt)
  then have "unat ((excess - delay) * 1000) = (unat excess - unat delay) * 1000"
    using assms(3) unat_mult_exact [of "excess - delay" 1000] by simp
  then have d: "unat ((excess - delay) * 1000 div rate) = (unat excess - unat delay) * 1000 div unat rate"
    by (simp add: unat_div_distrib)
  have "0 < unat rate" using assms(1) by (simp add: unat_gt_0)
  then have "unat rate * (n div unat rate) \<le> n" "n < unat rate * (n div unat rate + 1)" for n
    by (simp_all add: dividend_less_times_div)
  then show ?thesis using assms(1) d by (simp add: lr_delay_of_def)
qed

theorem delay_is_drain_time_witness:
  "\<exists>d. lr_delay_of 3000 5000 1000 = Some d \<and> 3000 * unat d \<le> 4000000 \<and> 4000000 < 3000 * (unat d + 1)"
  using delay_is_drain_time [of 3000 1000 5000] by (simp add: word_less_nat_alt)

section \<open>The rate a client gets\<close>

text \<open>C3. Over any run of requests for a key with an entry in a well-formed zone, at times that do not go back, either none passes, or the requests that pass are
  bounded by the burst and by the rate times the time elapsed: a thousand times their number and the
  excess before the run are at most the burst and the rate times the milliseconds, in thousandths.  The excess and the burst
  are below \<open>2 ^ 62\<close>, the times below \<open>2 ^ 63\<close> and what drains below \<open>2 ^ 64\<close>.\<close>
theorem rate_never_exceeded:
  assumes "zone_ok sh" "sh_nodes sh i = Some lr" "exact_times (ctx_rate ctx) (lr_last lr) ts" "ts \<noteq> []"
    and "unat (lr_excess lr) < 2 ^ 62" "unat (lim_burst limit) < 2 ^ 62"
  shows "\<exists>rs sh'. lr_serve alloc limit (lr_key lr) (lr_data lr) ctx ts sh = Some (rs, sh') \<and> length rs = length ts \<and>
    (accepted rs = 0 \<or> unat (lr_excess lr) + 1000 * accepted rs \<le>
       unat (lim_burst limit) + unat (ctx_rate ctx) * (unat (last ts) - unat (lr_last lr)) div 1000)"
proof -
  have "sorted (unat (lr_last lr) # map unat ts)" using assms(3) by (simp add: exact_times_def)
  from bucket_rate_bound [OF this, of "unat (lr_excess lr)" "unat (ctx_rate ctx)" "unat (lim_burst limit)"] assms(4)
  have "accepted rs = 0 \<or> unat (lr_excess lr) + 1000 * accepted rs \<le>
      unat (lim_burst limit) + unat (ctx_rate ctx) * (unat (last ts) - unat (lr_last lr)) div 1000"
    if "rs = bucket (unat (ctx_rate ctx)) (unat (lim_burst limit)) (unat (lr_excess lr)) (unat (lr_last lr)) (map unat ts)" for rs
    using that by (simp add: last_map split: if_splits)
  moreover obtain sh' where "lr_serve alloc limit (lr_key lr) (lr_data lr) ctx ts sh =
    Some (bucket (unat (ctx_rate ctx)) (unat (lim_burst limit)) (unat (lr_excess lr)) (unat (lr_last lr)) (map unat ts), sh')"
    using lr_serve_bucket [OF assms(1-3,5,6)] by blast
  ultimately show ?thesis by (intro exI conjI) auto
qed

lemma sample_times: "exact_times 1000 0 [0, 10, 1500]"
  by (simp add: exact_times_def)

theorem rate_never_exceeded_witness:
  "\<exists>sh rs sh'. lr_serve first_free sample_limit 5 ''k'' \<lparr>ctx_sh = 1, ctx_rate = 1000, ctx_key = ''$k'', ctx_node = None\<rparr>
     [0, 10, 1500] sh = Some (rs, sh') \<and> (accepted rs = 0 \<or> 1000 * accepted rs \<le> 5000 + 1500)"
proof -
  obtain sh :: lr_zone where sh: "zone_ok sh" "sh_nodes sh = [7 \<mapsto> sample_lr]" using one_entry_zone by blast
  then have "sh_nodes sh 7 = Some sample_lr" by simp
  from rate_never_exceeded [OF sh(1) this, of "\<lparr>ctx_sh = 1, ctx_rate = 1000, ctx_key = ''$k'', ctx_node = None\<rparr>"
      "[0, 10, 1500]" sample_limit first_free] sample_times show ?thesis
    by (simp add: sample_lr_def sample_limit_def) blast
qed



lemma fresh_serve:
  assumes "zone_ok sh" "slab_ok alloc" "length key \<le> 65535"
    and "\<forall>j lr. sh_nodes sh j = Some lr \<longrightarrow> (lr_key lr, lr_data lr) \<noteq> (hash, key)"
    and "lr_alloc alloc t (ctx_rate ctx) key sh = Some (Some i, sh1)"
    and "unat t < 2 ^ 63" "unat (lim_burst limit) < 2 ^ 62"
  shows "\<exists>sh'. lr_serve alloc limit hash key ctx (replicate (Suc n) t) sh =
    Some (True # bucket (unat (ctx_rate ctx)) (unat (lim_burst limit)) 0 (unat t) (replicate n (unat t)), sh')"
proof -
  obtain sh' lr where look: "ngx_http_limit_req_lookup alloc t limit hash key True ctx sh = Some (NGX_OK, 0, ctx, sh')"
    and ok: "zone_ok sh'" "sh_nodes sh' i = Some lr" and
    lr: "lr_key lr = hash" "lr_data lr = key" "lr_excess lr = 0" "lr_last lr = t"
    using fresh_lookup [OF assms(1,5,2,4,3), of limit True] by auto
  have "exact_times (ctx_rate ctx) (lr_last lr) (replicate n t)"
    using assms(6) lr(4) by (simp add: exact_times_def list_all_iff)
  from lr_serve_bucket [OF ok this _ assms(7), of alloc] lr obtain sh'' where
    "lr_serve alloc limit hash key ctx (replicate n t) sh' =
      Some (bucket (unat (ctx_rate ctx)) (unat (lim_burst limit)) 0 (unat t) (replicate n (unat t)), sh'')"
    by auto
  with look show ?thesis by simp
qed

text \<open>Of any number of requests that arrive in the same millisecond for a key without an entry, when the zone has room for
  one, the first and as many more as the burst has whole requests pass, and every other one is rejected.\<close>
theorem burst_capacity:
  assumes "zone_ok sh" "slab_ok alloc" "length key \<le> 65535"
    and "\<forall>j lr. sh_nodes sh j = Some lr \<longrightarrow> (lr_key lr, lr_data lr) \<noteq> (hash, key)"
    and "lr_alloc alloc t (ctx_rate ctx) key sh = Some (Some i, sh1)"
    and "unat t < 2 ^ 63" "unat (lim_burst limit) < 2 ^ 62"
  shows "\<exists>sh'. lr_serve alloc limit hash key ctx (replicate (Suc n) t) sh =
    Some (True # replicate (min n (unat (lim_burst limit) div 1000)) True @
            replicate (n - unat (lim_burst limit) div 1000) False, sh')"
  using fresh_serve [OF assms, of n] by (simp add: bucket_burst)

theorem burst_capacity_witness:
  "\<exists>sh'. lr_serve first_free sample_limit 5 ''k'' \<lparr>ctx_sh = 1, ctx_rate = 1000, ctx_key = ''$k'', ctx_node = None\<rparr>
     (replicate 8 0) sample_zone = Some (True # replicate 5 True @ [False, False], sh')"
proof -
  have b: "unat (lim_burst sample_limit) = 5000" by (simp add: sample_limit_def)
  have r: "replicate (Suc 7) (0 :: ngx_msec_t) = replicate 8 0" 
    "replicate (7 - 5) False = [False, False]" by (simp_all add: eval_nat_numeral)
  show ?thesis
    using burst_capacity [OF sample_zone_ok(1) first_free_ok _ _ sample_alloc, of "''k''" 5 0 sample_limit
        "\<lparr>ctx_sh = 1, ctx_rate = 1000, ctx_key = ''$k'', ctx_node = None\<rparr>" 7] b r
    by (simp add: sample_zone_ok(2) del: replicate_Suc replicate.simps)
qed

section \<open>Reloading the configuration\<close>

text \<open>On a reload a zone whose key is unchanged keeps its shared entries and a zone whose key changed is
  refused, nothing being touched; and a zone that exists in memory, left by an earlier master, is
  attached to and not initialised again.\<close>
theorem reload_keeps_entries:
  assumes "no_nul (ctx_key ctx)" "no_nul (ctx_key oc)"
  shows "ngx_http_limit_req_init_zone sh_alloc log_ok (Some oc) ctx pool shs =
      (if ctx_key ctx = ctx_key oc then (NGX_OK, ctx\<lparr>ctx_sh := ctx_sh oc\<rparr>, pool, shs) else (NGX_ERROR, ctx, pool, shs)) \<and>
    ngx_http_limit_req_init_zone sh_alloc log_ok None ctx (pool\<lparr>pool_exists := True\<rparr>) shs =
      (NGX_OK, ctx\<lparr>ctx_sh := pool_data pool\<rparr>, pool\<lparr>pool_exists := True\<rparr>, shs)"
proof -
  have "length (ctx_key ctx) \<noteq> length (ctx_key oc) \<or>
      c_strncmp (ctx_key ctx) (ctx_key oc) (length (ctx_key ctx)) \<noteq> 0 \<longleftrightarrow> ctx_key ctx \<noteq> ctx_key oc"
    using c_strncmp_prefix [OF assms(2), of "ctx_key ctx"]
    by (cases "length (ctx_key ctx) = length (ctx_key oc)") (auto simp del: c_strncmp.simps)
  then show ?thesis by (simp add: ngx_http_limit_req_init_zone_def del: c_strncmp.simps)
qed

theorem reload_keeps_entries_witness:
  "\<exists>ctx. ngx_http_limit_req_init_zone None True (Some \<lparr>ctx_sh = 9, ctx_rate = 1, ctx_key = ''a'', ctx_node = None\<rparr>)
     \<lparr>ctx_sh = 0, ctx_rate = 2, ctx_key = ''a'', ctx_node = None\<rparr> \<lparr>pool_exists = False, pool_data = 0\<rparr> (\<lambda>_. sample_zone) =
       (NGX_OK, ctx, \<lparr>pool_exists = False, pool_data = 0\<rparr>, (\<lambda>_. sample_zone)) \<and> ctx_sh ctx = 9"
  using reload_keeps_entries [of "\<lparr>ctx_sh = 0, ctx_rate = 2, ctx_key = ''a'', ctx_node = None\<rparr>"
      "\<lparr>ctx_sh = 9, ctx_rate = 1, ctx_key = ''a'', ctx_node = None\<rparr>"] by (simp add: cval_def)

end
