(* ===== verification/Ngx_Slab.thy ===== *)
theory Ngx_Slab
  imports Nginx_Prelude
begin

text \<open>
  The slab allocator of shared memory, \<open>nginx/src/core/ngx_slab.c\<close> and \<open>ngx_slab.h\<close>: a pool is
  an array of page descriptors linked into a list of free blocks and, for each power of two, a
  list of pages cut into chunks of that size with a bitmap of the chunks in use.

  A pointer to a descriptor is one of \<open>NULL\<close>, a page, a slot, or the head of the free list; the
  word \<open>prev\<close> is such a pointer with the two type bits it carries.  Addresses are naturals.  Of
  the contents of the memory only the bitmaps are kept, as the words at the start of a page;
  filling freed memory with junk and zeroing it in \<open>ngx_slab_calloc\<close> are left out.  The lock
  of \<open>ngx_slab_alloc\<close> and \<open>ngx_slab_free\<close> around their \<open>_locked\<close> forms is that of \<open>Ngx_Shmtx\<close>.
\<close>

section \<open>The pool\<close>

datatype slab_ref = SNull | SPage nat | SSlot nat | SFree

datatype slab_type = SLAB_PAGE | SLAB_BIG | SLAB_EXACT | SLAB_SMALL

abbreviation (input) SLAB_PAGE_FREE :: "64 word" where "SLAB_PAGE_FREE \<equiv> 0"
abbreviation (input) SLAB_PAGE_BUSY :: "64 word" where "SLAB_PAGE_BUSY \<equiv> 0xffffffffffffffff"
abbreviation (input) SLAB_PAGE_START :: "64 word" where "SLAB_PAGE_START \<equiv> 0x8000000000000000"
abbreviation (input) SLAB_SHIFT_MASK :: "64 word" where "SLAB_SHIFT_MASK \<equiv> 0xf"
abbreviation (input) SLAB_MAP_MASK :: "64 word" where "SLAB_MAP_MASK \<equiv> 0xffffffff00000000"
abbreviation (input) SLAB_MAP_SHIFT :: nat where "SLAB_MAP_SHIFT \<equiv> 32"
abbreviation (input) SLAB_BUSY :: "64 word" where "SLAB_BUSY \<equiv> 0xffffffffffffffff"

record slab_page =
  sp_slab :: "64 word"
  sp_next :: slab_ref
  sp_prev :: "slab_ref \<times> slab_type"

record slab_stat =
  st_total :: ngx_uint_t
  st_used :: ngx_uint_t
  st_reqs :: ngx_uint_t
  st_fails :: ngx_uint_t

record slab_pool =
  sl_min_shift :: nat
  sl_page_shift :: nat                     \<comment> \<open>\<open>ngx_pagesize_shift\<close>\<close>
  sl_count :: nat                          \<comment> \<open>\<open>last - pages\<close>\<close>
  sl_start :: nat
  sl_end :: nat
  sl_desc :: "slab_ref \<Rightarrow> slab_page"
  sl_map :: "nat \<Rightarrow> nat \<Rightarrow> 64 word"       \<comment> \<open>the words at the start of each page\<close>
  sl_stats :: "nat \<Rightarrow> slab_stat"
  sl_pfree :: ngx_uint_t

definition p_slab :: "slab_pool \<Rightarrow> slab_ref \<Rightarrow> 64 word" where
  "p_slab pool r = sp_slab (sl_desc pool r)"
definition p_next :: "slab_pool \<Rightarrow> slab_ref \<Rightarrow> slab_ref" where
  "p_next pool r = sp_next (sl_desc pool r)"
definition p_link :: "slab_pool \<Rightarrow> slab_ref \<Rightarrow> slab_ref \<times> slab_type" where
  "p_link pool r = sp_prev (sl_desc pool r)"

abbreviation p_prev :: "slab_pool \<Rightarrow> slab_ref \<Rightarrow> slab_ref" where
  \<comment> \<open>\<open>ngx_slab_page_prev\<close>\<close>
  "p_prev pool r \<equiv> fst (p_link pool r)"
abbreviation p_type :: "slab_pool \<Rightarrow> slab_ref \<Rightarrow> slab_type" where
  \<comment> \<open>\<open>ngx_slab_page_type\<close>\<close>
  "p_type pool r \<equiv> snd (p_link pool r)"

definition set_slab :: "slab_ref \<Rightarrow> 64 word \<Rightarrow> slab_pool \<Rightarrow> slab_pool" where
  "set_slab r v pool = pool\<lparr>sl_desc := (sl_desc pool)(r := (sl_desc pool r)\<lparr>sp_slab := v\<rparr>)\<rparr>"
definition set_next :: "slab_ref \<Rightarrow> slab_ref \<Rightarrow> slab_pool \<Rightarrow> slab_pool" where
  "set_next r v pool = pool\<lparr>sl_desc := (sl_desc pool)(r := (sl_desc pool r)\<lparr>sp_next := v\<rparr>)\<rparr>"
definition set_prev :: "slab_ref \<Rightarrow> slab_ref \<times> slab_type \<Rightarrow> slab_pool \<Rightarrow> slab_pool" where
  "set_prev r v pool = pool\<lparr>sl_desc := (sl_desc pool)(r := (sl_desc pool r)\<lparr>sp_prev := v\<rparr>)\<rparr>"

definition stat_upd :: "nat \<Rightarrow> (slab_stat \<Rightarrow> slab_stat) \<Rightarrow> slab_pool \<Rightarrow> slab_pool" where
  "stat_upd slot f pool = pool\<lparr>sl_stats := (sl_stats pool)(slot := f (sl_stats pool slot))\<rparr>"

definition set_map :: "nat \<Rightarrow> nat \<Rightarrow> 64 word \<Rightarrow> slab_pool \<Rightarrow> slab_pool" where
  "set_map i n w pool = pool\<lparr>sl_map := (sl_map pool)(i := (sl_map pool i)(n := w))\<rparr>"

definition ngx_slab_page_addr :: "slab_pool \<Rightarrow> nat \<Rightarrow> nat" where
  "ngx_slab_page_addr pool i = i * 2 ^ sl_page_shift pool + sl_start pool"

section \<open>Sizes\<close>

function slab_shift_loop :: "nat \<Rightarrow> nat \<Rightarrow> nat" where
  \<comment> \<open>\<open>for (s = ...; s >>= 1; shift++)\<close>\<close>
  "slab_shift_loop s shift = (if s div 2 = 0 then shift else slab_shift_loop (s div 2) (Suc shift))"
  by pat_completeness auto
termination by (relation "measure fst") auto

declare slab_shift_loop.simps [simp del]

definition ngx_slab_max_size :: "nat \<Rightarrow> nat" where
  "ngx_slab_max_size page_shift = 2 ^ page_shift div 2"
definition ngx_slab_exact_size :: "nat \<Rightarrow> nat" where
  "ngx_slab_exact_size page_shift = 2 ^ page_shift div (8 * 8)"
definition ngx_slab_exact_shift :: "nat \<Rightarrow> nat" where
  "ngx_slab_exact_shift page_shift = slab_shift_loop (ngx_slab_exact_size page_shift) 0"

definition ngx_slab_init :: "nat \<Rightarrow> nat \<Rightarrow> nat \<Rightarrow> nat \<Rightarrow> slab_pool" where
  \<comment> \<open>\<open>ngx_pagesize_shift\<close>, \<open>pool->min_shift\<close>, the address behind the pool's header, and
      \<open>pool->end\<close>; a descriptor has 24 bytes, the counters of a slot 32\<close>
  "ngx_slab_init page_shift min_shift slots end_addr =
     (let n = page_shift - min_shift;
          p = slots + n * 24 + n * 32;
          size = end_addr - slots - n * (24 + 32);
          pages = size div (2 ^ page_shift + 24);
          start = (p + pages * 24 + (2 ^ page_shift - 1)) div 2 ^ page_shift * 2 ^ page_shift;
          m = int pages - int ((end_addr - start) div 2 ^ page_shift);
          pages = (if m > 0 then pages - nat m else pages);
          zero = \<lparr>sp_slab = 0, sp_next = SNull, sp_prev = (SNull, SLAB_PAGE)\<rparr>;
          desc = (\<lambda>r. case r of
                    SSlot i \<Rightarrow> zero\<lparr>sp_next := SSlot i\<rparr>
                  | SFree \<Rightarrow> zero\<lparr>sp_next := SPage 0\<rparr>
                  | SPage i \<Rightarrow>
                      if i = 0 then \<lparr>sp_slab = of_nat pages, sp_next = SFree, sp_prev = (SFree, SLAB_PAGE)\<rparr>
                      else zero
                  | SNull \<Rightarrow> zero)
      in \<lparr>sl_min_shift = min_shift, sl_page_shift = page_shift, sl_count = pages, sl_start = start,
          sl_end = end_addr, sl_desc = desc, sl_map = (\<lambda>_ _. 0),
          sl_stats = (\<lambda>_. \<lparr>st_total = 0, st_used = 0, st_reqs = 0, st_fails = 0\<rparr>),
          sl_pfree = of_nat pages\<rparr>)"

section \<open>Pages\<close>

partial_function (option) slab_find_pages ::
    "slab_pool \<Rightarrow> ngx_uint_t \<Rightarrow> slab_ref \<Rightarrow> slab_ref option" where
  \<comment> \<open>the loop over the free list; the result \<open>SFree\<close> says that no block is large enough, \<open>None\<close>
      that the loop does not end\<close>
  "slab_find_pages pool pages page =
     (if page = SFree then Some SFree
      else if p_slab pool page \<ge> pages then Some page
      else slab_find_pages pool pages (p_next pool page))"

declare slab_find_pages.simps [code]

fun slab_busy_pages :: "nat \<Rightarrow> nat \<Rightarrow> slab_pool \<Rightarrow> slab_pool" where
  \<comment> \<open>\<open>for (p = page + 1; pages; pages--)\<close>\<close>
  "slab_busy_pages p 0 pool = pool"
| "slab_busy_pages p (Suc pages) pool =
     (let pool = set_slab (SPage p) SLAB_PAGE_BUSY pool;
          pool = set_next (SPage p) SNull pool;
          pool = set_prev (SPage p) (SNull, SLAB_PAGE) pool
      in slab_busy_pages (Suc p) pages pool)"

definition slab_take_pages :: "slab_pool \<Rightarrow> nat \<Rightarrow> ngx_uint_t \<Rightarrow> slab_pool" where
  \<comment> \<open>take \<open>pages\<close> pages from the free block at \<open>i\<close>\<close>
  "slab_take_pages pool i pages =
     (let page = SPage i; rest = SPage (i + unat pages);
          pool =
            (if p_slab pool page > pages then
               let pool = set_prev (SPage (i + unat (p_slab pool page) - 1)) (rest, SLAB_PAGE) pool;
                   pool = set_slab rest (p_slab pool page - pages) pool;
                   pool = set_next rest (p_next pool page) pool;
                   pool = set_prev rest (p_link pool page) pool;
                   pool = set_next (p_prev pool page) rest pool
               in set_prev (p_next pool page) (rest, SLAB_PAGE) pool
             else
               let pool = set_next (p_prev pool page) (p_next pool page) pool
               in set_prev (p_next pool page) (p_link pool page) pool);
          pool = set_slab page (pages OR SLAB_PAGE_START) pool;
          pool = set_next page SNull pool;
          pool = set_prev page (SNull, SLAB_PAGE) pool;
          pool = pool\<lparr>sl_pfree := sl_pfree pool - pages\<rparr>
      in slab_busy_pages (Suc i) (unat (pages - 1)) pool)"

definition ngx_slab_alloc_pages :: "slab_pool \<Rightarrow> ngx_uint_t \<Rightarrow> (nat option \<times> slab_pool) option" where
  "ngx_slab_alloc_pages pool pages =
     (case slab_find_pages pool pages (p_next pool SFree) of
        Some SFree \<Rightarrow> Some (None, pool)
      | Some (SPage i) \<Rightarrow> Some (Some i, slab_take_pages pool i pages)
      | _ \<Rightarrow> None)"

fun slab_zero_pages :: "nat \<Rightarrow> nat \<Rightarrow> slab_pool \<Rightarrow> slab_pool" where
  \<comment> \<open>\<open>ngx_memzero\<close> of descriptors\<close>
  "slab_zero_pages p 0 pool = pool"
| "slab_zero_pages p (Suc n) pool =
     slab_zero_pages (Suc p) n
       (set_prev (SPage p) (SNull, SLAB_PAGE) (set_next (SPage p) SNull (set_slab (SPage p) 0 pool)))"

definition slab_unlink :: "slab_ref \<Rightarrow> slab_pool \<Rightarrow> slab_pool" where
  \<comment> \<open>\<open>prev = ngx_slab_page_prev(page); prev->next = page->next; page->next->prev = page->prev;\<close>\<close>
  "slab_unlink page pool =
     (let pool = set_next (p_prev pool page) (p_next pool page) pool
      in set_prev (p_next pool page) (p_link pool page) pool)"

definition slab_clear :: "slab_ref \<Rightarrow> slab_pool \<Rightarrow> slab_pool" where
  "slab_clear page pool =
     set_prev page (SNull, SLAB_PAGE) (set_next page SNull (set_slab page SLAB_PAGE_FREE pool))"

definition slab_join_next :: "nat \<Rightarrow> slab_pool \<Rightarrow> ngx_uint_t \<Rightarrow> slab_pool \<times> ngx_uint_t" where
  \<comment> \<open>the block behind; with the pool the counter \<open>pages\<close>\<close>
  "slab_join_next i pool pages =
     (let page = SPage i; k = i + unat (p_slab pool page); join = SPage k in
      if k < sl_count pool \<and> p_type pool join = SLAB_PAGE \<and> p_next pool join \<noteq> SNull then
        let pages = pages + p_slab pool join;
            pool = set_slab page (p_slab pool page + p_slab pool join) pool;
            pool = slab_unlink join pool
        in (slab_clear join pool, pages)
      else (pool, pages))"

definition slab_before :: "slab_pool \<Rightarrow> nat \<Rightarrow> slab_ref" where
  \<comment> \<open>the block that \<open>slab_join_prev\<close> takes for the one in front\<close>
  "slab_before pool i =
     (if p_slab pool (SPage (i - 1)) = SLAB_PAGE_FREE then p_prev pool (SPage (i - 1)) else SPage (i - 1))"

definition slab_join_prev :: "nat \<Rightarrow> slab_pool \<Rightarrow> ngx_uint_t \<Rightarrow> slab_ref \<times> slab_pool \<times> ngx_uint_t" where
  \<comment> \<open>the block in front; with the result the new \<open>page\<close>\<close>
  "slab_join_prev i pool pages =
     (let page = SPage i; join = SPage (i - 1) in
      if i > 0 \<and> p_type pool join = SLAB_PAGE then
        let join = slab_before pool i in
        if p_next pool join \<noteq> SNull then
          let pages = pages + p_slab pool join;
              pool = set_slab join (p_slab pool join + p_slab pool page) pool;
              pool = slab_unlink join pool
          in (join, slab_clear page pool, pages)
        else (page, pool, pages)
      else (page, pool, pages))"

definition slab_ref_add :: "slab_ref \<Rightarrow> nat \<Rightarrow> slab_ref" where
  \<comment> \<open>pointer arithmetic on descriptors\<close>
  "slab_ref_add r n = (case r of SPage i \<Rightarrow> SPage (i + n) | _ \<Rightarrow> SNull)"

definition slab_free_link :: "slab_ref \<Rightarrow> slab_pool \<Rightarrow> ngx_uint_t \<Rightarrow> slab_pool" where
  \<comment> \<open>the block goes to the front of the free list\<close>
  "slab_free_link page pool pages =
     (let pool = (if pages \<noteq> 0 then set_prev (slab_ref_add page (unat pages)) (page, SLAB_PAGE) pool else pool);
          pool = set_prev page (SFree, SLAB_PAGE) pool;
          pool = set_next page (p_next pool SFree) pool;
          pool = set_prev (p_next pool page) (page, SLAB_PAGE) pool
      in set_next SFree page pool)"

definition slab_free_join :: "slab_pool \<Rightarrow> nat \<Rightarrow> ngx_uint_t \<Rightarrow> slab_pool" where
  "slab_free_join pool i pages =
     (let (pool, pages) = slab_join_next i pool pages;
          (page, pool, pages) = slab_join_prev i pool pages
      in slab_free_link page pool pages)"

definition ngx_slab_free_pages :: "slab_pool \<Rightarrow> nat \<Rightarrow> ngx_uint_t \<Rightarrow> slab_pool" where
  "ngx_slab_free_pages pool i pages =
     (let page = SPage i;
          pool = pool\<lparr>sl_pfree := sl_pfree pool + pages\<rparr>;
          pool = set_slab page pages pool;
          pages = pages - 1;
          pool = (if pages \<noteq> 0 then slab_zero_pages (Suc i) (unat pages) pool else pool);
          pool = (if p_next pool page \<noteq> SNull then slab_unlink page pool else pool)
      in slab_free_join pool i pages)"

section \<open>Chunks\<close>

function slab_first_clear :: "64 word \<Rightarrow> nat \<Rightarrow> nat \<Rightarrow> nat option" where
  \<comment> \<open>\<open>for (m = ..., i = ...; ...; m <<= 1, i++) if (w & m) continue;\<close> up to bit \<open>n\<close>\<close>
  "slab_first_clear w i n =
     (if n \<le> i then None else if bit w i then slab_first_clear w (Suc i) n else Some i)"
  by pat_completeness auto
termination by (relation "measure (\<lambda>(w, i, n). n - i)") auto

declare slab_first_clear.simps [simp del]

function slab_scan :: "(nat \<Rightarrow> 64 word) \<Rightarrow> nat \<Rightarrow> nat \<Rightarrow> (nat \<times> nat) option" where
  \<comment> \<open>the word and the bit of the first free chunk\<close>
  "slab_scan bitmap n words =
     (if words \<le> n then None
      else if bitmap n \<noteq> SLAB_BUSY then
        (case slab_first_clear (bitmap n) 0 64 of
           Some i \<Rightarrow> Some (n, i)
         | None \<Rightarrow> slab_scan bitmap (Suc n) words)
      else slab_scan bitmap (Suc n) words)"
  by pat_completeness auto
termination by (relation "measure (\<lambda>(bitmap, n, words). words - n)") auto

declare slab_scan.simps [simp del]

function slab_all :: "(nat \<Rightarrow> 64 word) \<Rightarrow> 64 word \<Rightarrow> nat \<Rightarrow> nat \<Rightarrow> bool" where
  \<comment> \<open>\<open>for (; n < words; n++) if (bitmap[n] != w) goto done;\<close>\<close>
  "slab_all bitmap w n words = (if words \<le> n then True else bitmap n = w \<and> slab_all bitmap w (Suc n) words)"
  by pat_completeness auto
termination by (relation "measure (\<lambda>(bitmap, w, n, words). words - n)") auto

declare slab_all.simps [simp del]

definition slab_retire :: "nat \<Rightarrow> slab_type \<Rightarrow> slab_pool \<Rightarrow> slab_pool" where
  \<comment> \<open>a page without free chunks leaves the list of its slot\<close>
  "slab_retire i type pool =
     (let page = SPage i; pool = slab_unlink page pool
      in set_prev page (SNull, type) (set_next page SNull pool))"

definition slab_used :: "nat \<Rightarrow> slab_pool \<Rightarrow> slab_pool" where
  "slab_used slot = stat_upd slot (\<lambda>st. st\<lparr>st_used := st_used st + 1\<rparr>)"

definition slab_take_small :: "slab_pool \<Rightarrow> nat \<Rightarrow> nat \<Rightarrow> nat \<Rightarrow> (nat \<times> slab_pool) option" where
  "slab_take_small pool slot shift page =
     (let words = 2 ^ sl_page_shift pool div 2 ^ shift div (8 * 8) in
      case slab_scan (sl_map pool page) 0 words of
        None \<Rightarrow> None
      | Some (n, i) \<Rightarrow>
          let pool = set_map page n (set_bit i (sl_map pool page n)) pool;
              i = (n * 8 * 8 + i) * 2 ^ shift;
              p = ngx_slab_page_addr pool page + i;
              pool = slab_used slot pool
          in Some (p, if sl_map pool page n = SLAB_BUSY \<and> slab_all (sl_map pool page) SLAB_BUSY (Suc n) words
                      then slab_retire page SLAB_SMALL pool else pool))"

definition slab_take_exact :: "slab_pool \<Rightarrow> nat \<Rightarrow> nat \<Rightarrow> nat \<Rightarrow> (nat \<times> slab_pool) option" where
  "slab_take_exact pool slot shift page =
     (case slab_first_clear (p_slab pool (SPage page)) 0 64 of
        None \<Rightarrow> None
      | Some i \<Rightarrow>
          let pool = set_slab (SPage page) (set_bit i (p_slab pool (SPage page))) pool;
              pool = (if p_slab pool (SPage page) = SLAB_BUSY then slab_retire page SLAB_EXACT pool else pool);
              p = ngx_slab_page_addr pool page + i * 2 ^ shift
          in Some (p, slab_used slot pool))"

definition slab_big_mask :: "nat \<Rightarrow> nat \<Rightarrow> 64 word" where
  "slab_big_mask page_shift shift = push_bit SLAB_MAP_SHIFT (push_bit (2 ^ page_shift div 2 ^ shift) 1 - 1)"

definition slab_take_big :: "slab_pool \<Rightarrow> nat \<Rightarrow> nat \<Rightarrow> nat \<Rightarrow> (nat \<times> slab_pool) option" where
  \<comment> \<open>the loop ends at the first bit outside of the mask\<close>
  "slab_take_big pool slot shift page =
     (let mask = slab_big_mask (sl_page_shift pool) shift in
      case slab_first_clear (p_slab pool (SPage page)) SLAB_MAP_SHIFT
             (SLAB_MAP_SHIFT + 2 ^ sl_page_shift pool div 2 ^ shift) of
        None \<Rightarrow> None
      | Some b \<Rightarrow>
          let i = b - SLAB_MAP_SHIFT;
              pool = set_slab (SPage page) (set_bit b (p_slab pool (SPage page))) pool;
              pool = (if p_slab pool (SPage page) AND SLAB_MAP_MASK = mask
                      then slab_retire page SLAB_BIG pool else pool);
              p = ngx_slab_page_addr pool page + i * 2 ^ shift
          in Some (p, slab_used slot pool))"

definition slab_take_chunk :: "slab_pool \<Rightarrow> nat \<Rightarrow> nat \<Rightarrow> nat \<Rightarrow> (nat \<times> slab_pool) option" where
  "slab_take_chunk pool slot shift page =
     (if shift < ngx_slab_exact_shift (sl_page_shift pool) then slab_take_small pool slot shift page
      else if shift = ngx_slab_exact_shift (sl_page_shift pool) then slab_take_exact pool slot shift page
      else slab_take_big pool slot shift page)"

definition slab_link_new :: "nat \<Rightarrow> nat \<Rightarrow> slab_type \<Rightarrow> slab_pool \<Rightarrow> slab_pool" where
  \<comment> \<open>a page becomes the only page of the list of its slot\<close>
  "slab_link_new slot i type pool =
     (let pool = set_next (SPage i) (SSlot slot) pool;
          pool = set_prev (SPage i) (SSlot slot, type) pool
      in set_next (SSlot slot) (SPage i) pool)"

definition slab_map_chunks :: "nat \<Rightarrow> nat \<Rightarrow> nat" where
  \<comment> \<open>the number of chunks that hold the bitmap\<close>
  "slab_map_chunks page_shift shift =
     (let n = 2 ^ page_shift div 2 ^ shift div (2 ^ shift * 8) in if n = 0 then 1 else n)"

definition slab_total :: "nat \<Rightarrow> ngx_uint_t \<Rightarrow> slab_pool \<Rightarrow> slab_pool" where
  "slab_total slot n = stat_upd slot (\<lambda>st. st\<lparr>st_total := st_total st + n\<rparr>)"

fun slab_fill :: "nat \<Rightarrow> nat \<Rightarrow> nat \<Rightarrow> 64 word \<Rightarrow> slab_pool \<Rightarrow> slab_pool" where
  \<comment> \<open>\<open>k\<close> words of the bitmap from \<open>i\<close> on\<close>
  "slab_fill page i 0 w pool = pool"
| "slab_fill page i (Suc k) w pool = slab_fill page (Suc i) k w (set_map page i w pool)"

definition slab_new_small :: "slab_pool \<Rightarrow> nat \<Rightarrow> nat \<Rightarrow> nat \<Rightarrow> nat \<times> slab_pool" where
  "slab_new_small pool slot shift page =
     (let size = 2 ^ sl_page_shift pool; n = slab_map_chunks (sl_page_shift pool) shift;
          i = (n + 1) div (8 * 8);
          pool = slab_fill page 0 i SLAB_BUSY pool;
          m = push_bit ((n + 1) mod (8 * 8)) 1 - 1;
          pool = set_map page i m pool;
          words = size div 2 ^ shift div (8 * 8);
          pool = slab_fill page (Suc i) (words - Suc i) 0 pool;
          pool = set_slab (SPage page) (of_nat shift) pool;
          pool = slab_link_new slot page SLAB_SMALL pool;
          pool = slab_total slot (of_nat (size div 2 ^ shift - n)) pool;
          p = ngx_slab_page_addr pool page + n * 2 ^ shift
      in (p, slab_used slot pool))"

definition slab_new_exact :: "slab_pool \<Rightarrow> nat \<Rightarrow> nat \<Rightarrow> nat \<Rightarrow> nat \<times> slab_pool" where
  "slab_new_exact pool slot shift page =
     (let pool = set_slab (SPage page) 1 pool;
          pool = slab_link_new slot page SLAB_EXACT pool;
          pool = slab_total slot (8 * 8) pool;
          p = ngx_slab_page_addr pool page
      in (p, slab_used slot pool))"

definition slab_new_big :: "slab_pool \<Rightarrow> nat \<Rightarrow> nat \<Rightarrow> nat \<Rightarrow> nat \<times> slab_pool" where
  "slab_new_big pool slot shift page =
     (let pool = set_slab (SPage page) (push_bit SLAB_MAP_SHIFT 1 OR of_nat shift) pool;
          pool = slab_link_new slot page SLAB_BIG pool;
          pool = slab_total slot (of_nat (2 ^ sl_page_shift pool div 2 ^ shift)) pool;
          p = ngx_slab_page_addr pool page
      in (p, slab_used slot pool))"

definition slab_new_page :: "slab_pool \<Rightarrow> nat \<Rightarrow> nat \<Rightarrow> (nat \<times> slab_pool) option" where
  "slab_new_page pool slot shift =
     (case ngx_slab_alloc_pages pool 1 of
        None \<Rightarrow> None
      | Some (None, pool) \<Rightarrow> Some (0, stat_upd slot (\<lambda>st. st\<lparr>st_fails := st_fails st + 1\<rparr>) pool)
      | Some (Some i, pool) \<Rightarrow>
          Some (if shift < ngx_slab_exact_shift (sl_page_shift pool) then slab_new_small pool slot shift i
                else if shift = ngx_slab_exact_shift (sl_page_shift pool) then slab_new_exact pool slot shift i
                else slab_new_big pool slot shift i))"

definition slab_slot_shift :: "slab_pool \<Rightarrow> nat \<Rightarrow> nat" where
  \<comment> \<open>the shift of the chunks for a size of at most half a page\<close>
  "slab_slot_shift pool sz =
     (if sz > 2 ^ sl_min_shift pool then slab_shift_loop (sz - 1) 1 else sl_min_shift pool)"

definition ngx_slab_alloc_locked :: "slab_pool \<Rightarrow> nat \<Rightarrow> (nat \<times> slab_pool) option" where
  \<comment> \<open>the address, 0 for \<open>NULL\<close>; a listed page that is busy is logged and passed over; \<open>None\<close> is a search that does not end or a link to no page\<close>
  "ngx_slab_alloc_locked pool sz =
     (if sz > ngx_slab_max_size (sl_page_shift pool) then
        (let page_size = 2 ^ sl_page_shift pool in
         case ngx_slab_alloc_pages pool (of_nat (sz div page_size + (if sz mod page_size \<noteq> 0 then 1 else 0))) of
           None \<Rightarrow> None
         | Some (None, pool) \<Rightarrow> Some (0, pool)
         | Some (Some i, pool) \<Rightarrow> Some (ngx_slab_page_addr pool i, pool))
      else
        let shift = slab_slot_shift pool sz; slot = shift - sl_min_shift pool;
            pool = stat_upd slot (\<lambda>st. st\<lparr>st_reqs := st_reqs st + 1\<rparr>) pool;
            page = p_next pool (SSlot slot)
        in if p_next pool page \<noteq> page then
             (case page of
                SPage i \<Rightarrow>
                  (case slab_take_chunk pool slot shift i of
                     Some r \<Rightarrow> Some r
                   | None \<Rightarrow> slab_new_page pool slot shift)
              | _ \<Rightarrow> None)
           else slab_new_page pool slot shift)"

section \<open>Freeing\<close>

datatype slab_error = Outside_of_pool | Wrong_chunk | Chunk_already_free | Page_already_free | Wrong_page

definition slab_relink :: "nat \<Rightarrow> nat \<Rightarrow> slab_type \<Rightarrow> slab_pool \<Rightarrow> slab_pool" where
  \<comment> \<open>a page that was full goes back to the list of its slot\<close>
  "slab_relink slot i type pool =
     (let page = SPage i;
          pool = set_next page (p_next pool (SSlot slot)) pool;
          pool = set_next (SSlot slot) page pool;
          pool = set_prev page (SSlot slot, type) pool
      in set_prev (p_next pool page) (page, type) pool)"

definition slab_unused :: "nat \<Rightarrow> slab_pool \<Rightarrow> slab_pool" where
  "slab_unused slot = stat_upd slot (\<lambda>st. st\<lparr>st_used := st_used st - 1\<rparr>)"

definition slab_free_small :: "slab_pool \<Rightarrow> nat \<Rightarrow> nat \<Rightarrow> slab_error option \<times> slab_pool" where
  "slab_free_small pool p page =
     (let size = 2 ^ sl_page_shift pool;
          shift = unat (p_slab pool (SPage page) AND SLAB_SHIFT_MASK) in
      if p mod 2 ^ shift \<noteq> 0 then (Some Wrong_chunk, pool)
      else
        let n = p mod size div 2 ^ shift; m = n mod (8 * 8); n = n div (8 * 8) in
        if bit (sl_map pool page n) m then
          let slot = shift - sl_min_shift pool;
              pool = (if p_next pool (SPage page) = SNull then slab_relink slot page SLAB_SMALL pool else pool);
              pool = set_map page n (unset_bit m (sl_map pool page n)) pool;
              n = slab_map_chunks (sl_page_shift pool) shift;
              i = n div (8 * 8);
              m = push_bit (n mod (8 * 8)) 1 - 1;
              words = size div 2 ^ shift div (8 * 8)
          in if sl_map pool page i AND NOT m \<noteq> 0 then (None, slab_unused slot pool)
             else if \<not> slab_all (sl_map pool page) 0 (Suc i) words then (None, slab_unused slot pool)
             else
               let pool = ngx_slab_free_pages pool page 1;
                   pool = slab_total slot (- of_nat (size div 2 ^ shift - n)) pool
               in (None, slab_unused slot pool)
        else (Some Chunk_already_free, pool))"

definition slab_free_exact :: "slab_pool \<Rightarrow> nat \<Rightarrow> nat \<Rightarrow> slab_error option \<times> slab_pool" where
  "slab_free_exact pool p page =
     (let slab = p_slab pool (SPage page); shift = ngx_slab_exact_shift (sl_page_shift pool);
          m = p mod 2 ^ sl_page_shift pool div 2 ^ shift in
      if p mod ngx_slab_exact_size (sl_page_shift pool) \<noteq> 0 then (Some Wrong_chunk, pool)
      else if bit slab m then
        let slot = shift - sl_min_shift pool;
            pool = (if slab = SLAB_BUSY then slab_relink slot page SLAB_EXACT pool else pool);
            pool = set_slab (SPage page) (unset_bit m (p_slab pool (SPage page))) pool
        in if p_slab pool (SPage page) \<noteq> 0 then (None, slab_unused slot pool)
           else
             let pool = ngx_slab_free_pages pool page 1;
                 pool = slab_total slot (- (8 * 8)) pool
             in (None, slab_unused slot pool)
      else (Some Chunk_already_free, pool))"

definition slab_free_big :: "slab_pool \<Rightarrow> nat \<Rightarrow> nat \<Rightarrow> slab_error option \<times> slab_pool" where
  "slab_free_big pool p page =
     (let size = 2 ^ sl_page_shift pool;
          slab = p_slab pool (SPage page);
          shift = unat (slab AND SLAB_SHIFT_MASK) in
      if p mod 2 ^ shift \<noteq> 0 then (Some Wrong_chunk, pool)
      else
        let m = p mod size div 2 ^ shift + SLAB_MAP_SHIFT in
        if bit slab m then
          let slot = shift - sl_min_shift pool;
              pool = (if p_next pool (SPage page) = SNull then slab_relink slot page SLAB_BIG pool else pool);
              pool = set_slab (SPage page) (unset_bit m (p_slab pool (SPage page))) pool
          in if p_slab pool (SPage page) AND SLAB_MAP_MASK \<noteq> 0 then (None, slab_unused slot pool)
             else
               let pool = ngx_slab_free_pages pool page 1;
                   pool = slab_total slot (- of_nat (size div 2 ^ shift)) pool
               in (None, slab_unused slot pool)
        else (Some Chunk_already_free, pool))"

definition slab_free_page :: "slab_pool \<Rightarrow> nat \<Rightarrow> nat \<Rightarrow> slab_error option \<times> slab_pool" where
  "slab_free_page pool p page =
     (let slab = p_slab pool (SPage page) in
      if p mod 2 ^ sl_page_shift pool \<noteq> 0 then (Some Wrong_chunk, pool)
      else if slab AND SLAB_PAGE_START = 0 then (Some Page_already_free, pool)
      else if slab = SLAB_PAGE_BUSY then (Some Wrong_page, pool)
      else (None, ngx_slab_free_pages pool page (slab AND NOT SLAB_PAGE_START)))"

definition ngx_slab_free_locked :: "slab_pool \<Rightarrow> nat \<Rightarrow> slab_error option \<times> slab_pool" where
  \<comment> \<open>the error that is logged\<close>
  "ngx_slab_free_locked pool p =
     (if p < sl_start pool \<or> p > sl_end pool then (Some Outside_of_pool, pool)
      else
        let n = (p - sl_start pool) div 2 ^ sl_page_shift pool in
        case p_type pool (SPage n) of
          SLAB_SMALL \<Rightarrow> slab_free_small pool p n
        | SLAB_EXACT \<Rightarrow> slab_free_exact pool p n
        | SLAB_BIG \<Rightarrow> slab_free_big pool p n
        | SLAB_PAGE \<Rightarrow> slab_free_page pool p n)"

end
