(* ===== verification/Ngx_Slab_Pages.thy ===== *)
theory Ngx_Slab_Pages
  imports Ngx_Slab
begin

text \<open>
  The pages of a slab pool: the descriptors are tiled by blocks that are free, given out as a
  whole, or cut into chunks; the free blocks are in the free list, and no two of them are
  adjacent.  Taking pages splits a free block, freeing joins it with its free neighbours.
\<close>

section \<open>Reading after writing\<close>

lemma p_set_simps [simp]:
  "p_slab (set_slab r v pool) = (p_slab pool)(r := v)"
  "p_next (set_slab r v pool) = p_next pool" "p_link (set_slab r v pool) = p_link pool"
  "p_slab (set_next r y pool) = p_slab pool" "p_next (set_next r y pool) = (p_next pool)(r := y)"
  "p_link (set_next r y pool) = p_link pool"
  "p_slab (set_prev r z pool) = p_slab pool" "p_next (set_prev r z pool) = p_next pool"
  "p_link (set_prev r z pool) = (p_link pool)(r := z)"
  by (auto simp: fun_eq_iff p_slab_def p_next_def p_link_def set_slab_def set_next_def set_prev_def)

lemma SPage_image [simp]: "SPage x \<in> SPage ` A \<longleftrightarrow> x \<in> A"
  by auto

lemma p_other_simps [simp]:
  "p_slab (pool\<lparr>sl_pfree := f\<rparr>) = p_slab pool" "p_next (pool\<lparr>sl_pfree := f\<rparr>) = p_next pool"
  "p_link (pool\<lparr>sl_pfree := f\<rparr>) = p_link pool"
  "p_slab (stat_upd k g pool) = p_slab pool" "p_next (stat_upd k g pool) = p_next pool"
  "p_link (stat_upd k g pool) = p_link pool"
  "p_slab (set_map i n w pool) = p_slab pool" "p_next (set_map i n w pool) = p_next pool"
  "p_link (set_map i n w pool) = p_link pool"
  by (auto simp: fun_eq_iff p_slab_def p_next_def p_link_def stat_upd_def set_map_def)

definition slab_rest :: "slab_pool \<Rightarrow> nat \<times> nat \<times> nat \<times> nat \<times> nat \<times> (nat \<Rightarrow> nat \<Rightarrow> 64 word) \<times> (nat \<Rightarrow> slab_stat)" where
  \<comment> \<open>what the operations on pages do not touch\<close>
  "slab_rest pool = (sl_min_shift pool, sl_page_shift pool, sl_count pool, sl_start pool, sl_end pool,
     sl_map pool, sl_stats pool)"

lemma slab_rest_simps [simp]:
  "slab_rest (set_slab r v pool) = slab_rest pool" "slab_rest (set_next r y pool) = slab_rest pool"
  "slab_rest (set_prev r z pool) = slab_rest pool" "slab_rest (pool\<lparr>sl_pfree := f\<rparr>) = slab_rest pool"
  "sl_pfree (set_slab r v pool) = sl_pfree pool" "sl_pfree (set_next r y pool) = sl_pfree pool"
  "sl_pfree (set_prev r z pool) = sl_pfree pool"
  "sl_count (set_slab r v pool) = sl_count pool" "sl_count (set_next r y pool) = sl_count pool"
  "sl_count (set_prev r z pool) = sl_count pool"
  by (simp_all add: slab_rest_def set_slab_def set_next_def set_prev_def)

lemma slab_rest_eq:
  "slab_rest pool' = slab_rest pool \<Longrightarrow>
   sl_min_shift pool' = sl_min_shift pool \<and> sl_page_shift pool' = sl_page_shift pool \<and>
   sl_count pool' = sl_count pool \<and> sl_start pool' = sl_start pool \<and> sl_end pool' = sl_end pool \<and>
   sl_map pool' = sl_map pool \<and> sl_stats pool' = sl_stats pool"
  by (simp add: slab_rest_def)

section \<open>Linked lists of descriptors\<close>

fun slab_list :: "(slab_ref \<Rightarrow> slab_ref) \<Rightarrow> (slab_ref \<Rightarrow> slab_ref \<times> slab_type) \<Rightarrow> slab_type \<Rightarrow>
    slab_ref \<Rightarrow> slab_ref list \<Rightarrow> slab_ref \<Rightarrow> bool" where
  \<comment> \<open>from \<open>a\<close> over \<open>xs\<close> to \<open>z\<close>; the \<open>prev\<close> of the head of a list is never read\<close>
  "slab_list n l T a [] z \<longleftrightarrow> n a = z"
| "slab_list n l T a (x # xs) z \<longleftrightarrow> n a = x \<and> l x = (a, T) \<and> slab_list n l T x xs z"

lemma slab_list_append:
  "slab_list n l T a (xs @ y # ys) z \<longleftrightarrow> slab_list n l T a xs y \<and> l y = (last (a # xs), T) \<and> slab_list n l T y ys z"
  by (induction xs arbitrary: a) auto

lemma slab_list_cong:
  "(\<And>y. y \<in> insert a (set xs) \<Longrightarrow> n' y = n y) \<Longrightarrow> (\<And>y. y \<in> set xs \<Longrightarrow> l' y = l y) \<Longrightarrow>
   slab_list n' l' T a xs z = slab_list n l T a xs z"
  by (induction xs arbitrary: a) auto

lemma slab_list_upd [simp]:
  "y \<notin> insert a (set xs) \<Longrightarrow> slab_list (n(y := v)) l T a xs z = slab_list n l T a xs z"
  "y \<notin> set xs \<Longrightarrow> slab_list n (l(y := w)) T a xs z = slab_list n l T a xs z"
  by (rule slab_list_cong; auto)+

lemma slab_list_last:
  \<comment> \<open>redirecting the last pointer\<close>
  "distinct (a # xs) \<Longrightarrow> slab_list n l T a xs z \<Longrightarrow> slab_list (n(last (a # xs) := z')) l T a xs z'"
proof (induction xs arbitrary: a)
  case (Cons x xs)
  have "last (x # xs) \<noteq> a" using Cons.prems(1) last_in_set [of "x # xs"] by auto
  then show ?case using Cons by auto
qed simp

lemma slab_list_next: "slab_list n l T a (x # xs) z \<Longrightarrow> n x = hd (xs @ [z])"
  by (cases xs) auto

lemma slab_list_splitD:
  assumes "slab_list n l T a (xs @ x # ys) z"
  shows "slab_list n l T a xs x" "l x = (last (a # xs), T)" "slab_list n l T x ys z"
    "n x = hd (ys @ [z])"
proof -
  from assms show "slab_list n l T a xs x" "l x = (last (a # xs), T)" "slab_list n l T x ys z"
    unfolding slab_list_append by blast+
  then show "n x = hd (ys @ [z])" by (cases ys) simp_all
qed

lemma slab_list_appendI:
  "slab_list n l T a xs y \<Longrightarrow> l y = (last (a # xs), T) \<Longrightarrow> slab_list n l T y ys z \<Longrightarrow>
   slab_list n l T a (xs @ y # ys) z"
  unfolding slab_list_append by blast

lemma last_not_in: "distinct (a # xs @ ys) \<Longrightarrow> last (a # xs) \<notin> set ys"
  using last_in_set [of "a # xs"] by auto

lemma slab_list_remove:
  assumes l: "slab_list n l T a (xs @ x # ys) z" and d: "distinct (a # xs @ x # ys)" and z: "z \<notin> set (xs @ x # ys)"
  shows "slab_list (n(last (a # xs) := hd (ys @ [z]))) (l(hd (ys @ [z]) := (last (a # xs), T))) T a (xs @ ys) z"
proof (cases ys)
  case Nil
  have "slab_list (n(last (a # xs) := z)) l T a xs z"
    using d by (intro slab_list_last [OF _ slab_list_splitD(1) [OF l]]) simp
  then show ?thesis using z Nil by (subst slab_list_upd(2)) simp_all
next
  case (Cons y ys')
  let ?n = "n(last (a # xs) := y)" let ?l = "l(y := (last (a # xs), T))"
  have p: "last (a # xs) \<notin> set ys" using last_not_in [of a xs "x # ys"] d by simp
  have "slab_list ?n l T a xs y" using d by (intro slab_list_last [OF _ slab_list_splitD(1) [OF l]]) simp
  then have "slab_list ?n ?l T a xs y" using d Cons by (subst slab_list_upd(2)) auto
  moreover have "slab_list n l T y ys' z" using slab_list_splitD(3) [OF l] Cons by simp
  then have "slab_list ?n ?l T y ys' z"
    using d p Cons by (subst slab_list_upd(2), simp, subst slab_list_upd(1)) auto
  ultimately show ?thesis unfolding Cons by (intro slab_list_appendI) simp_all
qed

lemma slab_list_insert:
  \<comment> \<open>at the head\<close>
  assumes "slab_list n l T a xs a" "distinct (x # a # xs)"
  shows "slab_list (n(x := n a, a := x)) (l(x := (a, T), hd (xs @ [a]) := (x, T))) T a (x # xs) a"
proof (cases xs)
  case Nil
  then show ?thesis using assms by simp
next
  case (Cons y ys)
  then show ?thesis using assms by auto
qed

lemma slab_list_replace:
  assumes l: "slab_list n l T a (xs @ x # ys) a" and d: "distinct (y # a # xs @ x # ys)"
  shows "slab_list (n(y := n x, last (a # xs) := y))
    (l(y := (last (a # xs), T), hd (ys @ [a]) := (y, T))) T a (xs @ y # ys) a"
proof (rule slab_list_appendI)
  let ?p = "last (a # xs)" let ?q = "hd (ys @ [a])"
  let ?n = "n(y := n x, ?p := y)" let ?l = "l(y := (?p, T), ?q := (y, T))"
  have p: "?p \<in> insert a (set xs)" using last_in_set [of "a # xs"] by auto
  have q: "?q \<in> insert a (set ys)" by (cases ys) auto
  have "slab_list (n(?p := y)) l T a xs y"
    using d by (intro slab_list_last [OF _ slab_list_splitD(1) [OF l]]) simp
  moreover have "slab_list ?n ?l T a xs y = slab_list (n(?p := y)) l T a xs y"
    using d q by (intro slab_list_cong) auto
  ultimately show "slab_list ?n ?l T a xs y" by simp
  have "y \<noteq> ?q" using q d by auto
  then show "?l y = (?p, T)" by simp
  have ny: "?n y = ?q" using d p slab_list_splitD(4) [OF l] by auto
  show "slab_list ?n ?l T y ys a"
  proof (cases ys)
    case Nil
    then show ?thesis using ny by simp
  next
    case (Cons w ws)
    have "slab_list n l T w ws a" using slab_list_splitD(3) [OF l] Cons by simp
    moreover have "slab_list ?n ?l T w ws a = slab_list n l T w ws a"
      using d p Cons by (intro slab_list_cong) auto
    ultimately show ?thesis using ny Cons by simp
  qed
qed

section \<open>Blocks\<close>

datatype slab_seg = Free_Seg nat | Used_Seg nat | Chunk_Seg nat "nat set"
  \<comment> \<open>free or given out pages, or a page cut into chunks: its slot and the chunks given out\<close>

fun seg_len :: "slab_seg \<Rightarrow> nat" where
  "seg_len (Free_Seg n) = n" | "seg_len (Used_Seg n) = n" | "seg_len (Chunk_Seg k B) = 1"

fun seg_free :: "slab_seg \<Rightarrow> bool" where
  "seg_free (Free_Seg n) = True" | "seg_free _ = False"

type_synonym slab_heads = "nat \<rightharpoonup> slab_seg"   \<comment> \<open>the block that starts at a page\<close>

definition slab_tiles :: "nat \<Rightarrow> slab_heads \<Rightarrow> bool" where
  "slab_tiles N H \<longleftrightarrow>
     (\<forall>i s. H i = Some s \<longrightarrow> 0 < seg_len s \<and> i + seg_len s \<le> N \<and>
        (\<forall>j. i < j \<and> j < i + seg_len s \<longrightarrow> H j = None) \<and> (i + seg_len s < N \<longrightarrow> H (i + seg_len s) \<noteq> None)) \<and>
     (0 < N \<longrightarrow> H 0 \<noteq> None)"

lemma tilesD:
  assumes "slab_tiles N H" "H i = Some s"
  shows "0 < seg_len s" "i + seg_len s \<le> N" "i < j \<Longrightarrow> j < i + seg_len s \<Longrightarrow> H j = None"
    "i + seg_len s < N \<Longrightarrow> H (i + seg_len s) \<noteq> None"
  using assms unfolding slab_tiles_def by blast+

lemma tiles_apart:
  assumes "slab_tiles N H" "H i = Some s" "H j = Some t" "i < j"
  shows "i + seg_len s \<le> j"
  using tilesD(3) [OF assms(1,2,4)] assms(3) by fastforce

lemma tiles_disjoint:
  assumes "slab_tiles N H" "H i = Some s" "H j = Some t" "i \<noteq> j" "i \<le> x" "x < i + seg_len s"
  shows "\<not> (j \<le> x \<and> x < j + seg_len t)"
  using tiles_apart [OF assms(1,2,3)] tiles_apart [OF assms(1,3,2)] assms(4-6) by linarith

lemma tiles_cover:
  assumes "slab_tiles N H" "j < N"
  shows "\<exists>i s. H i = Some s \<and> i \<le> j \<and> j < i + seg_len s"
  using assms(2)
proof (induction j)
  case 0
  then obtain s where "H 0 = Some s" using assms(1) unfolding slab_tiles_def by auto
  then show ?case using tilesD(1) [OF assms(1)] by fastforce
next
  case (Suc j)
  then obtain i s where i: "H i = Some s" "i \<le> j" "j < i + seg_len s" by auto
  show ?case
  proof (cases "Suc j < i + seg_len s")
    case False
    then have e: "Suc j = i + seg_len s" using i(3) by simp
    then obtain t where "H (Suc j) = Some t" using tilesD(4) [OF assms(1) i(1)] Suc.prems by auto
    then show ?thesis using tilesD(1) [OF assms(1)] by fastforce
  qed (use i in fastforce)
qed

lemma tiles_before:
  assumes "slab_tiles N H" "H i = Some s" "0 < i"
  shows "\<exists>j t. H j = Some t \<and> j + seg_len t = i"
proof -
  have "i - 1 < N" using tilesD(1,2) [OF assms(1,2)] by linarith
  then obtain j t where j: "H j = Some t" "j \<le> i - 1" "i - 1 < j + seg_len t"
    using tiles_cover [OF assms(1)] by blast
  then have "j + seg_len t \<le> i" using tiles_apart [OF assms(1) j(1) assms(2)] assms(3) by linarith
  then show ?thesis using j by (intro exI [of _ j] exI [of _ t]) linarith
qed

lemma tiles_same:
  \<comment> \<open>a block changes its kind\<close>
  assumes "slab_tiles N H" "H i = Some s" "seg_len t = seg_len s"
  shows "slab_tiles N (H(i \<mapsto> t))"
  unfolding slab_tiles_def
proof (intro conjI allI impI, goal_cases)
  case (1 j w)
  then show ?case using assms(2,3) tilesD(1) [OF assms(1)] by (auto split: if_splits)
next
  case (2 j w)
  then show ?case using assms(3) tilesD(2) [OF assms(1,2)] tilesD(2) [OF assms(1)] by (auto split: if_splits)
next
  case (3 j w x)
  then show ?case
    using assms(2,3) tilesD(3) [OF assms(1,2)] tilesD(3) [OF assms(1), of j w x] by (auto split: if_splits)
next
  case (4 j w)
  then show ?case using assms(3) tilesD(4) [OF assms(1,2)] tilesD(4) [OF assms(1), of j w] by (auto split: if_splits)
next
  case 5
  then show ?case using assms(1) unfolding slab_tiles_def by auto
qed

lemma tiles_split:
  assumes t: "slab_tiles N H" and i: "H i = Some s" "seg_len t + seg_len u = seg_len s" "0 < seg_len t" "0 < seg_len u"
  shows "slab_tiles N (H(i \<mapsto> t, i + seg_len t \<mapsto> u))"
  unfolding slab_tiles_def
proof (intro conjI allI impI, goal_cases)
  case (1 j v)
  then show ?case using i(3,4) tilesD(1) [OF t] by (auto split: if_splits)
next
  case (2 j v)
  then show ?case using i tilesD(2) [OF t i(1)] tilesD(2) [OF t, of j v] by (auto split: if_splits)
next
  case (3 j v x)
  have h: "H y = Some w \<Longrightarrow> y \<noteq> i \<Longrightarrow> y < x \<Longrightarrow> x < y + seg_len w \<Longrightarrow> x \<noteq> i \<and> x \<noteq> i + seg_len t" for y w
    using tiles_disjoint [OF t, of y w i s x] i by auto
  consider "j = i + seg_len t" | "j = i" "j \<noteq> i + seg_len t" | "j \<noteq> i" "j \<noteq> i + seg_len t" by blast
  then show ?case
  proof cases
    case 1
    then show ?thesis using 3 i tilesD(3) [OF t i(1), of x] by auto
  next
    case 2
    then show ?thesis using 3 i tilesD(3) [OF t i(1), of x] by auto
  next
    case c: 3
    then show ?thesis using 3 h [of j v] tilesD(3) [OF t, of j v x] by auto
  qed
next
  case (4 j v)
  consider "j = i + seg_len t" | "j = i" "j \<noteq> i + seg_len t" | "j \<noteq> i" "j \<noteq> i + seg_len t" by blast
  then show ?case
  proof cases
    case 1
    then have "j + seg_len v = i + seg_len s" using 4(1) i(2) by simp
    then show ?thesis using tilesD(4) [OF t i(1)] 4(2) by simp
  next
    case 2
    then show ?thesis using 4(1) by simp
  next
    case 3
    then have "H j = Some v" using 4(1) by simp
    then show ?thesis using tilesD(4) [OF t, of j v] 4(2) by simp
  qed
next
  case 5
  then show ?case using t unfolding slab_tiles_def by auto
qed

lemma tiles_join:
  assumes t: "slab_tiles N H" and i: "H i = Some s" "H (i + seg_len s) = Some u" "seg_len v = seg_len s + seg_len u"
  shows "slab_tiles N (H(i + seg_len s := None, i \<mapsto> v))"
  unfolding slab_tiles_def
proof (intro conjI allI impI, goal_cases)
  case (1 j w)
  then show ?case using i tilesD(1) [OF t] by (auto split: if_splits)
next
  case (2 j w)
  then show ?case
    using i(3) tilesD(2) [OF t i(2)] tilesD(2) [OF t, of j w]
    by (cases "j = i"; cases "j = i + seg_len s") simp_all
next
  case (3 j w x)
  show ?case
  proof (cases "j = i")
    case True
    then have "x < i + seg_len s + seg_len u" "i < x" using 3 i by auto
    then show ?thesis
      using tilesD(3) [OF t i(1), of x] tilesD(3) [OF t i(2), of x] tilesD(1) [OF t i(1)]
      by (cases "x < i + seg_len s"; cases "x = i + seg_len s") auto
  next
    case False
    then have w: "H j = Some w" using 3(1) by (auto split: if_splits)
    then have "H x = None" using 3(2) tilesD(3) [OF t w] by blast
    moreover have "x \<noteq> i" using calculation i(1) by auto
    ultimately show ?thesis by simp
  qed
next
  case (4 j w)
  show ?case
  proof (cases "j = i")
    case True
    then have e: "j + seg_len w = i + seg_len s + seg_len u" using 4 i by simp
    then show ?thesis using 4 tilesD(4) [OF t i(2)] tilesD(1) [OF t i(2)] by auto
  next
    case False
    then have w: "H j = Some w" "j \<noteq> i + seg_len s" using 4 by (auto split: if_splits)
    have "j + seg_len w \<noteq> i + seg_len s"
      using tiles_apart [OF t w(1) i(1)] tiles_apart [OF t i(1) w(1)] tilesD(1) [OF t i(1)] tilesD(1) [OF t w(1)]
        False w(2) by (cases "j < i") linarith+
    then show ?thesis using 4 tilesD(4) [OF t w(1)] by simp
  qed
next
  case 5
  then show ?case using t tilesD(1) [OF t i(1)] unfolding slab_tiles_def by auto
qed

section \<open>The invariant of the pages\<close>

definition slab_inner :: "slab_pool \<Rightarrow> nat \<Rightarrow> nat \<Rightarrow> 64 word \<Rightarrow> bool" where
  \<comment> \<open>the pages of a block behind its first\<close>
  "slab_inner pool i n w \<longleftrightarrow>
     (\<forall>j. i < j \<and> j < i + n \<longrightarrow> p_slab pool (SPage j) = w \<and> p_next pool (SPage j) = SNull \<and> p_type pool (SPage j) = SLAB_PAGE)"

fun seg_desc :: "slab_pool \<Rightarrow> nat \<Rightarrow> slab_seg \<Rightarrow> bool" where
  "seg_desc pool i (Free_Seg n) \<longleftrightarrow>
     p_slab pool (SPage i) = of_nat n \<and> slab_inner pool i n 0 \<and>
     \<comment> \<open>the last page points back, but for a block at the end of the pool\<close>
     (1 < n \<and> i + n < sl_count pool \<longrightarrow> p_prev pool (SPage (i + n - 1)) = SPage i)"
| "seg_desc pool i (Used_Seg n) \<longleftrightarrow>
     p_slab pool (SPage i) = of_nat n OR SLAB_PAGE_START \<and> p_next pool (SPage i) = SNull \<and>
     p_type pool (SPage i) = SLAB_PAGE \<and> slab_inner pool i n SLAB_PAGE_BUSY"
| "seg_desc pool i (Chunk_Seg k B) \<longleftrightarrow> p_type pool (SPage i) \<noteq> SLAB_PAGE"

lemma seg_desc_frame:
  assumes "seg_desc pool j s" "0 < seg_len s"
    and same: "\<And>x. j \<le> x \<Longrightarrow> x < j + seg_len s \<Longrightarrow> p_slab pool' (SPage x) = p_slab pool (SPage x)"
      "\<And>x. j \<le> x \<Longrightarrow> x < j + seg_len s \<Longrightarrow> x \<noteq> j \<or> \<not> seg_free s \<Longrightarrow>
      p_next pool' (SPage x) = p_next pool (SPage x) \<and> p_link pool' (SPage x) = p_link pool (SPage x)"
    and count: "sl_count pool' = sl_count pool"
  shows "seg_desc pool' j s"
proof -
  have inner: "slab_inner pool' j (seg_len s) w" if "slab_inner pool j (seg_len s) w" for w
    using that same unfolding slab_inner_def by simp
  show ?thesis
  proof (cases s)
    case (Free_Seg n)
    have "p_link pool' (SPage (j + n - 1)) = p_link pool (SPage (j + n - 1))" if "1 < n"
      using that same(2) [of "j + n - 1"] Free_Seg by simp
    then show ?thesis using assms(1,2) count same inner Free_Seg by auto
  qed (use assms(1,2) same inner in auto)
qed

definition slab_coalesced :: "slab_heads \<Rightarrow> bool" where
  \<comment> \<open>no two free blocks are adjacent\<close>
  "slab_coalesced H \<longleftrightarrow> (\<forall>i a b. H i = Some (Free_Seg a) \<longrightarrow> H (i + a) \<noteq> Some (Free_Seg b))"

definition slab_free_pages_of :: "nat \<Rightarrow> slab_heads \<Rightarrow> nat" where
  "slab_free_pages_of N H = (\<Sum>i<N. case H i of Some (Free_Seg n) \<Rightarrow> n | _ \<Rightarrow> 0)"

definition slab_pages_ok :: "slab_pool \<Rightarrow> slab_heads \<Rightarrow> nat list \<Rightarrow> bool" where
  \<comment> \<open>\<open>F\<close> is the free list\<close>
  "slab_pages_ok pool H F \<longleftrightarrow>
     slab_tiles (sl_count pool) H \<and> sl_count pool < 2 ^ 63 \<and> (\<forall>i s. H i = Some s \<longrightarrow> seg_desc pool i s) \<and>
     slab_coalesced H \<and>
     slab_list (p_next pool) (p_link pool) SLAB_PAGE SFree (map SPage F) SFree \<and> distinct F \<and>
     set F = {i. \<exists>n. H i = Some (Free_Seg n)} \<and>
     sl_pfree pool = of_nat (slab_free_pages_of (sl_count pool) H)"

lemma slab_pages_okD:
  assumes "slab_pages_ok pool H F"
  shows "slab_tiles (sl_count pool) H" "sl_count pool < 2 ^ 63" "H i = Some s \<Longrightarrow> seg_desc pool i s"
    "slab_coalesced H" "slab_list (p_next pool) (p_link pool) SLAB_PAGE SFree (map SPage F) SFree"
    "distinct F" "set F = {i. \<exists>n. H i = Some (Free_Seg n)}"
    "sl_pfree pool = of_nat (slab_free_pages_of (sl_count pool) H)"
  using assms unfolding slab_pages_ok_def by blast+

lemma slab_free_pages_of_upd:
  assumes "i < N"
  shows "slab_free_pages_of N (H(i := s)) + (case H i of Some (Free_Seg n) \<Rightarrow> n | _ \<Rightarrow> 0) =
    slab_free_pages_of N H + (case s of Some (Free_Seg n) \<Rightarrow> n | _ \<Rightarrow> 0)"
proof -
  have e: "{..<N} = insert i ({..<N} - {i})" using assms by auto
  have "(\<Sum>x<N. f x) = f i + (\<Sum>x \<in> {..<N} - {i}. f x)" for f :: "nat \<Rightarrow> nat"
    by (subst e, subst sum.insert) auto
  note this [of "\<lambda>x. case (H(i := s)) x of Some (Free_Seg n) \<Rightarrow> n | _ \<Rightarrow> 0"]
    this [of "\<lambda>x. case H x of Some (Free_Seg n) \<Rightarrow> n | _ \<Rightarrow> 0"]
  moreover have "(\<Sum>x \<in> {..<N} - {i}. case (H(i := s)) x of Some (Free_Seg n) \<Rightarrow> n | _ \<Rightarrow> 0) =
      (\<Sum>x \<in> {..<N} - {i}. case H x of Some (Free_Seg n) \<Rightarrow> n | _ \<Rightarrow> 0)"
    by (rule sum.cong) auto
  ultimately show ?thesis unfolding slab_free_pages_of_def by simp
qed

definition slab_free_refs :: "slab_heads \<Rightarrow> slab_ref set" where
  \<comment> \<open>the descriptors of free pages, and the head of their list\<close>
  "slab_free_refs H = insert SFree {SPage x | x i n. H i = Some (Free_Seg n) \<and> i \<le> x \<and> x < i + n}"

definition slab_same :: "slab_ref set \<Rightarrow> slab_pool \<Rightarrow> slab_pool \<Rightarrow> bool" where
  \<comment> \<open>the same descriptors outside of a set, and the same other fields\<close>
  "slab_same R pool pool' \<longleftrightarrow> slab_rest pool' = slab_rest pool \<and>
     (\<forall>r. r \<notin> R \<longrightarrow> p_slab pool' r = p_slab pool r \<and> p_next pool' r = p_next pool r \<and> p_link pool' r = p_link pool r)"

lemma slab_same_refl [simp]: "slab_same R pool pool"
  by (simp add: slab_same_def)

lemma slab_same_trans: "slab_same R pool p1 \<Longrightarrow> slab_same S p1 p2 \<Longrightarrow> R \<subseteq> T \<Longrightarrow> S \<subseteq> T \<Longrightarrow> slab_same T pool p2"
  unfolding slab_same_def by (metis subset_eq)

section \<open>Loops over descriptors\<close>

lemma slab_busy_pages_desc:
  "p_slab (slab_busy_pages i n pool) = (\<lambda>r. if r \<in> SPage ` {i..<i + n} then SLAB_PAGE_BUSY else p_slab pool r)"
  "p_next (slab_busy_pages i n pool) = (\<lambda>r. if r \<in> SPage ` {i..<i + n} then SNull else p_next pool r)"
  "p_link (slab_busy_pages i n pool) = (\<lambda>r. if r \<in> SPage ` {i..<i + n} then (SNull, SLAB_PAGE) else p_link pool r)"
  "slab_rest (slab_busy_pages i n pool) = slab_rest pool" "sl_pfree (slab_busy_pages i n pool) = sl_pfree pool"
proof (induction n arbitrary: i pool)
  case (Suc n)
  have e: "SPage ` {i..<i + Suc n} = insert (SPage i) (SPage ` {Suc i..<Suc i + n})" by auto
  { case 1 show ?case unfolding e by (auto simp: Suc.IH fun_eq_iff) }
  { case 2 show ?case unfolding e by (auto simp: Suc.IH fun_eq_iff) }
  { case 3 show ?case unfolding e by (auto simp: Suc.IH fun_eq_iff) }
  { case 4 show ?case by (simp add: Suc.IH) }
  { case 5 show ?case by (simp add: Suc.IH) }
qed simp_all

lemma slab_zero_pages_desc:
  "p_slab (slab_zero_pages i n pool) = (\<lambda>r. if r \<in> SPage ` {i..<i + n} then 0 else p_slab pool r)"
  "p_next (slab_zero_pages i n pool) = (\<lambda>r. if r \<in> SPage ` {i..<i + n} then SNull else p_next pool r)"
  "p_link (slab_zero_pages i n pool) = (\<lambda>r. if r \<in> SPage ` {i..<i + n} then (SNull, SLAB_PAGE) else p_link pool r)"
  "slab_rest (slab_zero_pages i n pool) = slab_rest pool" "sl_pfree (slab_zero_pages i n pool) = sl_pfree pool"
proof (induction n arbitrary: i pool)
  case (Suc n)
  have e: "SPage ` {i..<i + Suc n} = insert (SPage i) (SPage ` {Suc i..<Suc i + n})" by auto
  { case 1 show ?case unfolding e by (auto simp: Suc.IH fun_eq_iff) }
  { case 2 show ?case unfolding e by (auto simp: Suc.IH fun_eq_iff) }
  { case 3 show ?case unfolding e by (auto simp: Suc.IH fun_eq_iff) }
  { case 4 show ?case by (simp add: Suc.IH) }
  { case 5 show ?case by (simp add: Suc.IH) }
qed simp_all

lemma slab_find_pages_list:
  assumes "slab_list (p_next pool) l T a xs SFree" "SFree \<notin> set xs"
  shows "slab_find_pages pool pages (p_next pool a) =
    Some (case find (\<lambda>x. pages \<le> p_slab pool x) xs of None \<Rightarrow> SFree | Some x \<Rightarrow> x)"
  using assms
proof (induction xs arbitrary: a)
  case Nil
  then show ?case by (simp add: slab_find_pages.simps)
next
  case (Cons x xs)
  then show ?case by (subst slab_find_pages.simps) auto
qed

end
