(* ===== verification/Ngx_Slab_Take.thy ===== *)
theory Ngx_Slab_Take
  imports Ngx_Slab_Pages
begin

text \<open>
  Taking pages from a slab pool: \<open>ngx_slab_alloc_pages\<close> finds the first free block that is large
  enough and takes the pages at its front.
\<close>

section \<open>Numbers of pages as words\<close>

lemma page_word: "n < 2 ^ 63 \<Longrightarrow> unat (of_nat n :: 64 word) = n"
  by (simp add: unsigned_of_nat take_bit_nat_eq_self)

lemma page_word_less: "m < 2 ^ 63 \<Longrightarrow> n < 2 ^ 63 \<Longrightarrow> (of_nat m :: 64 word) < of_nat n \<longleftrightarrow> m < n"
  by (simp add: word_less_nat_alt page_word)

lemma page_word_le: "m < 2 ^ 63 \<Longrightarrow> n < 2 ^ 63 \<Longrightarrow> (of_nat m :: 64 word) \<le> of_nat n \<longleftrightarrow> m \<le> n"
  by (simp add: word_le_nat_alt page_word)

lemma page_word_sub: "n \<le> m \<Longrightarrow> (of_nat m :: 64 word) - of_nat n = of_nat (m - n)"
  by (simp add: of_nat_diff)

lemma page_word_pred: "0 < n \<Longrightarrow> n < 2 ^ 63 \<Longrightarrow> unat ((of_nat n :: 64 word) - 1) = n - 1"
  using page_word_sub [of 1 n] page_word [of "n - 1"] by simp

section \<open>The free list around a block\<close>

lemma slab_free_split:
  assumes "slab_pages_ok pool H F" "H i = Some (Free_Seg m)"
  obtains xs ys where "F = xs @ i # ys" "p_link pool (SPage i) = (last (SFree # map SPage xs), SLAB_PAGE)"
    "p_next pool (SPage i) = hd (map SPage ys @ [SFree])"
    "slab_list (p_next pool) (p_link pool) SLAB_PAGE SFree (map SPage xs @ SPage i # map SPage ys) SFree"
    "distinct (SFree # map SPage xs @ SPage i # map SPage ys)"
    "\<forall>j \<in> set xs \<union> set ys. \<exists>n. H j = Some (Free_Seg n)"
proof -
  note d = slab_pages_okD [OF assms(1)]
  have "i \<in> set F" using d(7) assms(2) by auto
  then obtain xs ys where F: "F = xs @ i # ys" by (meson split_list)
  have l: "slab_list (p_next pool) (p_link pool) SLAB_PAGE SFree (map SPage xs @ SPage i # map SPage ys) SFree"
    using d(5) F by simp
  show ?thesis
    by (rule that [OF F slab_list_splitD(2,4) [OF l] l])
      (use d(6,7) F in \<open>auto simp: distinct_map inj_on_def\<close>)
qed

lemma slab_list_ends:
  "last (SFree # map SPage xs) \<in> insert SFree (SPage ` set xs)"
  "hd (map SPage ys @ [SFree]) \<in> insert SFree (SPage ` set ys)"
proof -
  show "last (SFree # map SPage xs) \<in> insert SFree (SPage ` set xs)"
    using last_in_set [of "SFree # map SPage xs"] by auto
  show "hd (map SPage ys @ [SFree]) \<in> insert SFree (SPage ` set ys)" by (cases ys) simp_all
qed

lemma slab_free_block:
  assumes "slab_pages_ok pool H F" "H i = Some (Free_Seg m)"
  shows "0 < m" "m < 2 ^ 63" "i + m \<le> sl_count pool" "p_slab pool (SPage i) = of_nat m"
  using tilesD(1,2) [OF slab_pages_okD(1) [OF assms(1)] assms(2)] slab_pages_okD(2,3) [OF assms(1)] assms(2)
  by fastforce+

section \<open>The descriptors after a block is taken\<close>

lemma slab_take_split_desc:
  assumes "P \<noteq> SPage i" "Q \<noteq> SPage i" "p_link pool (SPage i) = (P, SLAB_PAGE)" "p_next pool (SPage i) = Q"
    and s: "p_slab pool (SPage i) = of_nat m" "0 < n" "n < m" "m < 2 ^ 63"
  defines "rest \<equiv> SPage (i + n)" and "B \<equiv> SPage ` {Suc i..<i + n}"
  shows "p_slab (slab_take_pages pool i (of_nat n)) =
      (\<lambda>r. if r \<in> B then SLAB_PAGE_BUSY
           else ((p_slab pool)(rest := of_nat (m - n), SPage i := of_nat n OR SLAB_PAGE_START)) r)"
    and "p_next (slab_take_pages pool i (of_nat n)) =
      (\<lambda>r. if r \<in> B then SNull else ((p_next pool)(rest := Q, P := rest, SPage i := SNull)) r)"
    and "p_link (slab_take_pages pool i (of_nat n)) =
      (\<lambda>r. if r \<in> B then (SNull, SLAB_PAGE)
           else ((p_link pool)(SPage (i + m - 1) := (rest, SLAB_PAGE), rest := (P, SLAB_PAGE), Q := (rest, SLAB_PAGE),
                 SPage i := (SNull, SLAB_PAGE))) r)"
    and "slab_rest (slab_take_pages pool i (of_nat n)) = slab_rest pool"
    and "sl_pfree (slab_take_pages pool i (of_nat n)) = sl_pfree pool - of_nat n"
proof -
  have u: "unat (of_nat n :: 64 word) = n" "unat (of_nat m :: 64 word) = m"
    "(of_nat n :: 64 word) < of_nat m" "unat ((of_nat n :: 64 word) - 1) = n - 1"
    using s by (simp_all add: page_word page_word_less page_word_pred)
  have b: "Suc (i + (n - Suc 0)) = i + n" using s by simp
  have ne: "i + m - 1 \<noteq> i" "i + n \<noteq> i" using s by auto
  note simps = slab_take_pages_def Let_def slab_busy_pages_desc u b s(1) assms(3,4) page_word_sub [OF less_imp_le [OF s(3)]]
    rest_def B_def
  show "p_slab (slab_take_pages pool i (of_nat n)) =
      (\<lambda>r. if r \<in> B then SLAB_PAGE_BUSY
           else ((p_slab pool)(rest := of_nat (m - n), SPage i := of_nat n OR SLAB_PAGE_START)) r)"
    using ne assms(1,2) by (intro ext) (simp add: simps)
  show "p_next (slab_take_pages pool i (of_nat n)) =
      (\<lambda>r. if r \<in> B then SNull else ((p_next pool)(rest := Q, P := rest, SPage i := SNull)) r)"
    using ne assms(1,2) by (intro ext) (simp add: simps)
  show "p_link (slab_take_pages pool i (of_nat n)) =
      (\<lambda>r. if r \<in> B then (SNull, SLAB_PAGE)
           else ((p_link pool)(SPage (i + m - 1) := (rest, SLAB_PAGE), rest := (P, SLAB_PAGE), Q := (rest, SLAB_PAGE),
                 SPage i := (SNull, SLAB_PAGE))) r)"
    using ne assms(1,2) by (intro ext) (simp add: simps)
  show "slab_rest (slab_take_pages pool i (of_nat n)) = slab_rest pool"
    by (simp add: simps)
  show "sl_pfree (slab_take_pages pool i (of_nat n)) = sl_pfree pool - of_nat n"
    by (simp add: simps)
qed

lemma slab_take_all_desc:
  assumes "P \<noteq> SPage i" "Q \<noteq> SPage i" "p_link pool (SPage i) = (P, SLAB_PAGE)" "p_next pool (SPage i) = Q"
    and s: "p_slab pool (SPage i) = of_nat n" "0 < n" "n < 2 ^ 63"
  defines "B \<equiv> SPage ` {Suc i..<i + n}"
  shows "p_slab (slab_take_pages pool i (of_nat n)) =
      (\<lambda>r. if r \<in> B then SLAB_PAGE_BUSY else ((p_slab pool)(SPage i := of_nat n OR SLAB_PAGE_START)) r)"
    and "p_next (slab_take_pages pool i (of_nat n)) =
      (\<lambda>r. if r \<in> B then SNull else ((p_next pool)(P := Q, SPage i := SNull)) r)"
    and "p_link (slab_take_pages pool i (of_nat n)) =
      (\<lambda>r. if r \<in> B then (SNull, SLAB_PAGE)
           else ((p_link pool)(Q := (P, SLAB_PAGE), SPage i := (SNull, SLAB_PAGE))) r)"
    and "slab_rest (slab_take_pages pool i (of_nat n)) = slab_rest pool"
    and "sl_pfree (slab_take_pages pool i (of_nat n)) = sl_pfree pool - of_nat n"
proof -
  have u: "unat ((of_nat n :: 64 word) - 1) = n - 1" using s by (simp add: page_word_pred)
  have b: "Suc (i + (n - Suc 0)) = i + n" using s by simp
  note simps = slab_take_pages_def Let_def slab_busy_pages_desc u b s(1) assms(3,4) B_def
  show "p_slab (slab_take_pages pool i (of_nat n)) =
      (\<lambda>r. if r \<in> B then SLAB_PAGE_BUSY else ((p_slab pool)(SPage i := of_nat n OR SLAB_PAGE_START)) r)"
    by (intro ext) (simp add: simps)
  show "p_next (slab_take_pages pool i (of_nat n)) =
      (\<lambda>r. if r \<in> B then SNull else ((p_next pool)(P := Q, SPage i := SNull)) r)"
    using assms(1,2) by (intro ext) (simp add: simps)
  show "p_link (slab_take_pages pool i (of_nat n)) =
      (\<lambda>r. if r \<in> B then (SNull, SLAB_PAGE)
           else ((p_link pool)(Q := (P, SLAB_PAGE), SPage i := (SNull, SLAB_PAGE))) r)"
    using assms(1,2) by (intro ext) (simp add: simps)
  show "slab_rest (slab_take_pages pool i (of_nat n)) = slab_rest pool"
    by (simp add: simps)
  show "sl_pfree (slab_take_pages pool i (of_nat n)) = sl_pfree pool - of_nat n"
    by (simp add: simps)
qed

section \<open>The invariant after a block is taken\<close>

definition slab_taken :: "slab_heads \<Rightarrow> nat \<Rightarrow> nat \<Rightarrow> nat \<Rightarrow> slab_heads" where
  "slab_taken H i n m =
     (if n < m then H(i \<mapsto> Used_Seg n, i + n \<mapsto> Free_Seg (m - n)) else H(i \<mapsto> Used_Seg n))"

definition slab_free_head :: "slab_heads \<Rightarrow> slab_ref \<Rightarrow> bool" where
  \<comment> \<open>what the free list links\<close>
  "slab_free_head H r \<longleftrightarrow> r = SFree \<or> (\<exists>x n. r = SPage x \<and> H x = Some (Free_Seg n))"

lemma slab_free_head_ends:
  assumes "\<forall>y \<in> set xs. \<exists>n. H y = Some (Free_Seg n)"
  shows "slab_free_head H (last (SFree # map SPage xs))" "slab_free_head H (hd (map SPage xs @ [SFree]))"
proof -
  have h: "slab_free_head H r" if "r \<in> insert SFree (SPage ` set xs)" for r
    using that assms by (auto simp: slab_free_head_def)
  show "slab_free_head H (last (SFree # map SPage xs))" by (rule h [OF slab_list_ends(1)])
  show "slab_free_head H (hd (map SPage xs @ [SFree]))" by (rule h [OF slab_list_ends(2)])
qed

lemma slab_free_head_inner:
  \<comment> \<open>a neighbour in the free list is not inside of a block\<close>
  assumes "slab_tiles N H" "H j = Some s" "j \<le> x" "x < j + seg_len s" "x \<noteq> j \<or> \<not> seg_free s" "slab_free_head H r"
  shows "r \<noteq> SPage x"
proof
  assume "r = SPage x"
  then obtain n where n: "H x = Some (Free_Seg n)" using assms(6) by (auto simp: slab_free_head_def)
  show False
  proof (cases "x = j")
    case False
    then show False using tilesD(3) [OF assms(1,2), of x] assms(3,4) n by simp
  qed (use n assms in auto)
qed

lemma free_refs_block: "H i = Some (Free_Seg m) \<Longrightarrow> i \<le> x \<Longrightarrow> x < i + m \<Longrightarrow> SPage x \<in> slab_free_refs H"
  by (auto simp: slab_free_refs_def)

lemma free_refs_head: "slab_tiles N H \<Longrightarrow> slab_free_head H r \<Longrightarrow> r \<in> slab_free_refs H"
  unfolding slab_free_head_def
proof (elim disjE exE conjE)
  fix x n assume "slab_tiles N H" "r = SPage x" "H x = Some (Free_Seg n)"
  then show "r \<in> slab_free_refs H" using free_refs_block [of H x n x] tilesD(1) [of N H x] by simp
qed (simp add: slab_free_refs_def)

lemma seg_desc_elsewhere:
  \<comment> \<open>a change of one block and of the links of two free blocks does not concern the other blocks\<close>
  assumes t: "slab_tiles N H" "H i = Some s0" and j: "H j = Some s" "j \<noteq> i" "seg_desc pool j s"
    and PQ: "slab_free_head H P" "slab_free_head H Q"
    and sl: "\<And>x. x < i \<or> i + seg_len s0 \<le> x \<Longrightarrow> p_slab pool' (SPage x) = p_slab pool (SPage x)"
    and nl: "\<And>x. x < i \<or> i + seg_len s0 \<le> x \<Longrightarrow> SPage x \<noteq> P \<Longrightarrow> SPage x \<noteq> Q \<Longrightarrow>
      p_next pool' (SPage x) = p_next pool (SPage x) \<and> p_link pool' (SPage x) = p_link pool (SPage x)"
    and count: "sl_count pool' = sl_count pool"
  shows "seg_desc pool' j s"
proof (rule seg_desc_frame [OF j(3) tilesD(1) [OF t(1) j(1)]])
  fix x assume x: "j \<le> x" "x < j + seg_len s"
  have far: "x < i \<or> i + seg_len s0 \<le> x"
    using tiles_disjoint [OF t(1) j(1) t(2) j(2) x] by linarith
  show "p_slab pool' (SPage x) = p_slab pool (SPage x)" by (rule sl [OF far])
  assume "x \<noteq> j \<or> \<not> seg_free s"
  then have "SPage x \<noteq> P" "SPage x \<noteq> Q"
    using slab_free_head_inner [OF t(1) j(1) x] PQ by blast+
  then show "p_next pool' (SPage x) = p_next pool (SPage x) \<and> p_link pool' (SPage x) = p_link pool (SPage x)"
    by (rule nl [OF far])
qed (rule count)

lemma slab_coalesced_split:
  assumes t: "slab_tiles N H" and c: "slab_coalesced H" and i: "H i = Some (Free_Seg m)" "0 < n" "n < m"
  shows "slab_coalesced (H(i \<mapsto> Used_Seg n, i + n \<mapsto> Free_Seg (m - n)))"
  unfolding slab_coalesced_def
proof (intro allI impI, goal_cases)
  case (1 j a b)
  show ?case
  proof (cases "j = i + n")
    case True
    then have a: "a = m - n" using 1 by simp
    then have "j + a = i + m" using True i by simp
    moreover have "H (i + m) \<noteq> Some (Free_Seg b)" using c i(1) unfolding slab_coalesced_def by blast
    ultimately show ?thesis using i by simp
  next
    case False
    then have j: "H j = Some (Free_Seg a)" "j \<noteq> i" using 1 by (auto split: if_splits)
    have "j + a \<le> i \<or> i + m \<le> j"
      using tiles_apart [OF t j(1) i(1)] tiles_apart [OF t i(1) j(1)] j(2) by fastforce
    then have "j + a \<noteq> i + n" using i(2,3) by linarith
    then show ?thesis using c j(1) unfolding slab_coalesced_def by auto
  qed
qed

lemma slab_free_count_split:
  assumes "i + n < N" "H i = Some (Free_Seg m)" "H (i + n) = None" "0 < n" "n < m"
  shows "slab_free_pages_of N (H(i \<mapsto> Used_Seg n, i + n \<mapsto> Free_Seg (m - n))) + n = slab_free_pages_of N H"
  using slab_free_pages_of_upd [of i N H "Some (Used_Seg n)"]
    slab_free_pages_of_upd [of "i + n" N "H(i \<mapsto> Used_Seg n)" "Some (Free_Seg (m - n))"] assms
  by simp

lemma slab_take_split_segs:
  assumes ok: "slab_pages_ok pool H F" and i: "H i = Some (Free_Seg m)" and n: "0 < n" "n < m"
    and PQ: "slab_free_head H P" "slab_free_head H Q" "P \<noteq> SPage i" "Q \<noteq> SPage i"
    and lk: "p_link pool (SPage i) = (P, SLAB_PAGE)" "p_next pool (SPage i) = Q"
    and j: "slab_taken H i n m j = Some s"
  shows "seg_desc (slab_take_pages pool i (of_nat n)) j s"
proof -
  note d = slab_pages_okD [OF ok] note b = slab_free_block [OF ok i]
  note desc = slab_take_split_desc [OF PQ(3,4) lk b(4) n b(2)]
  have inner: "slab_inner pool i m 0" using d(3) [OF i] by simp
  consider "j = i" "s = Used_Seg n" | "j = i + n" "s = Free_Seg (m - n)" | "j \<noteq> i" "j \<noteq> i + n" "H j = Some s"
    using j n unfolding slab_taken_def by (auto split: if_splits)
  then show ?thesis
  proof cases
    case 1
    then show ?thesis using n PQ by (auto simp: desc slab_inner_def)
  next
    case 2
    have x: "SPage x \<noteq> P" "SPage x \<noteq> Q" if "i < x" "x < i + m" for x
      using slab_free_head_inner [OF d(1) i, of x] PQ that by fastforce+
    have "slab_inner (slab_take_pages pool i (of_nat n)) (i + n) (m - n) 0"
      unfolding slab_inner_def
    proof (intro allI impI)
      fix x assume "i + n < x \<and> x < i + n + (m - n)"
      then have y: "i < x" "x < i + m" "i + n < x" using n by auto
      then show "p_slab (slab_take_pages pool i (of_nat n)) (SPage x) = 0 \<and>
          p_next (slab_take_pages pool i (of_nat n)) (SPage x) = SNull \<and>
          p_type (slab_take_pages pool i (of_nat n)) (SPage x) = SLAB_PAGE"
        using inner x [OF y(1,2)] unfolding slab_inner_def by (auto simp: desc)
    qed
    moreover have "p_prev (slab_take_pages pool i (of_nat n)) (SPage (i + m - 1)) = SPage (i + n)" if "1 < m - n"
      using that x(2) [of "i + m - 1"] n by (auto simp: desc)
    ultimately show ?thesis using 2 n by (auto simp: desc(1))
  next
    case 3
    show ?thesis
    proof (rule seg_desc_elsewhere [OF d(1) i 3(3,1) d(3) [OF 3(3)] PQ(1,2)], goal_cases)
      case (1 x)
      then show ?case using n by (auto simp: desc(1))
    next
      case (2 x)
      then show ?case using n by (auto simp: desc(2,3))
    qed (use slab_rest_eq [OF desc(4)] in simp)
  qed
qed

lemma slab_take_split_list:
  assumes ok: "slab_pages_ok pool H F" and i: "H i = Some (Free_Seg m)" and n: "0 < n" "n < m"
    and F: "F = xs @ i # ys"
  shows "slab_list (p_next (slab_take_pages pool i (of_nat n))) (p_link (slab_take_pages pool i (of_nat n))) SLAB_PAGE
    SFree (map SPage (xs @ (i + n) # ys)) SFree"
proof -
  note d = slab_pages_okD [OF ok] note b = slab_free_block [OF ok i]
  define P where "P = last (SFree # map SPage xs)"
  define Q where "Q = hd (map SPage ys @ [SFree])"
  define rest where "rest = SPage (i + n)"
  have l: "slab_list (p_next pool) (p_link pool) SLAB_PAGE SFree (map SPage xs @ SPage i # map SPage ys) SFree"
    using d(5) F by simp
  have dist: "distinct (SFree # map SPage xs @ SPage i # map SPage ys)"
    using d(6) F by (auto simp: distinct_map inj_on_def)
  have free: "\<exists>a. H j = Some (Free_Seg a)" if "j \<in> set xs \<union> set ys" for j 
    using that d(7) unfolding F by auto
  note lk = slab_list_splitD(2,4) [OF l, folded P_def Q_def]
  have PQ: "P \<noteq> SPage i" "Q \<noteq> SPage i" unfolding P_def Q_def using slab_list_ends [of xs] slab_list_ends(2) [of ys] dist by auto
  note desc = slab_take_split_desc [OF PQ lk b(4) n b(2), folded rest_def]
  have inner: "SPage x \<notin> set (map SPage xs @ map SPage ys)" if "i < x" "x < i + m" for x
    using tilesD(3) [OF d(1) i, of x] free that by fastforce
  have rest: "rest \<notin> set (SFree # map SPage xs @ SPage i # map SPage ys)"
    using inner [of "i + n"] n by (auto simp: rest_def)
  let ?l = "(p_link pool)(SPage (i + m - 1) := (rest, SLAB_PAGE))"
  have "SPage (i + m - 1) \<notin> set (map SPage xs @ SPage i # map SPage ys)"
    using inner [of "i + m - 1"] n by auto
  then have "slab_list (p_next pool) ?l SLAB_PAGE SFree (map SPage xs @ SPage i # map SPage ys) SFree"
    using l by (subst slab_list_upd(2)) simp_all
  from slab_list_replace [OF this, of rest] dist rest
  have "slab_list ((p_next pool)(rest := Q, P := rest))
      (?l(rest := (P, SLAB_PAGE), Q := (rest, SLAB_PAGE))) SLAB_PAGE SFree (map SPage xs @ rest # map SPage ys) SFree"
    unfolding P_def [symmetric] Q_def [symmetric] lk(2) by simp
  moreover have y: "y \<notin> SPage ` {Suc i..<i + n} \<and> y \<noteq> SPage i"
    if "y \<in> insert SFree (set (map SPage xs @ rest # map SPage ys))" for y
  proof -
    have "SPage x \<notin> insert SFree (set (map SPage xs @ rest # map SPage ys))" if "i \<le> x" "x < i + n" for x
      using that inner [of x] dist n by (cases "x = i") (auto simp: rest_def)
    then show ?thesis using that n(1) by fastforce
  qed
  ultimately show ?thesis
    unfolding list.map map_append rest_def [symmetric]
    by (subst slab_list_cong [where n = "(p_next pool)(rest := Q, P := rest)"
          and l = "?l(rest := (P, SLAB_PAGE), Q := (rest, SLAB_PAGE))"])
      (simp_all add: desc(2,3) y)
qed

lemma slab_take_split_ok:
  assumes ok: "slab_pages_ok pool H F" and i: "H i = Some (Free_Seg m)" and n: "0 < n" "n < m"
  shows "\<exists>F'. slab_pages_ok (slab_take_pages pool i (of_nat n)) (slab_taken H i n m) F'"
    and "slab_same (slab_free_refs H) pool (slab_take_pages pool i (of_nat n))"
proof -
  note d = slab_pages_okD [OF ok] note b = slab_free_block [OF ok i]
  obtain xs ys where F: "F = xs @ i # ys"
    and lk: "p_link pool (SPage i) = (last (SFree # map SPage xs), SLAB_PAGE)"
      "p_next pool (SPage i) = hd (map SPage ys @ [SFree])"
    and l: "slab_list (p_next pool) (p_link pool) SLAB_PAGE SFree (map SPage xs @ SPage i # map SPage ys) SFree"
    and dist: "distinct (SFree # map SPage xs @ SPage i # map SPage ys)"
    and free: "\<forall>j \<in> set xs \<union> set ys. \<exists>n. H j = Some (Free_Seg n)"
    by (rule slab_free_split [OF ok i])
  define P where "P = last (SFree # map SPage xs)"
  define Q where "Q = hd (map SPage ys @ [SFree])"
  have PQ: "slab_free_head H P" "slab_free_head H Q" "P \<noteq> SPage i" "Q \<noteq> SPage i"
    unfolding P_def Q_def using free slab_free_head_ends(1) [of xs H] slab_free_head_ends(2) [of ys H]
      slab_list_ends(1) [of xs] slab_list_ends(2) [of ys] dist by auto
  note lk' = lk [folded P_def Q_def]
  note desc = slab_take_split_desc [OF PQ(3,4) lk' b(4) n b(2)]
  have same: "sl_count (slab_take_pages pool i (of_nat n)) = sl_count pool"
    using slab_rest_eq [OF desc(4)] by simp
  have none: "H (i + n) = None" using tilesD(3) [OF d(1) i, of "i + n"] n by simp
  have H': "slab_taken H i n m = H(i \<mapsto> Used_Seg n, i + n \<mapsto> Free_Seg (m - n))" using n by (simp add: slab_taken_def)
  let ?F = "xs @ (i + n) # ys"
  have "set xs \<union> set ys = {j. \<exists>a. H j = Some (Free_Seg a)} - {i}" using d(6,7) unfolding F by auto
  moreover have "i + n \<notin> set xs" "i + n \<notin> set ys" using free [THEN bspec, of "i + n"] none by auto
  ultimately have F': "distinct ?F" "set ?F = {j. \<exists>a. slab_taken H i n m j = Some (Free_Seg a)}"
    using d(6) n none unfolding F H' by auto
  have "slab_free_pages_of (sl_count pool) (slab_taken H i n m) + n = slab_free_pages_of (sl_count pool) H"
    unfolding H' using slab_free_count_split [OF _ i none n] b(3) n by simp
  then have "sl_pfree pool - of_nat n = of_nat (slab_free_pages_of (sl_count pool) (slab_taken H i n m))"
    unfolding d(8) by (metis add_diff_cancel_right' of_nat_add)
  then have "slab_pages_ok (slab_take_pages pool i (of_nat n)) (slab_taken H i n m) ?F"
    unfolding slab_pages_ok_def same desc(5)
    using tiles_split [OF d(1) i, of "Used_Seg n" "Free_Seg (m - n)"] n d(2) F'
      slab_take_split_segs [OF ok i n PQ lk'] slab_take_split_list [OF ok i n F] slab_coalesced_split [OF d(1,4) i n]
    by (intro conjI allI impI) (simp_all add: H')
  then show "\<exists>F'. slab_pages_ok (slab_take_pages pool i (of_nat n)) (slab_taken H i n m) F'" by blast
  have out: "r \<noteq> P" "r \<noteq> Q" "r \<notin> SPage ` {i..<i + m}" if "r \<notin> slab_free_refs H" for r
    using that free_refs_head [OF d(1)] PQ free_refs_block [of H i m, OF i] by auto
  show "slab_same (slab_free_refs H) pool (slab_take_pages pool i (of_nat n))"
    unfolding slab_same_def
  proof (intro conjI allI impI desc(4), goal_cases)
    case (1 r)
    then show ?case using out(3) [of r] n by (auto simp: desc(1))
  next
    case (2 r)
    then show ?case using out [of r] n by (auto simp: desc(2))
  next
    case (3 r)
    then show ?case using out [of r] n by (auto simp: desc(3))
  qed
qed

lemma slab_take_all_list:
  assumes ok: "slab_pages_ok pool H F" and i: "H i = Some (Free_Seg n)" and F: "F = xs @ i # ys"
  shows "slab_list (p_next (slab_take_pages pool i (of_nat n))) (p_link (slab_take_pages pool i (of_nat n))) SLAB_PAGE
    SFree (map SPage (xs @ ys)) SFree"
proof -
  note d = slab_pages_okD [OF ok] note b = slab_free_block [OF ok i]
  define P where "P = last (SFree # map SPage xs)"
  define Q where "Q = hd (map SPage ys @ [SFree])"
  have l: "slab_list (p_next pool) (p_link pool) SLAB_PAGE SFree (map SPage xs @ SPage i # map SPage ys) SFree"
    using d(5) F by simp
  have dist: "distinct (SFree # map SPage xs @ SPage i # map SPage ys)"
    using d(6) F by (auto simp: distinct_map inj_on_def)
  have free: "\<exists>a. H j = Some (Free_Seg a)" if "j \<in> set xs \<union> set ys" for j
    using that d(7) unfolding F by auto
  note lk = slab_list_splitD(2,4) [OF l, folded P_def Q_def]
  have PQ: "P \<noteq> SPage i" "Q \<noteq> SPage i" unfolding P_def Q_def using slab_list_ends [of xs] slab_list_ends(2) [of ys] dist by auto
  note desc = slab_take_all_desc [OF PQ lk b(4,1,2)]
  have "slab_list ((p_next pool)(P := Q)) ((p_link pool)(Q := (P, SLAB_PAGE))) SLAB_PAGE SFree (map SPage xs @ map SPage ys) SFree"
    using slab_list_remove [OF l dist] unfolding P_def [symmetric] Q_def [symmetric] by auto
  moreover have y: "y \<notin> SPage ` {Suc i..<i + n} \<and> y \<noteq> SPage i"
    if "y \<in> insert SFree (set (map SPage xs @ map SPage ys))" for y
  proof (cases y)
    case (SPage x)
    then have x: "x \<in> set xs \<union> set ys" using that by auto
    then have "x \<noteq> i" using dist by auto
    moreover have "\<not> (i < x \<and> x < i + n)" using tilesD(3) [OF d(1) i, of x] free [OF x] by auto
    ultimately show ?thesis using SPage by auto
  qed auto
  ultimately show ?thesis
    unfolding list.map map_append
    by (subst slab_list_cong [where n = "(p_next pool)(P := Q)" and l = "(p_link pool)(Q := (P, SLAB_PAGE))"])
      (simp_all add: desc(2,3) y)
qed

lemma slab_take_all_segs:
  assumes ok: "slab_pages_ok pool H F" and i: "H i = Some (Free_Seg n)"
    and PQ: "slab_free_head H P" "slab_free_head H Q" "P \<noteq> SPage i" "Q \<noteq> SPage i"
    and lk: "p_link pool (SPage i) = (P, SLAB_PAGE)" "p_next pool (SPage i) = Q"
    and j: "(H(i \<mapsto> Used_Seg n)) j = Some s"
  shows "seg_desc (slab_take_pages pool i (of_nat n)) j s"
proof (cases "j = i")
  case True
  note b = slab_free_block [OF ok i]
  note desc = slab_take_all_desc [OF PQ(3,4) lk b(4,1,2)]
  show ?thesis using True j b(1) by (auto simp: desc slab_inner_def)
next
  case False
  note d = slab_pages_okD [OF ok] note b = slab_free_block [OF ok i]
  note desc = slab_take_all_desc [OF PQ(3,4) lk b(4,1,2)]
  have h: "H j = Some s" using j False by simp
  show ?thesis
  proof (rule seg_desc_elsewhere [OF d(1) i h False d(3) [OF h] PQ(1,2)], goal_cases)
    case (1 x)
    then show ?case using b(1) by (auto simp: desc(1))
  next
    case (2 x)
    then show ?case using b(1) by (auto simp: desc(2,3))
  qed (use slab_rest_eq [OF desc(4)] in simp)
qed

lemma slab_take_all_ok:
  assumes ok: "slab_pages_ok pool H F" and i: "H i = Some (Free_Seg n)"
  shows "\<exists>F'. slab_pages_ok (slab_take_pages pool i (of_nat n)) (slab_taken H i n n) F'"
    and "slab_same (slab_free_refs H) pool (slab_take_pages pool i (of_nat n))"
proof -
  note d = slab_pages_okD [OF ok] note b = slab_free_block [OF ok i]
  obtain xs ys where F: "F = xs @ i # ys"
    and lk: "p_link pool (SPage i) = (last (SFree # map SPage xs), SLAB_PAGE)"
      "p_next pool (SPage i) = hd (map SPage ys @ [SFree])"
    and l: "slab_list (p_next pool) (p_link pool) SLAB_PAGE SFree (map SPage xs @ SPage i # map SPage ys) SFree"
    and dist: "distinct (SFree # map SPage xs @ SPage i # map SPage ys)"
    and free: "\<forall>j \<in> set xs \<union> set ys. \<exists>n. H j = Some (Free_Seg n)"
    by (rule slab_free_split [OF ok i])
  define P where "P = last (SFree # map SPage xs)"
  define Q where "Q = hd (map SPage ys @ [SFree])"
  have PQ: "slab_free_head H P" "slab_free_head H Q" "P \<noteq> SPage i" "Q \<noteq> SPage i"
    unfolding P_def Q_def using free slab_free_head_ends(1) [of xs H] slab_free_head_ends(2) [of ys H]
      slab_list_ends(1) [of xs] slab_list_ends(2) [of ys] dist by auto
  note lk' = lk [folded P_def Q_def]
  note desc = slab_take_all_desc [OF PQ(3,4) lk' b(4,1,2)]
  have same: "sl_count (slab_take_pages pool i (of_nat n)) = sl_count pool"
    using slab_rest_eq [OF desc(4)] by simp
  have H': "slab_taken H i n n = H(i \<mapsto> Used_Seg n)" by (simp add: slab_taken_def)
  have "set xs \<union> set ys = {j. \<exists>a. H j = Some (Free_Seg a)} - {i}" using d(6,7) unfolding F by auto
  then have F': "distinct (xs @ ys)" "set (xs @ ys) = {j. \<exists>a. slab_taken H i n n j = Some (Free_Seg a)}"
    using d(6) unfolding F H' by auto
  have "slab_free_pages_of (sl_count pool) (slab_taken H i n n) + n = slab_free_pages_of (sl_count pool) H"
    using slab_free_pages_of_upd [of i "sl_count pool" H "Some (Used_Seg n)"] i b(1,3) by (simp add: H')
  then have "sl_pfree pool - of_nat n = of_nat (slab_free_pages_of (sl_count pool) (slab_taken H i n n))"
    unfolding d(8) by (metis add_diff_cancel_right' of_nat_add)
  moreover have "slab_coalesced (H(i \<mapsto> Used_Seg n))" using d(4) unfolding slab_coalesced_def by auto
  ultimately have "slab_pages_ok (slab_take_pages pool i (of_nat n)) (slab_taken H i n n) (xs @ ys)"
    unfolding slab_pages_ok_def same desc(5)
    using tiles_same [OF d(1) i, of "Used_Seg n"] d(2) F'
      slab_take_all_segs [OF ok i PQ lk'] slab_take_all_list [OF ok i F]
    by (intro conjI allI impI) (simp_all add: H')
  then show "\<exists>F'. slab_pages_ok (slab_take_pages pool i (of_nat n)) (slab_taken H i n n) F'" by blast
  have out: "r \<noteq> P" "r \<noteq> Q" "r \<notin> SPage ` {i..<i + n}" if "r \<notin> slab_free_refs H" for r
    using that free_refs_head [OF d(1)] PQ free_refs_block [of H i n, OF i] by auto
  show "slab_same (slab_free_refs H) pool (slab_take_pages pool i (of_nat n))"
    unfolding slab_same_def
  proof (intro conjI allI impI desc(4), goal_cases)
    case (1 r)
    then show ?case using out(3) [of r] b(1) by (auto simp: desc(1))
  next
    case (2 r)
    then show ?case using out [of r] b(1) by (auto simp: desc(2))
  next
    case (3 r)
    then show ?case using out [of r] b(1) by (auto simp: desc(3))
  qed
qed

section \<open>Allocation of pages\<close>

lemma slab_take_ok:
  assumes "slab_pages_ok pool H F" "H i = Some (Free_Seg m)" "0 < n" "n \<le> m"
  shows "\<exists>F'. slab_pages_ok (slab_take_pages pool i (of_nat n)) (slab_taken H i n m) F'"
    and "slab_same (slab_free_refs H) pool (slab_take_pages pool i (of_nat n))"
  using assms slab_take_split_ok [OF assms(1,2,3)] slab_take_all_ok [OF assms(1), of i m]
  by (cases "n = m"; simp)+

lemma slab_alloc_pages_ok:
  assumes ok: "slab_pages_ok pool H F" and n: "0 < n" "n < 2 ^ 63"
  shows "(\<exists>i m pool' F'. H i = Some (Free_Seg m) \<and> n \<le> m \<and>
      ngx_slab_alloc_pages pool (of_nat n) = Some (Some i, pool') \<and>
      slab_pages_ok pool' (slab_taken H i n m) F' \<and> slab_same (slab_free_refs H) pool pool') \<or>
    ngx_slab_alloc_pages pool (of_nat n) = Some (None, pool) \<and> (\<forall>i m. H i = Some (Free_Seg m) \<longrightarrow> m < n)"
proof -
  note d = slab_pages_okD [OF ok]
  have large: "of_nat n \<le> p_slab pool (SPage i) \<longleftrightarrow> n \<le> m" if "H i = Some (Free_Seg m)" for i m
    using slab_free_block [OF ok that] n page_word_le by simp
  have f: "slab_find_pages pool (of_nat n) (p_next pool SFree) =
      Some (case find (\<lambda>x. of_nat n \<le> p_slab pool x) (map SPage F) of None \<Rightarrow> SFree | Some x \<Rightarrow> x)"
    by (rule slab_find_pages_list [OF d(5)]) auto
  show ?thesis
  proof (cases "find (\<lambda>x. of_nat n \<le> p_slab pool x) (map SPage F)")
    case None
    then have "\<not> of_nat n \<le> p_slab pool (SPage i)" if "i \<in> set F" for i using that by (simp add: find_None_iff)
    then have "m < n" if "H i = Some (Free_Seg m)" for i m
      using large [OF that] d(7) that by auto
    then show ?thesis using None f by (simp add: ngx_slab_alloc_pages_def)
  next
    case (Some x)
    then obtain i where i: "x = SPage i" "i \<in> set F" "of_nat n \<le> p_slab pool x"
      by (auto simp: find_Some_iff)
    then obtain m where m: "H i = Some (Free_Seg m)" using d(7) by auto
    then have "n \<le> m" using large i by simp
    moreover have "ngx_slab_alloc_pages pool (of_nat n) = Some (Some i, slab_take_pages pool i (of_nat n))"
      using f Some i by (simp add: ngx_slab_alloc_pages_def)
    ultimately show ?thesis using m slab_take_ok [OF ok m n(1)] by blast
  qed
qed

end
