(* ===== verification/Ngx_Slab_Release.thy ===== *)
theory Ngx_Slab_Release
  imports Ngx_Slab_Take
begin

text \<open>
  Giving pages back to a slab pool: \<open>ngx_slab_free_pages\<close> joins the block with the free blocks
  behind and in front of it, so that free blocks are never adjacent.
\<close>

section \<open>A block on its way to the free list\<close>

definition slab_pending :: "slab_pool \<Rightarrow> slab_heads \<Rightarrow> nat list \<Rightarrow> nat \<Rightarrow> nat \<Rightarrow> bool" where
  \<comment> \<open>the block at \<open>i\<close> is free, but neither in the list nor joined\<close>
  "slab_pending pool H F i n \<longleftrightarrow>
     slab_tiles (sl_count pool) H \<and> sl_count pool < 2 ^ 63 \<and> H i = Some (Free_Seg n) \<and>
     (\<forall>j s. H j = Some s \<longrightarrow> j \<noteq> i \<longrightarrow> seg_desc pool j s) \<and>
     p_slab pool (SPage i) = of_nat n \<and> slab_inner pool i n 0 \<and>
     (\<forall>j a b. H j = Some (Free_Seg a) \<longrightarrow> H (j + a) = Some (Free_Seg b) \<longrightarrow> j = i \<or> j + a = i) \<and>
     slab_list (p_next pool) (p_link pool) SLAB_PAGE SFree (map SPage F) SFree \<and> distinct F \<and>
     set F = {j. j \<noteq> i \<and> (\<exists>n. H j = Some (Free_Seg n))} \<and>
     sl_pfree pool = of_nat (slab_free_pages_of (sl_count pool) H)"

lemma slab_pendingD:
  assumes "slab_pending pool H F i n"
  shows "slab_tiles (sl_count pool) H" "sl_count pool < 2 ^ 63" "H i = Some (Free_Seg n)"
    "H j = Some s \<Longrightarrow> j \<noteq> i \<Longrightarrow> seg_desc pool j s"
    "p_slab pool (SPage i) = of_nat n" "slab_inner pool i n 0"
    "H j = Some (Free_Seg a) \<Longrightarrow> H (j + a) = Some (Free_Seg b) \<Longrightarrow> j = i \<or> j + a = i"
    "slab_list (p_next pool) (p_link pool) SLAB_PAGE SFree (map SPage F) SFree" "distinct F"
    "set F = {j. j \<noteq> i \<and> (\<exists>n. H j = Some (Free_Seg n))}"
    "sl_pfree pool = of_nat (slab_free_pages_of (sl_count pool) H)"
  using assms unfolding slab_pending_def by blast+

lemma slab_pending_start:
  assumes ok: "slab_pages_ok pool H F" and i: "H i = Some s" "\<not> seg_free s" "n = seg_len s"
    and p1: "sl_count pool1 = sl_count pool" "sl_pfree pool1 = sl_pfree pool + of_nat n"
      "p_slab pool1 (SPage i) = of_nat n" "slab_inner pool1 i n 0"
    and same: "\<And>r. r \<notin> SPage ` {i..<i + n} \<Longrightarrow>
      p_slab pool1 r = p_slab pool r \<and> p_next pool1 r = p_next pool r \<and> p_link pool1 r = p_link pool r"
  shows "slab_pending pool1 (H(i \<mapsto> Free_Seg n)) F i n"
proof -
  note d = slab_pages_okD [OF ok]
  have len: "0 < n" "i + n \<le> sl_count pool" using tilesD(1,2) [OF d(1) i(1)] i(3) by auto
  have segs: "seg_desc pool1 j t" if "(H(i \<mapsto> Free_Seg n)) j = Some t" "j \<noteq> i" for j t
  proof -
    have h: "H j = Some t" using that by simp
    show ?thesis
      using same i(3) p1(1) by (intro seg_desc_elsewhere [OF d(1) i(1) h that(2) d(3) [OF h], of SFree SFree])
        (auto simp: slab_free_head_def)
  qed
  have y: "y \<notin> SPage ` {i..<i + n}" if y: "y \<in> insert SFree (set (map SPage F))" for y
  proof (cases y)
    case (SPage x)
    then have x: "\<exists>a. H x = Some (Free_Seg a)" using y d(7) by auto
    then have "x \<noteq> i" using i(1,2) by auto
    moreover have "\<not> (i < x \<and> x < i + n)" using tilesD(3) [OF d(1) i(1), of x] x i(3) by auto
    ultimately show ?thesis using SPage by auto
  qed auto
  have "slab_list (p_next pool1) (p_link pool1) SLAB_PAGE SFree (map SPage F) SFree"
    using d(5) same y by (subst slab_list_cong [where n = "p_next pool" and l = "p_link pool"]) simp_all
  moreover have "set F = {j. j \<noteq> i \<and> (\<exists>a. (H(i \<mapsto> Free_Seg n)) j = Some (Free_Seg a))}"
    using d(7) i(1,2) by auto
  moreover have "slab_free_pages_of (sl_count pool) (H(i \<mapsto> Free_Seg n)) = slab_free_pages_of (sl_count pool) H + n"
    using slab_free_pages_of_upd [of i "sl_count pool" H "Some (Free_Seg n)"] i len by (cases s) simp_all
  then have "sl_pfree pool1 = of_nat (slab_free_pages_of (sl_count pool) (H(i \<mapsto> Free_Seg n)))"
    using p1(2) d(8) by simp
  moreover have "j = i \<or> j + a = i" if "(H(i \<mapsto> Free_Seg n)) j = Some (Free_Seg a)"
      "(H(i \<mapsto> Free_Seg n)) (j + a) = Some (Free_Seg b)" for j a b
    using that d(4) unfolding slab_coalesced_def by (auto split: if_splits)
  ultimately show ?thesis
    unfolding slab_pending_def p1(1)
    using tiles_same [OF d(1) i(1), of "Free_Seg n"] i(3) d(2,6) segs p1(3,4) by simp
qed

section \<open>Taking a block out of the free list\<close>

lemma slab_unlink_desc:
  assumes "p_link pool page = (P, T)" "P \<noteq> page"
  shows "p_next (slab_unlink page pool) = (p_next pool)(P := p_next pool page)"
    "p_link (slab_unlink page pool) = (p_link pool)(p_next pool page := (P, T))"
    "p_slab (slab_unlink page pool) = p_slab pool" "slab_rest (slab_unlink page pool) = slab_rest pool"
    "sl_pfree (slab_unlink page pool) = sl_pfree pool"
  using assms by (simp_all add: slab_unlink_def Let_def)

lemma slab_clear_desc:
  "p_next (slab_clear page pool) = (p_next pool)(page := SNull)"
  "p_link (slab_clear page pool) = (p_link pool)(page := (SNull, SLAB_PAGE))"
  "p_slab (slab_clear page pool) = (p_slab pool)(page := 0)"
  "slab_rest (slab_clear page pool) = slab_rest pool" "sl_pfree (slab_clear page pool) = sl_pfree pool"
  by (simp_all add: slab_clear_def)

lemma slab_list_unlink_free:
  \<comment> \<open>the free list without \<open>k\<close>\<close>
  assumes "slab_list n l SLAB_PAGE SFree (map SPage F) SFree" "distinct F" "k \<in> set F"
  obtains P Q where "P \<in> insert SFree (SPage ` (set F - {k}))" "Q \<in> insert SFree (SPage ` (set F - {k}))"
    "l (SPage k) = (P, SLAB_PAGE)" "n (SPage k) = Q"
    "slab_list (n(P := Q)) (l(Q := (P, SLAB_PAGE))) SLAB_PAGE SFree (map SPage (remove1 k F)) SFree"
proof -
  obtain xs ys where F: "F = xs @ k # ys" "k \<notin> set xs" using split_list_first [OF assms(3)] by auto
  have l: "slab_list n l SLAB_PAGE SFree (map SPage xs @ SPage k # map SPage ys) SFree" using assms(1) F by simp
  have dist: "distinct (SFree # map SPage xs @ SPage k # map SPage ys)"
    using assms(2) F by (auto simp: distinct_map inj_on_def)
  have "slab_list (n(last (SFree # map SPage xs) := hd (map SPage ys @ [SFree])))
      (l(hd (map SPage ys @ [SFree]) := (last (SFree # map SPage xs), SLAB_PAGE))) SLAB_PAGE SFree
      (map SPage xs @ map SPage ys) SFree"
    by (rule slab_list_remove [OF l dist]) auto
  moreover have "map SPage (remove1 k F) = map SPage xs @ map SPage ys" using F by (simp add: remove1_append)
  ultimately show ?thesis
    using that [OF _ _ slab_list_splitD(2,4) [OF l]] slab_list_ends(1) [of xs] slab_list_ends(2) [of ys] assms(2) F
    by auto
qed

section \<open>Joining two blocks\<close>

lemma slab_pending_inner:
  assumes "slab_pending pool H F i n" "H j = Some (Free_Seg a)"
  shows "slab_inner pool j a 0"
  using slab_pendingD(3,4,6) [OF assms(1)] assms(2) by (cases "j = i") fastforce+

lemma slab_free_count_join:
  assumes "slab_tiles N H" "H l = Some (Free_Seg a)" "H (l + a) = Some (Free_Seg c)"
  shows "slab_free_pages_of N (H(l + a := None, l \<mapsto> Free_Seg (a + c))) = slab_free_pages_of N H"
proof -
  have "0 < a" "l < N" "l + a < N" using tilesD(1,2) [OF assms(1,2)] tilesD(1,2) [OF assms(1,3)] by auto
  then show ?thesis
    using slab_free_pages_of_upd [of "l + a" N H None] slab_free_pages_of_upd [of l N "H(l + a := None)" "Some (Free_Seg (a + c))"]
      assms by simp
qed

lemma slab_join_pending:
  assumes pend: "slab_pending pool H F i n"
    and lr: "H l = Some (Free_Seg a)" "H (l + a) = Some (Free_Seg c)" "{i, u} = {l, l + a}"
    and PQ: "P \<in> insert SFree (SPage ` (set F - {u}))" "Q \<in> insert SFree (SPage ` (set F - {u}))"
    and list: "slab_list ((p_next pool)(P := Q)) ((p_link pool)(Q := (P, SLAB_PAGE))) SLAB_PAGE SFree (map SPage (remove1 u F)) SFree"
    and desc: "p_slab pool' = (p_slab pool)(SPage l := of_nat (a + c), SPage (l + a) := 0)"
      "p_next pool' = (p_next pool)(P := Q, SPage (l + a) := SNull)"
      "p_link pool' = (p_link pool)(Q := (P, SLAB_PAGE), SPage (l + a) := (SNull, SLAB_PAGE))"
      "sl_count pool' = sl_count pool" "sl_pfree pool' = sl_pfree pool"
  shows "slab_pending pool' (H(l + a := None, l \<mapsto> Free_Seg (a + c))) (remove1 u F) l (a + c)"
proof -
  note d = slab_pendingD [OF pend]
  have pos: "0 < a" "0 < c" using tilesD(1) [OF d(1) lr(1)] tilesD(1) [OF d(1) lr(2)] by auto
  let ?H = "H(l + a := None, l \<mapsto> Free_Seg (a + c))"
  have tiles: "slab_tiles (sl_count pool) ?H"
    using tiles_join [OF d(1) lr(1), of "Free_Seg c" "Free_Seg (a + c)"] lr(2) by simp
  have F: "set (remove1 u F) = {j. j \<noteq> l \<and> (\<exists>m. ?H j = Some (Free_Seg m))}"
    using d(9,10) lr(3) pos by auto
  have PQ': "slab_free_head ?H P" "slab_free_head ?H Q" "P \<noteq> SPage l" "Q \<noteq> SPage l"
    using PQ F d(9) unfolding slab_free_head_def by auto
  have far: "P \<noteq> SPage x" "Q \<noteq> SPage x" if "l < x" "x < l + (a + c)" for x
    using slab_free_head_inner [OF tiles, of l "Free_Seg (a + c)" x] that PQ'(1,2) by fastforce+
  have inner: "slab_inner pool' l (a + c) 0"
    unfolding slab_inner_def
  proof (intro allI impI)
    fix x assume x: "l < x \<and> x < l + (a + c)"
    have old: "p_slab pool (SPage x) = 0 \<and> p_next pool (SPage x) = SNull \<and> p_type pool (SPage x) = SLAB_PAGE"
      if "x \<noteq> l + a"
    proof (cases "x < l + a")
      case True
      then show ?thesis using x slab_pending_inner [OF pend lr(1)] unfolding slab_inner_def by simp
    next
      case False
      then show ?thesis using that x slab_pending_inner [OF pend lr(2)] unfolding slab_inner_def by simp
    qed
    show "p_slab pool' (SPage x) = 0 \<and> p_next pool' (SPage x) = SNull \<and> p_type pool' (SPage x) = SLAB_PAGE"
      using x far [of x] old by (cases "x = l + a") (auto simp: desc)
  qed
  have segs: "seg_desc pool' j s" if j: "?H j = Some s" "j \<noteq> l" for j s
  proof -
    have h: "H j = Some s" "j \<noteq> l + a" using j by (auto split: if_splits)
    then have "j \<noteq> i" using j(2) lr(3) by auto
    then show ?thesis
      using pos by (intro seg_desc_elsewhere [OF tiles _ j d(4) [OF h(1)] PQ'(1,2), of "Free_Seg (a + c)"]) (auto simp: desc)
  qed
  have adj: "j = l \<or> j + m = l" if "?H j = Some (Free_Seg m)" "?H (j + m) = Some (Free_Seg b)" for j m b
  proof (rule ccontr)
    assume "\<not> (j = l \<or> j + m = l)"
    then have j: "j \<noteq> l" "j + m \<noteq> l" "j \<noteq> l + a" "j + m \<noteq> l + a" using that by auto
    then have "H j = Some (Free_Seg m)" "H (j + m) = Some (Free_Seg b)" using that by auto
    then have "j = i \<or> j + m = i" by (rule d(7))
    then show False using j lr(3) by auto
  qed
  have y: "SPage (l + a) \<notin> insert SFree (set (map SPage (remove1 u F)))" using F pos by auto
  have "slab_list (p_next pool') (p_link pool') SLAB_PAGE SFree (map SPage (remove1 u F)) SFree"
    using list y unfolding desc(2,3) by (subst slab_list_upd(1), simp, subst slab_list_upd(2)) auto
  moreover have "p_slab pool' (SPage l) = of_nat (a + c)" using pos by (simp add: desc)
  ultimately show ?thesis
    unfolding slab_pending_def desc(4,5)
    using tiles d(2,9,11) segs inner adj F slab_free_count_join [OF d(1) lr(1,2)] by (simp del: set_remove1_eq)
qed

definition slab_kept :: "slab_heads \<Rightarrow> slab_heads \<Rightarrow> bool" where
  \<comment> \<open>the same blocks in use\<close>
  "slab_kept H H' \<longleftrightarrow> (\<forall>j s. \<not> seg_free s \<longrightarrow> (H' j = Some s \<longleftrightarrow> H j = Some s))"

lemma slab_kept_refl [simp]: "slab_kept H H"
  by (simp add: slab_kept_def)

lemma slab_kept_trans: "slab_kept H H' \<Longrightarrow> slab_kept H' H'' \<Longrightarrow> slab_kept H H''"
  by (simp add: slab_kept_def)

lemma slab_kept_join:
  "H l = Some (Free_Seg a) \<Longrightarrow> H (l + a) = Some (Free_Seg c) \<Longrightarrow>
   slab_kept H (H(l + a := None, l \<mapsto> Free_Seg (a + c)))"
  by (auto simp: slab_kept_def)

lemma slab_free_refs_join:
  assumes "H l = Some (Free_Seg a)" "H (l + a) = Some (Free_Seg c)"
  shows "slab_free_refs (H(l + a := None, l \<mapsto> Free_Seg (a + c))) \<subseteq> slab_free_refs H"
proof
  fix r assume r: "r \<in> slab_free_refs (H(l + a := None, l \<mapsto> Free_Seg (a + c)))"
  show "r \<in> slab_free_refs H"
  proof (cases "r = SFree")
    case False
    then obtain x i n where x: "r = SPage x" "(H(l + a := None, l \<mapsto> Free_Seg (a + c))) i = Some (Free_Seg n)" "i \<le> x" "x < i + n"
      using r by (auto simp: slab_free_refs_def)
    show ?thesis
    proof (cases "i = l")
      case True
      then have "x < l + a + c" using x by (auto split: if_splits)
      then show ?thesis
        using True x(1,3) free_refs_block [of H l a x, OF assms(1)] free_refs_block [of H "l + a" c x, OF assms(2)]
        by (cases "x < l + a") auto
    next
      case False
      then show ?thesis using x free_refs_block [of H i n x] by (auto split: if_splits)
    qed
  qed (simp add: slab_free_refs_def)
qed

lemma page_word_add_pred: "0 < n \<Longrightarrow> (of_nat (n - 1) :: 64 word) + of_nat m = of_nat (n + m - 1)"
  by (metis Nat.add_diff_assoc2 One_nat_def Suc_leI of_nat_add)

lemma slab_pending_block:
  assumes pend: "slab_pending pool H F i n" and k: "H k = Some (Free_Seg b)" "k \<noteq> i"
  obtains P Q where "k \<in> set F" "P \<in> insert SFree (SPage ` (set F - {k}))" "Q \<in> insert SFree (SPage ` (set F - {k}))"
    "P \<noteq> SPage k" "Q \<noteq> SPage k" "P \<noteq> SPage i" "Q \<noteq> SPage i" "P \<noteq> SNull" "Q \<noteq> SNull"
    "slab_free_head H P" "slab_free_head H Q"
    "p_link pool (SPage k) = (P, SLAB_PAGE)" "p_next pool (SPage k) = Q" "p_slab pool (SPage k) = of_nat b"
    "slab_list ((p_next pool)(P := Q)) ((p_link pool)(Q := (P, SLAB_PAGE))) SLAB_PAGE SFree (map SPage (remove1 k F)) SFree"
proof -
  note d = slab_pendingD [OF pend]
  have kF: "k \<in> set F" using k d(10) by auto
  obtain P Q where PQ: "P \<in> insert SFree (SPage ` (set F - {k}))" "Q \<in> insert SFree (SPage ` (set F - {k}))"
    "p_link pool (SPage k) = (P, SLAB_PAGE)" "p_next pool (SPage k) = Q"
    "slab_list ((p_next pool)(P := Q)) ((p_link pool)(Q := (P, SLAB_PAGE))) SLAB_PAGE SFree (map SPage (remove1 k F)) SFree"
    by (rule slab_list_unlink_free [OF d(8,9) kF])
  show ?thesis
    by (rule that [OF kF PQ(1,2) _ _ _ _ _ _ _ _ PQ(3,4) _ PQ(5)])
      (use PQ(1,2) d(4) [OF k] d(10) in \<open>auto simp: slab_free_head_def\<close>)
qed

lemma slab_same_join:
  assumes "slab_tiles N H" "slab_free_head H P" "slab_free_head H Q" "SPage l \<in> R" "SPage r \<in> R" "slab_free_refs H \<subseteq> R"
    and "p_slab pool' = (p_slab pool)(SPage l := v, SPage r := w)"
      "p_next pool' = (p_next pool)(P := Q, SPage r := x)" "p_link pool' = (p_link pool)(Q := y, SPage r := z)"
      "slab_rest pool' = slab_rest pool"
  shows "slab_same R pool pool'"
  using assms free_refs_head [OF assms(1,2)] free_refs_head [OF assms(1,3)] by (auto simp: slab_same_def)

lemma slab_next_cond:
  \<comment> \<open>the test for a free block behind is exact\<close>
  assumes pend: "slab_pending pool H F i n"
  shows "i + n < sl_count pool \<and> p_type pool (SPage (i + n)) = SLAB_PAGE \<and> p_next pool (SPage (i + n)) \<noteq> SNull \<longleftrightarrow>
    (\<exists>b. H (i + n) = Some (Free_Seg b))"
proof (cases "i + n < sl_count pool")
  case True
  note d = slab_pendingD [OF pend]
  obtain t where t: "H (i + n) = Some t" using True tilesD(4) [OF d(1,3)] by auto
  have ki: "i + n \<noteq> i" using tilesD(1) [OF d(1,3)] by simp
  show ?thesis
  proof (cases t)
    case (Free_Seg b)
    obtain P Q where "p_link pool (SPage (i + n)) = (P, SLAB_PAGE)" "p_next pool (SPage (i + n)) = Q" "Q \<noteq> SNull"
      by (rule slab_pending_block [OF pend t [unfolded Free_Seg] ki])
    then show ?thesis using True t Free_Seg by simp
  qed (use d(4) [OF t ki] t in auto)
next
  case False
  then show ?thesis using tilesD(1,2) [OF slab_pendingD(1) [OF pend], of "i + n"] by fastforce
qed

lemma slab_join_next_ok:
  assumes pend: "slab_pending pool H F i n"
  shows "\<exists>pool' H' F' n'. slab_join_next i pool (of_nat (n - 1)) = (pool', of_nat (n' - 1)) \<and>
    slab_pending pool' H' F' i n' \<and> (\<forall>b. H' (i + n') \<noteq> Some (Free_Seg b)) \<and>
    slab_kept H H' \<and> slab_free_refs H' \<subseteq> slab_free_refs H \<and> slab_same (slab_free_refs H) pool pool'"
proof -
  note d = slab_pendingD [OF pend]
  have len: "0 < n" "i + n \<le> sl_count pool" using tilesD(1,2) [OF d(1,3)] by auto
  have u: "unat (p_slab pool (SPage i)) = n" using d(2,5) len by (simp add: page_word)
  let ?k = "i + n"
  note cond = slab_next_cond [OF pend]
  show ?thesis
  proof (cases "\<exists>b. H ?k = Some (Free_Seg b)")
    case False
    then have "slab_join_next i pool (of_nat (n - 1)) = (pool, of_nat (n - 1))"
      using cond u by (auto simp: slab_join_next_def Let_def)
    then show ?thesis using pend False
      by (intro exI [of _ pool] exI [of _ H] exI [of _ F] exI [of _ n]) auto
  next
    case True
    then obtain b where b: "H ?k = Some (Free_Seg b)" by blast
    have ki: "?k \<noteq> i" using len by simp
    obtain P Q where kF: "?k \<in> set F" and PQ: "P \<in> insert SFree (SPage ` (set F - {?k}))" "Q \<in> insert SFree (SPage ` (set F - {?k}))"
      and ne: "P \<noteq> SPage ?k" "Q \<noteq> SPage ?k" "P \<noteq> SPage i" "Q \<noteq> SPage i" "P \<noteq> SNull" "Q \<noteq> SNull"
      and h: "slab_free_head H P" "slab_free_head H Q"
      and lk: "p_link pool (SPage ?k) = (P, SLAB_PAGE)" "p_next pool (SPage ?k) = Q" "p_slab pool (SPage ?k) = of_nat b"
      and l: "slab_list ((p_next pool)(P := Q)) ((p_link pool)(Q := (P, SLAB_PAGE))) SLAB_PAGE SFree (map SPage (remove1 ?k F)) SFree"
      by (rule slab_pending_block [OF pend b ki])
    define pool1 where "pool1 = set_slab (SPage i) (of_nat n + of_nat b) pool"
    define pool' where "pool' = slab_clear (SPage ?k) (slab_unlink (SPage ?k) pool1)"
    have j: "slab_join_next i pool (of_nat (n - 1)) = (pool', of_nat (n + b - 1))"
      using cond True u len lk(3) d(5)
      by (simp add: slab_join_next_def Let_def pool'_def pool1_def page_word_add_pred [OF len(1), simplified])
    have lk1: "p_link pool1 (SPage ?k) = (P, SLAB_PAGE)" "P \<noteq> SPage ?k" using lk ne by (simp_all add: pool1_def)
    have desc: "p_slab pool' = (p_slab pool)(SPage i := of_nat (n + b), SPage (i + n) := 0)"
      "p_next pool' = (p_next pool)(P := Q, SPage (i + n) := SNull)"
      "p_link pool' = (p_link pool)(Q := (P, SLAB_PAGE), SPage (i + n) := (SNull, SLAB_PAGE))"
      "slab_rest pool' = slab_rest pool" "sl_pfree pool' = sl_pfree pool"
      unfolding pool'_def slab_clear_desc slab_unlink_desc [OF lk1] by (simp_all add: pool1_def lk)
    let ?H = "H(i + n := None, i \<mapsto> Free_Seg (n + b))"
    have count: "sl_count pool' = sl_count pool" using slab_rest_eq [OF desc(4)] by simp
    have p: "slab_pending pool' ?H (remove1 ?k F) i (n + b)"
      by (rule slab_join_pending [OF pend d(3) b refl PQ l desc(1-3) count desc(5)])
    have bpos: "0 < b" using tilesD(1) [OF d(1) b] by simp
    have "?H (i + (n + b)) \<noteq> Some (Free_Seg c)" for c
    proof
      assume "?H (i + (n + b)) = Some (Free_Seg c)"
      then have "H (?k + b) = Some (Free_Seg c)" using bpos len by (auto simp: add.assoc)
      then show False using d(7) [OF b] ki len by auto
    qed
    moreover have "slab_same (slab_free_refs H) pool pool'"
      using desc(1-4) by (intro slab_same_join [OF d(1) h free_refs_block [of H i n i, OF d(3)] free_refs_block [of H ?k b ?k, OF b]]) (use len bpos in auto)
    ultimately show ?thesis
      using j p slab_kept_join [of H, OF d(3) b] slab_free_refs_join [of H, OF d(3) b] by blast
  qed
qed

lemma page_start_nonzero: "(w :: 64 word) OR SLAB_PAGE_START \<noteq> 0"
proof
  assume "w OR SLAB_PAGE_START = 0"
  then have "\<not> bit (w OR SLAB_PAGE_START) 63" by simp
  then show False by (simp add: bit_or_iff)
qed

lemma slab_before_free:
  assumes pend: "slab_pending pool H F i n" and j: "H j = Some (Free_Seg a)" "j + a = i"
  shows "0 < i" "p_type pool (SPage (i - 1)) = SLAB_PAGE" "slab_before pool i = SPage j" "p_next pool (SPage j) \<noteq> SNull"
proof -
  note d = slab_pendingD [OF pend]
  have a: "0 < a" "a < 2 ^ 63" using tilesD(1,2) [OF d(1) j(1)] d(2) by auto
  have ji: "j \<noteq> i" using j(2) a by simp
  have iN: "i < sl_count pool" using tilesD(1,2) [OF d(1,3)] by linarith
  obtain P Q where b: "p_link pool (SPage j) = (P, SLAB_PAGE)" "p_next pool (SPage j) = Q" "Q \<noteq> SNull" "p_slab pool (SPage j) = of_nat a"
    by (rule slab_pending_block [OF pend j(1) ji])
  have nz: "p_slab pool (SPage j) \<noteq> 0" using a b(4) page_word [of a] by force
  show "0 < i" using j a by simp
  show "p_next pool (SPage j) \<noteq> SNull" using b by simp
  have one: "i - 1 = j" if "a = 1" using that j by simp
  have inner: "p_slab pool (SPage (i - 1)) = 0 \<and> p_type pool (SPage (i - 1)) = SLAB_PAGE \<and>
      p_prev pool (SPage (i - 1)) = SPage j" if "a \<noteq> 1"
    using that slab_pending_inner [OF pend j(1)] d(4) [OF j(1) ji] j(2) a iN unfolding slab_inner_def by auto
  show "p_type pool (SPage (i - 1)) = SLAB_PAGE" using inner one b by (cases "a = 1") auto
  show "slab_before pool i = SPage j" using inner one nz by (cases "a = 1") (auto simp: slab_before_def)
qed

lemma slab_before_used:
  assumes pend: "slab_pending pool H F i n" and i: "0 < i" and j: "H j = Some t" "j + seg_len t = i" "\<not> seg_free t"
    and ty: "p_type pool (SPage (i - 1)) = SLAB_PAGE"
  shows "p_next pool (slab_before pool i) = SNull"
proof -
  note d = slab_pendingD [OF pend]
  have ji: "j \<noteq> i" using tilesD(1) [OF d(1) j(1)] j(2) by simp
  note s = d(4) [OF j(1) ji]
  have before: "slab_before pool i = SPage (i - 1) \<and> p_next pool (SPage (i - 1)) = SNull"
  proof (cases t)
    case (Used_Seg a)
    show ?thesis
    proof (cases "a = 1")
      case True
      then have "i - 1 = j" using j(2) Used_Seg by simp
      then show ?thesis using s Used_Seg page_start_nonzero by (simp add: slab_before_def)
    next
      case False
      then have "j < i - 1 \<and> i - 1 < j + a" using tilesD(1) [OF d(1) j(1)] j(2) Used_Seg by auto
      then have "p_slab pool (SPage (i - 1)) = SLAB_PAGE_BUSY \<and> p_next pool (SPage (i - 1)) = SNull"
        using s unfolding Used_Seg seg_desc.simps slab_inner_def by simp
      then show ?thesis by (simp add: slab_before_def)
    qed
  next
    case (Chunk_Seg k B)
    then have "i - 1 = j" using j(2) by simp
    then show ?thesis using s Chunk_Seg ty by simp
  qed (use j(3) in simp)
  then show ?thesis by simp
qed

lemma slab_join_prev_ok:
  assumes pend: "slab_pending pool H F i n" and nf: "\<And>b. H (i + n) \<noteq> Some (Free_Seg b)"
  shows "\<exists>l pool' H' F' n'. slab_join_prev i pool (of_nat (n - 1)) = (SPage l, pool', of_nat (n' - 1)) \<and>
    slab_pending pool' H' F' l n' \<and> slab_coalesced H' \<and>
    slab_kept H H' \<and> slab_free_refs H' \<subseteq> slab_free_refs H \<and> slab_same (slab_free_refs H) pool pool'"
proof (cases "\<exists>j a. H j = Some (Free_Seg a) \<and> j + a = i")
  case False
  note d = slab_pendingD [OF pend]
  have "slab_join_prev i pool (of_nat (n - 1)) = (SPage i, pool, of_nat (n - 1))"
  proof (cases "0 < i \<and> p_type pool (SPage (i - 1)) = SLAB_PAGE")
    case True
    then obtain j t where j: "H j = Some t" "j + seg_len t = i" using tiles_before [OF d(1,3)] by blast
    then have "\<not> seg_free t" using False by (cases t) auto
    then have "p_next pool (slab_before pool i) = SNull" using slab_before_used [OF pend _ j] True by blast
    then show ?thesis unfolding slab_join_prev_def Let_def by simp
  next
    case False
    then show ?thesis by (auto simp: slab_join_prev_def Let_def)
  qed
  moreover have "slab_coalesced H"
    unfolding slab_coalesced_def using d(3,7) False nf by fastforce
  ultimately show ?thesis using pend
    by (intro exI [of _ i] exI [of _ pool] exI [of _ H] exI [of _ F] exI [of _ n]) auto
next
  case True
  then obtain j a where j: "H j = Some (Free_Seg a)" "j + a = i" by blast
  note d = slab_pendingD [OF pend] note before = slab_before_free [OF pend j]
  have pos: "0 < a" "0 < n" using tilesD(1) [OF d(1) j(1)] tilesD(1) [OF d(1,3)] by auto
  have ji: "j \<noteq> i" using j(2) pos by simp
  have i: "H (j + a) = Some (Free_Seg n)" using d(3) j(2) by simp
  obtain P Q where PQ: "P \<in> insert SFree (SPage ` (set F - {j}))" "Q \<in> insert SFree (SPage ` (set F - {j}))"
    and ne: "P \<noteq> SPage j" "Q \<noteq> SPage j"
    and h: "slab_free_head H P" "slab_free_head H Q"
    and lk: "p_link pool (SPage j) = (P, SLAB_PAGE)" "p_next pool (SPage j) = Q" "p_slab pool (SPage j) = of_nat a"
    and l: "slab_list ((p_next pool)(P := Q)) ((p_link pool)(Q := (P, SLAB_PAGE))) SLAB_PAGE SFree (map SPage (remove1 j F)) SFree"
    by (rule slab_pending_block [OF pend j(1) ji])
  define pool1 where "pool1 = set_slab (SPage j) (of_nat a + of_nat n) pool"
  define pool' where "pool' = slab_clear (SPage i) (slab_unlink (SPage j) pool1)"
  have e: "slab_join_prev i pool (of_nat (n - 1)) = (SPage j, pool', of_nat (a + n - 1))"
    using before lk(3) d(5) page_word_add_pred [OF pos(2), of a]
    by (simp add: slab_join_prev_def Let_def pool'_def pool1_def add.commute)
  have lk1: "p_link pool1 (SPage j) = (P, SLAB_PAGE)" "P \<noteq> SPage j" using lk ne by (simp_all add: pool1_def)
  have desc: "p_slab pool' = (p_slab pool)(SPage j := of_nat (a + n), SPage (j + a) := 0)"
    "p_next pool' = (p_next pool)(P := Q, SPage (j + a) := SNull)"
    "p_link pool' = (p_link pool)(Q := (P, SLAB_PAGE), SPage (j + a) := (SNull, SLAB_PAGE))"
    "slab_rest pool' = slab_rest pool" "sl_pfree pool' = sl_pfree pool"
    unfolding pool'_def slab_clear_desc slab_unlink_desc [OF lk1] j(2) by (simp_all add: pool1_def lk)
  let ?H = "H(j + a := None, j \<mapsto> Free_Seg (a + n))"
  have count: "sl_count pool' = sl_count pool" using slab_rest_eq [OF desc(4)] by simp
  have p: "slab_pending pool' ?H (remove1 j F) j (a + n)"
    using j(2) by (intro slab_join_pending [OF pend j(1) i _ PQ l desc(1-3) count desc(5)]) auto
  have "slab_coalesced ?H"
    unfolding slab_coalesced_def
  proof (intro allI impI notI)
    fix x b c assume x: "?H x = Some (Free_Seg b)" "?H (x + b) = Some (Free_Seg c)"
    then have "x = j \<or> x + b = j" by (rule slab_pendingD(7) [OF p])
    then show False
    proof
      assume "x = j"
      then have "x + b = i + n" using x(1) j(2) by auto
      then show False using x(2) nf pos j(2) by auto
    next
      assume xj: "x + b = j"
      have b: "0 < b" using tilesD(1) [OF slab_pendingD(1) [OF p] x(1)] by simp
      then have "H x = Some (Free_Seg b)" using x(1) xj j(2) by (auto split: if_splits)
      then show False using d(7) [of x b a] xj j b pos by auto
    qed
  qed
  moreover have "slab_same (slab_free_refs H) pool pool'"
    using desc(1-4) pos
    by (intro slab_same_join [OF d(1) h free_refs_block [of H j a j, OF j(1)] free_refs_block [of H "j + a" n "j + a", OF i]]) auto
  ultimately show ?thesis
    using e p slab_kept_join [of H, OF j(1) i] slab_free_refs_join [of H, OF j(1) i] by blast
qed

section \<open>Back into the list\<close>

lemma slab_free_link_desc:
  fixes pool :: slab_pool and l :: nat
  assumes "0 < n" "n < 2 ^ 63"
  defines "pool' \<equiv> slab_free_link (SPage l) pool (of_nat (n - 1))"
  shows "p_slab pool' = p_slab pool" "p_next pool' = (p_next pool)(SPage l := p_next pool SFree, SFree := SPage l)"
    "p_link pool' = (p_link pool)(SPage (l + n - 1) := (SPage l, SLAB_PAGE), SPage l := (SFree, SLAB_PAGE),
       p_next pool SFree := (SPage l, SLAB_PAGE))"
    "slab_rest pool' = slab_rest pool" "sl_pfree pool' = sl_pfree pool"
proof -
  have u: "unat (of_nat (n - 1) :: 64 word) = n - 1" using assms(1,2) by (intro page_word) simp
  have z: "(of_nat (n - 1) :: 64 word) = 0 \<longleftrightarrow> n = 1"
    unfolding unat_eq_zero [symmetric] u using assms(1) by auto
  show "p_slab pool' = p_slab pool" "p_next pool' = (p_next pool)(SPage l := p_next pool SFree, SFree := SPage l)"
    "slab_rest pool' = slab_rest pool" "sl_pfree pool' = sl_pfree pool"
    by (simp_all add: pool'_def slab_free_link_def Let_def)
  show "p_link pool' = (p_link pool)(SPage (l + n - 1) := (SPage l, SLAB_PAGE), SPage l := (SFree, SLAB_PAGE),
       p_next pool SFree := (SPage l, SLAB_PAGE))"
    using u z assms(1) by (simp add: pool'_def slab_free_link_def Let_def slab_ref_add_def del: of_nat_diff)
qed

lemma slab_free_link_ok:
  assumes pend: "slab_pending pool H F l n" and co: "slab_coalesced H"
  shows "slab_pages_ok (slab_free_link (SPage l) pool (of_nat (n - 1))) H (l # F)"
    and "slab_same (slab_free_refs H) pool (slab_free_link (SPage l) pool (of_nat (n - 1)))"
proof -
  note d = slab_pendingD [OF pend]
  have n: "0 < n" "n < 2 ^ 63" using tilesD(1,2) [OF d(1,3)] d(2) by auto
  define pool' where "pool' = slab_free_link (SPage l) pool (of_nat (n - 1))"
  define Q where "Q = p_next pool SFree"
  note desc = slab_free_link_desc [OF n, where pool = pool and l = l, folded pool'_def Q_def]
  have count: "sl_count pool' = sl_count pool" using slab_rest_eq [OF desc(4)] by simp
  have Q: "Q = hd (map SPage F @ [SFree])" "Q \<in> insert SFree (SPage ` set F)"
    using d(8) slab_list_ends(2) [of F] by (cases F; simp add: Q_def)+
  have h: "slab_free_head H Q" "Q \<noteq> SPage l" using Q(2) d(10) by (auto simp: slab_free_head_def)
  have lF: "SPage l \<notin> set (map SPage F)" "SPage (l + n - 1) \<notin> set (map SPage F)"
  proof -
    show "SPage l \<notin> set (map SPage F)" using d(10) by auto
    have "n = 1 \<or> H (l + n - 1) = None" using tilesD(3) [OF d(1,3), of "l + n - 1"] n(1) by (cases "n = 1") auto
    then have "l + n - 1 \<notin> set F" unfolding d(10) by auto
    then show "SPage (l + n - 1) \<notin> set (map SPage F)" by auto
  qed
  have "slab_list (p_next pool) ((p_link pool)(SPage (l + n - 1) := (SPage l, SLAB_PAGE))) SLAB_PAGE SFree (map SPage F) SFree"
    using d(8) lF(2) by (subst slab_list_upd(2)) simp_all
  note ins = slab_list_insert [OF this, of "SPage l"]
  have "distinct (SPage l # SFree # map SPage F)" using lF(1) d(9) by (auto simp: distinct_map inj_on_def)
  note ins [OF this, folded Q_def Q(1)]
  then have list: "slab_list (p_next pool') (p_link pool') SLAB_PAGE SFree (map SPage (l # F)) SFree"
    unfolding desc list.map by simp
  have segs: "seg_desc pool' j s" if j: "H j = Some s" for j s
  proof (cases "j = l")
    case True
    have x: "Q \<noteq> SPage x" if "l < x" "x < l + n" for x
      using slab_free_head_inner [OF d(1,3) _ _ _ h(1), of x] that by simp
    have "slab_inner pool' l n 0"
      unfolding slab_inner_def
    proof (intro allI impI)
      fix y assume y: "l < y \<and> y < l + n"
      then show "p_slab pool' (SPage y) = 0 \<and> p_next pool' (SPage y) = SNull \<and> p_type pool' (SPage y) = SLAB_PAGE"
        using d(6) x [of y] unfolding slab_inner_def by (auto simp: desc)
    qed
    moreover have "p_prev pool' (SPage (l + n - 1)) = SPage l" if "1 < n"
      using that x [of "l + n - 1"] by (auto simp: desc)
    moreover have "s = Free_Seg n" using True j d(3) by simp
    ultimately show ?thesis using True d(5) by (simp add: desc(1))
  next
    case False
    show ?thesis
      using h n(1) count by (intro seg_desc_elsewhere [OF d(1,3) j False d(4) [OF j False], of Q SFree])
        (auto simp: desc slab_free_head_def)
  qed
  have "set (l # F) = {j. \<exists>a. H j = Some (Free_Seg a)}" using d(3,10) by auto
  moreover have "distinct (l # F)" using d(9,10) by auto
  ultimately have "slab_pages_ok pool' H (l # F)"
    unfolding slab_pages_ok_def count desc(5) using d(1,2,11) segs co list by blast
  then show "slab_pages_ok (slab_free_link (SPage l) pool (of_nat (n - 1))) H (l # F)" by (simp only: pool'_def)
  have "Q \<in> slab_free_refs H" "SFree \<in> slab_free_refs H" by (rule free_refs_head [OF d(1) h(1)]) (simp add: slab_free_refs_def)
  moreover have "SPage l \<in> slab_free_refs H" "SPage (l + n - 1) \<in> slab_free_refs H"
    using free_refs_block [of H l n, OF d(3)] n(1) by auto
  ultimately have "slab_same (slab_free_refs H) pool pool'" unfolding slab_same_def desc by auto
  then show "slab_same (slab_free_refs H) pool (slab_free_link (SPage l) pool (of_nat (n - 1)))" by (simp only: pool'_def)
qed

lemma slab_free_join_ok:
  assumes pend: "slab_pending pool H F i n"
  shows "\<exists>H' F'. slab_pages_ok (slab_free_join pool i (of_nat (n - 1))) H' F' \<and> slab_kept H H' \<and>
    slab_same (slab_free_refs H) pool (slab_free_join pool i (of_nat (n - 1)))"
proof -
  obtain pool1 H1 F1 n1 where 1: "slab_join_next i pool (of_nat (n - 1)) = (pool1, of_nat (n1 - 1))"
    "slab_pending pool1 H1 F1 i n1" "\<And>b. H1 (i + n1) \<noteq> Some (Free_Seg b)"
    "slab_kept H H1" "slab_free_refs H1 \<subseteq> slab_free_refs H" "slab_same (slab_free_refs H) pool pool1"
    using slab_join_next_ok [OF pend] by blast
  obtain l pool2 H2 F2 n2 where 2: "slab_join_prev i pool1 (of_nat (n1 - 1)) = (SPage l, pool2, of_nat (n2 - 1))"
    "slab_pending pool2 H2 F2 l n2" "slab_coalesced H2" "slab_kept H1 H2" "slab_free_refs H2 \<subseteq> slab_free_refs H1"
    "slab_same (slab_free_refs H1) pool1 pool2"
    using slab_join_prev_ok [OF 1(2,3)] by blast
  have e: "slab_free_join pool i (of_nat (n - 1)) = slab_free_link (SPage l) pool2 (of_nat (n2 - 1))"
    by (simp only: slab_free_join_def 1(1) 2(1) Let_def prod.case)
  have "slab_same (slab_free_refs H) pool pool2"
    using slab_same_trans [OF 1(6) 2(6)] 1(5) by blast
  then have "slab_same (slab_free_refs H) pool (slab_free_join pool i (of_nat (n - 1)))"
    unfolding e using slab_same_trans [OF _ slab_free_link_ok(2) [OF 2(2,3)]] 1(5) 2(5) by blast
  then show ?thesis using slab_free_link_ok(1) [OF 2(2,3)] slab_kept_trans [OF 1(4) 2(4)] unfolding e by blast
qed

section \<open>Freeing pages\<close>

lemma slab_same_block:
  "slab_rest pool1 = slab_rest pool \<Longrightarrow>
   (\<And>r. r \<notin> SPage ` {i..<i + n} \<Longrightarrow> p_slab pool1 r = p_slab pool r \<and> p_next pool1 r = p_next pool r \<and> p_link pool1 r = p_link pool r) \<Longrightarrow>
   slab_same (slab_free_refs (H(i \<mapsto> Free_Seg n))) pool pool1"
  unfolding slab_same_def
proof (intro conjI allI impI, goal_cases)
  case (2 r)
  then have "r \<notin> SPage ` {i..<i + n}" using free_refs_block [of "H(i \<mapsto> Free_Seg n)" i n] by auto
  then show ?case using 2(2) by simp
next
  case (3 r)
  then have "r \<notin> SPage ` {i..<i + n}" using free_refs_block [of "H(i \<mapsto> Free_Seg n)" i n] by auto
  then show ?case using 3(2) by simp
next
  case (4 r)
  then have "r \<notin> SPage ` {i..<i + n}" using free_refs_block [of "H(i \<mapsto> Free_Seg n)" i n] by auto
  then show ?case using 4(2) by simp
qed

lemma slab_free_pages_start:
  assumes pend: "slab_pending pool1 (H(i \<mapsto> Free_Seg n)) F i n"
    and same: "slab_same (slab_free_refs (H(i \<mapsto> Free_Seg n))) pool pool1"
    and e: "ngx_slab_free_pages pool0 i (of_nat n) = slab_free_join pool1 i (of_nat (n - 1))"
  shows "\<exists>H' F'. slab_pages_ok (ngx_slab_free_pages pool0 i (of_nat n)) H' F' \<and> slab_kept (H(i \<mapsto> Free_Seg n)) H' \<and>
    slab_same (slab_free_refs (H(i \<mapsto> Free_Seg n))) pool (ngx_slab_free_pages pool0 i (of_nat n))"
proof -
  obtain H' F' where "slab_pages_ok (ngx_slab_free_pages pool0 i (of_nat n)) H' F'" "slab_kept (H(i \<mapsto> Free_Seg n)) H'"
    "slab_same (slab_free_refs (H(i \<mapsto> Free_Seg n))) pool1 (ngx_slab_free_pages pool0 i (of_nat n))"
    using slab_free_join_ok [OF pend] unfolding e by blast
  then show ?thesis using slab_same_trans [OF same] by blast
qed

lemma slab_free_used_pages:
  assumes ok: "slab_pages_ok pool H F" and i: "H i = Some (Used_Seg n)"
  shows "\<exists>H' F'. slab_pages_ok (ngx_slab_free_pages pool i (of_nat n)) H' F' \<and> slab_kept (H(i \<mapsto> Free_Seg n)) H' \<and>
    slab_same (slab_free_refs (H(i \<mapsto> Free_Seg n))) pool (ngx_slab_free_pages pool i (of_nat n))"
proof -
  note d = slab_pages_okD [OF ok]
  have n: "0 < n" "n < 2 ^ 63" using tilesD(1,2) [OF d(1) i] d(2) by auto
  define pool1 where "pool1 = slab_zero_pages (Suc i) (n - 1) (set_slab (SPage i) (of_nat n) (pool\<lparr>sl_pfree := sl_pfree pool + of_nat n\<rparr>))"
  have u: "unat ((of_nat n :: 64 word) - 1) = n - 1" using n by (rule page_word_pred)
  have w: "(of_nat n :: 64 word) - 1 = of_nat (n - 1)" using page_word_sub [of 1 n] n by simp
  have z: "(of_nat n :: 64 word) - 1 = 0 \<longleftrightarrow> n - 1 = 0" unfolding unat_eq_zero [symmetric] u ..
  have B: "Suc i + (n - 1) = i + n" using n by simp
  have desc: "p_slab pool1 = (\<lambda>r. if r \<in> SPage ` {Suc i..<i + n} then 0 else ((p_slab pool)(SPage i := of_nat n)) r)"
    "p_next pool1 = (\<lambda>r. if r \<in> SPage ` {Suc i..<i + n} then SNull else p_next pool r)"
    "p_link pool1 = (\<lambda>r. if r \<in> SPage ` {Suc i..<i + n} then (SNull, SLAB_PAGE) else p_link pool r)"
    "slab_rest pool1 = slab_rest pool" "sl_pfree pool1 = sl_pfree pool + of_nat n"
    unfolding pool1_def slab_zero_pages_desc B by (simp_all add: fun_eq_iff)
  have same: "p_slab pool1 r = p_slab pool r \<and> p_next pool1 r = p_next pool r \<and> p_link pool1 r = p_link pool r"
    if "r \<notin> SPage ` {i..<i + n}" for r
    using that n(1) by (auto simp: desc)
  have pend: "slab_pending pool1 (H(i \<mapsto> Free_Seg n)) F i n"
    using slab_rest_eq [OF desc(4)] desc(5) n(1)
    by (intro slab_pending_start [OF ok i _ _ _ _ _ _ same]) (auto simp: desc slab_inner_def)
  have nx: "p_next pool1 (SPage i) = SNull" using d(3) [OF i] by (auto simp: desc)
  have e: "(if (of_nat n :: 64 word) - 1 \<noteq> 0 then slab_zero_pages (Suc i) (unat ((of_nat n :: 64 word) - 1)) p else p) =
      slab_zero_pages (Suc i) (n - 1) p" for p
    unfolding z u by (cases "n - 1") simp_all
  have "ngx_slab_free_pages pool i (of_nat n) = slab_free_join pool1 i (of_nat (n - 1))"
    unfolding ngx_slab_free_pages_def Let_def e pool1_def [symmetric] using nx by (simp add: w)
  from slab_free_pages_start [OF pend slab_same_block [OF desc(4) same] this] show ?thesis by simp
qed

lemma slab_unlink_set_slab:
  "p_slab (slab_unlink r (set_slab q v (pool\<lparr>sl_pfree := w\<rparr>))) = (p_slab (slab_unlink r pool))(q := v)"
  "p_next (slab_unlink r (set_slab q v (pool\<lparr>sl_pfree := w\<rparr>))) = p_next (slab_unlink r pool)"
  "p_link (slab_unlink r (set_slab q v (pool\<lparr>sl_pfree := w\<rparr>))) = p_link (slab_unlink r pool)"
  "slab_rest (slab_unlink r (set_slab q v (pool\<lparr>sl_pfree := w\<rparr>))) = slab_rest pool"
  "sl_pfree (slab_unlink r (set_slab q v (pool\<lparr>sl_pfree := w\<rparr>))) = w"
  "slab_rest (slab_unlink r pool) = slab_rest pool" "sl_pfree (slab_unlink r pool) = sl_pfree pool"
  by (simp_all add: slab_unlink_def Let_def)

lemma slab_free_chunk_page:
  assumes ok: "slab_pages_ok (slab_unlink (SPage i) pool) H F" and i: "H i = Some (Chunk_Seg k B)"
    and nx: "p_next pool (SPage i) \<noteq> SNull"
  shows "\<exists>H' F'. slab_pages_ok (ngx_slab_free_pages pool i 1) H' F' \<and> slab_kept (H(i \<mapsto> Free_Seg 1)) H' \<and>
    slab_same (slab_free_refs (H(i \<mapsto> Free_Seg 1))) (slab_unlink (SPage i) pool) (ngx_slab_free_pages pool i 1)"
proof -
  define pool1 where "pool1 = slab_unlink (SPage i) (set_slab (SPage i) 1 (pool\<lparr>sl_pfree := sl_pfree pool + 1\<rparr>))"
  note desc = slab_unlink_set_slab(1-5) [of "SPage i" "SPage i" 1 "sl_pfree pool + 1" pool, folded pool1_def]
    slab_unlink_set_slab(6,7) [of "SPage i" pool]
  have same: "p_slab pool1 r = p_slab (slab_unlink (SPage i) pool) r \<and> p_next pool1 r = p_next (slab_unlink (SPage i) pool) r \<and>
      p_link pool1 r = p_link (slab_unlink (SPage i) pool) r"
    if "r \<notin> SPage ` {i..<i + 1}" for r
    using that by (auto simp: desc)
  have pend: "slab_pending pool1 (H(i \<mapsto> Free_Seg 1)) F i 1"
    using slab_rest_eq [OF desc(4)] slab_rest_eq [OF desc(6)]
    by (intro slab_pending_start [OF ok i _ _ _ _ _ _ same]) (auto simp: desc slab_inner_def)
  have "ngx_slab_free_pages pool i (of_nat 1) = slab_free_join pool1 i (of_nat (1 - 1))"
    using nx by (simp add: ngx_slab_free_pages_def Let_def pool1_def)
  from slab_free_pages_start [OF pend slab_same_block [OF _ same] this] desc(4,6) show ?thesis by simp
qed

end
