(* ===== verification/Ngx_Slab_Chunks.thy ===== *)
theory Ngx_Slab_Chunks
  imports Ngx_Slab_Release
begin

text \<open>
  The chunks of a slab pool: the sizes of the slots, the bitmaps of the pages that are cut into
  chunks, and the lists of the slots.
\<close>

section \<open>Sizes\<close>

lemma slab_shift_loop_power: "slab_shift_loop (2 ^ m) s = s + m"
proof (induction m arbitrary: s)
  case 0
  then show ?case by (simp add: slab_shift_loop.simps)
next
  case (Suc m)
  then show ?case by (subst slab_shift_loop.simps) simp
qed

lemma slab_shift_loop_bounds:
  "0 < s \<Longrightarrow> sh \<le> slab_shift_loop s sh \<and> 2 ^ (slab_shift_loop s sh - sh) \<le> s \<and> s < 2 ^ Suc (slab_shift_loop s sh - sh)"
proof (induction s sh rule: slab_shift_loop.induct)
  case (1 s sh)
  show ?case
  proof (cases "s div 2 = 0")
    case True
    then show ?thesis using 1(2) by (subst (1 2 3) slab_shift_loop.simps) (auto simp: slab_shift_loop.simps)
  next
    case False
    let ?r = "slab_shift_loop (s div 2) (Suc sh)"
    have ih: "Suc sh \<le> ?r" "2 ^ (?r - Suc sh) \<le> s div 2" "s div 2 < 2 ^ Suc (?r - Suc sh)"
      using 1(1) [OF False] False by auto
    have r: "slab_shift_loop s sh = ?r" using False by (subst slab_shift_loop.simps) simp
    have e: "?r - sh = Suc (?r - Suc sh)" using ih(1) by simp
    have "2 * 2 ^ (?r - Suc sh) \<le> s" "s < 2 * (2 * 2 ^ (?r - Suc sh))" using ih(2,3) by simp_all
    then show ?thesis unfolding r e using ih(1) by simp
  qed
qed

lemma div_power_shift: "b \<le> a \<Longrightarrow> (2 :: nat) ^ a div 2 ^ b = 2 ^ (a - b)"
  by (metis power_diff zero_neq_numeral)

lemma slab_exact_sizes:
  assumes "6 \<le> ps"
  shows "ngx_slab_exact_size ps = 2 ^ (ps - 6)" "ngx_slab_exact_shift ps = ps - 6"
proof -
  have "(2 :: nat) ^ ps div 64 = 2 ^ (ps - 6)" using div_power_shift [OF assms] by simp
  then show "ngx_slab_exact_size ps = 2 ^ (ps - 6)" by (simp add: ngx_slab_exact_size_def)
  then show "ngx_slab_exact_shift ps = ps - 6" by (simp add: ngx_slab_exact_shift_def slab_shift_loop_power)
qed

definition slab_sizes_ok :: "slab_pool \<Rightarrow> bool" where
  \<comment> \<open>the smallest chunk has 8 bytes, the page at least 64 of them and at most 64 kilobytes\<close>
  "slab_sizes_ok pool \<longleftrightarrow>
     3 \<le> sl_min_shift pool \<and> sl_min_shift pool + 6 \<le> sl_page_shift pool \<and> sl_page_shift pool \<le> 16 \<and>
     0 < sl_start pool \<and> sl_start pool mod 2 ^ sl_page_shift pool = 0 \<and>
     sl_start pool + sl_count pool * 2 ^ sl_page_shift pool \<le> sl_end pool \<and> sl_end pool < 2 ^ 64"

lemma slab_slot_shift_bounds:
  assumes "slab_sizes_ok pool" "sz \<le> ngx_slab_max_size (sl_page_shift pool)"
  shows "sl_min_shift pool \<le> slab_slot_shift pool sz" "slab_slot_shift pool sz < sl_page_shift pool"
    "sz \<le> 2 ^ slab_slot_shift pool sz"
proof -
  let ?ms = "sl_min_shift pool" let ?ps = "sl_page_shift pool" let ?r = "slab_slot_shift pool sz"
  have ps: "?ms + 6 \<le> ?ps" using assms(1) by (simp add: slab_sizes_ok_def)
  have mx: "sz \<le> 2 ^ (?ps - 1)"
    using assms(2) ps div_power_shift [of 1 ?ps] by (simp add: ngx_slab_max_size_def)
  have "?ms \<le> ?r \<and> ?r < ?ps \<and> sz \<le> 2 ^ ?r"
  proof (cases "sz > 2 ^ ?ms")
    case True
    have r: "?r = slab_shift_loop (sz - 1) 1" using True by (simp add: slab_slot_shift_def)
    have p: "0 < sz - 1" using True one_le_power [of "2 :: nat" ?ms] by linarith
    have b: "1 \<le> ?r" "2 ^ (?r - 1) \<le> sz - 1" "sz - 1 < 2 ^ Suc (?r - 1)"
      unfolding r using slab_shift_loop_bounds [OF p, of 1] by blast+
    have "(2 :: nat) ^ ?ms < 2 ^ Suc (?r - 1)" using True b(3) by linarith
    then have 1: "?ms \<le> ?r" using b(1) by (simp add: power_strict_increasing_iff del: power_Suc)
    have "(2 :: nat) ^ (?r - 1) < 2 ^ (?ps - 1)" using b(2) mx p by linarith
    then have 2: "?r < ?ps" using b(1) ps by (simp add: power_strict_increasing_iff)
    have 3: "sz \<le> 2 ^ ?r" using b(1,3) by simp
    show ?thesis using 1 2 3 by blast
  next
    case False
    then show ?thesis using ps by (simp add: slab_slot_shift_def)
  qed
  then show "?ms \<le> ?r" "?r < ?ps" "sz \<le> 2 ^ ?r" by blast+
qed

definition slab_chunks :: "nat \<Rightarrow> nat \<Rightarrow> nat" where
  "slab_chunks ps sh = 2 ^ ps div 2 ^ sh"

definition slab_reserved :: "nat \<Rightarrow> nat \<Rightarrow> nat" where
  \<comment> \<open>the chunks at the start of the page that hold its bitmap\<close>
  "slab_reserved ps sh = (if sh < ps - 6 then slab_map_chunks ps sh else 0)"

definition slab_kind :: "nat \<Rightarrow> nat \<Rightarrow> slab_type" where
  "slab_kind ps sh = (if sh < ps - 6 then SLAB_SMALL else if sh = ps - 6 then SLAB_EXACT else SLAB_BIG)"

lemma slab_kind_not_page [simp]: "slab_kind ps sh \<noteq> SLAB_PAGE"
  by (simp add: slab_kind_def)

lemma slab_chunks_power: "sh \<le> ps \<Longrightarrow> slab_chunks ps sh = 2 ^ (ps - sh)"
  by (simp add: slab_chunks_def div_power_shift)

lemma slab_reserved_small:
  assumes "3 \<le> sh" "sh < ps - 6"
  shows "0 < slab_reserved ps sh" "slab_reserved ps sh + 1 < slab_chunks ps sh"
    "slab_chunks ps sh div 8 \<le> slab_reserved ps sh * 2 ^ sh" "slab_chunks ps sh = 64 * 2 ^ (ps - sh - 6)"
    "slab_reserved ps sh + 1 \<le> slab_chunks ps sh div 64 + 1"
proof -
  have sh: "sh \<le> ps" using assms by simp
  have c: "slab_chunks ps sh = 64 * 2 ^ (ps - sh - 6)"
  proof -
    have "ps - sh = 6 + (ps - sh - 6)" using assms by simp
    then have "(2 :: nat) ^ (ps - sh) = 2 ^ 6 * 2 ^ (ps - sh - 6)" by (metis power_add)
    then show ?thesis by (simp add: slab_chunks_power [OF sh])
  qed
  have n: "slab_chunks ps sh div (2 ^ sh * 8) = (if sh + 3 \<le> ps - sh then 2 ^ (ps - sh - (sh + 3)) else 0)"
  proof -
    have e: "(2 :: nat) ^ sh * 8 = 2 ^ (sh + 3)" by (simp add: power_add)
    show ?thesis unfolding slab_chunks_power [OF sh] e
      using div_power_shift by (auto intro: div_less power_strict_increasing)
  qed
  have r: "slab_reserved ps sh = (if sh + 3 \<le> ps - sh then 2 ^ (ps - sh - (sh + 3)) else 1)"
    using assms(2) n by (simp add: slab_reserved_def slab_map_chunks_def slab_chunks_def Let_def)
  show "0 < slab_reserved ps sh" by (simp add: r)
  show "slab_chunks ps sh = 64 * 2 ^ (ps - sh - 6)" by (rule c)
  have le: "slab_reserved ps sh \<le> 2 ^ (ps - sh - 6)"
    using assms(1) by (auto simp: r intro: power_increasing)
  then show "slab_reserved ps sh + 1 \<le> slab_chunks ps sh div 64 + 1" by (simp add: c)
  have "1 \<le> (2 :: nat) ^ (ps - sh - 6)" by simp
  then show "slab_reserved ps sh + 1 < slab_chunks ps sh" unfolding c using le by linarith
  show "slab_chunks ps sh div 8 \<le> slab_reserved ps sh * 2 ^ sh"
  proof (cases "sh + 3 \<le> ps - sh")
    case True
    then have "slab_reserved ps sh * 2 ^ sh = 2 ^ (ps - sh - 3)"
      by (simp add: r power_add [symmetric])
    moreover have "slab_chunks ps sh div 8 = 2 ^ (ps - sh - 3)"
      using assms div_power_shift [of 3 "ps - sh"] by (simp add: slab_chunks_power [OF sh])
    ultimately show ?thesis by simp
  next
    case False
    have "slab_chunks ps sh div 8 = 2 ^ (ps - sh - 3)"
      using assms div_power_shift [of 3 "ps - sh"] by (simp add: slab_chunks_power [OF sh])
    also have "\<dots> \<le> 2 ^ sh" using False by (intro power_increasing) auto
    finally show ?thesis using False by (simp add: r)
  qed
qed

section \<open>Bitmaps\<close>

lemma slab_first_clear_find: "slab_first_clear w i n = find (\<lambda>c. \<not> bit w c) [i..<n]"
proof (induction w i n rule: slab_first_clear.induct)
  case (1 w i n)
  then show ?case by (subst slab_first_clear.simps) (auto simp: upt_conv_Cons)
qed

lemma slab_first_clear_Some:
  assumes "slab_first_clear w i n = Some c"
  shows "i \<le> c" "c < n" "\<not> bit w c"
  using assms by (auto simp: slab_first_clear_find find_Some_iff)

lemma slab_first_clear_ex: "i \<le> c \<Longrightarrow> c < n \<Longrightarrow> \<not> bit w c \<Longrightarrow> \<exists>d. slab_first_clear w i n = Some d"
  by (cases "slab_first_clear w i n") (auto simp: slab_first_clear_find find_None_iff)

lemma slab_busy_iff: "(w :: 64 word) = SLAB_BUSY \<longleftrightarrow> (\<forall>b < 64. bit w b)"
proof -
  have "w = -1 \<longleftrightarrow> (\<forall>b < 64. bit w b)" by (simp add: bit_eq_iff)
  moreover have "(-1 :: 64 word) = SLAB_BUSY" by simp
  ultimately show ?thesis by metis
qed

lemma slab_not_busy_clear: "w \<noteq> SLAB_BUSY \<Longrightarrow> \<exists>d. slab_first_clear w 0 64 = Some d"
  using slab_first_clear_ex [of 0 _ 64 w] by (auto simp: slab_busy_iff)

lemma slab_scan_step:
  "slab_scan bm n words =
     (if words \<le> n then None
      else if bm n \<noteq> SLAB_BUSY then Some (n, the (slab_first_clear (bm n) 0 64)) else slab_scan bm (Suc n) words)"
proof (cases "bm n = SLAB_BUSY")
  case False
  then obtain d where "slab_first_clear (bm n) 0 64 = Some d" using slab_not_busy_clear by blast
  then show ?thesis using False by (subst slab_scan.simps) simp
qed (subst slab_scan.simps, simp)

lemma slab_scan_Some:
  assumes "slab_scan bm n words = Some (m, b)"
  shows "n \<le> m \<and> m < words \<and> b < 64 \<and> \<not> bit (bm m) b \<and> (\<forall>j. n \<le> j \<and> j < m \<longrightarrow> bm j = SLAB_BUSY)"
  using assms
proof (induction "words - n" arbitrary: n)
  case 0
  then show ?case by (simp add: slab_scan_step)
next
  case (Suc d)
  then have n: "n < words" "d = words - Suc n" by simp_all
  show ?case
  proof (cases "bm n = SLAB_BUSY")
    case True
    then have "slab_scan bm (Suc n) words = Some (m, b)"
      using Suc.prems n slab_scan_step [of bm n words] by (simp only: not_le [symmetric] if_False) simp
    note ih = Suc.hyps(1) [OF n(2) this]
    have "bm j = SLAB_BUSY" if "n \<le> j" "j < m" for j using ih True that by (cases "j = n") auto
    then show ?thesis using ih by auto
  next
    case False
    then obtain d where d: "slab_first_clear (bm n) 0 64 = Some d" using slab_not_busy_clear by blast
    then have "(m, b) = (n, d)" using Suc.prems n False slab_scan_step [of bm n words] by (simp only: not_le [symmetric]) simp
    then show ?thesis using n slab_first_clear_Some [OF d] by auto
  qed
qed

lemma slab_scan_ex:
  assumes "n \<le> j" "j < words" "bm j \<noteq> SLAB_BUSY"
  shows "\<exists>r. slab_scan bm n words = Some r"
  using assms(1)
proof (induction "words - n" arbitrary: n)
  case 0
  then show ?case using assms(2) by simp
next
  case (Suc d)
  then have n: "\<not> words \<le> n" "d = words - Suc n" by simp_all
  show ?case
  proof (cases "bm n = SLAB_BUSY")
    case True
    then have "Suc n \<le> j" using Suc.prems assms(3) by (cases "j = n") auto
    from Suc.hyps(1) [OF n(2) this] show ?thesis using n True by (simp add: slab_scan_step [of bm n])
  next
    case False
    then show ?thesis using n by (simp add: slab_scan_step [of bm n])
  qed
qed

lemma slab_all_iff: "slab_all bm w n words \<longleftrightarrow> (\<forall>j. n \<le> j \<and> j < words \<longrightarrow> bm j = w)"
proof (induction bm w n words rule: slab_all.induct)
  case (1 bm w n words)
  show ?case
  proof (cases "words \<le> n")
    case False
    have "(\<forall>j. n \<le> j \<and> j < words \<longrightarrow> bm j = w) \<longleftrightarrow> bm n = w \<and> (\<forall>j. Suc n \<le> j \<and> j < words \<longrightarrow> bm j = w)"
      using False by (metis Suc_leD le_neq_implies_less not_less not_less_eq_eq order_refl)
    then show ?thesis using 1 False by (subst slab_all.simps) auto
  next
    case True
    then show ?thesis by (subst slab_all.simps) auto
  qed
qed

lemma slab_big_mask_bit: "n \<le> 32 \<Longrightarrow> bit (push_bit SLAB_MAP_SHIFT (push_bit n 1 - 1) :: 64 word) b \<longleftrightarrow> 32 \<le> b \<and> b < 32 + n"
proof -
  assume n: "n \<le> 32"
  have "(push_bit n 1 - 1 :: 64 word) = mask n" by (simp add: mask_eq_exp_minus_1 push_bit_eq_mult)
  then show ?thesis using n by (auto simp: bit_push_bit_iff bit_mask_iff)
qed

lemma slab_low_mask_bit: "n \<le> 64 \<Longrightarrow> bit (push_bit n 1 - 1 :: 64 word) b \<longleftrightarrow> b < n"
proof -
  assume n: "n \<le> 64"
  have "(push_bit n 1 - 1 :: 64 word) = mask n" by (simp add: mask_eq_exp_minus_1 push_bit_eq_mult)
  then show ?thesis using n by (auto simp: bit_mask_iff)
qed

lemma slab_map_mask_bit: "bit SLAB_MAP_MASK b \<longleftrightarrow> 32 \<le> b \<and> b < 64"
proof -
  have "SLAB_MAP_MASK = push_bit 32 (push_bit 32 1 - 1)" by simp
  moreover have "32 \<le> b \<and> b < 32 + 32 \<longleftrightarrow> 32 \<le> b \<and> b < 64" by simp
  ultimately show ?thesis using slab_big_mask_bit [of 32 b] by (simp only: order_refl)
qed

lemma slab_shift_mask_bit: "bit SLAB_SHIFT_MASK b \<longleftrightarrow> b < 4"
proof -
  have "SLAB_SHIFT_MASK = push_bit 4 1 - 1" by simp
  then show ?thesis using slab_low_mask_bit [of 4 b] by (simp only:)
qed

end
