(* ===== verification/Ngx_Slab_Slots.thy ===== *)
theory Ngx_Slab_Slots
  imports Ngx_Slab_Chunks
begin

text \<open>
  Pages cut into chunks: what the bitmap of such a page says, how a chunk is taken and given
  back on it, and the lists of the slots, which hold the pages that have a free chunk.
\<close>

section \<open>A page of chunks\<close>

definition slab_chunk_bit :: "slab_pool \<Rightarrow> nat \<Rightarrow> nat \<Rightarrow> nat \<Rightarrow> bool" where
  \<comment> \<open>the bit of a chunk of the page \<open>i\<close>\<close>
  "slab_chunk_bit pool i sh c =
     (case slab_kind (sl_page_shift pool) sh of
        SLAB_SMALL \<Rightarrow> bit (sl_map pool i (c div 64)) (c mod 64)
      | SLAB_EXACT \<Rightarrow> bit (p_slab pool (SPage i)) c
      | _ \<Rightarrow> bit (p_slab pool (SPage i)) (SLAB_MAP_SHIFT + c))"

definition slab_full :: "slab_pool \<Rightarrow> nat \<Rightarrow> nat set" where
  "slab_full pool sh = {slab_reserved (sl_page_shift pool) sh..<slab_chunks (sl_page_shift pool) sh}"

definition slab_chunk_ok :: "slab_pool \<Rightarrow> nat \<Rightarrow> nat \<Rightarrow> nat set \<Rightarrow> bool" where
  "slab_chunk_ok pool i k B \<longleftrightarrow>
     (let sh = sl_min_shift pool + k; ps = sl_page_shift pool in
      sh < ps \<and> B \<subseteq> slab_full pool sh \<and> p_type pool (SPage i) = slab_kind ps sh \<and>
      (\<forall>c < slab_chunks ps sh. slab_chunk_bit pool i sh c \<longleftrightarrow> c < slab_reserved ps sh \<or> c \<in> B) \<and>
      (slab_kind ps sh = SLAB_SMALL \<longrightarrow> p_slab pool (SPage i) = of_nat sh) \<and>
      (slab_kind ps sh = SLAB_BIG \<longrightarrow>
         (\<forall>b < 64. bit (p_slab pool (SPage i)) b \<longleftrightarrow> b < 4 \<and> bit sh b \<or> 32 \<le> b \<and> b - 32 \<in> B)))"

lemma slab_chunk_okD:
  assumes "slab_chunk_ok pool i k B"
  defines "sh \<equiv> sl_min_shift pool + k" and "ps \<equiv> sl_page_shift pool"
  shows "sh < ps" "B \<subseteq> slab_full pool sh" "p_type pool (SPage i) = slab_kind ps sh"
    "c < slab_chunks ps sh \<Longrightarrow> slab_chunk_bit pool i sh c \<longleftrightarrow> c < slab_reserved ps sh \<or> c \<in> B"
    "slab_kind ps sh = SLAB_SMALL \<Longrightarrow> p_slab pool (SPage i) = of_nat sh"
    "slab_kind ps sh = SLAB_BIG \<Longrightarrow> b < 64 \<Longrightarrow>
       bit (p_slab pool (SPage i)) b \<longleftrightarrow> b < 4 \<and> bit sh b \<or> 32 \<le> b \<and> b - 32 \<in> B"
  using assms unfolding slab_chunk_ok_def Let_def by blast+

lemma slab_chunk_ok_frame:
  assumes "slab_chunk_ok pool i k B"
    and "p_slab pool' (SPage i) = p_slab pool (SPage i)" "p_type pool' (SPage i) = p_type pool (SPage i)"
    and "sl_map pool' i = sl_map pool i" "sl_min_shift pool' = sl_min_shift pool" "sl_page_shift pool' = sl_page_shift pool"
  shows "slab_chunk_ok pool' i k B"
  using assms unfolding slab_chunk_ok_def slab_chunk_bit_def slab_full_def by (simp cong: slab_type.case_cong)

lemma slab_kind_cases:
  obtains "slab_kind ps sh = SLAB_SMALL" "sh < ps - 6" | "slab_kind ps sh = SLAB_EXACT" "sh = ps - 6"
    | "slab_kind ps sh = SLAB_BIG" "ps - 6 < sh"
  unfolding slab_kind_def using linorder_cases [of sh "ps - 6"] by (metis not_less_iff_gr_or_eq)

lemma slab_chunk_counts:
  assumes "slab_sizes_ok pool" "sl_min_shift pool \<le> sh" "sh < sl_page_shift pool"
  shows "slab_kind (sl_page_shift pool) sh = SLAB_SMALL \<Longrightarrow> slab_chunks (sl_page_shift pool) sh = 64 * 2 ^ (sl_page_shift pool - sh - 6)"
    "slab_kind (sl_page_shift pool) sh = SLAB_EXACT \<Longrightarrow> slab_chunks (sl_page_shift pool) sh = 64"
    "slab_kind (sl_page_shift pool) sh = SLAB_BIG \<Longrightarrow> slab_chunks (sl_page_shift pool) sh \<le> 32"
    "slab_kind (sl_page_shift pool) sh \<noteq> SLAB_SMALL \<Longrightarrow> slab_reserved (sl_page_shift pool) sh = 0"
    "slab_reserved (sl_page_shift pool) sh + 1 < slab_chunks (sl_page_shift pool) sh"
proof -
  let ?ps = "sl_page_shift pool"
  have s: "3 \<le> sh" "6 \<le> ?ps" using assms by (auto simp: slab_sizes_ok_def)
  have c: "slab_chunks ?ps sh = 2 ^ (?ps - sh)" using assms(3) by (simp add: slab_chunks_power)
  show "slab_chunks ?ps sh = 64 * 2 ^ (?ps - sh - 6)" if "slab_kind ?ps sh = SLAB_SMALL"
    using that slab_reserved_small(4) [OF s(1)] by (auto simp: slab_kind_def split: if_splits)
  show "slab_chunks ?ps sh = 64" if "slab_kind ?ps sh = SLAB_EXACT"
    using that s(2) unfolding c by (auto simp: slab_kind_def split: if_splits)
  show "slab_chunks ?ps sh \<le> 32" if "slab_kind ?ps sh = SLAB_BIG"
  proof -
    have "?ps - sh \<le> 5" using that by (auto simp: slab_kind_def split: if_splits)
    then have "(2 :: nat) ^ (?ps - sh) \<le> 2 ^ 5" by (intro power_increasing) auto
    then show ?thesis unfolding c by simp
  qed
  show "slab_reserved ?ps sh = 0" if "slab_kind ?ps sh \<noteq> SLAB_SMALL"
    using that by (auto simp: slab_kind_def slab_reserved_def split: if_splits)
  show "slab_reserved ?ps sh + 1 < slab_chunks ?ps sh"
  proof (cases "sh < ?ps - 6")
    case False
    have "(2 :: nat) ^ 1 \<le> 2 ^ (?ps - sh)" using assms(3) by (intro power_increasing) auto
    then show ?thesis using False unfolding c by (simp add: slab_reserved_def)
  qed (use slab_reserved_small(2) [OF s(1)] in blast)
qed

section \<open>Marking a chunk\<close>

definition slab_mark :: "slab_pool \<Rightarrow> nat \<Rightarrow> nat \<Rightarrow> nat \<Rightarrow> (nat \<Rightarrow> 64 word \<Rightarrow> 64 word) \<Rightarrow> slab_pool" where
  \<comment> \<open>the bit of a chunk is set or cleared\<close>
  "slab_mark pool i sh c f =
     (case slab_kind (sl_page_shift pool) sh of
        SLAB_SMALL \<Rightarrow> set_map i (c div 64) (f (c mod 64) (sl_map pool i (c div 64))) pool
      | SLAB_EXACT \<Rightarrow> set_slab (SPage i) (f c (p_slab pool (SPage i))) pool
      | _ \<Rightarrow> set_slab (SPage i) (f (SLAB_MAP_SHIFT + c) (p_slab pool (SPage i))) pool)"

lemma sl_map_simps [simp]:
  "sl_map (set_map i n w pool) = (sl_map pool)(i := (sl_map pool i)(n := w))"
  "sl_map (set_slab r v pool) = sl_map pool" "sl_map (set_next r y pool) = sl_map pool"
  "sl_map (set_prev r z pool) = sl_map pool" "sl_map (stat_upd k g pool) = sl_map pool"
  "sl_stats (set_map i n w pool) = sl_stats pool" "sl_stats (set_slab r v pool) = sl_stats pool"
  "sl_stats (set_next r y pool) = sl_stats pool" "sl_stats (set_prev r z pool) = sl_stats pool"
  "sl_stats (stat_upd k g pool) = (sl_stats pool)(k := g (sl_stats pool k))"
  by (simp_all add: set_map_def set_slab_def set_next_def set_prev_def stat_upd_def)

lemma sl_const_simps [simp]:
  "sl_min_shift (set_map i n w pool) = sl_min_shift pool" "sl_page_shift (set_map i n w pool) = sl_page_shift pool"
  "sl_count (set_map i n w pool) = sl_count pool" "sl_start (set_map i n w pool) = sl_start pool"
  "sl_end (set_map i n w pool) = sl_end pool" "sl_pfree (set_map i n w pool) = sl_pfree pool"
  "sl_min_shift (stat_upd k g pool) = sl_min_shift pool" "sl_page_shift (stat_upd k g pool) = sl_page_shift pool"
  "sl_count (stat_upd k g pool) = sl_count pool" "sl_start (stat_upd k g pool) = sl_start pool"
  "sl_end (stat_upd k g pool) = sl_end pool" "sl_pfree (stat_upd k g pool) = sl_pfree pool"
  by (simp_all add: set_map_def stat_upd_def)

lemma sl_const_simps2 [simp]:
  "sl_min_shift (set_slab r v pool) = sl_min_shift pool" "sl_page_shift (set_slab r v pool) = sl_page_shift pool"
  "sl_start (set_slab r v pool) = sl_start pool" "sl_end (set_slab r v pool) = sl_end pool"
  "sl_min_shift (set_next r y pool) = sl_min_shift pool" "sl_page_shift (set_next r y pool) = sl_page_shift pool"
  "sl_start (set_next r y pool) = sl_start pool" "sl_end (set_next r y pool) = sl_end pool"
  "sl_min_shift (set_prev r z pool) = sl_min_shift pool" "sl_page_shift (set_prev r z pool) = sl_page_shift pool"
  "sl_start (set_prev r z pool) = sl_start pool" "sl_end (set_prev r z pool) = sl_end pool"
  by (simp_all add: set_slab_def set_next_def set_prev_def)

lemma slab_mark_frame [simp]:
  "p_next (slab_mark pool i sh c f) = p_next pool" "p_link (slab_mark pool i sh c f) = p_link pool"
  "sl_min_shift (slab_mark pool i sh c f) = sl_min_shift pool" "sl_page_shift (slab_mark pool i sh c f) = sl_page_shift pool"
  "sl_count (slab_mark pool i sh c f) = sl_count pool" "sl_start (slab_mark pool i sh c f) = sl_start pool"
  "sl_end (slab_mark pool i sh c f) = sl_end pool" "sl_pfree (slab_mark pool i sh c f) = sl_pfree pool"
  "sl_stats (slab_mark pool i sh c f) = sl_stats pool"
  "j \<noteq> i \<Longrightarrow> sl_map (slab_mark pool i sh c f) j = sl_map pool j"
  "r \<noteq> SPage i \<Longrightarrow> p_slab (slab_mark pool i sh c f) r = p_slab pool r"
  by (simp_all add: slab_mark_def split: slab_type.split)

lemma slab_mark_ok:
  assumes sizes: "slab_sizes_ok pool" and ok: "slab_chunk_ok pool i k B"
  defines "sh \<equiv> sl_min_shift pool + k"
  assumes c: "c \<in> slab_full pool sh" and f: "f = set_bit \<and> B' = insert c B \<or> f = unset_bit \<and> B' = B - {c}"
  shows "slab_chunk_ok (slab_mark pool i sh c f) i k B'"
proof -
  let ?ps = "sl_page_shift pool" let ?p = "slab_mark pool i sh c f"
  note d = slab_chunk_okD [OF ok, folded sh_def]
  have le: "sl_min_shift pool \<le> sh" by (simp add: sh_def)
  note cnt = slab_chunk_counts [OF sizes le d(1)]
  have cc: "slab_reserved ?ps sh \<le> c" "c < slab_chunks ?ps sh" using c by (auto simp: slab_full_def)
  have B': "B' \<subseteq> slab_full pool sh" using d(2) c f by auto
  have f64: "bit (f n w) b \<longleftrightarrow> (if b = n then f = set_bit else bit w b)" if "n < 64" for n b and w :: "64 word"
    using that f by (auto simp: bit_simps)
  have ne: "f = set_bit \<longleftrightarrow> c \<in> B'"
  proof -
    have "bit (set_bit 0 0 :: 64 word) 0" "\<not> bit (unset_bit 0 0 :: 64 word) 0" by (simp_all add: bit_simps)
    then have "(set_bit :: nat \<Rightarrow> 64 word \<Rightarrow> 64 word) \<noteq> unset_bit" by metis
    then show ?thesis using f by auto
  qed
  have other: "x \<in> B' \<longleftrightarrow> x \<in> B" if "x \<noteq> c" for x using that f by auto
  have bits: "slab_chunk_bit ?p i sh x \<longleftrightarrow> x < slab_reserved ?ps sh \<or> x \<in> B'" if x: "x < slab_chunks ?ps sh" for x
  proof -
    have "slab_chunk_bit ?p i sh x \<longleftrightarrow> (if x = c then f = set_bit else slab_chunk_bit pool i sh x)"
    proof (cases rule: slab_kind_cases [of ?ps sh])
      case 1
      have "x = c \<longleftrightarrow> x div 64 = c div 64 \<and> x mod 64 = c mod 64" by (metis div_mult_mod_eq)
      then show ?thesis using 1 f64 [of "c mod 64"] by (auto simp: slab_chunk_bit_def slab_mark_def)
    next
      case 2
      then show ?thesis using cc cnt(2) f64 [of c] by (auto simp: slab_chunk_bit_def slab_mark_def)
    next
      case 3
      then show ?thesis using cc cnt(3) f64 [of "32 + c"] by (auto simp: slab_chunk_bit_def slab_mark_def)
    qed
    then show ?thesis using ne other d(4) [OF x] cc by auto
  qed
  have big: "bit (p_slab ?p (SPage i)) b \<longleftrightarrow> b < 4 \<and> bit sh b \<or> 32 \<le> b \<and> b - 32 \<in> B'"
    if "slab_kind ?ps sh = SLAB_BIG" "b < 64" for b
  proof -
    have "bit (p_slab ?p (SPage i)) b \<longleftrightarrow> (if b = 32 + c then f = set_bit else bit (p_slab pool (SPage i)) b)"
      using that cc cnt(3) f64 [of "32 + c"] by (simp add: slab_mark_def)
    moreover have "32 \<le> b \<Longrightarrow> b \<noteq> 32 + c \<Longrightarrow> b - 32 \<noteq> c" by simp
    ultimately show ?thesis using d(6) [OF that] ne other [of "b - 32"] by (cases "b = 32 + c") auto
  qed
  have small: "p_slab ?p (SPage i) = of_nat sh" if "slab_kind ?ps sh = SLAB_SMALL"
    using that d(5) by (simp add: slab_mark_def)
  show ?thesis
    unfolding slab_chunk_ok_def Let_def using d(1,3) B' bits big small
    by (simp add: sh_def [symmetric] slab_full_def)
qed

section \<open>Taking a chunk\<close>

lemma stat_upd_commute:
  "set_slab r v (stat_upd k g pool) = stat_upd k g (set_slab r v pool)"
  "set_next r y (stat_upd k g pool) = stat_upd k g (set_next r y pool)"
  "set_prev r z (stat_upd k g pool) = stat_upd k g (set_prev r z pool)"
  by (simp_all add: set_slab_def set_next_def set_prev_def stat_upd_def)

lemma slab_retire_used: "slab_retire i T (slab_used k pool) = slab_used k (slab_retire i T pool)"
  by (simp add: slab_retire_def slab_unlink_def slab_used_def Let_def stat_upd_commute)

lemma slab_retire_frame [simp]:
  "sl_min_shift (slab_retire i T pool) = sl_min_shift pool" "sl_page_shift (slab_retire i T pool) = sl_page_shift pool"
  "sl_count (slab_retire i T pool) = sl_count pool" "sl_start (slab_retire i T pool) = sl_start pool"
  "sl_end (slab_retire i T pool) = sl_end pool" "sl_pfree (slab_retire i T pool) = sl_pfree pool"
  "sl_stats (slab_retire i T pool) = sl_stats pool" "sl_map (slab_retire i T pool) = sl_map pool"
  "p_slab (slab_retire i T pool) = p_slab pool"
  by (simp_all add: slab_retire_def slab_unlink_def Let_def)

lemma slab_page_addr_simps [simp]:
  "ngx_slab_page_addr (slab_retire i T pool) j = ngx_slab_page_addr pool j"
  "ngx_slab_page_addr (slab_mark pool i sh c f) j = ngx_slab_page_addr pool j"
  "ngx_slab_page_addr (stat_upd k g pool) j = ngx_slab_page_addr pool j"
  by (simp_all add: ngx_slab_page_addr_def)

lemma slab_full_bits:
  assumes sizes: "slab_sizes_ok pool" and ok: "slab_chunk_ok pool i k B"
  defines "sh \<equiv> sl_min_shift pool + k"
  shows "B = slab_full pool sh \<longleftrightarrow> (\<forall>c < slab_chunks (sl_page_shift pool) sh. slab_chunk_bit pool i sh c)"
proof
  note d = slab_chunk_okD [OF ok, folded sh_def]
  show "B = slab_full pool sh \<Longrightarrow> \<forall>c < slab_chunks (sl_page_shift pool) sh. slab_chunk_bit pool i sh c"
    using d(4) by (auto simp: slab_full_def)
  assume "\<forall>c < slab_chunks (sl_page_shift pool) sh. slab_chunk_bit pool i sh c"
  then have "slab_full pool sh \<subseteq> B" using d(4) by (fastforce simp: slab_full_def)
  then show "B = slab_full pool sh" using d(2) by blast
qed

lemma words_bits:
  \<comment> \<open>the words of a bitmap and its bits\<close>
  "(\<forall>j < n. w j = SLAB_BUSY) \<longleftrightarrow> (\<forall>c < 64 * n. bit (w (c div 64)) (c mod 64))"
proof
  show "\<forall>j < n. w j = SLAB_BUSY \<Longrightarrow> \<forall>c < 64 * n. bit (w (c div 64)) (c mod 64)"
    by (simp add: slab_busy_iff less_mult_imp_div_less)
  assume b: "\<forall>c < 64 * n. bit (w (c div 64)) (c mod 64)"
  show "\<forall>j < n. w j = SLAB_BUSY"
    unfolding slab_busy_iff
  proof (intro allI impI)
    fix j x :: nat assume "j < n" "x < 64"
    then have "64 * j + x < 64 * n" by linarith
    then have "bit (w ((64 * j + x) div 64)) ((64 * j + x) mod 64)" using b by blast
    then show "bit (w j) x" using \<open>x < 64\<close> by simp
  qed
qed

lemma slab_take_exact_eq:
  assumes sizes: "slab_sizes_ok pool" and ok: "slab_chunk_ok pool i k B"
  defines "sh \<equiv> sl_min_shift pool + k" and "ps \<equiv> sl_page_shift pool"
  assumes kind: "slab_kind ps sh = SLAB_EXACT" and nf: "B \<noteq> slab_full pool sh"
  shows "\<exists>c \<in> slab_full pool sh - B. slab_take_exact pool k sh i =
    Some (ngx_slab_page_addr pool i + c * 2 ^ sh,
      slab_used k (if insert c B = slab_full pool sh then slab_retire i (slab_kind ps sh) (slab_mark pool i sh c set_bit)
                   else slab_mark pool i sh c set_bit))"
proof -
  note d = slab_chunk_okD [OF ok, folded sh_def ps_def]
  have le: "sl_min_shift pool \<le> sh" by (simp add: sh_def)
  note cnt = slab_chunk_counts [OF sizes le d(1) [unfolded ps_def], folded ps_def]
  have tot: "slab_chunks ps sh = 64" "slab_reserved ps sh = 0" using cnt(2,4) kind by auto
  have full: "slab_full pool sh = {0..<64}" using tot by (simp add: slab_full_def ps_def)
  have bit: "bit (p_slab pool (SPage i)) x \<longleftrightarrow> x \<in> B" if "x < 64" for x
    using d(4) [of x] that kind by (simp add: tot slab_chunk_bit_def ps_def [symmetric])
  have "\<exists>c0 < 64. c0 \<notin> B" using d(2) nf unfolding full by auto
  then obtain c0 where "c0 < 64" "c0 \<notin> B" by blast
  then obtain c where c: "slab_first_clear (p_slab pool (SPage i)) 0 64 = Some c"
    using slab_first_clear_ex [of 0 c0 64] bit by auto
  note cc = slab_first_clear_Some [OF c]
  let ?m = "slab_mark pool i sh c set_bit"
  have m: "?m = set_slab (SPage i) (set_bit c (p_slab pool (SPage i))) pool" using kind by (simp add: slab_mark_def ps_def)
  have cf: "c \<in> slab_full pool sh - B" using cc bit by (auto simp: full)
  have ok': "slab_chunk_ok ?m i k (insert c B)"
    unfolding sh_def using cf by (intro slab_mark_ok [OF sizes ok]) (auto simp: sh_def)
  have "insert c B = slab_full pool sh \<longleftrightarrow> p_slab ?m (SPage i) = SLAB_BUSY"
    unfolding slab_busy_iff using slab_full_bits [OF _ ok'] kind sizes
    by (simp add: sh_def [symmetric] slab_full_def slab_sizes_ok_def ps_def [symmetric] tot slab_chunk_bit_def)
  then have "slab_take_exact pool k sh i =
    Some (ngx_slab_page_addr pool i + c * 2 ^ sh,
      slab_used k (if insert c B = slab_full pool sh then slab_retire i SLAB_EXACT ?m else ?m))"
    unfolding slab_take_exact_def c option.case Let_def m [symmetric] by simp
  then show ?thesis using cf kind by auto
qed

lemma slab_take_big_eq:
  assumes sizes: "slab_sizes_ok pool" and ok: "slab_chunk_ok pool i k B"
  defines "sh \<equiv> sl_min_shift pool + k" and "ps \<equiv> sl_page_shift pool"
  assumes kind: "slab_kind ps sh = SLAB_BIG" and nf: "B \<noteq> slab_full pool sh"
  shows "\<exists>c \<in> slab_full pool sh - B. slab_take_big pool k sh i =
    Some (ngx_slab_page_addr pool i + c * 2 ^ sh,
      slab_used k (if insert c B = slab_full pool sh then slab_retire i (slab_kind ps sh) (slab_mark pool i sh c set_bit)
                   else slab_mark pool i sh c set_bit))"
proof -
  note d = slab_chunk_okD [OF ok, folded sh_def ps_def]
  have le: "sl_min_shift pool \<le> sh" by (simp add: sh_def)
  note cnt = slab_chunk_counts [OF sizes le d(1) [unfolded ps_def], folded ps_def]
  let ?n = "slab_chunks ps sh"
  have tot: "?n \<le> 32" "slab_reserved ps sh = 0" using cnt(3,4) kind by auto
  have full: "slab_full pool sh = {0..<?n}" using tot by (simp add: slab_full_def ps_def)
  have bit: "bit (p_slab pool (SPage i)) (32 + x) \<longleftrightarrow> x \<in> B" if "x < ?n" for x
    using d(4) [of x] that kind by (simp add: tot slab_chunk_bit_def ps_def [symmetric])
  have "\<exists>c0 < ?n. c0 \<notin> B" using d(2) nf unfolding full by auto
  then obtain c0 where c0: "c0 < ?n" "c0 \<notin> B" by blast
  then obtain b where b: "slab_first_clear (p_slab pool (SPage i)) 32 (32 + ?n) = Some b"
    using slab_first_clear_ex [of 32 "32 + c0" "32 + ?n"] bit by auto
  note bb = slab_first_clear_Some [OF b]
  define c where "c = b - 32"
  have bc: "b = 32 + c" "c < ?n" using bb by (auto simp: c_def)
  let ?m = "slab_mark pool i sh c set_bit"
  have m: "?m = set_slab (SPage i) (set_bit b (p_slab pool (SPage i))) pool" using kind bc by (simp add: slab_mark_def ps_def)
  have cf: "c \<in> slab_full pool sh - B" using bb bc bit by (auto simp: full)
  have ok': "slab_chunk_ok ?m i k (insert c B)"
    unfolding sh_def using cf by (intro slab_mark_ok [OF sizes ok]) (auto simp: sh_def)
  note d' = slab_chunk_okD [OF ok', unfolded slab_mark_frame, folded sh_def ps_def]
  have "insert c B = slab_full pool sh \<longleftrightarrow> p_slab ?m (SPage i) AND SLAB_MAP_MASK = slab_big_mask ps sh"
  proof -
    have mask: "bit (slab_big_mask ps sh) x \<longleftrightarrow> 32 \<le> x \<and> x < 32 + ?n" for x
      unfolding slab_big_mask_def using slab_big_mask_bit [OF tot(1)] by (simp add: slab_chunks_def)
    have "p_slab ?m (SPage i) AND SLAB_MAP_MASK = slab_big_mask ps sh \<longleftrightarrow>
        (\<forall>x < 64. bit (p_slab ?m (SPage i) AND SLAB_MAP_MASK) x \<longleftrightarrow> bit (slab_big_mask ps sh) x)"
      by (auto simp: bit_eq_iff)
    also have "\<dots> \<longleftrightarrow> (\<forall>x < 64. 32 \<le> x \<longrightarrow> (x - 32 \<in> insert c B \<longleftrightarrow> x < 32 + ?n))"
      unfolding bit_and_iff slab_map_mask_bit mask using d'(6) [OF kind] by auto
    also have "\<dots> \<longleftrightarrow> insert c B = {0..<?n}"
    proof
      assume all: "\<forall>x < 64. 32 \<le> x \<longrightarrow> (x - 32 \<in> insert c B \<longleftrightarrow> x < 32 + ?n)"
      have "{0..<?n} \<subseteq> insert c B"
      proof
        fix y assume "y \<in> {0..<?n}"
        then show "y \<in> insert c B" using all [rule_format, of "32 + y"] tot(1) by simp
      qed
      moreover have "insert c B \<subseteq> {0..<?n}" using d'(2) by (simp add: slab_full_def tot ps_def [symmetric])
      ultimately show "insert c B = {0..<?n}" by blast
    next
      assume "insert c B = {0..<?n}"
      then show "\<forall>x < 64. 32 \<le> x \<longrightarrow> (x - 32 \<in> insert c B \<longleftrightarrow> x < 32 + ?n)" by auto
    qed
    finally show ?thesis unfolding full by blast
  qed
  then have "slab_take_big pool k sh i =
    Some (ngx_slab_page_addr pool i + c * 2 ^ sh,
      slab_used k (if insert c B = slab_full pool sh then slab_retire i SLAB_BIG ?m else ?m))"
    unfolding slab_take_big_def ps_def [symmetric] slab_chunks_def [symmetric] b option.case Let_def m [symmetric] c_def [symmetric]
    by simp
  then show ?thesis using cf kind by auto
qed

lemma slab_take_small_eq:
  assumes sizes: "slab_sizes_ok pool" and ok: "slab_chunk_ok pool i k B"
  defines "sh \<equiv> sl_min_shift pool + k" and "ps \<equiv> sl_page_shift pool"
  assumes kind: "slab_kind ps sh = SLAB_SMALL" and nf: "B \<noteq> slab_full pool sh"
  shows "\<exists>c \<in> slab_full pool sh - B. slab_take_small pool k sh i =
    Some (ngx_slab_page_addr pool i + c * 2 ^ sh,
      slab_used k (if insert c B = slab_full pool sh then slab_retire i (slab_kind ps sh) (slab_mark pool i sh c set_bit)
                   else slab_mark pool i sh c set_bit))"
proof -
  note d = slab_chunk_okD [OF ok, folded sh_def ps_def]
  have le: "sl_min_shift pool \<le> sh" by (simp add: sh_def)
  note cnt = slab_chunk_counts [OF sizes le d(1) [unfolded ps_def], folded ps_def]
  define W where "W = (2 :: nat) ^ (ps - sh - 6)"
  have tot: "slab_chunks ps sh = 64 * W" using cnt(1) kind by (simp add: W_def)
  have words: "2 ^ ps div 2 ^ sh div (8 * 8) = W" using tot by (simp add: slab_chunks_def)
  have bit: "bit (sl_map pool i (x div 64)) (x mod 64) \<longleftrightarrow> x < slab_reserved ps sh \<or> x \<in> B" if "x < 64 * W" for x
    using d(4) [of x] that kind by (simp add: tot slab_chunk_bit_def ps_def [symmetric])
  obtain j where j: "j < W" "sl_map pool i j \<noteq> SLAB_BUSY"
    using words_bits [of W "sl_map pool i"] slab_full_bits [OF sizes ok] nf kind tot
    by (auto simp: sh_def [symmetric] ps_def [symmetric] slab_chunk_bit_def)
  then obtain n b where nb: "slab_scan (sl_map pool i) 0 W = Some (n, b)" using slab_scan_ex [of 0 j W] by fastforce
  note s = slab_scan_Some [OF nb]
  define c where "c = 64 * n + b"
  have c: "c div 64 = n" "c mod 64 = b" "c < 64 * W" using s by (auto simp: c_def)
  let ?m = "slab_mark pool i sh c set_bit"
  have m: "?m = set_map i n (set_bit b (sl_map pool i n)) pool" using kind c by (simp add: slab_mark_def ps_def)
  have cf: "c \<in> slab_full pool sh - B" using s bit [OF c(3)] c tot by (auto simp: slab_full_def ps_def [symmetric])
  have ok': "slab_chunk_ok ?m i k (insert c B)"
    unfolding sh_def using cf by (intro slab_mark_ok [OF sizes ok]) (auto simp: sh_def)
  have "insert c B = slab_full pool sh \<longleftrightarrow> (\<forall>j < W. sl_map ?m i j = SLAB_BUSY)"
    unfolding words_bits using slab_full_bits [OF _ ok'] kind sizes
    by (simp add: sh_def [symmetric] slab_full_def slab_sizes_ok_def ps_def [symmetric] tot slab_chunk_bit_def)
  also have "\<dots> \<longleftrightarrow> sl_map ?m i n = SLAB_BUSY \<and> slab_all (sl_map ?m i) SLAB_BUSY (Suc n) W"
  proof -
    have "sl_map ?m i j = SLAB_BUSY" if "j < n" for j using s that by (simp add: m)
    then show ?thesis using s unfolding slab_all_iff by (metis Suc_leI linorder_less_linear)
  qed
  finally have "slab_take_small pool k sh i =
    Some (ngx_slab_page_addr pool i + (n * 8 * 8 + b) * 2 ^ sh,
      if insert c B = slab_full pool sh then slab_retire i SLAB_SMALL (slab_used k ?m) else slab_used k ?m)"
    unfolding slab_take_small_def ps_def [symmetric] words nb option.case prod.case Let_def m [symmetric]
    by (simp add: slab_used_def ngx_slab_page_addr_def)
  moreover have "n * 8 * 8 + b = c" by (simp add: c_def)
  ultimately show ?thesis using cf kind by (auto simp: slab_retire_used)
qed

lemma slab_take_chunk_eq:
  assumes sizes: "slab_sizes_ok pool" and ok: "slab_chunk_ok pool i k B"
  defines "sh \<equiv> sl_min_shift pool + k" and "ps \<equiv> sl_page_shift pool"
  assumes nf: "B \<noteq> slab_full pool sh"
  shows "\<exists>c \<in> slab_full pool sh - B. slab_take_chunk pool k sh i =
    Some (ngx_slab_page_addr pool i + c * 2 ^ sh,
      slab_used k (if insert c B = slab_full pool sh then slab_retire i (slab_kind ps sh) (slab_mark pool i sh c set_bit)
                   else slab_mark pool i sh c set_bit))"
proof -
  have e: "ngx_slab_exact_shift ps = ps - 6"
    using sizes by (intro slab_exact_sizes) (auto simp: slab_sizes_ok_def ps_def)
  note take = slab_take_chunk_def e ps_def [symmetric]
  show ?thesis
  proof (cases rule: slab_kind_cases [of ps sh])
    case 1
    then show ?thesis
      using slab_take_small_eq [OF sizes ok, folded sh_def ps_def] nf by (simp add: take)
  next
    case 2
    then show ?thesis
      using slab_take_exact_eq [OF sizes ok, folded sh_def ps_def] nf by (simp add: take)
  next
    case 3
    then show ?thesis
      using slab_take_big_eq [OF sizes ok, folded sh_def ps_def] nf by (simp add: take)
  qed
qed

section \<open>The lists of the slots\<close>

definition slab_slots_ok :: "(slab_ref \<Rightarrow> slab_ref) \<Rightarrow> (slab_ref \<Rightarrow> slab_ref \<times> slab_type) \<Rightarrow> (nat \<Rightarrow> slab_type) \<Rightarrow>
    nat \<Rightarrow> (nat \<Rightarrow> nat list) \<Rightarrow> bool" where
  "slab_slots_ok n l T K L \<longleftrightarrow>
     (\<forall>k < K. slab_list n l (T k) (SSlot k) (map SPage (L k)) (SSlot k) \<and> distinct (L k)) \<and>
     (\<forall>k < K. \<forall>k' < K. k \<noteq> k' \<longrightarrow> set (L k) \<inter> set (L k') = {})"

lemma slab_slotsD:
  assumes "slab_slots_ok n l T K L" "k < K"
  shows "slab_list n l (T k) (SSlot k) (map SPage (L k)) (SSlot k)" "distinct (L k)"
    "k' < K \<Longrightarrow> k \<noteq> k' \<Longrightarrow> set (L k) \<inter> set (L k') = {}"
  using assms unfolding slab_slots_ok_def by blast+

lemma slab_slots_frame:
  assumes "slab_slots_ok n l T K L"
    and "\<And>k. k < K \<Longrightarrow> n' (SSlot k) = n (SSlot k)"
    and "\<And>k i. k < K \<Longrightarrow> i \<in> set (L k) \<Longrightarrow> n' (SPage i) = n (SPage i) \<and> l' (SPage i) = l (SPage i)"
  shows "slab_slots_ok n' l' T K L"
proof -
  have "slab_list n' l' (T k) (SSlot k) (map SPage (L k)) (SSlot k) = slab_list n l (T k) (SSlot k) (map SPage (L k)) (SSlot k)"
    if "k < K" for k
    using assms(2,3) that by (intro slab_list_cong) auto
  then show ?thesis using assms(1) unfolding slab_slots_ok_def by auto
qed

lemma slab_slots_change:
  \<comment> \<open>one list changes\<close>
  assumes ok: "slab_slots_ok n l T K L" and k: "k < K"
    and new: "slab_list n' l' (T k) (SSlot k) (map SPage xs) (SSlot k)" "distinct xs"
      "\<And>k' i. k' < K \<Longrightarrow> k' \<noteq> k \<Longrightarrow> i \<in> set xs \<Longrightarrow> i \<notin> set (L k')"
    and same: "\<And>k'. k' < K \<Longrightarrow> k' \<noteq> k \<Longrightarrow> n' (SSlot k') = n (SSlot k')"
      "\<And>k' i. k' < K \<Longrightarrow> k' \<noteq> k \<Longrightarrow> i \<in> set (L k') \<Longrightarrow> n' (SPage i) = n (SPage i) \<and> l' (SPage i) = l (SPage i)"
  shows "slab_slots_ok n' l' T K (L(k := xs))"
  unfolding slab_slots_ok_def
proof (intro conjI allI impI)
  fix k' assume k': "k' < K"
  show "slab_list n' l' (T k') (SSlot k') (map SPage ((L(k := xs)) k')) (SSlot k')"
  proof (cases "k' = k")
    case False
    have "slab_list n' l' (T k') (SSlot k') (map SPage (L k')) (SSlot k') =
        slab_list n l (T k') (SSlot k') (map SPage (L k')) (SSlot k')"
      using same [OF k' False] by (intro slab_list_cong) auto
    then show ?thesis using slab_slotsD(1) [OF ok k'] False by simp
  qed (use new in simp)
  show "distinct ((L(k := xs)) k')" using slab_slotsD(2) [OF ok k'] new(2) by simp
  fix k'' assume "k'' < K" "k' \<noteq> k''"
  then show "set ((L(k := xs)) k') \<inter> set ((L(k := xs)) k'') = {}"
    using slab_slotsD(3) [OF ok k', of k''] new(3) [OF k'] new(3) [of k''] by auto
qed

lemma slab_slots_insert:
  assumes ok: "slab_slots_ok n l T K L" and k: "k < K" and i: "\<And>k'. k' < K \<Longrightarrow> i \<notin> set (L k')"
    and n': "n' = n(SPage i := n (SSlot k), SSlot k := SPage i)"
    and l': "\<And>r. r \<noteq> SPage i \<Longrightarrow> r \<noteq> n (SSlot k) \<Longrightarrow> l' r = l r" "l' (SPage i) = (SSlot k, T k)"
      "n (SSlot k) \<noteq> SSlot k \<Longrightarrow> l' (n (SSlot k)) = (SPage i, T k)"
  shows "slab_slots_ok n' l' T K (L(k := i # L k))"
proof (rule slab_slots_change [OF ok k])
  note d = slab_slotsD [OF ok k]
  have q: "n (SSlot k) = hd (map SPage (L k) @ [SSlot k])" using d(1) by (cases "L k") auto
  then have q': "n (SSlot k) \<in> insert (SSlot k) (SPage ` set (L k))" by (cases "L k") auto
  let ?l = "l(SPage i := (SSlot k, T k), hd (map SPage (L k) @ [SSlot k]) := (SPage i, T k))"
  have "slab_list n' ?l (T k) (SSlot k) (SPage i # map SPage (L k)) (SSlot k)"
    unfolding n' by (rule slab_list_insert [OF d(1)]) (use i [OF k] d(2) in \<open>auto simp: distinct_map inj_on_def\<close>)
  moreover have "slab_list n' l' (T k) (SSlot k) (SPage i # map SPage (L k)) (SSlot k) =
      slab_list n' ?l (T k) (SSlot k) (SPage i # map SPage (L k)) (SSlot k)"
  proof (rule slab_list_cong)
    fix y assume y: "y \<in> set (SPage i # map SPage (L k))"
    have "n (SSlot k) \<noteq> SPage i" using q' i [OF k] by auto
    moreover have "y \<noteq> SSlot k" using y by auto
    ultimately show "l' y = ?l y"
      unfolding q [symmetric] using l'(1) [of y] l'(2,3) by (cases "y = n (SSlot k)") auto
  qed simp
  ultimately show "slab_list n' l' (T k) (SSlot k) (map SPage (i # L k)) (SSlot k)" by simp
  show "distinct (i # L k)" using d(2) i [OF k] by simp
  show "x \<notin> set (L k')" if "k' < K" "k' \<noteq> k" "x \<in> set (i # L k)" for k' x
    using that i [OF that(1)] d(3) [OF that(1)] by auto
  show "n' (SSlot k') = n (SSlot k')" if "k' < K" "k' \<noteq> k" for k' using that by (simp add: n')
  show "n' (SPage x) = n (SPage x) \<and> l' (SPage x) = l (SPage x)" if "k' < K" "k' \<noteq> k" "x \<in> set (L k')" for k' x
  proof -
    have "x \<noteq> i" using i that by auto
    moreover have "SPage x \<noteq> n (SSlot k)" using q' that d(3) [OF that(1)] by auto
    ultimately show ?thesis using l'(1) by (simp add: n')
  qed
qed

lemma slab_slots_remove:
  assumes ok: "slab_slots_ok n l T K L" and k: "k < K" and i: "i \<in> set (L k)"
  obtains P Q where "l (SPage i) = (P, T k)" "n (SPage i) = Q" "P \<noteq> SPage i" "Q \<noteq> SPage i" "Q \<noteq> SNull"
    "P \<in> insert (SSlot k) (SPage ` (set (L k) - {i}))" "Q \<in> insert (SSlot k) (SPage ` (set (L k) - {i}))"
    "\<And>n' l'. (\<And>r. r \<noteq> SPage i \<Longrightarrow> n' r = (n(P := Q)) r) \<Longrightarrow> (\<And>r. r \<noteq> SPage i \<Longrightarrow> l' r = (l(Q := (P, T k))) r) \<Longrightarrow>
       slab_slots_ok n' l' T K (L(k := remove1 i (L k)))"
proof -
  note d = slab_slotsD [OF ok k]
  obtain xs ys where L: "L k = xs @ i # ys" "i \<notin> set xs" using split_list_first [OF i] by auto
  have iys: "i \<notin> set ys" using d(2) L by simp
  have rm: "remove1 i (L k) = xs @ ys" using L by (simp add: remove1_append)
  have l: "slab_list n l (T k) (SSlot k) (map SPage xs @ SPage i # map SPage ys) (SSlot k)" using d(1) L by simp
  have dist: "distinct (SSlot k # map SPage xs @ SPage i # map SPage ys)"
    using d(2) L by (auto simp: distinct_map inj_on_def)
  define P where "P = last (SSlot k # map SPage xs)"
  define Q where "Q = hd (map SPage ys @ [SSlot k])"
  have P: "P \<in> insert (SSlot k) (SPage ` (set (L k) - {i}))"
    using last_in_set [of "SSlot k # map SPage xs"] L iys unfolding P_def by auto
  have Q: "Q \<in> insert (SSlot k) (SPage ` (set (L k) - {i}))"
    using L iys unfolding Q_def by (cases ys) auto
  have rem: "slab_list (n(P := Q)) (l(Q := (P, T k))) (T k) (SSlot k) (map SPage xs @ map SPage ys) (SSlot k)"
    unfolding P_def Q_def by (rule slab_list_remove [OF l dist]) auto
  show ?thesis
  proof (rule that [OF slab_list_splitD(2,4) [OF l, folded P_def Q_def]])
    show "P \<noteq> SPage i" "Q \<noteq> SPage i" "Q \<noteq> SNull" using P Q by auto
    show "P \<in> insert (SSlot k) (SPage ` (set (L k) - {i}))" "Q \<in> insert (SSlot k) (SPage ` (set (L k) - {i}))" by fact+
    fix n' l' assume n': "\<And>r. r \<noteq> SPage i \<Longrightarrow> n' r = (n(P := Q)) r" and l': "\<And>r. r \<noteq> SPage i \<Longrightarrow> l' r = (l(Q := (P, T k))) r"
    show "slab_slots_ok n' l' T K (L(k := remove1 i (L k)))"
      unfolding rm
    proof (rule slab_slots_change [OF ok k])
      have "slab_list n' l' (T k) (SSlot k) (map SPage xs @ map SPage ys) (SSlot k) =
          slab_list (n(P := Q)) (l(Q := (P, T k))) (T k) (SSlot k) (map SPage xs @ map SPage ys) (SSlot k)"
        using L iys by (intro slab_list_cong n' l') auto
      then show "slab_list n' l' (T k) (SSlot k) (map SPage (xs @ ys)) (SSlot k)" using rem by simp
      show "distinct (xs @ ys)" using d(2) L by simp
      show "x \<notin> set (L k')" if "k' < K" "k' \<noteq> k" "x \<in> set (xs @ ys)" for k' x
        using that d(3) [OF that(1)] L by auto
      show "n' (SSlot k') = n (SSlot k')" if "k' < K" "k' \<noteq> k" for k' using that P by (auto simp: n')
      show "n' (SPage x) = n (SPage x) \<and> l' (SPage x) = l (SPage x)" if "k' < K" "k' \<noteq> k" "x \<in> set (L k')" for k' x
      proof -
        have "x \<noteq> i" "SPage x \<noteq> P" "SPage x \<noteq> Q" using that d(3) [OF that(1)] i P Q by auto
        then show ?thesis by (simp add: n' l')
      qed
    qed
  qed
qed

end
