(* ===== verification/Ngx_Slab_Pool.thy ===== *)
theory Ngx_Slab_Pool
  imports Ngx_Slab_Slots
begin

text \<open>
  The invariant of a slab pool as a whole, kept by the operations on pages and by those on
  chunks, and the counters of the slots.
\<close>

section \<open>Sums over the blocks\<close>

definition slab_sum :: "nat \<Rightarrow> (slab_seg option \<Rightarrow> nat) \<Rightarrow> slab_heads \<Rightarrow> nat" where
  "slab_sum N f H = (\<Sum>i<N. f (H i))"

lemma slab_sum_upd:
  assumes "i < N"
  shows "slab_sum N f (H(i := s)) + f (H i) = slab_sum N f H + f s"
proof -
  have e: "{..<N} = insert i ({..<N} - {i})" using assms by auto
  have "(\<Sum>x<N. g x) = g i + (\<Sum>x \<in> {..<N} - {i}. g x)" for g :: "nat \<Rightarrow> nat"
    by (subst e, subst sum.insert) auto
  note this [of "\<lambda>x. f ((H(i := s)) x)"] this [of "\<lambda>x. f (H x)"]
  moreover have "(\<Sum>x \<in> {..<N} - {i}. f ((H(i := s)) x)) = (\<Sum>x \<in> {..<N} - {i}. f (H x))" by (rule sum.cong) auto
  ultimately show ?thesis unfolding slab_sum_def by simp
qed

fun slab_count_used :: "nat \<Rightarrow> slab_seg option \<Rightarrow> nat" where
  \<comment> \<open>chunks of the slot that are given out\<close>
  "slab_count_used k (Some (Chunk_Seg k' B)) = (if k' = k then card B else 0)"
| "slab_count_used k _ = 0"

fun slab_count_total :: "nat \<Rightarrow> nat \<Rightarrow> slab_seg option \<Rightarrow> nat" where
  \<comment> \<open>\<open>n\<close> chunks for each page of the slot\<close>
  "slab_count_total n k (Some (Chunk_Seg k' B)) = (if k' = k then n else 0)"
| "slab_count_total n k _ = 0"

definition slab_same_chunks :: "slab_heads \<Rightarrow> slab_heads \<Rightarrow> bool" where
  "slab_same_chunks H H' \<longleftrightarrow> (\<forall>j k B. H' j = Some (Chunk_Seg k B) \<longleftrightarrow> H j = Some (Chunk_Seg k B))"

lemma slab_same_chunks_counts:
  assumes "slab_same_chunks H H'"
  shows "slab_sum N (slab_count_used k) H' = slab_sum N (slab_count_used k) H"
    "slab_sum N (slab_count_total n k) H' = slab_sum N (slab_count_total n k) H"
proof -
  have "slab_count_used k (H' j) = slab_count_used k (H j) \<and> slab_count_total n k (H' j) = slab_count_total n k (H j)" for j
  proof (cases "\<exists>k B. H j = Some (Chunk_Seg k B)")
    case True
    then show ?thesis using assms unfolding slab_same_chunks_def by metis
  next
    case False
    then have "\<nexists>k B. H' j = Some (Chunk_Seg k B)" using assms unfolding slab_same_chunks_def by metis
    moreover have "slab_count_used k x = 0 \<and> slab_count_total n k x = 0" if "\<nexists>k B. x = Some (Chunk_Seg k B)" for x
      using that by (cases "(k, x)" rule: slab_count_used.cases) auto
    ultimately show ?thesis using False by metis
  qed
  then show "slab_sum N (slab_count_used k) H' = slab_sum N (slab_count_used k) H"
    "slab_sum N (slab_count_total n k) H' = slab_sum N (slab_count_total n k) H"
    by (simp_all add: slab_sum_def)
qed

section \<open>The invariant\<close>

abbreviation slab_slots :: "slab_pool \<Rightarrow> nat" where
  "slab_slots pool \<equiv> sl_page_shift pool - sl_min_shift pool"

abbreviation slab_slot_kind :: "slab_pool \<Rightarrow> nat \<Rightarrow> slab_type" where
  "slab_slot_kind pool k \<equiv> slab_kind (sl_page_shift pool) (sl_min_shift pool + k)"

abbreviation slab_slot_full :: "slab_pool \<Rightarrow> nat \<Rightarrow> nat set" where
  "slab_slot_full pool k \<equiv> slab_full pool (sl_min_shift pool + k)"

definition slab_counts_ok :: "slab_pool \<Rightarrow> slab_heads \<Rightarrow> bool" where
  "slab_counts_ok pool H \<longleftrightarrow>
     (\<forall>k < slab_slots pool.
        st_used (sl_stats pool k) = of_nat (slab_sum (sl_count pool) (slab_count_used k) H) \<and>
        st_total (sl_stats pool k) = of_nat (slab_sum (sl_count pool) (slab_count_total (card (slab_slot_full pool k)) k) H))"

definition slab_core :: "slab_pool \<Rightarrow> slab_heads \<Rightarrow> nat list \<Rightarrow> (nat \<Rightarrow> nat list) \<Rightarrow> bool" where
  \<comment> \<open>a page may have no chunk given out\<close>
  "slab_core pool H F L \<longleftrightarrow>
     slab_pages_ok pool H F \<and> slab_sizes_ok pool \<and>
     (\<forall>i k B. H i = Some (Chunk_Seg k B) \<longrightarrow>
        slab_chunk_ok pool i k B \<and> (B = slab_slot_full pool k \<longrightarrow> p_next pool (SPage i) = SNull)) \<and>
     slab_slots_ok (p_next pool) (p_link pool) (slab_slot_kind pool) (slab_slots pool) L \<and>
     (\<forall>k < slab_slots pool. set (L k) = {i. \<exists>B. H i = Some (Chunk_Seg k B) \<and> B \<noteq> slab_slot_full pool k}) \<and>
     slab_counts_ok pool H"

definition slab_inv :: "slab_pool \<Rightarrow> slab_heads \<Rightarrow> nat list \<Rightarrow> (nat \<Rightarrow> nat list) \<Rightarrow> bool" where
  "slab_inv pool H F L \<longleftrightarrow> slab_core pool H F L \<and> (\<forall>i k. H i \<noteq> Some (Chunk_Seg k {}))"

lemma slab_coreD:
  assumes "slab_core pool H F L"
  shows "slab_pages_ok pool H F" "slab_sizes_ok pool"
    "H i = Some (Chunk_Seg k B) \<Longrightarrow> slab_chunk_ok pool i k B"
    "H i = Some (Chunk_Seg k B) \<Longrightarrow> B = slab_slot_full pool k \<Longrightarrow> p_next pool (SPage i) = SNull"
    "slab_slots_ok (p_next pool) (p_link pool) (slab_slot_kind pool) (slab_slots pool) L"
    "k < slab_slots pool \<Longrightarrow> set (L k) = {i. \<exists>B. H i = Some (Chunk_Seg k B) \<and> B \<noteq> slab_slot_full pool k}"
    "slab_counts_ok pool H"
  using assms unfolding slab_core_def by blast+

lemma slab_core_slot: "slab_core pool H F L \<Longrightarrow> H i = Some (Chunk_Seg k B) \<Longrightarrow> k < slab_slots pool"
  using slab_chunk_okD(1) [OF slab_coreD(3)] by fastforce

definition slab_consts :: "slab_pool \<Rightarrow> nat \<times> nat \<times> nat \<times> nat \<times> nat" where
  "slab_consts pool = (sl_min_shift pool, sl_page_shift pool, sl_count pool, sl_start pool, sl_end pool)"

lemma slab_consts_eq:
  assumes "slab_consts pool' = slab_consts pool"
  shows "sl_min_shift pool' = sl_min_shift pool" "sl_page_shift pool' = sl_page_shift pool" "sl_count pool' = sl_count pool"
    "sl_start pool' = sl_start pool" "sl_end pool' = sl_end pool" "slab_full pool' = slab_full pool"
    "slab_sizes_ok pool' = slab_sizes_ok pool" "ngx_slab_page_addr pool' = ngx_slab_page_addr pool"
  using assms by (auto simp: slab_consts_def slab_full_def slab_sizes_ok_def ngx_slab_page_addr_def fun_eq_iff)

lemma slab_rest_consts: "slab_rest pool' = slab_rest pool \<Longrightarrow> slab_consts pool' = slab_consts pool"
  by (simp add: slab_rest_def slab_consts_def)

section \<open>Operations on pages\<close>

lemma free_refs_chunk:
  assumes "slab_tiles N H" "H i = Some (Chunk_Seg k B)"
  shows "SPage i \<notin> slab_free_refs H"
proof
  assume "SPage i \<in> slab_free_refs H"
  then obtain j n where "H j = Some (Free_Seg n)" "j \<le> i" "i < j + n" by (auto simp: slab_free_refs_def)
  then show False using tilesD(3) [OF assms(1), of j "Free_Seg n" i] assms(2) by (cases "j = i") auto
qed

lemma free_refs_slot [simp]: "SSlot k \<notin> slab_free_refs H" "SNull \<notin> slab_free_refs H"
  by (auto simp: slab_free_refs_def)

lemma slab_core_pages:
  \<comment> \<open>an operation on pages that are not cut into chunks\<close>
  assumes core: "slab_core pool H F L" and ok: "slab_pages_ok pool' H' F'"
    and same: "slab_same R pool pool'" "\<And>k. SSlot k \<notin> R" "\<And>i k B. H i = Some (Chunk_Seg k B) \<Longrightarrow> SPage i \<notin> R"
    and chunks: "slab_same_chunks H H'"
  shows "slab_core pool' H' F' L"
proof -
  note d = slab_coreD [OF core]
  have rest: "slab_rest pool' = slab_rest pool" using same(1) by (simp add: slab_same_def)
  note c = slab_consts_eq [OF slab_rest_consts [OF rest]]
  have eq: "p_slab pool' r = p_slab pool r" "p_next pool' r = p_next pool r" "p_link pool' r = p_link pool r" if "r \<notin> R" for r
    using same(1) that by (simp_all add: slab_same_def)
  have m: "sl_map pool' = sl_map pool" "sl_stats pool' = sl_stats pool" using rest by (simp_all add: slab_rest_def)
  have ch: "H' i = Some (Chunk_Seg k B) \<longleftrightarrow> H i = Some (Chunk_Seg k B)" for i k B
    using chunks unfolding slab_same_chunks_def by blast
  have "slab_chunk_ok pool' i k B \<and> (B = slab_slot_full pool k \<longrightarrow> p_next pool' (SPage i) = SNull)"
    if "H i = Some (Chunk_Seg k B)" for i k B
    using d(3,4) [OF that] eq [OF same(3) [OF that]] m c by (auto intro: slab_chunk_ok_frame)
  moreover have "slab_slots_ok (p_next pool') (p_link pool') (slab_slot_kind pool) (slab_slots pool) L"
  proof (rule slab_slots_frame [OF d(5)])
    show "p_next pool' (SSlot k) = p_next pool (SSlot k)" for k using eq same(2) by blast
    fix k i assume "k < slab_slots pool" "i \<in> set (L k)"
    then obtain B where "H i = Some (Chunk_Seg k B)" using d(6) by blast
    then show "p_next pool' (SPage i) = p_next pool (SPage i) \<and> p_link pool' (SPage i) = p_link pool (SPage i)"
      using eq same(3) by blast
  qed
  moreover have "slab_counts_ok pool' H'"
    using d(7) by (simp add: slab_counts_ok_def c m slab_same_chunks_counts [OF chunks])
  ultimately show ?thesis
    unfolding slab_core_def c ch using ok d(2,6) by blast
qed

section \<open>Operations on chunks\<close>

lemma slab_pages_chunk:
  \<comment> \<open>a page in use becomes or stays a page of chunks; links of such pages and of slots may change\<close>
  assumes ok: "slab_pages_ok pool H F" and i: "H i = Some s" "\<not> seg_free s" "seg_len s = 1"
    and c: "sl_count pool' = sl_count pool" "sl_pfree pool' = sl_pfree pool"
    and slab: "\<And>r. r \<noteq> SPage i \<Longrightarrow> p_slab pool' r = p_slab pool r"
    and R: "\<And>r. r \<notin> R \<Longrightarrow> r \<noteq> SPage i \<Longrightarrow> p_next pool' r = p_next pool r \<and> p_link pool' r = p_link pool r"
      "SFree \<notin> R" "\<And>x. SPage x \<in> R \<Longrightarrow> \<exists>k B. H x = Some (Chunk_Seg k B)"
    and ty: "\<And>x. x = i \<or> SPage x \<in> R \<Longrightarrow> p_type pool' (SPage x) \<noteq> SLAB_PAGE"
  shows "slab_pages_ok pool' (H(i \<mapsto> Chunk_Seg k B)) F"
proof -
  note d = slab_pages_okD [OF ok]
  have segs: "seg_desc pool' j t" if j: "(H(i \<mapsto> Chunk_Seg k B)) j = Some t" for j t
  proof (cases "j = i \<or> SPage j \<in> R")
    case True
    then have "\<exists>k B. t = Chunk_Seg k B" using j R(3) [of j] by (cases "j = i") auto
    then show ?thesis using ty [OF True] by auto
  next
    case False
    then have h: "H j = Some t" using j by simp
    have out: "SPage x \<notin> R \<and> x \<noteq> i" if x: "j \<le> x" "x < j + seg_len t" for x
    proof (cases "x = j")
      case False
      then have "H x = None" using tilesD(3) [OF d(1) h, of x] x by simp
      then show ?thesis using R(3) [of x] i(1) by auto
    qed (use False in auto)
    show ?thesis
      using out slab R(1) c(1) by (intro seg_desc_frame [OF d(3) [OF h] tilesD(1) [OF d(1) h]]) auto
  qed
  have y: "y \<notin> R \<and> y \<noteq> SPage i" if "y \<in> insert SFree (SPage ` set F)" for y
    using that R(2,3) d(7) i(1,2) by fastforce
  have "slab_list (p_next pool') (p_link pool') SLAB_PAGE SFree (map SPage F) SFree"
    using d(5) y R(1) by (subst slab_list_cong [where n = "p_next pool" and l = "p_link pool"]) auto
  moreover have "set F = {j. \<exists>n. (H(i \<mapsto> Chunk_Seg k B)) j = Some (Free_Seg n)}" using d(7) i(1,2) by auto
  moreover have "slab_free_pages_of (sl_count pool) (H(i \<mapsto> Chunk_Seg k B)) = slab_free_pages_of (sl_count pool) H"
    using slab_free_pages_of_upd [of i "sl_count pool" H "Some (Chunk_Seg k B)"] i tilesD(1,2) [OF d(1) i(1)]
    by (cases s) auto
  moreover have "slab_coalesced (H(i \<mapsto> Chunk_Seg k B))" using d(4) unfolding slab_coalesced_def by auto
  ultimately show ?thesis
    unfolding slab_pages_ok_def c using tiles_same [OF d(1) i(1), of "Chunk_Seg k B"] i(3) d(2,6,8) segs by simp
qed

lemma slab_core_chunk:
  assumes core: "slab_core pool H F L" and i: "H i = Some s" "\<not> seg_free s" "seg_len s = 1"
      "\<And>k' B. s = Chunk_Seg k' B \<Longrightarrow> k' = k"
    and c: "slab_consts pool' = slab_consts pool" "sl_pfree pool' = sl_pfree pool"
    and slab: "\<And>r. r \<noteq> SPage i \<Longrightarrow> p_slab pool' r = p_slab pool r"
      "\<And>j. j \<noteq> i \<Longrightarrow> sl_map pool' j = sl_map pool j"
    and R: "\<And>r. r \<notin> insert (SSlot k) (SPage ` set (L k)) \<Longrightarrow> r \<noteq> SPage i \<Longrightarrow>
      p_next pool' r = p_next pool r \<and> p_link pool' r = p_link pool r"
    and new: "k < slab_slots pool" "slab_chunk_ok pool' i k B" "B = slab_slot_full pool k \<Longrightarrow> p_next pool' (SPage i) = SNull"
    and slots: "slab_slots_ok (p_next pool') (p_link pool') (slab_slot_kind pool) (slab_slots pool) (L(k := xs))"
      "set xs = set (L k) - {i} \<union> (if B = slab_slot_full pool k then {} else {i})"
    and counts: "slab_counts_ok pool' (H(i \<mapsto> Chunk_Seg k B))"
  shows "slab_core pool' (H(i \<mapsto> Chunk_Seg k B)) F (L(k := xs))"
proof -
  note d = slab_coreD [OF core] note ce = slab_consts_eq [OF c(1)]
  let ?H = "H(i \<mapsto> Chunk_Seg k B)"
  have link: "p_type pool' (SPage j) = slab_slot_kind pool k" if j: "j \<in> set xs" for j
  proof -
    obtain ys zs where "xs = ys @ j # zs" using split_list [OF j] by blast
    then show ?thesis using slab_slotsD(1) [OF slots(1) new(1)] by (simp add: slab_list_append)
  qed
  have ti: "p_type pool' (SPage i) = slab_slot_kind pool k"
    using slab_chunk_okD(3) [OF new(2)] by (simp add: ce)
  have "slab_pages_ok pool' ?H F"
  proof (rule slab_pages_chunk [OF d(1) i(1-3) ce(3) c(2) slab(1), of "insert (SSlot k) (SPage ` (set (L k)))"])
    show "p_type pool' (SPage x) \<noteq> SLAB_PAGE" if "x = i \<or> SPage x \<in> insert (SSlot k) (SPage ` set (L k))" for x
      using that ti link [of x] slots(2) by (cases "x = i") auto
    show "\<exists>k B. H x = Some (Chunk_Seg k B)" if "SPage x \<in> insert (SSlot k) (SPage ` set (L k))" for x
      using that d(6) [OF new(1)] by auto
  qed (use R in auto)
  moreover have "slab_chunk_ok pool' j k' B' \<and> (B' = slab_slot_full pool k' \<longrightarrow> p_next pool' (SPage j) = SNull)"
    if j: "?H j = Some (Chunk_Seg k' B')" for j k' B'
  proof (cases "j = i")
    case False
    then have h: "H j = Some (Chunk_Seg k' B')" using j by simp
    have nl: "j \<notin> set (L k) \<or> j \<in> set xs \<and> k' = k \<and> B' \<noteq> slab_slot_full pool k'"
      using d(6) [OF new(1)] h slots(2) False by auto
    have "p_type pool' (SPage j) = p_type pool (SPage j)"
    proof (cases "j \<in> set (L k)")
      case True
      then show ?thesis using nl link slab_chunk_okD(3) [OF d(3) [OF h]] by simp
    next
      case nin: False
      then have "SPage j \<notin> insert (SSlot k) (SPage ` set (L k))" by auto
      then show ?thesis using R False by auto
    qed
    moreover have "p_next pool' (SPage j) = SNull" if "B' = slab_slot_full pool k'"
    proof -
      have "j \<notin> set (L k)" using nl that by blast
      then have "SPage j \<notin> insert (SSlot k) (SPage ` set (L k))" by auto
      then show ?thesis using R False d(4) [OF h that] by auto
    qed
    ultimately show ?thesis
      using slab False d(3) [OF h] ce by (auto intro: slab_chunk_ok_frame)
  qed (use j new in auto)
  moreover have "set ((L(k := xs)) k') = {j. \<exists>B'. ?H j = Some (Chunk_Seg k' B') \<and> B' \<noteq> slab_slot_full pool k'}"
    if "k' < slab_slots pool" for k'
  proof (cases "k' = k")
    case True
    have "x \<in> set xs \<longleftrightarrow> (\<exists>B'. ?H x = Some (Chunk_Seg k B') \<and> B' \<noteq> slab_slot_full pool k)" for x
      unfolding slots(2) d(6) [OF new(1)] by (cases "x = i") simp_all
    then show ?thesis unfolding True fun_upd_same by (intro set_eqI) (simp only: mem_Collect_eq)
  next
    case False
    have "H i \<noteq> Some (Chunk_Seg k' B')" for B' using i(1,4) False by auto
    then have "(\<exists>B'. ?H x = Some (Chunk_Seg k' B') \<and> B' \<noteq> slab_slot_full pool k') \<longleftrightarrow> x \<in> set (L k')" for x
      unfolding d(6) [OF that] using False by (cases "x = i") simp_all
    then show ?thesis unfolding fun_upd_other [OF False] by (intro set_eqI) (simp only: mem_Collect_eq)
  qed
  ultimately show ?thesis
    unfolding slab_core_def ce using d(2) slots(1) counts by blast
qed

section \<open>The counters\<close>

lemma slab_full_finite: "B \<subseteq> slab_full pool sh \<Longrightarrow> finite B"
  by (rule finite_subset) (auto simp: slab_full_def)

lemma slab_counts_take:
  assumes ok: "slab_counts_ok pool H" and i: "i < sl_count pool" "H i = Some (Chunk_Seg k B)" and c: "finite B" "c \<notin> B"
    and p: "slab_consts pool' = slab_consts pool" "sl_stats pool' = sl_stats (slab_used k pool)"
  shows "slab_counts_ok pool' (H(i \<mapsto> Chunk_Seg k (insert c B)))"
proof -
  note ce = slab_consts_eq [OF p(1)]
  let ?N = "sl_count pool" let ?H = "H(i \<mapsto> Chunk_Seg k (insert c B))"
  have u: "slab_sum ?N (slab_count_used k') ?H = slab_sum ?N (slab_count_used k') H + (if k' = k then 1 else 0)" for k'
    using slab_sum_upd [OF i(1), of "slab_count_used k'" H "Some (Chunk_Seg k (insert c B))"] i(2) c by (auto split: if_splits)
  have t: "slab_sum ?N (slab_count_total n k') ?H = slab_sum ?N (slab_count_total n k') H" for n k'
    using slab_sum_upd [OF i(1), of "slab_count_total n k'" H "Some (Chunk_Seg k (insert c B))"] i(2) by auto
  show ?thesis using ok unfolding slab_counts_ok_def ce p(2) u t by (simp add: slab_used_def)
qed

lemma slab_counts_give:
  assumes ok: "slab_counts_ok pool H" and i: "i < sl_count pool" "H i = Some (Chunk_Seg k B)" and c: "finite B" "c \<in> B"
    and p: "slab_consts pool' = slab_consts pool" "sl_stats pool' = sl_stats (slab_unused k pool)"
  shows "slab_counts_ok pool' (H(i \<mapsto> Chunk_Seg k (B - {c})))"
proof -
  note ce = slab_consts_eq [OF p(1)]
  let ?N = "sl_count pool" let ?H = "H(i \<mapsto> Chunk_Seg k (B - {c}))"
  have "card B = Suc (card (B - {c}))" using c by (rule card.remove)
  then have u: "slab_sum ?N (slab_count_used k') H = slab_sum ?N (slab_count_used k') ?H + (if k' = k then 1 else 0)" for k'
    using slab_sum_upd [OF i(1), of "slab_count_used k'" H "Some (Chunk_Seg k (B - {c}))"] i(2) by (auto split: if_splits)
  have t: "slab_sum ?N (slab_count_total n k') ?H = slab_sum ?N (slab_count_total n k') H" for n k'
    using slab_sum_upd [OF i(1), of "slab_count_total n k'" H "Some (Chunk_Seg k (B - {c}))"] i(2) by auto
  show ?thesis using ok unfolding slab_counts_ok_def ce p(2) u t by (simp add: slab_unused_def)
qed

lemma slab_counts_new:
  assumes ok: "slab_counts_ok pool H" and i: "i < sl_count pool" "H i = Some (Used_Seg 1)"
    and p: "slab_consts pool' = slab_consts pool"
      "sl_stats pool' = sl_stats (slab_used k (slab_total k (of_nat (card (slab_slot_full pool k))) pool))"
  shows "slab_counts_ok pool' (H(i \<mapsto> Chunk_Seg k {c}))"
proof -
  note ce = slab_consts_eq [OF p(1)]
  let ?N = "sl_count pool" let ?H = "H(i \<mapsto> Chunk_Seg k {c})"
  have u: "slab_sum ?N (slab_count_used k') ?H = slab_sum ?N (slab_count_used k') H + (if k' = k then 1 else 0)" for k'
    using slab_sum_upd [OF i(1), of "slab_count_used k'" H "Some (Chunk_Seg k {c})"] i(2) by (auto split: if_splits)
  have t: "slab_sum ?N (slab_count_total n k') ?H = slab_sum ?N (slab_count_total n k') H + (if k' = k then n else 0)" for n k'
    using slab_sum_upd [OF i(1), of "slab_count_total n k'" H "Some (Chunk_Seg k {c})"] i(2) by (auto split: if_splits)
  show ?thesis using ok unfolding slab_counts_ok_def ce p(2) u t by (simp add: slab_used_def slab_total_def)
qed

lemma slab_counts_drop:
  \<comment> \<open>an empty page of chunks is given up\<close>
  assumes ok: "slab_counts_ok pool H" and i: "i < sl_count pool" "H i = Some (Chunk_Seg k {})"
    and p: "slab_consts pool' = slab_consts pool"
      "sl_stats pool' = sl_stats (slab_total k (- of_nat (card (slab_slot_full pool k))) pool)"
  shows "slab_counts_ok pool' (H(i := Some (Free_Seg 1)))"
proof -
  note ce = slab_consts_eq [OF p(1)]
  let ?N = "sl_count pool" let ?H = "H(i \<mapsto> Free_Seg 1)"
  have u: "slab_sum ?N (slab_count_used k') ?H = slab_sum ?N (slab_count_used k') H" for k'
    using slab_sum_upd [OF i(1), of "slab_count_used k'" H "Some (Free_Seg 1)"] i(2) by (auto split: if_splits)
  have t: "slab_sum ?N (slab_count_total n k') H = slab_sum ?N (slab_count_total n k') ?H + (if k' = k then n else 0)" for n k'
    using slab_sum_upd [OF i(1), of "slab_count_total n k'" H "Some (Free_Seg 1)"] i(2) by (auto split: if_splits)
  show ?thesis using ok unfolding slab_counts_ok_def ce p(2) u by (simp add: t slab_total_def)
qed

section \<open>Taking a chunk\<close>

lemma slab_consts_simps [simp]:
  "slab_consts (set_map i n w pool) = slab_consts pool" "slab_consts (set_slab r v pool) = slab_consts pool"
  "slab_consts (set_next r y pool) = slab_consts pool" "slab_consts (set_prev r z pool) = slab_consts pool"
  "slab_consts (stat_upd k g pool) = slab_consts pool" "slab_consts (slab_retire j T pool) = slab_consts pool"
  "slab_consts (slab_mark pool j sh c f) = slab_consts pool"
  by (simp_all add: slab_consts_def)

lemma slab_retire_desc:
  assumes "p_link pool (SPage i) = (P, T0)" "p_next pool (SPage i) = Q" "P \<noteq> SPage i" "Q \<noteq> SPage i"
  shows "p_next (slab_retire i T pool) = (p_next pool)(P := Q, SPage i := SNull)"
    "p_link (slab_retire i T pool) = (p_link pool)(Q := (P, T0), SPage i := (SNull, T))"
  using assms slab_unlink_desc [OF assms(1,3)] by (simp_all add: slab_retire_def Let_def)

lemma slab_core_page:
  assumes "slab_core pool H F L" "H i = Some (Chunk_Seg k B)"
  shows "i < sl_count pool" "k < slab_slots pool" "finite B" "B \<subseteq> slab_slot_full pool k"
    "sl_min_shift pool + k < sl_page_shift pool"
  using tilesD(2) [OF slab_pages_okD(1) [OF slab_coreD(1) [OF assms(1)]] assms(2)] slab_core_slot [OF assms]
    slab_chunk_okD(1,2) [OF slab_coreD(3) [OF assms]] slab_full_finite by auto

lemma slab_core_take:
  assumes core: "slab_core pool H F L" and i: "H i = Some (Chunk_Seg k B)" "B \<noteq> slab_slot_full pool k"
    and c: "c \<in> slab_slot_full pool k - B"
  defines "m \<equiv> slab_mark pool i (sl_min_shift pool + k) c set_bit"
  shows "\<exists>L'. slab_core (slab_used k (if insert c B = slab_slot_full pool k then slab_retire i (slab_slot_kind pool k) m else m))
    (H(i \<mapsto> Chunk_Seg k (insert c B))) F L'"
proof -
  note d = slab_coreD [OF core] note pg = slab_core_page [OF core i(1)]
  let ?f = "slab_slot_full pool k"
  have iL: "i \<in> set (L k)" using d(6) [OF pg(2)] i by blast
  have okm: "slab_chunk_ok m i k (insert c B)"
    unfolding m_def using c by (intro slab_mark_ok [OF d(2) d(3) [OF i(1)]]) auto
  show ?thesis
  proof (cases "insert c B = ?f")
    case False
    let ?p = "slab_used k m"
    have "slab_core ?p (H(i \<mapsto> Chunk_Seg k (insert c B))) F (L(k := L k))"
    proof (rule slab_core_chunk [OF core i(1)])
      show "slab_chunk_ok ?p i k (insert c B)" using okm by (rule slab_chunk_ok_frame) (simp_all add: slab_used_def)
      show "slab_slots_ok (p_next ?p) (p_link ?p) (slab_slot_kind pool) (slab_slots pool) (L(k := L k))"
        using d(5) by (simp add: slab_used_def m_def)
      show "slab_counts_ok ?p (H(i \<mapsto> Chunk_Seg k (insert c B)))"
        using c by (intro slab_counts_take [OF d(7) pg(1) i(1) pg(3)]) (auto simp: slab_used_def m_def)
    qed (use False iL pg(2) in \<open>auto simp: slab_used_def m_def\<close>)
    then show ?thesis using False by auto
  next
    case True
    obtain P Q where PQ: "p_link pool (SPage i) = (P, slab_slot_kind pool k)" "p_next pool (SPage i) = Q" "P \<noteq> SPage i" "Q \<noteq> SPage i"
      "P \<in> insert (SSlot k) (SPage ` (set (L k) - {i}))" "Q \<in> insert (SSlot k) (SPage ` (set (L k) - {i}))"
      and rm: "\<And>n' l'. (\<And>r. r \<noteq> SPage i \<Longrightarrow> n' r = ((p_next pool)(P := Q)) r) \<Longrightarrow>
         (\<And>r. r \<noteq> SPage i \<Longrightarrow> l' r = ((p_link pool)(Q := (P, slab_slot_kind pool k))) r) \<Longrightarrow>
         slab_slots_ok n' l' (slab_slot_kind pool) (slab_slots pool) (L(k := remove1 i (L k)))"
      by (rule slab_slots_remove [OF d(5) pg(2) iL]) blast
    let ?p = "slab_used k (slab_retire i (slab_slot_kind pool k) m)"
    have desc: "p_next ?p = (p_next pool)(P := Q, SPage i := SNull)"
      "p_link ?p = (p_link pool)(Q := (P, slab_slot_kind pool k), SPage i := (SNull, slab_slot_kind pool k))"
      using slab_retire_desc [of m i P _ Q "slab_slot_kind pool k"] PQ(1-4) by (simp_all add: slab_used_def m_def)
    have "slab_core ?p (H(i \<mapsto> Chunk_Seg k (insert c B))) F (L(k := remove1 i (L k)))"
    proof (rule slab_core_chunk [OF core i(1)])
      show "slab_chunk_ok ?p i k (insert c B)"
      proof (rule slab_chunk_ok_frame [OF okm])
        show "p_type ?p (SPage i) = p_type m (SPage i)"
          using slab_chunk_okD(3) [OF d(3) [OF i(1)]] unfolding desc by (simp add: m_def)
      qed (simp_all add: slab_used_def)
      show "slab_slots_ok (p_next ?p) (p_link ?p) (slab_slot_kind pool) (slab_slots pool) (L(k := remove1 i (L k)))"
        unfolding desc by (rule rm) simp_all
      show "slab_counts_ok ?p (H(i \<mapsto> Chunk_Seg k (insert c B)))"
        using c by (intro slab_counts_take [OF d(7) pg(1) i(1) pg(3)]) (auto simp: slab_used_def m_def)
      show "p_next ?p r = p_next pool r \<and> p_link ?p r = p_link pool r"
        if "r \<notin> insert (SSlot k) (SPage ` set (L k))" "r \<noteq> SPage i" for r
        using that PQ(5,6) by (auto simp: desc)
      show "set (remove1 i (L k)) = set (L k) - {i} \<union> (if insert c B = ?f then {} else {i})"
        using True slab_slotsD(2) [OF d(5) pg(2)] by simp
      show "p_next ?p (SPage i) = SNull" by (simp add: desc)
    qed (use pg(2) in \<open>auto simp: slab_used_def m_def\<close>)
    then show ?thesis using True by auto
  qed
qed

section \<open>Giving a chunk back\<close>

lemma slab_relink_desc:
  "p_next (slab_relink k i T pool) = (p_next pool)(SPage i := p_next pool (SSlot k), SSlot k := SPage i)"
  "p_link (slab_relink k i T pool) = (p_link pool)(SPage i := (SSlot k, T), p_next pool (SSlot k) := (SPage i, T))"
  "p_slab (slab_relink k i T pool) = p_slab pool" "sl_map (slab_relink k i T pool) = sl_map pool"
  "slab_consts (slab_relink k i T pool) = slab_consts pool" "sl_pfree (slab_relink k i T pool) = sl_pfree pool"
  "sl_stats (slab_relink k i T pool) = sl_stats pool"
  by (simp_all add: slab_relink_def Let_def)

lemma slab_core_listed:
  assumes core: "slab_core pool H F L" and i: "H i = Some (Chunk_Seg k B)"
  shows "p_next pool (SPage i) = SNull \<longleftrightarrow> B = slab_slot_full pool k"
proof
  note d = slab_coreD [OF core] note pg = slab_core_page [OF core i]
  assume n: "p_next pool (SPage i) = SNull"
  show "B = slab_slot_full pool k"
  proof (rule ccontr)
    assume "B \<noteq> slab_slot_full pool k"
    then have "i \<in> set (L k)" using d(6) [OF pg(2)] i by blast
    then obtain Q where "p_next pool (SPage i) = Q" "Q \<noteq> SNull" by (rule slab_slots_remove [OF d(5) pg(2)]) blast
    then show False using n by simp
  qed
qed (rule slab_coreD(4) [OF core i])

lemma slab_core_give:
  assumes core: "slab_core pool H F L" and i: "H i = Some (Chunk_Seg k B)" and c: "c \<in> B"
  defines "p0 \<equiv> (if B = slab_slot_full pool k then slab_relink k i (slab_slot_kind pool k) pool else pool)"
  defines "p' \<equiv> slab_unused k (slab_mark p0 i (sl_min_shift pool + k) c unset_bit)"
  shows "\<exists>L'. slab_core p' (H(i \<mapsto> Chunk_Seg k (B - {c}))) F L'"
proof -
  note d = slab_coreD [OF core] note pg = slab_core_page [OF core i]
  let ?f = "slab_slot_full pool k"
  have c0: "slab_consts p0 = slab_consts pool" "sl_pfree p0 = sl_pfree pool" "sl_stats p0 = sl_stats pool"
    "p_slab p0 = p_slab pool" "sl_map p0 = sl_map pool"
    by (simp_all add: p0_def slab_relink_desc)
  note ce = slab_consts_eq [OF c0(1)]
  have nf: "B - {c} \<noteq> ?f" using c pg(4) by auto
  have q: "p_next pool (SSlot k) \<noteq> SPage i" if "B = ?f"
  proof -
    have "p_next pool (SSlot k) \<in> insert (SSlot k) (SPage ` set (L k))"
      using slab_slotsD(1) [OF d(5) pg(2)] by (cases "L k") auto
    moreover have "i \<notin> set (L k)" using d(6) [OF pg(2)] i that by auto
    ultimately show ?thesis by auto
  qed
  have ok0: "slab_chunk_ok p0 i k B"
    using slab_chunk_okD(3) [OF d(3) [OF i]] ce c0 q
    by (intro slab_chunk_ok_frame [OF d(3) [OF i]]) (auto simp: p0_def slab_relink_desc)
  have okm: "slab_chunk_ok p' i k (B - {c})"
  proof -
    have "slab_chunk_ok (slab_mark p0 i (sl_min_shift p0 + k) c unset_bit) i k (B - {c})"
      using c pg(4) d(2) by (intro slab_mark_ok [OF _ ok0]) (auto simp: ce)
    then show ?thesis unfolding p'_def ce by (rule slab_chunk_ok_frame) (simp_all add: slab_unused_def)
  qed
  have lk: "p_next p' = p_next p0" "p_link p' = p_link p0" by (simp_all add: p'_def slab_unused_def)
  have counts: "slab_counts_ok p' (H(i \<mapsto> Chunk_Seg k (B - {c})))"
    by (rule slab_counts_give [OF d(7) pg(1) i pg(3) c]) (simp_all add: p'_def slab_unused_def c0)
  have "\<exists>xs. slab_core p' (H(i \<mapsto> Chunk_Seg k (B - {c}))) F (L(k := xs))"
  proof (cases "B = ?f")
    case True
    have inL: "i \<notin> set (L k')" if "k' < slab_slots pool" for k' using d(6) [OF that] i True by auto
    have "slab_core p' (H(i \<mapsto> Chunk_Seg k (B - {c}))) F (L(k := i # L k))"
    proof (rule slab_core_chunk [OF core i _ _ _ _ _ _ _ _ pg(2) okm _ _ _ counts])
      show "slab_slots_ok (p_next p') (p_link p') (slab_slot_kind pool) (slab_slots pool) (L(k := i # L k))"
        using q True by (intro slab_slots_insert [OF d(5) pg(2) inL]) (simp_all add: lk p0_def slab_relink_desc)
      show "p_next p' r = p_next pool r \<and> p_link p' r = p_link pool r"
        if "r \<notin> insert (SSlot k) (SPage ` set (L k))" "r \<noteq> SPage i" for r
      proof -
        have "p_next pool (SSlot k) \<in> insert (SSlot k) (SPage ` set (L k))"
          using slab_slotsD(1) [OF d(5) pg(2)] by (cases "L k") auto
        then show ?thesis using that True by (auto simp: lk p0_def slab_relink_desc)
      qed
    qed (use nf c0 inL [OF pg(2)] in \<open>auto simp: p'_def slab_unused_def\<close>)
    then show ?thesis by blast
  next
    case False
    then have p0: "p0 = pool" by (simp add: p0_def)
    have iL: "i \<in> set (L k)" using d(6) [OF pg(2)] i False by blast
    have "slab_core p' (H(i \<mapsto> Chunk_Seg k (B - {c}))) F (L(k := L k))"
      by (rule slab_core_chunk [OF core i _ _ _ _ _ _ _ _ pg(2) okm _ _ _ counts])
        (use nf iL d(5) in \<open>auto simp: lk p0 p'_def slab_unused_def\<close>)
    then show ?thesis by blast
  qed
  then show ?thesis by blast
qed

section \<open>Giving up an empty page\<close>

lemma slab_pfree_stat: "(stat_upd k g pool)\<lparr>sl_pfree := v\<rparr> = stat_upd k g (pool\<lparr>sl_pfree := v\<rparr>)"
  by (simp add: stat_upd_def)

lemma slab_zero_pages_stat: "slab_zero_pages i n (stat_upd k g pool) = stat_upd k g (slab_zero_pages i n pool)"
  by (induction n arbitrary: i pool) (simp_all add: stat_upd_commute)

lemma slab_unlink_stat: "slab_unlink r (stat_upd k g pool) = stat_upd k g (slab_unlink r pool)"
  by (simp add: slab_unlink_def Let_def stat_upd_commute)

lemma slab_clear_stat: "slab_clear r (stat_upd k g pool) = stat_upd k g (slab_clear r pool)"
  by (simp add: slab_clear_def stat_upd_commute)

lemma slab_before_stat: "slab_before (stat_upd k g pool) i = slab_before pool i"
  by (simp add: slab_before_def)

lemma slab_free_link_stat: "slab_free_link r (stat_upd k g pool) n = stat_upd k g (slab_free_link r pool n)"
  by (simp add: slab_free_link_def Let_def stat_upd_commute)

lemma slab_free_join_stat: "slab_free_join (stat_upd k g pool) i n = stat_upd k g (slab_free_join pool i n)"
proof -
  have 1: "slab_join_next i (stat_upd k g pool) n = (let (p, n) = slab_join_next i pool n in (stat_upd k g p, n))" for pool n
    by (simp add: slab_join_next_def Let_def stat_upd_commute slab_unlink_stat slab_clear_stat)
  have 2: "slab_join_prev i (stat_upd k g pool) n = (let (r, p, n) = slab_join_prev i pool n in (r, stat_upd k g p, n))" for pool n
    by (simp add: slab_join_prev_def Let_def stat_upd_commute slab_unlink_stat slab_clear_stat slab_before_stat)
  obtain p1 n1 where e1: "slab_join_next i pool n = (p1, n1)" by fastforce
  obtain r p2 n2 where e2: "slab_join_prev i p1 n1 = (r, p2, n2)" using prod_cases3 by blast
  show ?thesis by (simp add: slab_free_join_def 1 2 e1 e2 slab_free_link_stat)
qed

lemma slab_free_pages_stat: "ngx_slab_free_pages (stat_upd k g pool) i n = stat_upd k g (ngx_slab_free_pages pool i n)"
proof -
  have "sl_pfree (stat_upd k g pool) = sl_pfree pool" by simp
  then show ?thesis
    unfolding ngx_slab_free_pages_def Let_def slab_pfree_stat stat_upd_commute slab_zero_pages_stat
    by (auto simp: slab_unlink_stat slab_free_join_stat)
qed

end
