(* ===== verification/Ngx_Slab_Give.thy ===== *)
theory Ngx_Slab_Give
  imports Ngx_Slab_Pool
begin

text \<open>
  Freeing in a page of chunks: the checks of \<open>ngx_slab_free_locked\<close> on such a page, the chunk that
  comes back, and the page that is given up when it has no chunk in use.
\<close>

section \<open>Giving up an empty page\<close>

lemma slab_full_nonempty: "slab_sizes_ok pool \<Longrightarrow> k < slab_slots pool \<Longrightarrow> slab_slot_full pool k \<noteq> {}"
  using slab_chunk_counts(5) [of pool "sl_min_shift pool + k"] by (simp add: slab_full_def less_diff_conv add.commute)

lemma seg_desc_stat [simp]: "seg_desc (stat_upd k g pool) i s = seg_desc pool i s"
  by (cases s) (auto simp: slab_inner_def)

lemma slab_pages_ok_stat [simp]: "slab_pages_ok (stat_upd k g pool) H F = slab_pages_ok pool H F"
  by (simp add: slab_pages_ok_def)

lemma slab_core_drop:
  assumes core: "slab_core pool H F L" and i: "H i = Some (Chunk_Seg k {})"
  defines "p' \<equiv> slab_total k (- of_nat (card (slab_slot_full pool k))) (ngx_slab_free_pages pool i 1)"
  shows "\<exists>H' F' L'. slab_core p' H' F' L' \<and> slab_kept (H(i \<mapsto> Free_Seg 1)) H'"
proof -
  note d = slab_coreD [OF core] note pg = slab_core_page [OF core i]
  let ?f = "slab_slot_full pool k" let ?K = "slab_slot_kind pool k"
  have nf: "{} \<noteq> ?f" using slab_full_nonempty [OF d(2) pg(2)] by simp
  have iL: "i \<in> set (L k)" using d(6) [OF pg(2)] i nf by blast
  obtain P Q where PQ: "p_link pool (SPage i) = (P, ?K)" "p_next pool (SPage i) = Q" "P \<noteq> SPage i" "Q \<noteq> SPage i" "Q \<noteq> SNull"
    "P \<in> insert (SSlot k) (SPage ` (set (L k) - {i}))" "Q \<in> insert (SSlot k) (SPage ` (set (L k) - {i}))"
    and rm: "\<And>n' l'. (\<And>r. r \<noteq> SPage i \<Longrightarrow> n' r = ((p_next pool)(P := Q)) r) \<Longrightarrow>
       (\<And>r. r \<noteq> SPage i \<Longrightarrow> l' r = ((p_link pool)(Q := (P, ?K))) r) \<Longrightarrow>
       slab_slots_ok n' l' (slab_slot_kind pool) (slab_slots pool) (L(k := remove1 i (L k)))"
    by (rule slab_slots_remove [OF d(5) pg(2) iL]) blast
  let ?p1 = "slab_unlink (SPage i) pool" let ?p2 = "ngx_slab_free_pages pool i 1"
  note desc = slab_unlink_desc [OF PQ(1,3), unfolded PQ(2)]
  have r1: "slab_rest ?p1 = slab_rest pool" "sl_pfree ?p1 = sl_pfree pool" by (simp_all add: slab_unlink_def Let_def)
  note c1 = slab_consts_eq [OF slab_rest_consts [OF r1(1)]]
  have pages1: "slab_pages_ok ?p1 (H(i \<mapsto> Chunk_Seg k {})) F"
  proof (rule slab_pages_chunk [OF d(1) i _ _ c1(3) r1(2), of "{P, Q}"])
    show "p_type ?p1 (SPage x) \<noteq> SLAB_PAGE" if "x = i \<or> SPage x \<in> {P, Q}" for x
    proof -
      have "p_type pool (SPage y) \<noteq> SLAB_PAGE" if "y \<in> set (L k)" for y
        using that d(6) [OF pg(2)] slab_chunk_okD(3) [OF d(3)] by fastforce
      moreover have "x \<in> set (L k)" using that iL PQ(6,7) by auto
      ultimately show ?thesis by (simp add: desc)
    qed
    show "\<exists>k B. H x = Some (Chunk_Seg k B)" if "SPage x \<in> {P, Q}" for x
      using that PQ(6,7) d(6) [OF pg(2)] by auto
  qed (use PQ in \<open>auto simp: desc\<close>)
  moreover have "H(i \<mapsto> Chunk_Seg k {}) = H" using i by (simp add: fun_upd_idem)
  ultimately have "slab_pages_ok ?p1 H F" by simp
  from slab_free_chunk_page [OF this i] PQ(2,5) obtain H' F' where
    ok2: "slab_pages_ok ?p2 H' F'" and kept: "slab_kept (H(i \<mapsto> Free_Seg 1)) H'"
    and same: "slab_same (slab_free_refs (H(i \<mapsto> Free_Seg 1))) ?p1 ?p2"
    by auto
  let ?R = "slab_free_refs (H(i \<mapsto> Free_Seg 1))" let ?L = "L(k := remove1 i (L k))"
  have tiles: "slab_tiles (sl_count pool) (H(i \<mapsto> Free_Seg 1))"
    by (rule tiles_same [OF slab_pages_okD(1) [OF d(1)] i]) simp
  have rest: "slab_rest ?p2 = slab_rest pool" using same r1(1) by (simp add: slab_same_def)
  then have m: "sl_map ?p2 = sl_map pool" "sl_stats ?p2 = sl_stats pool" by (simp_all add: slab_rest_def)
  have cp: "slab_consts p' = slab_consts pool"
    using slab_rest_consts [OF rest] by (simp add: p'_def slab_total_def)
  note ce = slab_consts_eq [OF cp]
  have p': "p_slab p' = p_slab ?p2" "p_next p' = p_next ?p2" "p_link p' = p_link ?p2" "sl_map p' = sl_map pool"
    by (simp_all add: p'_def slab_total_def m)
  have eq: "p_slab p' r = p_slab pool r" "p_next p' r = ((p_next pool)(P := Q)) r" "p_link p' r = ((p_link pool)(Q := (P, ?K))) r"
    if "r \<notin> ?R" for r
    using same that unfolding slab_same_def desc p' by auto
  have old: "H' j = Some (Chunk_Seg k' B) \<longleftrightarrow> j \<noteq> i \<and> H j = Some (Chunk_Seg k' B)" for j k' B
    using kept unfolding slab_kept_def by auto
  have out: "SPage j \<notin> ?R" if "H' j = Some (Chunk_Seg k' B)" for j k' B
    using that old by (intro free_refs_chunk [OF tiles, of j k' B]) auto
  have inR: "SPage j \<notin> ?R" if "j \<in> set (?L k')" "k' < slab_slots pool" for j k'
  proof -
    have "j \<noteq> i" "j \<in> set (L k')"
      using that slab_slotsD(2,3) [OF d(5) pg(2)] iL by (auto split: if_splits)
    then show ?thesis using d(6) [OF that(2)] old out by blast
  qed
  have "slab_chunk_ok p' j k' B \<and> (B = slab_slot_full pool k' \<longrightarrow> p_next p' (SPage j) = SNull)"
    if j: "H' j = Some (Chunk_Seg k' B)" for j k' B
  proof -
    have h: "j \<noteq> i" "H j = Some (Chunk_Seg k' B)" using j old by auto
    have same_slot: "k' = k \<and> B \<noteq> slab_slot_full pool k" if "j \<in> set (L k)"
      using that d(6) [OF pg(2)] h(2) by auto
    have "p_type p' (SPage j) = p_type pool (SPage j)"
      unfolding eq(3) [OF out [OF j]]
      using same_slot PQ(7) slab_chunk_okD(3) [OF d(3) [OF h(2)]] by auto
    moreover have "p_next p' (SPage j) = SNull" if "B = slab_slot_full pool k'"
    proof -
      have "SPage j \<noteq> P" using same_slot PQ(6) that by auto
      then show ?thesis unfolding eq(2) [OF out [OF j]] using d(4) [OF h(2) that] by simp
    qed
    ultimately show ?thesis
      using slab_chunk_ok_frame [OF d(3) [OF h(2)], of p'] eq(1) [OF out [OF j]] p'(4) ce by simp
  qed
  moreover have "slab_slots_ok (p_next p') (p_link p') (slab_slot_kind pool) (slab_slots pool) ?L"
    by (rule slab_slots_frame [OF rm [of "(p_next pool)(P := Q)" "(p_link pool)(Q := (P, ?K))"]]) 
      (use eq(2,3) inR in \<open>simp_all del: fun_upd_apply\<close>)
  moreover have "set (?L k') = {j. \<exists>B. H' j = Some (Chunk_Seg k' B) \<and> B \<noteq> slab_slot_full pool k'}"
    if "k' < slab_slots pool" for k'
  proof -
    have "set (?L k') = set (L k') - {i}"
      using slab_slotsD(2,3) [OF d(5) pg(2)] iL that by auto
    then show ?thesis unfolding d(6) [OF that] old by blast
  qed
  moreover have "slab_counts_ok p' H'"
  proof -
    have "slab_counts_ok p' (H(i := Some (Free_Seg 1)))"
      by (rule slab_counts_drop [OF d(7) pg(1) i cp]) (simp add: p'_def slab_total_def m)
    moreover have "slab_same_chunks (H(i := Some (Free_Seg 1))) H'"
      using kept unfolding slab_same_chunks_def slab_kept_def by auto
    ultimately show ?thesis by (simp add: slab_counts_ok_def slab_same_chunks_counts)
  qed
  moreover have "slab_pages_ok p' H' F'"
    using ok2 by (simp add: p'_def slab_total_def)
  ultimately have "slab_core p' H' F' ?L" unfolding slab_core_def ce using d(2) by blast
  then show ?thesis using kept by blast
qed


section \<open>Freeing a chunk\<close>

definition slab_given :: "slab_pool \<Rightarrow> nat \<Rightarrow> nat \<Rightarrow> nat set \<Rightarrow> nat \<Rightarrow> slab_pool" where
  \<comment> \<open>the chunk \<open>c\<close> of the page \<open>i\<close>, where \<open>B\<close> are given out, comes back\<close>
  "slab_given pool i k B c =
     (let pool' = (if B = slab_slot_full pool k then slab_relink k i (slab_slot_kind pool k) pool else pool);
          pool' = slab_mark pool' i (sl_min_shift pool + k) c unset_bit;
          pool' = (if B - {c} = {} then slab_total k (- of_nat (card (slab_slot_full pool k))) (ngx_slab_free_pages pool' i 1)
                   else pool')
      in slab_unused k pool')"

lemma slab_stat_swap: "slab_unused k (slab_total k n pool) = slab_total k n (slab_unused k pool)"
  by (cases "sl_stats pool k") (simp add: slab_unused_def slab_total_def stat_upd_def)

lemma slab_given_empty:
  assumes "B - {c} = {}"
  shows "slab_given pool i k B c = slab_total k (- of_nat (card (slab_slot_full pool k)))
    (ngx_slab_free_pages (slab_unused k (slab_mark (if B = slab_slot_full pool k then slab_relink k i (slab_slot_kind pool k) pool else pool)
        i (sl_min_shift pool + k) c unset_bit)) i 1)"
  using assms by (simp add: slab_given_def Let_def slab_stat_swap) (simp add: slab_unused_def slab_free_pages_stat)

lemma slab_core_given:
  assumes core: "slab_core pool H F L" and i: "H i = Some (Chunk_Seg k B)" and c: "c \<in> B"
  shows "\<exists>H' F' L'. slab_core (slab_given pool i k B c) H' F' L' \<and>
    slab_kept (H(i \<mapsto> if B - {c} = {} then Free_Seg 1 else Chunk_Seg k (B - {c}))) H'"
proof -
  define q where "q = slab_unused k (slab_mark
      (if B = slab_slot_full pool k then slab_relink k i (slab_slot_kind pool k) pool else pool) i (sl_min_shift pool + k) c unset_bit)"
  obtain L' where q: "slab_core q (H(i \<mapsto> Chunk_Seg k (B - {c}))) F L'"
    using slab_core_give [OF core i c] unfolding q_def by blast
  show ?thesis
  proof (cases "B - {c} = {}")
    case False
    have "slab_given pool i k B c = q" by (simp only: slab_given_def Let_def q_def False if_False)
    with q False show ?thesis by (metis slab_kept_refl)
  next
    case True
    have "slab_consts q = slab_consts pool" by (simp add: q_def slab_unused_def slab_relink_desc)
    note ce = slab_consts_eq [OF this]
    from slab_core_drop [OF q [unfolded True], of i k] obtain H' F' L'' where
      "slab_core (slab_total k (- of_nat (card (slab_slot_full pool k))) (ngx_slab_free_pages q i 1)) H' F' L''"
      "slab_kept (H(i \<mapsto> Free_Seg 1)) H'"
      unfolding ce by auto
    then show ?thesis using slab_given_empty [OF True, of pool i k, folded q_def] True by metis
  qed
qed

lemma slab_mask16: "sh < 16 \<Longrightarrow> unat ((of_nat sh :: 64 word) AND SLAB_SHIFT_MASK) = sh"
proof -
  assume sh: "sh < 16"
  have "(of_nat sh :: 64 word) AND SLAB_SHIFT_MASK = of_nat sh"
  proof (rule bit_word_eqI)
    fix b assume "b < LENGTH(64)"
    have "bit sh b \<Longrightarrow> b < 4"
    proof -
      assume b: "bit sh b"
      have "take_bit 4 sh = sh" using sh by (simp add: take_bit_nat_eq_self)
      then show "b < 4" using b by (metis bit_take_bit_iff)
    qed
    then show "bit (of_nat sh AND SLAB_SHIFT_MASK :: 64 word) b = bit (of_nat sh :: 64 word) b"
      unfolding bit_and_iff slab_shift_mask_bit by (auto simp: bit_simps)
  qed
  then show ?thesis using sh by (simp add: unat_of_nat take_bit_nat_eq_self)
qed


definition slab_listed :: "slab_pool \<Rightarrow> nat \<Rightarrow> nat \<Rightarrow> nat set \<Rightarrow> slab_pool" where
  \<comment> \<open>a full page goes back to the list of its slot\<close>
  "slab_listed pool i k B = (if B = slab_slot_full pool k then slab_relink k i (slab_slot_kind pool k) pool else pool)"

lemma slab_listed_simps [simp]:
  "slab_consts (slab_listed pool i k B) = slab_consts pool" "sl_map (slab_listed pool i k B) = sl_map pool"
  "p_slab (slab_listed pool i k B) = p_slab pool" "sl_page_shift (slab_listed pool i k B) = sl_page_shift pool"
  "sl_min_shift (slab_listed pool i k B) = sl_min_shift pool"
  "sl_stats (slab_listed pool i k B) = sl_stats pool" "sl_pfree (slab_listed pool i k B) = sl_pfree pool"
proof -
  show c: "slab_consts (slab_listed pool i k B) = slab_consts pool" by (simp add: slab_listed_def slab_relink_desc)
  show "sl_page_shift (slab_listed pool i k B) = sl_page_shift pool" by (rule slab_consts_eq(2) [OF c])
  show "sl_min_shift (slab_listed pool i k B) = sl_min_shift pool" by (rule slab_consts_eq(1) [OF c])
qed (simp_all add: slab_listed_def slab_relink_desc)

lemma slab_given_ok:
  assumes core: "slab_core pool H F L" and i: "H i = Some (Chunk_Seg k B)" and c: "c \<in> B"
  shows "slab_chunk_ok (slab_mark (slab_listed pool i k B) i (sl_min_shift pool + k) c unset_bit) i k (B - {c})"
proof -
  obtain L' where "slab_core (slab_unused k (slab_mark (slab_listed pool i k B) i (sl_min_shift pool + k) c unset_bit))
      (H(i \<mapsto> Chunk_Seg k (B - {c}))) F L'"
    using slab_core_give [OF core i c] unfolding slab_listed_def by blast
  from slab_coreD(3) [OF this, of i k "B - {c}"] show ?thesis
    by (rule slab_chunk_ok_frame [OF _ ]) (simp_all add: slab_unused_def)
qed

lemma slab_given_eq:
  "slab_given pool i k B c = slab_unused k
     (if B - {c} = {} then slab_total k (- of_nat (card (slab_slot_full pool k)))
        (ngx_slab_free_pages (slab_mark (slab_listed pool i k B) i (sl_min_shift pool + k) c unset_bit) i 1)
      else slab_mark (slab_listed pool i k B) i (sl_min_shift pool + k) c unset_bit)"
  by (simp only: slab_given_def slab_listed_def Let_def)

lemma slab_chunk_slab:
  \<comment> \<open>the shift in the descriptor of a page\<close>
  assumes sizes: "slab_sizes_ok pool" and ok: "slab_chunk_ok pool i k B"
    and kind: "slab_slot_kind pool k \<noteq> SLAB_EXACT"
  shows "unat (p_slab pool (SPage i) AND SLAB_SHIFT_MASK) = sl_min_shift pool + k"
proof -
  let ?sh = "sl_min_shift pool + k" let ?ps = "sl_page_shift pool"
  note d = slab_chunk_okD [OF ok]
  have sh: "?sh < 16" using d(1) sizes by (simp add: slab_sizes_ok_def)
  have "p_slab pool (SPage i) AND SLAB_SHIFT_MASK = of_nat ?sh AND SLAB_SHIFT_MASK"
  proof (cases rule: slab_kind_cases [of ?ps ?sh])
    case 1
    then show ?thesis using d(5) by simp
  next
    case 3
    show ?thesis
    proof (rule bit_word_eqI)
      fix b assume b: "b < LENGTH(64)"
      then show "bit (p_slab pool (SPage i) AND SLAB_SHIFT_MASK) b = bit (of_nat ?sh AND SLAB_SHIFT_MASK :: 64 word) b"
        unfolding bit_and_iff slab_shift_mask_bit using d(6) [OF 3(1), of b] by (auto simp: bit_simps simp del: of_nat_add)
    qed
  qed (use kind in simp)
  then show ?thesis using slab_mask16 [OF sh] by simp
qed

lemma slab_free_exact_eq:
  assumes core: "slab_core pool H F L" and i: "H i = Some (Chunk_Seg k B)"
  defines "sh \<equiv> sl_min_shift pool + k" and "ps \<equiv> sl_page_shift pool"
  assumes kind: "slab_kind ps sh = SLAB_EXACT"
  shows "slab_free_exact pool p i =
    (if p mod 2 ^ sh \<noteq> 0 then (Some Wrong_chunk, pool)
     else let c = p mod 2 ^ ps div 2 ^ sh in
       if c \<in> B then (None, slab_given pool i k B c) else (Some Chunk_already_free, pool))"
proof -
  note d = slab_coreD [OF core] note pg = slab_core_page [OF core i]
  note ch = slab_chunk_okD [OF d(3) [OF i], folded sh_def ps_def]
  have sz: "6 \<le> ps" "sh = ps - 6" using d(2) kind by (auto simp: slab_sizes_ok_def ps_def slab_kind_def split: if_splits)
  note e = slab_exact_sizes [OF sz(1), folded sz(2)]
  have le: "sl_min_shift pool \<le> sh" by (simp add: sh_def)
  note cnt = slab_chunk_counts [OF d(2) le ch(1) [unfolded ps_def], folded ps_def]
  have tot: "slab_chunks ps sh = 64" "slab_reserved ps sh = 0" using cnt(2,4) kind by auto
  have full: "slab_slot_full pool k = {0..<64}" using tot by (simp add: slab_full_def ps_def sh_def)
  have bit: "bit (p_slab pool (SPage i)) x \<longleftrightarrow> x \<in> B" if "x < 64" for x
    using ch(4) [of x] that kind by (simp add: tot slab_chunk_bit_def ps_def [symmetric])
  have clt: "p mod 2 ^ ps div 2 ^ sh < 64"
  proof -
    have "(2 :: nat) ^ ps = 64 * 2 ^ sh" using sz power_add [of "2 :: nat" 6 sh] by simp
    then show ?thesis by (metis less_mult_imp_div_less mod_less_divisor zero_less_numeral zero_less_power)
  qed
  define c where "c = p mod 2 ^ ps div 2 ^ sh"
  let ?m = "slab_mark (slab_listed pool i k B) i sh c unset_bit"
  have busy: "p_slab pool (SPage i) = SLAB_BUSY \<longleftrightarrow> B = slab_slot_full pool k"
    unfolding slab_busy_iff using bit pg(4) unfolding full by auto
  have given: "p_slab ?m (SPage i) \<noteq> 0 \<longleftrightarrow> B - {c} \<noteq> {}" if "c \<in> B"
  proof -
    note okm = slab_given_ok [OF core i that, folded sh_def]
    have b': "bit (p_slab ?m (SPage i)) x \<longleftrightarrow> x \<in> B - {c}" if "x < 64" for x
      using slab_chunk_okD(4) [OF okm, of x] that kind
      by (simp add: sh_def [symmetric] ps_def [symmetric] tot slab_chunk_bit_def)
    have "p_slab ?m (SPage i) = 0 \<longleftrightarrow> (\<forall>x < 64. \<not> bit (p_slab ?m (SPage i)) x)" by (auto simp: bit_eq_iff)
    also have "\<dots> \<longleftrightarrow> B - {c} = {}" using b' pg(4) unfolding full by auto
    finally show ?thesis by blast
  qed
  have m: "?m = set_slab (SPage i) (unset_bit c (p_slab (slab_listed pool i k B) (SPage i))) (slab_listed pool i k B)"
    using kind by (simp add: slab_mark_def ps_def)
  have slot: "sh - sl_min_shift pool = k" by (simp add: sh_def)
  have lst: "(if B = slab_slot_full pool k then slab_relink k i SLAB_EXACT pool else pool) = slab_listed pool i k B"
    using kind by (simp add: slab_listed_def sh_def ps_def)
  have card: "(- (8 * 8) :: 64 word) = - of_nat (card (slab_slot_full pool k))" unfolding full by simp
  have "slab_free_exact pool p i =
    (if p mod 2 ^ sh \<noteq> 0 then (Some Wrong_chunk, pool)
     else if c \<in> B then (None, slab_given pool i k B c) else (Some Chunk_already_free, pool))"
  proof (cases "c \<in> B \<and> p mod 2 ^ sh = 0")
    case False
    then show ?thesis using bit [OF clt] by (auto simp: slab_free_exact_def ps_def [symmetric] e sz(2) [symmetric] c_def)
  next
    case True
    then show ?thesis
      unfolding slab_free_exact_def ps_def [symmetric] e sz(2) [symmetric] c_def [symmetric] Let_def busy lst slot m [symmetric] card
      using bit [OF clt, folded c_def] given by (simp add: slab_given_eq sh_def [symmetric])
  qed
  then show ?thesis by (simp add: c_def Let_def)
qed

lemma slab_free_big_eq:
  assumes core: "slab_core pool H F L" and i: "H i = Some (Chunk_Seg k B)"
  defines "sh \<equiv> sl_min_shift pool + k" and "ps \<equiv> sl_page_shift pool"
  assumes kind: "slab_kind ps sh = SLAB_BIG"
  shows "slab_free_big pool p i =
    (if p mod 2 ^ sh \<noteq> 0 then (Some Wrong_chunk, pool)
     else let c = p mod 2 ^ ps div 2 ^ sh in
       if c \<in> B then (None, slab_given pool i k B c) else (Some Chunk_already_free, pool))"
proof -
  note d = slab_coreD [OF core] note pg = slab_core_page [OF core i]
  note ch = slab_chunk_okD [OF d(3) [OF i], folded sh_def ps_def]
  have le: "sl_min_shift pool \<le> sh" by (simp add: sh_def)
  note cnt = slab_chunk_counts [OF d(2) le ch(1) [unfolded ps_def], folded ps_def]
  let ?n = "slab_chunks ps sh"
  have tot: "?n \<le> 32" "slab_reserved ps sh = 0" using cnt(3,4) kind by auto
  have full: "slab_slot_full pool k = {0..<?n}" using tot by (simp add: slab_full_def ps_def sh_def)
  have bit: "bit (p_slab pool (SPage i)) (x + 32) \<longleftrightarrow> x \<in> B" if "x < ?n" for x
    using ch(4) [of x] that kind by (simp add: tot slab_chunk_bit_def ps_def [symmetric] add.commute)
  have clt: "p mod 2 ^ ps div 2 ^ sh < ?n"
  proof -
    have "(2 :: nat) ^ ps = ?n * 2 ^ sh" using ch(1) by (simp add: slab_chunks_power power_add [symmetric])
    then show ?thesis by (metis less_mult_imp_div_less mod_less_divisor zero_less_numeral zero_less_power)
  qed
  define c where "c = p mod 2 ^ ps div 2 ^ sh"
  let ?m = "slab_mark (slab_listed pool i k B) i sh c unset_bit"
  have shift: "unat (p_slab pool (SPage i) AND SLAB_SHIFT_MASK) = sh"
    unfolding sh_def using kind by (intro slab_chunk_slab [OF d(2) d(3) [OF i]]) (simp add: sh_def ps_def)
  have given: "p_slab ?m (SPage i) AND SLAB_MAP_MASK \<noteq> 0 \<longleftrightarrow> B - {c} \<noteq> {}" if "c \<in> B"
  proof -
    note okm = slab_given_ok [OF core i that, folded sh_def]
    have b': "bit (p_slab ?m (SPage i)) x \<longleftrightarrow> x < 4 \<and> bit sh x \<or> 32 \<le> x \<and> x - 32 \<in> B - {c}" if "x < 64" for x
      using slab_chunk_okD(6) [OF okm, of x] that kind by (simp add: sh_def [symmetric] ps_def [symmetric])
    have "p_slab ?m (SPage i) AND SLAB_MAP_MASK = 0 \<longleftrightarrow> (\<forall>x < 64. \<not> bit (p_slab ?m (SPage i) AND SLAB_MAP_MASK) x)"
      by (auto simp: bit_eq_iff)
    also have "\<dots> \<longleftrightarrow> (\<forall>x < 64. 32 \<le> x \<longrightarrow> x - 32 \<notin> B - {c})"
      unfolding bit_and_iff slab_map_mask_bit using b' by auto
    also have "\<dots> \<longleftrightarrow> B - {c} = {}"
    proof
      assume all: "\<forall>x < 64. 32 \<le> x \<longrightarrow> x - 32 \<notin> B - {c}"
      have "y \<notin> B - {c}" for y
      proof
        assume y: "y \<in> B - {c}"
        then have "y < 32" using pg(4) tot(1) unfolding full by auto
        then show False using all [rule_format, of "y + 32"] y by simp
      qed
      then show "B - {c} = {}" by blast
    qed blast
    finally show ?thesis by blast
  qed
  have m: "?m = set_slab (SPage i) (unset_bit (c + 32) (p_slab (slab_listed pool i k B) (SPage i))) (slab_listed pool i k B)"
    using kind by (simp add: slab_mark_def ps_def add.commute)
  have slot: "sh - sl_min_shift pool = k" by (simp add: sh_def)
  have null: "p_next pool (SPage i) = SNull \<longleftrightarrow> B = slab_slot_full pool k" by (rule slab_core_listed [OF core i])
  have lst: "(if B = slab_slot_full pool k then slab_relink k i SLAB_BIG pool else pool) = slab_listed pool i k B"
    using kind by (simp add: slab_listed_def sh_def ps_def)
  have card: "2 ^ ps div 2 ^ sh = card (slab_slot_full pool k)" unfolding full by (simp add: slab_chunks_def)
  have "slab_free_big pool p i =
    (if p mod 2 ^ sh \<noteq> 0 then (Some Wrong_chunk, pool)
     else if c \<in> B then (None, slab_given pool i k B c) else (Some Chunk_already_free, pool))"
  proof (cases "c \<in> B \<and> p mod 2 ^ sh = 0")
    case False
    then show ?thesis using bit [OF clt] by (auto simp: slab_free_big_def shift ps_def [symmetric] c_def)
  next
    case True
    then show ?thesis
      unfolding slab_free_big_def ps_def [symmetric] Let_def shift c_def [symmetric] null lst slot m [symmetric] card
      using bit [OF clt, folded c_def] given by (simp add: slab_given_eq sh_def [symmetric])
  qed
  then show ?thesis by (simp add: c_def Let_def)
qed

lemma slab_free_small_eq:
  assumes core: "slab_core pool H F L" and i: "H i = Some (Chunk_Seg k B)"
  defines "sh \<equiv> sl_min_shift pool + k" and "ps \<equiv> sl_page_shift pool"
  assumes kind: "slab_kind ps sh = SLAB_SMALL" and c: "slab_reserved ps sh \<le> p mod 2 ^ ps div 2 ^ sh \<or> p mod 2 ^ sh \<noteq> 0"
  shows "slab_free_small pool p i =
    (if p mod 2 ^ sh \<noteq> 0 then (Some Wrong_chunk, pool)
     else let c = p mod 2 ^ ps div 2 ^ sh in
       if c \<in> B then (None, slab_given pool i k B c) else (Some Chunk_already_free, pool))"
proof -
  note d = slab_coreD [OF core] note pg = slab_core_page [OF core i]
  note ch = slab_chunk_okD [OF d(3) [OF i], folded sh_def ps_def]
  have le: "sl_min_shift pool \<le> sh" by (simp add: sh_def)
  note cnt = slab_chunk_counts [OF d(2) le ch(1) [unfolded ps_def], folded ps_def]
  let ?n = "slab_reserved ps sh"
  define W where "W = (2 :: nat) ^ (ps - sh - 6)"
  have tot: "slab_chunks ps sh = 64 * W" using cnt(1) kind by (simp add: W_def)
  have words: "2 ^ ps div 2 ^ sh div (8 * 8) = W" using tot by (simp add: slab_chunks_def)
  have res: "slab_map_chunks ps sh = ?n" using kind by (simp add: slab_reserved_def slab_kind_def split: if_splits)
  have bit: "bit (sl_map pool i (x div 64)) (x mod 64) \<longleftrightarrow> x < ?n \<or> x \<in> B" if "x < 64 * W" for x
    using ch(4) [of x] that kind by (simp add: tot slab_chunk_bit_def ps_def [symmetric])
  have clt: "p mod 2 ^ ps div 2 ^ sh < 64 * W"
  proof -
    have "(2 :: nat) ^ ps = slab_chunks ps sh * 2 ^ sh" using ch(1) by (simp add: slab_chunks_power power_add [symmetric])
    then show ?thesis unfolding tot by (metis less_mult_imp_div_less mod_less_divisor zero_less_numeral zero_less_power)
  qed
  define c where "c = p mod 2 ^ ps div 2 ^ sh"
  let ?m = "slab_mark (slab_listed pool i k B) i sh c unset_bit"
  have shift: "unat (p_slab pool (SPage i) AND SLAB_SHIFT_MASK) = sh"
    unfolding sh_def using kind by (intro slab_chunk_slab [OF d(2) d(3) [OF i]]) (simp add: sh_def ps_def)
  have given: "sl_map ?m i (?n div (8 * 8)) AND NOT (push_bit (?n mod (8 * 8)) 1 - 1) = 0 \<and>
      slab_all (sl_map ?m i) 0 (Suc (?n div (8 * 8))) W \<longleftrightarrow> B - {c} = {}" if cB: "c \<in> B"
  proof -
    note okm = slab_given_ok [OF core i cB, folded sh_def]
    let ?w = "sl_map ?m i" let ?q = "?n div 64"
    have b': "bit (?w j) x \<longleftrightarrow> 64 * j + x < ?n \<or> 64 * j + x \<in> B - {c}" if "j < W" "x < 64" for j x
      using slab_chunk_okD(4) [OF okm, of "64 * j + x"] that kind
      by (simp add: sh_def [symmetric] ps_def [symmetric] tot slab_chunk_bit_def)
    have qW: "?q < W" using cnt(5) unfolding tot by (intro less_mult_imp_div_less) simp
    have "?w ?q AND NOT (push_bit (?n mod 64) 1 - 1) = 0 \<longleftrightarrow> (\<forall>x < 64. \<not> (bit (?w ?q) x \<and> \<not> x < ?n mod 64))"
      using slab_low_mask_bit [of "?n mod 64"] by (auto simp: bit_eq_iff bit_and_iff bit_not_iff)
    also have "\<dots> \<longleftrightarrow> (\<forall>x < 64. 64 * ?q + x \<notin> B - {c})"
    proof -
      have "bit (?w ?q) x \<and> \<not> x < ?n mod 64 \<longleftrightarrow> 64 * ?q + x \<in> B - {c}" if "x < 64" for x
      proof -
        have "64 * ?q + ?n mod 64 = ?n" by simp
        then have "x < ?n mod 64 \<longleftrightarrow> 64 * ?q + x < ?n" by linarith
        moreover have "64 * ?q + x \<in> B - {c} \<Longrightarrow> \<not> 64 * ?q + x < ?n"
          using pg(4) by (auto simp: slab_full_def sh_def ps_def)
        ultimately show ?thesis using b' [OF qW that] by blast
      qed
      then show ?thesis by blast
    qed
    finally have 1: "?w ?q AND NOT (push_bit (?n mod 64) 1 - 1) = 0 \<longleftrightarrow> (\<forall>x < 64. 64 * ?q + x \<notin> B - {c})" .
    have "?w j = 0 \<longleftrightarrow> (\<forall>x < 64. 64 * j + x \<notin> B - {c})" if j: "?q < j" "j < W" for j
    proof -
      have "?w j = 0 \<longleftrightarrow> (\<forall>x < 64. \<not> bit (?w j) x)" by (auto simp: bit_eq_iff)
      also have "\<dots> \<longleftrightarrow> (\<forall>x < 64. 64 * j + x \<notin> B - {c})" using b' [OF j(2)] j(1) by auto
      finally show ?thesis .
    qed
    then have 2: "slab_all ?w 0 (Suc ?q) W \<longleftrightarrow> (\<forall>j. ?q < j \<and> j < W \<longrightarrow> (\<forall>x < 64. 64 * j + x \<notin> B - {c}))"
      unfolding slab_all_iff by (auto simp: Suc_le_eq)
    have "B - {c} = {}" if "\<forall>j. ?q \<le> j \<and> j < W \<longrightarrow> (\<forall>x < 64. 64 * j + x \<notin> B - {c})"
    proof -
      have "y \<notin> B - {c}" for y
      proof
        assume y: "y \<in> B - {c}"
        then have "?n \<le> y" "y < 64 * W" using pg(4) tot by (auto simp: slab_full_def sh_def ps_def)
        then have "?q \<le> y div 64" "y div 64 < W" by (auto intro: div_le_mono)
        then have "64 * (y div 64) + y mod 64 \<notin> B - {c}"
          using that [rule_format, of "y div 64" "y mod 64"] by (simp del: mult_div_mod_eq)
        then show False using y by simp
      qed
      then show ?thesis by blast
    qed
    moreover have "(\<forall>x < 64. 64 * ?q + x \<notin> B - {c}) \<and> (\<forall>j. ?q < j \<and> j < W \<longrightarrow> (\<forall>x < 64. 64 * j + x \<notin> B - {c})) \<longleftrightarrow>
      (\<forall>j. ?q \<le> j \<and> j < W \<longrightarrow> (\<forall>x < 64. 64 * j + x \<notin> B - {c}))"
      using qW by (metis le_eq_less_or_eq)
    ultimately show ?thesis using 1 2 by auto
  qed
  have m: "?m = set_map i (c div (8 * 8)) (unset_bit (c mod (8 * 8)) (sl_map (slab_listed pool i k B) i (c div (8 * 8)))) (slab_listed pool i k B)"
    using kind by (simp add: slab_mark_def ps_def)
  have slot: "sh - sl_min_shift pool = k" by (simp add: sh_def)
  have null: "p_next pool (SPage i) = SNull \<longleftrightarrow> B = slab_slot_full pool k" by (rule slab_core_listed [OF core i])
  have lst: "(if B = slab_slot_full pool k then slab_relink k i SLAB_SMALL pool else pool) = slab_listed pool i k B"
    using kind by (simp add: slab_listed_def sh_def ps_def)
  have card: "2 ^ ps div 2 ^ sh - ?n = card (slab_slot_full pool k)"
    by (simp add: slab_full_def slab_chunks_def sh_def ps_def)
  have mp: "sl_page_shift ?m = ps" by (simp add: ps_def)
  have "slab_free_small pool p i =
    (if p mod 2 ^ sh \<noteq> 0 then (Some Wrong_chunk, pool)
     else if c \<in> B then (None, slab_given pool i k B c) else (Some Chunk_already_free, pool))"
  proof (cases "c \<in> B \<and> p mod 2 ^ sh = 0")
    case False
    have nb: "c \<notin> B \<and> \<not> bit (sl_map pool i (c div (8 * 8))) (c mod (8 * 8))" if "p mod 2 ^ sh = 0"
      using False bit [OF clt, folded c_def] c [folded c_def] that by simp
    show ?thesis
      unfolding slab_free_small_def ps_def [symmetric] Let_def shift c_def [symmetric]
      using nb by (cases "p mod 2 ^ sh = 0") (simp_all only: simp_thms if_True if_False)
  next
    case True
    then have t: "c \<in> B" "p mod 2 ^ sh = 0" "bit (sl_map pool i (c div (8 * 8))) (c mod (8 * 8))"
      using bit [OF clt, folded c_def] by simp_all
    have two: "(if A \<noteq> (0 :: 64 word) then x else if \<not> C then x else y) = (if A = 0 \<and> C then y else x)" for A C and x y :: "slab_error option \<times> slab_pool"
      by simp
    have full: "slab_slot_full pool k = slab_full pool sh" by (simp add: sh_def)
    show ?thesis
      unfolding slab_free_small_def ps_def [symmetric] Let_def shift c_def [symmetric] null lst slot m [symmetric] mp res words
        card [unfolded full]
        two given [OF t(1)]
      unfolding slab_given_eq [of pool i k, folded sh_def]
      using t by (cases "B - {c} = {}") (simp_all only: simp_thms if_True if_False)
  qed
  then show ?thesis by (simp add: c_def Let_def)
qed

end
