(* ===== verification/Ngx_Slab_New.thy ===== *)
theory Ngx_Slab_New
  imports Ngx_Slab_Pool
begin

text \<open>
  A page taken for a slot without free chunks: its bitmap, the list of the slot, and the first
  chunk, which is given out at once.
\<close>

section \<open>A new page of chunks\<close>

lemma slab_fill_desc:
  "sl_map (slab_fill i a k w pool) = (sl_map pool)(i := \<lambda>j. if a \<le> j \<and> j < a + k then w else sl_map pool i j)"
  "p_slab (slab_fill i a k w pool) = p_slab pool" "p_next (slab_fill i a k w pool) = p_next pool"
  "p_link (slab_fill i a k w pool) = p_link pool" "slab_consts (slab_fill i a k w pool) = slab_consts pool"
  "sl_pfree (slab_fill i a k w pool) = sl_pfree pool" "sl_stats (slab_fill i a k w pool) = sl_stats pool"
proof (induction k arbitrary: a pool)
  case (Suc k)
  {
    case 1
    show ?case using Suc.IH(1) [of "Suc a" "set_map i a w pool"] by (auto simp: fun_eq_iff)
  }
qed (auto simp: fun_eq_iff)

lemma slab_link_new_desc:
  "p_next (slab_link_new k i T pool) = (p_next pool)(SPage i := SSlot k, SSlot k := SPage i)"
  "p_link (slab_link_new k i T pool) = (p_link pool)(SPage i := (SSlot k, T))"
  "p_slab (slab_link_new k i T pool) = p_slab pool" "sl_map (slab_link_new k i T pool) = sl_map pool"
  "slab_consts (slab_link_new k i T pool) = slab_consts pool" "sl_pfree (slab_link_new k i T pool) = sl_pfree pool"
  "sl_stats (slab_link_new k i T pool) = sl_stats pool"
  by (simp_all add: slab_link_new_def Let_def)

definition slab_fresh :: "nat \<Rightarrow> nat \<Rightarrow> nat \<Rightarrow> slab_pool \<Rightarrow> slab_pool" where
  \<comment> \<open>the page \<open>i\<close> with its bitmap \<open>pool\<close> joins its slot\<close>
  "slab_fresh k i n pool = slab_used k (slab_total k (of_nat n) (slab_link_new k i (slab_slot_kind pool k) pool))"

lemma slab_core_fresh:
  assumes core: "slab_core pool H F L" and i: "H i = Some (Used_Seg 1)" and k: "k < slab_slots pool" "L k = []"
    and q: "slab_consts q = slab_consts pool" "sl_pfree q = sl_pfree pool" "sl_stats q = sl_stats pool"
      "\<And>r. r \<noteq> SPage i \<Longrightarrow> p_slab q r = p_slab pool r" "\<And>j. j \<noteq> i \<Longrightarrow> sl_map q j = sl_map pool j"
      "p_next q = p_next pool" "p_link q = p_link pool"
  defines "p' \<equiv> slab_fresh k i (card (slab_slot_full pool k)) q"
  assumes ok: "slab_chunk_ok p' i k {c}"
  shows "slab_core p' (H(i \<mapsto> Chunk_Seg k {c})) F (L(k := [i]))"
proof -
  note d = slab_coreD [OF core] note cq = slab_consts_eq [OF q(1)]
  have desc: "p_next p' = (p_next pool)(SPage i := SSlot k, SSlot k := SPage i)"
    "p_link p' = (p_link pool)(SPage i := (SSlot k, slab_slot_kind pool k))" "p_slab p' = p_slab q" "sl_map p' = sl_map q"
    "slab_consts p' = slab_consts pool" "sl_pfree p' = sl_pfree pool"
    "sl_stats p' = sl_stats (slab_used k (slab_total k (of_nat (card (slab_slot_full pool k))) pool))"
    using q(1-3,6,7) cq(1,2) by (simp_all add: p'_def slab_fresh_def slab_link_new_desc slab_used_def slab_total_def)
  have i1: "i < sl_count pool" using tilesD(2) [OF slab_pages_okD(1) [OF d(1)] i] by simp
  have inL: "i \<notin> set (L k')" if "k' < slab_slots pool" for k' using d(6) [OF that] i by auto
  have nf: "{c} \<noteq> slab_slot_full pool k"
  proof
    assume f: "{c} = slab_slot_full pool k"
    have "slab_reserved (sl_page_shift pool) (sl_min_shift pool + k) + 1 < slab_chunks (sl_page_shift pool) (sl_min_shift pool + k)"
      using slab_chunk_counts(5) [OF d(2), of "sl_min_shift pool + k"] k(1) by (simp add: less_diff_conv add.commute)
    then have "slab_reserved (sl_page_shift pool) (sl_min_shift pool + k) \<in> {c}" "slab_reserved (sl_page_shift pool) (sl_min_shift pool + k) + 1 \<in> {c}"
      unfolding f by (auto simp: slab_full_def)
    then show False by simp
  qed
  have empty: "p_next pool (SSlot k) = SSlot k" using slab_slotsD(1) [OF d(5) k(1)] k(2) by simp
  show ?thesis
  proof (rule slab_core_chunk [OF core i])
    show "slab_slots_ok (p_next p') (p_link p') (slab_slot_kind pool) (slab_slots pool) (L(k := [i]))"
      using slab_slots_insert [OF d(5) k(1) inL, of "p_next p'" "p_link p'"] k(2) empty by (simp add: desc)
    show "slab_counts_ok p' (H(i \<mapsto> Chunk_Seg k {c}))"
      by (rule slab_counts_new [OF d(7) i1 i desc(5,7)])
  qed (use k q(4,5) ok nf in \<open>auto simp: desc\<close>)
qed

lemma slab_chunk_ok_fresh:
  assumes k: "k < slab_slots pool" and sizes: "slab_sizes_ok pool" and q: "slab_consts q = slab_consts pool"
  defines "sh \<equiv> sl_min_shift pool + k" and "ps \<equiv> sl_page_shift pool"
  assumes bits: "\<And>c. c < slab_chunks ps sh \<Longrightarrow> slab_chunk_bit q i sh c \<longleftrightarrow> c \<le> slab_reserved ps sh"
    and small: "slab_kind ps sh = SLAB_SMALL \<Longrightarrow> p_slab q (SPage i) = of_nat sh"
    and big: "\<And>b. slab_kind ps sh = SLAB_BIG \<Longrightarrow> b < 64 \<Longrightarrow> bit (p_slab q (SPage i)) b \<longleftrightarrow> b < 4 \<and> bit sh b \<or> b = 32"
  shows "slab_chunk_ok (slab_fresh k i n q) i k {slab_reserved ps sh}"
proof -
  note cq = slab_consts_eq [OF q]
  have lt: "sh < ps" using k by (simp add: sh_def ps_def)
  have le: "sl_min_shift pool \<le> sh" by (simp add: sh_def)
  note cnt = slab_chunk_counts [OF sizes le lt [unfolded ps_def], folded ps_def]
  have c: "slab_consts (slab_fresh k i n q) = slab_consts pool"
    using q by (simp add: slab_fresh_def slab_used_def slab_total_def slab_link_new_desc)
  note cf = slab_consts_eq [OF c]
  have f: "p_slab (slab_fresh k i n q) = p_slab q" "sl_map (slab_fresh k i n q) = sl_map q"
    "p_link (slab_fresh k i n q) (SPage i) = (SSlot k, slab_kind ps sh)"
    by (simp_all add: slab_fresh_def slab_used_def slab_total_def slab_link_new_desc sh_def ps_def cq)
  have b: "slab_chunk_bit (slab_fresh k i n q) i sh x = slab_chunk_bit q i sh x" for x
    by (simp add: slab_chunk_bit_def f cf cq cong: slab_type.case_cong)
  have full: "{slab_reserved ps sh} \<subseteq> slab_full pool sh" using cnt(5) by (simp add: slab_full_def ps_def)
  have big': "b < 4 \<and> bit sh b \<or> b = 32 \<longleftrightarrow> b < 4 \<and> bit sh b \<or> 32 \<le> b \<and> b - 32 \<in> {slab_reserved ps sh}"
    if "slab_kind ps sh = SLAB_BIG" for b
    using cnt(4) that by auto
  show ?thesis
    unfolding slab_chunk_ok_def Let_def cf sh_def [symmetric] ps_def [symmetric] b f
    using lt full bits small big big' by (auto simp: le_eq_less_or_eq)
qed

definition slab_new :: "slab_pool \<Rightarrow> nat \<Rightarrow> nat \<Rightarrow> nat \<Rightarrow> nat \<times> slab_pool" where
  \<comment> \<open>how \<open>slab_new_page\<close> cuts the page \<open>i\<close>\<close>
  "slab_new pool k shift i =
     (if shift < ngx_slab_exact_shift (sl_page_shift pool) then slab_new_small pool k shift i
      else if shift = ngx_slab_exact_shift (sl_page_shift pool) then slab_new_exact pool k shift i
      else slab_new_big pool k shift i)"

lemma slab_consts_more [simp]:
  "slab_consts (slab_fill i a k w pool) = slab_consts pool" "slab_consts (slab_link_new k i T pool) = slab_consts pool"
  by (simp_all add: slab_fill_desc slab_link_new_desc)

lemma slab_addr_consts: "slab_consts q = slab_consts pool \<Longrightarrow> ngx_slab_page_addr q i = ngx_slab_page_addr pool i"
  by (drule slab_consts_eq(8)) simp

lemma slab_core_new:
  assumes core: "slab_core pool H F L" and i: "H i = Some (Used_Seg 1)" and k: "k < slab_slots pool" "L k = []"
  defines "sh \<equiv> sl_min_shift pool + k" and "ps \<equiv> sl_page_shift pool"
  shows "fst (slab_new pool k sh i) = ngx_slab_page_addr pool i + slab_reserved ps sh * 2 ^ sh \<and>
    slab_core (snd (slab_new pool k sh i)) (H(i \<mapsto> Chunk_Seg k {slab_reserved ps sh})) F (L(k := [i]))"
proof -
  note d = slab_coreD [OF core]
  have lt: "sh < ps" using k(1) by (simp add: sh_def ps_def)
  have le: "sl_min_shift pool \<le> sh" by (simp add: sh_def)
  note cnt = slab_chunk_counts [OF d(2) le lt [unfolded ps_def], folded ps_def]
  have e: "ngx_slab_exact_shift ps = ps - 6"
    using d(2) by (intro slab_exact_sizes) (auto simp: slab_sizes_ok_def ps_def)
  have full: "card (slab_slot_full pool k) = slab_chunks ps sh - slab_reserved ps sh"
    by (simp add: slab_full_def sh_def ps_def)
  have sh16: "sh < 16" using lt d(2) by (simp add: slab_sizes_ok_def ps_def)
  have a: "ngx_slab_page_addr (slab_total k N (slab_link_new k i T q)) i = ngx_slab_page_addr pool i"
    if "slab_consts q = slab_consts pool" for N T q
    using that by (intro slab_addr_consts) (simp add: slab_total_def)
  have fr: "slab_fresh k i (card (slab_slot_full pool k)) q =
      slab_used k (slab_total k (of_nat (2 ^ ps div 2 ^ sh - slab_reserved ps sh)) (slab_link_new k i (slab_kind ps sh) q))"
    if "slab_consts q = slab_consts pool" for q
    unfolding slab_fresh_def full slab_chunks_def using slab_consts_eq(1,2) [OF that] by (simp add: sh_def ps_def)
  note fresh = slab_core_fresh [OF core i k] slab_chunk_ok_fresh [OF k(1) d(2), folded sh_def ps_def]
  show ?thesis
  proof (cases rule: slab_kind_cases [of ps sh])
    case 2
    let ?q = "set_slab (SPage i) 1 pool"
    have "slab_chunk_ok (slab_fresh k i (card (slab_slot_full pool k)) ?q) i k {slab_reserved ps sh}"
      using 2 cnt(2,4) by (intro fresh(2)) (auto simp: slab_chunk_bit_def ps_def [symmetric] bit_1_iff)
    moreover have "slab_new pool k sh i = (ngx_slab_page_addr pool i, slab_fresh k i (card (slab_slot_full pool k)) ?q)"
    proof -
      have "2 ^ ps div 2 ^ sh - slab_reserved ps sh = 64" using cnt(2,4) 2 by (simp add: slab_chunks_def)
      then show ?thesis
        using 2 e a [of ?q] fr [of ?q] by (simp add: slab_new_def ps_def [symmetric] slab_new_exact_def Let_def)
    qed
    ultimately show ?thesis using fresh(1) [of ?q "slab_reserved ps sh"] 2 cnt(4) by simp
  next
    case 3
    let ?q = "set_slab (SPage i) (push_bit SLAB_MAP_SHIFT 1 OR of_nat sh) pool"
    have bits: "bit (p_slab ?q (SPage i)) b \<longleftrightarrow> b < 4 \<and> bit sh b \<or> b = 32" if "b < 64" for b
    proof -
      have "bit sh b \<Longrightarrow> b < 4"
        using sh16 take_bit_nat_eq_self [of sh 4] bit_take_bit_iff [of 4 sh b] by simp
      moreover have "bit (of_nat sh :: 64 word) b \<longleftrightarrow> bit sh b" using that by (auto simp: bit_simps)
      moreover have "bit (push_bit 32 1 :: 64 word) b \<longleftrightarrow> b = 32"
        unfolding bit_push_bit_iff bit_1_iff using that by auto
      moreover have "p_slab ?q (SPage i) = push_bit 32 1 OR of_nat sh" by (simp del: push_bit_numeral)
      ultimately show ?thesis by (simp only: bit_or_iff) blast
    qed
    have "slab_chunk_ok (slab_fresh k i (card (slab_slot_full pool k)) ?q) i k {slab_reserved ps sh}"
    proof (rule fresh(2))
      show "slab_chunk_bit ?q i sh c \<longleftrightarrow> c \<le> slab_reserved ps sh" if "c < slab_chunks ps sh" for c
        using 3 cnt(3,4) bits [of "32 + c"] that by (simp add: slab_chunk_bit_def ps_def [symmetric])
    qed (use 3 bits in auto)
    moreover have "slab_new pool k sh i = (ngx_slab_page_addr pool i, slab_fresh k i (card (slab_slot_full pool k)) ?q)"
      using 3 cnt(4) e a [of ?q] fr [of ?q] slab_consts_eq(2) [of "slab_link_new k i SLAB_BIG ?q" pool]
      by (simp add: slab_new_def ps_def [symmetric] slab_new_big_def Let_def)
    ultimately show ?thesis using fresh(1) [of ?q "slab_reserved ps sh"] 3 cnt(4) by simp
  next
    case 1
    let ?n = "slab_reserved ps sh" let ?i = "(?n + 1) div 64"
    define W where "W = (2 :: nat) ^ (ps - sh - 6)"
    have tot: "slab_chunks ps sh = 64 * W" using cnt(1) 1 by (simp add: W_def)
    have words: "2 ^ ps div 2 ^ sh div (8 * 8) = W" using tot by (simp add: slab_chunks_def)
    have res: "slab_map_chunks ps sh = ?n" using 1 by (simp add: slab_reserved_def)
    let ?f = "slab_fill i 0 ?i SLAB_BUSY pool"
    let ?q = "set_slab (SPage i) (of_nat sh) (slab_fill i (Suc ?i) (W - Suc ?i) 0 (set_map i ?i (push_bit ((?n + 1) mod 64) 1 - 1) ?f))"
    have word: "bit (sl_map ?q i j) b \<longleftrightarrow> 64 * j + b \<le> ?n" if j: "j < W" "b < 64" for j b
    proof -
      have m: "sl_map ?q i j = (if j < ?i then SLAB_BUSY else if j = ?i then push_bit ((?n + 1) mod 64) 1 - 1 else 0)"
        using j(1) by (simp add: slab_fill_desc)
      have en: "64 * ?i + (?n + 1) mod 64 = ?n + 1" by (rule mult_div_mod_eq)
      consider "j < ?i" | "j = ?i" | "?i < j" by linarith
      then show ?thesis
      proof cases
        case 1
        moreover have "bit SLAB_BUSY b" using slab_busy_iff [of SLAB_BUSY] j(2) by blast
        ultimately show ?thesis unfolding m using en j(2) by simp
      next
        case 2
        have "bit (push_bit ((?n + 1) mod 64) 1 - 1 :: 64 word) b \<longleftrightarrow> b < (?n + 1) mod 64"
          by (rule slab_low_mask_bit) (simp add: less_imp_le)
        moreover have "b < (?n + 1) mod 64 \<longleftrightarrow> 64 * j + b \<le> ?n" unfolding 2 using en by linarith
        moreover have "sl_map ?q i j = push_bit ((?n + 1) mod 64) 1 - 1" unfolding m using 2 by (simp only: less_irrefl if_False if_True refl)
        ultimately show ?thesis by metis
      next
        case 3
        then show ?thesis unfolding m using en by auto
      qed
    qed
    have cq: "slab_consts ?q = slab_consts pool" by simp
    have "slab_chunk_ok (slab_fresh k i (card (slab_slot_full pool k)) ?q) i k {slab_reserved ps sh}"
    proof (rule fresh(2) [OF cq])
      fix c assume c: "c < slab_chunks ps sh"
      have "c div 64 < W" using c tot by (simp add: less_mult_imp_div_less)
      from word [OF this, of "c mod 64"] show "slab_chunk_bit ?q i sh c \<longleftrightarrow> c \<le> slab_reserved ps sh"
        using 1 slab_consts_eq(2) [OF cq] by (simp add: slab_chunk_bit_def ps_def [symmetric])
    qed (use 1 in auto)
    moreover have "slab_new pool k sh i =
        (ngx_slab_page_addr pool i + ?n * 2 ^ sh, slab_fresh k i (card (slab_slot_full pool k)) ?q)"
    proof -
      have lt': "sh < ngx_slab_exact_shift ps" using 1 e by simp
      show ?thesis
        unfolding slab_new_def ps_def [symmetric] if_P [OF lt'] slab_new_small_def res words Let_def fr [OF cq]
        using a [OF cq] 1 by simp
    qed
    ultimately show ?thesis using fresh(1) [OF cq, of "slab_reserved ps sh"] 1 by (simp add: slab_fill_desc)
  qed
qed

end
