(* ===== verification/Ngx_Slab_Alloc.thy ===== *)
theory Ngx_Slab_Alloc
  imports Ngx_Slab_Give Ngx_Slab_New
begin

text \<open>
  \<open>ngx_slab_alloc_locked\<close> as a whole: the areas of memory in use, and what an allocation adds to them.
\<close>

section \<open>The areas in use\<close>

fun seg_areas :: "slab_pool \<Rightarrow> nat \<Rightarrow> slab_seg \<Rightarrow> (nat \<times> nat) set" where
  \<comment> \<open>address and size of what is given out of a block\<close>
  "seg_areas pool i (Free_Seg n) = {}"
| "seg_areas pool i (Used_Seg n) = {(ngx_slab_page_addr pool i, n * 2 ^ sl_page_shift pool)}"
| "seg_areas pool i (Chunk_Seg k B) =
     (\<lambda>c. (ngx_slab_page_addr pool i + c * 2 ^ (sl_min_shift pool + k), 2 ^ (sl_min_shift pool + k))) ` B"

definition heads_areas :: "slab_pool \<Rightarrow> slab_heads \<Rightarrow> (nat \<times> nat) set" where
  "heads_areas pool H = {a. \<exists>i s. H i = Some s \<and> a \<in> seg_areas pool i s}"

lemma seg_areas_consts:
  assumes "slab_consts pool' = slab_consts pool"
  shows "seg_areas pool' i s = seg_areas pool i s"
proof -
  note ce = slab_consts_eq [OF assms]
  show ?thesis by (cases s) (simp_all add: ce(1,2,8))
qed

lemma heads_areas_consts: "slab_consts pool' = slab_consts pool \<Longrightarrow> heads_areas pool' H = heads_areas pool H"
  using seg_areas_consts [of pool' pool] unfolding heads_areas_def by blast

lemma heads_areas_upd:
  "heads_areas pool (H(i \<mapsto> s)) = heads_areas pool (H(i := None)) \<union> seg_areas pool i s"
  by (auto simp: heads_areas_def split: if_splits)

lemma heads_areas_split: "H i = Some s \<Longrightarrow> heads_areas pool H = heads_areas pool (H(i := None)) \<union> seg_areas pool i s"
  using heads_areas_upd [of pool H i s] by (simp add: fun_upd_idem)

lemma heads_areas_kept:
  assumes "slab_kept H H'"
  shows "heads_areas pool H' = heads_areas pool H"
proof -
  have "seg_free s \<Longrightarrow> seg_areas pool i s = {}" for i s by (cases s) simp_all
  then show ?thesis using assms unfolding heads_areas_def slab_kept_def by blast
qed

lemma page_addr_mod: "slab_sizes_ok pool \<Longrightarrow> sh \<le> sl_page_shift pool \<Longrightarrow> ngx_slab_page_addr pool i mod 2 ^ sh = 0"
proof -
  assume ok: "slab_sizes_ok pool" and sh: "sh \<le> sl_page_shift pool"
  have d: "(2 :: nat) ^ sh dvd 2 ^ sl_page_shift pool" using sh by (rule le_imp_power_dvd)
  have "2 ^ sl_page_shift pool dvd sl_start pool" using ok by (simp add: slab_sizes_ok_def mod_eq_0_iff_dvd)
  then have "2 ^ sh dvd ngx_slab_page_addr pool i"
    unfolding ngx_slab_page_addr_def using d by (meson dvd_add dvd_mult dvd_trans)
  then show ?thesis by (simp add: mod_eq_0_iff_dvd)
qed

lemma seg_areas_range:
  assumes core: "slab_core pool H F L" and i: "H i = Some s" and a: "(a, n) \<in> seg_areas pool i s"
  shows "ngx_slab_page_addr pool i \<le> a" "a + n \<le> ngx_slab_page_addr pool (i + seg_len s)" "0 < n"
proof -
  have "ngx_slab_page_addr pool i \<le> a \<and> a + n \<le> ngx_slab_page_addr pool (i + seg_len s) \<and> 0 < n"
  proof (cases s)
    case (Used_Seg m)
    then show ?thesis
      using a tilesD(1) [OF slab_pages_okD(1) [OF slab_coreD(1) [OF core]] i]
      by (simp add: ngx_slab_page_addr_def add_mult_distrib)
  next
    case (Chunk_Seg k B)
    let ?sh = "sl_min_shift pool + k"
    obtain c where c: "c \<in> B" "a = ngx_slab_page_addr pool i + c * 2 ^ ?sh" "n = 2 ^ ?sh" using a Chunk_Seg by auto
    note pg = slab_core_page [OF core i [unfolded Chunk_Seg]]
    have "Suc c \<le> slab_chunks (sl_page_shift pool) ?sh" using pg(4) c(1) by (auto simp: slab_full_def)
    then have "Suc c * 2 ^ ?sh \<le> slab_chunks (sl_page_shift pool) ?sh * 2 ^ ?sh" by (rule mult_le_mono1)
    also have "\<dots> = 2 ^ sl_page_shift pool" using pg(5) by (simp add: slab_chunks_power power_add [symmetric])
    finally show ?thesis using c Chunk_Seg by (simp add: ngx_slab_page_addr_def algebra_simps)
  qed (use a in simp)
  then show "ngx_slab_page_addr pool i \<le> a" "a + n \<le> ngx_slab_page_addr pool (i + seg_len s)" "0 < n" by blast+
qed

lemma heads_areas_disjoint:
  assumes core: "slab_core pool H F L" and a: "(a, n) \<in> heads_areas pool H" and b: "(b, m) \<in> heads_areas pool H" and ne: "(a, n) \<noteq> (b, m)"
  shows "a + n \<le> b \<or> b + m \<le> a"
proof -
  obtain i s where s: "H i = Some s" "(a, n) \<in> seg_areas pool i s" using a by (auto simp: heads_areas_def)
  obtain j t where t: "H j = Some t" "(b, m) \<in> seg_areas pool j t" using b by (auto simp: heads_areas_def)
  note r = seg_areas_range [OF core s] seg_areas_range [OF core t]
  have mono: "ngx_slab_page_addr pool x \<le> ngx_slab_page_addr pool y" if "x \<le> y" for x y
    using that by (simp add: ngx_slab_page_addr_def)
  note tiles = slab_pages_okD(1) [OF slab_coreD(1) [OF core]]
  consider "i < j" | "j < i" | "i = j" by linarith
  then show ?thesis
  proof cases
    case 1
    then show ?thesis using mono [OF tiles_apart [OF tiles s(1) t(1)]] r by linarith
  next
    case 2
    then show ?thesis using mono [OF tiles_apart [OF tiles t(1) s(1)]] r by linarith
  next
    case 3
    then have st: "s = t" using s t by simp
    show ?thesis
    proof (cases s)
      case (Chunk_Seg k B)
      let ?u = "2 ^ (sl_min_shift pool + k) :: nat"
      obtain c d where cd: "a = ngx_slab_page_addr pool i + c * ?u" "n = ?u" "b = ngx_slab_page_addr pool i + d * ?u" "m = ?u"
        using s(2) t(2) st 3 Chunk_Seg by auto
      then have "c < d \<or> d < c" using ne by auto
      then have "Suc c * ?u \<le> d * ?u \<or> Suc d * ?u \<le> c * ?u" by (metis Suc_leI mult_le_mono1)
      then show ?thesis unfolding cd by (auto simp: algebra_simps)
    qed (use s(2) t(2) st 3 ne in auto)
  qed
qed

lemma heads_areas_inside:
  assumes core: "slab_core pool H F L" and a: "(a, n) \<in> heads_areas pool H"
  shows "sl_start pool \<le> a" "a + n \<le> sl_end pool" "0 < a" "0 < n"
    "a + n \<le> ngx_slab_page_addr pool (sl_count pool)"
proof -
  obtain i s where s: "H i = Some s" "(a, n) \<in> seg_areas pool i s" using a by (auto simp: heads_areas_def)
  note r = seg_areas_range [OF core s]
  note tiles = slab_pages_okD(1) [OF slab_coreD(1) [OF core]]
  have "ngx_slab_page_addr pool (i + seg_len s) \<le> ngx_slab_page_addr pool (sl_count pool)"
    using tilesD(2) [OF tiles s(1)] by (simp add: ngx_slab_page_addr_def)
  moreover have "ngx_slab_page_addr pool (sl_count pool) \<le> sl_end pool" "0 < sl_start pool"
    using slab_coreD(2) [OF core] by (simp_all add: slab_sizes_ok_def ngx_slab_page_addr_def add.commute)
  moreover have "sl_start pool \<le> ngx_slab_page_addr pool i" by (simp add: ngx_slab_page_addr_def)
  ultimately show "sl_start pool \<le> a" "a + n \<le> sl_end pool" "0 < a" "0 < n"
    "a + n \<le> ngx_slab_page_addr pool (sl_count pool)" using r by linarith+
qed

lemma heads_areas_other:
  assumes core: "slab_core pool H F L" and i: "H i = Some s" and a: "(a, n) \<in> heads_areas pool (H(i := None))"
  shows "a < ngx_slab_page_addr pool i \<or> ngx_slab_page_addr pool (i + seg_len s) \<le> a"
proof -
  obtain j t where t: "j \<noteq> i" "H j = Some t" "(a, n) \<in> seg_areas pool j t"
    using a by (auto simp: heads_areas_def split: if_splits)
  note r = seg_areas_range [OF core t(2,3)]
  have mono: "ngx_slab_page_addr pool x \<le> ngx_slab_page_addr pool y" if "x \<le> y" for x y
    using that by (simp add: ngx_slab_page_addr_def)
  note tiles = slab_pages_okD(1) [OF slab_coreD(1) [OF core]]
  consider "i < j" | "j < i" using t(1) by linarith
  then show ?thesis
  proof cases
    case 1
    then show ?thesis using mono [OF tiles_apart [OF tiles i t(2)]] r by linarith
  next
    case 2
    then show ?thesis using mono [OF tiles_apart [OF tiles t(2) i]] r by linarith
  qed
qed

lemma slab_taken_areas:
  assumes core: "slab_core pool H F L" and i: "H i = Some (Free_Seg m)" "0 < n" "n \<le> m"
  shows "heads_areas pool ((slab_taken H i n m)(i := None)) = heads_areas pool H"
    "slab_taken H i n m i = Some (Used_Seg n)" "slab_same_chunks H (slab_taken H i n m)"
    "ngx_slab_page_addr pool i \<le> a \<Longrightarrow> a < ngx_slab_page_addr pool (i + m) \<Longrightarrow> (a, x) \<notin> heads_areas pool H"
proof -
  note tiles = slab_pages_okD(1) [OF slab_coreD(1) [OF core]]
  have n: "H (i + n) = None" if "n < m" using tilesD(3) [OF tiles i(1), of "i + n"] i(2) that by simp
  show "heads_areas pool ((slab_taken H i n m)(i := None)) = heads_areas pool H"
  proof (cases "n < m")
    case True
    have e: "(H(i \<mapsto> Used_Seg n, i + n \<mapsto> Free_Seg (m - n)))(i := None) = (H(i := None))(i + n \<mapsto> Free_Seg (m - n))"
      using i(2) by (auto simp: fun_eq_iff)
    have "(H(i := None))(i + n := None) = H(i := None)" using n [OF True] by (auto simp: fun_eq_iff)
    then show ?thesis
      using True heads_areas_upd [of pool "H(i := None)" "i + n" "Free_Seg (m - n)"] heads_areas_split [of H i "Free_Seg m" pool, OF i(1)]
      by (simp add: slab_taken_def e)
  next
    case False
    then show ?thesis using heads_areas_split [of H i "Free_Seg m" pool, OF i(1)] by (simp add: slab_taken_def)
  qed
  show "slab_taken H i n m i = Some (Used_Seg n)" using i(2) by (simp add: slab_taken_def)
  show "slab_same_chunks H (slab_taken H i n m)"
    using i(1) n by (auto simp: slab_same_chunks_def slab_taken_def split: if_splits)
  show "(a, x) \<notin> heads_areas pool H" if "ngx_slab_page_addr pool i \<le> a" "a < ngx_slab_page_addr pool (i + m)"
    using heads_areas_other [OF core i(1), of a x] that heads_areas_split [of H i "Free_Seg m" pool, OF i(1)] by auto
qed

section \<open>Allocation\<close>

lemma slab_alloc_pages_core:
  assumes core: "slab_core pool H F L" and n: "0 < n" "n < 2 ^ 63"
  shows "(\<exists>i m pool' F'. H i = Some (Free_Seg m) \<and> n \<le> m \<and>
      ngx_slab_alloc_pages pool (of_nat n) = Some (Some i, pool') \<and>
      slab_core pool' (slab_taken H i n m) F' L \<and> slab_consts pool' = slab_consts pool) \<or>
    ngx_slab_alloc_pages pool (of_nat n) = Some (None, pool) \<and> (\<forall>i m. H i = Some (Free_Seg m) \<longrightarrow> m < n)"
proof -
  note d = slab_coreD [OF core]
  have "slab_core pool' (slab_taken H i n m) F' L \<and> slab_consts pool' = slab_consts pool"
    if "H i = Some (Free_Seg m)" "n \<le> m" "slab_pages_ok pool' (slab_taken H i n m) F'" "slab_same (slab_free_refs H) pool pool'"
    for i m pool' F'
  proof
    show "slab_core pool' (slab_taken H i n m) F' L"
      by (rule slab_core_pages [OF core that(3,4) _ _ slab_taken_areas(3) [OF core that(1) n(1) that(2)]])
        (simp, rule free_refs_chunk [OF slab_pages_okD(1) [OF d(1)]])
    have "slab_rest pool' = slab_rest pool" using that(4) by (simp add: slab_same_def)
    then show "slab_consts pool' = slab_consts pool" by (rule slab_rest_consts)
  qed
  with slab_alloc_pages_ok [OF d(1) n] show ?thesis by meson
qed

lemma slab_core_reqs:
  assumes core: "slab_core pool H F L" and f: "\<And>st. st_used (f st) = st_used st \<and> st_total (f st) = st_total st"
  shows "slab_core (stat_upd k f pool) H F L"
proof -
  note d = slab_coreD [OF core]
  have "slab_consts (stat_upd k f pool) = slab_consts pool" by simp
  note ce = slab_consts_eq [OF this]
  have "slab_chunk_ok (stat_upd k f pool) i k' B" if "H i = Some (Chunk_Seg k' B)" for i k' B
    by (rule slab_chunk_ok_frame [OF d(3) [OF that]]) simp_all
  moreover have "slab_counts_ok (stat_upd k f pool) H"
    using d(7) f unfolding slab_counts_ok_def ce by (simp del: sl_const_simps)
  ultimately show ?thesis
    using d unfolding slab_core_def ce by simp
qed

definition slab_area_size :: "slab_pool \<Rightarrow> nat \<Rightarrow> nat" where
  \<comment> \<open>the size that an allocation takes\<close>
  "slab_area_size pool sz =
     (if sz > ngx_slab_max_size (sl_page_shift pool)
      then (sz div 2 ^ sl_page_shift pool + (if sz mod 2 ^ sl_page_shift pool \<noteq> 0 then 1 else 0)) * 2 ^ sl_page_shift pool
      else 2 ^ slab_slot_shift pool sz)"

definition slab_has_room :: "slab_pool \<Rightarrow> slab_heads \<Rightarrow> nat \<Rightarrow> bool" where
  \<comment> \<open>a block of free pages that is large enough, or a page with a free chunk\<close>
  "slab_has_room pool H sz \<longleftrightarrow>
     (\<exists>i m. H i = Some (Free_Seg m) \<and> slab_area_size pool sz \<le> m * 2 ^ sl_page_shift pool) \<or>
     sz \<le> ngx_slab_max_size (sl_page_shift pool) \<and>
     (\<exists>i k B. H i = Some (Chunk_Seg k B) \<and> sl_min_shift pool + k = slab_slot_shift pool sz \<and> B \<noteq> slab_slot_full pool k)"

lemma slab_inv_same:
  assumes "slab_inv pool H F L" "slab_core pool' H' F' L'" "slab_same_chunks H H'"
  shows "slab_inv pool' H' F' L'"
  using assms unfolding slab_inv_def slab_same_chunks_def by metis

definition slab_grown :: "slab_pool \<Rightarrow> slab_heads \<Rightarrow> nat \<Rightarrow> nat \<times> slab_pool \<Rightarrow> bool" where
  \<comment> \<open>the result of an allocation that has room\<close>
  "slab_grown pool H sz r \<longleftrightarrow>
     slab_consts (snd r) = slab_consts pool \<and>
     (\<exists>H' F' L'. slab_inv (snd r) H' F' L' \<and>
        heads_areas pool H' = insert (fst r, slab_area_size pool sz) (heads_areas pool H) \<and>
        (\<forall>x. (fst r, x) \<notin> heads_areas pool H))"

lemma slab_alloc_large:
  assumes inv: "slab_inv pool H F L" and sz: "sz < 2 ^ 64" "sz > ngx_slab_max_size (sl_page_shift pool)"
  shows "(\<exists>r. ngx_slab_alloc_locked pool sz = Some r \<and> slab_grown pool H sz r) \<and> slab_has_room pool H sz \<or>
    ngx_slab_alloc_locked pool sz = Some (0, pool) \<and> \<not> slab_has_room pool H sz"
proof -
  have core: "slab_core pool H F L" using inv by (simp add: slab_inv_def)
  note d = slab_coreD [OF core]
  let ?ps = "sl_page_shift pool"
  define n where "n = sz div 2 ^ ?ps + (if sz mod 2 ^ ?ps \<noteq> 0 then 1 else 0)"
  have size: "slab_area_size pool sz = n * 2 ^ ?ps" using sz(2) by (simp add: slab_area_size_def n_def)
  have n0: "0 < n"
  proof (rule ccontr)
    assume "\<not> 0 < n"
    then have "sz div 2 ^ ?ps = 0" "sz mod 2 ^ ?ps = 0" by (auto simp: n_def split: if_splits)
    then have "sz = 0" by (metis div_mult_mod_eq mult_zero_left add_0)
    then show False using sz(2) by simp
  qed
  have n1: "n < 2 ^ 63"
  proof -
    have "(2 :: nat) ^ 2 \<le> 2 ^ ?ps" using d(2) by (intro power_increasing) (auto simp: slab_sizes_ok_def)
    then have "sz div 2 ^ ?ps \<le> sz div 4" by (simp add: div_le_mono2)
    moreover have "sz div 4 < 2 ^ 62" using sz(1) by (intro less_mult_imp_div_less) simp
    ultimately show ?thesis by (auto simp: n_def)
  qed
  have eq: "ngx_slab_alloc_locked pool sz = (case ngx_slab_alloc_pages pool (of_nat n) of None \<Rightarrow> None
      | Some (None, pool') \<Rightarrow> Some (0, pool') | Some (Some i, pool') \<Rightarrow> Some (ngx_slab_page_addr pool' i, pool'))"
    unfolding ngx_slab_alloc_locked_def if_P [OF sz(2)] Let_def n_def [symmetric] ..
  from slab_alloc_pages_core [OF core n0 n1] show ?thesis
  proof (elim disjE exE conjE)
    fix i m pool' F'
    assume i: "H i = Some (Free_Seg m)" "n \<le> m" and a: "ngx_slab_alloc_pages pool (of_nat n) = Some (Some i, pool')"
      and c: "slab_core pool' (slab_taken H i n m) F' L" "slab_consts pool' = slab_consts pool"
    let ?H = "slab_taken H i n m" let ?p = "ngx_slab_page_addr pool i"
    note t = slab_taken_areas [OF core i(1) n0 i(2)]
    have inv': "slab_inv pool' ?H F' L" by (rule slab_inv_same [OF inv c(1) t(3)])
    have "heads_areas pool ?H = insert (?p, slab_area_size pool sz) (heads_areas pool H)"
      using heads_areas_split [of ?H i _ pool, OF t(2)] t(1) by (simp add: size)
    moreover have "(?p, x) \<notin> heads_areas pool H" for x
      using i(2) n0 by (intro t(4)) (simp_all add: ngx_slab_page_addr_def)
    ultimately have "slab_grown pool H sz (?p, pool')" unfolding slab_grown_def using inv' c(2) by auto
    moreover have "slab_has_room pool H sz"
      unfolding slab_has_room_def size using i by (intro disjI1 exI [of _ i] exI [of _ m]) simp
    ultimately show ?thesis using eq a slab_addr_consts [OF c(2)] by simp
  next
    assume a: "ngx_slab_alloc_pages pool (of_nat n) = Some (None, pool)" and no: "\<forall>i m. H i = Some (Free_Seg m) \<longrightarrow> m < n"
    have "m * 2 ^ ?ps < n * 2 ^ ?ps" if "H i = Some (Free_Seg m)" for i m using no that by simp
    then have "\<not> slab_has_room pool H sz" unfolding slab_has_room_def size using sz(2) by (auto simp: not_le)
    then show ?thesis using eq a by simp
  qed
qed

lemma slab_grown_chunk:
  assumes inv: "slab_inv pool H F L" and sz: "sz \<le> ngx_slab_max_size (sl_page_shift pool)"
  defines "sh \<equiv> slab_slot_shift pool sz" and "k \<equiv> slab_slot_shift pool sz - sl_min_shift pool"
  assumes i: "H i = Some s" and c: "c \<in> slab_full pool sh" "\<And>B. s = Chunk_Seg k B \<Longrightarrow> c \<notin> B" "seg_free s \<or> s = Chunk_Seg k B"
    and new: "slab_core pool' H' F' L'" "slab_consts pool' = slab_consts pool" "\<And>j k. H' j \<noteq> Some (Chunk_Seg k {})"
    and areas: "heads_areas pool H' = heads_areas pool (H(i := None)) \<union>
      seg_areas pool i (Chunk_Seg k (insert c (case s of Chunk_Seg _ B \<Rightarrow> B | _ \<Rightarrow> {})))"
  shows "slab_grown pool H sz (ngx_slab_page_addr pool i + c * 2 ^ sh, pool')"
proof -
  have core: "slab_core pool H F L" using inv by (simp add: slab_inv_def)
  note d = slab_coreD [OF core] note b = slab_slot_shift_bounds [OF d(2) sz]
  have sh: "sl_min_shift pool + k = sh" "sh < sl_page_shift pool" using b by (simp_all add: sh_def k_def)
  let ?p = "ngx_slab_page_addr pool i + c * 2 ^ sh"
  have size: "slab_area_size pool sz = 2 ^ sh" using sz by (simp add: slab_area_size_def sh_def)
  have H: "heads_areas pool H = heads_areas pool (H(i := None)) \<union> seg_areas pool i s" by (rule heads_areas_split [of H i s pool, OF i])
  have "heads_areas pool H' = insert (?p, slab_area_size pool sz) (heads_areas pool H)"
    unfolding areas H size using c(3) by (cases s) (auto simp: sh)
  moreover have "(?p, x) \<notin> heads_areas pool H" for x
  proof
    assume "(?p, x) \<in> heads_areas pool H"
    then consider "(?p, x) \<in> heads_areas pool (H(i := None))" | "(?p, x) \<in> seg_areas pool i s" unfolding H by blast
    then show False
    proof cases
      case 1
      have "0 < seg_len s" using tilesD(1) [OF slab_pages_okD(1) [OF d(1)] i] .
      then have "(i + 1) * 2 ^ sl_page_shift pool \<le> (i + seg_len s) * 2 ^ sl_page_shift pool"
        by (intro mult_le_mono1) simp
      then have "ngx_slab_page_addr pool (i + 1) \<le> ngx_slab_page_addr pool (i + seg_len s)"
        unfolding ngx_slab_page_addr_def by simp
      moreover have "?p < ngx_slab_page_addr pool (i + 1)"
      proof -
        have "c < slab_chunks (sl_page_shift pool) sh" using c(1) by (simp add: slab_full_def)
        then have "c * 2 ^ sh < slab_chunks (sl_page_shift pool) sh * 2 ^ sh" by simp
        also have "\<dots> = 2 ^ sl_page_shift pool" using sh(2) by (simp add: slab_chunks_power power_add [symmetric])
        finally show ?thesis by (simp add: ngx_slab_page_addr_def)
      qed
      ultimately show False using heads_areas_other [OF core i 1] by simp
    next
      case 2
      then show False using c(2,3) by (cases s) (auto simp: sh)
    qed
  qed
  moreover have "slab_inv pool' H' F' L'" using new by (simp add: slab_inv_def)
  ultimately show ?thesis unfolding slab_grown_def using new(2) by auto
qed

lemma slab_new_consts: "slab_consts (snd (slab_new pool k sh i)) = slab_consts pool"
  by (simp add: slab_new_def slab_new_small_def slab_new_exact_def slab_new_big_def slab_used_def slab_total_def Let_def)

lemma slab_alloc_small:
  assumes inv: "slab_inv pool H F L" and sz: "sz \<le> ngx_slab_max_size (sl_page_shift pool)"
  shows "(\<exists>r. ngx_slab_alloc_locked pool sz = Some r \<and> slab_grown pool H sz r) \<and> slab_has_room pool H sz \<or>
    (\<exists>pool'. ngx_slab_alloc_locked pool sz = Some (0, pool') \<and> slab_inv pool' H F L \<and>
       slab_consts pool' = slab_consts pool \<and> \<not> slab_has_room pool H sz)"
proof -
  have core: "slab_core pool H F L" and ne: "\<And>i k. H i \<noteq> Some (Chunk_Seg k {})" using inv by (auto simp: slab_inv_def)
  note d = slab_coreD [OF core] note b = slab_slot_shift_bounds [OF d(2) sz]
  define sh where "sh = slab_slot_shift pool sz"
  define k where "k = sh - sl_min_shift pool"
  have sh: "sh = sl_min_shift pool + k" "sh < sl_page_shift pool" "k < slab_slots pool"
    using b by (simp_all add: sh_def k_def diff_less_mono)
  define p1 where "p1 = stat_upd k (\<lambda>st. st\<lparr>st_reqs := st_reqs st + 1\<rparr>) pool"
  have c1: "slab_core p1 H F L" unfolding p1_def by (rule slab_core_reqs [OF core]) simp
  have cs1: "slab_consts p1 = slab_consts pool" by (simp add: p1_def)
  note ce = slab_consts_eq [OF cs1] note d1 = slab_coreD [OF c1]
  have nx: "p_next p1 = p_next pool" by (simp add: p1_def)
  have eq: "ngx_slab_alloc_locked pool sz =
     (let page = p_next p1 (SSlot k) in
      if p_next p1 page \<noteq> page then
        (case page of SPage i \<Rightarrow> (case slab_take_chunk p1 k sh i of Some r \<Rightarrow> Some r | None \<Rightarrow> slab_new_page p1 k sh) | _ \<Rightarrow> None)
      else slab_new_page p1 k sh)"
    using sz unfolding ngx_slab_alloc_locked_def Let_def sh_def [symmetric] k_def [symmetric] p1_def [symmetric] by simp
  note list = slab_slotsD [OF d1(5), unfolded ce, OF sh(3)]
  show ?thesis
  proof (cases "L k")
    case Nil
    have new: "ngx_slab_alloc_locked pool sz = slab_new_page p1 k sh" using eq list(1) Nil by (simp add: Let_def)
    have one: "(0 :: nat) < 1" "(1 :: nat) < 2 ^ 63" by simp_all
    from slab_alloc_pages_core [OF c1 one] show ?thesis
    proof (elim disjE exE conjE)
      fix i m p2 F'
      assume i: "H i = Some (Free_Seg m)" "1 \<le> m" and a: "ngx_slab_alloc_pages p1 (of_nat 1) = Some (Some i, p2)"
        and c2: "slab_core p2 (slab_taken H i 1 m) F' L" "slab_consts p2 = slab_consts p1"
      have cs2: "slab_consts p2 = slab_consts pool" using c2(2) cs1 by simp
      note ce2 = slab_consts_eq [OF cs2]
      let ?H = "slab_taken H i 1 m" let ?r = "slab_reserved (sl_page_shift pool) sh"
      note t = slab_taken_areas [OF core i(1) one(1) i(2)]
      have n: "fst (slab_new p2 k sh i) = ngx_slab_page_addr pool i + ?r * 2 ^ sh"
        "slab_core (snd (slab_new p2 k sh i)) (?H(i \<mapsto> Chunk_Seg k {?r})) F' (L(k := [i]))"
        using slab_core_new [OF c2(1) t(2) _ Nil] sh unfolding ce2 by blast+
      have rf: "?r \<in> slab_full pool sh"
        using slab_chunk_counts(5) [OF d(2) _ sh(2)] sh(1) by (simp add: slab_full_def)
      have cs3: "slab_consts (snd (slab_new p2 k sh i)) = slab_consts pool"
        using slab_new_consts ce2 cs2 by simp
      have "slab_grown pool H sz (ngx_slab_page_addr pool i + ?r * 2 ^ sh, snd (slab_new p2 k sh i))"
      proof (rule slab_grown_chunk [OF inv sz i(1) _ _ _ n(2) cs3, folded sh_def k_def])
        show "(?H(i \<mapsto> Chunk_Seg k {?r})) j \<noteq> Some (Chunk_Seg k' {})" for j k'
          using t(3) ne unfolding slab_same_chunks_def by (cases "j = i") auto
        show "heads_areas pool (?H(i \<mapsto> Chunk_Seg k {?r})) = heads_areas pool (H(i := None)) \<union>
            seg_areas pool i (Chunk_Seg k (insert ?r (case Free_Seg m of Chunk_Seg _ B \<Rightarrow> B | _ \<Rightarrow> {})))"
          using heads_areas_upd [of pool ?H i "Chunk_Seg k {?r}"] t(1) heads_areas_split [of H i "Free_Seg m" pool, OF i(1)] by simp
      qed (use rf in auto)
      moreover have "ngx_slab_alloc_locked pool sz = Some (slab_new p2 k sh i)"
        unfolding new slab_new_page_def using a by (simp add: slab_new_def)
      moreover have "slab_has_room pool H sz"
      proof -
        have "(2 :: nat) ^ sh \<le> 2 ^ sl_page_shift pool" using sh(2) by (intro power_increasing) simp_all
        also have "\<dots> \<le> m * 2 ^ sl_page_shift pool" using i(2) by simp
        finally have "slab_area_size pool sz \<le> m * 2 ^ sl_page_shift pool" using sz by (simp add: slab_area_size_def sh_def)
        then show ?thesis unfolding slab_has_room_def using i(1) by blast
      qed
      ultimately show ?thesis using n(1) by (metis prod.collapse)
    next
      assume a: "ngx_slab_alloc_pages p1 (of_nat 1) = Some (None, p1)" and no: "\<forall>i m. H i = Some (Free_Seg m) \<longrightarrow> m < 1"
      let ?p = "stat_upd k (\<lambda>st. st\<lparr>st_fails := st_fails st + 1\<rparr>) p1"
      have "slab_inv ?p H F L" using slab_core_reqs [OF c1] ne by (simp add: slab_inv_def)
      moreover have "\<not> slab_has_room pool H sz"
      proof -
        have "m = 0" if "H i = Some (Free_Seg m)" for i m using no that by auto
        moreover have "B = slab_slot_full pool k" if "H i = Some (Chunk_Seg k B)" for i B
        proof (rule ccontr)
          assume "B \<noteq> slab_slot_full pool k"
          then have "i \<in> set (L k)" using d1(6) [unfolded ce, OF sh(3)] that by blast
          then show False by (simp add: Nil)
        qed
        moreover have "slab_area_size pool sz \<noteq> 0" using sz by (simp add: slab_area_size_def)
        ultimately show ?thesis unfolding slab_has_room_def using sh by (fastforce simp: sh_def [symmetric])
      qed
      moreover have "ngx_slab_alloc_locked pool sz = Some (0, ?p)"
        unfolding new slab_new_page_def using a by simp
      ultimately show ?thesis using cs1 by auto
    qed
  next
    case (Cons i ys)
    have iL: "i \<in> set (L k)" by (simp add: Cons)
    have ps: "p_next p1 (SSlot k) = SPage i" using list(1) Cons by simp
    have "p_next p1 (SPage i) \<noteq> SPage i" using list(1,2) Cons by (cases ys) auto
    then have take: "ngx_slab_alloc_locked pool sz =
        (case slab_take_chunk p1 k sh i of Some r \<Rightarrow> Some r | None \<Rightarrow> slab_new_page p1 k sh)"
      using eq ps by (simp add: Let_def)
    obtain B where B: "H i = Some (Chunk_Seg k B)" "B \<noteq> slab_slot_full pool k"
      using d1(6) iL sh(3) unfolding ce by blast
    obtain c where c: "c \<in> slab_slot_full p1 k - B" and tc: "slab_take_chunk p1 k (sl_min_shift p1 + k) i =
        Some (ngx_slab_page_addr p1 i + c * 2 ^ (sl_min_shift p1 + k),
          slab_used k (if insert c B = slab_slot_full p1 k then slab_retire i (slab_slot_kind p1 k) (slab_mark p1 i (sl_min_shift p1 + k) c set_bit)
                   else slab_mark p1 i (sl_min_shift p1 + k) c set_bit))"
      using slab_take_chunk_eq [OF d1(2) d1(3) [OF B(1)]] B(2) unfolding ce by blast
    define p2 where "p2 = slab_used k (if insert c B = slab_slot_full p1 k then slab_retire i (slab_slot_kind p1 k) (slab_mark p1 i (sl_min_shift p1 + k) c set_bit)
                   else slab_mark p1 i (sl_min_shift p1 + k) c set_bit)"
    obtain L' where c2: "slab_core p2 (H(i \<mapsto> Chunk_Seg k (insert c B))) F L'"
      using slab_core_take [OF c1 B(1) _ c] B(2) unfolding p2_def ce by blast
    have cs2: "slab_consts p2 = slab_consts pool" by (simp add: p2_def slab_used_def cs1)
    have "slab_grown pool H sz (ngx_slab_page_addr pool i + c * 2 ^ sh, p2)"
    proof (rule slab_grown_chunk [OF inv sz B(1) _ _ _ c2 cs2, folded sh_def k_def])
      show "(H(i \<mapsto> Chunk_Seg k (insert c B))) j \<noteq> Some (Chunk_Seg k' {})" for j k' using ne by simp
      show "heads_areas pool (H(i \<mapsto> Chunk_Seg k (insert c B))) = heads_areas pool (H(i := None)) \<union>
          seg_areas pool i (Chunk_Seg k (insert c (case Chunk_Seg k B of Chunk_Seg _ B \<Rightarrow> B | _ \<Rightarrow> {})))"
        using heads_areas_upd [of pool H i] by simp
    qed (use c sh(1) in \<open>auto simp: ce\<close>)
    moreover have "ngx_slab_alloc_locked pool sz = Some (ngx_slab_page_addr pool i + c * 2 ^ sh, p2)"
      unfolding take using tc by (simp add: ce sh(1) [symmetric] p2_def)
    moreover have "slab_has_room pool H sz"
      unfolding slab_has_room_def using B sz sh(1) sh_def by blast
    ultimately show ?thesis by blast
  qed
qed

end
