(* ===== verification/Ngx_Slab_Free.thy ===== *)
theory Ngx_Slab_Free
  imports Ngx_Slab_Alloc
begin

text \<open>
  \<open>ngx_slab_free_locked\<close> as a whole: an area in use is given back, any other pointer is refused.
\<close>

section \<open>Addresses\<close>

lemma slab_addr_split:
  assumes "slab_sizes_ok pool" "x < 2 ^ sl_page_shift pool"
  shows "(ngx_slab_page_addr pool i + x - sl_start pool) div 2 ^ sl_page_shift pool = i"
    "(ngx_slab_page_addr pool i + x) mod 2 ^ sl_page_shift pool = x" "sl_start pool \<le> ngx_slab_page_addr pool i + x"
proof -
  let ?u = "2 ^ sl_page_shift pool :: nat"
  show "(ngx_slab_page_addr pool i + x - sl_start pool) div ?u = i" using assms(2) by (simp add: ngx_slab_page_addr_def)
  have "ngx_slab_page_addr pool i mod ?u = 0" by (rule page_addr_mod [OF assms(1)]) simp
  then show "(ngx_slab_page_addr pool i + x) mod ?u = x" using assms(2) by (simp add: mod_add_left_eq [symmetric])
  show "sl_start pool \<le> ngx_slab_page_addr pool i + x" by (simp add: ngx_slab_page_addr_def)
qed

lemma slab_addr_cases:
  assumes "slab_sizes_ok pool" "sl_start pool \<le> p" "p < ngx_slab_page_addr pool (sl_count pool)"
  obtains i x where "i < sl_count pool" "p = ngx_slab_page_addr pool i + x" "x < 2 ^ sl_page_shift pool"
proof
  let ?u = "2 ^ sl_page_shift pool :: nat"
  show "(p - sl_start pool) div ?u < sl_count pool"
    using assms(2,3) by (intro less_mult_imp_div_less) (simp add: ngx_slab_page_addr_def)
  show "p = ngx_slab_page_addr pool ((p - sl_start pool) div ?u) + (p - sl_start pool) mod ?u"
    using assms(2) div_mult_mod_eq [of "p - sl_start pool" ?u] by (simp add: ngx_slab_page_addr_def)
  show "(p - sl_start pool) mod ?u < ?u" by simp
qed

lemma slab_addr_end: "slab_sizes_ok pool \<Longrightarrow> ngx_slab_page_addr pool (sl_count pool) \<le> sl_end pool"
  by (simp add: slab_sizes_ok_def ngx_slab_page_addr_def add.commute)

section \<open>The checks\<close>

lemma slab_free_dispatch:
  assumes sizes: "slab_sizes_ok pool" and i: "i < sl_count pool" "x < 2 ^ sl_page_shift pool"
  defines "p \<equiv> ngx_slab_page_addr pool i + x"
  shows "ngx_slab_free_locked pool p =
    (case p_type pool (SPage i) of SLAB_SMALL \<Rightarrow> slab_free_small pool p i | SLAB_EXACT \<Rightarrow> slab_free_exact pool p i
     | SLAB_BIG \<Rightarrow> slab_free_big pool p i | SLAB_PAGE \<Rightarrow> slab_free_page pool p i)"
proof -
  have "Suc i * 2 ^ sl_page_shift pool \<le> sl_count pool * 2 ^ sl_page_shift pool"
    using i(1) by (intro mult_le_mono1) simp
  then have "p \<le> sl_end pool"
    using i(2) slab_addr_end [OF sizes] by (simp add: p_def ngx_slab_page_addr_def)
  moreover have "sl_start pool \<le> p" "(p - sl_start pool) div 2 ^ sl_page_shift pool = i"
    unfolding p_def using slab_addr_split [OF sizes i(2)] by blast+
  ultimately show ?thesis by (simp add: ngx_slab_free_locked_def)
qed

lemma slab_free_chunk_page_eq:
  assumes core: "slab_core pool H F L" and i: "H i = Some (Chunk_Seg k B)" and x: "x < 2 ^ sl_page_shift pool"
  defines "sh \<equiv> sl_min_shift pool + k"
  assumes res: "slab_reserved (sl_page_shift pool) sh * 2 ^ sh \<le> x"
  shows "ngx_slab_free_locked pool (ngx_slab_page_addr pool i + x) =
    (if x mod 2 ^ sh \<noteq> 0 then (Some Wrong_chunk, pool)
     else if x div 2 ^ sh \<in> B then (None, slab_given pool i k B (x div 2 ^ sh)) else (Some Chunk_already_free, pool))"
proof -
  note d = slab_coreD [OF core] note pg = slab_core_page [OF core i]
  let ?p = "ngx_slab_page_addr pool i + x"
  have ty: "p_type pool (SPage i) = slab_slot_kind pool k" by (rule slab_chunk_okD(3) [OF d(3) [OF i]])
  have m: "?p mod 2 ^ sh = x mod 2 ^ sh"
  proof -
    have "ngx_slab_page_addr pool i mod 2 ^ sh = 0" using pg(5) by (intro page_addr_mod [OF d(2)]) (simp add: sh_def)
    then show ?thesis by (metis add_0 mod_add_left_eq)
  qed
  note a = slab_addr_split(2) [OF d(2) x]
  have r: "slab_reserved (sl_page_shift pool) sh \<le> x div 2 ^ sh"
    using res by (simp add: less_eq_div_iff_mult_less_eq)
  note eqs = slab_free_small_eq [OF core i, of ?p] slab_free_exact_eq [OF core i, of ?p] slab_free_big_eq [OF core i, of ?p]
  show ?thesis
    unfolding slab_free_dispatch [OF d(2) pg(1) x] ty
    using eqs [unfolded a, folded sh_def, unfolded m Let_def] r
    by (cases rule: slab_kind_cases [of "sl_page_shift pool" sh]) (simp_all add: sh_def)
qed

lemma slab_used_slab:
  assumes "0 < n" "n < 2 ^ 62"
  shows "((of_nat n :: 64 word) OR SLAB_PAGE_START) AND SLAB_PAGE_START \<noteq> 0"
    "((of_nat n :: 64 word) OR SLAB_PAGE_START) \<noteq> SLAB_PAGE_BUSY"
    "((of_nat n :: 64 word) OR SLAB_PAGE_START) AND NOT SLAB_PAGE_START = of_nat n"
    "(of_nat n :: 64 word) AND SLAB_PAGE_START = 0"
proof -
  have s: "bit (SLAB_PAGE_START) b \<longleftrightarrow> b = 63" for b
  proof -
    have "SLAB_PAGE_START = push_bit 63 1" by simp
    then show ?thesis unfolding \<open>SLAB_PAGE_START = push_bit 63 1\<close> bit_push_bit_iff bit_1_iff by auto
  qed
  have n: "\<not> bit (of_nat n :: 64 word) b" if "62 \<le> b" for b
  proof -
    have "take_bit 62 n = n" using assms(2) by (simp add: take_bit_nat_eq_self)
    then have "\<not> bit n b" using that by (metis bit_take_bit_iff not_le)
    then show ?thesis by (simp add: bit_of_nat_iff)
  qed
  have "bit (((of_nat n :: 64 word) OR SLAB_PAGE_START) AND SLAB_PAGE_START) 63" unfolding bit_and_iff bit_or_iff s by simp
  then show "((of_nat n :: 64 word) OR SLAB_PAGE_START) AND SLAB_PAGE_START \<noteq> 0" by (metis bit_0_eq bot_apply bot_bool_def)
  have "\<not> bit ((of_nat n :: 64 word) OR SLAB_PAGE_START) 62" unfolding bit_or_iff s using n by simp
  moreover have "bit SLAB_PAGE_BUSY 62" using slab_busy_iff [of SLAB_PAGE_BUSY] by simp
  ultimately show "((of_nat n :: 64 word) OR SLAB_PAGE_START) \<noteq> SLAB_PAGE_BUSY" by metis
  show "((of_nat n :: 64 word) OR SLAB_PAGE_START) AND NOT SLAB_PAGE_START = of_nat n"
    by (rule bit_word_eqI) (unfold bit_and_iff bit_or_iff bit_not_iff s, use n in auto)
  show "(of_nat n :: 64 word) AND SLAB_PAGE_START = 0"
    by (rule bit_word_eqI) (unfold bit_and_iff s, use n in auto)
qed

lemma slab_count_bound: "slab_sizes_ok pool \<Longrightarrow> sl_count pool < 2 ^ 62"
proof -
  assume ok: "slab_sizes_ok pool"
  have "(2 :: nat) ^ 2 \<le> 2 ^ sl_page_shift pool" using ok by (intro power_increasing) (auto simp: slab_sizes_ok_def)
  then have "sl_count pool * 4 \<le> sl_count pool * 2 ^ sl_page_shift pool" by (intro mult_le_mono2) simp
  moreover have "sl_count pool * 2 ^ sl_page_shift pool < 2 ^ 64" using ok by (simp add: slab_sizes_ok_def)
  ultimately have "sl_count pool * 4 < 2 ^ 64" by (rule le_less_trans)
  then show ?thesis by simp
qed

section \<open>Giving an area back\<close>

definition slab_in_bitmap :: "slab_pool \<Rightarrow> slab_heads \<Rightarrow> nat \<Rightarrow> bool" where
  \<comment> \<open>an address among the chunks that hold the bitmap of a page\<close>
  "slab_in_bitmap pool H p \<longleftrightarrow>
     (\<exists>i k B. H i = Some (Chunk_Seg k B) \<and> ngx_slab_page_addr pool i \<le> p \<and>
        p < ngx_slab_page_addr pool i + slab_reserved (sl_page_shift pool) (sl_min_shift pool + k) * 2 ^ (sl_min_shift pool + k))"

definition slab_shrunk :: "slab_pool \<Rightarrow> slab_heads \<Rightarrow> nat \<times> nat \<Rightarrow> slab_pool \<Rightarrow> bool" where
  \<comment> \<open>the pool after an area came back\<close>
  "slab_shrunk pool H a pool' \<longleftrightarrow>
     slab_consts pool' = slab_consts pool \<and>
     (\<exists>H' F' L'. slab_inv pool' H' F' L' \<and> heads_areas pool H' = heads_areas pool H - {a} \<and>
        (\<forall>q. slab_in_bitmap pool H' q \<longrightarrow> slab_in_bitmap pool H q))"

lemma slab_shrunkI:
  assumes inv: "slab_inv pool H F L" and i: "H i = Some s" and a: "a \<in> seg_areas pool i s"
    and new: "slab_core pool' H' F' L'" "slab_consts pool' = slab_consts pool"
      "slab_kept (H(i \<mapsto> t)) H'" "seg_areas pool i t = seg_areas pool i s - {a}" "\<And>k. t \<noteq> Chunk_Seg k {}"
      "\<And>k B. t = Chunk_Seg k B \<Longrightarrow> \<exists>C. s = Chunk_Seg k C"
  shows "slab_shrunk pool H a pool'"
proof -
  have core: "slab_core pool H F L" using inv by (simp add: slab_inv_def)
  have "a \<notin> heads_areas pool (H(i := None))"
    using heads_areas_other [OF core i, of "fst a" "snd a"] seg_areas_range [OF core i, of "fst a" "snd a"] a by fastforce
  moreover have "heads_areas pool H' = heads_areas pool (H(i := None)) \<union> (seg_areas pool i s - {a})"
    using heads_areas_kept [OF new(3)] heads_areas_upd [of pool H i t] new(4) by simp
  ultimately have "heads_areas pool H' = heads_areas pool H - {a}"
    using heads_areas_split [of H i s pool, OF i] by blast
  moreover have "H' j \<noteq> Some (Chunk_Seg k {})" for j k
  proof
    assume "H' j = Some (Chunk_Seg k {})"
    then have "(H(i \<mapsto> t)) j = Some (Chunk_Seg k {})" using new(3) by (simp add: slab_kept_def)
    then show False using inv new(5) by (cases "j = i") (auto simp: slab_inv_def)
  qed
  moreover have "\<exists>C. H j = Some (Chunk_Seg k C)" if "H' j = Some (Chunk_Seg k B)" for j k B
  proof -
    have "(H(i \<mapsto> t)) j = Some (Chunk_Seg k B)" using that new(3) by (simp add: slab_kept_def)
    then show ?thesis using new(6) i by (cases "j = i") auto
  qed
  then have "slab_in_bitmap pool H' q \<longrightarrow> slab_in_bitmap pool H q" for q
    unfolding slab_in_bitmap_def by meson
  ultimately show ?thesis using new(1,2) unfolding slab_shrunk_def slab_inv_def by blast
qed

lemma slab_free_used_page:
  assumes inv: "slab_inv pool H F L" and i: "H i = Some (Used_Seg n)"
  shows "\<exists>pool'. ngx_slab_free_locked pool (ngx_slab_page_addr pool i) = (None, pool') \<and>
    slab_shrunk pool H (ngx_slab_page_addr pool i, n * 2 ^ sl_page_shift pool) pool'"
proof -
  have core: "slab_core pool H F L" using inv by (simp add: slab_inv_def)
  note d = slab_coreD [OF core] note tiles = slab_pages_okD(1) [OF d(1)]
  let ?pool = "ngx_slab_free_pages pool i (of_nat n)" let ?H = "H(i \<mapsto> Free_Seg n)"
  have n: "0 < n" "i + n \<le> sl_count pool" using tilesD(1,2) [OF tiles i] by simp_all
  then have n62: "n < 2 ^ 62" using slab_count_bound [OF d(2)] by simp
  have desc: "p_slab pool (SPage i) = of_nat n OR SLAB_PAGE_START" "p_type pool (SPage i) = SLAB_PAGE"
    using slab_pages_okD(3) [OF d(1) i] by simp_all
  note w = slab_used_slab [OF n(1) n62]
  have "i < sl_count pool" using n by simp
  from slab_free_dispatch [OF d(2) this, of 0]
  have "ngx_slab_free_locked pool (ngx_slab_page_addr pool i) = slab_free_page pool (ngx_slab_page_addr pool i) i"
    by (simp add: desc)
  moreover have "ngx_slab_page_addr pool i mod 2 ^ sl_page_shift pool = 0" by (rule page_addr_mod [OF d(2)]) simp
  ultimately have eq: "ngx_slab_free_locked pool (ngx_slab_page_addr pool i) = (None, ?pool)"
    unfolding slab_free_page_def desc w(3) Let_def using w(1,2) by simp
  from slab_free_used_pages [OF d(1) i] obtain H' F' where
    f: "slab_pages_ok ?pool H' F'" "slab_kept ?H H'" "slab_same (slab_free_refs ?H) pool ?pool"
    by blast
  have tiles': "slab_tiles (sl_count pool) ?H" by (rule tiles_same [OF tiles i]) simp
  have chunk: "?H j = Some (Chunk_Seg k B) \<longleftrightarrow> H j = Some (Chunk_Seg k B)" for j k B using i by auto
  have "slab_same_chunks H H'" using f(2) chunk unfolding slab_same_chunks_def slab_kept_def by simp
  then have "slab_core ?pool H' F' L"
    using free_refs_chunk [OF tiles'] chunk by (intro slab_core_pages [OF core f(1,3)]) simp_all
  moreover have "slab_rest ?pool = slab_rest pool" using f(3) by (simp add: slab_same_def)
  then have "slab_consts ?pool = slab_consts pool" by (rule slab_rest_consts)
  ultimately have "slab_shrunk pool H (ngx_slab_page_addr pool i, n * 2 ^ sl_page_shift pool) ?pool"
    using f(2) by (intro slab_shrunkI [OF inv i, where t = "Free_Seg n"]) auto
  then show ?thesis using eq by blast
qed

lemma slab_free_pages_rest: "slab_rest (ngx_slab_free_pages pool i n) = slab_rest pool"
proof -
  have 1: "slab_rest (fst (slab_join_next i p n)) = slab_rest p" for p n
    by (simp add: slab_join_next_def Let_def slab_unlink_set_slab(6) slab_clear_def)
  have 2: "slab_rest (fst (snd (slab_join_prev i p n))) = slab_rest p" for p n
    by (simp add: slab_join_prev_def Let_def slab_unlink_set_slab(6) slab_clear_def)
  have 3: "slab_rest (slab_free_link r p n) = slab_rest p" for r p n
    by (simp add: slab_free_link_def Let_def)
  have 4: "slab_rest (slab_free_join p i n) = slab_rest p" for p n
    using 1 [of p n] 2 [of "fst (slab_join_next i p n)" "snd (slab_join_next i p n)"]
    by (simp add: slab_free_join_def split_beta 3)
  show ?thesis by (simp add: ngx_slab_free_pages_def Let_def 4 slab_unlink_set_slab(6) slab_zero_pages_desc)
qed

lemma slab_given_consts: "slab_consts (slab_given pool i k B c) = slab_consts pool"
proof -
  have "slab_consts (ngx_slab_free_pages p i n) = slab_consts p" for p n
    by (rule slab_rest_consts [OF slab_free_pages_rest])
  then show ?thesis by (simp add: slab_given_eq slab_unused_def slab_total_def)
qed

lemma slab_free_chunk:
  assumes inv: "slab_inv pool H F L" and i: "H i = Some (Chunk_Seg k B)" and c: "c \<in> B"
  defines "sh \<equiv> sl_min_shift pool + k"
  shows "\<exists>pool'. ngx_slab_free_locked pool (ngx_slab_page_addr pool i + c * 2 ^ sh) = (None, pool') \<and>
    slab_shrunk pool H (ngx_slab_page_addr pool i + c * 2 ^ sh, 2 ^ sh) pool'"
proof -
  have core: "slab_core pool H F L" using inv by (simp add: slab_inv_def)
  note d = slab_coreD [OF core] note pg = slab_core_page [OF core i]
  have cf: "slab_reserved (sl_page_shift pool) sh \<le> c" "c < slab_chunks (sl_page_shift pool) sh"
    using pg(4) c by (auto simp: slab_full_def sh_def)
  have "c * 2 ^ sh < slab_chunks (sl_page_shift pool) sh * 2 ^ sh" using cf(2) by simp
  also have "\<dots> = 2 ^ sl_page_shift pool" using pg(5) by (simp add: sh_def slab_chunks_power power_add [symmetric])
  finally have x: "c * 2 ^ sh < 2 ^ sl_page_shift pool" .
  have eq: "ngx_slab_free_locked pool (ngx_slab_page_addr pool i + c * 2 ^ sh) = (None, slab_given pool i k B c)"
    using slab_free_chunk_page_eq [OF core i x, folded sh_def] cf(1) c by simp
  from slab_core_given [OF core i c] obtain H' F' L' where g: "slab_core (slab_given pool i k B c) H' F' L'"
    "slab_kept (H(i \<mapsto> if B - {c} = {} then Free_Seg 1 else Chunk_Seg k (B - {c}))) H'"
    by blast
  have areas: "seg_areas pool i (if B - {c} = {} then Free_Seg 1 else Chunk_Seg k (B - {c})) =
      seg_areas pool i (Chunk_Seg k B) - {(ngx_slab_page_addr pool i + c * 2 ^ sh, 2 ^ sh)}"
    by (cases "B - {c} = {}") (auto simp: sh_def)
  have "slab_shrunk pool H (ngx_slab_page_addr pool i + c * 2 ^ sh, 2 ^ sh) (slab_given pool i k B c)"
    by (rule slab_shrunkI [OF inv i _ g(1) slab_given_consts g(2) areas])
      (use c in \<open>auto simp: sh_def split: if_splits\<close>)
  then show ?thesis using eq by blast
qed

lemma slab_free_area:
  assumes inv: "slab_inv pool H F L" and a: "(p, n) \<in> heads_areas pool H"
  shows "\<exists>pool'. ngx_slab_free_locked pool p = (None, pool') \<and> slab_shrunk pool H (p, n) pool'"
proof -
  obtain i s where i: "H i = Some s" "(p, n) \<in> seg_areas pool i s" using a by (auto simp: heads_areas_def)
  show ?thesis
  proof (cases s)
    case (Used_Seg m)
    then show ?thesis using slab_free_used_page [OF inv] i by auto
  next
    case (Chunk_Seg k B)
    then obtain c where "c \<in> B" "p = ngx_slab_page_addr pool i + c * 2 ^ (sl_min_shift pool + k)" "n = 2 ^ (sl_min_shift pool + k)"
      using i(2) by auto
    then show ?thesis using slab_free_chunk [OF inv, of i k B c] i(1) Chunk_Seg by simp
  qed (use i(2) in simp)
qed

section \<open>Pointers that are refused\<close>

lemma slab_pages_type:
  \<comment> \<open>the descriptors of pages that are not cut into chunks\<close>
  assumes core: "slab_core pool H F L" and i: "H i = Some s" and j: "i \<le> j" "j < i + seg_len s"
  shows "seg_free s \<Longrightarrow> p_type pool (SPage j) = SLAB_PAGE \<and> p_slab pool (SPage j) AND SLAB_PAGE_START = 0"
    "s = Used_Seg n \<Longrightarrow> j \<noteq> i \<Longrightarrow> p_type pool (SPage j) = SLAB_PAGE \<and> p_slab pool (SPage j) = SLAB_PAGE_BUSY"
proof -
  note d = slab_coreD [OF core] note tiles = slab_pages_okD(1) [OF d(1)]
  note desc = slab_pages_okD(3) [OF d(1) i]
  show "p_type pool (SPage j) = SLAB_PAGE \<and> p_slab pool (SPage j) AND SLAB_PAGE_START = 0" if f: "seg_free s"
  proof -
    obtain m where s: "s = Free_Seg m" using f by (cases s) auto
    show ?thesis
    proof (cases "j = i")
      case True
      have "0 < m" "m < 2 ^ 62" using tilesD(1,2) [OF tiles i] s slab_count_bound [OF d(2)] by simp_all
      moreover have "p_type pool (SPage i) = SLAB_PAGE"
      proof -
        have "i \<in> set F" using slab_pages_okD(7) [OF d(1)] i s by blast
        then obtain xs ys where "F = xs @ i # ys" by (auto dest: split_list)
        then show ?thesis using slab_pages_okD(5) [OF d(1)] by (simp add: slab_list_append)
      qed
      ultimately show ?thesis using True desc s slab_used_slab(4) by simp
    next
      case False
      then show ?thesis using desc j s by (simp add: slab_inner_def)
    qed
  qed
  show "p_type pool (SPage j) = SLAB_PAGE \<and> p_slab pool (SPage j) = SLAB_PAGE_BUSY" if "s = Used_Seg n" "j \<noteq> i"
    using desc j that by (simp add: slab_inner_def)
qed

lemma slab_free_reject:
  assumes inv: "slab_inv pool H F L" and p: "p < ngx_slab_page_addr pool (sl_count pool) \<or> sl_end pool < p"
    "\<And>n. (p, n) \<notin> heads_areas pool H" "\<not> slab_in_bitmap pool H p"
  shows "\<exists>e. ngx_slab_free_locked pool p = (Some e, pool)"
proof (cases "p < sl_start pool \<or> sl_end pool < p")
  case True
  then show ?thesis by (auto simp: ngx_slab_free_locked_def)
next
  case False
  have core: "slab_core pool H F L" using inv by (simp add: slab_inv_def)
  note d = slab_coreD [OF core] note tiles = slab_pages_okD(1) [OF d(1)]
  obtain j x where j: "j < sl_count pool" "p = ngx_slab_page_addr pool j + x" "x < 2 ^ sl_page_shift pool"
    using slab_addr_cases [OF d(2), of p] p(1) False by auto
  note eq = slab_free_dispatch [OF d(2) j(1,3), folded j(2)]
  obtain i s where s: "H i = Some s" "i \<le> j" "j < i + seg_len s" using tiles_cover [OF tiles j(1)] by blast
  note ty = slab_pages_type [OF core s]
  have busy: "SLAB_PAGE_BUSY AND SLAB_PAGE_START \<noteq> 0" by simp
  show ?thesis
  proof (cases s)
    case (Free_Seg m)
    then show ?thesis using ty(1) unfolding eq by (simp add: slab_free_page_def Let_def)
  next
    case (Used_Seg m)
    show ?thesis
    proof (cases "j = i")
      case True
      have "p mod 2 ^ sl_page_shift pool = x" unfolding j(2) by (rule slab_addr_split [OF d(2) j(3)])
      moreover have "(ngx_slab_page_addr pool i, m * 2 ^ sl_page_shift pool) \<in> heads_areas pool H"
        using s(1) heads_areas_split [of H i s pool, OF s(1)] by (simp add: Used_Seg)
      then have "x \<noteq> 0" using p(2) True j(2) by (metis add.right_neutral)
      moreover have "p_type pool (SPage j) = SLAB_PAGE" using slab_pages_okD(3) [OF d(1) s(1)] Used_Seg True by simp
      ultimately show ?thesis unfolding eq by (simp add: slab_free_page_def)
    next
      case False
      then show ?thesis using ty(2) [OF Used_Seg False] busy unfolding eq by (simp add: slab_free_page_def Let_def)
    qed
  next
    case (Chunk_Seg k B)
    then have ij: "j = i" using s(2,3) by simp
    let ?sh = "sl_min_shift pool + k"
    have "slab_reserved (sl_page_shift pool) ?sh * 2 ^ ?sh \<le> x"
    proof (rule ccontr)
      assume "\<not> slab_reserved (sl_page_shift pool) ?sh * 2 ^ ?sh \<le> x"
      then have "slab_in_bitmap pool H p"
        unfolding slab_in_bitmap_def using s(1) Chunk_Seg ij j(2) by (intro exI [of _ i] exI [of _ k] exI [of _ B]) simp
      then show False using p(3) by blast
    qed
    note f = slab_free_chunk_page_eq [OF core s(1) [unfolded Chunk_Seg] j(3) this, folded j(2) [unfolded ij]]
    have "x div 2 ^ ?sh \<notin> B" if "x mod 2 ^ ?sh = 0"
    proof
      assume "x div 2 ^ ?sh \<in> B"
      then have "(ngx_slab_page_addr pool i + x div 2 ^ ?sh * 2 ^ ?sh, 2 ^ ?sh) \<in> heads_areas pool H"
        using s(1) Chunk_Seg unfolding heads_areas_def by fastforce
      moreover have "x div 2 ^ ?sh * 2 ^ ?sh = x" using that by (metis add.right_neutral div_mult_mod_eq)
      ultimately show False using p(2) j(2) ij by simp
    qed
    then show ?thesis using f by (auto split: if_splits)
  qed
qed

lemma seg_areas_not_bitmap:
  assumes core: "slab_core pool H F L" and a: "(p, n) \<in> heads_areas pool H"
  shows "\<not> slab_in_bitmap pool H p"
proof
  assume "slab_in_bitmap pool H p"
  then obtain i k B where i: "H i = Some (Chunk_Seg k B)" "ngx_slab_page_addr pool i \<le> p"
    "p < ngx_slab_page_addr pool i + slab_reserved (sl_page_shift pool) (sl_min_shift pool + k) * 2 ^ (sl_min_shift pool + k)"
    unfolding slab_in_bitmap_def by blast
  note pg = slab_core_page [OF core i(1)] note d = slab_coreD [OF core]
  let ?sh = "sl_min_shift pool + k"
  have "slab_reserved (sl_page_shift pool) ?sh * 2 ^ ?sh \<le> slab_chunks (sl_page_shift pool) ?sh * 2 ^ ?sh"
    using slab_chunk_counts(5) [OF d(2) _ pg(5)] by (intro mult_le_mono1) simp
  also have "\<dots> = 2 ^ sl_page_shift pool" using pg(5) by (simp add: slab_chunks_power power_add [symmetric])
  finally have "p < ngx_slab_page_addr pool (i + 1)" using i(3) by (simp add: ngx_slab_page_addr_def)
  then have "(p, n) \<notin> heads_areas pool (H(i := None))"
    using heads_areas_other [OF core i(1), of p n] i(2) by auto
  then have "(p, n) \<in> seg_areas pool i (Chunk_Seg k B)"
    using a heads_areas_split [of H i _ pool, OF i(1)] by blast
  then obtain c where "c \<in> B" "p = ngx_slab_page_addr pool i + c * 2 ^ ?sh" by auto
  moreover from this have "slab_reserved (sl_page_shift pool) ?sh * 2 ^ ?sh \<le> c * 2 ^ ?sh"
    using pg(4) by (intro mult_le_mono1) (auto simp: slab_full_def)
  ultimately show False using i(3) by simp
qed

section \<open>An empty pool\<close>

lemma slab_nothing_used:
  assumes inv: "slab_inv pool H F L" and e: "heads_areas pool H = {}" and n: "0 < sl_count pool"
  shows "H = [0 \<mapsto> Free_Seg (sl_count pool)]"
proof -
  have core: "slab_core pool H F L" using inv by (simp add: slab_inv_def)
  note d = slab_coreD [OF core] note tiles = slab_pages_okD(1) [OF d(1)]
  have free: "\<exists>m. s = Free_Seg m" if "H i = Some s" for i s
  proof (cases s)
    case (Used_Seg m)
    then show ?thesis using heads_areas_split [of H i s pool, OF that] e by simp
  next
    case (Chunk_Seg k B)
    then have "B \<noteq> {}" using inv that by (auto simp: slab_inv_def)
    then show ?thesis using heads_areas_split [of H i s pool, OF that] e Chunk_Seg by simp
  qed simp
  have "H 0 \<noteq> None" using tiles n unfolding slab_tiles_def by blast
  then obtain m where m: "H 0 = Some (Free_Seg m)" using free by blast
  have "\<not> m < sl_count pool"
  proof
    assume "m < sl_count pool"
    then obtain s where "H m = Some s" using tilesD(4) [OF tiles m] by auto
    then show False using free [of m] m slab_pages_okD(4) [OF d(1)] by (fastforce simp: slab_coalesced_def)
  qed
  then have mN: "m = sl_count pool" using tilesD(2) [OF tiles m] by simp
  have "H j = None" if "j \<noteq> 0" for j
  proof (cases "j < m")
    case True
    then show ?thesis using tilesD(3) [OF tiles m, of j] that by simp
  next
    case False
    show ?thesis
    proof (rule ccontr)
      assume "H j \<noteq> None"
      then obtain s where "H j = Some s" by blast
      then show False using tilesD(1,2) [OF tiles, of j s] False mN by simp
    qed
  qed
  then show ?thesis using m mN by (auto simp: fun_eq_iff)
qed

end
