(* ===== verification/Ngx_Slab_View.thy ===== *)
theory Ngx_Slab_View
  imports Ngx_Slab_Free
begin

text \<open>
  What a slab pool in memory says of itself: the blocks read from its descriptors, the areas in
  use, the pool that \<open>ngx_slab_init\<close> makes, and the contract of the allocator.
\<close>

section \<open>Reading a pool\<close>

definition slab_block_at :: "slab_pool \<Rightarrow> nat \<Rightarrow> slab_seg" where
  \<comment> \<open>the block whose first page is \<open>i\<close>\<close>
  "slab_block_at pool i =
     (let slab = p_slab pool (SPage i); type = p_type pool (SPage i) in
      if type = SLAB_PAGE then
        (if slab AND SLAB_PAGE_START = 0 then Free_Seg (unat slab) else Used_Seg (unat (slab AND NOT SLAB_PAGE_START)))
      else
        let shift = (if type = SLAB_EXACT then ngx_slab_exact_shift (sl_page_shift pool) else unat (slab AND SLAB_SHIFT_MASK))
        in Chunk_Seg (shift - sl_min_shift pool) (Set.filter (slab_chunk_bit pool i shift) (slab_full pool shift)))"

function slab_blocks_from :: "slab_pool \<Rightarrow> nat \<Rightarrow> (nat \<times> slab_seg) list" where
  "slab_blocks_from pool i =
     (if sl_count pool \<le> i then []
      else (i, slab_block_at pool i) # slab_blocks_from pool (i + max 1 (seg_len (slab_block_at pool i))))"
  by pat_completeness auto
termination by (relation "measure (\<lambda>(pool, i). sl_count pool - i)") auto

declare slab_blocks_from.simps [simp del]

definition slab_blocks :: "slab_pool \<Rightarrow> slab_heads" where
  "slab_blocks pool = map_of (slab_blocks_from pool 0)"

definition slab_in_use :: "slab_pool \<Rightarrow> (nat \<times> nat) set" where
  \<comment> \<open>address and size of the areas given out\<close>
  "slab_in_use pool = (\<Union>(i, s) \<in> set (slab_blocks_from pool 0). seg_areas pool i s)"

definition slab_pool_ok :: "slab_pool \<Rightarrow> bool" where
  "slab_pool_ok pool \<longleftrightarrow> (\<exists>F L. slab_inv pool (slab_blocks pool) F L)"

lemma slab_block_at_eq:
  assumes core: "slab_core pool H F L" and i: "H i = Some s"
  shows "slab_block_at pool i = s"
proof -
  note d = slab_coreD [OF core] note tiles = slab_pages_okD(1) [OF d(1)]
  have n: "0 < seg_len s" "seg_len s < 2 ^ 62"
    using tilesD(1,2) [OF tiles i] slab_count_bound [OF d(2)] by simp_all
  note desc = slab_pages_okD(3) [OF d(1) i]
  have u: "unat (of_nat (seg_len s) :: 64 word) = seg_len s" using n(2) by (simp add: unat_of_nat take_bit_nat_eq_self)
  show ?thesis
  proof (cases s)
    case (Free_Seg m)
    then show ?thesis
      using slab_pages_type(1) [OF core i, of i] desc n u by (simp add: slab_block_at_def Let_def)
  next
    case (Used_Seg m)
    then show ?thesis
      using desc n u slab_used_slab [OF n] by (simp add: slab_block_at_def Let_def del: unat_of_nat)
  next
    case (Chunk_Seg k B)
    note i' = i [unfolded Chunk_Seg] note pg = slab_core_page [OF core i']
    note ch = slab_chunk_okD [OF d(3) [OF i']]
    let ?sh = "sl_min_shift pool + k" let ?ps = "sl_page_shift pool"
    have e: "ngx_slab_exact_shift ?ps = ?ps - 6"
      using d(2) by (intro slab_exact_sizes) (auto simp: slab_sizes_ok_def)
    have shift: "(if p_type pool (SPage i) = SLAB_EXACT then ngx_slab_exact_shift ?ps
        else unat (p_slab pool (SPage i) AND SLAB_SHIFT_MASK)) = ?sh"
      unfolding ch(3) e using slab_chunk_slab [OF d(2) d(3) [OF i']]
      by (cases rule: slab_kind_cases [of ?ps ?sh]) simp_all
    have "Set.filter (slab_chunk_bit pool i ?sh) (slab_full pool ?sh) = B"
      using ch(4) pg(4) by (auto simp: slab_full_def)
    then show ?thesis
      unfolding slab_block_at_def Let_def shift using ch(3) Chunk_Seg by simp
  qed
qed

lemma slab_blocks_from_eq:
  assumes core: "slab_core pool H F L"
  shows "i < sl_count pool \<longrightarrow> H i \<noteq> None \<Longrightarrow> map_of (slab_blocks_from pool i) = (\<lambda>j. if i \<le> j then H j else None)"
proof (induction "sl_count pool - i" arbitrary: i rule: less_induct)
  case less
  note tiles = slab_pages_okD(1) [OF slab_coreD(1) [OF core]]
  show ?case
  proof (cases "sl_count pool \<le> i")
    case True
    have "H j = None" if "i \<le> j" for j
      using tilesD(1,2) [OF tiles, of j] True that by (cases "H j") fastforce+
    then show ?thesis using True by (simp add: slab_blocks_from.simps fun_eq_iff)
  next
    case False
    then obtain s where s: "H i = Some s" using less.prems by auto
    note t = tilesD [OF tiles s]
    note at = slab_block_at_eq [OF core s]
    let ?n = "i + seg_len s"
    have "map_of (slab_blocks_from pool ?n) = (\<lambda>j. if ?n \<le> j then H j else None)"
      using t False by (intro less.hyps) auto
    moreover have "slab_blocks_from pool i = (i, s) # slab_blocks_from pool ?n"
      using False t(1) by (subst slab_blocks_from.simps) (simp add: at max_def)
    moreover have "H j = None" if "i < j" "\<not> ?n \<le> j" for j using t(3) that by simp
    ultimately show ?thesis using s by (auto simp: fun_eq_iff)
  qed
qed

lemma slab_blocks_eq:
  assumes core: "slab_core pool H F L"
  shows "slab_blocks pool = H"
proof -
  have "0 < sl_count pool \<longrightarrow> H 0 \<noteq> None"
    using slab_pages_okD(1) [OF slab_coreD(1) [OF core]] unfolding slab_tiles_def by blast
  then show ?thesis unfolding slab_blocks_def using slab_blocks_from_eq [OF core, of 0] by simp
qed

lemma slab_blocks_from_distinct: "distinct (map fst (slab_blocks_from pool i)) \<and> (\<forall>x \<in> set (slab_blocks_from pool i). i \<le> fst x)"
proof (induction "sl_count pool - i" arbitrary: i rule: less_induct)
  case less
  show ?case
  proof (cases "sl_count pool \<le> i")
    case True
    then show ?thesis by (simp add: slab_blocks_from.simps)
  next
    case False
    let ?n = "i + max 1 (seg_len (slab_block_at pool i))"
    have ih: "distinct (map fst (slab_blocks_from pool ?n)) \<and> (\<forall>x \<in> set (slab_blocks_from pool ?n). ?n \<le> fst x)"
      using False by (intro less.hyps) auto
    have "slab_blocks_from pool i = (i, slab_block_at pool i) # slab_blocks_from pool ?n"
      using False by (subst slab_blocks_from.simps) simp
    then show ?thesis using ih by fastforce
  qed
qed

lemma slab_in_use_eq: "slab_in_use pool = heads_areas pool (slab_blocks pool)"
proof -
  have "(i, s) \<in> set (slab_blocks_from pool 0) \<longleftrightarrow> slab_blocks pool i = Some s" for i s
    unfolding slab_blocks_def using slab_blocks_from_distinct [of pool 0] by (simp add: map_of_eq_Some_iff)
  then show ?thesis unfolding slab_in_use_def heads_areas_def by fast
qed

lemma slab_invD:
  assumes "slab_inv pool H F L"
  shows "slab_pool_ok pool" "slab_blocks pool = H" "slab_in_use pool = heads_areas pool H"
proof -
  show b: "slab_blocks pool = H" using assms slab_blocks_eq unfolding slab_inv_def by blast
  show "slab_pool_ok pool" using assms unfolding slab_pool_ok_def b by blast
  show "slab_in_use pool = heads_areas pool H" by (simp add: slab_in_use_eq b)
qed

section \<open>A new pool\<close>

definition slab_header :: "nat \<Rightarrow> nat \<Rightarrow> nat" where
  \<comment> \<open>the slots and their counters\<close>
  "slab_header page_shift min_shift = (page_shift - min_shift) * (24 + 32)"

lemma slab_init_sizes:
  assumes ps: "3 \<le> ms" "ms + 6 \<le> ps" "ps \<le> 16" and slots: "0 < slots"
    and room: "slots + slab_header ps ms + 2 * (2 ^ ps + 24) \<le> e" and e: "e < 2 ^ 64"
  defines "pool \<equiv> ngx_slab_init ps ms slots e"
  shows "slab_sizes_ok pool" "0 < sl_count pool" "sl_min_shift pool = ms" "sl_page_shift pool = ps" "sl_end pool = e"
    "slots + slab_header ps ms \<le> sl_start pool"
proof -
  define n where "n = ps - ms"
  define p where "p = slots + n * 24 + n * 32"
  define pages where "pages = (e - slots - n * (24 + 32)) div (2 ^ ps + 24)"
  define start where "start = (p + pages * 24 + (2 ^ ps - 1)) div 2 ^ ps * 2 ^ ps"
  define m where "m = int pages - int ((e - start) div 2 ^ ps)"
  have f: "sl_min_shift pool = ms" "sl_page_shift pool = ps" "sl_end pool = e" "sl_start pool = start"
    "sl_count pool = (if m > 0 then pages - nat m else pages)"
    unfolding pool_def ngx_slab_init_def Let_def n_def [symmetric] p_def [symmetric] pages_def [symmetric]
      start_def [symmetric] m_def [symmetric] by simp_all
  let ?u = "2 ^ ps :: nat"
  have p: "p = slots + slab_header ps ms" by (simp add: p_def slab_header_def n_def)
  have "e - slots - n * (24 + 32) = e - p" by (simp add: p_def)
  then have pages: "pages = (e - p) div (?u + 24)" by (simp add: pages_def)
  have fit: "pages * (?u + 24) \<le> e - p" unfolding pages by (rule div_times_less_eq_dividend)
  have two: "2 \<le> pages"
    unfolding pages using room p by (subst less_eq_div_iff_mult_less_eq) auto
  have up: "p + pages * 24 \<le> start" "start < p + pages * 24 + ?u"
  proof -
    have d: "start + (p + pages * 24 + (?u - 1)) mod ?u = p + pages * 24 + (?u - 1)"
      unfolding start_def by (rule div_mult_mod_eq)
    have "(p + pages * 24 + (?u - 1)) mod ?u < ?u" by simp
    then show "p + pages * 24 \<le> start" using d by linarith
    have "0 < ?u" by simp
    then show "start < p + pages * 24 + ?u" using d by linarith
  qed
  have ep: "p \<le> e" using room p by simp
  have "pages * ?u + pages * 24 \<le> e - p" using fit by (simp add: algebra_simps)
  moreover have "2 * ?u \<le> pages * ?u" using two by simp
  ultimately have se: "start + ?u \<le> e" using up(2) ep by linarith
  have cnt: "sl_count pool \<le> (e - start) div ?u" using f(5) by (auto simp: m_def)
  have one: "1 \<le> (e - start) div ?u" using se by (subst less_eq_div_iff_mult_less_eq) auto
  show "0 < sl_count pool" using f(5) two one by (auto simp: m_def split: if_splits)
  show "slots + slab_header ps ms \<le> sl_start pool" using up(1) f(4) p by simp
  have "sl_count pool * ?u \<le> e - start" using cnt by (simp add: less_eq_div_iff_mult_less_eq)
  then have "start + sl_count pool * ?u \<le> e" using se by linarith
  moreover have "0 < start" using up(1) slots p by simp
  moreover have "start mod ?u = 0" by (simp add: start_def)
  ultimately show "slab_sizes_ok pool" using ps e f by (simp add: slab_sizes_ok_def)
  show "sl_min_shift pool = ms" "sl_page_shift pool = ps" "sl_end pool = e" by (rule f)+
qed

lemma slab_init_inv:
  assumes ps: "3 \<le> ms" "ms + 6 \<le> ps" "ps \<le> 16" and slots: "0 < slots"
    and room: "slots + slab_header ps ms + 2 * (2 ^ ps + 24) \<le> e" and e: "e < 2 ^ 64"
  defines "pool \<equiv> ngx_slab_init ps ms slots e"
  shows "slab_inv pool [0 \<mapsto> Free_Seg (sl_count pool)] [0] (\<lambda>_. [])"
proof -
  note s = slab_init_sizes [OF assms(1-6), folded pool_def]
  let ?N = "sl_count pool" let ?H = "[0 \<mapsto> Free_Seg (sl_count pool)]"
  have desc: "p_next pool (SSlot k) = SSlot k" "p_next pool SFree = SPage 0" "p_next pool (SPage 0) = SFree"
    "p_link pool (SPage 0) = (SFree, SLAB_PAGE)" "p_slab pool (SPage 0) = of_nat ?N" "sl_pfree pool = of_nat ?N"
    "i \<noteq> 0 \<Longrightarrow> p_slab pool (SPage i) = 0 \<and> p_next pool (SPage i) = SNull \<and> p_type pool (SPage i) = SLAB_PAGE"
    "st_used (sl_stats pool k) = 0" "st_total (sl_stats pool k) = 0" for i k
    unfolding pool_def by (simp_all add: ngx_slab_init_def Let_def p_slab_def p_next_def p_link_def)
  have tiles: "slab_tiles ?N ?H" using s(2) by (auto simp: slab_tiles_def)
  have free: "slab_free_pages_of ?N ?H = ?N"
  proof -
    have "slab_free_pages_of ?N ?H = (\<Sum>i<?N. if i = 0 then ?N else 0)"
      unfolding slab_free_pages_of_def by (rule sum.cong) auto
    then show ?thesis using s(2) by simp
  qed
  have "slab_pages_ok pool ?H [0]"
    unfolding slab_pages_ok_def using tiles free slab_count_bound [OF s(1)] s(2)
    by (auto simp: desc slab_inner_def slab_coalesced_def)
  moreover have "slab_slots_ok (p_next pool) (p_link pool) (slab_slot_kind pool) (slab_slots pool) (\<lambda>_. [])"
    by (simp add: slab_slots_ok_def desc)
  moreover have "slab_counts_ok pool ?H"
  proof -
    have "slab_sum ?N f ?H = 0" if "f None = 0" "\<And>n. f (Some (Free_Seg n)) = 0" for f
      unfolding slab_sum_def using that by (intro sum.neutral) auto
    then show ?thesis by (simp add: slab_counts_ok_def desc)
  qed
  ultimately show ?thesis using s(1) by (auto simp: slab_inv_def slab_core_def)
qed

section \<open>The layout is a function of the areas in use\<close>

lemma slab_nonfree_unique:
  assumes inv: "slab_inv pool H F L" "slab_inv pool' H' F' L'" and c: "slab_consts pool' = slab_consts pool"
    and areas: "heads_areas pool H' = heads_areas pool H" and i: "H i = Some s" "\<not> seg_free s"
  shows "H' i = Some s"
proof -
  have core: "slab_core pool H F L" "slab_core pool' H' F' L'" using inv by (auto simp: slab_inv_def)
  note ce = slab_consts_eq [OF c]
  note t = slab_pages_okD(1) [OF slab_coreD(1) [OF core(1)]] slab_pages_okD(1) [OF slab_coreD(1) [OF core(2)]]
  let ?u = "2 ^ sl_page_shift pool :: nat" let ?addr = "ngx_slab_page_addr pool"
  have addr: "?addr x = ?addr y \<longleftrightarrow> x = y" for x y by (simp add: ngx_slab_page_addr_def)
  have big: "?u \<le> n * ?u" if "0 < n" for n using that by simp
  have small: "(2 :: nat) ^ (sl_min_shift pool + k) < ?u" if "H j = Some (Chunk_Seg k B) \<or> H' j = Some (Chunk_Seg k B)" for j k B
    using that slab_core_page(5) [OF core(1)] slab_core_page(5) [OF core(2)] unfolding ce
    by (auto intro: power_strict_increasing)
  have page: "a div ?u = (?addr j) div ?u" if "H0 = H \<or> H0 = H'" "H0 j = Some (Chunk_Seg k B)" "(a, n) \<in> seg_areas pool j (Chunk_Seg k B)" for H0 a j k B n
  proof -
    have rng: "?addr j \<le> a \<and> a < ?addr (j + 1)"
    proof -
      have "?addr j \<le> a \<and> a < ?addr (j + 1)"
      proof (cases "H0 = H")
        case True
        then have "H j = Some (Chunk_Seg k B)" using that(2) by simp
        from seg_areas_range [OF core(1) this that(3)] show ?thesis by simp
      next
        case False
        then have h: "H' j = Some (Chunk_Seg k B)" using that(1,2) by simp
        have "(a, n) \<in> seg_areas pool' j (Chunk_Seg k B)" unfolding seg_areas_consts [OF c] by (rule that(3))
        from seg_areas_range [OF core(2) h this] show ?thesis unfolding ce(8) by simp
      qed
      then show ?thesis .
    qed
    define x where "x = a - ?addr j"
    have "?addr (j + 1) = ?addr j + ?u" by (simp add: ngx_slab_page_addr_def)
    then have x: "a = ?addr j + x" "x < ?u" using rng unfolding x_def by linarith+
    have "?addr j mod ?u = 0" by (rule page_addr_mod [OF slab_coreD(2) [OF core(1)]]) simp
    then have "?u dvd ?addr j" by (simp add: mod_eq_0_iff_dvd)
    then show ?thesis using x by auto
  qed
  have same_page: "j = i" if "?addr j div ?u = ?addr i div ?u" for j
    using that by (simp add: ngx_slab_page_addr_def)
  show ?thesis
  proof (cases s)
    case (Used_Seg n)
    have n: "0 < n" using tilesD(1) [OF t(1) i(1)] Used_Seg by simp
    have "(?addr i, n * ?u) \<in> heads_areas pool H'"
      unfolding areas using heads_areas_split [of H i s pool, OF i(1)] Used_Seg by simp
    then obtain j r where r: "H' j = Some r" "(?addr i, n * ?u) \<in> seg_areas pool j r" by (auto simp: heads_areas_def)
    show ?thesis
    proof (cases r)
      case (Used_Seg m)
      then show ?thesis using r \<open>s = Used_Seg n\<close> addr by auto
    next
      case (Chunk_Seg k B)
      then have "n * ?u = 2 ^ (sl_min_shift pool + k)" using r by auto
      moreover have "(2 :: nat) ^ (sl_min_shift pool + k) < ?u" using small r(1) Chunk_Seg by blast
      ultimately show ?thesis using big [OF n] by linarith
    qed (use r in simp)
  next
    case (Chunk_Seg k B)
    note s = i(1) [unfolded Chunk_Seg]
    let ?v = "2 ^ (sl_min_shift pool + k) :: nat"
    have ne: "B \<noteq> {}" using inv(1) s by (auto simp: slab_inv_def)
    have to: "\<exists>B'. H' i = Some (Chunk_Seg k B') \<and> x \<in> B'" if x: "x \<in> B" for x
    proof -
      have a: "(?addr i + x * ?v, ?v) \<in> seg_areas pool i (Chunk_Seg k B)" using x by simp
      then have "(?addr i + x * ?v, ?v) \<in> heads_areas pool H'"
        unfolding areas using heads_areas_split [of H i s pool, OF i(1)] Chunk_Seg by blast
      then obtain j r where r: "H' j = Some r" "(?addr i + x * ?v, ?v) \<in> seg_areas pool j r" by (auto simp: heads_areas_def)
      show ?thesis
      proof (cases r)
        case (Used_Seg m)
        then have "0 < m" using tilesD(1) [OF t(2) r(1)] by simp
        moreover have "m * ?u = ?v" using r Used_Seg by auto
        moreover have "?v < ?u" using small s by blast
        ultimately show ?thesis using big [of m] by linarith
      next
        case (Chunk_Seg k' B')
        then have ji: "j = i" using page [of H i k B, OF _ s a] page [of H' j k' B'] r by (intro same_page) auto
        moreover have "k' = k" using r Chunk_Seg by auto
        ultimately show ?thesis using r Chunk_Seg by auto
      qed (use r in simp)
    qed
    obtain B' where B': "H' i = Some (Chunk_Seg k B')" using to ne by blast
    have "x \<in> B" if x: "x \<in> B'" for x
    proof -
      have a: "(?addr i + x * ?v, ?v) \<in> seg_areas pool i (Chunk_Seg k B')" using x by simp
      then have "(?addr i + x * ?v, ?v) \<in> heads_areas pool H"
        unfolding areas [symmetric] using heads_areas_split [of H' i _ pool, OF B'] by blast
      then obtain j r where r: "H j = Some r" "(?addr i + x * ?v, ?v) \<in> seg_areas pool j r" by (auto simp: heads_areas_def)
      show ?thesis
      proof (cases r)
        case (Used_Seg m)
        then have "0 < m" using tilesD(1) [OF t(1) r(1)] by simp
        moreover have "m * ?u = ?v" using r Used_Seg by auto
        moreover have "?v < ?u" using small s by blast
        ultimately show ?thesis using big [of m] by linarith
      next
        case (Chunk_Seg k' C)
        then have "j = i" using page [of H' i k B', OF _ B' a] page [of H j k' C] r by (intro same_page) auto
        then show ?thesis using r s Chunk_Seg by auto
      qed (use r in simp)
    qed
    then have "B' = B" using to B' by auto
    then show ?thesis using B' Chunk_Seg by simp
  qed (use i(2) in simp)
qed

lemma slab_tiles_unique:
  assumes t: "slab_tiles N H" "slab_tiles N H'" and co: "slab_coalesced H" "slab_coalesced H'"
    and nf: "\<And>i s. \<not> seg_free s \<Longrightarrow> H i = Some s \<longleftrightarrow> H' i = Some s"
  shows "H i = H' i"
proof (induction i rule: less_induct)
  case (less i)
  have step: "\<exists>m. G' i = Some (Free_Seg m) \<and> \<not> n < m"
    if g: "slab_tiles N G" "slab_tiles N G'" "slab_coalesced G" "\<And>i s. \<not> seg_free s \<Longrightarrow> G i = Some s \<longleftrightarrow> G' i = Some s"
      "\<And>j. j < i \<Longrightarrow> G j = G' j" "G i = Some (Free_Seg n)" for G G' n
  proof -
    have "G' i \<noteq> None"
    proof (cases "i = 0")
      case True
      have "0 < N" using tilesD(1,2) [OF g(1,6)] by simp
      then show ?thesis using g(2) True unfolding slab_tiles_def by blast
    next
      case False
      then obtain j s where j: "G j = Some s" "j + seg_len s = i" using tiles_before [OF g(1,6)] by auto
      then have "j < i" using tilesD(1) [OF g(1) j(1)] by simp
      then have "G' j = Some s" using g(5) j(1) by simp
      moreover have "i < N" using tilesD(1,2) [OF g(1,6)] by simp
      ultimately show ?thesis using tilesD(4) [OF g(2), of j s] j(2) by simp
    qed
    then obtain r where r: "G' i = Some r" by blast
    have "seg_free r"
    proof (rule ccontr)
      assume "\<not> seg_free r"
      then have "G i = Some r" using g(4) r by simp
      then show False using g(6) \<open>\<not> seg_free r\<close> by auto
    qed
    then obtain m where m: "r = Free_Seg m" by (cases r) auto
    have "\<not> n < m"
    proof
      assume lt: "n < m"
      have "i + n < N" using tilesD(2) [OF g(2) r] m lt by simp
      then obtain u where u: "G (i + n) = Some u" using tilesD(4) [OF g(1,6)] by auto
      have "\<not> seg_free u"
      proof
        assume "seg_free u"
        then obtain q where "u = Free_Seg q" by (cases u) auto
        then show False using g(3,6) u unfolding slab_coalesced_def by blast
      qed
      then have "G' (i + n) = Some u" using g(4) u by simp
      moreover have "G' (i + n) = None" using tilesD(1) [OF g(1,6)] tilesD(3) [OF g(2) r, of "i + n"] m lt by simp
      ultimately show False by simp
    qed
    then show ?thesis using r m by blast
  qed
  have nf': "\<And>i s. \<not> seg_free s \<Longrightarrow> H' i = Some s \<longleftrightarrow> H i = Some s" using nf by blast
  have sym: "\<And>j. j < i \<Longrightarrow> H' j = H j" using less by simp
  show ?case
  proof (cases "H i")
    case None
    show ?thesis
    proof (cases "H' i")
      case (Some s)
      then have "seg_free s" using nf' None by (metis option.distinct(1))
      then obtain n where "s = Free_Seg n" by (cases s) auto
      then show ?thesis using step [OF t(2,1) co(2) nf' sym] Some None by auto
    qed (use None in simp)
  next
    case (Some s)
    show ?thesis
    proof (cases "seg_free s")
      case True
      then obtain n where n: "s = Free_Seg n" by (cases s) auto
      obtain m where m: "H' i = Some (Free_Seg m)" "\<not> n < m" using step [OF t co(1) nf less] Some n by blast
      obtain q where "H i = Some (Free_Seg q)" "\<not> m < q" using step [OF t(2,1) co(2) nf' sym m(1)] by blast
      then show ?thesis using Some n m by simp
    next
      case False
      then show ?thesis using nf Some by metis
    qed
  qed
qed

lemma slab_layout_unique:
  assumes inv: "slab_inv pool H F L" "slab_inv pool' H' F' L'" and c: "slab_consts pool' = slab_consts pool"
    and areas: "heads_areas pool' H' = heads_areas pool H"
  shows "H' = H"
proof
  fix i
  have core: "slab_core pool H F L" "slab_core pool' H' F' L'" using inv by (auto simp: slab_inv_def)
  note d = slab_coreD(1) [OF core(1)] slab_coreD(1) [OF core(2)]
  have a: "heads_areas pool H' = heads_areas pool H" using areas heads_areas_consts [OF c] by simp
  have a': "heads_areas pool' H = heads_areas pool' H'" using areas heads_areas_consts [OF c] by simp
  have nf: "H' j = Some s \<longleftrightarrow> H j = Some s" if "\<not> seg_free s" for j s
    using slab_nonfree_unique [OF inv c a _ that] slab_nonfree_unique [OF inv(2,1) c [symmetric] a' _ that] by blast
  have "slab_tiles (sl_count pool) H'" using slab_pages_okD(1) [OF d(2)] slab_consts_eq(3) [OF c] by simp
  then show "H' i = H i"
    by (rule slab_tiles_unique [OF _ slab_pages_okD(1) [OF d(1)] slab_pages_okD(4) [OF d(2)] slab_pages_okD(4) [OF d(1)] nf])
qed

end
