(* ===== verification/Ngx_Slab_Contract.thy ===== *)
theory Ngx_Slab_Contract
  imports Ngx_Slab_View
begin

text \<open>
  The contract of the slab allocator, as a locale of what a client may rely on, its
  interpretation on the model of \<open>ngx_slab.c\<close>, and the properties of the allocator.
\<close>

section \<open>The contract of an allocator\<close>

datatype client_op = Take nat | Give nat   \<comment> \<open>a size, an index into what the client holds\<close>

fun client_run :: "('s \<Rightarrow> nat \<Rightarrow> (nat \<times> 's) option) \<Rightarrow> ('s \<Rightarrow> nat \<Rightarrow> 'e option \<times> 's) \<Rightarrow>
    client_op list \<Rightarrow> 's \<Rightarrow> nat list \<Rightarrow> ('s \<times> nat list) option" where
  \<comment> \<open>\<open>None\<close> when an allocation does not return or a release reports an error\<close>
  "client_run alloc release [] s held = Some (s, held)"
| "client_run alloc release (Take n # ops) s held =
     (case alloc s n of
        None \<Rightarrow> None
      | Some (p, s') \<Rightarrow> client_run alloc release ops s' (if p = 0 then held else p # held))"
| "client_run alloc release (Give j # ops) s held =
     (if j < length held then
        (case release s (held ! j) of
           (None, s') \<Rightarrow> client_run alloc release ops s' (take j held @ drop (Suc j) held)
         | (Some e, s') \<Rightarrow> None)
      else client_run alloc release ops s held)"

fun sizes_fit :: "client_op list \<Rightarrow> bool" where
  \<comment> \<open>sizes are of type \<open>size_t\<close>\<close>
  "sizes_fit [] = True"
| "sizes_fit (Take n # ops) \<longleftrightarrow> n < 2 ^ 64 \<and> sizes_fit ops"
| "sizes_fit (Give j # ops) \<longleftrightarrow> sizes_fit ops"

definition areas_apart :: "(nat \<times> nat) set \<Rightarrow> bool" where
  "areas_apart A \<longleftrightarrow> (\<forall>a n. (a, n) \<in> A \<longrightarrow> 0 < n \<and>
     (\<forall>b m. (b, m) \<in> A \<longrightarrow> (a, n) \<noteq> (b, m) \<longrightarrow> a + n \<le> b \<or> b + m \<le> a))"

lemma areas_apartD:
  assumes "areas_apart A" "(a, n) \<in> A" "(b, m) \<in> A"
  shows "0 < n" "(a, n) \<noteq> (b, m) \<Longrightarrow> a + n \<le> b \<or> b + m \<le> a" "a = b \<Longrightarrow> n = m"
proof -
  show n: "0 < n" using assms unfolding areas_apart_def by blast
  show d: "a + n \<le> b \<or> b + m \<le> a" if "(a, n) \<noteq> (b, m)" using assms that unfolding areas_apart_def by blast
  have m: "0 < m" using assms unfolding areas_apart_def by blast
  show "n = m" if "a = b"
  proof (rule ccontr)
    assume "n \<noteq> m"
    then have "a + n \<le> b \<or> b + m \<le> a" by (intro d) simp
    then show False using n m that by simp
  qed
qed

locale area_allocator =
  fixes valid :: "'s \<Rightarrow> bool" and used :: "'s \<Rightarrow> (nat \<times> nat) set"
    and alloc :: "'s \<Rightarrow> nat \<Rightarrow> (nat \<times> 's) option" and release :: "'s \<Rightarrow> nat \<Rightarrow> 'e option \<times> 's"
  assumes alloc_valid: "valid s \<Longrightarrow> n < 2 ^ 64 \<Longrightarrow> \<exists>p s'. alloc s n = Some (p, s') \<and> valid s' \<and>
      (p = 0 \<and> used s' = used s \<or> p \<noteq> 0 \<and> (\<exists>m \<ge> n. used s' = insert (p, m) (used s)) \<and> (\<forall>x. (p, x) \<notin> used s))"
    and release_valid: "valid s \<Longrightarrow> (p, n) \<in> used s \<Longrightarrow> \<exists>s'. release s p = (None, s') \<and> valid s' \<and> used s' = used s - {(p, n)}"
    and apart: "valid s \<Longrightarrow> areas_apart (used s)"
begin

lemma client_run_ok:
  assumes "valid s" "distinct held" "fst ` used s = set held" "sizes_fit ops"
  shows "\<exists>s' held'. client_run alloc release ops s held = Some (s', held') \<and> valid s' \<and> distinct held' \<and> fst ` used s' = set held'"
  using assms
proof (induction ops arbitrary: s held)
  case (Cons op ops)
  note valid = Cons.prems(1) and dist = Cons.prems(2) and held = Cons.prems(3)
  show ?case
  proof (cases op)
    case (Take n)
    obtain p s' where a: "alloc s n = Some (p, s')" "valid s'" and
      r: "p = 0 \<and> used s' = used s \<or> p \<noteq> 0 \<and> (\<exists>m \<ge> n. used s' = insert (p, m) (used s)) \<and> (\<forall>x. (p, x) \<notin> used s)"
      using alloc_valid [OF valid, of n] Cons.prems(4) Take by auto
    let ?h = "if p = 0 then held else p # held"
    have "fst ` used s' = set ?h"
    proof (cases "p = 0")
      case False
      then obtain m where "used s' = insert (p, m) (used s)" using r by blast
      then show ?thesis using False held by simp
    qed (use r held in simp)
    moreover have "distinct ?h"
    proof (cases "p = 0")
      case False
      then have "p \<notin> fst ` used s" using r by force
      then show ?thesis using False dist held by simp
    qed (use dist in simp)
    moreover have "sizes_fit ops" using Cons.prems(4) Take by simp
    ultimately show ?thesis using Cons.IH [OF a(2), of ?h] Take a(1) by simp
  next
    case (Give j)
    have fit: "sizes_fit ops" using Cons.prems(4) Give by simp
    show ?thesis
    proof (cases "j < length held")
      case True
      then have "held ! j \<in> fst ` used s" using held by simp
      then obtain n where n: "(held ! j, n) \<in> used s" by force
      obtain s' where s': "release s (held ! j) = (None, s')" "valid s'" "used s' = used s - {(held ! j, n)}"
        using release_valid [OF valid n] by blast
      let ?h = "take j held @ drop (Suc j) held"
      have h: "take j held @ held ! j # drop (Suc j) held = held" using True by (rule id_take_nth_drop [symmetric])
      have "distinct (take j held @ held ! j # drop (Suc j) held)" unfolding h by (rule dist)
      then have d: "distinct ?h" "held ! j \<notin> set ?h" by auto
      have sh: "set held = insert (held ! j) (set ?h)" using arg_cong [OF h, of set] by auto
      have "fst ` used s' = fst ` used s - {held ! j}"
      proof -
        have "fst x \<noteq> held ! j" if "x \<in> used s" "x \<noteq> (held ! j, n)" for x
          using areas_apartD(3) [OF apart [OF valid], of "fst x" "snd x" "held ! j" n] n that by (cases x) auto
        then show ?thesis unfolding s'(3) using n by force
      qed
      then have "fst ` used s' = set ?h" using held d sh by auto
      then show ?thesis using Cons.IH [OF s'(2) d(1) _ fit] s'(1) True Give by simp
    qed (use Cons.IH [OF valid dist held fit] Give in simp)
  qed
qed simp

end

section \<open>The slab allocator keeps it\<close>

lemma slab_pool_okE:
  assumes "slab_pool_ok pool"
  obtains F L where "slab_inv pool (slab_blocks pool) F L" "slab_core pool (slab_blocks pool) F L"
  using assms unfolding slab_pool_ok_def slab_inv_def by blast

lemma slab_alloc_cases:
  assumes ok: "slab_pool_ok pool" and sz: "sz < 2 ^ 64"
  shows "\<exists>p pool'. ngx_slab_alloc_locked pool sz = Some (p, pool') \<and> slab_pool_ok pool' \<and> slab_consts pool' = slab_consts pool \<and>
    (if slab_has_room pool (slab_blocks pool) sz
     then slab_in_use pool' = insert (p, slab_area_size pool sz) (slab_in_use pool) \<and> (\<forall>x. (p, x) \<notin> slab_in_use pool)
     else p = 0 \<and> slab_in_use pool' = slab_in_use pool \<and> slab_blocks pool' = slab_blocks pool)"
proof -
  obtain F L where inv: "slab_inv pool (slab_blocks pool) F L" by (rule slab_pool_okE [OF ok])
  let ?H = "slab_blocks pool"
  have "(\<exists>r. ngx_slab_alloc_locked pool sz = Some r \<and> slab_grown pool ?H sz r) \<and> slab_has_room pool ?H sz \<or>
    (\<exists>pool'. ngx_slab_alloc_locked pool sz = Some (0, pool') \<and> slab_inv pool' ?H F L \<and>
       slab_consts pool' = slab_consts pool \<and> \<not> slab_has_room pool ?H sz)"
  proof (cases "sz > ngx_slab_max_size (sl_page_shift pool)")
    case True
    then show ?thesis using slab_alloc_large [OF inv sz] inv by blast
  next
    case False
    then show ?thesis using slab_alloc_small [OF inv] by (simp add: not_less)
  qed
  then show ?thesis
  proof (elim disjE exE conjE)
    fix r assume r: "ngx_slab_alloc_locked pool sz = Some r" "slab_grown pool ?H sz r" and room: "slab_has_room pool ?H sz"
    obtain H' F' L' where g: "slab_consts (snd r) = slab_consts pool" "slab_inv (snd r) H' F' L'"
      "heads_areas pool H' = insert (fst r, slab_area_size pool sz) (heads_areas pool ?H)" "\<forall>x. (fst r, x) \<notin> heads_areas pool ?H"
      using r(2) unfolding slab_grown_def by blast
    have "slab_in_use (snd r) = insert (fst r, slab_area_size pool sz) (slab_in_use pool)"
      unfolding slab_in_use_eq slab_invD(2) [OF g(2)] heads_areas_consts [OF g(1)] g(3) ..
    then show ?thesis
      using r(1) room g(1,4) slab_invD(1) [OF g(2)] by (intro exI [of _ "fst r"] exI [of _ "snd r"]) (simp add: slab_in_use_eq)
  next
    fix pool' assume r: "ngx_slab_alloc_locked pool sz = Some (0, pool')" "slab_inv pool' ?H F L"
      "slab_consts pool' = slab_consts pool" and room: "\<not> slab_has_room pool ?H sz"
    have "slab_in_use pool' = slab_in_use pool"
      unfolding slab_in_use_eq slab_invD(2) [OF r(2)] heads_areas_consts [OF r(3)] ..
    then show ?thesis using r(1,3) room slab_invD(1,2) [OF r(2)] by simp
  qed
qed

lemma slab_area_size_ge:
  assumes "slab_sizes_ok pool"
  shows "sz \<le> slab_area_size pool sz"
proof (cases "sz > ngx_slab_max_size (sl_page_shift pool)")
  case True
  let ?u = "2 ^ sl_page_shift pool :: nat"
  have d: "sz div ?u * ?u + sz mod ?u = sz" by (rule div_mult_mod_eq)
  have "sz mod ?u < ?u" by simp
  then have "sz \<le> sz div ?u * ?u + (if sz mod ?u \<noteq> 0 then ?u else 0)" using d by (split if_split, intro conjI impI; linarith)
  then show ?thesis using True by (simp add: slab_area_size_def add_mult_distrib split: if_splits)
next
  case False
  then show ?thesis using slab_slot_shift_bounds(3) [OF assms] by (simp add: slab_area_size_def)
qed

lemma slab_in_use_apart:
  assumes "slab_pool_ok pool"
  shows "areas_apart (slab_in_use pool)" "(a, n) \<in> slab_in_use pool \<Longrightarrow> sl_start pool \<le> a \<and> a + n \<le> sl_end pool \<and> 0 < a"
proof -
  obtain F L where core: "slab_core pool (slab_blocks pool) F L" by (rule slab_pool_okE [OF assms])
  show "areas_apart (slab_in_use pool)"
    unfolding areas_apart_def slab_in_use_eq using heads_areas_disjoint [OF core] heads_areas_inside(4) [OF core] by blast
  show "(a, n) \<in> slab_in_use pool \<Longrightarrow> sl_start pool \<le> a \<and> a + n \<le> sl_end pool \<and> 0 < a"
    unfolding slab_in_use_eq using heads_areas_inside [OF core] by blast
qed

lemma slab_release_cases:
  assumes ok: "slab_pool_ok pool" and a: "(p, n) \<in> slab_in_use pool"
  shows "\<exists>pool'. ngx_slab_free_locked pool p = (None, pool') \<and> slab_pool_ok pool' \<and> slab_consts pool' = slab_consts pool \<and>
    slab_in_use pool' = slab_in_use pool - {(p, n)} \<and>
    (\<forall>q. slab_in_bitmap pool' (slab_blocks pool') q \<longrightarrow> slab_in_bitmap pool (slab_blocks pool) q)"
proof -
  obtain F L where inv: "slab_inv pool (slab_blocks pool) F L" by (rule slab_pool_okE [OF ok])
  obtain pool' where f: "ngx_slab_free_locked pool p = (None, pool')" "slab_shrunk pool (slab_blocks pool) (p, n) pool'"
    using slab_free_area [OF inv] a unfolding slab_in_use_eq by blast
  obtain H' F' L' where g: "slab_consts pool' = slab_consts pool" "slab_inv pool' H' F' L'"
    "heads_areas pool H' = heads_areas pool (slab_blocks pool) - {(p, n)}"
    "\<forall>q. slab_in_bitmap pool H' q \<longrightarrow> slab_in_bitmap pool (slab_blocks pool) q"
    using f(2) unfolding slab_shrunk_def by blast
  have "slab_in_use pool' = slab_in_use pool - {(p, n)}"
    unfolding slab_in_use_eq slab_invD(2) [OF g(2)] heads_areas_consts [OF g(1)] g(3) ..
  moreover have "slab_in_bitmap pool' H' q = slab_in_bitmap pool H' q" for q
    unfolding slab_in_bitmap_def slab_consts_eq [OF g(1)] ..
  ultimately show ?thesis using f(1) g(1,4) slab_invD(1,2) [OF g(2)] by simp
qed

interpretation slab: area_allocator "\<lambda>pool. slab_pool_ok pool \<and> slab_consts pool = c" slab_in_use
  ngx_slab_alloc_locked ngx_slab_free_locked for c
proof
  fix pool sz assume ok: "slab_pool_ok pool \<and> slab_consts pool = c" and sz: "(sz :: nat) < 2 ^ 64"
  have sizes: "slab_sizes_ok pool" using ok by (auto elim!: slab_pool_okE intro: slab_coreD(2))
  obtain p pool' where a: "ngx_slab_alloc_locked pool sz = Some (p, pool')" "slab_pool_ok pool'" "slab_consts pool' = slab_consts pool"
    "if slab_has_room pool (slab_blocks pool) sz
     then slab_in_use pool' = insert (p, slab_area_size pool sz) (slab_in_use pool) \<and> (\<forall>x. (p, x) \<notin> slab_in_use pool)
     else p = 0 \<and> slab_in_use pool' = slab_in_use pool \<and> slab_blocks pool' = slab_blocks pool"
    using slab_alloc_cases [OF conjunct1 [OF ok] sz] by blast
  have "p \<noteq> 0" if "slab_in_use pool' = insert (p, slab_area_size pool sz) (slab_in_use pool)"
    using slab_in_use_apart(2) [OF a(2), of p "slab_area_size pool sz"] that by simp
  then show "\<exists>p pool'. ngx_slab_alloc_locked pool sz = Some (p, pool') \<and> (slab_pool_ok pool' \<and> slab_consts pool' = c) \<and>
      (p = 0 \<and> slab_in_use pool' = slab_in_use pool \<or>
       p \<noteq> 0 \<and> (\<exists>m \<ge> sz. slab_in_use pool' = insert (p, m) (slab_in_use pool)) \<and> (\<forall>x. (p, x) \<notin> slab_in_use pool))"
    using a ok slab_area_size_ge [OF sizes, of sz] by (metis (full_types))
next
  fix pool p n assume "slab_pool_ok pool \<and> slab_consts pool = c" "(p, n) \<in> slab_in_use pool"
  then show "\<exists>pool'. ngx_slab_free_locked pool p = (None, pool') \<and> (slab_pool_ok pool' \<and> slab_consts pool' = c) \<and>
      slab_in_use pool' = slab_in_use pool - {(p, n)}"
    using slab_release_cases [of pool p n] by metis
qed (use slab_in_use_apart(1) in blast)

section \<open>Counters\<close>

lemma seg_areas_card:
  \<comment> \<open>the areas of one slot in a block\<close>
  assumes "slab_core pool H F L" "H i = Some s" "k < slab_slots pool"
  shows "card {a \<in> seg_areas pool i s. snd a = 2 ^ (sl_min_shift pool + k)} = slab_count_used k (Some s)"
proof (cases s)
  case (Used_Seg n)
  have "0 < n" using tilesD(1) [OF slab_pages_okD(1) [OF slab_coreD(1) [OF assms(1)]] assms(2)] Used_Seg by simp
  then have "(2 :: nat) ^ sl_page_shift pool \<le> n * 2 ^ sl_page_shift pool" by simp
  moreover have "(2 :: nat) ^ (sl_min_shift pool + k) < 2 ^ sl_page_shift pool" using assms(3) by (intro power_strict_increasing) auto
  ultimately have "n * 2 ^ sl_page_shift pool \<noteq> 2 ^ (sl_min_shift pool + k)" by linarith
  then have "{a \<in> seg_areas pool i s. snd a = 2 ^ (sl_min_shift pool + k)} = {}" using Used_Seg by auto
  then show ?thesis using Used_Seg by simp
next
  case (Chunk_Seg k' B)
  have "inj_on (\<lambda>c. (ngx_slab_page_addr pool i + c * 2 ^ (sl_min_shift pool + k'), 2 ^ (sl_min_shift pool + k') :: nat)) B"
    by (rule inj_onI) simp
  moreover have "{a \<in> seg_areas pool i s. snd a = 2 ^ (sl_min_shift pool + k)} = (if k' = k then seg_areas pool i s else {})"
    using Chunk_Seg by auto
  ultimately show ?thesis using Chunk_Seg by (auto simp: card_image)
qed simp

lemma slab_used_card:
  assumes core: "slab_core pool H F L" and k: "k < slab_slots pool"
  shows "slab_sum (sl_count pool) (slab_count_used k) H = card {a \<in> heads_areas pool H. snd a = 2 ^ (sl_min_shift pool + k)}"
proof -
  let ?A = "\<lambda>i. case H i of None \<Rightarrow> {} | Some s \<Rightarrow> {a \<in> seg_areas pool i s. snd a = 2 ^ (sl_min_shift pool + k)}"
  note tiles = slab_pages_okD(1) [OF slab_coreD(1) [OF core]]
  have n: "i < sl_count pool" if "H i = Some s" for i s using tilesD(1,2) [OF tiles that] by simp
  have fin: "finite (?A i)" for i
  proof (cases "H i")
    case (Some s)
    have "finite (seg_areas pool i s)"
      by (cases s) (use Some slab_core_page(3) [OF core] in auto)
    then show ?thesis using Some by simp
  qed simp
  have dis: "?A i \<inter> ?A j = {}" if "i \<noteq> j" for i j
  proof (rule ccontr)
    assume "?A i \<inter> ?A j \<noteq> {}"
    then obtain a m where a: "(a, m) \<in> ?A i" "(a, m) \<in> ?A j" by auto
    then obtain s t where s: "H i = Some s" "(a, m) \<in> seg_areas pool i s" and t: "H j = Some t" "(a, m) \<in> seg_areas pool j t"
      by (cases "H i"; cases "H j") auto
    have "(a, m) \<in> heads_areas pool (H(i := None))"
      using t that unfolding heads_areas_def by (auto intro!: exI [of _ j])
    then show False
      using heads_areas_other [OF core s(1), of a m] seg_areas_range [OF core s] by auto
  qed
  have "{a \<in> heads_areas pool H. snd a = 2 ^ (sl_min_shift pool + k)} = (\<Union>i \<in> {..<sl_count pool}. ?A i)"
    using n by (fastforce simp: heads_areas_def split: option.splits)
  then have "card {a \<in> heads_areas pool H. snd a = 2 ^ (sl_min_shift pool + k)} = (\<Sum>i \<in> {..<sl_count pool}. card (?A i))"
    using fin dis by (simp add: card_UN_disjoint)
  also have "\<dots> = (\<Sum>i \<in> {..<sl_count pool}. slab_count_used k (H i))"
    using seg_areas_card [OF core _ k] by (intro sum.cong) (auto split: option.splits)
  finally show ?thesis by (simp add: slab_sum_def)
qed

section \<open>Properties\<close>

definition sample_slab :: slab_pool where
  \<comment> \<open>a pool of some fifteen pages\<close>
  "sample_slab = ngx_slab_init 12 3 4200 69632"

lemma sample_slab_inv: "slab_inv sample_slab [0 \<mapsto> Free_Seg (sl_count sample_slab)] [0] (\<lambda>_. [])"
  unfolding sample_slab_def by (rule slab_init_inv) (simp_all add: slab_header_def)

lemma sample_slab_sizes: "slab_sizes_ok sample_slab" "0 < sl_count sample_slab" "sl_page_shift sample_slab = 12" "sl_min_shift sample_slab = 3"
proof -
  have room: "4200 + slab_header 12 3 + 2 * (2 ^ 12 + 24) \<le> (69632 :: nat)" by (simp add: slab_header_def)
  note s = slab_init_sizes [OF _ _ _ _ room, folded sample_slab_def]
  show "slab_sizes_ok sample_slab" "0 < sl_count sample_slab" "sl_page_shift sample_slab = 12" "sl_min_shift sample_slab = 3"
    by (rule s; simp)+
qed

lemma sample_slab_ok: "slab_pool_ok sample_slab" "slab_in_use sample_slab = {}"
  "slab_blocks sample_slab = [0 \<mapsto> Free_Seg (sl_count sample_slab)]"
  using slab_invD [OF sample_slab_inv] by (auto simp: heads_areas_def split: if_splits)

lemma sample_slab_room: "slab_has_room sample_slab (slab_blocks sample_slab) 100"
proof -
  have "slab_area_size sample_slab 100 = 128"
  proof -
    have "slab_shift_loop 99 1 = 7" by (simp add: slab_shift_loop.simps)
    then show ?thesis by (simp add: slab_area_size_def slab_slot_shift_def sample_slab_sizes ngx_slab_max_size_def)
  qed
  then show ?thesis
    unfolding slab_has_room_def sample_slab_ok(3) sample_slab_sizes(3) using sample_slab_sizes(2) by auto
qed

lemma slab_area_align:
  assumes ok: "slab_pool_ok pool" and a: "(a, n) \<in> slab_in_use pool"
  shows "a mod min n (2 ^ sl_page_shift pool) = 0"
proof -
  obtain F L where core: "slab_core pool (slab_blocks pool) F L" by (rule slab_pool_okE [OF ok])
  note sizes = slab_coreD(2) [OF core]
  obtain i s where s: "slab_blocks pool i = Some s" "(a, n) \<in> seg_areas pool i s"
    using a unfolding slab_in_use_eq heads_areas_def by blast
  show ?thesis
  proof (cases s)
    case (Used_Seg m)
    have "0 < m" using tilesD(1) [OF slab_pages_okD(1) [OF slab_coreD(1) [OF core]] s(1)] Used_Seg by simp
    then have "2 ^ sl_page_shift pool \<le> n" using s(2) Used_Seg by simp
    then show ?thesis using s(2) Used_Seg page_addr_mod [OF sizes, of "sl_page_shift pool" i] by (simp add: min_def)
  next
    case (Chunk_Seg k B)
    have lt: "sl_min_shift pool + k < sl_page_shift pool" using slab_core_page(5) [OF core] s(1) Chunk_Seg by blast
    obtain c where c: "a = ngx_slab_page_addr pool i + c * 2 ^ (sl_min_shift pool + k)" "n = 2 ^ (sl_min_shift pool + k)"
      using s(2) Chunk_Seg by auto
    have "n \<le> 2 ^ sl_page_shift pool" unfolding c using lt by (intro power_increasing) auto
    moreover have "a mod n = 0" using page_addr_mod [OF sizes, of "sl_min_shift pool + k" i] lt c by simp
    ultimately show ?thesis by (simp add: min_def)
  qed (use s(2) in simp)
qed

text \<open>C16. An allocation from a valid pool always returns.  If there is a block of free pages or a
  free chunk for it, it gives an address such that the area of the rounded size is inside the pool, aligned
  to its size (to a page, when it is larger than that) and apart from every area in use; the areas in use grow by exactly
  that one.  Otherwise it gives \<open>NULL\<close> and changes neither the blocks nor the areas.  The pool stays valid.\<close>
theorem slab_alloc_correct:
  assumes "slab_pool_ok pool" "sz < 2 ^ 64"
  shows "\<exists>p pool'. ngx_slab_alloc_locked pool sz = Some (p, pool') \<and> slab_pool_ok pool' \<and>
    (if slab_has_room pool (slab_blocks pool) sz
     then slab_in_use pool' = insert (p, slab_area_size pool sz) (slab_in_use pool) \<and> sz \<le> slab_area_size pool sz \<and>
       0 < p \<and> sl_start pool \<le> p \<and> p + slab_area_size pool sz \<le> sl_end pool \<and>
       p mod min (slab_area_size pool sz) (2 ^ sl_page_shift pool) = 0 \<and>
       (\<forall>a n. (a, n) \<in> slab_in_use pool \<longrightarrow> a + n \<le> p \<or> p + slab_area_size pool sz \<le> a)
     else p = 0 \<and> slab_in_use pool' = slab_in_use pool \<and> slab_blocks pool' = slab_blocks pool)"
proof -
  have sizes: "slab_sizes_ok pool" using assms(1) by (auto elim!: slab_pool_okE intro: slab_coreD(2))
  obtain p pool' where a: "ngx_slab_alloc_locked pool sz = Some (p, pool')" "slab_pool_ok pool'" "slab_consts pool' = slab_consts pool"
    and r: "if slab_has_room pool (slab_blocks pool) sz
     then slab_in_use pool' = insert (p, slab_area_size pool sz) (slab_in_use pool) \<and> (\<forall>x. (p, x) \<notin> slab_in_use pool)
     else p = 0 \<and> slab_in_use pool' = slab_in_use pool \<and> slab_blocks pool' = slab_blocks pool"
    using slab_alloc_cases [OF assms] by blast
  show ?thesis
  proof (cases "slab_has_room pool (slab_blocks pool) sz")
    case True
    let ?a = "(p, slab_area_size pool sz)"
    have new: "slab_in_use pool' = insert ?a (slab_in_use pool)" "?a \<in> slab_in_use pool'" "\<forall>x. (p, x) \<notin> slab_in_use pool"
      using r True by simp_all
    have "x + n \<le> p \<or> p + slab_area_size pool sz \<le> x" if "(x, n) \<in> slab_in_use pool" for x n
      using areas_apartD(2) [OF slab_in_use_apart(1) [OF a(2)], of x n p "slab_area_size pool sz"] that new by auto
    then show ?thesis
      using a(1,2) True new(1) slab_area_size_ge [OF sizes] slab_in_use_apart(2) [OF a(2) new(2)] slab_area_align [OF a(2) new(2)]
      unfolding slab_consts_eq [OF a(3)] by auto
  qed (use a(1,2) r in simp)
qed

theorem slab_alloc_correct_witness:
  "\<exists>p pool'. ngx_slab_alloc_locked sample_slab 100 = Some (p, pool') \<and> slab_pool_ok pool' \<and> 0 < p \<and>
    slab_in_use pool' = {(p, slab_area_size sample_slab 100)}"
  using slab_alloc_correct [OF sample_slab_ok(1), of 100] sample_slab_room sample_slab_ok(2) by auto

lemma slab_area_gone:
  \<comment> \<open>the address of an area that was given back\<close>
  assumes ok: "slab_pool_ok pool" and a: "(p, n) \<in> slab_in_use pool"
    and f: "slab_pool_ok pool'" "slab_consts pool' = slab_consts pool" "slab_in_use pool' = slab_in_use pool - {(p, n)}"
      "\<forall>q. slab_in_bitmap pool' (slab_blocks pool') q \<longrightarrow> slab_in_bitmap pool (slab_blocks pool) q"
  shows "\<exists>e. ngx_slab_free_locked pool' p = (Some e, pool')"
proof -
  obtain F L where core: "slab_core pool (slab_blocks pool) F L" by (rule slab_pool_okE [OF ok])
  obtain F' L' where inv': "slab_inv pool' (slab_blocks pool') F' L'" by (rule slab_pool_okE [OF f(1)])
  have "p < ngx_slab_page_addr pool' (sl_count pool')"
    using heads_areas_inside(4,5) [OF core, of p n] a unfolding slab_in_use_eq slab_consts_eq [OF f(2)] by simp
  moreover have "(p, x) \<notin> heads_areas pool' (slab_blocks pool')" for x
    using areas_apartD(3) [OF slab_in_use_apart(1) [OF ok], of p x p n] a f(3) unfolding slab_in_use_eq [symmetric] by auto
  moreover have "\<not> slab_in_bitmap pool' (slab_blocks pool') p"
    using seg_areas_not_bitmap [OF core, of p n] a f(4) unfolding slab_in_use_eq by blast
  ultimately show ?thesis by (intro slab_free_reject [OF inv']) auto
qed

text \<open>C17. Freeing the address of an area in use reports no error, removes exactly that area from the
  areas in use and keeps the pool valid; freeing the same address again is detected, is reported as an error, and
  leaves the pool as it is.\<close>
theorem slab_free_correct:
  assumes "slab_pool_ok pool" "(p, n) \<in> slab_in_use pool"
  shows "\<exists>pool'. ngx_slab_free_locked pool p = (None, pool') \<and> slab_pool_ok pool' \<and>
    slab_in_use pool' = slab_in_use pool - {(p, n)} \<and> (\<exists>e. ngx_slab_free_locked pool' p = (Some e, pool'))"
proof -
  obtain pool' where "ngx_slab_free_locked pool p = (None, pool')" "slab_pool_ok pool'" "slab_consts pool' = slab_consts pool"
    "slab_in_use pool' = slab_in_use pool - {(p, n)}"
    "\<forall>q. slab_in_bitmap pool' (slab_blocks pool') q \<longrightarrow> slab_in_bitmap pool (slab_blocks pool) q"
    using slab_release_cases [OF assms] by blast
  then show ?thesis using slab_area_gone [OF assms] by blast
qed

lemma sample_slab_alloc:
  obtains p pool' where "ngx_slab_alloc_locked sample_slab 100 = Some (p, pool')" "slab_pool_ok pool'" "p \<noteq> 0"
    "slab_in_use pool' = {(p, slab_area_size sample_slab 100)}"
proof -
  obtain p pool' where a: "ngx_slab_alloc_locked sample_slab 100 = Some (p, pool')" "slab_pool_ok pool'"
    "slab_in_use pool' = {(p, slab_area_size sample_slab 100)}"
    using slab_alloc_cases [OF sample_slab_ok(1), of 100] sample_slab_room sample_slab_ok(2) by auto
  have "0 < p" using slab_in_use_apart(2) [OF a(2), of p] a(3) by simp
  then show ?thesis using that a by simp
qed

theorem slab_free_correct_witness:
  "\<exists>p pool' pool''. ngx_slab_alloc_locked sample_slab 100 = Some (p, pool') \<and> p \<noteq> 0 \<and>
    ngx_slab_free_locked pool' p = (None, pool'') \<and> slab_in_use pool'' = {} \<and> (\<exists>e. ngx_slab_free_locked pool'' p = (Some e, pool''))"
proof -
  obtain p pool' where a: "ngx_slab_alloc_locked sample_slab 100 = Some (p, pool')" "slab_pool_ok pool'" "p \<noteq> 0"
    "slab_in_use pool' = {(p, slab_area_size sample_slab 100)}"
    by (rule sample_slab_alloc)
  then show ?thesis using slab_free_correct [OF a(2), of p "slab_area_size sample_slab 100"] by auto
qed

text \<open>C18. A pointer below the end of the pages or above \<open>pool->end\<close> that is not the address of an area in use, and not in the
  bitmap at the start of a page of small chunks, is refused: outside of the pool, inside of an area, in a free page or on
  a free chunk, with an error and without a change of the pool.  The other addresses, from the end of the
  last page to \<open>pool->end\<close>, pass the guard of the code, and a descriptor that does not exist decides about them.\<close>
theorem slab_free_refuses:
  assumes "slab_pool_ok pool" "p < ngx_slab_page_addr pool (sl_count pool) \<or> sl_end pool < p"
    and "\<forall>n. (p, n) \<notin> slab_in_use pool" "\<not> slab_in_bitmap pool (slab_blocks pool) p"
  shows "\<exists>e. ngx_slab_free_locked pool p = (Some e, pool)"
proof -
  obtain F L where "slab_inv pool (slab_blocks pool) F L" by (rule slab_pool_okE [OF assms(1)])
  then show ?thesis using assms(2-4) unfolding slab_in_use_eq by (intro slab_free_reject) auto
qed

theorem slab_free_refuses_witness: "\<exists>e. ngx_slab_free_locked sample_slab (sl_start sample_slab + 8) = (Some e, sample_slab)"
proof -
  have "\<not> slab_in_bitmap sample_slab (slab_blocks sample_slab) p" for p
    by (simp add: slab_in_bitmap_def sample_slab_ok(3))
  moreover have "sl_start sample_slab + 8 < ngx_slab_page_addr sample_slab (sl_count sample_slab)"
    using sample_slab_sizes(2) by (simp add: ngx_slab_page_addr_def sample_slab_sizes(3))
  ultimately show ?thesis by (intro slab_free_refuses [OF sample_slab_ok(1)]) (simp_all add: sample_slab_ok(2))
qed

text \<open>Freeing what was allocated restores the pool: its blocks, that is the free pages, the pages that are given out and
  the chunks in use of each page, are again those from before the allocation, without fragmentation.\<close>
theorem slab_alloc_free_restores:
  assumes "slab_pool_ok pool" "sz < 2 ^ 64" "ngx_slab_alloc_locked pool sz = Some (p, pool')" "p \<noteq> 0"
  shows "\<exists>pool''. ngx_slab_free_locked pool' p = (None, pool'') \<and> slab_pool_ok pool'' \<and> slab_blocks pool'' = slab_blocks pool"
proof -
  have a: "slab_pool_ok pool'" "slab_consts pool' = slab_consts pool"
    "slab_in_use pool' = insert (p, slab_area_size pool sz) (slab_in_use pool)" "(p, slab_area_size pool sz) \<notin> slab_in_use pool"
    using slab_alloc_cases [OF assms(1,2)] assms(3,4) by (auto split: if_splits)
  obtain pool'' where f: "ngx_slab_free_locked pool' p = (None, pool'')" "slab_pool_ok pool''" "slab_consts pool'' = slab_consts pool'"
    "slab_in_use pool'' = slab_in_use pool' - {(p, slab_area_size pool sz)}"
    using slab_release_cases [OF a(1), of p "slab_area_size pool sz"] a(3) by blast
  obtain F L where inv: "slab_inv pool (slab_blocks pool) F L" by (rule slab_pool_okE [OF assms(1)])
  obtain F' L' where inv'': "slab_inv pool'' (slab_blocks pool'') F' L'" by (rule slab_pool_okE [OF f(2)])
  have "slab_in_use pool'' = slab_in_use pool" using f(4) a(3,4) by simp
  then have "slab_blocks pool'' = slab_blocks pool"
    using slab_layout_unique [OF inv inv''] a(2) f(3) by (simp add: slab_in_use_eq)
  then show ?thesis using f(1,2) by blast
qed

theorem slab_alloc_free_restores_witness:
  "\<exists>p pool' pool''. ngx_slab_alloc_locked sample_slab 100 = Some (p, pool') \<and> ngx_slab_free_locked pool' p = (None, pool'') \<and>
    slab_blocks pool'' = [0 \<mapsto> Free_Seg (sl_count sample_slab)]"
proof -
  obtain p pool' where a: "ngx_slab_alloc_locked sample_slab 100 = Some (p, pool')" "p \<noteq> 0"
    by (rule sample_slab_alloc)
  then show ?thesis using slab_alloc_free_restores [OF sample_slab_ok(1) _ a] by (auto simp: sample_slab_ok(3))
qed

text \<open>C15. Any client of a new pool that frees only what it holds, the pool being below \<open>2 ^ 64\<close>, with room for its header and two pages,
  pages of \<open>2 ^ 9\<close> to \<open>2 ^ 16\<close> bytes, chunks of 8 bytes or more and at most a 64th of a page, and sizes below \<open>2 ^ 64\<close>: whatever it asks for, in any order, no call fails to return
  and no release reports an error, the areas it holds never overlap and are exactly those in use, and when it holds
  nothing the pool is one block of all its pages again.\<close>
theorem slab_client_safe:
  assumes "3 \<le> ms" "ms + 6 \<le> ps" "ps \<le> 16" "0 < slots" "slots + slab_header ps ms + 2 * (2 ^ ps + 24) \<le> e" "e < 2 ^ 64"
    and "sizes_fit ops"
  shows "\<exists>pool held. client_run ngx_slab_alloc_locked ngx_slab_free_locked ops (ngx_slab_init ps ms slots e) [] = Some (pool, held) \<and>
    slab_pool_ok pool \<and> distinct held \<and> set held = fst ` slab_in_use pool \<and> areas_apart (slab_in_use pool) \<and>
    (held = [] \<longrightarrow> slab_blocks pool = [0 \<mapsto> Free_Seg (sl_count pool)] \<and> sl_pfree pool = of_nat (sl_count pool))"
proof -
  let ?p = "ngx_slab_init ps ms slots e"
  note inv = slab_init_inv [OF assms(1-6)]
  have "slab_in_use ?p = {}" using slab_invD(3) [OF inv] by (auto simp: heads_areas_def split: if_splits)
  then obtain pool held where r: "client_run ngx_slab_alloc_locked ngx_slab_free_locked ops ?p [] = Some (pool, held)"
    "slab_pool_ok pool" "slab_consts pool = slab_consts ?p" "distinct held" "fst ` slab_in_use pool = set held"
    using slab.client_run_ok [of ?p "slab_consts ?p" "[]" ops] slab_invD(1) [OF inv] assms(7) by auto
  obtain F L where p: "slab_inv pool (slab_blocks pool) F L" "slab_core pool (slab_blocks pool) F L" by (rule slab_pool_okE [OF r(2)])
  have "slab_blocks pool = [0 \<mapsto> Free_Seg (sl_count pool)] \<and> sl_pfree pool = of_nat (sl_count pool)" if "held = []"
  proof -
    have n: "0 < sl_count pool" using slab_init_sizes(2) [OF assms(1-6)] unfolding slab_consts_eq [OF r(3)] .
    have b: "slab_blocks pool = [0 \<mapsto> Free_Seg (sl_count pool)]"
      using slab_nothing_used [OF p(1) _ n] r(5) that by (simp add: slab_in_use_eq)
    have "slab_free_pages_of (sl_count pool) [0 \<mapsto> Free_Seg (sl_count pool)] = sl_count pool"
      using slab_free_pages_of_upd [of 0 "sl_count pool" Map.empty "Some (Free_Seg (sl_count pool))"] n
      by (simp add: slab_free_pages_of_def)
    then show ?thesis using slab_pages_okD(8) [OF slab_coreD(1) [OF p(2)]] b by simp
  qed
  then show ?thesis using r slab_in_use_apart(1) [OF r(2)] by blast
qed

theorem slab_client_safe_witness:
  "\<exists>pool held. client_run ngx_slab_alloc_locked ngx_slab_free_locked [Take 100, Take 5000, Give 1, Take 8]
      (ngx_slab_init 12 3 4200 69632) [] = Some (pool, held) \<and> slab_pool_ok pool \<and> areas_apart (slab_in_use pool)"
proof -
  have room: "4200 + slab_header 12 3 + 2 * (2 ^ 12 + 24) \<le> (69632 :: nat)" by (simp add: slab_header_def)
  show ?thesis
    using slab_client_safe [OF _ _ _ _ room, of "[Take 100, Take 5000, Give 1, Take 8]"] by auto
qed

text \<open>The counters are exact in every valid pool: the counter of free pages is the number of pages in free blocks,
  and the counter of chunks in use of a slot is the number of areas of the size of the slot.\<close>
theorem slab_counters_exact:
  assumes "slab_pool_ok pool" "k < slab_slots pool"
  shows "st_used (sl_stats pool k) = of_nat (card {a \<in> slab_in_use pool. snd a = 2 ^ (sl_min_shift pool + k)}) \<and>
    sl_pfree pool = of_nat (slab_free_pages_of (sl_count pool) (slab_blocks pool))"
proof
  obtain F L where core: "slab_core pool (slab_blocks pool) F L" by (rule slab_pool_okE [OF assms(1)])
  note d = slab_coreD [OF core]
  show "st_used (sl_stats pool k) = of_nat (card {a \<in> slab_in_use pool. snd a = 2 ^ (sl_min_shift pool + k)})"
    using d(7) slab_used_card [OF core assms(2)] assms(2) unfolding slab_counts_ok_def slab_in_use_eq by simp
  show "sl_pfree pool = of_nat (slab_free_pages_of (sl_count pool) (slab_blocks pool))" by (rule slab_pages_okD(8) [OF d(1)])
qed

theorem slab_counters_exact_witness: "st_used (sl_stats sample_slab 4) = of_nat (card {a \<in> slab_in_use sample_slab. snd a = 2 ^ 7})"
  using slab_counters_exact [OF sample_slab_ok(1), of 4] by (simp add: sample_slab_sizes)

end
