(* ===== verification/Limit_Req_Memory.thy ===== *)
theory Limit_Req_Memory
  imports Limit_Req_Service Ngx_Slab_Contract
begin

text \<open>
  The limiter on the memory it runs on: the lookup and the eviction of
  \<open>ngx_http_limit_req_module.c\<close> with their calls of the slab allocator of the zone, where the other
  theories of the limiter take the allocator as a parameter.  The address of an entry is that of the
  area the allocator gave; errors of the allocator are collected, as the code writes them to the log.
\<close>

section \<open>The operations\<close>

record lr_memory =
  mem_zone :: lr_zone
  mem_pool :: slab_pool
  mem_alerts :: "slab_error list"

definition mem_free :: "nat \<Rightarrow> lr_memory \<Rightarrow> lr_memory" where
  \<comment> \<open>\<open>ngx_slab_free_locked(ctx->shpool, node)\<close>\<close>
  "mem_free q m =
     (let (e, pool) = ngx_slab_free_locked (mem_pool m) q
      in m\<lparr>mem_pool := pool, mem_alerts := (case e of None \<Rightarrow> mem_alerts m | Some e \<Rightarrow> mem_alerts m @ [e])\<rparr>)"

definition mem_alloc :: "nat \<Rightarrow> lr_memory \<Rightarrow> (nat option \<times> lr_memory) option" where
  \<comment> \<open>\<open>ngx_slab_alloc_locked(ctx->shpool, size)\<close>\<close>
  "mem_alloc sz m = do {
     (p, pool) \<leftarrow> ngx_slab_alloc_locked (mem_pool m) sz;
     Some (if p = 0 then None else Some p, m\<lparr>mem_pool := pool\<rparr>)
   }"

function mem_expire :: "ngx_msec_t \<Rightarrow> ngx_uint_t \<Rightarrow> nat \<Rightarrow> lr_memory \<Rightarrow> lr_memory option" where
  \<comment> \<open>\<open>ngx_http_limit_req_expire\<close>\<close>
  "mem_expire now rate n m =
     (let sh = mem_zone m in
      if n < 3 then
        if ngx_queue_empty QHead (sh_queue sh) then Some m
        else do {
          q \<leftarrow> ngx_queue_data (ngx_queue_last QHead (sh_queue sh));
          lr \<leftarrow> sh_nodes sh q;
          if lr_count lr \<noteq> 0 then Some m
          else
            let ms = now - lr_last lr;
                ms = (if sint ms \<ge> 0 then ms else - ms);
                excess = lr_excess lr - rate * ms div 1000
            in if n \<noteq> 0 \<and> (sint ms < 60000 \<or> sint excess > 0) then Some m
               else do {
                 t \<leftarrow> ngx_rbtree_delete (sh_rbtree sh) q;
                 mem_expire now rate (Suc n)
                   (mem_free q (m\<lparr>mem_zone := sh\<lparr>sh_queue := lru_unlink q (sh_queue sh), sh_rbtree := t,
                                    sh_nodes := (sh_nodes sh)(q := None)\<rparr>\<rparr>))
               }
        }
      else Some m)"
  by pat_completeness auto
termination by (relation "measure (\<lambda>(_, _, n, _). 3 - n)") auto

declare mem_expire.simps [simp del]

definition mem_node :: "ngx_msec_t \<Rightarrow> ngx_uint_t \<Rightarrow> string \<Rightarrow> lr_memory \<Rightarrow> (nat option \<times> lr_memory) option" where
  \<comment> \<open>the memory of a new entry, with the eviction before and after a failure\<close>
  "mem_node now rate key m = do {
     m \<leftarrow> mem_expire now rate 1 m;
     (node, m) \<leftarrow> mem_alloc (lr_node_size key) m;
     case node of
       Some i \<Rightarrow> Some (Some i, m)
     | None \<Rightarrow> do {
         m \<leftarrow> mem_expire now rate 0 m;
         mem_alloc (lr_node_size key) m
       }
   }"

definition mem_lookup ::
    "ngx_msec_t \<Rightarrow> lr_limit \<Rightarrow> ngx_uint_t \<Rightarrow> string \<Rightarrow> bool \<Rightarrow> lr_ctx \<Rightarrow> lr_memory \<Rightarrow>
     (int \<times> ngx_uint_t \<times> lr_ctx \<times> lr_memory) option" where
  \<comment> \<open>\<open>ngx_http_limit_req_lookup\<close>\<close>
  "mem_lookup now limit hash key account ctx m = do {
     found \<leftarrow> lr_find (sh_nodes (mem_zone m)) hash key (sh_rbtree (mem_zone m));
     case found of
       Some i \<Rightarrow> do {
         lr \<leftarrow> sh_nodes (mem_zone m) i;
         (let (rc, e, ctx, sh) = lr_found now limit i lr account ctx (mem_zone m)
          in Some (rc, e, ctx, m\<lparr>mem_zone := sh\<rparr>))
       }
     | None \<Rightarrow> do {
         (node, m) \<leftarrow> mem_node now (ctx_rate ctx) key m;
         case node of
           None \<Rightarrow> Some (NGX_ERROR, 0, ctx, m)
         | Some i \<Rightarrow> do {
             sh \<leftarrow> lr_insert_new now hash key account i (mem_zone m);
             Some (if account then (NGX_OK, 0, ctx, m\<lparr>mem_zone := sh\<rparr>)
                   else (NGX_AGAIN, 0, ctx\<lparr>ctx_node := Some i\<rparr>, m\<lparr>mem_zone := sh\<rparr>))
           }
       }
   }"

section \<open>The memory of the entries\<close>

definition node_areas :: "slab_pool \<Rightarrow> lr_nodes \<Rightarrow> (nat \<times> nat) set" where
  "node_areas pool nodes = {(i, slab_area_size pool (lr_node_size (lr_data lr))) | i lr. nodes i = Some lr}"

definition mem_ok :: "(nat \<times> nat) set \<Rightarrow> lr_memory \<Rightarrow> bool" where
  \<comment> \<open>in use are the areas \<open>R\<close>, which are not of entries, and those of the entries, and no error was reported\<close>
  "mem_ok R m \<longleftrightarrow>
     slab_pool_ok (mem_pool m) \<and> mem_alerts m = [] \<and>
     slab_in_use (mem_pool m) = R \<union> node_areas (mem_pool m) (sh_nodes (mem_zone m)) \<and>
     (\<forall>i. sh_nodes (mem_zone m) i \<noteq> None \<longrightarrow> (\<forall>n. (i, n) \<notin> R))"

lemma slab_area_size_consts: "slab_consts pool' = slab_consts pool \<Longrightarrow> slab_area_size pool' n = slab_area_size pool n"
proof -
  assume "slab_consts pool' = slab_consts pool"
  note c = slab_consts_eq(1,2) [OF this]
  show ?thesis by (simp only: slab_area_size_def slab_slot_shift_def c)
qed

lemma node_areas_consts: "slab_consts pool' = slab_consts pool \<Longrightarrow> node_areas pool' nodes = node_areas pool nodes"
proof -
  assume c: "slab_consts pool' = slab_consts pool"
  have "slab_area_size pool' = slab_area_size pool" by (rule ext) (rule slab_area_size_consts [OF c])
  then show ?thesis by (simp only: node_areas_def)
qed

lemma node_areas_iff: "(i, a) \<in> node_areas pool nodes \<longleftrightarrow> (\<exists>lr. nodes i = Some lr \<and> a = slab_area_size pool (lr_node_size (lr_data lr)))"
  by (auto simp: node_areas_def)

lemma node_areas_same:
  assumes "\<And>i. map_option lr_data (nodes' i) = map_option lr_data (nodes i)"
  shows "node_areas pool nodes' = node_areas pool nodes"
proof -
  have e: "node_areas pool nodes = {(i, slab_area_size pool (lr_node_size d)) | i d. map_option lr_data (nodes i) = Some d}" for nodes
    by (auto simp: node_areas_def)
  show ?thesis unfolding e assms ..
qed

lemma mem_free_ok:
  assumes ok: "mem_ok R m" and q: "sh_nodes (mem_zone m) q = Some lr"
    and sh: "sh_nodes sh = (sh_nodes (mem_zone m))(q := None)"
  shows "mem_ok R (mem_free q (m\<lparr>mem_zone := sh\<rparr>))" "mem_zone (mem_free q (m\<lparr>mem_zone := sh\<rparr>)) = sh"
    "slab_consts (mem_pool (mem_free q (m\<lparr>mem_zone := sh\<rparr>))) = slab_consts (mem_pool m)"
proof -
  let ?n = "slab_area_size (mem_pool m) (lr_node_size (lr_data lr))"
  have d: "slab_pool_ok (mem_pool m)" "mem_alerts m = []"
    "slab_in_use (mem_pool m) = R \<union> node_areas (mem_pool m) (sh_nodes (mem_zone m))"
    "\<And>i n. sh_nodes (mem_zone m) i \<noteq> None \<Longrightarrow> (i, n) \<notin> R"
    using ok by (auto simp: mem_ok_def)
  have "(q, ?n) \<in> slab_in_use (mem_pool m)" using q by (auto simp: d(3) node_areas_def)
  then obtain pool' where f: "ngx_slab_free_locked (mem_pool m) q = (None, pool')" "slab_pool_ok pool'"
    "slab_consts pool' = slab_consts (mem_pool m)" "slab_in_use pool' = slab_in_use (mem_pool m) - {(q, ?n)}"
    using slab_release_cases [OF d(1)] by blast
  have m': "mem_free q (m\<lparr>mem_zone := sh\<rparr>) = m\<lparr>mem_zone := sh, mem_pool := pool'\<rparr>"
    using f(1) d(2) by (simp add: mem_free_def)
  have "node_areas (mem_pool m) (sh_nodes sh) = node_areas (mem_pool m) (sh_nodes (mem_zone m)) - {(q, ?n)}"
  proof (intro set_eqI)
    fix x
    show "x \<in> node_areas (mem_pool m) (sh_nodes sh) \<longleftrightarrow> x \<in> node_areas (mem_pool m) (sh_nodes (mem_zone m)) - {(q, ?n)}"
      using q by (cases x, cases "fst x = q") (auto simp: node_areas_iff sh)
  qed
  moreover have "(q, ?n) \<notin> R" using d(4) q by simp
  ultimately have "slab_in_use pool' = R \<union> node_areas pool' (sh_nodes sh)"
    unfolding f(4) d(3) node_areas_consts [OF f(3)] by blast
  then show "mem_ok R (mem_free q (m\<lparr>mem_zone := sh\<rparr>))"
    using f(2) d(2,4) by (auto simp: mem_ok_def m' sh)
  show "mem_zone (mem_free q (m\<lparr>mem_zone := sh\<rparr>)) = sh"
    "slab_consts (mem_pool (mem_free q (m\<lparr>mem_zone := sh\<rparr>))) = slab_consts (mem_pool m)"
    by (simp_all add: m' f(3))
qed

lemma mem_expire_refines:
  assumes "mem_ok R m" "ngx_http_limit_req_expire now rate n (mem_zone m) = Some sh'"
  shows "\<exists>m'. mem_expire now rate n m = Some m' \<and> mem_zone m' = sh' \<and> mem_ok R m' \<and>
    slab_consts (mem_pool m') = slab_consts (mem_pool m)"
  using assms
proof (induction "3 - n" arbitrary: n m rule: less_induct)
  case less
  let ?sh = "mem_zone m"
  note ex = less.prems(2) [unfolded ngx_http_limit_req_expire.simps [of now rate n ?sh]]
  show ?case
  proof (cases "n < 3 \<and> \<not> ngx_queue_empty QHead (sh_queue ?sh)")
    case False
    then have "sh' = ?sh" using ex by (cases "n < 3") simp_all
    moreover have "mem_expire now rate n m = Some m" using False by (subst mem_expire.simps) (auto simp: Let_def)
    ultimately show ?thesis using less.prems(1) by blast
  next
    case True
    then obtain q lr where q: "ngx_queue_data (ngx_queue_last QHead (sh_queue ?sh)) = Some q" "sh_nodes ?sh q = Some lr"
      using ex by (auto simp: Let_def bind_eq_Some_conv)
    define stop where "stop \<longleftrightarrow> lr_count lr \<noteq> 0 \<or>
      (let ms = now - lr_last lr; ms = (if sint ms \<ge> 0 then ms else - ms); excess = lr_excess lr - rate * ms div 1000
       in n \<noteq> 0 \<and> (sint ms < 60000 \<or> sint excess > 0))"
    show ?thesis
    proof (cases stop)
      case stop: True
      have "sh' = ?sh" using ex True q stop by (auto simp: Let_def stop_def split: if_splits)
      moreover have "mem_expire now rate n m = Some m"
        using True q stop by (subst mem_expire.simps) (auto simp: Let_def stop_def)
      ultimately show ?thesis using less.prems(1) by blast
    next
      case go: False
      have "\<exists>t. ngx_rbtree_delete (sh_rbtree ?sh) q = Some t \<and> ngx_http_limit_req_expire now rate (Suc n)
          (?sh\<lparr>sh_queue := lru_unlink q (sh_queue ?sh), sh_rbtree := t, sh_nodes := (sh_nodes ?sh)(q := None)\<rparr>) = Some sh'"
        using ex True q go by (auto simp: Let_def stop_def bind_eq_Some_conv split: if_splits)
      then obtain t where t: "ngx_rbtree_delete (sh_rbtree ?sh) q = Some t" and e: "ngx_http_limit_req_expire now rate (Suc n)
          (?sh\<lparr>sh_queue := lru_unlink q (sh_queue ?sh), sh_rbtree := t, sh_nodes := (sh_nodes ?sh)(q := None)\<rparr>) = Some sh'"
        by blast
      define sh1 where "sh1 = ?sh\<lparr>sh_queue := lru_unlink q (sh_queue ?sh), sh_rbtree := t, sh_nodes := (sh_nodes ?sh)(q := None)\<rparr>"
      let ?m = "mem_free q (m\<lparr>mem_zone := sh1\<rparr>)"
      have "sh_nodes sh1 = (sh_nodes ?sh)(q := None)" by (simp add: sh1_def)
      note f = mem_free_ok [OF less.prems(1) q(2) this]
      have "mem_expire now rate n m = mem_expire now rate (Suc n) ?m"
        using True q t go by (subst mem_expire.simps) (auto simp: Let_def stop_def sh1_def)
      moreover have "\<exists>m'. mem_expire now rate (Suc n) ?m = Some m' \<and> mem_zone m' = sh' \<and> mem_ok R m' \<and>
          slab_consts (mem_pool m') = slab_consts (mem_pool ?m)"
        using True e f(1,2) by (intro less.hyps) (auto simp: sh1_def)
      ultimately show ?thesis using f(3) by simp
    qed
  qed
qed

lemma mem_alloc_ok:
  assumes ok: "mem_ok R m" and sz: "sz < 2 ^ 64"
  shows "\<exists>node m'. mem_alloc sz m = Some (node, m') \<and> mem_zone m' = mem_zone m \<and> slab_consts (mem_pool m') = slab_consts (mem_pool m) \<and>
    mem_alerts m' = [] \<and> slab_pool_ok (mem_pool m') \<and>
    (case node of
       None \<Rightarrow> mem_ok R m' \<and> slab_blocks (mem_pool m') = slab_blocks (mem_pool m) \<and>
         \<not> slab_has_room (mem_pool m) (slab_blocks (mem_pool m)) sz
     | Some i \<Rightarrow> (\<forall>n. (i, n) \<notin> slab_in_use (mem_pool m)) \<and> slab_has_room (mem_pool m) (slab_blocks (mem_pool m)) sz \<and>
         slab_in_use (mem_pool m') = insert (i, slab_area_size (mem_pool m) sz) (slab_in_use (mem_pool m)))"
proof -
  have d: "slab_pool_ok (mem_pool m)" using ok by (simp add: mem_ok_def)
  obtain p pool' where a: "ngx_slab_alloc_locked (mem_pool m) sz = Some (p, pool')" "slab_pool_ok pool'"
    "slab_consts pool' = slab_consts (mem_pool m)"
    "if slab_has_room (mem_pool m) (slab_blocks (mem_pool m)) sz
     then slab_in_use pool' = insert (p, slab_area_size (mem_pool m) sz) (slab_in_use (mem_pool m)) \<and> (\<forall>x. (p, x) \<notin> slab_in_use (mem_pool m))
     else p = 0 \<and> slab_in_use pool' = slab_in_use (mem_pool m) \<and> slab_blocks pool' = slab_blocks (mem_pool m)"
    using slab_alloc_cases [OF d sz] by blast
  show ?thesis
  proof (cases "slab_has_room (mem_pool m) (slab_blocks (mem_pool m)) sz")
    case True
    then have "p \<noteq> 0" using a(4) slab_in_use_apart(2) [OF a(2), of p] by auto
    then show ?thesis using a True ok by (simp add: mem_alloc_def mem_ok_def)
  next
    case False
    then show ?thesis using a ok node_areas_consts [OF a(3)] by (simp add: mem_alloc_def mem_ok_def)
  qed
qed

section \<open>The lookup\<close>

lemma slab_has_room_consts:
  assumes "slab_consts pool' = slab_consts pool"
  shows "slab_has_room pool' H sz = slab_has_room pool H sz"
  unfolding slab_has_room_def slab_area_size_consts [OF assms] slab_slot_shift_def slab_consts_eq [OF assms] ..

lemma slab_blocks_unique:
  assumes "slab_pool_ok pool" "slab_pool_ok pool'" "slab_consts pool' = slab_consts pool" "slab_in_use pool' = slab_in_use pool"
  shows "slab_blocks pool' = slab_blocks pool"
proof -
  obtain F L where inv: "slab_inv pool (slab_blocks pool) F L" by (rule slab_pool_okE [OF assms(1)])
  obtain F' L' where inv': "slab_inv pool' (slab_blocks pool') F' L'" by (rule slab_pool_okE [OF assms(2)])
  show ?thesis using slab_layout_unique [OF inv inv' assms(3)] assms(4) by (simp add: slab_in_use_eq)
qed

lemma mem_ok_fresh:
  assumes "mem_ok R m" "\<forall>n. (i, n) \<notin> slab_in_use (mem_pool m)"
  shows "sh_nodes (mem_zone m) i = None" "(i, n) \<notin> R"
proof -
  have u: "slab_in_use (mem_pool m) = R \<union> node_areas (mem_pool m) (sh_nodes (mem_zone m))" using assms(1) by (simp add: mem_ok_def)
  show "(i, n) \<notin> R" using assms(2) u by blast
  show "sh_nodes (mem_zone m) i = None"
  proof (rule ccontr)
    assume "sh_nodes (mem_zone m) i \<noteq> None"
    then obtain lr where "sh_nodes (mem_zone m) i = Some lr" by blast
    then have "(i, slab_area_size (mem_pool m) (lr_node_size (lr_data lr))) \<in> slab_in_use (mem_pool m)"
      unfolding u by (auto simp: node_areas_iff)
    then show False using assms(2) by blast
  qed
qed

lemma slab_ok_once:
  "nodes i = None \<Longrightarrow> slab_ok (\<lambda>nodes' sz'. if nodes' = nodes \<and> sz' = sz then Some i else None)"
  by (auto simp: slab_ok_def split: if_splits)

definition mem_reserved :: "(nat \<times> nat) set \<Rightarrow> nat \<Rightarrow> nat \<Rightarrow> lr_memory \<Rightarrow> bool" where
  \<comment> \<open>the area \<open>i\<close> is in use for an entry that is still to come\<close>
  "mem_reserved R i sz m \<longleftrightarrow>
     slab_pool_ok (mem_pool m) \<and> mem_alerts m = [] \<and> sh_nodes (mem_zone m) i = None \<and>
     slab_in_use (mem_pool m) = insert (i, slab_area_size (mem_pool m) sz) (R \<union> node_areas (mem_pool m) (sh_nodes (mem_zone m))) \<and>
     (\<forall>j. j = i \<or> sh_nodes (mem_zone m) j \<noteq> None \<longrightarrow> (\<forall>n. (j, n) \<notin> R))"

lemma mem_alloc_reserved:
  assumes ok: "mem_ok R m" and sz: "sz < 2 ^ 64" and a: "mem_alloc sz m = Some (Some i, m')"
  shows "mem_reserved R i sz m'" "sh_nodes (mem_zone m) i = None"
proof -
  have m': "mem_zone m' = mem_zone m" "slab_consts (mem_pool m') = slab_consts (mem_pool m)" "mem_alerts m' = []" "slab_pool_ok (mem_pool m')"
    "\<forall>n. (i, n) \<notin> slab_in_use (mem_pool m)"
    "slab_in_use (mem_pool m') = insert (i, slab_area_size (mem_pool m) sz) (slab_in_use (mem_pool m))"
    using mem_alloc_ok [OF ok sz] a by auto
  note f = mem_ok_fresh [OF ok m'(5)]
  show "sh_nodes (mem_zone m) i = None" by (rule f)
  show "mem_reserved R i sz m'"
    using ok f m'(1,3,4) unfolding mem_reserved_def m'(6) slab_area_size_consts [OF m'(2)] node_areas_consts [OF m'(2)]
    by (auto simp: mem_ok_def)
qed

lemma mem_node_refines:
  assumes ok: "mem_ok R m" and z: "zone_ok (mem_zone m)" and len: "length key \<le> 65535"
  shows "\<exists>alloc node m'. slab_ok alloc \<and> mem_node now rate key m = Some (node, m') \<and>
    lr_alloc alloc now rate key (mem_zone m) = Some (node, mem_zone m') \<and> slab_consts (mem_pool m') = slab_consts (mem_pool m) \<and>
    (case node of
       None \<Rightarrow> mem_ok R m' \<and> \<not> slab_has_room (mem_pool m') (slab_blocks (mem_pool m')) (lr_node_size key)
     | Some i \<Rightarrow> mem_reserved R i (lr_node_size key) m')"
proof -
  let ?s = "lr_node_size key"
  have s: "?s < 2 ^ 64" using len by (simp add: lr_node_size_def)
  obtain sh1 where e1: "ngx_http_limit_req_expire now rate 1 (mem_zone m) = Some sh1" using expire_total [OF z] by blast
  obtain m1 where m1: "mem_expire now rate 1 m = Some m1" "mem_zone m1 = sh1" "mem_ok R m1" "slab_consts (mem_pool m1) = slab_consts (mem_pool m)"
    using mem_expire_refines [OF ok e1] by blast
  obtain node m2 where a1: "mem_alloc ?s m1 = Some (node, m2)" "mem_zone m2 = mem_zone m1" "slab_consts (mem_pool m2) = slab_consts (mem_pool m1)"
    and r1: "case node of None \<Rightarrow> mem_ok R m2 \<and> slab_blocks (mem_pool m2) = slab_blocks (mem_pool m1) \<and>
        \<not> slab_has_room (mem_pool m1) (slab_blocks (mem_pool m1)) ?s
      | Some i \<Rightarrow> True"
    using mem_alloc_ok [OF m1(3) s] by (fastforce split: option.splits)
  show ?thesis
  proof (cases node)
    case (Some i)
    note res = mem_alloc_reserved [OF m1(3) s a1(1) [unfolded Some]]
    let ?alloc = "\<lambda>nodes sz. if nodes = sh_nodes sh1 \<and> sz = ?s then Some i else None"
    have "slab_ok ?alloc" using res(2) m1(2) by (intro slab_ok_once) simp
    moreover have "mem_node now rate key m = Some (Some i, m2)" using m1(1) a1(1) Some by (simp add: mem_node_def)
    moreover have "lr_alloc ?alloc now rate key (mem_zone m) = Some (Some i, mem_zone m2)"
      using e1 a1(2) m1(2) by (simp add: lr_alloc_def)
    ultimately show ?thesis using res(1) a1(3) m1(4) by (intro exI [of _ ?alloc] exI [of _ "Some i"] exI [of _ m2]) simp
  next
    case None
    have m2: "mem_ok R m2" "slab_blocks (mem_pool m2) = slab_blocks (mem_pool m1)" "\<not> slab_has_room (mem_pool m1) (slab_blocks (mem_pool m1)) ?s"
      using r1 None by simp_all
    have sh1: "mem_zone m2 = sh1" using a1(2) m1(2) by simp
    have z1: "zone_ok sh1" by (rule expire_cnt(1) [OF z e1])
    obtain sh2 where e2: "ngx_http_limit_req_expire now rate 0 sh1 = Some sh2" using expire_total [OF z1] by blast
    obtain m3 where m3: "mem_expire now rate 0 m2 = Some m3" "mem_zone m3 = sh2" "mem_ok R m3" "slab_consts (mem_pool m3) = slab_consts (mem_pool m2)"
      using mem_expire_refines [OF m2(1)] e2 sh1 by blast
    obtain node3 m4 where a3: "mem_alloc ?s m3 = Some (node3, m4)" "mem_zone m4 = mem_zone m3" "slab_consts (mem_pool m4) = slab_consts (mem_pool m3)"
      and r3: "case node3 of None \<Rightarrow> mem_ok R m4 \<and> slab_blocks (mem_pool m4) = slab_blocks (mem_pool m3) \<and>
          \<not> slab_has_room (mem_pool m3) (slab_blocks (mem_pool m3)) ?s
        | Some i \<Rightarrow> slab_has_room (mem_pool m3) (slab_blocks (mem_pool m3)) ?s"
      using mem_alloc_ok [OF m3(3) s] by (fastforce split: option.splits)
    have mn: "mem_node now rate key m = Some (node3, m4)" using m1(1) a1(1) None m3(1) a3(1) by (simp add: mem_node_def)
    have c: "slab_consts (mem_pool m4) = slab_consts (mem_pool m)" using a3(3) m3(4) a1(3) m1(4) by simp
    show ?thesis
    proof (cases node3)
      case n3: None
      have "lr_alloc (\<lambda>_ _. None) now rate key (mem_zone m) = Some (None, mem_zone m4)"
        using e1 e2 a3(2) m3(2) by (simp add: lr_alloc_def)
      moreover have "slab_ok (\<lambda>_ _. None)" by (simp add: slab_ok_def)
      moreover have "\<not> slab_has_room (mem_pool m4) (slab_blocks (mem_pool m4)) ?s"
        using r3 n3 slab_has_room_consts [OF a3(3)] by simp
      ultimately show ?thesis
        using mn n3 c r3 by (intro exI [of _ "\<lambda>_ _. None"] exI [of _ None] exI [of _ m4]) simp
    next
      case n3: (Some i)
      note res = mem_alloc_reserved [OF m3(3) s a3(1) [unfolded n3]]
      let ?alloc = "\<lambda>nodes sz. if nodes = sh_nodes sh2 \<and> sz = ?s then Some i else None"
      have "sh_nodes sh1 \<noteq> sh_nodes sh2"
      proof
        assume eq: "sh_nodes sh1 = sh_nodes sh2"
        have "slab_in_use (mem_pool m3) = slab_in_use (mem_pool m2)"
          using m3(2,3) m2(1) sh1 eq node_areas_consts [OF m3(4)] by (simp add: mem_ok_def)
        then have b: "slab_blocks (mem_pool m3) = slab_blocks (mem_pool m2)"
          using m2(1) m3(3,4) by (intro slab_blocks_unique) (simp_all add: mem_ok_def)
        have c31: "slab_consts (mem_pool m3) = slab_consts (mem_pool m1)" using m3(4) a1(3) by simp
        show False using r3 n3 m2(2,3) b slab_has_room_consts [OF c31] by simp
      qed
      then have "lr_alloc ?alloc now rate key (mem_zone m) = Some (Some i, mem_zone m4)"
        using e1 e2 a3(2) m3(2) by (simp add: lr_alloc_def)
      moreover have "slab_ok ?alloc" using res(2) m3(2) by (intro slab_ok_once) simp
      ultimately show ?thesis
        using mn n3 c res(1) by (intro exI [of _ ?alloc] exI [of _ "Some i"] exI [of _ m4]) simp
    qed
  qed
qed

lemma mem_ok_data:
  assumes "mem_ok R m" "\<And>j. map_option lr_data (sh_nodes sh j) = map_option lr_data (sh_nodes (mem_zone m) j)"
  shows "mem_ok R (m\<lparr>mem_zone := sh\<rparr>)"
proof -
  have "sh_nodes sh j = None \<longleftrightarrow> sh_nodes (mem_zone m) j = None" for j
    using assms(2) [of j] by (metis option.map_disc_iff)
  then show ?thesis using assms(1) node_areas_same [OF assms(2)] by (simp add: mem_ok_def)
qed

lemma lr_found_data:
  assumes "lr_found now limit i lr account ctx sh = (rc, e, ctx', sh')" "sh_nodes sh i = Some lr"
  shows "map_option lr_data (sh_nodes sh' j) = map_option lr_data (sh_nodes sh j)"
  using assms by (auto simp: lr_found_def Let_def split: if_splits)

lemma lr_insert_new_nodes:
  "lr_insert_new now hash key account i sh = Some sh' \<Longrightarrow>
   \<exists>lr. lr_data lr = key \<and> sh_nodes sh' = (sh_nodes sh)(i \<mapsto> lr)"
  by (intro exI [of _ "\<lparr>lr_key = hash, lr_len = word_of_nat (length key), lr_last = (if account then now else 0),
      lr_excess = 0, lr_count = (if account then 0 else 1), lr_data = key\<rparr>"])
    (auto simp: lr_insert_new_def Let_def bind_eq_Some_conv)

lemma mem_reserved_insert:
  assumes r: "mem_reserved R i (lr_node_size key) m" and sh: "sh_nodes sh = (sh_nodes (mem_zone m))(i \<mapsto> lr)" "lr_data lr = key"
  shows "mem_ok R (m\<lparr>mem_zone := sh\<rparr>)"
proof -
  have d: "slab_pool_ok (mem_pool m)" "mem_alerts m = []" "sh_nodes (mem_zone m) i = None"
    "slab_in_use (mem_pool m) = insert (i, slab_area_size (mem_pool m) (lr_node_size key)) (R \<union> node_areas (mem_pool m) (sh_nodes (mem_zone m)))"
    "\<And>j n. j = i \<or> sh_nodes (mem_zone m) j \<noteq> None \<Longrightarrow> (j, n) \<notin> R"
    using r by (auto simp: mem_reserved_def)
  have "node_areas (mem_pool m) (sh_nodes sh) =
      insert (i, slab_area_size (mem_pool m) (lr_node_size key)) (node_areas (mem_pool m) (sh_nodes (mem_zone m)))"
  proof (intro set_eqI)
    fix x
    show "x \<in> node_areas (mem_pool m) (sh_nodes sh) \<longleftrightarrow>
        x \<in> insert (i, slab_area_size (mem_pool m) (lr_node_size key)) (node_areas (mem_pool m) (sh_nodes (mem_zone m)))"
      using d(3) sh by (cases x, cases "fst x = i") (auto simp: node_areas_iff)
  qed
  then have "slab_in_use (mem_pool m) = R \<union> node_areas (mem_pool m) (sh_nodes sh)" using d(4) by blast
  then show ?thesis using d(1,2,5) by (auto simp: mem_ok_def sh)
qed

lemma mem_lookup_refines:
  assumes ok: "mem_ok R m" and z: "zone_ok (mem_zone m)" and len: "length key \<le> 65535"
  shows "\<exists>alloc rc e ctx' m'. slab_ok alloc \<and> mem_lookup now limit hash key account ctx m = Some (rc, e, ctx', m') \<and>
    ngx_http_limit_req_lookup alloc now limit hash key account ctx (mem_zone m) = Some (rc, e, ctx', mem_zone m') \<and>
    mem_ok R m' \<and> (rc = NGX_ERROR \<longrightarrow> \<not> slab_has_room (mem_pool m') (slab_blocks (mem_pool m')) (lr_node_size key))"
  using z
proof (cases rule: lr_find_zone [where hash = hash and key = key])
  case (1 i lr)
  obtain rc e ctx' sh' where res: "lr_found now limit i lr account ctx (mem_zone m) = (rc, e, ctx', sh')"
    by (metis prod_cases4)
  have "mem_ok R (m\<lparr>mem_zone := sh'\<rparr>)" by (rule mem_ok_data [OF ok lr_found_data [OF res 1(2)]])
  moreover have "rc \<noteq> NGX_ERROR" using lr_found_spec(2) [OF z 1(2) res] by auto
  moreover have "slab_ok (\<lambda>_ _. None)" by (simp add: slab_ok_def)
  ultimately show ?thesis
    using 1 res by (intro exI [of _ "\<lambda>_ _. None"] exI [of _ rc] exI [of _ e] exI [of _ ctx'] exI [of _ "m\<lparr>mem_zone := sh'\<rparr>"])
      (simp add: mem_lookup_def ngx_http_limit_req_lookup_def)
next
  case 2
  obtain alloc node m1 where a: "slab_ok alloc" "mem_node now (ctx_rate ctx) key m = Some (node, m1)"
    "lr_alloc alloc now (ctx_rate ctx) key (mem_zone m) = Some (node, mem_zone m1)"
    and r: "case node of None \<Rightarrow> mem_ok R m1 \<and> \<not> slab_has_room (mem_pool m1) (slab_blocks (mem_pool m1)) (lr_node_size key)
      | Some i \<Rightarrow> mem_reserved R i (lr_node_size key) m1"
    using mem_node_refines [OF ok z len, of now "ctx_rate ctx"] by blast
  show ?thesis
  proof (cases node)
    case None
    then show ?thesis
      using 2 a r by (intro exI [of _ alloc] exI [of _ NGX_ERROR] exI [of _ 0] exI [of _ ctx] exI [of _ m1])
        (simp add: mem_lookup_def ngx_http_limit_req_lookup_def)
  next
    case (Some i)
    obtain rc e ctx' sh' where l: "ngx_http_limit_req_lookup alloc now limit hash key account ctx (mem_zone m) = Some (rc, e, ctx', sh')"
      using lookup_spec [OF z a(1) len, of now limit hash account ctx] by blast
    then obtain sh2 where i: "lr_insert_new now hash key account i (mem_zone m1) = Some sh2"
      and eq: "(rc, e, ctx', sh') = (if account then (NGX_OK, 0, ctx, sh2) else (NGX_AGAIN, 0, ctx\<lparr>ctx_node := Some i\<rparr>, sh2))"
      using 2 a(3) Some by (auto simp: ngx_http_limit_req_lookup_def bind_eq_Some_conv)
    have "mem_ok R (m1\<lparr>mem_zone := sh2\<rparr>)"
      using lr_insert_new_nodes [OF i] r Some by (auto intro: mem_reserved_insert)
    moreover have "mem_lookup now limit hash key account ctx m = Some (rc, e, ctx', m1\<lparr>mem_zone := sh2\<rparr>)" "sh' = sh2" "rc \<noteq> NGX_ERROR"
      using 2 a(2) Some i eq by (auto simp: mem_lookup_def split: if_splits)
    ultimately show ?thesis using a(1) l
      by (intro exI [of _ alloc] exI [of _ rc] exI [of _ e] exI [of _ ctx'] exI [of _ "m1\<lparr>mem_zone := sh2\<rparr>"]) simp
  qed
qed

section \<open>Workers\<close>

record lr_memsys =
  ms_mem :: lr_memory
  ms_node :: "nat \<Rightarrow> nat option"
  ms_lost :: "nat \<Rightarrow> nat"

inductive mem_step :: "nat \<Rightarrow> lr_ctx \<Rightarrow> lr_memsys \<Rightarrow> lr_memsys \<Rightarrow> bool" for workers ctx where
  Mem_Lookup: "u < workers \<Longrightarrow> length key \<le> 65535 \<Longrightarrow>
    mem_lookup now limit hash key account (ctx\<lparr>ctx_node := ms_node s u\<rparr>) (ms_mem s) = Some (rc, e, ctx', m) \<Longrightarrow>
    mem_step workers ctx s
      \<lparr>ms_mem = m, ms_node = (ms_node s)(u := ctx_node ctx'), ms_lost = overwrite rc (ms_node s u) (ms_lost s)\<rparr>"
| Mem_Account: "u < workers \<Longrightarrow> ms_node s u = Some i \<Longrightarrow> sh_nodes (mem_zone (ms_mem s)) i = Some lr \<Longrightarrow>
    mem_step workers ctx s
      \<lparr>ms_mem = (ms_mem s)\<lparr>mem_zone := (mem_zone (ms_mem s))\<lparr>sh_nodes :=
         (sh_nodes (mem_zone (ms_mem s)))(i \<mapsto> lr_accounted now (ctx_rate ctx) lr)\<rparr>\<rparr>,
       ms_node = (ms_node s)(u := None), ms_lost = ms_lost s\<rparr>"
| Mem_Rollback: "u < workers \<Longrightarrow> ms_node s u = Some i \<Longrightarrow> sh_nodes (mem_zone (ms_mem s)) i = Some lr \<Longrightarrow>
    mem_step workers ctx s
      \<lparr>ms_mem = (ms_mem s)\<lparr>mem_zone := (mem_zone (ms_mem s))\<lparr>sh_nodes :=
         (sh_nodes (mem_zone (ms_mem s)))(i \<mapsto> lr_released lr)\<rparr>\<rparr>,
       ms_node = (ms_node s)(u := None), ms_lost = ms_lost s\<rparr>"

inductive_cases mem_stepE: "mem_step workers ctx s s'"

definition memsys_abs :: "lr_memsys \<Rightarrow> lr_sys" where
  \<comment> \<open>the system without its pool\<close>
  "memsys_abs s = \<lparr>sys_sh = mem_zone (ms_mem s), sys_node = ms_node s, sys_lost = ms_lost s\<rparr>"

lemma mem_step_sim:
  assumes step: "mem_step workers ctx s s'" and ok: "mem_ok R (ms_mem s)" and sys: "sys_ok workers (memsys_abs s)"
  shows "lr_step workers ctx (memsys_abs s) (memsys_abs s') \<and> mem_ok R (ms_mem s')"
  using step
proof cases
  case (Mem_Lookup u key now limit hash account rc e ctx' m)
  have z: "zone_ok (mem_zone (ms_mem s))" using sys by (simp add: sys_ok_def memsys_abs_def)
  obtain alloc where a: "slab_ok alloc" "ngx_http_limit_req_lookup alloc now limit hash key account (ctx\<lparr>ctx_node := ms_node s u\<rparr>)
      (mem_zone (ms_mem s)) = Some (rc, e, ctx', mem_zone m)" "mem_ok R m"
    using mem_lookup_refines [OF ok z Mem_Lookup(3), of now limit hash account "ctx\<lparr>ctx_node := ms_node s u\<rparr>"] Mem_Lookup(4) by auto
  have "lr_step workers ctx (memsys_abs s) \<lparr>sys_sh = mem_zone m, sys_node = (sys_node (memsys_abs s))(u := ctx_node ctx'),
      sys_lost = overwrite rc (sys_node (memsys_abs s) u) (sys_lost (memsys_abs s))\<rparr>"
    using Mem_Lookup a by (intro Lookup) (simp_all add: memsys_abs_def)
  then show ?thesis using Mem_Lookup(1) a(3) by (simp add: memsys_abs_def)
next
  case (Mem_Account u i lr now)
  have "lr_step workers ctx (memsys_abs s)
      \<lparr>sys_sh = (sys_sh (memsys_abs s))\<lparr>sh_nodes := (sh_nodes (sys_sh (memsys_abs s)))(i \<mapsto> lr_accounted now (ctx_rate ctx) lr)\<rparr>,
       sys_node = (sys_node (memsys_abs s))(u := None), sys_lost = sys_lost (memsys_abs s)\<rparr>"
    using Mem_Account by (intro Account) (simp_all add: memsys_abs_def)
  moreover have "mem_ok R (ms_mem s')"
    unfolding Mem_Account(1) lr_memsys.simps using Mem_Account(4) by (intro mem_ok_data [OF ok]) (simp add: lr_accounted_def Let_def)
  ultimately show ?thesis using Mem_Account(1) by (simp add: memsys_abs_def)
next
  case (Mem_Rollback u i lr)
  have "lr_step workers ctx (memsys_abs s)
      \<lparr>sys_sh = (sys_sh (memsys_abs s))\<lparr>sh_nodes := (sh_nodes (sys_sh (memsys_abs s)))(i \<mapsto> lr_released lr)\<rparr>,
       sys_node = (sys_node (memsys_abs s))(u := None), sys_lost = sys_lost (memsys_abs s)\<rparr>"
    using Mem_Rollback by (intro Rollback) (simp_all add: memsys_abs_def)
  moreover have "mem_ok R (ms_mem s')"
    unfolding Mem_Rollback(1) lr_memsys.simps using Mem_Rollback(4) by (intro mem_ok_data [OF ok]) (simp add: lr_released_def)
  ultimately show ?thesis using Mem_Rollback(1) by (simp add: memsys_abs_def)
qed

lemma mem_steps_sim:
  assumes "(mem_step workers ctx)\<^sup>*\<^sup>* s s'" "mem_ok R (ms_mem s)" "sys_ok workers (memsys_abs s)"
  shows "(lr_step workers ctx)\<^sup>*\<^sup>* (memsys_abs s) (memsys_abs s') \<and> mem_ok R (ms_mem s') \<and> sys_ok workers (memsys_abs s')"
  using assms(1)
proof (induction rule: rtranclp_induct)
  case (step s1 s2)
  then show ?case using mem_step_sim [OF step(2), of R] lr_step_ok by (meson rtranclp.rtrancl_into_rtrancl)
qed (use assms in simp)

section \<open>Properties\<close>

text \<open>C14. The lookup on the real allocator is the lookup of the limiter with an allocator that gives memory not in use:
  on every state in which the areas in use are the entries' and \<open>R\<close>, it returns, gives the same result, entry and queue,
  and keeps that equation, so that evicted entries are given back, new ones have an area of their own and nothing leaks; the
  allocator never reports an error, and the lookup fails for lack of memory only when the pool has no room after the eviction.\<close>
theorem lookup_memory_refines:
  assumes "mem_ok R m" "zone_ok (mem_zone m)" "length key \<le> 65535"
  shows "\<exists>alloc rc e ctx' m'. slab_ok alloc \<and> mem_lookup now limit hash key account ctx m = Some (rc, e, ctx', m') \<and>
    ngx_http_limit_req_lookup alloc now limit hash key account ctx (mem_zone m) = Some (rc, e, ctx', mem_zone m') \<and>
    mem_ok R m' \<and> zone_ok (mem_zone m') \<and>
    (rc = NGX_ERROR \<longrightarrow> \<not> slab_has_room (mem_pool m') (slab_blocks (mem_pool m')) (lr_node_size key))"
proof -
  obtain alloc rc e ctx' m' where l: "slab_ok alloc" "mem_lookup now limit hash key account ctx m = Some (rc, e, ctx', m')"
    "ngx_http_limit_req_lookup alloc now limit hash key account ctx (mem_zone m) = Some (rc, e, ctx', mem_zone m')"
    "mem_ok R m'" "rc = NGX_ERROR \<longrightarrow> \<not> slab_has_room (mem_pool m') (slab_blocks (mem_pool m')) (lr_node_size key)"
    using mem_lookup_refines [OF assms, of now limit hash account ctx] by blast
  moreover have "zone_ok (mem_zone m')"
    using lookup_spec [OF assms(2) l(1) assms(3), of now limit hash account ctx] l(3) by auto
  ultimately show ?thesis by blast
qed

definition sample_memory :: lr_memory where
  "sample_memory = \<lparr>mem_zone = sample_zone, mem_pool = sample_slab, mem_alerts = []\<rparr>"

lemma sample_memory_ok: "mem_ok {} sample_memory" "zone_ok (mem_zone sample_memory)"
  using sample_slab_ok(1,2) sample_zone_ok(1,2) by (simp_all add: mem_ok_def sample_memory_def node_areas_def)

theorem lookup_memory_refines_witness:
  "\<exists>rc e ctx' m'. mem_lookup 1000 sample_limit 5 ''k'' True \<lparr>ctx_sh = 1, ctx_rate = 1000, ctx_key = ''$k'', ctx_node = None\<rparr> sample_memory =
    Some (rc, e, ctx', m') \<and> mem_ok {} m' \<and> zone_ok (mem_zone m')"
  using lookup_memory_refines [OF sample_memory_ok, of "''k''" 1000 sample_limit 5 True
      "\<lparr>ctx_sh = 1, ctx_rate = 1000, ctx_key = ''$k'', ctx_node = None\<rparr>"]
  by auto

definition memsys_init :: "lr_memsys \<Rightarrow> bool" where
  \<comment> \<open>a zone as it is set up, in any valid pool\<close>
  "memsys_init s \<longleftrightarrow> sys_init (memsys_abs s) \<and> slab_pool_ok (mem_pool (ms_mem s)) \<and> mem_alerts (ms_mem s) = []"

text \<open>C13. Workers that share a zone in a slab pool, in any interleaving: the areas in use are at any time those of the start and one for
  each entry, all apart, so no entry is lost or freed twice and the allocator never reports an error; an entry that a worker notes is in
  the zone and its area in use, as long as the workers and the overwritten references to it are fewer than \<open>2 ^ 64\<close>.\<close>
theorem workers_memory_safe:
  assumes "memsys_init s" "(mem_step workers ctx)\<^sup>*\<^sup>* s s'"
  shows "slab_in_use (mem_pool (ms_mem s')) = slab_in_use (mem_pool (ms_mem s)) \<union>
      node_areas (mem_pool (ms_mem s')) (sh_nodes (mem_zone (ms_mem s'))) \<and>
    areas_apart (slab_in_use (mem_pool (ms_mem s'))) \<and> mem_alerts (ms_mem s') = [] \<and>
    (\<forall>u i. ms_node s' u = Some i \<and> workers + ms_lost s' i < 2 ^ 64 \<longrightarrow> (\<exists>lr. sh_nodes (mem_zone (ms_mem s')) i = Some lr \<and> lr_count lr \<noteq> 0 \<and>
       (i, slab_area_size (mem_pool (ms_mem s')) (lr_node_size (lr_data lr))) \<in> slab_in_use (mem_pool (ms_mem s'))))"
proof -
  let ?R = "slab_in_use (mem_pool (ms_mem s))"
  have init: "sys_init (memsys_abs s)" "slab_pool_ok (mem_pool (ms_mem s))" "mem_alerts (ms_mem s) = []"
    using assms(1) by (simp_all add: memsys_init_def)
  have "sh_nodes (mem_zone (ms_mem s)) = Map.empty"
    using init(1) by (auto simp: sys_init_def memsys_abs_def lr_empty_zone_def)
  then have "mem_ok ?R (ms_mem s)" using init by (simp add: mem_ok_def node_areas_def)
  from mem_steps_sim [OF assms(2) this sys_init_ok [OF init(1)]]
  have ok: "mem_ok ?R (ms_mem s')" "sys_ok workers (memsys_abs s')" by blast+
  have use: "slab_in_use (mem_pool (ms_mem s')) = ?R \<union> node_areas (mem_pool (ms_mem s')) (sh_nodes (mem_zone (ms_mem s')))"
    "slab_pool_ok (mem_pool (ms_mem s'))" "mem_alerts (ms_mem s') = []"
    using ok(1) by (simp_all add: mem_ok_def)
  have "\<exists>lr. sh_nodes (mem_zone (ms_mem s')) i = Some lr \<and> lr_count lr \<noteq> 0 \<and>
      (i, slab_area_size (mem_pool (ms_mem s')) (lr_node_size (lr_data lr))) \<in> slab_in_use (mem_pool (ms_mem s'))"
    if u: "ms_node s' u = Some i" "workers + ms_lost s' i < 2 ^ 64" for u i
  proof -
    have "sys_node (memsys_abs s') u = Some i" "workers + sys_lost (memsys_abs s') i < 2 ^ 64"
      using u by (simp_all add: memsys_abs_def)
    from held_entry [OF ok(2) this(2,1)] obtain lr where lr: "sh_nodes (sys_sh (memsys_abs s')) i = Some lr"
      "unat (lr_count lr) = card (holders workers (memsys_abs s') i) + sys_lost (memsys_abs s') i"
      "0 < card (holders workers (memsys_abs s') i)" by metis
    then have "unat (lr_count lr) \<noteq> 0" by linarith
    then have "sh_nodes (mem_zone (ms_mem s')) i = Some lr" "lr_count lr \<noteq> 0" using lr(1) by (auto simp: memsys_abs_def)
    then show ?thesis unfolding use(1) by (auto simp: node_areas_iff)
  qed
  then show ?thesis using use slab_in_use_apart(1) [OF use(2)] by blast
qed

theorem workers_memory_safe_witness:
  "\<exists>s s'. memsys_init s \<and> mem_step 2 \<lparr>ctx_sh = 1, ctx_rate = 1000, ctx_key = ''$k'', ctx_node = None\<rparr> s s' \<and>
    areas_apart (slab_in_use (mem_pool (ms_mem s'))) \<and> mem_alerts (ms_mem s') = []"
proof -
  let ?ctx = "\<lparr>ctx_sh = 1, ctx_rate = 1000, ctx_key = ''$k'', ctx_node = None\<rparr> :: lr_ctx"
  let ?s = "\<lparr>ms_mem = sample_memory, ms_node = (\<lambda>_. None), ms_lost = (\<lambda>_. 0)\<rparr> :: lr_memsys"
  have init: "memsys_init ?s"
    unfolding memsys_init_def sys_init_def sample_zone_def
    using sample_slab_ok(1)
    by (simp add: memsys_abs_def sample_memory_def sample_zone_def)
      (rule exI [of _ "\<lparr>sh_rbtree = Sentinel, sh_queue = \<lparr>prev_of = (\<lambda>_. QNull), next_of = (\<lambda>_. QNull)\<rparr>, sh_nodes = Map.empty\<rparr>"], simp)
  obtain rc e ctx' m' where "mem_lookup 1000 sample_limit 5 ''k'' False ?ctx sample_memory = Some (rc, e, ctx', m')"
    using mem_lookup_refines [OF sample_memory_ok, of "''k''" 1000 sample_limit 5 False ?ctx] by auto
  then have step: "mem_step 2 ?ctx ?s \<lparr>ms_mem = m', ms_node = (ms_node ?s)(0 := ctx_node ctx'), ms_lost = overwrite rc (ms_node ?s 0) (ms_lost ?s)\<rparr>"
    by (intro Mem_Lookup [where key = "''k''"]) simp_all
  have "areas_apart (slab_in_use (mem_pool m')) \<and> mem_alerts m' = []"
    using workers_memory_safe [OF init r_into_rtranclp [of "mem_step 2 ?ctx", OF step], unfolded lr_memsys.simps] by blast
  with init step show ?thesis by fastforce
qed

end
