(* ===== verification/Ngx_Escape.thy ===== *)
theory Ngx_Escape
  imports Ngx_Number
begin

text \<open>
  The encoders and decoders of \<open>nginx/src/core/ngx_string.c\<close>: base64, UTF-8 decoding,
  URI, HTML and JSON escaping.  A function the code calls twice, first with a null
  \<open>dst\<close> to learn the length and then with a buffer, is two definitions: the number
  returned and the characters written.
\<close>

section \<open>Bytes\<close>

definition byte :: "char \<Rightarrow> u_char" where
  "byte c = word_of_int (cval c)"

definition chr :: "u_char \<Rightarrow> char" where
  "chr w = char_of (unat w)"

lemma uint_byte [simp]: "uint (byte c) = cval c"
  by (simp add: byte_def uint_word_of_int)

lemma unat_byte: "unat (byte c) = of_char c"
proof -
  have "int (unat (byte c)) = int (of_char c)" by (simp add: cval_def)
  then show ?thesis by linarith
qed

lemma chr_byte [simp]: "chr (byte c) = c"
  by (simp add: chr_def unat_byte)

lemma byte_chr [simp]: "byte (chr w) = w"
proof (rule word_uint_eqI)
  have "unat w < 256" using unsigned_less [of w, where ?'a = nat] by simp
  then show "uint (byte (chr w)) = uint w" by (simp add: cval_def chr_def)
qed

lemma byte_eq_iff [simp]: "byte a = byte b \<longleftrightarrow> a = b"
  by (metis chr_byte)

section \<open>Base64\<close>

definition basis64 :: string where
  "basis64 = ''ABCDEFGHIJKLMNOPQRSTUVWXYZabcdefghijklmnopqrstuvwxyz0123456789+/''"

definition basis64url :: string where
  "basis64url = ''ABCDEFGHIJKLMNOPQRSTUVWXYZabcdefghijklmnopqrstuvwxyz0123456789-_''"

definition b64 :: "string \<Rightarrow> u_char \<Rightarrow> char" where
  "b64 basis i = basis ! unat i"

fun ngx_encode_base64_internal :: "string \<Rightarrow> bool \<Rightarrow> string \<Rightarrow> string" where
  "ngx_encode_base64_internal basis padding (s0 # s1 # s2 # s) =
     b64 basis (drop_bit 2 (byte s0) AND 0x3f) #
     b64 basis (push_bit 4 (byte s0 AND 3) OR drop_bit 4 (byte s1)) #
     b64 basis (push_bit 2 (byte s1 AND 0x0f) OR drop_bit 6 (byte s2)) #
     b64 basis (byte s2 AND 0x3f) # ngx_encode_base64_internal basis padding s"
| "ngx_encode_base64_internal basis padding [s0, s1] =
     [b64 basis (drop_bit 2 (byte s0) AND 0x3f),
      b64 basis (push_bit 4 (byte s0 AND 3) OR drop_bit 4 (byte s1)),
      b64 basis (push_bit 2 (byte s1 AND 0x0f))] @ (if padding then ''='' else [])"
| "ngx_encode_base64_internal basis padding [s0] =
     [b64 basis (drop_bit 2 (byte s0) AND 0x3f), b64 basis (push_bit 4 (byte s0 AND 3))] @
     (if padding then ''=='' else [])"
| "ngx_encode_base64_internal basis padding [] = []"

definition ngx_encode_base64 :: "string \<Rightarrow> string" where
  "ngx_encode_base64 src = ngx_encode_base64_internal basis64 True src"

definition ngx_encode_base64url :: "string \<Rightarrow> string" where
  "ngx_encode_base64url src = ngx_encode_base64_internal basis64url False src"

definition decode64_table :: "int list" where
  "decode64_table =
     [77, 77, 77, 77, 77, 77, 77, 77, 77, 77, 77, 77, 77, 77, 77, 77, 77, 77, 77, 77, 77, 77, 77, 77,
      77, 77, 77, 77, 77, 77, 77, 77, 77, 77, 77, 77, 77, 77, 77, 77, 77, 77, 77, 62, 77, 77, 77, 63,
      52, 53, 54, 55, 56, 57, 58, 59, 60, 61, 77, 77, 77, 77, 77, 77, 77, 0, 1, 2, 3, 4, 5, 6,
      7, 8, 9, 10, 11, 12, 13, 14, 15, 16, 17, 18, 19, 20, 21, 22, 23, 24, 25, 77, 77, 77, 77, 77,
      77, 26, 27, 28, 29, 30, 31, 32, 33, 34, 35, 36, 37, 38, 39, 40, 41, 42, 43, 44, 45, 46, 47, 48,
      49, 50, 51, 77, 77, 77, 77, 77, 77, 77, 77, 77, 77, 77, 77, 77, 77, 77, 77, 77, 77, 77, 77, 77,
      77, 77, 77, 77, 77, 77, 77, 77, 77, 77, 77, 77, 77, 77, 77, 77, 77, 77, 77, 77, 77, 77, 77, 77,
      77, 77, 77, 77, 77, 77, 77, 77, 77, 77, 77, 77, 77, 77, 77, 77, 77, 77, 77, 77, 77, 77, 77, 77,
      77, 77, 77, 77, 77, 77, 77, 77, 77, 77, 77, 77, 77, 77, 77, 77, 77, 77, 77, 77, 77, 77, 77, 77,
      77, 77, 77, 77, 77, 77, 77, 77, 77, 77, 77, 77, 77, 77, 77, 77, 77, 77, 77, 77, 77, 77, 77, 77,
      77, 77, 77, 77, 77, 77, 77, 77, 77, 77, 77, 77, 77, 77, 77, 77]"

definition decode64url_table :: "int list" where
  "decode64url_table =
     [77, 77, 77, 77, 77, 77, 77, 77, 77, 77, 77, 77, 77, 77, 77, 77, 77, 77, 77, 77, 77, 77, 77, 77,
      77, 77, 77, 77, 77, 77, 77, 77, 77, 77, 77, 77, 77, 77, 77, 77, 77, 77, 77, 77, 77, 62, 77, 77,
      52, 53, 54, 55, 56, 57, 58, 59, 60, 61, 77, 77, 77, 77, 77, 77, 77, 0, 1, 2, 3, 4, 5, 6,
      7, 8, 9, 10, 11, 12, 13, 14, 15, 16, 17, 18, 19, 20, 21, 22, 23, 24, 25, 77, 77, 77, 77, 63,
      77, 26, 27, 28, 29, 30, 31, 32, 33, 34, 35, 36, 37, 38, 39, 40, 41, 42, 43, 44, 45, 46, 47, 48,
      49, 50, 51, 77, 77, 77, 77, 77, 77, 77, 77, 77, 77, 77, 77, 77, 77, 77, 77, 77, 77, 77, 77, 77,
      77, 77, 77, 77, 77, 77, 77, 77, 77, 77, 77, 77, 77, 77, 77, 77, 77, 77, 77, 77, 77, 77, 77, 77,
      77, 77, 77, 77, 77, 77, 77, 77, 77, 77, 77, 77, 77, 77, 77, 77, 77, 77, 77, 77, 77, 77, 77, 77,
      77, 77, 77, 77, 77, 77, 77, 77, 77, 77, 77, 77, 77, 77, 77, 77, 77, 77, 77, 77, 77, 77, 77, 77,
      77, 77, 77, 77, 77, 77, 77, 77, 77, 77, 77, 77, 77, 77, 77, 77, 77, 77, 77, 77, 77, 77, 77, 77,
      77, 77, 77, 77, 77, 77, 77, 77, 77, 77, 77, 77, 77, 77, 77, 77]"

definition dec64 :: "int list \<Rightarrow> char \<Rightarrow> u_char" where
  "dec64 basis c = word_of_int (basis ! nat (cval c))"

fun decode_base64_loop :: "int list \<Rightarrow> string \<Rightarrow> string" where
  "decode_base64_loop basis (s0 # s1 # s2 # s3 # s) =
     chr (push_bit 2 (dec64 basis s0) OR drop_bit 4 (dec64 basis s1)) #
     chr (push_bit 4 (dec64 basis s1) OR drop_bit 2 (dec64 basis s2)) #
     chr (push_bit 6 (dec64 basis s2) OR dec64 basis s3) # decode_base64_loop basis s"
| "decode_base64_loop basis [s0, s1, s2] =
     [chr (push_bit 2 (dec64 basis s0) OR drop_bit 4 (dec64 basis s1)),
      chr (push_bit 4 (dec64 basis s1) OR drop_bit 2 (dec64 basis s2))]"
| "decode_base64_loop basis [s0, s1] =
     [chr (push_bit 2 (dec64 basis s0) OR drop_bit 4 (dec64 basis s1))]"
| "decode_base64_loop basis _ = []"

fun base64_scan :: "int list \<Rightarrow> string \<Rightarrow> string option" where
  \<comment> \<open>the characters before the first \<open>=\<close>, \<open>None\<close> if one of them is not of the alphabet\<close>
  "base64_scan basis [] = Some []"
| "base64_scan basis (c # s) =
     (if c = CHR ''='' then Some []
      else if basis ! nat (cval c) = 77 then None
      else map_option ((#) c) (base64_scan basis s))"

definition ngx_decode_base64_internal :: "int list \<Rightarrow> string \<Rightarrow> string option" where
  "ngx_decode_base64_internal basis src =
     (case base64_scan basis src of
        None \<Rightarrow> None
      | Some s \<Rightarrow> if length s mod 4 = 1 then None else Some (decode_base64_loop basis s))"

definition ngx_decode_base64 :: "string \<Rightarrow> string option" where
  "ngx_decode_base64 src = ngx_decode_base64_internal decode64_table src"

definition ngx_decode_base64url :: "string \<Rightarrow> string option" where
  "ngx_decode_base64url src = ngx_decode_base64_internal decode64url_table src"

section \<open>UTF-8\<close>

fun utf8_tail :: "uint32_t \<Rightarrow> nat \<Rightarrow> string \<Rightarrow> (uint32_t \<times> string) option" where
  \<comment> \<open>the continuation bytes; \<open>None\<close> stands for the error return inside the loop\<close>
  "utf8_tail u 0 p = Some (u, p)"
| "utf8_tail u (Suc len) p =
     (let i = chd p
      in if i < 0x80 then None
         else utf8_tail (push_bit 6 u OR (word_of_int i AND 0x3f)) len (tl p))"

fun utf8_tail_rest :: "nat \<Rightarrow> string \<Rightarrow> string" where
  \<comment> \<open>where \<open>*p\<close> is left: after the first byte that is not a continuation byte\<close>
  "utf8_tail_rest 0 p = p"
| "utf8_tail_rest (Suc len) p = (if chd p < 0x80 then tl p else utf8_tail_rest len (tl p))"

definition utf8_lead :: "uint32_t \<Rightarrow> (uint32_t \<times> uint32_t \<times> nat) option" where
  \<comment> \<open>the payload bits of the first byte, the largest overlong value, the number of
    continuation bytes\<close>
  "utf8_lead u =
     (if u \<ge> 0xf0 then Some (u AND 0x07, 0xffff, 3)
      else if u \<ge> 0xe0 then Some (u AND 0x0f, 0x7ff, 2)
      else if u \<ge> 0xc2 then Some (u AND 0x1f, 0x7f, 1)
      else None)"

definition ngx_utf8_decode :: "string \<Rightarrow> nat \<Rightarrow> uint32_t \<times> string" where
  \<comment> \<open>the code point or the error code, and where \<open>*p\<close> is left; \<open>n\<close> is positive\<close>
  "ngx_utf8_decode p n =
     (case utf8_lead (word_of_int (chd p)) of
        None \<Rightarrow> (0xffffffff, tl p)
      | Some (u, valid, len) \<Rightarrow>
          if n - 1 < len then (0xfffffffe, p)
          else case utf8_tail u len (tl p) of
                 None \<Rightarrow> (0xffffffff, utf8_tail_rest len (tl p))
               | Some (u, rest) \<Rightarrow> (if u > valid then u else 0xffffffff, rest))"

section \<open>URI escaping\<close>

definition uri_high :: "uint32_t list" where
  "uri_high = [0xffffffff, 0xffffffff, 0xffffffff, 0xffffffff]"

definition escape_map :: "nat \<Rightarrow> uint32_t list" where
  \<comment> \<open>the tables \<open>uri\<close>, \<open>args\<close>, \<open>uri_component\<close>, \<open>html\<close>, \<open>refresh\<close>, \<open>memcached\<close>\<close>
  "escape_map type =
     [[0xffffffff, 0x80000029, 0x00000000, 0x80000000] @ uri_high,
      [0xffffffff, 0x88000869, 0x00000000, 0x80000000] @ uri_high,
      [0xffffffff, 0xfc009fff, 0x78000001, 0xb8000001] @ uri_high,
      [0xffffffff, 0x000000ad, 0x00000000, 0x80000000] @ uri_high,
      [0xffffffff, 0x00000085, 0x00000000, 0x80000000] @ uri_high,
      [0xffffffff, 0x00000021, 0x00000000, 0x00000000, 0, 0, 0, 0],
      [0xffffffff, 0x00000021, 0x00000000, 0x00000000, 0, 0, 0, 0]] ! type"

definition must_escape :: "uint32_t list \<Rightarrow> char \<Rightarrow> bool" where
  "must_escape escape c \<longleftrightarrow>
     (escape ! unat (drop_bit 5 (byte c))) AND push_bit (unat (byte c AND 0x1f)) 1 \<noteq> 0"

definition ngx_escape_uri_len :: "string \<Rightarrow> nat \<Rightarrow> nat" where
  "ngx_escape_uri_len src type = length (filter (must_escape (escape_map type)) src)"

definition hex_upper :: string where
  "hex_upper = ''0123456789ABCDEF''"

fun escape_uri_loop :: "uint32_t list \<Rightarrow> string \<Rightarrow> string" where
  "escape_uri_loop escape [] = []"
| "escape_uri_loop escape (c # src) =
     (if must_escape escape c
      then CHR ''%'' # hex_upper ! unat (drop_bit 4 (byte c)) #
           hex_upper ! unat (byte c AND 0xf) # escape_uri_loop escape src
      else c # escape_uri_loop escape src)"

definition ngx_escape_uri :: "string \<Rightarrow> nat \<Rightarrow> string" where
  "ngx_escape_uri src type = escape_uri_loop (escape_map type) src"

datatype unescape_state = Sw_usual | Sw_quoted | Sw_quoted_second u_char char
  \<comment> \<open>the second digit state holds \<open>decoded\<close> and the first digit as it was read\<close>

abbreviation (input) NGX_UNESCAPE_URI :: "8 word" where "NGX_UNESCAPE_URI \<equiv> 1"
abbreviation (input) NGX_UNESCAPE_REDIRECT :: "8 word" where "NGX_UNESCAPE_REDIRECT \<equiv> 2"

fun unescape_loop :: "8 word \<Rightarrow> unescape_state \<Rightarrow> string \<Rightarrow> string \<times> string" where
  \<comment> \<open>the characters written from here on, and the rest of the source\<close>
  "unescape_loop type state [] = ([], [])"
| "unescape_loop type Sw_usual (ch # s) =
     (if ch = CHR ''?'' \<and> type AND (NGX_UNESCAPE_URI OR NGX_UNESCAPE_REDIRECT) \<noteq> 0 then ([ch], s)
      else if ch = CHR ''%'' then unescape_loop type Sw_quoted s
      else apfst ((#) ch) (unescape_loop type Sw_usual s))"
| "unescape_loop type Sw_quoted (ch # s) =
     (if 48 \<le> cval ch \<and> cval ch \<le> 57
      then unescape_loop type (Sw_quoted_second (byte ch - 48) ch) s
      else let c = byte ch OR 0x20
           in if 97 \<le> c \<and> c \<le> 102
              then unescape_loop type (Sw_quoted_second (c - 97 + 10) ch) s
              else apfst ((#) ch) (unescape_loop type Sw_usual s))"
| "unescape_loop type (Sw_quoted_second decoded first) (ch # s) =
     (if 48 \<le> cval ch \<and> cval ch \<le> 57 then
        let ch' = push_bit 4 decoded + (byte ch - 48)
        in if type AND NGX_UNESCAPE_REDIRECT \<noteq> 0 then
             (if ch' > 37 \<and> ch' < 0x7f then apfst ((#) (chr ch')) (unescape_loop type Sw_usual s)
              else apfst ((@) [CHR ''%'', first, ch]) (unescape_loop type Sw_usual s))
           else apfst ((#) (chr ch')) (unescape_loop type Sw_usual s)
      else let c = byte ch OR 0x20
           in if 97 \<le> c \<and> c \<le> 102 then
                let ch' = push_bit 4 decoded + (c - 97) + 10
                in if type AND NGX_UNESCAPE_URI \<noteq> 0 then
                     (if ch' = 63 then ([chr ch'], s)
                      else apfst ((#) (chr ch')) (unescape_loop type Sw_usual s))
                   else if type AND NGX_UNESCAPE_REDIRECT \<noteq> 0 then
                     (if ch' = 63 then ([chr ch'], s)
                      else if ch' > 37 \<and> ch' < 0x7f
                      then apfst ((#) (chr ch')) (unescape_loop type Sw_usual s)
                      else apfst ((@) [CHR ''%'', first, ch]) (unescape_loop type Sw_usual s))
                   else apfst ((#) (chr ch')) (unescape_loop type Sw_usual s)
              else unescape_loop type Sw_usual s)"

definition ngx_unescape_uri :: "string \<Rightarrow> 8 word \<Rightarrow> string \<times> string" where
  "ngx_unescape_uri src type = unescape_loop type Sw_usual src"

section \<open>HTML and JSON escaping\<close>

definition ngx_escape_html_len :: "string \<Rightarrow> nat" where
  \<comment> \<open>\<open>sizeof\<close> counts the terminating NUL, hence the subtraction of two for one character more\<close>
  "ngx_escape_html_len src = sum_list (map (\<lambda>c.
     if c = CHR ''<'' then length ''&lt;'' - 1 else if c = CHR ''>'' then length ''&gt;'' - 1
     else if c = CHR ''&'' then length ''&amp;'' - 1
     else if c = CHR 0x22 then length ''&quot;'' - 1 else 0) src)"

definition ngx_escape_html :: "string \<Rightarrow> string" where
  "ngx_escape_html src = concat (map (\<lambda>ch.
     if ch = CHR ''<'' then ''&lt;'' else if ch = CHR ''>'' then ''&gt;''
     else if ch = CHR ''&'' then ''&amp;'' else if ch = CHR 0x22 then ''&quot;'' else [ch]) src)"

definition json_short :: "char \<Rightarrow> char option" where
  "json_short ch = map_of [(CHR 0x0A, CHR ''n''), (CHR 0x0D, CHR ''r''), (CHR 0x09, CHR ''t''),
     (CHR 0x08, CHR ''b''), (CHR 0x0C, CHR ''f'')] ch"

definition ngx_escape_json_len :: "string \<Rightarrow> nat" where
  "ngx_escape_json_len src = sum_list (map (\<lambda>ch.
     if ch = CHR 0x5C \<or> ch = CHR 0x22 then 1
     else if cval ch \<le> 0x1f then (if json_short ch \<noteq> None then 1 else 5)
     else 0) src)"

definition json_escape_char :: "char \<Rightarrow> string" where
  "json_escape_char ch =
     (if cval ch > 0x1f then (if ch = CHR 0x5C \<or> ch = CHR 0x22 then [CHR 0x5C, ch] else [ch])
      else CHR 0x5C # (case json_short ch of
             Some c \<Rightarrow> [c]
           | None \<Rightarrow> let low = byte ch AND 0xf
                in [CHR ''u'', CHR ''0'', CHR ''0'', chr (48 + drop_bit 4 (byte ch)),
                    chr (if low < 10 then 48 + low else 65 + low - 10)]))"

definition ngx_escape_json :: "string \<Rightarrow> string" where
  "ngx_escape_json src = concat (map json_escape_char src)"

section \<open>Round trips\<close>

subsection \<open>Base64\<close>

lemma bit8_eqI:
  fixes a b :: u_char
  assumes "bit a 0 = bit b 0" "bit a 1 = bit b 1" "bit a 2 = bit b 2" "bit a 3 = bit b 3"
    "bit a 4 = bit b 4" "bit a 5 = bit b 5" "bit a 6 = bit b 6" "bit a 7 = bit b 7"
  shows "a = b"
proof (rule bit_word_eqI)
  fix n assume "n < LENGTH(8)"
  then have "n = 0 \<or> n = 1 \<or> n = 2 \<or> n = 3 \<or> n = 4 \<or> n = 5 \<or> n = 6 \<or> n = 7"
    by simp presburger
  then show "bit a n = bit b n" using assms by (elim disjE) simp_all
qed

lemma no_bit8: "8 \<le> n \<Longrightarrow> \<not> bit (w :: u_char) n"
  by (auto dest: bit_imp_le_length)

lemma u_char_masks:
  "(x :: u_char) AND 0x3f = take_bit 6 x" "x AND 3 = take_bit 2 x" "x AND 0xf = take_bit 4 x"
  "x AND 0x1f = take_bit 5 x"
  by (simp_all add: take_bit_eq_mask mask_eq_exp_minus_1)

lemma sextet_less: "take_bit 6 x = x \<Longrightarrow> unat (x :: u_char) < 64"
proof -
  assume "take_bit 6 x = x"
  then have "unat x = take_bit 6 (unat x)" by (metis unsigned_take_bit_eq)
  then show "unat x < 64" using take_bit_nat_less_exp [of 6 "unat x"] by simp
qed

lemma sextets:
  fixes s0 s1 s2 :: u_char
  shows "take_bit 6 (push_bit 4 (take_bit 2 s0) OR drop_bit 4 s1) =
      push_bit 4 (take_bit 2 s0) OR drop_bit 4 s1"
    "take_bit 6 (push_bit 2 (take_bit 4 s1) OR drop_bit 6 s2) =
      push_bit 2 (take_bit 4 s1) OR drop_bit 6 s2"
    "take_bit 6 (push_bit 4 (take_bit 2 s0)) = push_bit 4 (take_bit 2 s0)"
    "take_bit 6 (push_bit 2 (take_bit 4 s1)) = push_bit 2 (take_bit 4 s1)"
  by (rule bit8_eqI; simp add: bit_simps no_bit8)+

lemma regroup:
  fixes s0 s1 s2 :: u_char
  shows "push_bit 2 (take_bit 6 (drop_bit 2 s0)) OR
      drop_bit 4 (push_bit 4 (take_bit 2 s0) OR drop_bit 4 s1) = s0"
    "push_bit 4 (push_bit 4 (take_bit 2 s0) OR drop_bit 4 s1) OR
      drop_bit 2 (push_bit 2 (take_bit 4 s1) OR drop_bit 6 s2) = s1"
    "push_bit 6 (push_bit 2 (take_bit 4 s1) OR drop_bit 6 s2) OR take_bit 6 s2 = s2"
    "push_bit 2 (take_bit 6 (drop_bit 2 s0)) OR drop_bit 4 (push_bit 4 (take_bit 2 s0)) = s0"
    "push_bit 4 (push_bit 4 (take_bit 2 s0) OR drop_bit 4 s1) OR
      drop_bit 2 (push_bit 2 (take_bit 4 s1)) = s1"
    "push_bit 4 (drop_bit 4 s1) OR drop_bit 2 (push_bit 2 (take_bit 4 s1)) = s1"
    "push_bit 6 (drop_bit 6 s2) OR take_bit 6 s2 = s2"
  by (rule bit8_eqI; simp add: bit_simps no_bit8)+

definition inverse_tables :: "string \<Rightarrow> int list \<Rightarrow> bool" where
  \<comment> \<open>the decoding table inverts the alphabet, which does not hold the padding character\<close>
  "inverse_tables basis table \<longleftrightarrow>
     list_all (\<lambda>k. table ! nat (cval (basis ! k)) = int k \<and> basis ! k \<noteq> CHR ''='') [0..<64]"

lemma inverse_tables_64:
  "inverse_tables basis64 decode64_table" "inverse_tables basis64url decode64url_table"
  by (simp_all add: inverse_tables_def decode64_table_def decode64url_table_def basis64_def
      basis64url_def upt_conv_Cons cval_def)

lemma inverse_tables_b64:
  assumes "inverse_tables basis table" "take_bit 6 i = i"
  shows "dec64 table (b64 basis i) = i" "b64 basis i \<noteq> CHR ''=''"
    "table ! nat (cval (b64 basis i)) \<noteq> 77"
proof -
  have k: "unat i < 64" using assms(2) by (rule sextet_less)
  then have t: "table ! nat (cval (basis ! unat i)) = int (unat i) \<and> basis ! unat i \<noteq> CHR ''=''"
    using assms(1) by (simp add: inverse_tables_def list_all_iff)
  then show "dec64 table (b64 basis i) = i" "b64 basis i \<noteq> CHR ''=''"
    by (simp_all add: dec64_def b64_def)
  have "int (unat i) < 64" using k by linarith
  with t show "table ! nat (cval (b64 basis i)) \<noteq> 77" unfolding b64_def by linarith
qed

lemma inverse_tables_sextets:
  assumes "inverse_tables basis table"
  defines "good i \<equiv> dec64 table (b64 basis i) = i \<and> b64 basis i \<noteq> CHR ''='' \<and>
    table ! nat (cval (b64 basis i)) \<noteq> 77"
  shows "good (take_bit 6 i)" "good (push_bit 4 (take_bit 2 s0) OR drop_bit 4 s1)"
    "good (push_bit 2 (take_bit 4 s1) OR drop_bit 6 s2)" "good (push_bit 4 (take_bit 2 s0))"
    "good (push_bit 2 (take_bit 4 s1))"
  unfolding good_def
  by ((intro conjI inverse_tables_b64 [OF assms(1)]); (rule sextets | simp))+

fun unpadded :: "string \<Rightarrow> string \<Rightarrow> string" where
  \<comment> \<open>the encoding without its padding\<close>
  "unpadded basis s = ngx_encode_base64_internal basis False s"

lemma encode_padding:
  "\<exists>pad. ngx_encode_base64_internal basis padding s = unpadded basis s @ pad \<and>
     (pad = [] \<or> (\<exists>rest. pad = CHR ''='' # rest))"
  by (induction basis padding s rule: ngx_encode_base64_internal.induct) auto

lemma base64_scan_append:
  "\<forall>c \<in> set s. c \<noteq> CHR ''='' \<and> table ! nat (cval c) \<noteq> 77 \<Longrightarrow>
   pad = [] \<or> (\<exists>rest. pad = CHR ''='' # rest) \<Longrightarrow> base64_scan table (s @ pad) = Some s"
  by (induction s) auto

lemma unpadded_alphabet:
  assumes "inverse_tables basis table"
  shows "\<forall>c \<in> set (unpadded basis s). c \<noteq> CHR ''='' \<and> table ! nat (cval c) \<noteq> 77"
  using assms
  by (induction basis False s rule: ngx_encode_base64_internal.induct)
    (auto simp: u_char_masks regroup inverse_tables_sextets simp del: take_bit_or)

lemma length_unpadded: "length (unpadded basis s) mod 4 \<noteq> 1"
  by (induction basis False s rule: ngx_encode_base64_internal.induct) (auto simp: mod_Suc)

lemma decode_unpadded:
  assumes "inverse_tables basis table"
  shows "decode_base64_loop table (unpadded basis s) = s"
  using assms
  by (induction basis False s rule: ngx_encode_base64_internal.induct)
    (auto simp: u_char_masks regroup inverse_tables_sextets simp del: take_bit_or)

lemma base64_roundtrip:
  assumes "inverse_tables basis table"
  shows "ngx_decode_base64_internal table (ngx_encode_base64_internal basis padding s) = Some s"
proof -
  obtain pad where pad: "ngx_encode_base64_internal basis padding s = unpadded basis s @ pad"
    "pad = [] \<or> (\<exists>rest. pad = CHR ''='' # rest)"
    using encode_padding by blast
  have "base64_scan table (unpadded basis s @ pad) = Some (unpadded basis s)"
    using unpadded_alphabet [OF assms] pad(2) by (rule base64_scan_append)
  then show ?thesis
    using length_unpadded [of basis s] decode_unpadded [OF assms, of s]
    by (simp only: pad(1) ngx_decode_base64_internal_def option.case) simp
qed

subsection \<open>URIs\<close>

lemma hex_upper_digit:
  assumes "k < 16"
  shows "if k < 10 then 48 \<le> cval (hex_upper ! k) \<and> cval (hex_upper ! k) \<le> 57 \<and>
      byte (hex_upper ! k) - 48 = of_nat k
    else \<not> (48 \<le> cval (hex_upper ! k) \<and> cval (hex_upper ! k) \<le> 57) \<and>
      97 \<le> byte (hex_upper ! k) OR 0x20 \<and> byte (hex_upper ! k) OR 0x20 \<le> 102 \<and>
      (byte (hex_upper ! k) OR 0x20) - 97 + 10 = of_nat k"
proof -
  have "k = 0 \<or> k = 1 \<or> k = 2 \<or> k = 3 \<or> k = 4 \<or> k = 5 \<or> k = 6 \<or> k = 7 \<or>
      k = 8 \<or> k = 9 \<or> k = 10 \<or> k = 11 \<or> k = 12 \<or> k = 13 \<or> k = 14 \<or> k = 15"
    using assms by presburger
  then show ?thesis
    by (elim disjE) (simp_all add: hex_upper_def byte_def cval_def)
qed

lemma nibbles:
  fixes w :: u_char
  shows "unat (drop_bit 4 w) < 16" "unat (w AND 0xf) < 16"
    "push_bit 4 (drop_bit 4 w) + (w AND 0xf) = w"
proof -
  have "unat w < 256" using unsigned_less [of w, where ?'a = nat] by simp
  then show "unat (drop_bit 4 w) < 16" by (simp add: drop_bit_eq_div unat_div_distrib)
  show "unat (w AND 0xf) < 16"
    by (simp only: u_char_masks) (simp add: take_bit_eq_mod unat_mod_distrib)
  show "push_bit 4 (drop_bit 4 w) + (w AND 0xf) = w"
    using mult_div_mod_eq [of 16 w]
    by (simp only: u_char_masks) (simp add: take_bit_eq_mod drop_bit_eq_div push_bit_eq_mult mult.commute)
qed

lemma unescape_quoted:
  assumes "t = 0 \<or> t = NGX_UNESCAPE_URI"
  shows "unescape_loop t Sw_quoted
     (hex_upper ! unat (drop_bit 4 (byte c)) # hex_upper ! unat (byte c AND 0xf) # s) =
   (if t = NGX_UNESCAPE_URI \<and> c = CHR ''?'' then ([c], s) else apfst ((#) c) (unescape_loop t Sw_usual s))"
proof -
  let ?h = "unat (drop_bit 4 (byte c))" and ?l = "unat (byte c AND 0xf)"
  let ?a = "hex_upper ! ?h" and ?b = "hex_upper ! ?l"
  have first: "unescape_loop t Sw_quoted (?a # ?b # s) =
      unescape_loop t (Sw_quoted_second (drop_bit 4 (byte c)) ?a) (?b # s)"
    using hex_upper_digit [OF nibbles(1) [of "byte c"]]
    by (cases "?h < 10") (auto simp del: unescape_loop.simps simp add: unescape_loop.simps(3) Let_def)
  have sum: "push_bit 4 (drop_bit 4 (byte c)) + (byte c AND 0xf) = byte c" by (simp only: nibbles)
  have redirect: "t AND NGX_UNESCAPE_REDIRECT = 0" using assms by auto
  have mark: "byte (CHR ''?'') AND 0xf = 15" by (simp add: byte_def cval_def)
  show ?thesis
  proof (cases "?l < 10")
    case True
    then have "c \<noteq> CHR ''?''" using mark by auto
    note d = hex_upper_digit [OF nibbles(2) [of "byte c"], unfolded if_P [OF True]]
    have "byte ?b - 48 = byte c AND 0xf"
    proof -
      have "of_nat (unat (byte c AND 0xf)) = byte c AND 0xf" by simp
      with d show ?thesis by (simp only:)
    qed
    then have e: "push_bit 4 (drop_bit 4 (byte c)) + (byte ?b - 48) = byte c" using sum by simp
    have "unescape_loop t (Sw_quoted_second (drop_bit 4 (byte c)) ?a) (?b # s) = apfst ((#) c) (unescape_loop t Sw_usual s)"
      using d by (simp only: unescape_loop.simps Let_def e chr_byte) (simp add: redirect sum chr_byte)
    with first \<open>c \<noteq> CHR ''?''\<close> show ?thesis by simp
  next
    case False
    note d = hex_upper_digit [OF nibbles(2) [of "byte c"], unfolded if_not_P [OF False]]
    have "push_bit 4 (drop_bit 4 (byte c)) + ((byte ?b OR 0x20) - 97) + 10 =
        push_bit 4 (drop_bit 4 (byte c)) + ((byte ?b OR 0x20) - 97 + 10)" by (rule add.assoc)
    moreover have "(byte ?b OR 0x20) - 97 + 10 = byte c AND 0xf"
    proof -
      have "of_nat (unat (byte c AND 0xf)) = byte c AND 0xf" by simp
      with d show ?thesis by (simp only:)
    qed
    ultimately have e: "push_bit 4 (drop_bit 4 (byte c)) + ((byte ?b OR 0x20) - 97) + 10 = byte c"
      using sum by metis
    have "byte c = 63 \<longleftrightarrow> c = CHR ''?''"
    proof
      assume "byte c = 63"
      then have "c = chr 63" using chr_byte [of c] by metis
      also have "chr 63 = CHR ''?''" using chr_byte [of "CHR ''?''"] by (simp add: byte_def cval_def)
      finally show "c = CHR ''?''" .
    qed (simp add: byte_def cval_def)
    then have "unescape_loop t (Sw_quoted_second (drop_bit 4 (byte c)) ?a) (?b # s) =
        (if t = NGX_UNESCAPE_URI \<and> c = CHR ''?'' then ([c], s) else apfst ((#) c) (unescape_loop t Sw_usual s))"
      using d assms by (simp only: unescape_loop.simps Let_def e chr_byte) (auto simp: redirect)
    with first show ?thesis by simp
  qed
qed

fun upto_query :: "string \<Rightarrow> string" where
  \<comment> \<open>to the first question mark, with it\<close>
  "upto_query [] = []"
| "upto_query (c # s) = (if c = CHR ''?'' then [c] else c # upto_query s)"

fun after_query :: "string \<Rightarrow> string" where
  "after_query [] = []"
| "after_query (c # s) = (if c = CHR ''?'' then s else after_query s)"

lemma unescape_escape_loop:
  assumes "must_escape escape CHR ''%''"
  shows "unescape_loop 0 Sw_usual (escape_uri_loop escape s) = (s, [])"
    and "unescape_loop NGX_UNESCAPE_URI Sw_usual (escape_uri_loop escape s) =
      (upto_query s, escape_uri_loop escape (after_query s))"
proof -
  have pct: "c \<noteq> CHR ''%''" if "\<not> must_escape escape c" for c using that assms by auto
  have c: "unescape_loop t Sw_usual (escape_uri_loop escape (c # s)) =
      (if t = NGX_UNESCAPE_URI \<and> c = CHR ''?'' then ([c], escape_uri_loop escape s)
       else apfst ((#) c) (unescape_loop t Sw_usual (escape_uri_loop escape s)))"
    if t: "t = 0 \<or> t = NGX_UNESCAPE_URI" for t c s
  proof (cases "must_escape escape c")
    case True
    then have "unescape_loop t Sw_usual (escape_uri_loop escape (c # s)) =
        unescape_loop t Sw_quoted (hex_upper ! unat (drop_bit 4 (byte c)) #
          hex_upper ! unat (byte c AND 0xf) # escape_uri_loop escape s)"
      by simp
    then show ?thesis by (simp only: unescape_quoted [OF t])
  next
    case False
    then show ?thesis using t pct [OF False] by auto
  qed
  show "unescape_loop 0 Sw_usual (escape_uri_loop escape s) = (s, [])"
  proof (induction s)
    case (Cons a s)
    then show ?case using c [of 0 a s] by simp
  qed simp
  show "unescape_loop NGX_UNESCAPE_URI Sw_usual (escape_uri_loop escape s) =
      (upto_query s, escape_uri_loop escape (after_query s))"
  proof (induction s)
    case (Cons a s)
    then show ?case using c [of NGX_UNESCAPE_URI a s] by (cases "a = CHR ''?''") (simp_all del: escape_uri_loop.simps)
  qed simp
qed

lemma length_escape_uri_loop:
  "length (escape_uri_loop escape s) = length s + 2 * length (filter (must_escape escape) s)"
  by (induction s) simp_all

lemma percent_is_escaped:
  "type < 7 \<Longrightarrow> type \<noteq> 4 \<Longrightarrow> must_escape (escape_map type) CHR ''%''"
proof -
  assume "type < 7" "type \<noteq> 4"
  then have "type = 0 \<or> type = 1 \<or> type = 2 \<or> type = 3 \<or> type = 5 \<or> type = 6" by presburger
  then show ?thesis by (elim disjE; hypsubst) code_simp+
qed

subsection \<open>HTML and JSON\<close>

lemma length_escape_html: "length (ngx_escape_html src) = length src + ngx_escape_html_len src"
  by (induction src) (auto simp: ngx_escape_html_def ngx_escape_html_len_def)

lemma json_short_control: "json_short ch = Some c \<Longrightarrow> cval ch \<le> 0x1f"
  by (auto simp: json_short_def cval_def split: if_splits)

lemma length_json_escape_char:
  "length (json_escape_char ch) = 1 + (if ch = CHR 0x5C \<or> ch = CHR 0x22 then 1
     else if cval ch \<le> 0x1f then (if json_short ch \<noteq> None then 1 else 5) else 0)"
proof -
  have "cval (CHR 0x5C) = 92" "cval (CHR 0x22) = 34" by (simp_all add: cval_def)
  then show ?thesis by (auto simp: json_escape_char_def Let_def split: option.splits)
qed

lemma length_escape_json: "length (ngx_escape_json src) = length src + ngx_escape_json_len src"
  by (induction src) (simp_all add: ngx_escape_json_def ngx_escape_json_len_def length_json_escape_char)

section \<open>Properties\<close>

text \<open>C33. Decoding inverts encoding, in both alphabets, with and without padding, for every string of
  bytes.\<close>
theorem base64_decode_encode:
  "ngx_decode_base64 (ngx_encode_base64_internal basis64 padding s) = Some s \<and>
   ngx_decode_base64url (ngx_encode_base64_internal basis64url padding s) = Some s"
  using base64_roundtrip [OF inverse_tables_64(1)] base64_roundtrip [OF inverse_tables_64(2)]
  by (simp add: ngx_decode_base64_def ngx_decode_base64url_def)

text \<open>C34. What \<open>ngx_escape_uri\<close> escaped, for every type of escaping but \<open>NGX_ESCAPE_REFRESH\<close>, the one that leaves the percent
  sign alone, \<open>ngx_unescape_uri\<close> gives back: with the type 0 the whole of it, and with \<open>NGX_UNESCAPE_URI\<close> the
  part up to the first question mark, escaped or not, where it stops and leaves the rest as it is.  The first
  pass announces the length the second one writes.\<close>
theorem uri_unescape_escape:
  assumes "type < 7" "type \<noteq> 4"
  shows "ngx_unescape_uri (ngx_escape_uri s type) 0 = (s, []) \<and>
    ngx_unescape_uri (ngx_escape_uri s type) NGX_UNESCAPE_URI = (upto_query s, ngx_escape_uri (after_query s) type) \<and>
    length (ngx_escape_uri s type) = length s + 2 * ngx_escape_uri_len s type"
  using unescape_escape_loop [OF percent_is_escaped [OF assms]]
  by (simp add: ngx_unescape_uri_def ngx_escape_uri_def ngx_escape_uri_len_def length_escape_uri_loop)

theorem uri_unescape_escape_witness:
  "fst (ngx_unescape_uri (ngx_escape_uri ''a b%?c'' 0) 0) = ''a b%?c'' \<and>
   ngx_unescape_uri (ngx_escape_uri ''a b%?c'' 0) NGX_UNESCAPE_URI = (''a b%?'', ngx_escape_uri ''c'' 0)"
  using uri_unescape_escape [of 0 "''a b%?c''"] by simp

text \<open>For HTML and for JSON the number the first pass returns is what the second pass writes beyond
  the source, so a buffer of that size is filled exactly.\<close>
theorem escape_sizes_exact:
  "length (ngx_escape_html s) = length s + ngx_escape_html_len s \<and>
   length (ngx_escape_json s) = length s + ngx_escape_json_len s"
  by (simp add: length_escape_html length_escape_json)

end
