(* ===== verification/Libcurl_Wrap.thy ===== *)
theory Libcurl_Wrap
  imports Nginx_Prelude
begin

text \<open>
  The HTTP client wrapper \<open>src/libs/utils/libcurl_wrap.c\<close>: the composition of the URL, the
  search in the request headers, the callbacks that send and collect a body, the options of
  POST and PUT requests, and the request itself with its single clean-up label.

  libcurl is a parameter: which options it accepts, and what a transfer does with the
  options set so far (its result code, the pieces handed to the callbacks, the answer's
  code and statistics).  Logging is not modelled.
\<close>

abbreviation (input) URL_MAX_SIZE :: nat where "URL_MAX_SIZE \<equiv> 16384"
abbreviation (input) HDRS_MAX_NUM :: nat where "HDRS_MAX_NUM \<equiv> 40"
abbreviation (input) HDRS_MAX_SIZE :: nat where "HDRS_MAX_SIZE \<equiv> 512"

datatype libcurl_wrap_method =
    LIBCURL_WRAP_METHOD_GET | LIBCURL_WRAP_METHOD_POST | LIBCURL_WRAP_METHOD_PUT | LIBCURL_WRAP_METHOD_MAX

record libcurl_wrap_req_ctx =
  req_method :: libcurl_wrap_method
  req_headers :: "string list option"   \<comment> \<open>the array without its terminating \<open>NULL\<close>\<close>
  req_host :: "string option"
  req_port :: "string option"
  req_location :: "string option"
  req_qstring :: "string option"
  req_body :: "string option"
  req_tout :: int
  req_flag_libcurl_verbose :: int

record libcurl_wrap_stats_ctx =
  time_connect_usecs :: uint64_t
  time_first_byte_usecs :: uint64_t
  time_total_usecs :: uint64_t
  download_size_bytes :: int

section \<open>The search in the headers\<close>

definition c_tolower :: "int \<Rightarrow> int" where
  "c_tolower c = (if 65 \<le> c \<and> c \<le> 90 then c + 32 else c)"

fun c_strncasecmp :: "string \<Rightarrow> string \<Rightarrow> nat \<Rightarrow> int" where
  "c_strncasecmp s1 s2 0 = 0"
| "c_strncasecmp s1 s2 (Suc n) =
     (let c1 = c_tolower (chd s1); c2 = c_tolower (chd s2)
      in if c1 \<noteq> c2 then c1 - c2
         else if c1 = 0 then 0
         else c_strncasecmp (tl s1) (tl s2) n)"

fun find_header_loop :: "string \<Rightarrow> string option \<Rightarrow> nat \<Rightarrow> string list \<Rightarrow> int" where
  "find_header_loop hdr_needle val_needle i [] = -1"
| "find_header_loop hdr_needle val_needle i (hdr # hdrs) =
     (if i \<ge> HDRS_MAX_NUM then -1
      else
        let matched =
          (case c_strchr hdr CHR '':'' of
             None \<Rightarrow> False
           | Some hdr_tag_size \<Rightarrow>
               if hdr_tag_size = 0 then False
               else if hdr_tag_size > HDRS_MAX_SIZE then False
               else if c_strncasecmp hdr_needle hdr hdr_tag_size = 0 then
                 (case val_needle of None \<Rightarrow> True | Some v \<Rightarrow> c_strstr (drop hdr_tag_size hdr) v)
               else False)
        in if matched then int i else find_header_loop hdr_needle val_needle (Suc i) hdrs)"

definition find_header :: "string list option \<Rightarrow> string option \<Rightarrow> string option \<Rightarrow> int" where
  "find_header headers hdr_needle val_needle =
     (case headers of
        None \<Rightarrow> -1
      | Some hdrs \<Rightarrow>
          if hdrs = [] then -1
          else (case hdr_needle of None \<Rightarrow> -1 | Some needle \<Rightarrow> find_header_loop needle val_needle 0 hdrs))"

section \<open>The callbacks\<close>

record curl_read_mem_ctx =
  p_read :: "string option"
  size_left :: nat

definition curl_read_body_callback ::
    "bool \<Rightarrow> nat \<Rightarrow> nat \<Rightarrow> curl_read_mem_ctx option \<Rightarrow> string \<times> curl_read_mem_ctx option" where
  \<comment> \<open>what is copied to the buffer, its length being the return value; the first argument
      says that the buffer is not \<open>NULL\<close>\<close>
  "curl_read_body_callback dest_ok sz nmemb userp =
     (case userp of
        None \<Rightarrow> ([], None)
      | Some ctx \<Rightarrow>
          (case p_read ctx of
             None \<Rightarrow> ([], userp)
           | Some p \<Rightarrow>
               if \<not> dest_ok then ([], userp)
               else
                 let max_read_size = sz * nmemb mod 2 ^ 64
                 in if max_read_size = 0 \<or> size_left ctx = 0 then ([], userp)
                    else
                      let n = (if size_left ctx > max_read_size then max_read_size else size_left ctx)
                      in (take n p, Some \<lparr>p_read = Some (drop n p), size_left = size_left ctx - n\<rparr>)))"

record curl_write_mem_ctx =
  wr_data :: "string option"  \<comment> \<open>what was written to the block so far, its NUL apart\<close>
  wr_cap :: nat               \<comment> \<open>the size of the block\<close>
  wr_size :: nat

definition curl_write_body_callback ::
    "(nat \<Rightarrow> bool) \<Rightarrow> string option \<Rightarrow> nat \<Rightarrow> nat \<Rightarrow> curl_write_mem_ctx option \<Rightarrow>
     (nat \<times> curl_write_mem_ctx option) option" where
  \<comment> \<open>the return value and the context; \<open>None\<close> is a write outside the block.  The first
      argument tells which sizes can be allocated.  Products and sums of \<open>size_t\<close> wrap.\<close>
  "curl_write_body_callback realloc_ok contents sz nmemb userp =
     (let realsize = sz * nmemb mod 2 ^ 64
      in case userp of
        None \<Rightarrow> Some (0, None)
      | Some ctx \<Rightarrow>
          (case (wr_data ctx, contents) of
             (Some dat, Some cont) \<Rightarrow>
               if sz = 0 \<or> nmemb = 0 then Some (0, userp)
               else
                 let total = (wr_size ctx + realsize + 1) mod 2 ^ 64
                 in if \<not> realloc_ok total then Some (0, userp)
                    else if wr_size ctx + realsize + 1 > total then None
                    else Some (realsize,
                      Some \<lparr>wr_data = Some (take (wr_size ctx) dat @ take realsize cont),
                            wr_cap = total, wr_size = wr_size ctx + realsize\<rparr>)
           | _ \<Rightarrow> Some (0, userp)))"

section \<open>The options of a transfer\<close>

datatype curl_opt =
    CURLOPT_URL string
  | CURLOPT_POST int
  | CURLOPT_PUT int
  | CURLOPT_UPLOAD int
  | CURLOPT_READFUNCTION
  | CURLOPT_READDATA curl_read_mem_ctx
  | CURLOPT_POSTFIELDSIZE int
  | CURLOPT_INFILESIZE_LARGE int
  | CURLOPT_HTTPHEADER "string list"
  | CURLOPT_WRITEFUNCTION
  | CURLOPT_WRITEDATA
  | CURLOPT_HEADERFUNCTION
  | CURLOPT_HEADERDATA
  | CURLOPT_VERBOSE int
  | CURLOPT_USERAGENT string
  | CURLOPT_TIMEOUT int
  | CURLOPT_NOSIGNAL int

type_synonym setopt = "curl_opt \<Rightarrow> bool"   \<comment> \<open>whether libcurl accepts the option\<close>

definition curl_easy_setopt :: "setopt \<Rightarrow> curl_opt \<Rightarrow> curl_opt list \<Rightarrow> curl_opt list option" where
  \<comment> \<open>the options set so far, most recent last; \<open>None\<close> when it is not \<open>CURLE_OK\<close>\<close>
  "curl_easy_setopt ok opt opts = (if ok opt then Some (opts @ [opt]) else None)"

definition libcurl_wrap_cli_request_post_options ::
    "setopt \<Rightarrow> string option \<Rightarrow> curl_read_mem_ctx \<Rightarrow> string list option \<Rightarrow> curl_opt list \<Rightarrow>
     (curl_read_mem_ctx \<times> curl_opt list) option" where
  \<comment> \<open>\<open>None\<close> when the function returns -1\<close>
  "libcurl_wrap_cli_request_post_options ok body rctx headers opts =
     Option.bind (curl_easy_setopt ok (CURLOPT_POST 1) opts) (\<lambda>opts.
     Option.bind
       (case body of
          None \<Rightarrow> Some (rctx, opts)
        | Some b \<Rightarrow>
            Option.bind (curl_easy_setopt ok CURLOPT_READFUNCTION opts) (\<lambda>opts.
            let rctx = \<lparr>p_read = Some b, size_left = length b\<rparr>
            in map_option (Pair rctx) (curl_easy_setopt ok (CURLOPT_READDATA rctx) opts)))
       (\<lambda>(rctx, opts).
          if find_header headers (Some ''Transfer-Encoding'') (Some ''chunked'') < 0
          then map_option (Pair rctx)
                 (curl_easy_setopt ok (CURLOPT_POSTFIELDSIZE (int (size_left rctx))) opts)
          else Some (rctx, opts)))"

definition libcurl_wrap_cli_request_put_options ::
    "setopt \<Rightarrow> string option \<Rightarrow> curl_read_mem_ctx \<Rightarrow> curl_opt list \<Rightarrow>
     (curl_read_mem_ctx \<times> curl_opt list) option" where
  "libcurl_wrap_cli_request_put_options ok body rctx opts =
     Option.bind (curl_easy_setopt ok (CURLOPT_PUT 1) opts) (\<lambda>opts.
       case body of
         None \<Rightarrow> Some (rctx, opts)
       | Some b \<Rightarrow>
           Option.bind (curl_easy_setopt ok (CURLOPT_UPLOAD 1) opts) (\<lambda>opts.
           Option.bind (curl_easy_setopt ok CURLOPT_READFUNCTION opts) (\<lambda>opts.
           let rctx = \<lparr>p_read = Some b, size_left = length b\<rparr>
           in Option.bind (curl_easy_setopt ok (CURLOPT_READDATA rctx) opts) (\<lambda>opts.
              map_option (Pair rctx)
                (curl_easy_setopt ok (CURLOPT_INFILESIZE_LARGE (int (size_left rctx))) opts)))))"

definition curl_slist_append :: "bool \<Rightarrow> string list \<Rightarrow> string \<Rightarrow> string list" where
  \<comment> \<open>of \<open>curl/lib/slist.c\<close>; the empty list is \<open>NULL\<close>, which it gives when an allocation fails, and leaves the list alone\<close>
  "curl_slist_append alloc_ok list dat = (if alloc_ok then list @ [dat] else [])"

fun set_headers_loop ::
    "(nat \<Rightarrow> bool) \<Rightarrow> nat \<Rightarrow> string list \<Rightarrow> string list \<Rightarrow> string list \<Rightarrow> string list \<times> string list" where
  \<comment> \<open>the header list, and the headers that are still allocated although no pointer leads to them any more\<close>
  "set_headers_loop alloc_ok i [] hdr_list lost = (hdr_list, lost)"
| "set_headers_loop alloc_ok i (hdr # hdrs) hdr_list lost =
     (if i < HDRS_MAX_NUM
      then set_headers_loop alloc_ok (Suc i) hdrs (curl_slist_append (alloc_ok i) hdr_list hdr)
             (if alloc_ok i then lost else lost @ hdr_list)
      else (hdr_list, lost))"

definition set_headers ::
    "setopt \<Rightarrow> (nat \<Rightarrow> bool) \<Rightarrow> string list option \<Rightarrow> string list \<Rightarrow> string list \<Rightarrow> curl_opt list \<Rightarrow>
     string list \<times> string list \<times> curl_opt list" where
  \<comment> \<open>the header list, what was lost of it, and the options; a refused \<open>CURLOPT_HTTPHEADER\<close> is only logged\<close>
  "set_headers ok alloc_ok headers hdr_list lost opts =
     (let (hdr_list, lost) =
            (case headers of None \<Rightarrow> (hdr_list, lost) | Some hdrs \<Rightarrow> set_headers_loop alloc_ok 0 hdrs hdr_list lost)
      in (hdr_list, lost,
          if hdr_list \<noteq> [] then
            (case curl_easy_setopt ok (CURLOPT_HTTPHEADER hdr_list) opts of
               None \<Rightarrow> opts | Some opts \<Rightarrow> opts)
          else opts))"

section \<open>The URL\<close>

definition attach_query :: "libcurl_wrap_method \<Rightarrow> string option \<Rightarrow> bool" where
  "attach_query m qstring \<longleftrightarrow>
     m = LIBCURL_WRAP_METHOD_GET \<and> (case qstring of None \<Rightarrow> False | Some q \<Rightarrow> length q > 0)"

definition url_size :: "string \<Rightarrow> string \<Rightarrow> string option \<Rightarrow> string option \<Rightarrow> bool \<Rightarrow> nat" where
  "url_size host port location qstring flag_attach_query =
     length host + 1 + length port + 1
     + (case location of None \<Rightarrow> 0 | Some l \<Rightarrow> length l)
     + (if flag_attach_query then (case qstring of None \<Rightarrow> 0 | Some q \<Rightarrow> 1 + length q) else 0)"

definition c_snprintf :: "nat \<Rightarrow> string \<Rightarrow> string" where
  \<comment> \<open>what \<open>snprintf\<close> leaves in a block of the given size\<close>
  "c_snprintf sz s = take (sz - 1) s"

definition compose_url :: "string \<Rightarrow> string \<Rightarrow> string option \<Rightarrow> string option \<Rightarrow> bool \<Rightarrow> string" where
  "compose_url host port location qstring flag_attach_query =
     c_snprintf (url_size host port location qstring flag_attach_query)
       (host @ '':'' @ port @ (case location of None \<Rightarrow> [] | Some l \<Rightarrow> l)
        @ (if flag_attach_query then ''?'' @ (case qstring of None \<Rightarrow> [] | Some q \<Rightarrow> q) else []))"

section \<open>The request\<close>

record curl_transfer =
  tr_pieces :: "(bool \<times> string) list"  \<comment> \<open>what libcurl hands to the callbacks; \<open>True\<close> for a header\<close>
  tr_code :: int                         \<comment> \<open>the result, when every piece is taken\<close>
  tr_stats :: "libcurl_wrap_stats_ctx"
  tr_response_code :: "int option"       \<comment> \<open>\<open>None\<close> when \<open>curl_easy_getinfo\<close> fails\<close>

record curl_env =
  env_easy_init :: bool
  env_calloc :: "nat \<Rightarrow> bool"      \<comment> \<open>the blocks for the URL, the body and the headers\<close>
  env_realloc :: "nat \<Rightarrow> bool"
  env_slist :: "nat \<Rightarrow> bool"       \<comment> \<open>the nodes of the header list\<close>
  env_setopt :: setopt
  env_perform :: "curl_opt list \<Rightarrow> curl_transfer"

abbreviation (input) CURLE_OK :: int where "CURLE_OK \<equiv> 0"
abbreviation (input) CURLE_WRITE_ERROR :: int where "CURLE_WRITE_ERROR \<equiv> 23"

fun deliver ::
    "(nat \<Rightarrow> bool) \<Rightarrow> (bool \<times> string) list \<Rightarrow> curl_write_mem_ctx \<Rightarrow> curl_write_mem_ctx \<Rightarrow>
     (bool \<times> curl_write_mem_ctx \<times> curl_write_mem_ctx) option" where
  \<comment> \<open>libcurl calls back for each piece, and stops at one that is not taken whole\<close>
  "deliver realloc_ok [] body hdrs = Some (True, body, hdrs)"
| "deliver realloc_ok ((is_hdr, piece) # pieces) body hdrs =
     (case curl_write_body_callback realloc_ok (Some piece) 1 (length piece)
             (Some (if is_hdr then hdrs else body)) of
        Some (ret, Some ctx) \<Rightarrow>
          let (body, hdrs) = (if is_hdr then (body, ctx) else (ctx, hdrs))
          in if ret = length piece then deliver realloc_ok pieces body hdrs
             else Some (False, body, hdrs)
      | _ \<Rightarrow> None)"

record cli_state =
  cs_curl :: bool                  \<comment> \<open>the handle is open\<close>
  cs_opts :: "curl_opt list"       \<comment> \<open>the options set on it\<close>
  cs_url :: "string option"
  cs_hdr_list :: "string list"
  cs_lost :: "string list"         \<comment> \<open>history: headers allocated in lists that no pointer leads to\<close>
  cs_rctx :: curl_read_mem_ctx
  cs_body :: curl_write_mem_ctx
  cs_hdrs :: curl_write_mem_ctx

record cli_out =
  ref_response_str :: "string option"      \<comment> \<open>\<open>None\<close> when not assigned\<close>
  ref_http_ret_code :: "int option"
  ref_headers_out_str :: "string option"
  ref_stats_ctx :: "libcurl_wrap_stats_ctx option"

definition cli_end :: "cli_state \<Rightarrow> cli_state" where
  \<comment> \<open>the label \<open>end\<close>\<close>
  "cli_end st = st\<lparr>cs_curl := False, cs_url := None, cs_hdr_list := [],
     cs_body := (cs_body st)\<lparr>wr_data := None\<rparr>, cs_hdrs := (cs_hdrs st)\<lparr>wr_data := None\<rparr>\<rparr>"

type_synonym cli_result = "(int \<times> cli_out \<times> cli_state) option"

definition cli_fail :: "int \<Rightarrow> cli_out \<Rightarrow> cli_state \<Rightarrow> cli_result" where
  \<comment> \<open>\<open>goto end\<close>\<close>
  "cli_fail code out st = Some (code, out, cli_end st)"

definition cli_setopts ::
    "setopt \<Rightarrow> curl_opt list \<Rightarrow> cli_state \<Rightarrow> (cli_state \<Rightarrow> cli_result) \<Rightarrow> cli_out \<Rightarrow> cli_result" where
  \<comment> \<open>a sequence of \<open>CHECK_DO(curl_easy_setopt(...)== CURLE_OK, goto end)\<close>\<close>
  "cli_setopts ok new st k out =
     (case fold (\<lambda>opt r. Option.bind r (curl_easy_setopt ok opt)) new (Some (cs_opts st)) of
        None \<Rightarrow> cli_fail (-1) out st
      | Some opts \<Rightarrow> k (st\<lparr>cs_opts := opts\<rparr>))"

definition cli_finish ::
    "curl_env \<Rightarrow> bool \<Rightarrow> bool \<Rightarrow> cli_out \<Rightarrow> cli_state \<Rightarrow> cli_result" where
  \<comment> \<open>from \<open>curl_easy_perform\<close> on; the flags say which of the optional results are wanted\<close>
  "cli_finish env want_headers want_stats out st =
     (let tr = env_perform env (cs_opts st)
      in case deliver (env_realloc env) (tr_pieces tr) (cs_body st) (cs_hdrs st) of
           None \<Rightarrow> None
         | Some (taken, body, hdrs) \<Rightarrow>
             let st = st\<lparr>cs_body := body, cs_hdrs := hdrs\<rparr>;
                 curl_code = (if taken then tr_code tr else CURLE_WRITE_ERROR)
             in if curl_code \<noteq> CURLE_OK then cli_fail curl_code out st
                else
                  let out = (if want_stats then out\<lparr>ref_stats_ctx := Some (tr_stats tr)\<rparr> else out);
                      (out, st) =
                        (if wr_size body > 0
                         then (out\<lparr>ref_response_str := wr_data body\<rparr>,
                               st\<lparr>cs_body := body\<lparr>wr_data := None, wr_size := 0\<rparr>\<rparr>)
                         else (out, st));
                      (out, st) =
                        (if want_headers \<and> wr_size hdrs > 0
                         then (out\<lparr>ref_headers_out_str := wr_data hdrs\<rparr>,
                               st\<lparr>cs_hdrs := hdrs\<lparr>wr_data := None, wr_size := 0\<rparr>\<rparr>)
                         else (out, st))
                  in case tr_response_code tr of
                       None \<Rightarrow> cli_fail (-1) out st
                     | Some code \<Rightarrow> Some (0, out\<lparr>ref_http_ret_code := Some code\<rparr>, cli_end st))"

definition cli_agent_timeout ::
    "curl_env \<Rightarrow> libcurl_wrap_req_ctx \<Rightarrow> bool \<Rightarrow> bool \<Rightarrow> cli_out \<Rightarrow> cli_state \<Rightarrow> cli_result" where
  \<comment> \<open>the header lines, the verbose flag, the user agent and the time-out\<close>
  "cli_agent_timeout env req want_headers want_stats out st =
     cli_setopts (env_setopt env)
       (CURLOPT_HEADERDATA #
        (if req_flag_libcurl_verbose req \<noteq> 0 then [CURLOPT_VERBOSE 1] else []) @
        (let idx = find_header (req_headers req) (Some ''User-Agent'') None
         in if idx \<ge> 0
            then (case req_headers req of
                    None \<Rightarrow> [] | Some hdrs \<Rightarrow> [CURLOPT_USERAGENT (hdrs ! nat idx)])
            else []) @
        [CURLOPT_TIMEOUT (req_tout req), CURLOPT_NOSIGNAL 1])
       st (cli_finish env want_headers want_stats out) out"

definition cli_writers ::
    "curl_env \<Rightarrow> libcurl_wrap_req_ctx \<Rightarrow> bool \<Rightarrow> bool \<Rightarrow> cli_out \<Rightarrow> cli_state \<Rightarrow> cli_result" where
  \<comment> \<open>the two blocks that collect the body and the headers\<close>
  "cli_writers env req want_headers want_stats out st =
     cli_setopts (env_setopt env) [CURLOPT_WRITEFUNCTION] st
       (\<lambda>st. if \<not> env_calloc env 1 then cli_fail (-1) out st
             else cli_setopts (env_setopt env) [CURLOPT_WRITEDATA, CURLOPT_HEADERFUNCTION]
                    (st\<lparr>cs_body := \<lparr>wr_data = Some [], wr_cap = 1, wr_size = 0\<rparr>\<rparr>)
                    (\<lambda>st. if \<not> env_calloc env 2 then cli_fail (-1) out st
                          else cli_agent_timeout env req want_headers want_stats out
                                 (st\<lparr>cs_hdrs := \<lparr>wr_data = Some [], wr_cap = 1, wr_size = 0\<rparr>\<rparr>))
                    out)
       out"

definition cli_method_options ::
    "curl_env \<Rightarrow> libcurl_wrap_req_ctx \<Rightarrow> bool \<Rightarrow> bool \<Rightarrow> cli_out \<Rightarrow> cli_state \<Rightarrow> cli_result" where
  "cli_method_options env req want_headers want_stats out st =
     (case (case req_method req of
              LIBCURL_WRAP_METHOD_POST \<Rightarrow>
                libcurl_wrap_cli_request_post_options (env_setopt env) (req_body req) (cs_rctx st)
                  (req_headers req) (cs_opts st)
            | LIBCURL_WRAP_METHOD_PUT \<Rightarrow>
                libcurl_wrap_cli_request_put_options (env_setopt env) (req_body req) (cs_rctx st)
                  (cs_opts st)
            | _ \<Rightarrow> Some (cs_rctx st, cs_opts st)) of
        None \<Rightarrow> cli_fail (-1) out st
      | Some (rctx, opts) \<Rightarrow>
          let (hdr_list, lost, opts) =
                set_headers (env_setopt env) (env_slist env) (req_headers req) (cs_hdr_list st) (cs_lost st) opts
          in cli_writers env req want_headers want_stats out
               (st\<lparr>cs_rctx := rctx, cs_hdr_list := hdr_list, cs_lost := lost, cs_opts := opts\<rparr>))"

definition libcurl_wrap_cli_request ::
    "curl_env \<Rightarrow> libcurl_wrap_req_ctx option \<Rightarrow> bool \<Rightarrow> bool \<Rightarrow> bool \<Rightarrow> bool \<Rightarrow> cli_result" where
  \<comment> \<open>the flags say which of the result pointers are not \<open>NULL\<close>: response, code, headers, stats\<close>
  "libcurl_wrap_cli_request env req_ctx want_response want_code want_headers want_stats =
     (let wctx0 = \<lparr>wr_data = None, wr_cap = 0, wr_size = 0\<rparr>;
          st = \<lparr>cs_curl = False, cs_opts = [], cs_url = None, cs_hdr_list = [], cs_lost = [],
                cs_rctx = \<lparr>p_read = None, size_left = 0\<rparr>, cs_body = wctx0, cs_hdrs = wctx0\<rparr>;
          out = \<lparr>ref_response_str = None, ref_http_ret_code = None, ref_headers_out_str = None,
                 ref_stats_ctx = None\<rparr>
      in case req_ctx of
           None \<Rightarrow> Some (-1, out, st)
         | Some req \<Rightarrow>
             if \<not> want_response \<or> \<not> want_code then Some (-1, out, st)
             else
               let out = out\<lparr>ref_http_ret_code := Some 404\<rparr>
               in if req_method req = LIBCURL_WRAP_METHOD_MAX then cli_fail (-1) out st
                  else if \<not> env_easy_init env then cli_fail (-1) out st
                  else
                    let st = st\<lparr>cs_curl := True\<rparr>
                    in case (req_host req, req_port req) of
                         (Some host, Some port) \<Rightarrow>
                           let q = attach_query (req_method req) (req_qstring req);
                               usize = url_size host port (req_location req) (req_qstring req) q
                           in if \<not> (usize > 0 \<and> usize < URL_MAX_SIZE) then cli_fail (-1) out st
                              else if \<not> env_calloc env 0 then cli_fail (-1) out st
                              else
                                let url = compose_url host port (req_location req) (req_qstring req) q
                                in cli_setopts (env_setopt env) [CURLOPT_URL url]
                                     (st\<lparr>cs_url := Some url\<rparr>)
                                     (cli_method_options env req want_headers want_stats out) out
                       | _ \<Rightarrow> cli_fail (-1) out st)"

section \<open>The URL fits its block\<close>

definition full_url :: "libcurl_wrap_req_ctx \<Rightarrow> string \<Rightarrow> string \<Rightarrow> string" where
  "full_url req host port =
     host @ '':'' @ port @ (case req_location req of None \<Rightarrow> [] | Some l \<Rightarrow> l) @
     (case req_qstring req of
        None \<Rightarrow> []
      | Some q \<Rightarrow> if req_method req = LIBCURL_WRAP_METHOD_GET \<and> q \<noteq> [] then ''?'' @ q else [])"

lemma compose_url_full:
  "compose_url host port (req_location req) (req_qstring req)
     (attach_query (req_method req) (req_qstring req)) = full_url req host port"
  "url_size host port (req_location req) (req_qstring req)
     (attach_query (req_method req) (req_qstring req)) = length (full_url req host port) + 1"
  by (cases "req_location req"; cases "req_qstring req";
      auto simp: compose_url_def c_snprintf_def url_size_def full_url_def attach_query_def)+

section \<open>Sending and collecting\<close>

fun read_calls ::
    "(nat \<times> nat) list \<Rightarrow> curl_read_mem_ctx option \<Rightarrow> string list \<times> curl_read_mem_ctx option" where
  \<comment> \<open>successive calls with the given sizes, and what each copied\<close>
  "read_calls [] ctx = ([], ctx)"
| "read_calls ((sz, nmemb) # calls) ctx =
     (let (out, ctx) = curl_read_body_callback True sz nmemb ctx;
          (outs, ctx) = read_calls calls ctx
      in (out # outs, ctx))"

lemma read_callback_eq:
  assumes "size_left ctx = length b" "p_read ctx = Some b" "sz * nmemb < 2 ^ 64"
  shows "curl_read_body_callback True sz nmemb (Some ctx) =
    (take (sz * nmemb) b, Some \<lparr>p_read = Some (drop (sz * nmemb) b), size_left = length b - sz * nmemb\<rparr>)"
proof (cases ctx)
  case (fields p l)
  then show ?thesis using assms by (cases b) (auto simp: curl_read_body_callback_def Let_def)
qed

lemma read_calls_prefix:
  assumes "\<forall>(sz, nmemb) \<in> set calls. sz * nmemb < 2 ^ 64"
  shows "concat (fst (read_calls calls (Some \<lparr>p_read = Some b, size_left = length b\<rparr>))) =
     take (sum_list (map (\<lambda>(sz, nmemb). sz * nmemb) calls)) b"
  using assms
proof (induction calls arbitrary: b)
  case Nil
  then show ?case by simp
next
  case (Cons c calls)
  obtain sz nmemb where c: "c = (sz, nmemb)" by (metis prod.exhaust)
  have "length b - sz * nmemb = length (drop (sz * nmemb) b)" by simp
  then show ?case
    using Cons.IH [of "drop (sz * nmemb) b"] Cons.prems
    by (simp add: c Let_def read_callback_eq split: prod.splits) (metis add.commute take_add fst_conv)
qed

definition wctx_ok :: "curl_write_mem_ctx \<Rightarrow> bool" where
  \<comment> \<open>the block holds what was written and a terminating NUL\<close>
  "wctx_ok ctx \<longleftrightarrow> (\<exists>d. wr_data ctx = Some d \<and> length d = wr_size ctx) \<and> wr_size ctx < wr_cap ctx"

lemma write_callback_ok:
  assumes "wctx_ok ctx" "wr_size ctx + length piece + 1 < 2 ^ 64"
  shows "\<exists>ret ctx'. curl_write_body_callback realloc_ok (Some piece) 1 (length piece) (Some ctx) = Some (ret, Some ctx') \<and>
    wctx_ok ctx' \<and>
    (if ret = length piece
     then wr_data ctx' = Some (the (wr_data ctx) @ piece) \<and> wr_size ctx' = wr_size ctx + length piece
     else ctx' = ctx)"
proof -
  obtain d where d: "wr_data ctx = Some d" "length d = wr_size ctx" using assms(1) by (auto simp: wctx_ok_def)
  have m: "length piece mod 2 ^ 64 = length piece" "(wr_size ctx + length piece + 1) mod 2 ^ 64 = wr_size ctx + length piece + 1"
    using assms(2) by simp_all
  show ?thesis
  proof (cases "piece = []")
    case True
    then show ?thesis using assms(1) d by (simp add: curl_write_body_callback_def)
  next
    case False
    show ?thesis
    proof (cases "realloc_ok (wr_size ctx + length piece + 1)")
      case True
      let ?ctx = "\<lparr>wr_data = Some (d @ piece), wr_cap = wr_size ctx + length piece + 1,
                  wr_size = wr_size ctx + length piece\<rparr>"
      have "curl_write_body_callback realloc_ok (Some piece) 1 (length piece) (Some ctx) =
          Some (length piece, Some ?ctx)"
        using True False m d by (simp add: curl_write_body_callback_def Let_def)
      moreover have "wctx_ok ?ctx" using d by (simp add: wctx_ok_def)
      ultimately show ?thesis using d by simp
    next
      case rf: False
      then have "curl_write_body_callback realloc_ok (Some piece) 1 (length piece) (Some ctx) =
          Some (0, Some ctx)"
        using False m d by (simp add: curl_write_body_callback_def Let_def)
      then show ?thesis using assms(1) False by simp
    qed
  qed
qed

definition pieces_of :: "bool \<Rightarrow> (bool \<times> string) list \<Rightarrow> string" where
  "pieces_of h pieces = concat (map snd (filter (\<lambda>p. fst p = h) pieces))"

lemma deliver_ok:
  assumes "wctx_ok body" "wctx_ok hdrs"
    and "wr_size body + wr_size hdrs + length (concat (map snd pieces)) + 1 < 2 ^ 64"
  shows "\<exists>taken body' hdrs'. deliver realloc_ok pieces body hdrs = Some (taken, body', hdrs') \<and>
    wctx_ok body' \<and> wctx_ok hdrs' \<and>
    (taken \<longrightarrow> wr_data body' = Some (the (wr_data body) @ pieces_of False pieces) \<and>
       wr_data hdrs' = Some (the (wr_data hdrs) @ pieces_of True pieces))"
  using assms
proof (induction pieces arbitrary: body hdrs)
  case Nil
  then obtain d e where "wr_data body = Some d" "wr_data hdrs = Some e" by (auto simp: wctx_ok_def)
  with Nil show ?case by (intro exI [of _ True] exI [of _ body] exI [of _ hdrs]) (simp add: pieces_of_def)
next
  case (Cons p pieces)
  obtain h piece where p: "p = (h, piece)" by (metis prod.exhaust)
  let ?ctx = "if h then hdrs else body"
  have "wctx_ok ?ctx" "wr_size ?ctx + length piece + 1 < 2 ^ 64"
    using Cons.prems p by auto
  from write_callback_ok [OF this, of realloc_ok] obtain ret ctx' where
    w: "curl_write_body_callback realloc_ok (Some piece) 1 (length piece) (Some ?ctx) = Some (ret, Some ctx')"
    "wctx_ok ctx'" and
    r: "if ret = length piece
     then wr_data ctx' = Some (the (wr_data ?ctx) @ piece) \<and> wr_size ctx' = wr_size ?ctx + length piece
     else ctx' = ?ctx" by blast
  show ?case
  proof (cases "ret = length piece")
    case False
    with w r Cons.prems p show ?thesis
      by (cases h; intro exI [of _ False] exI [of _ body] exI [of _ hdrs]) simp_all
  next
    case True
    with r have d: "wr_data ctx' = Some (the (wr_data ?ctx) @ piece)" "wr_size ctx' = wr_size ?ctx + length piece"
      by simp_all
    show ?thesis
    proof (cases h)
      case h: True
      have "wr_size body + wr_size ctx' + length (concat (map snd pieces)) + 1 < 2 ^ 64"
        using Cons.prems(3) d h p by simp
      from Cons.IH [OF Cons.prems(1) w(2) this] obtain taken body' hdrs' where
        "deliver realloc_ok pieces body ctx' = Some (taken, body', hdrs')" "wctx_ok body'" "wctx_ok hdrs'"
        "taken \<longrightarrow> wr_data body' = Some (the (wr_data body) @ pieces_of False pieces) \<and>
           wr_data hdrs' = Some (the (wr_data ctx') @ pieces_of True pieces)" by blast
      then show ?thesis using d w(1) h True p by (simp add: pieces_of_def)
    next
      case h: False
      have "wr_size ctx' + wr_size hdrs + length (concat (map snd pieces)) + 1 < 2 ^ 64"
        using Cons.prems(3) d h p by simp
      from Cons.IH [OF w(2) Cons.prems(2) this] obtain taken body' hdrs' where
        "deliver realloc_ok pieces ctx' hdrs = Some (taken, body', hdrs')" "wctx_ok body'" "wctx_ok hdrs'"
        "taken \<longrightarrow> wr_data body' = Some (the (wr_data ctx') @ pieces_of False pieces) \<and>
           wr_data hdrs' = Some (the (wr_data hdrs) @ pieces_of True pieces)" by blast
      then show ?thesis using d w(1) h True p by (simp add: pieces_of_def)
    qed
  qed
qed

section \<open>The search, specified\<close>

abbreviation (input) lower_chars :: "string \<Rightarrow> int list" where
  "lower_chars s \<equiv> map (\<lambda>c. c_tolower (cval c)) s"

lemma c_tolower_0 [simp]: "c_tolower n = 0 \<longleftrightarrow> n = 0"
  by (auto simp: c_tolower_def)

lemma c_strncasecmp_prefix:
  assumes "no_nul t"
  shows "c_strncasecmp s (t @ u) (length t) = 0 \<longleftrightarrow> take (length t) (lower_chars s) = lower_chars t"
  using assms
proof (induction t arbitrary: s)
  case Nil
  then show ?case by simp
next
  case (Cons c t)
  show ?case
  proof (cases s)
    case Nil
    have "c_tolower 0 \<noteq> c_tolower (cval c)" using Cons.prems by (auto simp: c_tolower_def split: if_splits)
    with Nil show ?thesis by (simp add: Let_def)
  next
    case (Cons d s')
    with Cons.prems Cons.IH [of s'] show ?thesis by (auto simp: Let_def)
  qed
qed

definition hdr_selected :: "string \<Rightarrow> string option \<Rightarrow> string \<Rightarrow> bool" where
  \<comment> \<open>what the loop looks for, in terms of the tag and the rest of the line\<close>
  "hdr_selected needle val_needle hdr \<longleftrightarrow>
     (\<exists>tag rest. hdr = tag @ CHR '':'' # rest \<and> CHR '':'' \<notin> set tag \<and> tag \<noteq> [] \<and>
        length tag \<le> HDRS_MAX_SIZE \<and> take (length tag) (lower_chars needle) = lower_chars tag \<and>
        (case val_needle of None \<Rightarrow> True | Some v \<Rightarrow> c_strstr (CHR '':'' # rest) v))"

lemma hdr_selected_tag:
  assumes "CHR '':'' \<notin> set tag"
  shows "hdr_selected needle val_needle (tag @ CHR '':'' # rest) \<longleftrightarrow>
    tag \<noteq> [] \<and> length tag \<le> HDRS_MAX_SIZE \<and> take (length tag) (lower_chars needle) = lower_chars tag \<and>
    (case val_needle of None \<Rightarrow> True | Some v \<Rightarrow> c_strstr (CHR '':'' # rest) v)"
proof -
  have "tag' = tag \<and> rest' = rest"
    if "tag @ CHR '':'' # rest = tag' @ CHR '':'' # rest'" "CHR '':'' \<notin> set tag'" for tag' rest'
    using c_strchr_append [OF assms, of rest] c_strchr_append [OF that(2), of rest'] that(1) by simp
  then show ?thesis unfolding hdr_selected_def using assms by blast
qed

lemma hdr_selected_no_colon: "CHR '':'' \<notin> set hdr \<Longrightarrow> \<not> hdr_selected needle val_needle hdr"
  by (auto simp: hdr_selected_def)

lemma find_header_loop_step:
  assumes "no_nul hdr"
  shows "find_header_loop needle val_needle i (hdr # hdrs) =
    (if i \<ge> HDRS_MAX_NUM then -1
     else if hdr_selected needle val_needle hdr then int i
     else find_header_loop needle val_needle (Suc i) hdrs)"
proof (cases "c_strchr hdr CHR '':''")
  case None
  then have "CHR '':'' \<notin> set hdr" by (simp only: c_strchr_None not_False_eq_True)
  with None show ?thesis by (simp add: hdr_selected_no_colon)
next
  case (Some n)
  have n: "n < length hdr" "hdr ! n = CHR '':''" "CHR '':'' \<notin> set (take n hdr)"
    using c_strchr_Some [OF Some] by simp_all
  let ?tag = "take n hdr" and ?rest = "drop (Suc n) hdr"
  have split: "hdr = ?tag @ CHR '':'' # ?rest" using id_take_nth_drop [OF n(1)] n(2) by simp
  have len: "length ?tag = n" using n by simp
  have drp: "drop n hdr = CHR '':'' # ?rest" using n by (metis Cons_nth_drop_Suc)
  have "hdr_selected needle val_needle (?tag @ CHR '':'' # ?rest) \<longleftrightarrow>
    ?tag \<noteq> [] \<and> length ?tag \<le> HDRS_MAX_SIZE \<and> c_strncasecmp needle (?tag @ CHR '':'' # ?rest) (length ?tag) = 0 \<and>
    (case val_needle of None \<Rightarrow> True | Some v \<Rightarrow> c_strstr (CHR '':'' # ?rest) v)"
    using assms c_strncasecmp_prefix [of ?tag needle "CHR '':'' # ?rest"] hdr_selected_tag [OF n(3)] by simp
  then have "hdr_selected needle val_needle hdr \<longleftrightarrow>
    n \<noteq> 0 \<and> n \<le> HDRS_MAX_SIZE \<and> c_strncasecmp needle hdr n = 0 \<and>
    (case val_needle of None \<Rightarrow> True | Some v \<Rightarrow> c_strstr (drop n hdr) v)"
    unfolding split [symmetric] len drp using n(1) by auto
  with Some show ?thesis by (simp add: Let_def)
qed

lemma find_header_loop_spec:
  assumes "list_all no_nul hdrs"
  shows "find_header_loop needle val_needle i hdrs =
    (let hs = take (HDRS_MAX_NUM - i) hdrs;
         j = length (takeWhile (\<lambda>h. \<not> hdr_selected needle val_needle h) hs)
     in if j < length hs then int (i + j) else -1)"
  using assms
proof (induction hdrs arbitrary: i)
  case Nil
  then show ?case by simp
next
  case (Cons h hdrs)
  have h: "no_nul h" "list_all no_nul hdrs" using Cons.prems by simp_all
  show ?case
  proof (cases "i \<ge> HDRS_MAX_NUM")
    case True
    with h show ?thesis by (simp add: find_header_loop_step del: find_header_loop.simps)
  next
    case False
    then have "40 - i = Suc (40 - Suc i)" by simp
    with False h Cons.IH [OF h(2), of "Suc i"] show ?thesis
      by (simp add: find_header_loop_step Let_def del: find_header_loop.simps)
  qed
qed

lemma find_header_eq:
  assumes "list_all no_nul hdrs"
  shows "find_header (Some hdrs) (Some needle) val_needle =
    (let hs = take HDRS_MAX_NUM hdrs;
         j = length (takeWhile (\<lambda>h. \<not> hdr_selected needle val_needle h) hs)
     in if j < length hs then int j else -1)"
  using find_header_loop_spec [OF assms, of needle val_needle 0] by (simp add: find_header_def Let_def)

lemma find_header_bounds:
  assumes "list_all no_nul hdrs" "find_header (Some hdrs) (Some needle) val_needle = i" "i \<noteq> -1"
  shows "0 \<le> i" "nat i < length hdrs" "nat i < HDRS_MAX_NUM"
    "hdr_selected needle val_needle (hdrs ! nat i)"
    "\<And>j. j < nat i \<Longrightarrow> \<not> hdr_selected needle val_needle (hdrs ! j)"
proof -
  let ?P = "\<lambda>h. \<not> hdr_selected needle val_needle h"
  let ?hs = "take HDRS_MAX_NUM hdrs"
  have i: "length (takeWhile ?P ?hs) < length ?hs" "i = int (length (takeWhile ?P ?hs))"
    using find_header_eq [OF assms(1), of needle val_needle] assms(2,3) by (auto simp: Let_def split: if_splits)
  then show "0 \<le> i" "nat i < length hdrs" "nat i < HDRS_MAX_NUM" by simp_all
  have "hdr_selected needle val_needle (?hs ! nat i)" using nth_length_takeWhile [OF i(1)] i(2) by simp
  then show "hdr_selected needle val_needle (hdrs ! nat i)" using i by simp
  fix j
  assume j: "j < nat i"
  then have "takeWhile ?P ?hs ! j \<in> set (takeWhile ?P ?hs)" using i(2) by (intro nth_mem) simp
  from set_takeWhileD [OF this] have "?P (takeWhile ?P ?hs ! j)" by blast
  moreover have "takeWhile ?P ?hs ! j = ?hs ! j" using j i by (intro takeWhile_nth) simp
  moreover have "?hs ! j = hdrs ! j" using j i by simp
  ultimately show "?P (hdrs ! j)" by simp
qed

section \<open>The whole request\<close>

definition cli_released :: "cli_state \<Rightarrow> bool" where
  "cli_released st \<longleftrightarrow> \<not> cs_curl st \<and> cs_url st = None \<and> cs_hdr_list st = [] \<and>
     wr_data (cs_body st) = None \<and> wr_data (cs_hdrs st) = None"

lemma cli_end_released [simp]: "cli_released (cli_end st)"
  by (simp add: cli_released_def cli_end_def)

definition lost_ok :: "curl_env \<Rightarrow> cli_state \<Rightarrow> bool" where
  \<comment> \<open>no header is lost unless a node of the list cannot be allocated\<close>
  "lost_ok env st \<longleftrightarrow> ((\<forall>i < HDRS_MAX_NUM. env_slist env i) \<longrightarrow> cs_lost st = [])"

lemma lost_ok_end [simp]: "lost_ok env (cli_end st) = lost_ok env st"
  by (simp add: lost_ok_def cli_end_def)

lemma lost_ok_cong: "cs_lost st' = cs_lost st \<Longrightarrow> lost_ok env st' = lost_ok env st"
  by (simp add: lost_ok_def)

definition nonempty_str :: "string \<Rightarrow> string option" where
  "nonempty_str s = (if s = [] then None else Some s)"

definition cli_post :: "curl_env \<Rightarrow> bool \<Rightarrow> bool \<Rightarrow> string \<Rightarrow> cli_result \<Rightarrow> bool" where
  \<comment> \<open>what a request promises: it ends, gives back everything it has pointers to, loses nothing unless a node of the
      header list cannot be allocated, and hands out what was transferred\<close>
  "cli_post env want_headers want_stats url r \<longleftrightarrow>
     (\<exists>code out st. r = Some (code, out, st) \<and> cli_released st \<and>
        lost_ok env st \<and>
        (code = 0 \<longrightarrow>
           (\<exists>opts. CURLOPT_URL url \<in> set opts \<and>
              (let tr = env_perform env opts in
                 tr_code tr = CURLE_OK \<and> tr_response_code tr \<noteq> None \<and>
                 ref_http_ret_code out = tr_response_code tr \<and>
                 ref_response_str out = nonempty_str (pieces_of False (tr_pieces tr)) \<and>
                 ref_headers_out_str out =
                   (if want_headers then nonempty_str (pieces_of True (tr_pieces tr)) else None) \<and>
                 ref_stats_ctx out = (if want_stats then Some (tr_stats tr) else None)))))"

lemma cli_fail_post: "code \<noteq> 0 \<Longrightarrow> lost_ok env st \<Longrightarrow> cli_post env wh ws url (cli_fail code out st)"
  by (simp add: cli_post_def cli_fail_def)

lemma setopts_fold:
  "fold (\<lambda>opt r. Option.bind r (curl_easy_setopt ok opt)) new (Some opts) =
     (if list_all ok new then Some (opts @ new) else None)"
proof (induction new arbitrary: opts)
  case (Cons x new)
  have "fold (\<lambda>opt r. Option.bind r (curl_easy_setopt ok opt)) xs None = None" for xs by (induction xs) simp_all
  then have none: "fold (\<lambda>opt r. Option.bind r (curl_easy_setopt ok opt)) new None = None" .
  show ?case
  proof (cases "ok x")
    case True
    then show ?thesis using Cons.IH [of "opts @ [x]"] by (simp add: curl_easy_setopt_def)
  next
    case False
    then have "curl_easy_setopt ok x opts = None" by (simp add: curl_easy_setopt_def)
    then show ?thesis using none False by simp
  qed
qed simp

lemma cli_setopts_post:
  assumes "cli_post env wh ws url (k (st\<lparr>cs_opts := cs_opts st @ new\<rparr>))" "lost_ok env st"
  shows "cli_post env wh ws url (cli_setopts ok new st k out)"
  using assms by (simp add: cli_setopts_def setopts_fold cli_fail_post)

definition fresh_wctx :: curl_write_mem_ctx where
  "fresh_wctx = \<lparr>wr_data = Some [], wr_cap = 1, wr_size = 0\<rparr>"

definition cli_out0 :: cli_out where
  "cli_out0 = \<lparr>ref_response_str = None, ref_http_ret_code = Some 404, ref_headers_out_str = None,
     ref_stats_ctx = None\<rparr>"

definition env_small :: "curl_env \<Rightarrow> bool" where
  \<comment> \<open>no transfer is as long as the address space\<close>
  "env_small env \<longleftrightarrow> (\<forall>opts. length (concat (map snd (tr_pieces (env_perform env opts)))) + 1 < 2 ^ 64)"

lemma cli_finish_post:
  assumes "env_small env" "CURLOPT_URL url \<in> set (cs_opts st)" "cs_body st = fresh_wctx" "cs_hdrs st = fresh_wctx"
    and "lost_ok env st"
  shows "cli_post env wh ws url (cli_finish env wh ws cli_out0 st)"
proof -
  let ?tr = "env_perform env (cs_opts st)"
  have "wctx_ok fresh_wctx" by (simp add: wctx_ok_def fresh_wctx_def)
  moreover have "wr_size fresh_wctx + wr_size fresh_wctx + length (concat (map snd (tr_pieces ?tr))) + 1 < 2 ^ 64"
    using assms(1) by (simp add: env_small_def fresh_wctx_def)
  ultimately obtain taken body hdrs where
    d: "deliver (env_realloc env) (tr_pieces ?tr) fresh_wctx fresh_wctx = Some (taken, body, hdrs)"
    and ok: "wctx_ok body" "wctx_ok hdrs" and
    t: "taken \<longrightarrow> wr_data body = Some (pieces_of False (tr_pieces ?tr)) \<and> wr_data hdrs = Some (pieces_of True (tr_pieces ?tr))"
    using deliver_ok [of fresh_wctx fresh_wctx "tr_pieces ?tr" "env_realloc env"] by (auto simp: fresh_wctx_def)
  let ?st = "st\<lparr>cs_body := body, cs_hdrs := hdrs\<rparr>"
  show ?thesis
  proof (cases "taken \<and> tr_code ?tr = 0")
    case False
    then have ne: "(if taken then tr_code ?tr else CURLE_WRITE_ERROR) \<noteq> CURLE_OK" by (cases taken) simp_all
    have d': "deliver (env_realloc env) (tr_pieces ?tr) (cs_body st) (cs_hdrs st) = Some (taken, body, hdrs)"
      using d assms(3,4) by simp
    have "cli_finish env wh ws cli_out0 st =
        cli_fail (if taken then tr_code ?tr else CURLE_WRITE_ERROR) cli_out0 ?st"
      unfolding cli_finish_def Let_def d' option.case prod.case by (rule if_P [OF ne])
    moreover have "lost_ok env ?st" using assms(5) by (simp add: lost_ok_def)
    ultimately show ?thesis using ne by (simp add: cli_fail_post)
  next
    case True
    then have c: "taken" "tr_code ?tr = 0" by simp_all
    have sz: "wr_size body = length (pieces_of False (tr_pieces ?tr))" "wr_size hdrs = length (pieces_of True (tr_pieces ?tr))"
      using ok t c(1) by (auto simp: wctx_ok_def)
    have dat: "wr_data body = Some (pieces_of False (tr_pieces ?tr))" "wr_data hdrs = Some (pieces_of True (tr_pieces ?tr))"
      using t c(1) by simp_all
    show ?thesis
    proof (cases "tr_response_code ?tr")
      case None
      then show ?thesis
        using d assms(3-5) c by (simp add: cli_finish_def Let_def cli_fail_post lost_ok_def split: prod.split)
    next
      case (Some code)
      let ?out = "\<lparr>ref_response_str = nonempty_str (pieces_of False (tr_pieces ?tr)), ref_http_ret_code = Some code,
        ref_headers_out_str = (if wh then nonempty_str (pieces_of True (tr_pieces ?tr)) else None),
        ref_stats_ctx = (if ws then Some (tr_stats ?tr) else None)\<rparr>"
      have "\<exists>st'. cli_finish env wh ws cli_out0 st = Some (0, ?out, cli_end st') \<and> cs_lost st' = cs_lost st"
        using d assms(3,4) c sz dat Some
        by (cases "pieces_of False (tr_pieces ?tr)"; cases "pieces_of True (tr_pieces ?tr)"; cases wh; cases ws)
          (simp add: cli_finish_def Let_def cli_out0_def nonempty_str_def; rule exI, rule conjI, rule refl, simp)+
      then obtain st' where st': "cli_finish env wh ws cli_out0 st = Some (0, ?out, cli_end st')" "cs_lost st' = cs_lost st" by blast
      moreover have "lost_ok env st'" using lost_ok_cong [OF st'(2)] assms(5) by simp
      ultimately show ?thesis using assms(2) c Some by (auto simp: cli_post_def)
    qed
  qed
qed

lemma cli_agent_timeout_post:
  assumes "env_small env" "CURLOPT_URL url \<in> set (cs_opts st)" "cs_body st = fresh_wctx" "cs_hdrs st = fresh_wctx"
    and "lost_ok env st"
  shows "cli_post env wh ws url (cli_agent_timeout env req wh ws cli_out0 st)"
  unfolding cli_agent_timeout_def
  by (rule cli_setopts_post, rule cli_finish_post) (use assms in \<open>simp_all add: lost_ok_def\<close>)

lemma cli_writers_post:
  assumes "env_small env" "CURLOPT_URL url \<in> set (cs_opts st)" "lost_ok env st"
  shows "cli_post env wh ws url (cli_writers env req wh ws cli_out0 st)"
proof -
  have agent: "cli_post env wh ws url (if \<not> env_calloc env 2 then cli_fail (-1) cli_out0 s
      else cli_agent_timeout env req wh ws cli_out0 (s\<lparr>cs_hdrs := fresh_wctx\<rparr>))"
    if "CURLOPT_URL url \<in> set (cs_opts s)" "cs_body s = fresh_wctx" "lost_ok env s" for s
    using that cli_agent_timeout_post [OF assms(1), of url "s\<lparr>cs_hdrs := fresh_wctx\<rparr>"]
    by (simp add: cli_fail_post lost_ok_cong [of "s\<lparr>cs_hdrs := fresh_wctx\<rparr>" s])
  show ?thesis
    unfolding cli_writers_def fresh_wctx_def [symmetric]
    apply (rule cli_setopts_post)
     apply (cases "env_calloc env 1")
      apply (simp only: not_True_eq_False if_False)
      apply (rule cli_setopts_post)
       apply (rule agent)
    using assms apply (simp_all add: cli_fail_post lost_ok_def)
    done
qed

lemma post_options_keep:
  "libcurl_wrap_cli_request_post_options ok body rctx headers opts = Some (rctx', opts') \<Longrightarrow> set opts \<subseteq> set opts'"
  by (auto simp: libcurl_wrap_cli_request_post_options_def curl_easy_setopt_def Let_def
      split: if_splits option.splits)

lemma put_options_keep:
  "libcurl_wrap_cli_request_put_options ok body rctx opts = Some (rctx', opts') \<Longrightarrow> set opts \<subseteq> set opts'"
  by (auto simp: libcurl_wrap_cli_request_put_options_def curl_easy_setopt_def Let_def
      split: if_splits option.splits)

lemma set_headers_loop_lost:
  assumes "\<forall>i < HDRS_MAX_NUM. alloc_ok i"
  shows "snd (set_headers_loop alloc_ok i hdrs hdr_list lost) = lost"
  using assms by (induction alloc_ok i hdrs hdr_list lost rule: set_headers_loop.induct) simp_all

lemma set_headers_keep:
  assumes "set_headers ok alloc_ok headers hdr_list lost opts = (hdr_list', lost', opts')"
  shows "set opts \<subseteq> set opts'" "\<forall>i < HDRS_MAX_NUM. alloc_ok i \<Longrightarrow> lost' = lost"
proof -
  show "set opts \<subseteq> set opts'"
    using assms by (auto simp: set_headers_def curl_easy_setopt_def Let_def split: prod.splits if_splits)
  assume "\<forall>i < HDRS_MAX_NUM. alloc_ok i"
  then have "snd (set_headers_loop alloc_ok 0 hdrs hdr_list lost) = lost" for hdrs by (rule set_headers_loop_lost)
  then show "lost' = lost"
    using assms by (cases headers) (auto simp: set_headers_def Let_def split: prod.splits dest: arg_cong [of _ _ snd])
qed

lemma cli_method_options_post:
  assumes "env_small env" "CURLOPT_URL url \<in> set (cs_opts st)" "lost_ok env st"
  shows "cli_post env wh ws url (cli_method_options env req wh ws cli_out0 st)"
proof -
  let ?m = "case req_method req of
              LIBCURL_WRAP_METHOD_POST \<Rightarrow>
                libcurl_wrap_cli_request_post_options (env_setopt env) (req_body req) (cs_rctx st)
                  (req_headers req) (cs_opts st)
            | LIBCURL_WRAP_METHOD_PUT \<Rightarrow>
                libcurl_wrap_cli_request_put_options (env_setopt env) (req_body req) (cs_rctx st)
                  (cs_opts st)
            | _ \<Rightarrow> Some (cs_rctx st, cs_opts st)"
  show ?thesis
  proof (cases ?m)
    case None
    then show ?thesis using assms(3) by (simp add: cli_method_options_def cli_fail_post)
  next
    case (Some r)
    obtain rctx opts where r: "r = (rctx, opts)" by (metis prod.exhaust)
    obtain hdr_list lost opts' where h: "set_headers (env_setopt env) (env_slist env) (req_headers req) (cs_hdr_list st)
        (cs_lost st) opts = (hdr_list, lost, opts')"
      by (metis prod_cases3)
    have "set (cs_opts st) \<subseteq> set opts"
      using Some r post_options_keep put_options_keep by (cases "req_method req") fastforce+
    also have "set opts \<subseteq> set opts'" by (rule set_headers_keep(1) [OF h])
    finally have "CURLOPT_URL url \<in> set opts'" using assms(2) by blast
    then have "cli_post env wh ws url (cli_writers env req wh ws cli_out0
        (st\<lparr>cs_rctx := rctx, cs_hdr_list := hdr_list, cs_lost := lost, cs_opts := opts'\<rparr>))"
      using assms(3) set_headers_keep(2) [OF h] by (intro cli_writers_post) (auto simp: assms(1) lost_ok_def)
    then show ?thesis using Some r h by (simp add: cli_method_options_def)
  qed
qed

definition requested_url :: "libcurl_wrap_req_ctx option \<Rightarrow> string" where
  \<comment> \<open>of a request that has a host and a port\<close>
  "requested_url req_ctx =
     (case req_ctx of
        None \<Rightarrow> []
      | Some req \<Rightarrow> (case (req_host req, req_port req) of (Some host, Some port) \<Rightarrow> full_url req host port | _ \<Rightarrow> []))"

lemma libcurl_wrap_cli_request_post:
  assumes "env_small env"
  shows "cli_post env wh ws (requested_url req_ctx) (libcurl_wrap_cli_request env req_ctx want_response want_code wh ws)"
proof -
  let ?r = "libcurl_wrap_cli_request env req_ctx want_response want_code wh ws"
  have early: "cli_post env wh ws url (Some (-1, out, \<lparr>cs_curl = False, cs_opts = [], cs_url = None, cs_hdr_list = [], cs_lost = [],
      cs_rctx = rctx, cs_body = \<lparr>wr_data = None, wr_cap = 0, wr_size = 0\<rparr>, cs_hdrs = \<lparr>wr_data = None, wr_cap = 0, wr_size = 0\<rparr>\<rparr>))"
    for url out rctx by (simp add: cli_post_def cli_released_def lost_ok_def)
  show ?thesis
  proof (cases req_ctx)
    case None
    then show ?thesis by (simp add: libcurl_wrap_cli_request_def early Let_def)
  next
    case (Some req)
    show ?thesis
    proof (cases "want_response \<and> want_code")
      case False
      then show ?thesis using Some by (auto simp: libcurl_wrap_cli_request_def early Let_def)
    next
      case want: True
      show ?thesis
      proof (cases "\<exists>host port. req_host req = Some host \<and> req_port req = Some port")
        case False
        then have "?r = cli_fail (-1) cli_out0 st \<and> lost_ok env st \<Longrightarrow> ?thesis" for st by (simp add: cli_fail_post)
        moreover have "\<exists>st. ?r = cli_fail (-1) cli_out0 st \<and> cs_lost st = []"
          using False Some want
          by (cases "req_host req"; cases "req_port req")
            (auto simp: libcurl_wrap_cli_request_def cli_out0_def Let_def)
        ultimately show ?thesis by (auto simp: lost_ok_def)
      next
        case True
        then obtain host port where hp: "req_host req = Some host" "req_port req = Some port" by blast
        let ?st = "\<lparr>cs_curl = True, cs_opts = [], cs_url = Some (full_url req host port), cs_hdr_list = [], cs_lost = [],
          cs_rctx = \<lparr>p_read = None, size_left = 0\<rparr>, cs_body = \<lparr>wr_data = None, wr_cap = 0, wr_size = 0\<rparr>,
          cs_hdrs = \<lparr>wr_data = None, wr_cap = 0, wr_size = 0\<rparr>\<rparr>"
        have "cli_post env wh ws (full_url req host port)
          (cli_setopts (env_setopt env) [CURLOPT_URL (full_url req host port)] ?st (cli_method_options env req wh ws cli_out0) cli_out0)"
          by (rule cli_setopts_post, rule cli_method_options_post) (simp_all add: assms(1) lost_ok_def)
        then show ?thesis
          using want by (simp add: Some requested_url_def libcurl_wrap_cli_request_def hp compose_url_full cli_fail_post
              cli_out0_def [symmetric] Let_def lost_ok_def)
      qed
    qed
  qed
qed

lemma libcurl_wrap_cli_request_too_long:
  assumes "req_host req = Some host" "req_port req = Some port" "length (full_url req host port) + 1 \<ge> URL_MAX_SIZE"
  shows "\<exists>out st. libcurl_wrap_cli_request env (Some req) True True wh ws = Some (-1, out, st) \<and>
    cli_released st \<and> ref_http_ret_code out = Some 404 \<and> ref_response_str out = None"
  using assms
  by (simp add: libcurl_wrap_cli_request_def compose_url_full Let_def cli_fail_def)

section \<open>Properties\<close>

definition sample_req :: libcurl_wrap_req_ctx where
  "sample_req = \<lparr>req_method = LIBCURL_WRAP_METHOD_GET, req_headers = Some [''Accept: a/b''], req_host = Some ''h'',
     req_port = Some ''80'', req_location = Some ''/l'', req_qstring = Some ''q=1'', req_body = None, req_tout = 5,
     req_flag_libcurl_verbose = 0\<rparr>"

definition sample_env :: curl_env where
  \<comment> \<open>a server that answers every request with a body of two pieces\<close>
  "sample_env = \<lparr>env_easy_init = True, env_calloc = (\<lambda>_. True), env_realloc = (\<lambda>_. True), env_slist = (\<lambda>_. True), env_setopt = (\<lambda>_. True),
     env_perform = (\<lambda>_. \<lparr>tr_pieces = [(True, ''h: v''), (False, ''ab''), (False, ''c'')], tr_code = 0,
       tr_stats = \<lparr>time_connect_usecs = 1, time_first_byte_usecs = 2, time_total_usecs = 3, download_size_bytes = 3\<rparr>,
       tr_response_code = Some 200\<rparr>)\<rparr>"

lemma sample_env_small: "env_small sample_env"
  by (simp add: env_small_def sample_env_def)

text \<open>C39. A request ends in every case, whatever its arguments and with every failure of libcurl or of an allocation, and has
  then closed the handle and freed the URL, both buffers and the header list.  Only when a node of that list cannot be
  allocated may headers be lost, for then the pointer to the list is overwritten.  When it returns 0 the
  transfer was made with the URL composed of the request, succeeded, and its body, headers, code and statistics are
  the ones handed out, the body being the concatenation of the pieces received.  No transfer is taken to be as long as the
  address space.\<close>
theorem cli_request_contract:
  assumes "env_small env"
  shows "cli_post env want_headers want_stats (requested_url req_ctx)
    (libcurl_wrap_cli_request env req_ctx want_response want_code want_headers want_stats)"
  by (rule libcurl_wrap_cli_request_post [OF assms])

theorem cli_request_contract_witness:
  "cli_post sample_env True True ''h:80/l?q=1'' (libcurl_wrap_cli_request sample_env (Some sample_req) True True True True)"
proof -
  have "requested_url (Some sample_req) = ''h:80/l?q=1''" by (simp add: requested_url_def full_url_def sample_req_def)
  then show ?thesis
    using cli_request_contract [OF sample_env_small, of True True "Some sample_req" True True] by simp
qed

text \<open>The headers that are lost: when the second of three headers cannot be appended, the first is lost and the
  transfer is made with the third alone.\<close>
theorem header_list_lost:
  "set_headers (\<lambda>_. True) (\<lambda>i. i \<noteq> 1) (Some [a, b, c]) [] [] [] = ([c], [a], [CURLOPT_HTTPHEADER [c]])"
  by (simp add: set_headers_def curl_slist_append_def curl_easy_setopt_def)

text \<open>A URL that does not fit the limit is refused before anything is allocated for it: -1, the code
  404, no response, and the handle closed.\<close>
theorem cli_request_url_limit:
  assumes "req_host req = Some host" "req_port req = Some port" "length (full_url req host port) + 1 \<ge> URL_MAX_SIZE"
  shows "\<exists>out st. libcurl_wrap_cli_request env (Some req) True True want_headers want_stats = Some (-1, out, st) \<and>
    cli_released st \<and> ref_http_ret_code out = Some 404 \<and> ref_response_str out = None"
  by (rule libcurl_wrap_cli_request_too_long [OF assms])

theorem cli_request_url_limit_witness:
  "\<exists>out st. libcurl_wrap_cli_request sample_env (Some (sample_req\<lparr>req_host := Some (replicate 16384 CHR ''h'')\<rparr>)) True True False False =
     Some (-1, out, st) \<and> cli_released st"
  using cli_request_url_limit [of "sample_req\<lparr>req_host := Some (replicate 16384 CHR ''h'')\<rparr>" "replicate 16384 CHR ''h''" "''80''" sample_env False False]
  by (auto simp: sample_req_def full_url_def)

text \<open>The URL written is the host, the port, the location and, for a GET request with one, the query,
  and the buffer computed for it holds it with its NUL exactly, so \<open>snprintf\<close> cuts nothing off.\<close>
theorem url_composition_exact:
  "compose_url host port (req_location req) (req_qstring req) (attach_query (req_method req) (req_qstring req)) =
     full_url req host port \<and>
   url_size host port (req_location req) (req_qstring req) (attach_query (req_method req) (req_qstring req)) =
     length (full_url req host port) + 1"
  by (simp add: compose_url_full)

text \<open>\<open>find_header\<close> returns the index of the first of the first forty headers that it selects, or -1:
  a header is selected when its tag, of at most 512 characters, is a case-insensitive prefix of the
  needle and the rest of the line holds the value looked for.\<close>
theorem find_header_first:
  assumes "list_all no_nul hdrs"
  shows "find_header (Some hdrs) (Some needle) val_needle =
    (let hs = take HDRS_MAX_NUM hdrs; j = length (takeWhile (\<lambda>h. \<not> hdr_selected needle val_needle h) hs)
     in if j < length hs then int j else -1)"
  by (rule find_header_eq [OF assms])

theorem find_header_first_witness:
  "find_header (Some [''Accept: a/b'', ''U: x'']) (Some ''User-Agent'') None = 1"
proof -
  have t: "''Accept: a/b'' = ''Accept'' @ CHR '':'' # '' a/b''" "''U: x'' = ''U'' @ CHR '':'' # '' x''" by simp_all
  have "\<not> hdr_selected ''User-Agent'' None ''Accept: a/b''" "hdr_selected ''User-Agent'' None ''U: x''"
    unfolding t by (subst hdr_selected_tag; simp add: c_tolower_def cval_def)+
  then show ?thesis
    using find_header_first [of "[''Accept: a/b'', ''U: x'']" "''User-Agent''" None] by (simp add: cval_def)
qed

text \<open>However libcurl sizes its calls, the body sent is read in order, without gap or repetition, and
  whole once enough was asked for.\<close>
theorem body_sent_in_order:
  assumes "\<forall>(sz, nmemb) \<in> set calls. sz * nmemb < 2 ^ 64"
  shows "concat (fst (read_calls calls (Some \<lparr>p_read = Some b, size_left = length b\<rparr>))) =
    take (sum_list (map (\<lambda>(sz, nmemb). sz * nmemb) calls)) b"
  by (rule read_calls_prefix [OF assms])

theorem body_sent_in_order_witness:
  "concat (fst (read_calls [(1, 2), (1, 4)] (Some \<lparr>p_read = Some ''abcde'', size_left = length ''abcde''\<rparr>))) = ''abcde''"
  using body_sent_in_order [of "[(1, 2), (1, 4)]" "''abcde''"] by (simp del: read_calls.simps)

text \<open>C40. The write callback keeps its buffer well-formed (what was received, room for the NUL) whether or
  not it can be enlarged, and takes a piece whole or not at all, as long as what was received is smaller than the address space;
  libcurl calls it with a size of 1.\<close>
theorem write_callback_invariant:
  assumes "wctx_ok ctx" "wr_size ctx + length piece + 1 < 2 ^ 64"
  shows "\<exists>ret ctx'. curl_write_body_callback realloc_ok (Some piece) 1 (length piece) (Some ctx) = Some (ret, Some ctx') \<and>
    wctx_ok ctx' \<and>
    (if ret = length piece
     then wr_data ctx' = Some (the (wr_data ctx) @ piece) \<and> wr_size ctx' = wr_size ctx + length piece
     else ctx' = ctx)"
  by (rule write_callback_ok [OF assms])

theorem write_callback_invariant_witness:
  "\<exists>ret ctx'. curl_write_body_callback (\<lambda>_. True) (Some ''abc'') 1 (length ''abc'') (Some fresh_wctx) = Some (ret, Some ctx') \<and> wctx_ok ctx'"
proof -
  have "wctx_ok fresh_wctx" "wr_size fresh_wctx = 0" by (simp_all add: wctx_ok_def fresh_wctx_def)
  then show ?thesis using write_callback_invariant [of fresh_wctx "''abc''" "\<lambda>_. True"] by auto
qed

end
