(* ===== verification/Interr_Usleep.thy ===== *)
theory Interr_Usleep
  imports Nginx_Prelude
begin

text \<open>
  The interruptible sleep \<open>src/libs/utils/interr_usleep.c\<close>: opening and closing a context,
  the time-out a sleep computes, and the concurrent part, threads that sleep and threads that
  unblock them, as a step relation in which every access to the shared flag, the mutex and the
  condition variable is one step.

  A mutex has one owner; a wait on the condition variable gives up the mutex and starts to
  wait in one step, ends by a broadcast, by the time-out or for no reason, and takes the mutex
  again before it returns, as POSIX has it.
\<close>

abbreviation (input) ETIMEDOUT :: int where "ETIMEDOUT \<equiv> 110"
abbreviation (input) EINTR :: int where "EINTR \<equiv> 4"

section \<open>Opening and closing\<close>

datatype sync_state = Sync_None | Sync_Ready | Sync_Destroyed

record interr_usleep_ctx =
  iu_logs :: bool                        \<comment> \<open>\<open>utils_logs_ctx\<close> is not \<open>NULL\<close>\<close>
  flag_must_release_logs_ctx :: bool
  flag_exit :: bool
  interr_mutex :: sync_state
  interr_signal :: sync_state

definition iu_unlock :: "interr_usleep_ctx \<Rightarrow> interr_usleep_ctx option" where
  \<comment> \<open>the macro \<open>UNLOCK\<close> run by one thread; \<open>None\<close> is the use of a mutex or of a condition
      variable that is not initialised\<close>
  "iu_unlock ctx =
     (let ctx = ctx\<lparr>flag_exit := True\<rparr>
      in if interr_mutex ctx \<noteq> Sync_Ready then None
         else if interr_signal ctx \<noteq> Sync_Ready then None
         else Some ctx)"

definition interr_usleep_close ::
    "interr_usleep_ctx option \<Rightarrow> (interr_usleep_ctx option \<times> interr_usleep_ctx option) option" where
  \<comment> \<open>\<open>*ref_interr_usleep_ctx\<close> afterwards, and the context as it was freed\<close>
  "interr_usleep_close p =
     (case p of
        None \<Rightarrow> Some (None, None)
      | Some ctx \<Rightarrow>
          (case iu_unlock ctx of
             None \<Rightarrow> None
           | Some ctx \<Rightarrow>
               let ctx = ctx\<lparr>interr_mutex := Sync_Destroyed\<rparr>;
                   ctx = ctx\<lparr>interr_signal := Sync_Destroyed\<rparr>;
                   ctx = (if flag_must_release_logs_ctx ctx
                          then ctx\<lparr>flag_must_release_logs_ctx := False, iu_logs := False\<rparr> else ctx)
               in Some (None, Some ctx)))"

definition interr_usleep_open ::
    "bool \<Rightarrow> bool \<Rightarrow> bool \<Rightarrow> bool \<Rightarrow> bool \<Rightarrow> interr_usleep_ctx option option" where
  \<comment> \<open>whether a logger is passed, and the success of \<open>calloc\<close>, of \<open>utils_logs_open\<close>, and of the
      initialisation of the mutex and of the condition variable\<close>
  "interr_usleep_open logs_passed calloc_ok logs_ok mutex_ok cond_ok =
     (if \<not> calloc_ok then map_option fst (interr_usleep_close None)
      else
        let ctx = \<lparr>iu_logs = (if logs_passed then True else logs_ok),
                   flag_must_release_logs_ctx = (\<not> logs_passed), flag_exit = False,
                   interr_mutex = Sync_None, interr_signal = Sync_None\<rparr>
        in if \<not> iu_logs ctx then map_option fst (interr_usleep_close (Some ctx))
           else if \<not> mutex_ok then map_option fst (interr_usleep_close (Some ctx))
           else
             let ctx = ctx\<lparr>interr_mutex := Sync_Ready\<rparr>
             in if \<not> cond_ok then map_option fst (interr_usleep_close (Some ctx))
                else Some (Some (ctx\<lparr>interr_signal := Sync_Ready\<rparr>)))"

section \<open>The time-out\<close>

definition iu_timeout :: "uint64_t \<Rightarrow> uint64_t \<Rightarrow> 32 word \<Rightarrow> uint64_t \<times> uint64_t" where
  \<comment> \<open>\<open>monotime_tout\<close>, from the current time and \<open>usec\<close>\<close>
  "iu_timeout tv_sec tv_nsec usec =
     (let curr_nsec = tv_sec * 1000000000 + tv_nsec;
          curr_nsec = curr_nsec + ucast usec * 1000
      in (curr_nsec div 1000000000, curr_nsec mod 1000000000))"

section \<open>Sleeping and unblocking\<close>

datatype iu_pc =
    Idle
  | Sleep_Lock            \<comment> \<open>before \<open>pthread_mutex_lock\<close> of \<open>interr_usleep\<close>\<close>
  | Sleep_Test int        \<comment> \<open>before the test of the loop, with \<open>ret_code\<close>\<close>
  | Sleep_Enter           \<comment> \<open>before \<open>pthread_cond_timedwait\<close>\<close>
  | Sleep_Wait            \<comment> \<open>waiting\<close>
  | Sleep_Woken int       \<comment> \<open>in \<open>pthread_cond_timedwait\<close>, about to take the mutex and return\<close>
  | Sleep_Unlock int      \<comment> \<open>before \<open>pthread_mutex_unlock\<close>\<close>
  | Sleep_Done int        \<comment> \<open>returned\<close>
  | Unblock_Set           \<comment> \<open>before \<open>flag_exit= 1\<close>\<close>
  | Unblock_Lock
  | Unblock_Broadcast
  | Unblock_Unlock
  | Unblock_Done

record iu_sys =
  iu_exit :: bool
  iu_owner :: "nat option"
  iu_pc :: "nat \<Rightarrow> iu_pc"

definition iu_goto :: "nat \<Rightarrow> iu_pc \<Rightarrow> iu_sys \<Rightarrow> iu_sys" where
  "iu_goto t pc s = s\<lparr>iu_pc := (iu_pc s)(t := pc)\<rparr>"

definition iu_loop_test :: "bool \<Rightarrow> int \<Rightarrow> iu_pc" where
  \<comment> \<open>\<open>while(flag_exit== 0 && ret_code!= ETIMEDOUT)\<close>\<close>
  "iu_loop_test ex rc = (if \<not> ex \<and> rc \<noteq> ETIMEDOUT then Sleep_Enter else Sleep_Unlock rc)"

definition iu_result :: "int \<Rightarrow> int" where
  "iu_result rc = (if rc = ETIMEDOUT then 0 else EINTR)"

definition iu_broadcast :: "(nat \<Rightarrow> iu_pc) \<Rightarrow> nat \<Rightarrow> iu_pc" where
  "iu_broadcast pcs u = (if pcs u = Sleep_Wait then Sleep_Woken 0 else pcs u)"

inductive iu_step :: "int set \<Rightarrow> iu_sys \<Rightarrow> iu_sys \<Rightarrow> bool" for errs where
  \<comment> \<open>\<open>errs\<close> are the error codes \<open>pthread_cond_timedwait\<close> may return\<close>
  call_sleep: "iu_pc s t \<in> {Idle} \<union> range Sleep_Done \<union> {Unblock_Done} \<Longrightarrow> iu_step errs s (iu_goto t Sleep_Lock s)"
| call_unblock: "iu_pc s t \<in> {Idle} \<union> range Sleep_Done \<union> {Unblock_Done} \<Longrightarrow> iu_step errs s (iu_goto t Unblock_Set s)"
| lock: "iu_pc s t = Sleep_Lock \<Longrightarrow> iu_owner s = None \<Longrightarrow>
    iu_step errs s (iu_goto t (Sleep_Test 0) (s\<lparr>iu_owner := Some t\<rparr>))"
| test: "iu_pc s t = Sleep_Test rc \<Longrightarrow> iu_step errs s (iu_goto t (iu_loop_test (iu_exit s) rc) s)"
| wait: "iu_pc s t = Sleep_Enter \<Longrightarrow> iu_step errs s (iu_goto t Sleep_Wait (s\<lparr>iu_owner := None\<rparr>))"
| wait_error: "iu_pc s t = Sleep_Enter \<Longrightarrow> rc \<in> errs \<Longrightarrow> iu_step errs s (iu_goto t (Sleep_Test rc) s)"
| spurious: "iu_pc s t = Sleep_Wait \<Longrightarrow> iu_step errs s (iu_goto t (Sleep_Woken 0) s)"
| timeout: "iu_pc s t = Sleep_Wait \<Longrightarrow> iu_step errs s (iu_goto t (Sleep_Woken ETIMEDOUT) s)"
| relock: "iu_pc s t = Sleep_Woken rc \<Longrightarrow> iu_owner s = None \<Longrightarrow>
    iu_step errs s (iu_goto t (Sleep_Test rc) (s\<lparr>iu_owner := Some t\<rparr>))"
| unlock: "iu_pc s t = Sleep_Unlock rc \<Longrightarrow>
    iu_step errs s (iu_goto t (Sleep_Done (iu_result rc)) (s\<lparr>iu_owner := None\<rparr>))"
| set_exit: "iu_pc s t = Unblock_Set \<Longrightarrow> iu_step errs s (iu_goto t Unblock_Lock (s\<lparr>iu_exit := True\<rparr>))"
| unblock_lock: "iu_pc s t = Unblock_Lock \<Longrightarrow> iu_owner s = None \<Longrightarrow>
    iu_step errs s (iu_goto t Unblock_Broadcast (s\<lparr>iu_owner := Some t\<rparr>))"
| broadcast: "iu_pc s t = Unblock_Broadcast \<Longrightarrow>
    iu_step errs s (iu_goto t Unblock_Unlock (s\<lparr>iu_pc := iu_broadcast (iu_pc s)\<rparr>))"
| unblock_unlock: "iu_pc s t = Unblock_Unlock \<Longrightarrow>
    iu_step errs s (iu_goto t Unblock_Done (s\<lparr>iu_owner := None\<rparr>))"

inductive_cases iu_stepE: "iu_step errs s s'"

fun iu_holds :: "iu_pc \<Rightarrow> bool" where
  \<comment> \<open>the places between taking and giving up the mutex\<close>
  "iu_holds (Sleep_Test _) = True"
| "iu_holds Sleep_Enter = True"
| "iu_holds (Sleep_Unlock _) = True"
| "iu_holds Unblock_Broadcast = True"
| "iu_holds Unblock_Unlock = True"
| "iu_holds _ = False"

definition iu_init :: "iu_sys \<Rightarrow> bool" where
  "iu_init s \<longleftrightarrow> \<not> iu_exit s \<and> iu_owner s = None \<and> (\<forall>t. iu_pc s t = Idle)"

definition iu_mutex_ok :: "iu_sys \<Rightarrow> bool" where
  "iu_mutex_ok s \<longleftrightarrow> (\<forall>t. iu_holds (iu_pc s t) \<longleftrightarrow> iu_owner s = Some t)"

definition iu_no_lost :: "iu_sys \<Rightarrow> bool" where
  \<comment> \<open>a sleeper that waits, or is about to, although the flag is set has a broadcast coming\<close>
  "iu_no_lost s \<longleftrightarrow>
     (iu_exit s \<and> (\<exists>t. iu_pc s t \<in> {Sleep_Enter, Sleep_Wait}) \<longrightarrow>
      (\<exists>u. iu_pc s u \<in> {Unblock_Lock, Unblock_Broadcast}))"

definition iu_results_ok :: "iu_sys \<Rightarrow> bool" where
  "iu_results_ok s \<longleftrightarrow>
     (\<forall>t rc. iu_pc s t = Sleep_Unlock rc \<longrightarrow> rc = ETIMEDOUT \<or> iu_exit s) \<and>
     (\<forall>t r. iu_pc s t = Sleep_Done r \<longrightarrow> r = 0 \<or> r = EINTR \<and> iu_exit s)"

lemma iu_goto_simps [simp]:
  "iu_exit (iu_goto t pc s) = iu_exit s" "iu_owner (iu_goto t pc s) = iu_owner s"
  "iu_pc (iu_goto t pc s) u = (if u = t then pc else iu_pc s u)"
  by (simp_all add: iu_goto_def)

lemma iu_broadcast_holds [simp]: "iu_holds (iu_broadcast pcs u) = iu_holds (pcs u)"
  by (simp add: iu_broadcast_def)

lemma iu_init_ok: "iu_init s \<Longrightarrow> iu_mutex_ok s \<and> iu_no_lost s \<and> iu_results_ok s"
  by (simp add: iu_init_def iu_mutex_ok_def iu_no_lost_def iu_results_ok_def)

lemma iu_mutex_keep:
  "iu_mutex_ok s \<Longrightarrow> iu_holds pc = iu_holds (iu_pc s t) \<Longrightarrow> iu_mutex_ok (iu_goto t pc s)"
  by (auto simp: iu_mutex_ok_def)

lemma iu_mutex_acquire:
  "iu_mutex_ok s \<Longrightarrow> iu_owner s = None \<Longrightarrow> iu_holds pc \<Longrightarrow> iu_mutex_ok (iu_goto t pc (s\<lparr>iu_owner := Some t\<rparr>))"
  by (auto simp: iu_mutex_ok_def)

lemma iu_mutex_release:
  "iu_mutex_ok s \<Longrightarrow> iu_holds (iu_pc s t) \<Longrightarrow> \<not> iu_holds pc \<Longrightarrow> iu_mutex_ok (iu_goto t pc (s\<lparr>iu_owner := None\<rparr>))"
  by (auto simp: iu_mutex_ok_def)

lemma iu_mutex_cong:
  "iu_mutex_ok s \<Longrightarrow> iu_owner s' = iu_owner s \<Longrightarrow> (\<And>u. iu_holds (iu_pc s' u) = iu_holds (iu_pc s u)) \<Longrightarrow> iu_mutex_ok s'"
  by (simp add: iu_mutex_ok_def)

lemma iu_mutex_step: "iu_step errs s s' \<Longrightarrow> iu_mutex_ok s \<Longrightarrow> iu_mutex_ok s'"
proof (induction rule: iu_step.induct)
  case (call_sleep s t)
  then show ?case by (intro iu_mutex_keep) auto
next
  case (call_unblock s t)
  then show ?case by (intro iu_mutex_keep) auto
next
  case (test s t rc)
  then show ?case by (intro iu_mutex_keep) (simp_all add: iu_loop_test_def)
next
  case (set_exit s t)
  from set_exit.prems have "iu_mutex_ok (s\<lparr>iu_exit := True\<rparr>)" by (rule iu_mutex_cong) simp_all
  with set_exit.hyps show ?case by (intro iu_mutex_keep) simp_all
next
  case (broadcast s t)
  from broadcast.prems have "iu_mutex_ok (s\<lparr>iu_pc := iu_broadcast (iu_pc s)\<rparr>)" by (rule iu_mutex_cong) simp_all
  with broadcast.hyps show ?case by (intro iu_mutex_keep) (simp_all add: iu_broadcast_def)
qed (simp_all add: iu_mutex_keep iu_mutex_acquire iu_mutex_release)

lemma iu_one_holder: "iu_mutex_ok s \<Longrightarrow> iu_holds (iu_pc s t) \<Longrightarrow> iu_holds (iu_pc s u) \<Longrightarrow> t = u"
  by (simp add: iu_mutex_ok_def)

lemma iu_no_lost_keep:
  \<comment> \<open>a step that neither starts to wait with the flag set nor ends a pending broadcast\<close>
  assumes "iu_no_lost s" "iu_exit s' = iu_exit s"
    and "\<And>u. u \<noteq> t \<Longrightarrow> iu_pc s' u = iu_pc s u"
    and "iu_pc s t \<notin> {Unblock_Lock, Unblock_Broadcast} \<or> iu_pc s' t \<in> {Unblock_Lock, Unblock_Broadcast}"
    and "iu_pc s' t \<in> {Sleep_Enter, Sleep_Wait} \<Longrightarrow> \<not> iu_exit s \<or> iu_pc s t \<in> {Sleep_Enter, Sleep_Wait}"
  shows "iu_no_lost s'"
  unfolding iu_no_lost_def
proof (intro impI, elim conjE exE)
  fix v
  assume ex: "iu_exit s'" and v: "iu_pc s' v \<in> {Sleep_Enter, Sleep_Wait}"
  have "\<exists>v. iu_pc s v \<in> {Sleep_Enter, Sleep_Wait}"
    using v assms(2,3,5) ex by (cases "v = t") auto
  then obtain u where u: "iu_pc s u \<in> {Unblock_Lock, Unblock_Broadcast}"
    using assms(1,2) ex by (auto simp: iu_no_lost_def)
  then have "iu_pc s' u \<in> {Unblock_Lock, Unblock_Broadcast}"
    using assms(3) [of u] assms(4) by (cases "u = t") auto
  then show "\<exists>u. iu_pc s' u \<in> {Unblock_Lock, Unblock_Broadcast}" by blast
qed

lemma iu_no_lost_step: "iu_step errs s s' \<Longrightarrow> iu_mutex_ok s \<Longrightarrow> iu_no_lost s \<Longrightarrow> iu_no_lost s'"
proof (induction rule: iu_step.induct)
  case (call_sleep s t)
  show ?case by (rule iu_no_lost_keep [OF call_sleep.prems(2), of _ t]) (use call_sleep.hyps in auto)
next
  case (call_unblock s t)
  show ?case by (rule iu_no_lost_keep [OF call_unblock.prems(2), of _ t]) (use call_unblock.hyps in auto)
next
  case (test s t rc)
  show ?case
    by (rule iu_no_lost_keep [OF test.prems(2), of _ t]) (use test.hyps in \<open>auto simp: iu_loop_test_def\<close>)
next
  case (set_exit s t)
  then show ?case by (auto simp: iu_no_lost_def)
next
  case (broadcast s t)
  have "iu_pc s u \<noteq> Sleep_Enter" for u
    using iu_one_holder [OF broadcast.prems(1), of t u] broadcast.hyps by auto
  then have "iu_broadcast (iu_pc s) u \<notin> {Sleep_Enter, Sleep_Wait}" for u
    by (simp add: iu_broadcast_def)
  then show ?case by (simp add: iu_no_lost_def)
next
  case (lock s t)
  show ?case by (rule iu_no_lost_keep [OF lock.prems(2), of _ t]) (use lock.hyps in auto)
next
  case (wait s t)
  show ?case by (rule iu_no_lost_keep [OF wait.prems(2), of _ t]) (use wait.hyps in auto)
next
  case (wait_error s t rc)
  show ?case by (rule iu_no_lost_keep [OF wait_error.prems(2), of _ t]) (use wait_error.hyps in auto)
next
  case (spurious s t)
  show ?case by (rule iu_no_lost_keep [OF spurious.prems(2), of _ t]) (use spurious.hyps in auto)
next
  case (timeout s t)
  show ?case by (rule iu_no_lost_keep [OF timeout.prems(2), of _ t]) (use timeout.hyps in auto)
next
  case (relock s t rc)
  show ?case by (rule iu_no_lost_keep [OF relock.prems(2), of _ t]) (use relock.hyps in auto)
next
  case (unlock s t rc)
  show ?case by (rule iu_no_lost_keep [OF unlock.prems(2), of _ t]) (use unlock.hyps in auto)
next
  case (unblock_lock s t)
  show ?case by (rule iu_no_lost_keep [OF unblock_lock.prems(2), of _ t]) (use unblock_lock.hyps in auto)
next
  case (unblock_unlock s t)
  show ?case by (rule iu_no_lost_keep [OF unblock_unlock.prems(2), of _ t]) (use unblock_unlock.hyps in auto)
qed

definition iu_result_pc :: "bool \<Rightarrow> iu_pc \<Rightarrow> bool" where
  "iu_result_pc ex pc \<longleftrightarrow>
     (case pc of Sleep_Unlock rc \<Rightarrow> rc = ETIMEDOUT \<or> ex | Sleep_Done r \<Rightarrow> r = 0 \<or> r = EINTR \<and> ex | _ \<Rightarrow> True)"

lemma iu_results_pcs: "iu_results_ok s \<longleftrightarrow> (\<forall>t. iu_result_pc (iu_exit s) (iu_pc s t))"
  by (auto simp: iu_results_ok_def iu_result_pc_def split: iu_pc.split)

lemma iu_results_goto:
  "iu_results_ok s \<Longrightarrow> iu_result_pc (iu_exit s) pc \<Longrightarrow> iu_results_ok (iu_goto t pc s)"
  by (simp add: iu_results_pcs)

lemma iu_results_update [simp]:
  "iu_results_ok (s\<lparr>iu_owner := x\<rparr>) = iu_results_ok s"
  "iu_results_ok s \<Longrightarrow> iu_results_ok (s\<lparr>iu_exit := True\<rparr>)"
  "iu_results_ok s \<Longrightarrow> iu_results_ok (s\<lparr>iu_pc := iu_broadcast (iu_pc s)\<rparr>)"
  by (auto simp: iu_results_pcs iu_result_pc_def iu_broadcast_def split: iu_pc.splits)

lemma iu_results_step: "iu_step errs s s' \<Longrightarrow> iu_results_ok s \<Longrightarrow> iu_results_ok s'"
proof (induction rule: iu_step.induct)
  case (unlock s t rc)
  then have "iu_result_pc (iu_exit s) (Sleep_Unlock rc)" by (metis iu_results_pcs)
  with unlock.prems show ?case by (intro iu_results_goto) (auto simp: iu_result_pc_def iu_result_def)
qed (intro iu_results_goto; auto simp: iu_result_pc_def iu_loop_test_def)+

lemma iu_invariant:
  "(iu_step errs)\<^sup>*\<^sup>* s s' \<Longrightarrow> iu_mutex_ok s \<and> iu_no_lost s \<and> iu_results_ok s \<Longrightarrow>
   iu_mutex_ok s' \<and> iu_no_lost s' \<and> iu_results_ok s'"
  by (induction rule: rtranclp_induct) (use iu_mutex_step iu_no_lost_step iu_results_step in blast)+

section \<open>Properties\<close>

definition iu_start :: iu_sys where
  "iu_start = \<lparr>iu_exit = False, iu_owner = None, iu_pc = (\<lambda>_. Idle)\<rparr>"

lemma iu_start_init: "iu_init iu_start"
  by (simp add: iu_init_def iu_start_def)

text \<open>C35. No wake-up is lost: in every interleaving of any number of threads that sleep and unblock, once
  the exit flag is set and no unblocking thread is on its way to its broadcast, no thread waits or is
  about to wait. The lock around the broadcast is what gives it, for the flag is set without it.\<close>
theorem interr_usleep_no_lost_wakeup:
  assumes "iu_init s" "(iu_step errs)\<^sup>*\<^sup>* s s'" "iu_exit s'"
    and "\<forall>u. iu_pc s' u \<notin> {Unblock_Lock, Unblock_Broadcast}"
  shows "iu_pc s' t \<notin> {Sleep_Enter, Sleep_Wait}"
proof -
  have "iu_no_lost s'" using iu_invariant [OF assms(2)] iu_init_ok [OF assms(1)] by blast
  with assms(3,4) show ?thesis unfolding iu_no_lost_def by blast
qed

theorem interr_usleep_no_lost_wakeup_witness:
  "\<exists>s. (iu_step {})\<^sup>*\<^sup>* iu_start s \<and> iu_exit s \<and> iu_pc s 1 = Sleep_Woken 0 \<and> iu_pc s 2 \<notin> {Sleep_Enter, Sleep_Wait}"
proof -
  let ?s1 = "iu_goto 1 Sleep_Lock iu_start"
  let ?s2 = "iu_goto 1 (Sleep_Test 0) (?s1\<lparr>iu_owner := Some 1\<rparr>)"
  let ?s3 = "iu_goto 1 (iu_loop_test (iu_exit ?s2) 0) ?s2"
  let ?s4 = "iu_goto 1 Sleep_Wait (?s3\<lparr>iu_owner := None\<rparr>)"
  let ?s5 = "iu_goto 0 Unblock_Set ?s4"
  let ?s6 = "iu_goto 0 Unblock_Lock (?s5\<lparr>iu_exit := True\<rparr>)"
  let ?s7 = "iu_goto 0 Unblock_Broadcast (?s6\<lparr>iu_owner := Some 0\<rparr>)"
  let ?s8 = "iu_goto 0 Unblock_Unlock (?s7\<lparr>iu_pc := iu_broadcast (iu_pc ?s7)\<rparr>)"
  have "iu_step {} iu_start ?s1" by (rule call_sleep) (simp add: iu_start_def)
  moreover have "iu_step {} ?s1 ?s2" by (rule lock) (simp_all add: iu_start_def)
  moreover have "iu_step {} ?s2 ?s3" by (rule test) simp
  moreover have "iu_step {} ?s3 ?s4" by (rule wait) (simp add: iu_loop_test_def iu_start_def)
  moreover have "iu_step {} ?s4 ?s5" by (rule call_unblock) (simp add: iu_start_def)
  moreover have "iu_step {} ?s5 ?s6" by (rule set_exit) simp
  moreover have "iu_step {} ?s6 ?s7" by (rule unblock_lock) (simp_all add: iu_start_def)
  moreover have "iu_step {} ?s7 ?s8" by (rule broadcast) simp
  ultimately have r: "(iu_step {})\<^sup>*\<^sup>* iu_start ?s8" by (meson converse_rtranclp_into_rtranclp rtranclp.rtrancl_refl)
  have "iu_exit ?s8" "\<forall>u. iu_pc ?s8 u \<notin> {Unblock_Lock, Unblock_Broadcast}" "iu_pc ?s8 1 = Sleep_Woken 0"
    by (simp_all add: iu_start_def iu_broadcast_def)
  then show ?thesis using interr_usleep_no_lost_wakeup [OF iu_start_init r, of 2] r by blast
qed

text \<open>The result of a sleep tells the truth: it is 0 or \<open>EINTR\<close>, and \<open>EINTR\<close> only after the exit flag was
  set, spurious wake-ups and errors of the wait included; and the mutex has at most one holder.\<close>
theorem interr_usleep_result:
  assumes "iu_init s" "(iu_step errs)\<^sup>*\<^sup>* s s'" "iu_pc s' t = Sleep_Done r"
  shows "(r = 0 \<or> r = EINTR \<and> iu_exit s') \<and> (\<forall>u v. iu_holds (iu_pc s' u) \<and> iu_holds (iu_pc s' v) \<longrightarrow> u = v)"
proof -
  have "iu_mutex_ok s'" "iu_results_ok s'" using iu_invariant [OF assms(2)] iu_init_ok [OF assms(1)] by blast+
  with assms(3) show ?thesis using iu_one_holder unfolding iu_results_ok_def by blast
qed

theorem interr_usleep_result_witness:
  "\<exists>s r. (iu_step {})\<^sup>*\<^sup>* iu_start s \<and> iu_pc s 1 = Sleep_Done r \<and> r = 0"
proof -
  let ?s1 = "iu_goto 1 Sleep_Lock iu_start"
  let ?s2 = "iu_goto 1 (Sleep_Test 0) (?s1\<lparr>iu_owner := Some 1\<rparr>)"
  let ?s3 = "iu_goto 1 (iu_loop_test (iu_exit ?s2) 0) ?s2"
  let ?s4 = "iu_goto 1 Sleep_Wait (?s3\<lparr>iu_owner := None\<rparr>)"
  let ?s5 = "iu_goto 1 (Sleep_Woken ETIMEDOUT) ?s4"
  let ?s6 = "iu_goto 1 (Sleep_Test ETIMEDOUT) (?s5\<lparr>iu_owner := Some 1\<rparr>)"
  let ?s7 = "iu_goto 1 (iu_loop_test (iu_exit ?s6) ETIMEDOUT) ?s6"
  let ?s8 = "iu_goto 1 (Sleep_Done (iu_result ETIMEDOUT)) (?s7\<lparr>iu_owner := None\<rparr>)"
  have "iu_step {} iu_start ?s1" by (rule call_sleep) (simp add: iu_start_def)
  moreover have "iu_step {} ?s1 ?s2" by (rule lock) (simp_all add: iu_start_def)
  moreover have "iu_step {} ?s2 ?s3" by (rule test) simp
  moreover have "iu_step {} ?s3 ?s4" by (rule wait) (simp add: iu_loop_test_def iu_start_def)
  moreover have "iu_step {} ?s4 ?s5" by (rule timeout) simp
  moreover have "iu_step {} ?s5 ?s6" by (rule relock) simp_all
  moreover have "iu_step {} ?s6 ?s7" by (rule test) simp
  moreover have "iu_step {} ?s7 ?s8" by (rule unlock) (simp add: iu_loop_test_def)
  ultimately have r: "(iu_step {})\<^sup>*\<^sup>* iu_start ?s8" by (meson converse_rtranclp_into_rtranclp rtranclp.rtrancl_refl)
  have e: "iu_pc ?s8 1 = Sleep_Done 0" "\<not> iu_exit ?s8" by (simp_all add: iu_result_def iu_start_def)
  show ?thesis using interr_usleep_result [OF iu_start_init r e(1)] r e by blast
qed

text \<open>C36. \<open>interr_usleep_open\<close> returns an initialised context when everything it needs succeeds; but when the
  logger, the mutex or the condition variable fails, its clean-up locks a mutex or signals a condition
  variable that was never initialised (the model's \<open>None\<close>).\<close>
theorem interr_usleep_open_cleanup:
  "interr_usleep_open logs_passed True logs_ok mutex_ok cond_ok =
     (if (logs_passed \<or> logs_ok) \<and> mutex_ok \<and> cond_ok
      then Some (Some \<lparr>iu_logs = True, flag_must_release_logs_ctx = (\<not> logs_passed), flag_exit = False,
                       interr_mutex = Sync_Ready, interr_signal = Sync_Ready\<rparr>)
      else None) \<and>
   interr_usleep_open logs_passed False logs_ok mutex_ok cond_ok = Some None"
  by (simp add: interr_usleep_open_def interr_usleep_close_def iu_unlock_def Let_def)

text \<open>The time-out is the current time plus the sleep, normalised, whenever the nanoseconds fit 64 bits.\<close>
theorem interr_usleep_timeout:
  assumes "unat tv_sec * 1000000000 + unat tv_nsec + unat usec * 1000 < 2 ^ 64"
    and "iu_timeout tv_sec tv_nsec usec = (sec, nsec)"
  shows "unat nsec < 1000000000 \<and>
    unat sec * 1000000000 + unat nsec = unat tv_sec * 1000000000 + unat tv_nsec + unat usec * 1000"
proof -
  let ?c = "tv_sec * 1000000000 + tv_nsec + ucast usec * 1000"
  have u: "unat (ucast usec :: 64 word) = unat usec" 
  proof -
    have "unat usec < 2 ^ LENGTH(32)" by (rule unsigned_less)
    then have "unat usec < 2 ^ 64" by simp
    then show ?thesis by (simp add: unsigned_ucast_eq take_bit_nat_eq_self)
  qed
  have m1: "unat (tv_sec * 1000000000) = unat tv_sec * 1000000000"
    using assms(1) by (simp add: unat_word_ariths)
  have m2: "unat ((ucast usec :: 64 word) * 1000) = unat usec * 1000"
    using assms(1) u by (simp add: unat_word_ariths)
  have c: "unat ?c = unat tv_sec * 1000000000 + unat tv_nsec + unat usec * 1000"
    using assms(1) m1 m2 by (simp add: unat_word_ariths)
  have "sec = ?c div 1000000000" "nsec = ?c mod 1000000000" using assms(2) by (auto simp: iu_timeout_def Let_def)
  then have s: "unat sec = unat ?c div 1000000000" "unat nsec = unat ?c mod 1000000000"
    by (simp_all add: unat_div_distrib unat_mod_distrib)
  show ?thesis unfolding s c [symmetric] by simp
qed

theorem interr_usleep_timeout_witness:
  "iu_timeout 1 999999000 1500 = (2, 1499000) \<and> 2 * 1000000000 + 1499000 = (1000000000 :: nat) + 999999000 + 1500 * 1000"
proof -
  have t: "iu_timeout 1 999999000 1500 = (2, 1499000)" by (simp add: iu_timeout_def)
  show ?thesis using interr_usleep_timeout [OF _ t] t by simp
qed

end
