(* ===== verification/Ngx_Shmtx.thy ===== *)
theory Ngx_Shmtx
  imports Nginx_Prelude
begin

text \<open>
  The mutex in shared memory \<open>nginx/src/core/ngx_shmtx.c\<close> that guards the zones, in the build
  with atomic operations: a spin lock that falls back on a semaphore.  Every access to the
  shared words is one step of a process, so the interleavings of any number of workers are the
  runs of a step relation.

  The counter \<open>wait\<close> is an integer: it stays within the number of processes in absolute value.
  Of the failures of \<open>sem_wait\<close> only \<open>EINTR\<close>, after which it is called again, is possible for a
  semaphore that exists.
\<close>

section \<open>The shared words and the operations on them\<close>

record shmtx_sh =
  sh_lock :: nat     \<comment> \<open>the pid of the holder, 0 when free\<close>
  sh_wait :: int
  sh_sem :: nat      \<comment> \<open>the value of the semaphore\<close>

record shmtx =
  mtx_spin :: ngx_uint_t
  mtx_semaphore :: bool

definition ngx_shmtx_create :: "bool \<Rightarrow> bool \<Rightarrow> shmtx" where
  \<comment> \<open>whether \<open>mtx->spin\<close> is -1, and the success of \<open>sem_init\<close>\<close>
  "ngx_shmtx_create no_spin sem_ok =
     (if no_spin then \<lparr>mtx_spin = -1, mtx_semaphore = False\<rparr>
      else \<lparr>mtx_spin = 2048, mtx_semaphore = sem_ok\<rparr>)"

definition ngx_atomic_cmp_set :: "nat \<Rightarrow> nat \<Rightarrow> shmtx_sh \<Rightarrow> bool \<times> shmtx_sh" where
  \<comment> \<open>on the word \<open>lock\<close>\<close>
  "ngx_atomic_cmp_set old new sh =
     (if sh_lock sh = old then (True, sh\<lparr>sh_lock := new\<rparr>) else (False, sh))"

definition ngx_shmtx_trylock :: "nat \<Rightarrow> shmtx_sh \<Rightarrow> bool \<times> shmtx_sh" where
  "ngx_shmtx_trylock pid sh =
     (if sh_lock sh = 0 then ngx_atomic_cmp_set 0 pid sh else (False, sh))"

definition ngx_shmtx_wakeup :: "shmtx \<Rightarrow> shmtx_sh \<Rightarrow> shmtx_sh" where
  \<comment> \<open>without interference\<close>
  "ngx_shmtx_wakeup mtx sh =
     (if \<not> mtx_semaphore mtx then sh
      else if sh_wait sh \<le> 0 then sh
      else sh\<lparr>sh_wait := sh_wait sh - 1, sh_sem := Suc (sh_sem sh)\<rparr>)"

definition ngx_shmtx_force_unlock :: "shmtx \<Rightarrow> nat \<Rightarrow> shmtx_sh \<Rightarrow> bool \<times> shmtx_sh" where
  \<comment> \<open>the master gives up the lock of a worker that died\<close>
  "ngx_shmtx_force_unlock mtx pid sh =
     (let (ok, sh) = ngx_atomic_cmp_set pid 0 sh
      in if ok then (True, ngx_shmtx_wakeup mtx sh) else (False, sh))"

section \<open>Processes\<close>

datatype shmtx_try = Top | Spin ngx_uint_t | Recheck   \<comment> \<open>the three places where the lock is tried\<close>

datatype shmtx_pc =
    Out
  | Read shmtx_try       \<comment> \<open>before the test \<open>*mtx->lock == 0\<close>\<close>
  | Cas shmtx_try        \<comment> \<open>before \<open>ngx_atomic_cmp_set (mtx->lock, 0, ngx_pid)\<close>\<close>
  | Wait_Inc             \<comment> \<open>before \<open>ngx_atomic_fetch_add (mtx->wait, 1)\<close>\<close>
  | Wait_Dec             \<comment> \<open>with the lock, before \<open>ngx_atomic_fetch_add (mtx->wait, -1)\<close>\<close>
  | Sem_Wait
  | Critical
  | Wake_Read
  | Wake_Cas int
  | Sem_Post

definition shmtx_spin_next :: "shmtx \<Rightarrow> nat \<Rightarrow> ngx_uint_t \<Rightarrow> shmtx_pc" where
  \<comment> \<open>the loop condition of the spinning, then the semaphore or \<open>ngx_sched_yield\<close>; the doubling of \<open>n\<close> wraps, so
      with a spin of -1 the process spins until it gets the lock\<close>
  "shmtx_spin_next mtx ncpu n =
     (if ncpu > 1 \<and> n < mtx_spin mtx then Read (Spin n)
      else if mtx_semaphore mtx then Wait_Inc else Read Top)"

definition shmtx_failed :: "shmtx \<Rightarrow> nat \<Rightarrow> shmtx_try \<Rightarrow> shmtx_pc" where
  "shmtx_failed mtx ncpu p =
     (case p of Top \<Rightarrow> shmtx_spin_next mtx ncpu 1
      | Spin n \<Rightarrow> shmtx_spin_next mtx ncpu (push_bit 1 n)
      | Recheck \<Rightarrow> Sem_Wait)"

record shmtx_sys =
  sx_sh :: shmtx_sh
  sx_pc :: "nat \<Rightarrow> shmtx_pc"

definition sx_upd :: "nat \<Rightarrow> shmtx_pc \<Rightarrow> shmtx_sh \<Rightarrow> shmtx_sys \<Rightarrow> shmtx_sys" where
  "sx_upd t pc sh s = \<lparr>sx_sh = sh, sx_pc = (sx_pc s)(t := pc)\<rparr>"

inductive shmtx_step :: "shmtx \<Rightarrow> nat \<Rightarrow> nat \<Rightarrow> nat \<Rightarrow> shmtx_sys \<Rightarrow> shmtx_sys \<Rightarrow> bool"
  for mtx ncpu N t where
  \<comment> \<open>a step of process \<open>t\<close>, whose pid is \<open>Suc t\<close>, one of \<open>N\<close>\<close>
  call: "t < N \<Longrightarrow> sx_pc s t = Out \<Longrightarrow> shmtx_step mtx ncpu N t s (sx_upd t (Read Top) (sx_sh s) s)"
| read: "t < N \<Longrightarrow> sx_pc s t = Read p \<Longrightarrow>
    shmtx_step mtx ncpu N t s
      (sx_upd t (if sh_lock (sx_sh s) = 0 then Cas p else shmtx_failed mtx ncpu p) (sx_sh s) s)"
| cas: "t < N \<Longrightarrow> sx_pc s t = Cas p \<Longrightarrow> ngx_atomic_cmp_set 0 (Suc t) (sx_sh s) = (ok, sh) \<Longrightarrow>
    shmtx_step mtx ncpu N t s
      (sx_upd t (if ok then (if p = Recheck then Wait_Dec else Critical) else shmtx_failed mtx ncpu p) sh s)"
| inc: "t < N \<Longrightarrow> sx_pc s t = Wait_Inc \<Longrightarrow>
    shmtx_step mtx ncpu N t s (sx_upd t (Read Recheck) ((sx_sh s)\<lparr>sh_wait := sh_wait (sx_sh s) + 1\<rparr>) s)"
| dec: "t < N \<Longrightarrow> sx_pc s t = Wait_Dec \<Longrightarrow>
    shmtx_step mtx ncpu N t s (sx_upd t Critical ((sx_sh s)\<lparr>sh_wait := sh_wait (sx_sh s) - 1\<rparr>) s)"
| sem: "t < N \<Longrightarrow> sx_pc s t = Sem_Wait \<Longrightarrow> sh_sem (sx_sh s) = Suc k \<Longrightarrow>
    shmtx_step mtx ncpu N t s (sx_upd t (Read Top) ((sx_sh s)\<lparr>sh_sem := k\<rparr>) s)"
| unlock: "t < N \<Longrightarrow> sx_pc s t = Critical \<Longrightarrow> ngx_atomic_cmp_set (Suc t) 0 (sx_sh s) = (ok, sh) \<Longrightarrow>
    shmtx_step mtx ncpu N t s (sx_upd t (if ok \<and> mtx_semaphore mtx then Wake_Read else Out) sh s)"
| wake_read: "t < N \<Longrightarrow> sx_pc s t = Wake_Read \<Longrightarrow>
    shmtx_step mtx ncpu N t s
      (sx_upd t (if sh_wait (sx_sh s) \<le> 0 then Out else Wake_Cas (sh_wait (sx_sh s))) (sx_sh s) s)"
| wake_cas: "t < N \<Longrightarrow> sx_pc s t = Wake_Cas w \<Longrightarrow>
    shmtx_step mtx ncpu N t s
      (if sh_wait (sx_sh s) = w then sx_upd t Sem_Post ((sx_sh s)\<lparr>sh_wait := w - 1\<rparr>) s
       else sx_upd t Wake_Read (sx_sh s) s)"
| post: "t < N \<Longrightarrow> sx_pc s t = Sem_Post \<Longrightarrow>
    shmtx_step mtx ncpu N t s (sx_upd t Out ((sx_sh s)\<lparr>sh_sem := Suc (sh_sem (sx_sh s))\<rparr>) s)"

inductive_cases shmtx_stepE: "shmtx_step mtx ncpu N t s s'"

definition shmtx_any :: "shmtx \<Rightarrow> nat \<Rightarrow> nat \<Rightarrow> shmtx_sys \<Rightarrow> shmtx_sys \<Rightarrow> bool" where
  "shmtx_any mtx ncpu N s s' \<longleftrightarrow> (\<exists>t. shmtx_step mtx ncpu N t s s')"

definition shmtx_init :: "shmtx_sys \<Rightarrow> bool" where
  "shmtx_init s \<longleftrightarrow> sx_sh s = \<lparr>sh_lock = 0, sh_wait = 0, sh_sem = 0\<rparr> \<and> sx_pc s = (\<lambda>_. Out)"

section \<open>Mutual exclusion\<close>

fun shmtx_holds :: "shmtx_pc \<Rightarrow> bool" where
  "shmtx_holds Critical = True" | "shmtx_holds Wait_Dec = True" | "shmtx_holds _ = False"

definition shmtx_lock_ok :: "shmtx_sys \<Rightarrow> bool" where
  "shmtx_lock_ok s \<longleftrightarrow> (\<forall>t. shmtx_holds (sx_pc s t) \<longleftrightarrow> sh_lock (sx_sh s) = Suc t)"

lemma sx_upd_simps [simp]:
  "sx_sh (sx_upd t pc sh s) = sh" "sx_pc (sx_upd t pc sh s) u = (if u = t then pc else sx_pc s u)"
  by (simp_all add: sx_upd_def)

lemma shmtx_failed_holds [simp]: "\<not> shmtx_holds (shmtx_failed mtx ncpu p)"
  by (simp add: shmtx_failed_def shmtx_spin_next_def split: shmtx_try.split)

lemma shmtx_lock_keep:
  "shmtx_lock_ok s \<Longrightarrow> shmtx_holds pc = shmtx_holds (sx_pc s t) \<Longrightarrow> sh_lock sh = sh_lock (sx_sh s) \<Longrightarrow>
   shmtx_lock_ok (sx_upd t pc sh s)"
  by (auto simp: shmtx_lock_ok_def)

lemma shmtx_lock_step: "shmtx_step mtx ncpu N t s s' \<Longrightarrow> shmtx_lock_ok s \<Longrightarrow> shmtx_lock_ok s'"
proof (induction rule: shmtx_step.induct)
  case (cas s p ok sh)
  show ?case
  proof (cases ok)
    case True
    then have "sh_lock (sx_sh s) = 0" "sh_lock sh = Suc t"
      using cas.hyps by (auto simp: ngx_atomic_cmp_set_def split: if_splits)
    then show ?thesis using cas.prems True by (auto simp: shmtx_lock_ok_def)
  next
    case False
    then have "sh = sx_sh s" using cas.hyps by (auto simp: ngx_atomic_cmp_set_def split: if_splits)
    then show ?thesis using False cas.prems cas.hyps by (intro shmtx_lock_keep) simp_all
  qed
next
  case (unlock s ok sh)
  then have "sh_lock (sx_sh s) = Suc t" unfolding shmtx_lock_ok_def by (metis shmtx_holds.simps(1))
  then have "ok" "sh_lock sh = 0" using unlock.hyps by (auto simp: ngx_atomic_cmp_set_def)
  then show ?case using \<open>sh_lock (sx_sh s) = Suc t\<close> unlock.prems by (auto simp: shmtx_lock_ok_def)
next
  case (wake_cas s w)
  then show ?case by (simp add: shmtx_lock_keep)
qed (intro shmtx_lock_keep; simp)+

section \<open>No lost wake-up\<close>

fun shmtx_weight :: "shmtx_pc \<Rightarrow> int" where
  \<comment> \<open>1 for a process that has counted itself in \<open>wait\<close>, -1 for one that owes a post\<close>
  "shmtx_weight (Read Recheck) = 1" | "shmtx_weight (Cas Recheck) = 1"
| "shmtx_weight Wait_Dec = 1" | "shmtx_weight Sem_Wait = 1"
| "shmtx_weight Sem_Post = -1" | "shmtx_weight _ = 0"

definition shmtx_count_ok :: "nat \<Rightarrow> shmtx_sys \<Rightarrow> bool" where
  "shmtx_count_ok N s \<longleftrightarrow>
     sh_wait (sx_sh s) + int (sh_sem (sx_sh s)) = (\<Sum>u<N. shmtx_weight (sx_pc s u)) \<and> (\<forall>u \<ge> N. sx_pc s u = Out)"

lemma shmtx_weight_upd:
  assumes "t < N"
  shows "(\<Sum>u<N. shmtx_weight (sx_pc (sx_upd t pc sh s) u)) =
    (\<Sum>u<N. shmtx_weight (sx_pc s u)) - shmtx_weight (sx_pc s t) + shmtx_weight pc"
proof -
  have t: "{..<N} = insert t ({..<N} - {t})" using assms by auto
  have "(\<Sum>u<N. f u) = f t + (\<Sum>u \<in> {..<N} - {t}. f u)" for f :: "nat \<Rightarrow> int"
    by (subst t, subst sum.insert) auto
  from this [of "\<lambda>u. shmtx_weight (sx_pc (sx_upd t pc sh s) u)"] this [of "\<lambda>u. shmtx_weight (sx_pc s u)"]
  show ?thesis by simp
qed

lemma shmtx_count_upd:
  assumes "shmtx_count_ok N s" "t < N"
    and "sh_wait sh + int (sh_sem sh) - (sh_wait (sx_sh s) + int (sh_sem (sx_sh s))) =
      shmtx_weight pc - shmtx_weight (sx_pc s t)"
  shows "shmtx_count_ok N (sx_upd t pc sh s)"
  using assms shmtx_weight_upd [OF assms(2), of pc sh s] by (simp add: shmtx_count_ok_def)

lemma shmtx_failed_weight: "p \<noteq> Recheck \<Longrightarrow> shmtx_weight (shmtx_failed mtx ncpu p) = 0"
  "shmtx_failed mtx ncpu Recheck = Sem_Wait"
  by (simp_all add: shmtx_failed_def shmtx_spin_next_def split: shmtx_try.split)

lemma shmtx_try_weight: "shmtx_weight (Read p) = (if p = Recheck then 1 else 0)"
  "shmtx_weight (Cas p) = (if p = Recheck then 1 else 0)"
  "shmtx_weight (shmtx_failed mtx ncpu p) = (if p = Recheck then 1 else 0)"
  by (cases p; simp add: shmtx_failed_def shmtx_spin_next_def)+

lemma shmtx_count_step: "shmtx_step mtx ncpu N t s s' \<Longrightarrow> shmtx_count_ok N s \<Longrightarrow> shmtx_count_ok N s'"
proof (induction rule: shmtx_step.induct)
  case (read s p)
  then show ?case by (intro shmtx_count_upd) (simp_all add: shmtx_try_weight)
next
  case (cas s p ok sh)
  then show ?case
    by (intro shmtx_count_upd) (auto simp: shmtx_try_weight ngx_atomic_cmp_set_def split: if_splits)
next
  case (unlock s ok sh)
  then show ?case
    by (intro shmtx_count_upd) (auto simp: ngx_atomic_cmp_set_def split: if_splits)
next
  case (wake_cas s w)
  then show ?case by (cases "sh_wait (sx_sh s) = w") (simp_all add: shmtx_count_upd)
qed (intro shmtx_count_upd; simp)+

fun shmtx_active :: "shmtx_pc \<Rightarrow> bool" where
  \<comment> \<open>neither outside, nor in the critical section, nor asleep\<close>
  "shmtx_active Out = False" | "shmtx_active Critical = False" | "shmtx_active Wait_Dec = False"
| "shmtx_active Sem_Wait = False" | "shmtx_active _ = True"

definition shmtx_awake :: "shmtx_sys \<Rightarrow> bool" where
  \<comment> \<open>a process that sleeps will be woken: the lock is held, or the semaphore has a token, or
      somebody is trying or waking\<close>
  "shmtx_awake s \<longleftrightarrow>
     (\<exists>u. sx_pc s u = Sem_Wait) \<longrightarrow>
     sh_lock (sx_sh s) \<noteq> 0 \<or> sh_sem (sx_sh s) > 0 \<or> (\<exists>u. shmtx_active (sx_pc s u))"

lemma shmtx_awake_active: "shmtx_active pc \<Longrightarrow> shmtx_awake (sx_upd t pc sh s)"
  unfolding shmtx_awake_def by (metis sx_upd_simps(2))

lemma shmtx_awake_locked: "sh_lock sh \<noteq> 0 \<Longrightarrow> shmtx_awake (sx_upd t pc sh s)"
  by (simp add: shmtx_awake_def)

lemma shmtx_failed_active: "p \<noteq> Recheck \<Longrightarrow> shmtx_active (shmtx_failed mtx ncpu p)"
  by (cases p) (simp_all add: shmtx_failed_def shmtx_spin_next_def)

lemma shmtx_quiet_sum:
  \<comment> \<open>with nobody owing a post, every sleeper is counted\<close>
  assumes "\<And>u. sx_pc s u \<noteq> Sem_Post" "sx_pc s v = Sem_Wait" "v < N"
  shows "1 \<le> (\<Sum>u<N. shmtx_weight (sx_pc s u))"
proof -
  have nn: "0 \<le> shmtx_weight (sx_pc s u)" for u
  proof -
    have "pc \<noteq> Sem_Post \<Longrightarrow> 0 \<le> shmtx_weight pc" for pc
      by (cases pc rule: shmtx_weight.cases) simp_all
    then show ?thesis using assms(1) by blast
  qed
  have "shmtx_weight (sx_pc s v) \<le> (\<Sum>u<N. shmtx_weight (sx_pc s u))"
    using assms(3) nn by (intro member_le_sum) auto
  then show ?thesis using assms(2) by simp
qed

lemma shmtx_awake_sem: "0 < sh_sem sh \<Longrightarrow> shmtx_awake (sx_upd t pc sh s)"
  by (simp add: shmtx_awake_def)

lemma shmtx_awake_step:
  "shmtx_step mtx ncpu N t s s' \<Longrightarrow> mtx_semaphore mtx \<Longrightarrow> shmtx_lock_ok s \<Longrightarrow> shmtx_count_ok N s \<Longrightarrow>
   shmtx_awake s'"
proof (induction rule: shmtx_step.induct)
  case (read s p)
  then show ?case
    by (cases "sh_lock (sx_sh s) = 0") (simp_all add: shmtx_awake_active shmtx_awake_locked)
next
  case (cas s p ok sh)
  then have "sh_lock sh \<noteq> 0" by (auto simp: ngx_atomic_cmp_set_def split: if_splits)
  then show ?case by (rule shmtx_awake_locked)
next
  case (dec s)
  then have "sh_lock (sx_sh s) = Suc t" unfolding shmtx_lock_ok_def by (metis shmtx_holds.simps(2))
  then show ?case by (simp add: shmtx_awake_locked)
next
  case (unlock s ok sh)
  then have "sh_lock (sx_sh s) = Suc t" unfolding shmtx_lock_ok_def by (metis shmtx_holds.simps(1))
  then have "ok" using unlock.hyps by (auto simp: ngx_atomic_cmp_set_def)
  then show ?case using unlock.prems by (simp add: shmtx_awake_active)
next
  case (wake_read s)
  show ?case
  proof (cases "0 < sh_wait (sx_sh s)")
    case True
    then show ?thesis by (simp add: shmtx_awake_active)
  next
    case False
    have "sh_sem (sx_sh s) > 0 \<or> (\<exists>u. sx_pc s u = Sem_Post)" if "sx_pc s v = Sem_Wait" for v
    proof (rule disjCI, goal_cases)
      case 1
      have "v < N"
      proof (rule ccontr)
        assume "\<not> v < N"
        then have "sx_pc s v = Out" using wake_read.prems(3) by (simp add: shmtx_count_ok_def)
        then show False using that by simp
      qed
      then have "1 \<le> sh_wait (sx_sh s) + int (sh_sem (sx_sh s))"
        using 1 that shmtx_quiet_sum [of s v N] wake_read.prems(3) by (auto simp: shmtx_count_ok_def)
      then show ?case using False by linarith
    qed
    moreover have "u \<noteq> t" if "sx_pc s u = Sem_Post" for u
      using that wake_read.hyps(2) by auto
    moreover have "shmtx_active (sx_pc s u)" if "sx_pc s u = Sem_Post" for u
      using that by simp
    ultimately have "shmtx_awake (sx_upd t Out (sx_sh s) s)"
      unfolding shmtx_awake_def sx_upd_simps by (metis shmtx_pc.distinct(9))
    then show ?thesis using False by simp
  qed
next
  case (wake_cas s w)
  then show ?case by (cases "sh_wait (sx_sh s) = w") (simp_all add: shmtx_awake_active)
next
  case (post s)
  then show ?case by (intro shmtx_awake_sem) simp
qed (intro shmtx_awake_active; simp)+

section \<open>The reachable states\<close>

definition shmtx_inv :: "nat \<Rightarrow> shmtx_sys \<Rightarrow> bool" where
  "shmtx_inv N s \<longleftrightarrow> shmtx_lock_ok s \<and> shmtx_count_ok N s"

lemma shmtx_reach_inv:
  assumes "shmtx_init s0" "(shmtx_any mtx ncpu N)\<^sup>*\<^sup>* s0 s"
  shows "shmtx_inv N s"
  using assms(2)
proof (induction rule: rtranclp_induct)
  case base
  then show ?case using assms(1)
    by (simp add: shmtx_init_def shmtx_inv_def shmtx_lock_ok_def shmtx_count_ok_def)
next
  case (step s s')
  then show ?case
    unfolding shmtx_inv_def shmtx_any_def using shmtx_lock_step shmtx_count_step by blast
qed

lemma shmtx_reach_awake:
  assumes "shmtx_init s0" "(shmtx_any mtx ncpu N)\<^sup>*\<^sup>* s0 s" "mtx_semaphore mtx"
  shows "shmtx_awake s"
  using assms(2)
proof (cases rule: rtranclp.cases)
  case rtrancl_refl
  then show ?thesis using assms(1) by (simp add: shmtx_init_def shmtx_awake_def)
next
  case (rtrancl_into_rtrancl b)
  then obtain t where t: "shmtx_step mtx ncpu N t b s" unfolding shmtx_any_def by blast
  have "shmtx_inv N b" using rtrancl_into_rtrancl shmtx_reach_inv [OF assms(1)] by blast
  then show ?thesis using shmtx_awake_step [OF t assms(3)] by (simp add: shmtx_inv_def)
qed

text \<open>C37. The shared-memory mutex excludes: in every interleaving of any number of processes that
  lock and unlock it, at most one is between the return of \<open>ngx_shmtx_lock\<close> and its unlocking, and
  the lock word is the pid of that process.\<close>
theorem shmtx_mutual_exclusion:
  assumes "shmtx_init s0" "(shmtx_any mtx ncpu N)\<^sup>*\<^sup>* s0 s" "sx_pc s t = Critical"
  shows "sh_lock (sx_sh s) = Suc t \<and> (\<forall>u. sx_pc s u = Critical \<longrightarrow> u = t)"
proof -
  have ok: "shmtx_lock_ok s" using shmtx_reach_inv [OF assms(1,2)] by (simp add: shmtx_inv_def)
  have l: "sh_lock (sx_sh s) = Suc u" if "sx_pc s u = Critical" for u
    using ok that unfolding shmtx_lock_ok_def by (metis shmtx_holds.simps(1))
  show ?thesis using l [OF assms(3)] l by auto
qed

text \<open>C38. The shared-memory mutex loses no wake-up: when a process sleeps on the semaphore, then in
  every reachable state the lock is held, or the semaphore has a token, or some process is on its
  way to take the lock or to post; so when the lock is free and nobody is in the lock or unlock
  code, a sleeper can go on.\<close>
theorem shmtx_no_lost_wakeup:
  assumes "shmtx_init s0" "(shmtx_any mtx ncpu N)\<^sup>*\<^sup>* s0 s" "mtx_semaphore mtx"
    and "sx_pc s t = Sem_Wait" "sh_lock (sx_sh s) = 0" "\<And>u. \<not> shmtx_active (sx_pc s u)"
  shows "\<exists>s'. shmtx_step mtx ncpu N t s s' \<and> sx_pc s' t = Read Top"
proof -
  have "shmtx_awake s" by (rule shmtx_reach_awake [OF assms(1-3)])
  then have "0 < sh_sem (sx_sh s)" using assms(4-6) by (auto simp: shmtx_awake_def)
  then obtain k where k: "sh_sem (sx_sh s) = Suc k" using gr0_conv_Suc by blast
  have "t < N"
  proof (rule ccontr)
    assume "\<not> t < N"
    then have "sx_pc s t = Out"
      using shmtx_reach_inv [OF assms(1,2)] by (simp add: shmtx_inv_def shmtx_count_ok_def)
    then show False using assms(4) by simp
  qed
  have "shmtx_step mtx ncpu N t s (sx_upd t (Read Top) ((sx_sh s)\<lparr>sh_sem := k\<rparr>) s)"
    by (rule shmtx_step.sem [OF \<open>t < N\<close> assms(4) k])
  moreover have "sx_pc (sx_upd t (Read Top) ((sx_sh s)\<lparr>sh_sem := k\<rparr>) s) t = Read Top" by simp
  ultimately show ?thesis by blast
qed

section \<open>Runs of a schedule\<close>

definition shmtx_exec :: "shmtx \<Rightarrow> nat \<Rightarrow> nat \<Rightarrow> shmtx_sys \<Rightarrow> shmtx_sys option" where
  \<comment> \<open>the only step that process \<open>t\<close> can take\<close>
  "shmtx_exec mtx ncpu t s =
     (let sh = sx_sh s in
      case sx_pc s t of
        Out \<Rightarrow> Some (sx_upd t (Read Top) sh s)
      | Read p \<Rightarrow> Some (sx_upd t (if sh_lock sh = 0 then Cas p else shmtx_failed mtx ncpu p) sh s)
      | Cas p \<Rightarrow>
          let (ok, sh) = ngx_atomic_cmp_set 0 (Suc t) sh
          in Some (sx_upd t (if ok then (if p = Recheck then Wait_Dec else Critical)
                             else shmtx_failed mtx ncpu p) sh s)
      | Wait_Inc \<Rightarrow> Some (sx_upd t (Read Recheck) (sh\<lparr>sh_wait := sh_wait sh + 1\<rparr>) s)
      | Wait_Dec \<Rightarrow> Some (sx_upd t Critical (sh\<lparr>sh_wait := sh_wait sh - 1\<rparr>) s)
      | Sem_Wait \<Rightarrow> (case sh_sem sh of 0 \<Rightarrow> None | Suc k \<Rightarrow> Some (sx_upd t (Read Top) (sh\<lparr>sh_sem := k\<rparr>) s))
      | Critical \<Rightarrow>
          let (ok, sh) = ngx_atomic_cmp_set (Suc t) 0 sh
          in Some (sx_upd t (if ok \<and> mtx_semaphore mtx then Wake_Read else Out) sh s)
      | Wake_Read \<Rightarrow> Some (sx_upd t (if sh_wait sh \<le> 0 then Out else Wake_Cas (sh_wait sh)) sh s)
      | Wake_Cas w \<Rightarrow>
          Some (if sh_wait sh = w then sx_upd t Sem_Post (sh\<lparr>sh_wait := w - 1\<rparr>) s
                else sx_upd t Wake_Read sh s)
      | Sem_Post \<Rightarrow> Some (sx_upd t Out (sh\<lparr>sh_sem := Suc (sh_sem sh)\<rparr>) s))"

lemma shmtx_exec_step:
  assumes "t < N" "shmtx_exec mtx ncpu t s = Some s'"
  shows "shmtx_step mtx ncpu N t s s'"
proof (cases "sx_pc s t")
  case (Cas p)
  obtain ok sh where c: "ngx_atomic_cmp_set 0 (Suc t) (sx_sh s) = (ok, sh)" by fastforce
  then show ?thesis using assms(2) Cas shmtx_step.cas [OF assms(1) Cas c, of mtx ncpu]
    by (auto simp: shmtx_exec_def)
next
  case Critical
  obtain ok sh where c: "ngx_atomic_cmp_set (Suc t) 0 (sx_sh s) = (ok, sh)" by fastforce
  then show ?thesis using assms(2) Critical shmtx_step.unlock [OF assms(1) Critical c, of mtx ncpu]
    by (auto simp: shmtx_exec_def)
next
  case Sem_Wait
  then show ?thesis using assms shmtx_step.sem [OF assms(1) Sem_Wait]
    by (auto simp: shmtx_exec_def Let_def split: nat.splits)
next
  case Out
  then show ?thesis using assms(2) shmtx_step.call [OF assms(1) Out, of mtx ncpu]
    by (auto simp: shmtx_exec_def Let_def)
next
  case (Read p)
  then show ?thesis using assms(2) shmtx_step.read [OF assms(1) Read, of mtx ncpu]
    by (auto simp: shmtx_exec_def Let_def)
next
  case Wait_Inc
  then show ?thesis using assms(2) shmtx_step.inc [OF assms(1) Wait_Inc, of mtx ncpu]
    by (auto simp: shmtx_exec_def Let_def)
next
  case Wait_Dec
  then show ?thesis using assms(2) shmtx_step.dec [OF assms(1) Wait_Dec, of mtx ncpu]
    by (auto simp: shmtx_exec_def Let_def)
next
  case Wake_Read
  then show ?thesis using assms(2) shmtx_step.wake_read [OF assms(1) Wake_Read, of mtx ncpu]
    by (auto simp: shmtx_exec_def Let_def)
next
  case (Wake_Cas w)
  then show ?thesis using assms(2) shmtx_step.wake_cas [OF assms(1) Wake_Cas, of mtx ncpu]
    by (auto simp: shmtx_exec_def Let_def)
next
  case Sem_Post
  then show ?thesis using assms(2) shmtx_step.post [OF assms(1) Sem_Post, of mtx ncpu]
    by (auto simp: shmtx_exec_def Let_def)
qed

fun shmtx_run :: "shmtx \<Rightarrow> nat \<Rightarrow> nat list \<Rightarrow> shmtx_sys \<Rightarrow> shmtx_sys option" where
  "shmtx_run mtx ncpu [] s = Some s"
| "shmtx_run mtx ncpu (t # ts) s = Option.bind (shmtx_exec mtx ncpu t s) (shmtx_run mtx ncpu ts)"

lemma shmtx_run_reach:
  "shmtx_run mtx ncpu ts s = Some s' \<Longrightarrow> \<forall>t \<in> set ts. t < N \<Longrightarrow> (shmtx_any mtx ncpu N)\<^sup>*\<^sup>* s s'"
proof (induction ts arbitrary: s)
  case (Cons t ts)
  then obtain s1 where "shmtx_exec mtx ncpu t s = Some s1" and r: "shmtx_run mtx ncpu ts s1 = Some s'"
    by (auto simp: bind_eq_Some_conv)
  then have "shmtx_any mtx ncpu N s s1"
    using Cons.prems(2) shmtx_exec_step unfolding shmtx_any_def by (metis list.set_intros(1))
  moreover have "(shmtx_any mtx ncpu N)\<^sup>*\<^sup>* s1 s'" using Cons.IH [OF r] Cons.prems(2) by simp
  ultimately show ?case by (rule converse_rtranclp_into_rtranclp)
qed simp

text \<open>Without interference the steps of the wake-up loop are \<open>ngx_shmtx_wakeup\<close>.\<close>

lemma shmtx_wakeup_alone:
  assumes "sx_pc s t = Wake_Read" "mtx_semaphore mtx"
  shows "\<exists>ts s'. set ts = {t} \<and> shmtx_run mtx ncpu ts s = Some s' \<and> sx_pc s' t = Out \<and>
    sx_sh s' = ngx_shmtx_wakeup mtx (sx_sh s)"
proof (cases "sh_wait (sx_sh s) \<le> 0")
  case True
  then show ?thesis using assms
    by (intro exI [of _ "[t]"]) (simp add: shmtx_exec_def ngx_shmtx_wakeup_def)
next
  case False
  then show ?thesis using assms
    by (intro exI [of _ "[t, t, t]"]) (simp add: shmtx_exec_def Let_def ngx_shmtx_wakeup_def)
qed

definition shmtx_start :: shmtx_sys where
  "shmtx_start = \<lparr>sx_sh = \<lparr>sh_lock = 0, sh_wait = 0, sh_sem = 0\<rparr>, sx_pc = \<lambda>_. Out\<rparr>"

lemma shmtx_start_init: "shmtx_init shmtx_start"
  by (simp add: shmtx_init_def shmtx_start_def)

lemma shmtx_start_simps [simp]:
  "sx_sh shmtx_start = \<lparr>sh_lock = 0, sh_wait = 0, sh_sem = 0\<rparr>" "sx_pc shmtx_start u = Out"
  by (simp_all add: shmtx_start_def)

lemmas shmtx_exec_simps = shmtx_exec_def Let_def ngx_atomic_cmp_set_def shmtx_failed_def shmtx_spin_next_def
  ngx_shmtx_create_def

definition shmtx_sample :: shmtx_sys where
  \<comment> \<open>process 0 locks, process 1 goes to sleep, process 0 unlocks and posts\<close>
  "shmtx_sample =
     the (shmtx_run (ngx_shmtx_create False True) 1 [0, 0, 0, 1, 1, 1, 1, 0, 0, 0, 0] shmtx_start)"

lemma shmtx_sample_run:
  "shmtx_run (ngx_shmtx_create False True) 1 [0, 0, 0, 1, 1, 1, 1, 0, 0, 0, 0] shmtx_start =
     Some shmtx_sample"
  "sx_sh shmtx_sample = \<lparr>sh_lock = 0, sh_wait = 0, sh_sem = 1\<rparr>"
  "sx_pc shmtx_sample u = (if u = 1 then Sem_Wait else Out)"
  by (simp_all add: shmtx_sample_def shmtx_exec_simps)

theorem shmtx_no_lost_wakeup_witness:
  "\<exists>s'. shmtx_step (ngx_shmtx_create False True) 1 2 1 shmtx_sample s' \<and> sx_pc s' 1 = Read Top"
proof (rule shmtx_no_lost_wakeup [OF shmtx_start_init])
  show "(shmtx_any (ngx_shmtx_create False True) 1 2)\<^sup>*\<^sup>* shmtx_start shmtx_sample"
    by (rule shmtx_run_reach [OF shmtx_sample_run(1)]) simp
qed (simp_all add: shmtx_sample_run ngx_shmtx_create_def)

theorem shmtx_mutual_exclusion_witness:
  "\<exists>s :: shmtx_sys. sx_pc s 0 = Critical \<and> sh_lock (sx_sh s) = Suc 0 \<and> (\<forall>u. sx_pc s u = Critical \<longrightarrow> u = 0)"
proof -
  obtain s where r: "shmtx_run (ngx_shmtx_create False True) 1 [0, 0, 0, 1, 1, 1, 1] shmtx_start = Some s"
    and c: "sx_pc s 0 = Critical"
    by (simp add: shmtx_exec_simps)
  have "(shmtx_any (ngx_shmtx_create False True) 1 2)\<^sup>*\<^sup>* shmtx_start s"
    by (rule shmtx_run_reach [OF r]) simp
  from shmtx_mutual_exclusion [OF shmtx_start_init this c] show ?thesis using c by blast
qed

end
