(* ===== verification/Ngx_Event_Timer.thy ===== *)
theory Ngx_Event_Timer
  imports Ngx_Rbtree Ngx_Queue Ngx_Shmtx
begin

text \<open>
  Events and their timers: \<open>struct ngx_event_s\<close> of \<open>nginx/src/event/ngx_event.h\<close>, and
  \<open>ngx_event_timer.h\<close> and \<open>ngx_event_timer.c\<close>.  An event is a number, the pointer to it; of
  its fields those are kept that the timers and the posted queues use.  The node of an event in
  the tree of timers is the event itself, and its key is the field \<open>timer.key\<close>.

  The insert callback compares two keys by the sign of their difference, which wraps.  It
  orders the timers as long as every deadline lies within \<open>2 ^ 62\<close> milliseconds of the clock;
  \<open>timers_ok\<close> is the invariant, with this window, that every operation keeps.
\<close>

section \<open>State\<close>

record ngx_event =
  timer_key :: ngx_msec_t
  timer_set :: bool
  timedout :: bool
  cancelable :: bool
  posted :: bool
  ready :: bool
  active :: bool
  available :: int

datatype posted_queue = Posted_Accept | Posted_Next | Posted_Events

datatype event_link = ELNull | ELHead posted_queue | ELEvent nat

record 'w event_cycle =
  event_at :: "nat \<Rightarrow> ngx_event"
  timer_rbtree :: "nat rbtree"
  event_links :: "event_link queue_links"
  current_msec :: ngx_msec_t
  accept_mutex :: shmtx_sh
  accept_mutex_held :: bool
  accept_events :: bool
  accept_disabled :: int
  outside :: 'w   \<comment> \<open>everything else that the handlers read and write\<close>
  called :: "nat list"   \<comment> \<open>history: the events whose handlers were called, in order\<close>
  polled :: "(ngx_msec_t \<times> bool \<times> nat) list"
    \<comment> \<open>history: the calls of the event method, with the timeout, the flag \<open>NGX_POST_EVENTS\<close> and the
        word of the accept mutex at the time\<close>

definition set_event :: "nat \<Rightarrow> (ngx_event \<Rightarrow> ngx_event) \<Rightarrow> 'w event_cycle \<Rightarrow> 'w event_cycle" where
  "set_event ev f S = S\<lparr>event_at := (event_at S)(ev := f (event_at S ev))\<rparr>"

lemma set_event_simps [simp]:
  "event_at (set_event ev f S) = (event_at S)(ev := f (event_at S ev))"
  "timer_rbtree (set_event ev f S) = timer_rbtree S" "event_links (set_event ev f S) = event_links S"
  "current_msec (set_event ev f S) = current_msec S" "outside (set_event ev f S) = outside S"
  "called (set_event ev f S) = called S" "accept_mutex (set_event ev f S) = accept_mutex S"
  "accept_mutex_held (set_event ev f S) = accept_mutex_held S"
  "accept_events (set_event ev f S) = accept_events S"
  "accept_disabled (set_event ev f S) = accept_disabled S" "polled (set_event ev f S) = polled S"
  by (simp_all add: set_event_def)

abbreviation key_of :: "'w event_cycle \<Rightarrow> nat \<Rightarrow> ngx_msec_t" where
  "key_of S ev \<equiv> timer_key (event_at S ev)"

section \<open>Operations\<close>

definition NGX_TIMER_INFINITE :: ngx_msec_t where "NGX_TIMER_INFINITE = - 1"

definition NGX_TIMER_LAZY_DELAY :: int where "NGX_TIMER_LAZY_DELAY = 300"

definition ngx_abs :: "ngx_msec_t \<Rightarrow> ngx_msec_t" where
  \<comment> \<open>of a \<open>ngx_msec_int_t\<close>\<close>
  "ngx_abs n = (if 0 \<le> sint n then n else - n)"

definition ngx_event_del_timer :: "nat \<Rightarrow> 'w event_cycle \<Rightarrow> 'w event_cycle option" where
  \<comment> \<open>\<open>None\<close> stands for a use of the sentinel or of a null pointer in \<open>ngx_rbtree_delete\<close>\<close>
  "ngx_event_del_timer ev S =
     map_option (\<lambda>t. set_event ev (timer_set_update (\<lambda>_. False)) (S\<lparr>timer_rbtree := t\<rparr>))
       (ngx_rbtree_delete (timer_rbtree S) ev)"

definition event_timer_insert :: "nat \<Rightarrow> ngx_msec_t \<Rightarrow> 'w event_cycle \<Rightarrow> 'w event_cycle option" where
  \<comment> \<open>the last part of \<open>ngx_event_add_timer\<close>: \<open>ev->timer.key = key\<close>, the insertion, \<open>ev->timer_set = 1\<close>\<close>
  "event_timer_insert ev key S =
     (let S = set_event ev (timer_key_update (\<lambda>_. key)) S
      in map_option (\<lambda>t. set_event ev (timer_set_update (\<lambda>_. True)) (S\<lparr>timer_rbtree := t\<rparr>))
           (ngx_rbtree_insert (ngx_rbtree_insert_timer_value (key_of S)) (timer_rbtree S) ev))"

definition ngx_event_add_timer ::
    "nat \<Rightarrow> ngx_msec_t \<Rightarrow> 'w event_cycle \<Rightarrow> 'w event_cycle option" where
  "ngx_event_add_timer ev timer S =
     (let key = current_msec S + timer
      in if timer_set (event_at S ev) then
           (let diff = key - key_of S ev
            in if sint (ngx_abs diff) < NGX_TIMER_LAZY_DELAY then Some S
               else Option.bind (ngx_event_del_timer ev S) (event_timer_insert ev key))
         else event_timer_insert ev key S)"

definition ngx_event_timer_init :: "'w event_cycle \<Rightarrow> 'w event_cycle" where
  "ngx_event_timer_init S = S\<lparr>timer_rbtree := Sentinel\<rparr>"

definition timer_min :: "nat rbtree \<Rightarrow> nat option" where
  \<comment> \<open>the test \<open>root == sentinel\<close> and the event of \<open>ngx_rbtree_min(root, sentinel)\<close>\<close>
  "timer_min root =
     (case root of
        Sentinel \<Rightarrow> None
      | Node _ _ _ _ \<Rightarrow> (case snd (ngx_rbtree_min [] root) of Node _ ev _ _ \<Rightarrow> Some ev | Sentinel \<Rightarrow> None))"

definition ngx_event_find_timer :: "'w event_cycle \<Rightarrow> ngx_msec_t" where
  "ngx_event_find_timer S =
     (case timer_min (timer_rbtree S) of
        None \<Rightarrow> NGX_TIMER_INFINITE
      | Some ev \<Rightarrow>
          (let timer = key_of S ev - current_msec S in if 0 < sint timer then timer else 0))"

partial_function (option) no_timers_loop :: "'w event_cycle \<Rightarrow> nat option \<Rightarrow> int option" where
  [code]: "no_timers_loop S node =
     (case node of
        None \<Rightarrow> Some NGX_OK
      | Some ev \<Rightarrow>
          if \<not> cancelable (event_at S ev) then Some NGX_AGAIN
          else no_timers_loop S (ngx_rbtree_next (timer_rbtree S) ev))"

definition ngx_event_no_timers_left :: "'w event_cycle \<Rightarrow> int option" where
  "ngx_event_no_timers_left S = no_timers_loop S (timer_min (timer_rbtree S))"

section \<open>Deadlines\<close>

definition time_left :: "'w event_cycle \<Rightarrow> nat \<Rightarrow> int" where
  \<comment> \<open>milliseconds to the deadline of a timer, negative when it is past\<close>
  "time_left S ev = sint (key_of S ev - current_msec S)"

definition in_window :: "int \<Rightarrow> bool" where
  "in_window n \<longleftrightarrow> - (2 ^ 62) \<le> n \<and> n < 2 ^ 62"

lemma sint_diff_64:
  fixes a b :: "64 word"
  assumes "- (2 ^ 63) \<le> sint a - sint b" "sint a - sint b < 2 ^ 63"
  shows "sint (a - b) = sint a - sint b"
  using assms by (simp add: sint_word_ariths signed_take_bit_int_eq_self)

lemma sint_key_diff:
  fixes a b now :: "64 word"
  assumes "in_window (sint (a - now))" "in_window (sint (b - now))"
  shows "sint (a - b) = sint (a - now) - sint (b - now)"
proof -
  have "sint ((a - now) - (b - now)) = sint (a - now) - sint (b - now)"
    using assms by (intro sint_diff_64) (auto simp: in_window_def)
  then show ?thesis by simp
qed

text \<open>In the window the callback compares deadlines, so the laws of \<open>rbtree_order\<close> apply.\<close>

interpretation deadline: rbtree_order "\<lambda>a b. left a < (left b :: int)" for left
  by unfold_locales auto

definition same_but_timers :: "'w event_cycle \<Rightarrow> 'w event_cycle \<Rightarrow> bool" where
  \<comment> \<open>agreement on everything but the tree and the events\<close>
  "same_but_timers S T \<longleftrightarrow> T = S\<lparr>timer_rbtree := timer_rbtree T, event_at := event_at T\<rparr>"

lemma same_but_timersD:
  assumes "same_but_timers S T"
  shows "current_msec T = current_msec S" "event_links T = event_links S" "outside T = outside S"
    "called T = called S" "accept_mutex T = accept_mutex S" "accept_mutex_held T = accept_mutex_held S"
    "accept_events T = accept_events S" "accept_disabled T = accept_disabled S" "polled T = polled S"
  using assms unfolding same_but_timers_def by (cases S; cases T; simp)+

section \<open>The invariant\<close>

definition timers_ok :: "'w event_cycle \<Rightarrow> bool" where
  "timers_ok S \<longleftrightarrow>
     rbt (timer_rbtree S) \<and> distinct (inorder (timer_rbtree S)) \<and>
     set (inorder (timer_rbtree S)) = {ev. timer_set (event_at S ev)} \<and>
     (\<forall>ev. timer_set (event_at S ev) \<longrightarrow> in_window (time_left S ev)) \<and>
     sorted_wrt (\<lambda>a b. time_left S a \<le> time_left S b) (inorder (timer_rbtree S))"

lemma timers_ok_cong:
  assumes "timers_ok S" "timer_rbtree T = timer_rbtree S" "current_msec T = current_msec S"
    and "\<And>ev. timer_set (event_at T ev) = timer_set (event_at S ev)"
    and "\<And>ev. timer_set (event_at S ev) \<Longrightarrow> key_of T ev = key_of S ev"
  shows "timers_ok T"
proof -
  have l: "timer_set (event_at S ev) \<Longrightarrow> time_left T ev = time_left S ev" for ev
    using assms by (simp add: time_left_def)
  have "sorted_wrt (\<lambda>a b. time_left T a \<le> time_left T b) (inorder (timer_rbtree S))"
    by (rule sorted_wrt_mono_rel [of _ "\<lambda>a b. time_left S a \<le> time_left S b"])
      (use assms l in \<open>auto simp: timers_ok_def\<close>)
  then show ?thesis using assms l by (auto simp: timers_ok_def)
qed

lemma timers_ok_finite: "timers_ok S \<Longrightarrow> finite {ev. timer_set (event_at S ev)}"
  unfolding timers_ok_def by (metis List.finite_set)

lemma timers_ok_init:
  "\<forall>ev. \<not> timer_set (event_at S ev) \<Longrightarrow> timers_ok (ngx_event_timer_init S)"
  by (simp add: timers_ok_def ngx_event_timer_init_def rbt_def)

lemma del_timer_ok:
  assumes "timers_ok S" "timer_set (event_at S ev)"
  obtains S' where "ngx_event_del_timer ev S = Some S'" "timers_ok S'"
    "event_at S' = (event_at S)(ev := (event_at S ev)\<lparr>timer_set := False\<rparr>)"
    "same_but_timers S S'"
proof -
  let ?t = "timer_rbtree S"
  have s: "sorted_wrt (\<lambda>a b. \<not> time_left S b < time_left S a) (inorder ?t)"
    using assms(1) by (simp add: timers_ok_def not_less)
  have m: "ev \<in> set (inorder ?t)" and r: "rbt ?t" using assms by (simp_all add: timers_ok_def)
  obtain t' where t': "ngx_rbtree_delete ?t ev = Some t'" "rbt t'"
    "sorted_wrt (\<lambda>a b. \<not> time_left S b < time_left S a) (inorder t')"
    "add_mset ev (mset (inorder t')) = mset (inorder ?t)"
    using deadline.delete_sorted [OF r s m] by auto
  have eq: "mset (ev # inorder t') = mset (inorder ?t)" using t'(4) by simp
  have d: "distinct (ev # inorder t')" and st: "set (ev # inorder t') = set (inorder ?t)"
    using mset_eq_imp_distinct_iff [OF eq] mset_eq_setD [OF eq] assms(1) by (simp_all add: timers_ok_def)
  define S' where "S' = set_event ev (timer_set_update (\<lambda>_. False)) (S\<lparr>timer_rbtree := t'\<rparr>)"
  have tl: "time_left S' = time_left S" by (auto simp: S'_def time_left_def)
  have "timers_ok S'"
    using assms(1) t' d st tl by (auto simp: timers_ok_def S'_def not_less)
  then show thesis using t'(1) by (intro that [of S']) (simp_all add: ngx_event_del_timer_def S'_def same_but_timers_def set_event_def)
qed

lemma timer_insert_ok:
  assumes "timers_ok S" "\<not> timer_set (event_at S ev)" "in_window (sint (key - current_msec S))"
  obtains S' where "event_timer_insert ev key S = Some S'" "timers_ok S'"
    "event_at S' = (event_at S)(ev := (event_at S ev)\<lparr>timer_key := key, timer_set := True\<rparr>)"
    "same_but_timers S S'"
proof -
  let ?t = "timer_rbtree S"
  define T where "T = set_event ev (timer_key_update (\<lambda>_. key)) S"
  have ok: "timers_ok T" using assms by (intro timers_ok_cong [OF assms(1)]) (auto simp: T_def)
  have s: "sorted_wrt (\<lambda>a b. \<not> time_left T b < time_left T a) (inorder ?t)"
    using ok by (simp add: timers_ok_def not_less T_def)
  have r: "rbt ?t" and w: "v \<in> set (inorder ?t) \<Longrightarrow> in_window (time_left T v)" for v
    using ok by (auto simp: timers_ok_def T_def)
  have we: "in_window (time_left T ev)" using assms(3) by (simp add: T_def time_left_def)
  have "ngx_rbtree_insert_timer_value (key_of T) ?t ev
      = rbtree_descend (\<lambda>a b. time_left T a < time_left T b) ev [] ?t"
    unfolding ngx_rbtree_insert_timer_value_def
  proof (rule rbtree_descend_cong)
    fix v assume "v \<in> set (inorder ?t)"
    then have "sint (key_of T ev - key_of T v) = time_left T ev - time_left T v"
      using sint_key_diff [OF we [unfolded time_left_def] w [unfolded time_left_def]]
      by (simp add: time_left_def)
    then show "sint (key_of T ev - key_of T v) < 0 \<longleftrightarrow> time_left T ev < time_left T v" by simp
  qed
  from deadline.insert_sorted [of ?t "time_left T" "ngx_rbtree_insert_timer_value (key_of T)" ev, OF r s this]
  obtain t' where
    t': "ngx_rbtree_insert (ngx_rbtree_insert_timer_value (key_of T)) ?t ev = Some t'" "rbt t'"
      "sorted_wrt (\<lambda>a b. \<not> time_left T b < time_left T a) (inorder t')"
      "mset (inorder t') = add_mset ev (mset (inorder ?t))" by auto
  have eq: "mset (inorder t') = mset (ev # inorder ?t)" using t'(4) by simp
  have d: "distinct (inorder t')" and st: "set (inorder t') = insert ev (set (inorder ?t))"
    using mset_eq_imp_distinct_iff [OF eq] mset_eq_setD [OF eq] assms(1,2) by (simp_all add: timers_ok_def)
  define S' where "S' = set_event ev (timer_set_update (\<lambda>_. True)) (T\<lparr>timer_rbtree := t'\<rparr>)"
  have tl: "time_left S' = time_left T" by (auto simp: S'_def T_def time_left_def)
  have "timers_ok S'"
    using ok t' d st tl we assms(2) by (auto simp: timers_ok_def S'_def T_def not_less)
  moreover have "event_timer_insert ev key S = Some S'"
    using t'(1) by (simp add: event_timer_insert_def S'_def T_def)
  ultimately show thesis by (intro that [of S']) (simp_all add: S'_def T_def same_but_timers_def set_event_def)
qed

section \<open>Arming a timer\<close>

lemma sint_ngx_abs: "- (2 ^ 63) < sint n \<Longrightarrow> sint (ngx_abs n) = \<bar>sint n\<bar>"
  using sint_lt [of n] sint_diff_64 [of 0 n] by (auto simp: ngx_abs_def)

lemma add_timer_ok:
  assumes "timers_ok S" "in_window (sint timer)"
  obtains S' key where "ngx_event_add_timer ev timer S = Some S'" "timers_ok S'" "same_but_timers S S'"
    "event_at S' = (event_at S)(ev := (event_at S ev)\<lparr>timer_key := key, timer_set := True\<rparr>)"
    "key = current_msec S + timer \<or>
       timer_set (event_at S ev) \<and> key = key_of S ev \<and> \<bar>time_left S ev - sint timer\<bar> < 300"
proof -
  let ?key = "current_msec S + timer"
  show thesis
  proof (cases "timer_set (event_at S ev)")
    case False
    obtain S' where S': "event_timer_insert ev ?key S = Some S'" "timers_ok S'"
      "event_at S' = (event_at S)(ev := (event_at S ev)\<lparr>timer_key := ?key, timer_set := True\<rparr>)"
      "same_but_timers S S'"
      using timer_insert_ok [of S ev ?key] assms False by auto
    then show thesis by (intro that [of S' ?key]) (simp_all add: ngx_event_add_timer_def Let_def False)
  next
    case True
    have w: "in_window (time_left S ev)" using assms(1) True by (simp add: timers_ok_def)
    have "sint (timer - (key_of S ev - current_msec S)) = sint timer - time_left S ev"
      using assms(2) w unfolding time_left_def by (intro sint_diff_64) (auto simp: in_window_def)
    then have df: "sint (?key - key_of S ev) = sint timer - time_left S ev" by (simp add: algebra_simps)
    then have ab: "sint (ngx_abs (?key - key_of S ev)) = \<bar>sint timer - time_left S ev\<bar>"
      using assms(2) w by (subst sint_ngx_abs) (auto simp: in_window_def)
    show thesis
    proof (cases "\<bar>sint timer - time_left S ev\<bar> < 300")
      case lazy: True
      then show thesis using assms(1) True
        by (intro that [of S "key_of S ev"])
          (simp_all add: ngx_event_add_timer_def Let_def ab NGX_TIMER_LAZY_DELAY_def same_but_timers_def
            fun_upd_idem abs_minus_commute)
    next
      case False
      obtain T where T: "ngx_event_del_timer ev S = Some T" "timers_ok T"
        "event_at T = (event_at S)(ev := (event_at S ev)\<lparr>timer_set := False\<rparr>)" "same_but_timers S T"
        using del_timer_ok [OF assms(1) True] by metis
      note cm = same_but_timersD(1) [OF T(4)]
      obtain S' where S': "event_timer_insert ev ?key T = Some S'" "timers_ok S'"
        "event_at S' = (event_at T)(ev := (event_at T ev)\<lparr>timer_key := ?key, timer_set := True\<rparr>)"
        "same_but_timers T S'"
        using timer_insert_ok [of T ev ?key] T assms(2) cm by auto
      have "same_but_timers S S'" using T(4) S'(4) unfolding same_but_timers_def by (cases S; cases T; cases S'; simp)
      then show thesis using T S' True False
        by (intro that [of S' ?key]) (simp_all add: ngx_event_add_timer_def Let_def ab NGX_TIMER_LAZY_DELAY_def)
    qed
  qed
qed

section \<open>The nearest deadline\<close>

lemma timer_min_hd: "timer_min t = (case inorder t of [] \<Rightarrow> None | ev # _ \<Rightarrow> Some ev)"
proof (cases t)
  case Sentinel
  then show ?thesis by (simp add: timer_min_def)
next
  case (Node c v l r)
  obtain qs n where m: "ngx_rbtree_min [] t = (qs, n)" by fastforce
  from ngx_rbtree_min_plug [OF m] Node obtain sc sv sr where
    n: "n = Node sc sv Sentinel sr" and t: "plug qs n = t" and bq: "before qs = []" by auto
  from t have "inorder t = sv # inorder sr @ after qs"
    by (metis append_Nil bq inorder.simps inorder_plug n append_Cons)
  then show ?thesis using m n Node by (simp add: timer_min_def del: inorder.simps)
qed

lemma timer_min_None: "timers_ok S \<Longrightarrow> timer_min (timer_rbtree S) = None \<longleftrightarrow> (\<forall>ev. \<not> timer_set (event_at S ev))"
  by (auto simp: timer_min_hd timers_ok_def split: list.splits)

lemma timer_min_Some:
  assumes "timers_ok S" "timer_min (timer_rbtree S) = Some ev"
  shows "timer_set (event_at S ev)" "\<And>e. timer_set (event_at S e) \<Longrightarrow> time_left S ev \<le> time_left S e"
proof -
  obtain es where es: "inorder (timer_rbtree S) = ev # es"
    using assms(2) by (auto simp: timer_min_hd split: list.splits)
  have st: "{e. timer_set (event_at S e)} = set (ev # es)" using assms(1) es by (simp add: timers_ok_def)
  show "timer_set (event_at S ev)" using st by auto
  show "time_left S ev \<le> time_left S e" if "timer_set (event_at S e)" for e
    using st that assms(1) es by (auto simp: timers_ok_def)
qed

lemma find_timer_cases:
  assumes "timers_ok S"
  obtains (none) "\<forall>ev. \<not> timer_set (event_at S ev)" "ngx_event_find_timer S = NGX_TIMER_INFINITE"
    | (some) ev where "timer_set (event_at S ev)" "\<forall>e. timer_set (event_at S e) \<longrightarrow> time_left S ev \<le> time_left S e"
      "sint (ngx_event_find_timer S) = max 0 (time_left S ev)"
proof (cases "timer_min (timer_rbtree S)")
  case None
  then show thesis using timer_min_None [OF assms] none by (simp add: ngx_event_find_timer_def)
next
  case (Some ev)
  then show thesis using timer_min_Some [OF assms Some]
    by (intro some [of ev]) (auto simp: ngx_event_find_timer_def Let_def time_left_def)
qed

section \<open>Time passes\<close>

lemma clock_advances:
  assumes "timers_ok S" "\<And>ev. timer_set (event_at S ev) \<Longrightarrow> in_window (time_left S ev - d)" "0 \<le> d" "d < 2 ^ 62"
  defines "T \<equiv> S\<lparr>current_msec := current_msec S + of_int d\<rparr>"
  shows "timers_ok T" "timer_set (event_at S ev) \<Longrightarrow> time_left T ev = time_left S ev - d"
proof -
  have sd: "sint (word_of_int d :: 64 word) = d"
    using assms(3,4) by (subst sint_sbintrunc') (simp add: signed_take_bit_int_eq_self)
  show tl: "time_left T ev = time_left S ev - d" if "timer_set (event_at S ev)" for ev
  proof -
    have "sint ((key_of S ev - current_msec S) - word_of_int d) = time_left S ev - d"
      using assms(2) [OF that] unfolding time_left_def by (subst sint_diff_64) (auto simp: sd in_window_def)
    then show ?thesis by (simp add: T_def time_left_def diff_diff_eq)
  qed
  have "sorted_wrt (\<lambda>a b. time_left T a \<le> time_left T b) (inorder (timer_rbtree S))"
    by (rule sorted_wrt_mono_rel [of _ "\<lambda>a b. time_left S a \<le> time_left S b"])
      (use assms(1) tl in \<open>auto simp: timers_ok_def\<close>)
  then show "timers_ok T" using assms(1,2) tl by (auto simp: timers_ok_def T_def)
qed

section \<open>Only cancelable timers left\<close>

lemma no_timers_loop_suffix:
  assumes "timers_ok S" "inorder (timer_rbtree S) = us @ vs"
  shows "no_timers_loop S (case vs of [] \<Rightarrow> None | ev # _ \<Rightarrow> Some ev) =
    Some (if \<forall>ev \<in> set vs. cancelable (event_at S ev) then NGX_OK else NGX_AGAIN)"
  using assms(2)
proof (induction vs arbitrary: us)
  case Nil
  then show ?case by (simp add: no_timers_loop.simps)
next
  case (Cons ev vs)
  have "distinct (inorder (timer_rbtree S))" using assms(1) by (simp add: timers_ok_def)
  from ngx_rbtree_next_inorder [OF this Cons.prems] Cons.IH [of "us @ [ev]"] Cons.prems
  show ?case by (subst no_timers_loop.simps) simp
qed

lemma no_timers_left_eq:
  assumes "timers_ok S"
  shows "ngx_event_no_timers_left S =
    Some (if \<forall>ev. timer_set (event_at S ev) \<longrightarrow> cancelable (event_at S ev) then NGX_OK else NGX_AGAIN)"
  using no_timers_loop_suffix [OF assms, of "[]"] assms
  by (auto simp: ngx_event_no_timers_left_def timer_min_hd timers_ok_def)

end
