(* ===== verification/Ngx_Event_Posted.thy ===== *)
theory Ngx_Event_Posted
  imports Ngx_Event_Timer
begin

text \<open>
  The queues of posted events: \<open>nginx/src/event/ngx_event_posted.h\<close> and
  \<open>ngx_event_posted.c\<close>, but for the loop that calls the handlers, which is in
  \<open>Ngx_Event_Loop\<close>.  An event has one link, so it is in one queue at most, and
  \<open>ngx_delete_posted_event\<close> takes it out of whichever queue that is.  The three queues share
  the links of the events; \<open>posted_ok\<close> says what lists they hold.
\<close>

section \<open>Operations\<close>

definition set_links :: "(event_link queue_links \<Rightarrow> event_link queue_links) \<Rightarrow> 'w event_cycle \<Rightarrow> 'w event_cycle" where
  "set_links f S = S\<lparr>event_links := f (event_links S)\<rparr>"

lemma set_links_simps [simp]:
  "event_at (set_links f S) = event_at S" "timer_rbtree (set_links f S) = timer_rbtree S"
  "event_links (set_links f S) = f (event_links S)" "current_msec (set_links f S) = current_msec S"
  "outside (set_links f S) = outside S" "called (set_links f S) = called S"
  "accept_mutex (set_links f S) = accept_mutex S" "accept_mutex_held (set_links f S) = accept_mutex_held S"
  "accept_events (set_links f S) = accept_events S" "accept_disabled (set_links f S) = accept_disabled S"
  "polled (set_links f S) = polled S"
  by (simp_all add: set_links_def)

definition ngx_post_event :: "nat \<Rightarrow> posted_queue \<Rightarrow> 'w event_cycle \<Rightarrow> 'w event_cycle" where
  "ngx_post_event ev q S =
     (if \<not> posted (event_at S ev) then
        set_links (ngx_queue_insert_tail (ELHead q) (ELEvent ev)) (set_event ev (posted_update (\<lambda>_. True)) S)
      else S)"

definition ngx_delete_posted_event :: "event_link option \<Rightarrow> nat \<Rightarrow> 'w event_cycle \<Rightarrow> 'w event_cycle" where
  \<comment> \<open>the first argument is the variant of \<open>ngx_queue_remove\<close>\<close>
  "ngx_delete_posted_event dbg ev S =
     set_links (ngx_queue_remove dbg (ELEvent ev)) (set_event ev (posted_update (\<lambda>_. False)) S)"

partial_function (option) move_posted_loop :: "'w event_cycle \<Rightarrow> event_link \<Rightarrow> 'w event_cycle option" where
  [code]: "move_posted_loop S q =
     (if q = ELHead Posted_Next then Some S
      else (case q of
              ELEvent ev \<Rightarrow>
                (let S = set_event ev (\<lambda>e. e\<lparr>ready := True, available := -1\<rparr>) S
                 in move_posted_loop S (ngx_queue_next q (event_links S)))
            | _ \<Rightarrow> None))"

definition ngx_event_move_posted_next :: "'w event_cycle \<Rightarrow> 'w event_cycle option" where
  "ngx_event_move_posted_next S =
     map_option (\<lambda>S. set_links (\<lambda>Q. ngx_queue_init (ELHead Posted_Next)
                                      (ngx_queue_add (ELHead Posted_Events) (ELHead Posted_Next) Q)) S)
       (move_posted_loop S (ngx_queue_head (ELHead Posted_Next) (event_links S)))"

section \<open>Operations on one queue leave the others alone\<close>

lemma queue_rep_cong:
  assumes "queue_rep k Q ys"
    and "\<And>y. y \<in> set (k # ys) \<Longrightarrow> next_of Q' y = next_of Q y \<and> prev_of Q' y = prev_of Q y"
  shows "queue_rep k Q' ys"
  using assms unfolding queue_rep_def by (auto intro: chain_cong)

lemma queue_rep_closed:
  assumes "queue_rep h Q xs" "x \<in> set (h # xs)"
  shows "next_of Q x \<in> set (h # xs)" "prev_of Q x \<in> set (h # xs)"
proof -
  have c: "chain Q h xs h" using assms(1) by (simp add: queue_rep_def)
  show "next_of Q x \<in> set (h # xs)"
  proof (cases "x = h")
    case True
    then show ?thesis using chain_hd [OF c] by (cases xs) auto
  next
    case False
    then obtain us vs where xs: "xs = us @ x # vs" using assms(2) split_list by fastforce
    then have "chain Q x vs h" using c by (simp add: chain_append)
    from chain_hd [OF this] show ?thesis by (cases vs) (auto simp: xs)
  qed
  show "prev_of Q x \<in> set (h # xs)"
  proof (cases "x = h")
    case True
    then have "prev_of Q x = last (h # xs)" using chain_last [OF c] by simp
    then show ?thesis by (simp only: last_hd_in_set)
  next
    case False
    then obtain us vs where xs: "xs = us @ x # vs" using assms(2) split_list by fastforce
    then have "chain Q h us x" using c by (simp add: chain_append)
    from chain_last [OF this] have "prev_of Q x \<in> set (h # us)" using last_in_set [of "h # us"] by auto
    then show ?thesis by (auto simp: xs)
  qed
qed

text \<open>The elements whose links an operation writes.\<close>

lemma insert_tail_elsewhere:
  "y \<notin> {h, x, prev_of Q h} \<Longrightarrow>
   next_of (ngx_queue_insert_tail h x Q) y = next_of Q y \<and> prev_of (ngx_queue_insert_tail h x Q) y = prev_of Q y"
  by (simp add: ngx_queue_defs)

lemma remove_elsewhere:
  "y \<notin> {x, next_of Q x, prev_of Q x} \<Longrightarrow> next_of Q x \<noteq> x \<Longrightarrow>
   next_of (ngx_queue_remove dbg x Q) y = next_of Q y \<and> prev_of (ngx_queue_remove dbg x Q) y = prev_of Q y"
  by (simp add: ngx_queue_defs split: option.split)

lemma add_elsewhere:
  "y \<notin> {h, n, prev_of Q h, next_of Q n, prev_of Q n} \<Longrightarrow> h \<noteq> n \<Longrightarrow> prev_of Q h \<noteq> n \<Longrightarrow>
   next_of (ngx_queue_init n (ngx_queue_add h n Q)) y = next_of Q y \<and>
   prev_of (ngx_queue_init n (ngx_queue_add h n Q)) y = prev_of Q y"
  by (simp add: ngx_queue_defs)

lemma queue_frame_insert_tail:
  assumes "queue_rep k Q ys" "queue_rep h Q xs" "set (k # ys) \<inter> set (h # x # xs) = {}"
  shows "queue_rep k (ngx_queue_insert_tail h x Q) ys"
proof (rule queue_rep_cong [OF assms(1)], rule insert_tail_elsewhere)
  fix y assume y: "y \<in> set (k # ys)"
  have "prev_of Q h \<in> set (h # xs)" by (rule queue_rep_closed [OF assms(2)]) simp
  with y assms(3) show "y \<notin> {h, x, prev_of Q h}" by auto
qed

lemma queue_frame_remove:
  assumes "queue_rep k Q ys" "queue_rep h Q xs" "x \<in> set xs" "set (k # ys) \<inter> set (h # xs) = {}"
  shows "queue_rep k (ngx_queue_remove dbg x Q) ys"
proof (rule queue_rep_cong [OF assms(1)], rule remove_elsewhere)
  fix y assume y: "y \<in> set (k # ys)"
  have "next_of Q x \<in> set (h # xs)" "prev_of Q x \<in> set (h # xs)"
    by (rule queue_rep_closed [OF assms(2)], simp add: assms(3))+
  with y assms(3,4) show "y \<notin> {x, next_of Q x, prev_of Q x}" by auto
next
  obtain us vs where xs: "xs = us @ x # vs" using assms(3) split_list by fastforce
  then have "chain Q x vs h" and d: "distinct (h # us @ x # vs)"
    using assms(2) by (auto simp: queue_rep_def chain_append)
  from chain_hd [OF this(1)] d show "next_of Q x \<noteq> x" by (cases vs) auto
qed

lemma queue_frame_add:
  assumes "queue_rep k Q ys" "queue_rep h Q xs" "queue_rep n Q zs"
    and "set (k # ys) \<inter> set (h # xs) = {}" "set (k # ys) \<inter> set (n # zs) = {}" "n \<notin> set (h # xs)"
  shows "queue_rep k (ngx_queue_init n (ngx_queue_add h n Q)) ys"
proof (rule queue_rep_cong [OF assms(1)], rule add_elsewhere)
  have c: "prev_of Q h \<in> set (h # xs)" "next_of Q n \<in> set (n # zs)" "prev_of Q n \<in> set (n # zs)"
    by (rule queue_rep_closed [OF assms(2)], simp) (rule queue_rep_closed [OF assms(3)], simp)+
  show "y \<notin> {h, n, prev_of Q h, next_of Q n, prev_of Q n}" if "y \<in> set (k # ys)" for y
    using that c assms(4,5) by auto
  show "h \<noteq> n" "prev_of Q h \<noteq> n" using c(1) assms(6) by auto
qed

section \<open>The invariant\<close>

definition posted_ok :: "'w event_cycle \<Rightarrow> (posted_queue \<Rightarrow> nat list) \<Rightarrow> bool" where
  "posted_ok S qs \<longleftrightarrow>
     (\<forall>q. queue_rep (ELHead q) (event_links S) (map ELEvent (qs q))) \<and>
     (\<forall>p q. p \<noteq> q \<longrightarrow> set (qs p) \<inter> set (qs q) = {}) \<and>
     (\<forall>ev. posted (event_at S ev) \<longleftrightarrow> (\<exists>q. ev \<in> set (qs q)))"

lemma posted_okD:
  assumes "posted_ok S qs"
  shows "queue_rep (ELHead q) (event_links S) (map ELEvent (qs q))"
    "p \<noteq> q \<Longrightarrow> set (qs p) \<inter> set (qs q) = {}"
    "posted (event_at S ev) \<longleftrightarrow> (\<exists>q. ev \<in> set (qs q))" "distinct (qs q)"
proof -
  show r: "queue_rep (ELHead q) (event_links S) (map ELEvent (qs q))" for q
    using assms by (simp add: posted_ok_def)
  show "distinct (qs q)" using r [of q] by (simp add: queue_rep_def distinct_map)
  show "posted (event_at S ev) \<longleftrightarrow> (\<exists>q. ev \<in> set (qs q))" using assms by (simp add: posted_ok_def)
  show "p \<noteq> q \<Longrightarrow> set (qs p) \<inter> set (qs q) = {}" using assms unfolding posted_ok_def by blast
qed

lemma posted_okI:
  assumes "\<And>q. queue_rep (ELHead q) (event_links S) (map ELEvent (qs q))"
    and "\<And>p q. p \<noteq> q \<Longrightarrow> set (qs p) \<inter> set (qs q) = {}"
    and "\<And>ev. posted (event_at S ev) \<longleftrightarrow> (\<exists>q. ev \<in> set (qs q))"
  shows "posted_ok S qs"
  using assms unfolding posted_ok_def by blast

lemma links_disjoint:
  "set (qs p) \<inter> set (qs q) = {} \<Longrightarrow> p \<noteq> q \<Longrightarrow>
   set (ELHead p # map ELEvent (qs p)) \<inter> set (ELHead q # map ELEvent (qs q)) = {}"
  by auto

lemma posted_ok_cong:
  "posted_ok S qs \<Longrightarrow> event_links T = event_links S \<Longrightarrow>
   (\<And>ev. posted (event_at T ev) = posted (event_at S ev)) \<Longrightarrow> posted_ok T qs"
  by (simp add: posted_ok_def)

lemma posted_ok_empty:
  "posted_ok S qs \<Longrightarrow> ngx_queue_empty (ELHead q) (event_links S) \<longleftrightarrow> qs q = []"
  by (simp add: queue_rep_empty [OF posted_okD(1)])

lemma posted_ok_head:
  "posted_ok S qs \<Longrightarrow> qs q = ev # es \<Longrightarrow> ngx_queue_head (ELHead q) (event_links S) = ELEvent ev"
  by (simp add: queue_rep_head [OF posted_okD(1)])

lemma posted_ok_init:
  assumes "\<forall>ev. \<not> posted (event_at S ev)"
  shows "posted_ok (set_links (\<lambda>Q. ngx_queue_init (ELHead Posted_Accept) (ngx_queue_init (ELHead Posted_Next)
    (ngx_queue_init (ELHead Posted_Events) Q))) S) (\<lambda>_. [])"
proof -
  have "queue_rep (ELHead q) (ngx_queue_init (ELHead Posted_Accept) (ngx_queue_init (ELHead Posted_Next)
    (ngx_queue_init (ELHead Posted_Events) Q))) []" for q and Q :: "event_link queue_links"
    by (cases q) (simp_all add: queue_rep_def ngx_queue_defs)
  then show ?thesis using assms by (simp add: posted_ok_def)
qed

lemma post_event_ok:
  assumes "posted_ok S qs"
  shows "posted_ok (ngx_post_event ev q S)
    (if posted (event_at S ev) then qs else qs(q := qs q @ [ev]))"
proof (cases "posted (event_at S ev)")
  case True
  then show ?thesis using assms by (simp add: ngx_post_event_def)
next
  case False
  note ok = posted_okD [OF assms]
  have new: "ev \<notin> set (qs p)" for p using ok(3) [of ev] False by simp
  let ?Q = "ngx_queue_insert_tail (ELHead q) (ELEvent ev) (event_links S)"
  let ?qs = "qs(q := qs q @ [ev])"
  have "queue_rep (ELHead p) ?Q (map ELEvent (?qs p))" for p
  proof (cases "p = q")
    case True
    then show ?thesis
      using queue_rep_insert_tail [OF ok(1) [of q], of "ELEvent ev"] new [of q] by auto
  next
    case False
    have "set (ELHead p # map ELEvent (qs p)) \<inter> set (ELHead q # ELEvent ev # map ELEvent (qs q)) = {}"
      using links_disjoint [OF ok(2) [OF False] False] new [of p] by auto
    from queue_frame_insert_tail [OF ok(1) ok(1) this] show ?thesis using False by simp
  qed
  moreover have "set (?qs p) \<inter> set (?qs r) = {}" if "p \<noteq> r" for p r
    using ok(2) [OF that] new [of p] new [of r] that by auto
  moreover have "posted (event_at (ngx_post_event ev q S) e) \<longleftrightarrow> (\<exists>p. e \<in> set (?qs p))" for e
    using ok(3) [of e] False by (auto simp: ngx_post_event_def)
  ultimately have "posted_ok (ngx_post_event ev q S) ?qs"
    using False by (intro posted_okI) (simp_all add: ngx_post_event_def del: fun_upd_apply)
  then show ?thesis using False by simp
qed

lemma delete_posted_ok:
  assumes "posted_ok S qs" "posted (event_at S ev)"
  shows "posted_ok (ngx_delete_posted_event dbg ev S) (\<lambda>q. remove1 ev (qs q))"
proof -
  note ok = posted_okD [OF assms(1)]
  obtain q where q: "ev \<in> set (qs q)" using ok(3) assms(2) by auto
  let ?Q = "ngx_queue_remove dbg (ELEvent ev) (event_links S)"
  have "queue_rep (ELHead p) ?Q (map ELEvent (remove1 ev (qs p)))" for p
  proof (cases "p = q")
    case True
    obtain us vs where uv: "qs q = us @ ev # vs" using q split_list by fastforce
    then have "remove1 ev (qs q) = us @ vs" using ok(4) [of q] by (simp add: remove1_append)
    moreover have "queue_rep (ELHead q) ?Q (map ELEvent us @ map ELEvent vs)"
      using ok(1) [of q] by (intro queue_rep_remove) (simp add: uv)
    ultimately show ?thesis using True by simp
  next
    case False
    have "ev \<notin> set (qs p)" using ok(2) [OF False] q by auto
    moreover have "queue_rep (ELHead p) ?Q (map ELEvent (qs p))"
      by (rule queue_frame_remove [OF ok(1) ok(1) _ links_disjoint [OF ok(2) [OF False] False]])
        (simp add: q)
    ultimately show ?thesis by (simp add: remove1_idem)
  qed
  moreover have "set (remove1 ev (qs p)) \<inter> set (remove1 ev (qs r)) = {}" if "p \<noteq> r" for p r
    using ok(2) [OF that] by (auto simp: set_remove1_eq [OF ok(4)])
  moreover have "posted (event_at (ngx_delete_posted_event dbg ev S) e) \<longleftrightarrow> (\<exists>p. e \<in> set (remove1 ev (qs p)))" for e
    using ok(3) [of e] by (auto simp: set_remove1_eq [OF ok(4)] ngx_delete_posted_event_def)
  ultimately show ?thesis by (intro posted_okI) (simp_all add: ngx_delete_posted_event_def)
qed

lemma ex_posted_queue: "(\<exists>q. P q) \<longleftrightarrow> P Posted_Accept \<or> P Posted_Next \<or> P Posted_Events"
  by (metis posted_queue.exhaust)

section \<open>Events for the next turn of the loop\<close>

definition wake_event :: "ngx_event \<Rightarrow> ngx_event" where
  "wake_event e = e\<lparr>ready := True, available := -1\<rparr>"

lemma move_posted_loop_chain:
  assumes "chain (event_links S) a (map ELEvent es) (ELHead Posted_Next)" "distinct es"
  shows "move_posted_loop S (next_of (event_links S) a) =
    Some (S\<lparr>event_at := \<lambda>ev. if ev \<in> set es then wake_event (event_at S ev) else event_at S ev\<rparr>)"
  using assms
proof (induction es arbitrary: a S)
  case Nil
  then show ?case by (simp add: move_posted_loop.simps)
next
  case (Cons e es)
  let ?T = "set_event e wake_event S"
  have "move_posted_loop S (next_of (event_links S) a) = move_posted_loop ?T (next_of (event_links ?T) (ELEvent e))"
    using Cons.prems(1)
    by (subst move_posted_loop.simps) (simp add: ngx_queue_next_def set_event_def wake_event_def [abs_def] Let_def)
  also have "\<dots> = Some (?T\<lparr>event_at := \<lambda>ev. if ev \<in> set es then wake_event (event_at ?T ev) else event_at ?T ev\<rparr>)"
    using Cons.prems by (intro Cons.IH) simp_all
  finally show ?case using Cons.prems(2) by (auto simp: set_event_def fun_eq_iff)
qed

lemma move_posted_next_ok:
  assumes "posted_ok S qs" "qs Posted_Next \<noteq> []"
  defines "woken \<equiv> \<lambda>ev. if ev \<in> set (qs Posted_Next) then wake_event (event_at S ev) else event_at S ev"
  obtains S' where "ngx_event_move_posted_next S = Some S'"
    "posted_ok S' (qs(Posted_Events := qs Posted_Events @ qs Posted_Next, Posted_Next := []))"
    "S' = S\<lparr>event_at := woken, event_links := event_links S'\<rparr>"
proof -
  note ok = posted_okD [OF assms(1)]
  let ?n = "ELHead Posted_Next" and ?h = "ELHead Posted_Events" and ?Q = "event_links S"
  let ?Q' = "ngx_queue_init ?n (ngx_queue_add ?h ?n ?Q)"
  let ?qs = "qs(Posted_Events := qs Posted_Events @ qs Posted_Next, Posted_Next := [])"
  define S' where "S' = S\<lparr>event_at := woken, event_links := ?Q'\<rparr>"
  have "move_posted_loop S (ngx_queue_head ?n ?Q) = Some (S\<lparr>event_at := woken\<rparr>)"
    unfolding ngx_queue_head_def woken_def
    by (rule move_posted_loop_chain) (use ok(1) [of Posted_Next] ok(4) in \<open>simp_all add: queue_rep_def\<close>)
  then have m: "ngx_event_move_posted_next S = Some S'"
    by (simp add: ngx_event_move_posted_next_def set_links_def S'_def)
  have dis: "set (?h # map ELEvent (qs Posted_Events)) \<inter> set (?n # map ELEvent (qs Posted_Next)) = {}"
    by (rule links_disjoint [OF ok(2)]) simp_all
  have add: "queue_rep ?h (ngx_queue_add ?h ?n ?Q) (map ELEvent (qs Posted_Events) @ map ELEvent (qs Posted_Next))"
    by (rule queue_rep_add [OF ok(1) ok(1)]) (use assms(2) dis in simp_all)
  have ini: "queue_rep ?h ?Q' (map ELEvent (qs Posted_Events) @ map ELEvent (qs Posted_Next))"
    using dis by (intro queue_rep_cong [OF add]) (auto simp: ngx_queue_init_def)
  have "queue_rep (ELHead p) ?Q' (map ELEvent (?qs p))" for p
  proof (cases p)
    case Posted_Accept
    have "queue_rep (ELHead Posted_Accept) ?Q' (map ELEvent (qs Posted_Accept))"
      by (rule queue_frame_add [OF ok(1) ok(1) ok(1) links_disjoint [OF ok(2)] links_disjoint [OF ok(2)]]) auto
    then show ?thesis using Posted_Accept by simp
  next
    case Posted_Next
    then show ?thesis by (simp add: queue_rep_init)
  next
    case Posted_Events
    then show ?thesis using ini by simp
  qed
  moreover have "set (?qs p) \<inter> set (?qs r) = {}" if "p \<noteq> r" for p r
    using ok(2) [OF that] ok(2) [of Posted_Accept Posted_Next] ok(2) [of Posted_Accept Posted_Events] that
    by (cases p; cases r) auto
  moreover have "posted (event_at S' ev) \<longleftrightarrow> (\<exists>q. ev \<in> set (?qs q))" for ev
  proof -
    have "posted (event_at S' ev) \<longleftrightarrow> posted (event_at S ev)" by (simp add: S'_def woken_def wake_event_def)
    also have "\<dots> \<longleftrightarrow> (\<exists>q. ev \<in> set (qs q))" by (rule ok(3))
    also have "\<dots> \<longleftrightarrow> (\<exists>q. ev \<in> set (?qs q))"
      by (simp add: ex_posted_queue disj_ac)
    finally show ?thesis .
  qed
  ultimately have "posted_ok S' ?qs" by (intro posted_okI) (simp_all add: S'_def del: fun_upd_apply)
  then show thesis using m by (intro that [of S']) (simp_all add: S'_def)
qed

end
