(* ===== verification/Ngx_Event_Loop.thy ===== *)
theory Ngx_Event_Loop
  imports Ngx_Event_Posted "HOL-Library.Sublist"
begin

text \<open>
  The event loop of a worker process: \<open>ngx_event_expire_timers\<close>, \<open>ngx_event_process_posted\<close>,
  \<open>ngx_trylock_accept_mutex\<close> (\<open>nginx/src/event/ngx_event_accept.c\<close>) and
  \<open>ngx_process_events_and_timers\<close> (\<open>ngx_event.c\<close>).

  The handlers are a parameter: called with an event, a handler sees the whole state, changes
  what is outside the model as it likes, and makes a list of calls of the operations of this
  component (\<open>event_op\<close>).  The guards \<open>ev->timer_set\<close> and \<open>ev->posted\<close> of the two delete
  operations are those every caller in nginx has.  The event method is a parameter too, as it is a table of
  functions chosen at run time; it may advance the clock, call handlers and post events.
  A loop that does not end is the value \<open>None\<close>.
\<close>

section \<open>Handlers\<close>

datatype event_op =
    Add_Timer nat ngx_msec_t
  | Del_Timer nat
  | Post_Event nat posted_queue
  | Delete_Posted nat
  | Set_Cancelable nat bool
  | Set_Ready nat bool
  | Set_Timedout nat bool
  | Set_Accept_Disabled int

fun do_event_op :: "event_link option \<Rightarrow> event_op \<Rightarrow> 'w event_cycle \<Rightarrow> 'w event_cycle option" where
  "do_event_op dbg (Add_Timer ev timer) S = ngx_event_add_timer ev timer S"
| "do_event_op dbg (Del_Timer ev) S = (if timer_set (event_at S ev) then ngx_event_del_timer ev S else Some S)"
| "do_event_op dbg (Post_Event ev q) S = Some (ngx_post_event ev q S)"
| "do_event_op dbg (Delete_Posted ev) S =
     Some (if posted (event_at S ev) then ngx_delete_posted_event dbg ev S else S)"
| "do_event_op dbg (Set_Cancelable ev b) S = Some (set_event ev (cancelable_update (\<lambda>_. b)) S)"
| "do_event_op dbg (Set_Ready ev b) S = Some (set_event ev (ready_update (\<lambda>_. b)) S)"
| "do_event_op dbg (Set_Timedout ev b) S = Some (set_event ev (timedout_update (\<lambda>_. b)) S)"
| "do_event_op dbg (Set_Accept_Disabled n) S = Some (S\<lparr>accept_disabled := n\<rparr>)"

fun do_event_ops :: "event_link option \<Rightarrow> event_op list \<Rightarrow> 'w event_cycle \<Rightarrow> 'w event_cycle option" where
  "do_event_ops dbg [] S = Some S"
| "do_event_ops dbg (op # ops) S = Option.bind (do_event_op dbg op S) (do_event_ops dbg ops)"

type_synonym 'w handlers = "nat \<Rightarrow> 'w event_cycle \<Rightarrow> 'w \<times> event_op list"

definition call_handler :: "event_link option \<Rightarrow> 'w handlers \<Rightarrow> nat \<Rightarrow> 'w event_cycle \<Rightarrow> 'w event_cycle option" where
  \<comment> \<open>\<open>ev->handler(ev)\<close>\<close>
  "call_handler dbg H ev S =
     (let (w, ops) = H ev S in do_event_ops dbg ops (S\<lparr>outside := w, called := called S @ [ev]\<rparr>))"

section \<open>Expired timers and posted events\<close>

partial_function (option) ngx_event_expire_timers ::
    "event_link option \<Rightarrow> 'w handlers \<Rightarrow> 'w event_cycle \<Rightarrow> 'w event_cycle option" where
  [code]: "ngx_event_expire_timers dbg H S =
     (case timer_min (timer_rbtree S) of
        None \<Rightarrow> Some S
      | Some ev \<Rightarrow>
          if 0 < sint (key_of S ev - current_msec S) then Some S
          else Option.bind (ngx_event_del_timer ev S)
                 (\<lambda>S. Option.bind (call_handler dbg H ev (set_event ev (timedout_update (\<lambda>_. True)) S))
                        (ngx_event_expire_timers dbg H)))"

partial_function (option) ngx_event_process_posted ::
    "event_link option \<Rightarrow> 'w handlers \<Rightarrow> posted_queue \<Rightarrow> 'w event_cycle \<Rightarrow> 'w event_cycle option" where
  [code]: "ngx_event_process_posted dbg H q S =
     (if ngx_queue_empty (ELHead q) (event_links S) then Some S
      else (case ngx_queue_head (ELHead q) (event_links S) of
              ELEvent ev \<Rightarrow>
                Option.bind (call_handler dbg H ev (ngx_delete_posted_event dbg ev S))
                  (ngx_event_process_posted dbg H q)
            | _ \<Rightarrow> None))"

section \<open>What handlers may do\<close>

definition due :: "'w event_cycle \<Rightarrow> nat set" where
  "due S = {ev. timer_set (event_at S ev) \<and> time_left S ev \<le> 0}"

definition event_ok :: "'w event_cycle \<Rightarrow> bool" where
  "event_ok S \<longleftrightarrow> timers_ok S \<and> (\<exists>qs. posted_ok S qs)"

fun op_ok :: "event_op \<Rightarrow> bool" where
  \<comment> \<open>timers are armed for some time in the future, and less than \<open>2 ^ 62\<close> milliseconds\<close>
  "op_ok (Add_Timer ev timer) \<longleftrightarrow> 0 < sint timer \<and> sint timer < 2 ^ 62"
| "op_ok _ \<longleftrightarrow> True"

definition handlers_ok :: "'w handlers \<Rightarrow> bool" where
  "handlers_ok H \<longleftrightarrow> (\<forall>ev S. list_all op_ok (snd (H ev S)))"

fun own_timer :: "nat \<Rightarrow> event_op \<Rightarrow> bool" where
  "own_timer ev (Add_Timer e timer) \<longleftrightarrow> e = ev"
| "own_timer ev (Del_Timer e) \<longleftrightarrow> e = ev"
| "own_timer ev _ \<longleftrightarrow> True"

definition own_timers :: "'w handlers \<Rightarrow> bool" where
  \<comment> \<open>no handler arms or deletes the timer of another event\<close>
  "own_timers H \<longleftrightarrow> (\<forall>ev S. list_all (own_timer ev) (snd (H ev S)))"

definition client_step :: "'w event_cycle \<Rightarrow> 'w event_cycle \<Rightarrow> bool" where
  \<comment> \<open>what operations and handlers leave: the clock, the accept mutex, and of the timers no new one that is due\<close>
  "client_step S T \<longleftrightarrow>
     current_msec T = current_msec S \<and> due T \<subseteq> due S \<and> (\<forall>ev \<in> due T. key_of T ev = key_of S ev) \<and>
     accept_mutex T = accept_mutex S \<and> accept_mutex_held T = accept_mutex_held S \<and>
     accept_events T = accept_events S \<and> polled T = polled S"

lemma client_step_refl [simp]: "client_step S S"
  by (simp add: client_step_def)

lemma client_step_trans: "client_step S T \<Longrightarrow> client_step T U \<Longrightarrow> client_step S U"
  unfolding client_step_def by (metis subset_iff subset_trans)

lemma client_step_left: "client_step S T \<Longrightarrow> ev \<in> due T \<Longrightarrow> time_left T ev = time_left S ev"
  by (simp add: client_step_def time_left_def)

lemma due_finite: "timers_ok S \<Longrightarrow> finite (due S)"
  using timers_ok_finite [of S] by (simp add: due_def)

lemma due_cong:
  "current_msec T = current_msec S \<Longrightarrow> (\<And>ev. timer_set (event_at T ev) = timer_set (event_at S ev)) \<Longrightarrow>
   (\<And>ev. key_of T ev = key_of S ev) \<Longrightarrow> due T = due S"
  by (simp add: due_def time_left_def)

lemma event_op_ok:
  assumes "event_ok S" "op_ok op"
  obtains T where "do_event_op dbg op S = Some T" "event_ok T" "client_step S T" "outside T = outside S" "called T = called S"
proof -
  from assms(1) obtain qs where t: "timers_ok S" and p: "posted_ok S qs" by (auto simp: event_ok_def)
  note ret = that
  have same: thesis if "do_event_op dbg op S = Some T" "timer_rbtree T = timer_rbtree S" "current_msec T = current_msec S"
    "\<And>ev. timer_set (event_at T ev) = timer_set (event_at S ev)" "\<And>ev. key_of T ev = key_of S ev"
    "\<exists>qs. posted_ok T qs" "accept_mutex T = accept_mutex S" "accept_mutex_held T = accept_mutex_held S"
    "accept_events T = accept_events S" "polled T = polled S" "outside T = outside S" "called T = called S" for T
    using that timers_ok_cong [OF t, of T] due_cong [of T S]
    by (intro ret [of T]) (auto simp: event_ok_def client_step_def)
  show thesis
  proof (cases op)
    case (Add_Timer ev timer)
    then have w: "in_window (sint timer)" and pos: "0 < sint timer" using assms(2) by (auto simp: in_window_def)
    obtain T key where T: "ngx_event_add_timer ev timer S = Some T" "timers_ok T" "same_but_timers S T"
      "event_at T = (event_at S)(ev := (event_at S ev)\<lparr>timer_key := key, timer_set := True\<rparr>)"
      "key = current_msec S + timer \<or>
         timer_set (event_at S ev) \<and> key = key_of S ev \<and> \<bar>time_left S ev - sint timer\<bar> < 300"
      by (rule add_timer_ok [OF t w, of ev]) (rule that)
    note fr = same_but_timersD [OF T(3)]
    have "posted_ok T qs" by (intro posted_ok_cong [OF p]) (simp_all add: T(4) fr)
    moreover have "e \<in> due S \<and> key_of T e = key_of S e" if e: "e \<in> due T" for e
    proof (cases "e = ev \<and> key = current_msec S + timer")
      case True
      then have "time_left T ev = sint timer" by (simp add: time_left_def fr T(4))
      then show ?thesis using e True pos by (simp add: due_def)
    next
      case False
      then have "timer_set (event_at S e)" "key_of T e = key_of S e"
        using T(5) e by (auto simp: T(4) due_def split: if_splits)
      then show ?thesis using e by (simp add: due_def time_left_def fr)
    qed
    ultimately show thesis using T fr Add_Timer
      by (intro that [of T]) (auto simp: event_ok_def client_step_def)
  next
    case (Del_Timer ev)
    show thesis
    proof (cases "timer_set (event_at S ev)")
      case True
      obtain T where T: "ngx_event_del_timer ev S = Some T" "timers_ok T"
        "event_at T = (event_at S)(ev := (event_at S ev)\<lparr>timer_set := False\<rparr>)" "same_but_timers S T"
        using del_timer_ok [OF t True] by metis
      note fr = same_but_timersD [OF T(4)]
      have "posted_ok T qs" by (intro posted_ok_cong [OF p]) (simp_all add: T(3) fr)
      then show thesis using T fr Del_Timer True
        by (intro that [of T]) (auto simp: event_ok_def client_step_def due_def time_left_def split: if_splits)
    next
      case False
      then show thesis using Del_Timer assms(1) by (intro that [of S]) simp_all
    qed
  next
    case (Post_Event ev q)
    have "\<exists>qs. posted_ok (ngx_post_event ev q S) qs" using post_event_ok [OF p] by blast
    then show thesis using Post_Event
      by (intro same [of "ngx_post_event ev q S"]) (simp_all add: ngx_post_event_def)
  next
    case (Delete_Posted ev)
    then show thesis using delete_posted_ok [OF p, of ev] p
      by (intro same [of "if posted (event_at S ev) then ngx_delete_posted_event dbg ev S else S"])
        (auto simp: ngx_delete_posted_event_def)
  next
    case (Set_Cancelable ev b)
    then show thesis by (intro same [of "set_event ev (cancelable_update (\<lambda>_. b)) S"])
      (auto intro!: exI [of _ qs] posted_ok_cong [OF p] split: if_split_asm)
  next
    case (Set_Ready ev b)
    then show thesis by (intro same [of "set_event ev (ready_update (\<lambda>_. b)) S"])
      (auto intro!: exI [of _ qs] posted_ok_cong [OF p] split: if_split_asm)
  next
    case (Set_Timedout ev b)
    then show thesis by (intro same [of "set_event ev (timedout_update (\<lambda>_. b)) S"])
      (auto intro!: exI [of _ qs] posted_ok_cong [OF p] split: if_split_asm)
  next
    case (Set_Accept_Disabled n)
    then show thesis by (intro same [of "S\<lparr>accept_disabled := n\<rparr>"])
      (auto intro!: exI [of _ qs] posted_ok_cong [OF p] split: if_split_asm)
  qed
qed

lemma event_ops_ok:
  assumes "event_ok S" "list_all op_ok ops"
  obtains T where "do_event_ops dbg ops S = Some T" "event_ok T" "client_step S T" "outside T = outside S" "called T = called S"
  using assms
proof (induction ops arbitrary: S thesis)
  case Nil
  then show ?case by simp
next
  case (Cons op ops)
  obtain T where T: "do_event_op dbg op S = Some T" "event_ok T" "client_step S T" "outside T = outside S" "called T = called S"
    using event_op_ok [of S op] Cons.prems by auto
  obtain U where U: "do_event_ops dbg ops T = Some U" "event_ok U" "client_step T U" "outside U = outside T" "called U = called T"
    using Cons.IH [of T] T(2) Cons.prems by auto
  show ?case using T U client_step_trans [OF T(3) U(3)] by (intro Cons.prems(1) [of U]) simp_all
qed

lemma event_ok_cong:
  assumes "event_ok S" "timer_rbtree T = timer_rbtree S" "current_msec T = current_msec S" "event_links T = event_links S"
    and "\<And>ev. timer_set (event_at T ev) = timer_set (event_at S ev)" "\<And>ev. key_of T ev = key_of S ev"
    and "\<And>ev. posted (event_at T ev) = posted (event_at S ev)"
  shows "event_ok T"
proof -
  obtain qs where "posted_ok S qs" using assms(1) by (auto simp: event_ok_def)
  then have "posted_ok T qs" by (rule posted_ok_cong) (simp_all add: assms)
  moreover have "timers_ok T" using assms timers_ok_cong [of S T] by (simp add: event_ok_def)
  ultimately show ?thesis by (auto simp: event_ok_def)
qed

lemma call_handler_ok:
  assumes "event_ok S" "handlers_ok H"
  obtains T where "call_handler dbg H ev S = Some T" "event_ok T" "client_step S T"
    "outside T = fst (H ev S)" "called T = called S @ [ev]"
proof -
  let ?S = "S\<lparr>outside := fst (H ev S), called := called S @ [ev]\<rparr>"
  have ok: "event_ok ?S" by (rule event_ok_cong [OF assms(1)]) simp_all
  have l: "list_all op_ok (snd (H ev S))" using assms(2) by (simp add: handlers_ok_def)
  have st: "client_step S ?S" using due_cong [of ?S S] by (simp add: client_step_def)
  obtain T where T: "do_event_ops dbg (snd (H ev S)) ?S = Some T" "event_ok T" "client_step ?S T"
    "outside T = fst (H ev S)" "called T = called S @ [ev]"
    using event_ops_ok [OF ok l] by auto
  show thesis using T client_step_trans [OF st T(3)]
    by (intro that [of T]) (simp_all add: call_handler_def case_prod_unfold)
qed

section \<open>Operations seen from other events\<close>

lemma del_timer_other:
  "ngx_event_del_timer ev S = Some T \<Longrightarrow> e \<noteq> ev \<Longrightarrow> event_at T e = event_at S e"
  by (auto simp: ngx_event_del_timer_def)

lemma timer_insert_other:
  "event_timer_insert ev key S = Some T \<Longrightarrow> e \<noteq> ev \<Longrightarrow> event_at T e = event_at S e"
  by (auto simp: event_timer_insert_def Let_def)

lemma event_op_own:
  assumes "do_event_op dbg op S = Some T" "own_timer ev op" "e \<noteq> ev"
  shows "timer_set (event_at T e) = timer_set (event_at S e) \<and> key_of T e = key_of S e"
proof (cases op)
  case (Add_Timer e' timer)
  then have "ngx_event_add_timer ev timer S = Some T" using assms by simp
  then show ?thesis using assms(3)
    by (auto simp: ngx_event_add_timer_def Let_def del_timer_other timer_insert_other bind_eq_Some_conv split: if_splits)
qed (use assms in \<open>auto simp: ngx_post_event_def ngx_delete_posted_event_def del_timer_other split: if_splits\<close>)

lemma event_ops_own:
  assumes "do_event_ops dbg ops S = Some T" "list_all (own_timer ev) ops" "e \<noteq> ev"
  shows "timer_set (event_at T e) = timer_set (event_at S e) \<and> key_of T e = key_of S e"
  using assms by (induction ops arbitrary: S) (auto simp: bind_eq_Some_conv dest!: event_op_own)

lemma call_handler_own:
  assumes "call_handler dbg H ev S = Some T" "own_timers H" "client_step S T"
  shows "due S - {ev} \<subseteq> due T"
proof
  fix e assume e: "e \<in> due S - {ev}"
  let ?S = "S\<lparr>outside := fst (H ev S), called := called S @ [ev]\<rparr>"
  have "do_event_ops dbg (snd (H ev S)) ?S = Some T" using assms(1) by (simp add: call_handler_def case_prod_unfold Let_def)
  moreover have "list_all (own_timer ev) (snd (H ev S))" using assms(2) by (simp add: own_timers_def)
  ultimately have "timer_set (event_at T e) = timer_set (event_at ?S e) \<and> key_of T e = key_of ?S e"
    using e by (intro event_ops_own) auto
  moreover have "current_msec T = current_msec S" using assms(3) unfolding client_step_def by blast
  ultimately show "e \<in> due T" using e by (simp add: due_def time_left_def)
qed

section \<open>The loop over expired timers ends\<close>

lemma expire_timers_run:
  assumes "event_ok S" "handlers_ok H"
  shows "\<exists>T fired. ngx_event_expire_timers dbg H S = Some T \<and> event_ok T \<and> client_step S T \<and> due T = {} \<and>
    called T = called S @ fired \<and> distinct fired \<and> set fired \<subseteq> due S \<and> (own_timers H \<longrightarrow> set fired = due S) \<and>
    sorted_wrt (\<lambda>a b. time_left S a \<le> time_left S b) fired"
  using assms(1)
proof (induction "card (due S)" arbitrary: S rule: less_induct)
  case less
  have t: "timers_ok S" using less.prems by (simp add: event_ok_def)
  show ?case
  proof (cases "timer_min (timer_rbtree S)")
    case None
    then have "due S = {}" using timer_min_None [OF t] by (simp add: due_def)
    then show ?thesis using less.prems None by (subst ngx_event_expire_timers.simps) (auto intro!: exI [of _ S])
  next
    case (Some ev)
    note mn = timer_min_Some [OF t Some]
    show ?thesis
    proof (cases "0 < time_left S ev")
      case True
      then have "due S = {}" using mn(2) by (fastforce simp: due_def)
      then show ?thesis using less.prems Some True
        by (subst ngx_event_expire_timers.simps) (auto intro!: exI [of _ S] simp: time_left_def)
    next
      case False
      obtain T where T: "ngx_event_del_timer ev S = Some T" "timers_ok T"
        "event_at T = (event_at S)(ev := (event_at S ev)\<lparr>timer_set := False\<rparr>)" "same_but_timers S T"
        using del_timer_ok [OF t mn(1)] by metis
      note fr = same_but_timersD [OF T(4)]
      obtain qs where "posted_ok S qs" using less.prems by (auto simp: event_ok_def)
      then have "posted_ok T qs" by (rule posted_ok_cong) (simp_all add: T(3) fr)
      then have okT: "event_ok T" using T(2) by (auto simp: event_ok_def)
      let ?U = "set_event ev (timedout_update (\<lambda>_. True)) T"
      have okU: "event_ok ?U" by (rule event_ok_cong [OF okT]) simp_all
      have dU: "due ?U = due S - {ev}" by (auto simp: due_def time_left_def T(3) fr)
      have stU: "client_step S ?U" using dU by (auto simp: client_step_def fr T(3))
      obtain V where V: "call_handler dbg H ev ?U = Some V" "event_ok V" "client_step ?U V" "called V = called S @ [ev]"
        using call_handler_ok [OF okU assms(2), of dbg ev] by (auto simp: fr)
      have sV: "client_step S V" by (rule client_step_trans [OF stU V(3)])
      have dV: "due V \<subseteq> due S - {ev}" using V(3) dU by (simp add: client_step_def)
      have "ev \<in> due S" using mn(1) False by (simp add: due_def)
      then have "card (due V) < card (due S)"
        using dV due_finite [OF t] by (intro psubset_card_mono) auto
      from less.hyps [OF this V(2)] obtain W fired where
        W: "ngx_event_expire_timers dbg H V = Some W" "event_ok W" "client_step V W" "due W = {}"
          "called W = called V @ fired" "distinct fired" "set fired \<subseteq> due V" "own_timers H \<Longrightarrow> set fired = due V"
          "sorted_wrt (\<lambda>a b. time_left V a \<le> time_left V b) fired" by auto
      have eq: "time_left V f = time_left S f" if "f \<in> set fired" for f
        using client_step_left [OF sV] W(7) that by blast
      have "ngx_event_expire_timers dbg H S = Some W"
        using Some False T(1) V(1) W(1) by (subst ngx_event_expire_timers.simps) (simp add: time_left_def)
      moreover have "sorted_wrt (\<lambda>a b. time_left S a \<le> time_left S b) (ev # fired)"
        using W(7,9) eq dV mn(2) by (auto simp: due_def intro: sorted_wrt_mono_rel [rotated])
      moreover have "distinct (ev # fired)" "set (ev # fired) \<subseteq> due S"
        using W(6,7) dV \<open>ev \<in> due S\<close> by auto
      moreover have "own_timers H \<Longrightarrow> set (ev # fired) = due S"
        using W(8) dV dU call_handler_own [OF V(1) _ V(3)] \<open>ev \<in> due S\<close> by auto
      ultimately show ?thesis using W V(4) client_step_trans [OF sV W(3)]
        by (intro exI [of _ W] exI [of _ "ev # fired"]) simp
    qed
  qed
qed

section \<open>The loop over posted events\<close>

fun op_posted :: "event_op \<Rightarrow> (posted_queue \<Rightarrow> nat list) \<Rightarrow> posted_queue \<Rightarrow> nat list" where
  \<comment> \<open>the lists that the queues hold after an operation\<close>
  "op_posted (Post_Event ev q) qs = (if \<exists>p. ev \<in> set (qs p) then qs else qs(q := qs q @ [ev]))"
| "op_posted (Delete_Posted ev) qs = (\<lambda>q. remove1 ev (qs q))"
| "op_posted _ qs = qs"

fun posts_to :: "posted_queue \<Rightarrow> event_op \<Rightarrow> bool" where
  "posts_to q (Post_Event ev p) \<longleftrightarrow> p = q"
| "posts_to q _ \<longleftrightarrow> False"

fun is_delete :: "event_op \<Rightarrow> bool" where
  "is_delete (Delete_Posted ev) \<longleftrightarrow> True"
| "is_delete _ \<longleftrightarrow> False"

definition finite_work :: "'w handlers \<Rightarrow> posted_queue \<Rightarrow> ('w \<Rightarrow> nat) \<Rightarrow> bool" where
  \<comment> \<open>a handler that posts to the queue uses up work\<close>
  "finite_work H q W \<longleftrightarrow>
     (\<forall>ev S. W (fst (H ev S)) + length (filter (posts_to q) (snd (H ev S))) \<le> W (outside S))"

definition never_posts :: "'w handlers \<Rightarrow> posted_queue \<Rightarrow> bool" where
  "never_posts H q \<longleftrightarrow> (\<forall>ev S. list_all (\<lambda>op. \<not> posts_to q op) (snd (H ev S)))"

definition never_deletes :: "'w handlers \<Rightarrow> bool" where
  "never_deletes H \<longleftrightarrow> (\<forall>ev S. list_all (\<lambda>op. \<not> is_delete op) (snd (H ev S)))"

lemma del_timer_posted:
  "ngx_event_del_timer ev S = Some T \<Longrightarrow>
   event_links T = event_links S \<and> (\<forall>e. posted (event_at T e) = posted (event_at S e))"
  by (auto simp: ngx_event_del_timer_def split: if_split_asm)

lemma timer_insert_posted:
  "event_timer_insert ev key S = Some T \<Longrightarrow>
   event_links T = event_links S \<and> (\<forall>e. posted (event_at T e) = posted (event_at S e))"
  by (auto simp: event_timer_insert_def Let_def split: if_split_asm)

lemma event_op_posted:
  assumes "do_event_op dbg op S = Some T" "posted_ok S qs"
  shows "posted_ok T (op_posted op qs)"
proof (cases op)
  case (Add_Timer ev timer)
  then have "event_links T = event_links S \<and> (\<forall>e. posted (event_at T e) = posted (event_at S e))"
    using assms(1)
    by (auto simp: ngx_event_add_timer_def Let_def bind_eq_Some_conv split: if_splits
        dest!: del_timer_posted timer_insert_posted)
  then show ?thesis using Add_Timer by (auto intro: posted_ok_cong [OF assms(2)])
next
  case (Del_Timer ev)
  then have "event_links T = event_links S \<and> (\<forall>e. posted (event_at T e) = posted (event_at S e))"
    using assms(1) by (auto split: if_splits dest!: del_timer_posted)
  then show ?thesis using Del_Timer by (auto intro: posted_ok_cong [OF assms(2)])
next
  case (Post_Event ev q)
  then show ?thesis using assms(1) post_event_ok [OF assms(2), of ev q] posted_okD(3) [OF assms(2)]
    by (simp split: if_split_asm)
next
  case (Delete_Posted ev)
  show ?thesis
  proof (cases "posted (event_at S ev)")
    case True
    then show ?thesis using Delete_Posted assms(1) delete_posted_ok [OF assms(2) True, of dbg] by simp
  next
    case False
    then have "ev \<notin> set (qs q)" for q using posted_okD(3) [OF assms(2)] by simp
    then have "(\<lambda>q. remove1 ev (qs q)) = qs" by (simp add: remove1_idem fun_eq_iff)
    then show ?thesis using Delete_Posted assms False by simp
  qed
qed (use assms in \<open>auto intro!: posted_ok_cong [OF assms(2)] split: if_split_asm\<close>)

lemma event_ops_posted:
  assumes "do_event_ops dbg ops S = Some T" "posted_ok S qs"
  shows "posted_ok T (fold op_posted ops qs)"
  using assms by (induction ops arbitrary: S qs) (auto simp: bind_eq_Some_conv dest: event_op_posted)

lemma subseq_remove1: "subseq (remove1 x xs) xs"
  by (induction xs) auto

lemma op_posted_length: "length (op_posted op qs q) \<le> length (qs q) + length (filter (posts_to q) [op])"
  by (cases op) (auto simp: length_remove1)

lemma op_posted_subseq: "\<not> posts_to q op \<Longrightarrow> subseq (op_posted op qs q) (qs q)"
  by (cases op) (auto simp: subseq_remove1)

lemma op_posted_same: "\<not> posts_to q op \<Longrightarrow> \<not> is_delete op \<Longrightarrow> op_posted op qs q = qs q"
  by (cases op) auto

lemma ops_posted_length: "length (fold op_posted ops qs q) \<le> length (qs q) + length (filter (posts_to q) ops)"
proof (induction ops arbitrary: qs)
  case (Cons op ops)
  from Cons.IH [of "op_posted op qs"] op_posted_length [of op qs q] show ?case by (auto split: if_splits)
qed simp

lemma ops_posted_subseq: "list_all (\<lambda>op. \<not> posts_to q op) ops \<Longrightarrow> subseq (fold op_posted ops qs q) (qs q)"
proof (induction ops arbitrary: qs)
  case (Cons op ops)
  then show ?case using subseq_order.trans [OF Cons.IH [of "op_posted op qs"] op_posted_subseq [of q op qs]] by simp
qed simp

lemma ops_posted_same:
  "list_all (\<lambda>op. \<not> posts_to q op) ops \<Longrightarrow> list_all (\<lambda>op. \<not> is_delete op) ops \<Longrightarrow> fold op_posted ops qs q = qs q"
  by (induction ops arbitrary: qs) (simp_all add: op_posted_same)

lemma process_posted_run:
  assumes "event_ok S" "posted_ok S qs" "handlers_ok H" "finite_work H q W"
  shows "\<exists>T qs' fired. ngx_event_process_posted dbg H q S = Some T \<and> event_ok T \<and> client_step S T \<and>
    posted_ok T qs' \<and> qs' q = [] \<and> called T = called S @ fired \<and>
    (never_posts H q \<longrightarrow> subseq fired (qs q)) \<and>
    (never_posts H q \<and> never_deletes H \<longrightarrow> fired = qs q)"
  using assms(1,2)
proof (induction "W (outside S) + length (qs q)" arbitrary: S qs rule: less_induct)
  case less
  show ?case
  proof (cases "qs q")
    case Nil
    then show ?thesis using less.prems posted_ok_empty [OF less.prems(2), of q]
      by (subst ngx_event_process_posted.simps) (auto intro!: exI [of _ S] exI [of _ qs])
  next
    case (Cons ev es)
    note hd = posted_ok_head [OF less.prems(2) Cons]
    have pe: "posted (event_at S ev)" using posted_okD(3) [OF less.prems(2)] Cons by (metis list.set_intros(1))
    let ?T = "ngx_delete_posted_event dbg ev S"
    let ?qs = "\<lambda>q. remove1 ev (qs q)"
    have okT: "posted_ok ?T ?qs" by (rule delete_posted_ok [OF less.prems(2) pe])
    have "timers_ok S" using less.prems(1) by (simp add: event_ok_def)
    then have "timers_ok ?T" by (rule timers_ok_cong) (simp_all add: ngx_delete_posted_event_def)
    then have eT: "event_ok ?T" using okT by (auto simp: event_ok_def)
    have "due ?T = due S" by (rule due_cong) (simp_all add: ngx_delete_posted_event_def)
    then have sT: "client_step S ?T" by (simp add: client_step_def ngx_delete_posted_event_def)
    obtain U where U: "call_handler dbg H ev ?T = Some U" "event_ok U" "client_step ?T U"
      "outside U = fst (H ev ?T)" "called U = called S @ [ev]"
      using call_handler_ok [OF eT assms(3), of dbg ev] by (auto simp: ngx_delete_posted_event_def)
    let ?ops = "snd (H ev ?T)"
    have "posted_ok (?T\<lparr>outside := fst (H ev ?T), called := called ?T @ [ev]\<rparr>) ?qs"
      by (rule posted_ok_cong [OF okT]) simp_all
    then have okU: "posted_ok U (fold op_posted ?ops ?qs)"
      using U(1) by (intro event_ops_posted [of dbg ?ops]) (simp_all add: call_handler_def case_prod_unfold Let_def)
    have "W (outside U) + length (filter (posts_to q) ?ops) \<le> W (outside S)"
      using assms(4) U(4) unfolding finite_work_def
      by (metis ngx_delete_posted_event_def set_event_simps(5) set_links_simps(5))
    then have "W (outside U) + length (fold op_posted ?ops ?qs q) < W (outside S) + length (qs q)"
      using ops_posted_length [of ?ops ?qs q] Cons by simp
    from less.hyps [OF this U(2) okU] obtain V qs' fired where
      V: "ngx_event_process_posted dbg H q U = Some V" "event_ok V" "client_step U V" "posted_ok V qs'" "qs' q = []"
        "called V = called U @ fired" "never_posts H q \<Longrightarrow> subseq fired (fold op_posted ?ops ?qs q)"
        "never_posts H q \<Longrightarrow> never_deletes H \<Longrightarrow> fired = fold op_posted ?ops ?qs q" by auto
    have "ngx_event_process_posted dbg H q S = Some V"
      using hd U(1) V(1) posted_ok_empty [OF less.prems(2), of q] Cons
      by (subst ngx_event_process_posted.simps) simp
    moreover have "client_step S V"
      using client_step_trans [OF client_step_trans [OF sT U(3)] V(3)] .
    moreover have "subseq (ev # fired) (qs q)" if "never_posts H q"
    proof -
      have "subseq (fold op_posted ?ops ?qs q) (?qs q)"
        using that by (intro ops_posted_subseq) (simp add: never_posts_def)
      then show ?thesis using subseq_order.trans [OF V(7) [OF that]] Cons by simp
    qed
    moreover have "ev # fired = qs q" if "never_posts H q" "never_deletes H"
    proof -
      have "fold op_posted ?ops ?qs q = ?qs q"
        using that by (intro ops_posted_same) (simp_all add: never_posts_def never_deletes_def)
      then show ?thesis using V(8) [OF that] Cons by simp
    qed
    ultimately show ?thesis using V(2,4,5,6) U(5)
      by (intro exI [of _ V] exI [of _ qs'] exI [of _ "ev # fired"]) auto
  qed
qed

end
