(* ===== verification/Ngx_Event_Turn.thy ===== *)
theory Ngx_Event_Turn
  imports Ngx_Event_Loop
begin

text \<open>
  One turn of the event loop of a worker process, \<open>ngx_process_events_and_timers\<close> of
  \<open>nginx/src/event/ngx_event.c\<close>, with \<open>ngx_trylock_accept_mutex\<close> of \<open>ngx_event_accept.c\<close>.
  The theorems compose the timers, the posted queues and the accept mutex.
\<close>

section \<open>The environment of the loop\<close>

datatype poll_act = Ready_Handler nat | Ready_Op event_op
  \<comment> \<open>for an event that is ready the event method calls the handler, or posts the event\<close>

record 'w event_env =
  ee_dbg :: "event_link option"
  ee_handlers :: "'w handlers"
  ee_process_events ::
    "ngx_msec_t \<Rightarrow> bool \<Rightarrow> bool \<Rightarrow> 'w event_cycle \<Rightarrow> ngx_msec_t \<times> shmtx_sh \<times> 'w \<times> poll_act list"
    \<comment> \<open>of the timeout and the flags \<open>NGX_UPDATE_TIME\<close> and \<open>NGX_POST_EVENTS\<close>: the clock and the accept
        mutex afterwards, and what the method does\<close>
  ee_add_event :: "nat \<Rightarrow> 'w event_cycle \<Rightarrow> 'w \<times> bool \<times> bool"   \<comment> \<open>\<open>ev->active\<close> afterwards, and success\<close>
  ee_del_event :: "nat \<Rightarrow> 'w event_cycle \<Rightarrow> 'w \<times> bool \<times> bool"
  ee_listening :: "(nat option \<times> bool) list"   \<comment> \<open>the read event of the connection, and \<open>reuseport\<close>\<close>
  timer_resolution :: bool
  use_accept_mutex :: bool
  accept_mutex_delay :: ngx_msec_t
  ee_shmtx :: shmtx
  ngx_pid :: nat

fun poll_acts :: "'w event_env \<Rightarrow> poll_act list \<Rightarrow> 'w event_cycle \<Rightarrow> 'w event_cycle option" where
  "poll_acts E [] S = Some S"
| "poll_acts E (Ready_Handler ev # as) S =
     Option.bind (call_handler (ee_dbg E) (ee_handlers E) ev S) (poll_acts E as)"
| "poll_acts E (Ready_Op op # as) S = Option.bind (do_event_op (ee_dbg E) op S) (poll_acts E as)"

definition ngx_process_events ::
    "'w event_env \<Rightarrow> ngx_msec_t \<Rightarrow> bool \<Rightarrow> bool \<Rightarrow> 'w event_cycle \<Rightarrow> 'w event_cycle option" where
  "ngx_process_events E timer update post S =
     (let (msec, sh, w, as) = ee_process_events E timer update post S
      in poll_acts E as (S\<lparr>current_msec := msec, accept_mutex := sh, outside := w,
           polled := polled S @ [(timer, post, sh_lock (accept_mutex S))]\<rparr>))"

section \<open>The accept mutex\<close>

fun ngx_enable_accept_events :: "'w event_env \<Rightarrow> (nat option \<times> bool) list \<Rightarrow> 'w event_cycle \<Rightarrow> int \<times> 'w event_cycle" where
  "ngx_enable_accept_events E [] S = (NGX_OK, S)"
| "ngx_enable_accept_events E ((c, reuseport) # ls) S =
     (case c of
        None \<Rightarrow> ngx_enable_accept_events E ls S
      | Some ev \<Rightarrow>
          if active (event_at S ev) then ngx_enable_accept_events E ls S
          else (let (w, act, ok) = ee_add_event E ev S;
                    S = (set_event ev (active_update (\<lambda>_. act)) S)\<lparr>outside := w\<rparr>
                in if \<not> ok then (NGX_ERROR, S) else ngx_enable_accept_events E ls S))"

fun ngx_disable_accept_events ::
    "'w event_env \<Rightarrow> (nat option \<times> bool) list \<Rightarrow> bool \<Rightarrow> 'w event_cycle \<Rightarrow> int \<times> 'w event_cycle" where
  "ngx_disable_accept_events E [] all S = (NGX_OK, S)"
| "ngx_disable_accept_events E ((c, reuseport) # ls) all S =
     (case c of
        None \<Rightarrow> ngx_disable_accept_events E ls all S
      | Some ev \<Rightarrow>
          if \<not> active (event_at S ev) then ngx_disable_accept_events E ls all S
          else if reuseport \<and> \<not> all then ngx_disable_accept_events E ls all S
          else (let (w, act, ok) = ee_del_event E ev S;
                    S = (set_event ev (active_update (\<lambda>_. act)) S)\<lparr>outside := w\<rparr>
                in if \<not> ok then (NGX_ERROR, S) else ngx_disable_accept_events E ls all S))"

definition ngx_shmtx_unlock :: "shmtx \<Rightarrow> nat \<Rightarrow> shmtx_sh \<Rightarrow> shmtx_sh" where
  \<comment> \<open>without interference between the two steps\<close>
  "ngx_shmtx_unlock mtx pid sh =
     (let (ok, sh) = ngx_atomic_cmp_set pid 0 sh in if ok then ngx_shmtx_wakeup mtx sh else sh)"

definition unlock_accept_mutex :: "'w event_env \<Rightarrow> 'w event_cycle \<Rightarrow> 'w event_cycle" where
  "unlock_accept_mutex E S = S\<lparr>accept_mutex := ngx_shmtx_unlock (ee_shmtx E) (ngx_pid E) (accept_mutex S)\<rparr>"

definition ngx_trylock_accept_mutex :: "'w event_env \<Rightarrow> 'w event_cycle \<Rightarrow> int \<times> 'w event_cycle" where
  "ngx_trylock_accept_mutex E S =
     (let (locked, sh) = ngx_shmtx_trylock (ngx_pid E) (accept_mutex S);
          S = S\<lparr>accept_mutex := sh\<rparr>
      in if locked then
           if accept_mutex_held S \<and> \<not> accept_events S then (NGX_OK, S)
           else (let (rc, S) = ngx_enable_accept_events E (ee_listening E) S
                 in if rc = NGX_ERROR then (NGX_ERROR, unlock_accept_mutex E S)
                    else (NGX_OK, S\<lparr>accept_events := False, accept_mutex_held := True\<rparr>))
         else if accept_mutex_held S then
           (let (rc, S) = ngx_disable_accept_events E (ee_listening E) False S
            in if rc = NGX_ERROR then (NGX_ERROR, S) else (NGX_OK, S\<lparr>accept_mutex_held := False\<rparr>))
         else (NGX_OK, S))"

definition accept_turn :: "'w event_env \<Rightarrow> ngx_msec_t \<Rightarrow> 'w event_cycle \<Rightarrow> 'w event_cycle + ngx_msec_t \<times> bool \<times> 'w event_cycle" where
  \<comment> \<open>the part of the turn under \<open>ngx_use_accept_mutex\<close>: \<open>Inl\<close> is the early return, otherwise the timeout,
      the flag \<open>NGX_POST_EVENTS\<close> and the state\<close>
  "accept_turn E timer S =
     (if use_accept_mutex E then
        if 0 < accept_disabled S then Inr (timer, False, S\<lparr>accept_disabled := accept_disabled S - 1\<rparr>)
        else (let (rc, S) = ngx_trylock_accept_mutex E S
              in if rc = NGX_ERROR then Inl S
                 else if accept_mutex_held S then Inr (timer, True, S)
                 else Inr (if timer = NGX_TIMER_INFINITE \<or> accept_mutex_delay E < timer
                           then accept_mutex_delay E else timer, False, S))
      else Inr (timer, False, S))"

definition events_turn :: "'w event_env \<Rightarrow> ngx_msec_t \<Rightarrow> bool \<Rightarrow> bool \<Rightarrow> 'w event_cycle \<Rightarrow> 'w event_cycle option" where
  \<comment> \<open>from the call of the event method to the end of the turn\<close>
  "events_turn E timer update post S =
     Option.bind (ngx_process_events E timer update post S) (\<lambda>T.
       let delta = current_msec T - current_msec S
       in Option.bind (ngx_event_process_posted (ee_dbg E) (ee_handlers E) Posted_Accept T) (\<lambda>T.
            let T = (if accept_mutex_held T then unlock_accept_mutex E T else T)
            in Option.bind (if delta \<noteq> 0 then ngx_event_expire_timers (ee_dbg E) (ee_handlers E) T else Some T)
                 (ngx_event_process_posted (ee_dbg E) (ee_handlers E) Posted_Events)))"

definition ngx_process_events_and_timers :: "'w event_env \<Rightarrow> 'w event_cycle \<Rightarrow> 'w event_cycle option" where
  "ngx_process_events_and_timers E S =
     (let (timer, update) =
            (if timer_resolution E then (NGX_TIMER_INFINITE, False) else (ngx_event_find_timer S, True))
      in case accept_turn E timer S of
           Inl S \<Rightarrow> Some S
         | Inr (timer, post, S) \<Rightarrow>
             if \<not> ngx_queue_empty (ELHead Posted_Next) (event_links S)
             then Option.bind (ngx_event_move_posted_next S) (events_turn E 0 update post)
             else events_turn E timer update post S)"

section \<open>What the environment may do\<close>

fun act_ok :: "poll_act \<Rightarrow> bool" where
  "act_ok (Ready_Handler ev) \<longleftrightarrow> True"
| "act_ok (Ready_Op op) \<longleftrightarrow> op_ok op"

definition clock_ok :: "'w event_env \<Rightarrow> bool" where
  \<comment> \<open>the clock does not go back, and the event method returns within \<open>2 ^ 62\<close> milliseconds\<close>
  "clock_ok E \<longleftrightarrow> (\<forall>timer update post S.
     let msec = fst (ee_process_events E timer update post S)
     in 0 \<le> sint (msec - current_msec S) \<and> sint (msec - current_msec S) < 2 ^ 62)"

definition poll_ok :: "'w event_env \<Rightarrow> bool" where
  "poll_ok E \<longleftrightarrow> (\<forall>timer update post S.
     list_all act_ok (snd (snd (snd (ee_process_events E timer update post S)))))"

definition lock_ok :: "'w event_env \<Rightarrow> bool" where
  \<comment> \<open>the lock of this process is not taken away while the event method runs, nor given to it\<close>
  "lock_ok E \<longleftrightarrow> 0 < ngx_pid E \<and> (\<forall>timer update post S.
     sh_lock (fst (snd (ee_process_events E timer update post S))) = ngx_pid E \<longleftrightarrow>
       sh_lock (accept_mutex S) = ngx_pid E)"

definition env_ok :: "'w event_env \<Rightarrow> ('w \<Rightarrow> nat) \<Rightarrow> bool" where
  "env_ok E W \<longleftrightarrow> handlers_ok (ee_handlers E) \<and> clock_ok E \<and> poll_ok E \<and>
     finite_work (ee_handlers E) Posted_Accept W \<and> finite_work (ee_handlers E) Posted_Events W"

section \<open>The parts of a turn\<close>

definition same_events :: "'w event_cycle \<Rightarrow> 'w event_cycle \<Rightarrow> bool" where
  \<comment> \<open>agreement on the timers, the posted queues, the clock and the histories\<close>
  "same_events S T \<longleftrightarrow>
     timer_rbtree T = timer_rbtree S \<and> event_links T = event_links S \<and> current_msec T = current_msec S \<and>
     called T = called S \<and> polled T = polled S \<and>
     (\<forall>ev. timer_set (event_at T ev) = timer_set (event_at S ev) \<and> key_of T ev = key_of S ev \<and>
           posted (event_at T ev) = posted (event_at S ev))"

lemma same_events_refl [simp]: "same_events S S"
  by (simp add: same_events_def)

lemma same_events_trans: "same_events S T \<Longrightarrow> same_events T U \<Longrightarrow> same_events S U"
  by (simp add: same_events_def)

lemma same_events_ok: "same_events S T \<Longrightarrow> event_ok S \<Longrightarrow> event_ok T"
  by (rule event_ok_cong [of S T]) (simp_all add: same_events_def)

lemma same_events_due: "same_events S T \<Longrightarrow> due T = due S"
  by (rule due_cong) (simp_all add: same_events_def)

lemma same_events_update [simp]:
  "same_events S (S\<lparr>accept_mutex := sh\<rparr>)" "same_events S (S\<lparr>accept_events := b\<rparr>)"
  "same_events S (S\<lparr>accept_mutex_held := b\<rparr>)" "same_events S (S\<lparr>accept_disabled := n\<rparr>)"
  "same_events S (S\<lparr>accept_events := b, accept_mutex_held := c\<rparr>)"
  "same_events S (unlock_accept_mutex E S)"
  "same_events S ((set_event ev (active_update f) S)\<lparr>outside := w\<rparr>)"
  by (simp_all add: same_events_def unlock_accept_mutex_def)

lemma enable_accept_same:
  "ngx_enable_accept_events E ls S = (rc, T) \<Longrightarrow>
   same_events S T \<and> accept_mutex T = accept_mutex S \<and> (rc = NGX_OK \<or> rc = NGX_ERROR)"
proof (induction ls arbitrary: S)
  case (Cons l ls)
  obtain c reuseport where l: "l = (c, reuseport)" by fastforce
  show ?case
  proof (cases c)
    case None
    then show ?thesis using Cons l by simp
  next
    case (Some ev)
    obtain w act ok where a: "ee_add_event E ev S = (w, act, ok)" by (metis prod.exhaust)
    let ?S = "(set_event ev (active_update (\<lambda>_. act)) S)\<lparr>outside := w\<rparr>"
    have s: "same_events S ?S" "accept_mutex ?S = accept_mutex S" by simp_all
    show ?thesis
      using Cons.IH [of S] Cons.IH [of ?S] Cons.prems s same_events_trans [OF s(1), of T]
      by (auto simp: l Some a Let_def split: if_splits)
  qed
qed simp

lemma disable_accept_same:
  "ngx_disable_accept_events E ls all S = (rc, T) \<Longrightarrow>
   same_events S T \<and> accept_mutex T = accept_mutex S \<and> (rc = NGX_OK \<or> rc = NGX_ERROR)"
proof (induction ls arbitrary: S)
  case (Cons l ls)
  obtain c reuseport where l: "l = (c, reuseport)" by fastforce
  show ?case
  proof (cases c)
    case None
    then show ?thesis using Cons l by simp
  next
    case (Some ev)
    obtain w act ok where a: "ee_del_event E ev S = (w, act, ok)" by (metis prod.exhaust)
    let ?S = "(set_event ev (active_update (\<lambda>_. act)) S)\<lparr>outside := w\<rparr>"
    have s: "same_events S ?S" "accept_mutex ?S = accept_mutex S" by simp_all
    show ?thesis
      using Cons.IH [of S] Cons.IH [of ?S] Cons.prems s same_events_trans [OF s(1), of T]
      by (auto simp: l Some a Let_def split: if_splits)
  qed
qed simp

lemma sh_lock_wakeup [simp]: "sh_lock (ngx_shmtx_wakeup mtx sh) = sh_lock sh"
  by (simp add: ngx_shmtx_wakeup_def)

lemma sh_lock_unlock: "sh_lock (ngx_shmtx_unlock mtx pid sh) = (if sh_lock sh = pid then 0 else sh_lock sh)"
  by (simp add: ngx_shmtx_unlock_def ngx_atomic_cmp_set_def)

lemma trylock_accept_cases:
  assumes "ngx_trylock_accept_mutex E S = (rc, T)" "0 < ngx_pid E" "sh_lock (accept_mutex S) \<noteq> ngx_pid E"
  shows "same_events S T \<and>
    (rc = NGX_ERROR \<and> sh_lock (accept_mutex T) \<noteq> ngx_pid E \<or>
     rc = NGX_OK \<and> accept_mutex_held T = (sh_lock (accept_mutex T) = ngx_pid E))"
proof -
  obtain locked sh where tl: "ngx_shmtx_trylock (ngx_pid E) (accept_mutex S) = (locked, sh)" by fastforce
  have lk: "sh_lock sh = ngx_pid E \<longleftrightarrow> locked" using tl assms(2,3)
    by (auto simp: ngx_shmtx_trylock_def ngx_atomic_cmp_set_def split: if_splits)
  let ?S = "S\<lparr>accept_mutex := sh\<rparr>"
  have s: "same_events S ?S" by simp
  show ?thesis
  proof (cases locked)
    case True
    obtain rc' U where U: "ngx_enable_accept_events E (ee_listening E) ?S = (rc', U)" by fastforce
    note en = enable_accept_same [OF U]
    have sU: "same_events S U" using en same_events_trans [OF s] by blast
    note up = same_events_trans [OF sU]
    show ?thesis
      using assms(1,2) True lk en s up
      by (auto simp: ngx_trylock_accept_mutex_def tl U Let_def unlock_accept_mutex_def sh_lock_unlock split: if_splits)
  next
    case False
    obtain rc' U where U: "ngx_disable_accept_events E (ee_listening E) False ?S = (rc', U)" by fastforce
    note en = disable_accept_same [OF U]
    have sU: "same_events S U" using en same_events_trans [OF s] by blast
    note up = same_events_trans [OF sU]
    show ?thesis
      using assms(1,2) False lk en s sU up
      by (auto simp: ngx_trylock_accept_mutex_def tl U Let_def split: if_splits)
  qed
qed

lemma accept_turn_Inl:
  assumes "accept_turn E timer S = Inl T" "0 < ngx_pid E" "sh_lock (accept_mutex S) \<noteq> ngx_pid E"
  shows "same_events S T \<and> sh_lock (accept_mutex T) \<noteq> ngx_pid E \<and>
    use_accept_mutex E \<and> fst (ngx_trylock_accept_mutex E S) = NGX_ERROR"
proof -
  obtain rc U where U: "ngx_trylock_accept_mutex E S = (rc, U)" by fastforce
  show ?thesis using assms trylock_accept_cases [OF U assms(2,3)]
    by (auto simp: accept_turn_def U split: if_splits)
qed

lemma accept_turn_Inr:
  assumes "accept_turn E timer S = Inr (timer', post, T)" "0 < ngx_pid E" "sh_lock (accept_mutex S) \<noteq> ngx_pid E"
  shows "same_events S T" "post \<longleftrightarrow> sh_lock (accept_mutex T) = ngx_pid E" "post \<Longrightarrow> accept_mutex_held T"
    "timer' = timer \<or> use_accept_mutex E \<and> timer' = accept_mutex_delay E \<and> (timer = NGX_TIMER_INFINITE \<or> accept_mutex_delay E < timer)"
proof -
  obtain rc U where U: "ngx_trylock_accept_mutex E S = (rc, U)" by fastforce
  note tc = trylock_accept_cases [OF U assms(2,3)]
  show "same_events S T" "post \<longleftrightarrow> sh_lock (accept_mutex T) = ngx_pid E" "post \<Longrightarrow> accept_mutex_held T"
    "timer' = timer \<or> use_accept_mutex E \<and> timer' = accept_mutex_delay E \<and> (timer = NGX_TIMER_INFINITE \<or> accept_mutex_delay E < timer)"
    using assms tc by (auto simp: accept_turn_def U split: if_splits)
qed

lemma poll_acts_Cons: "poll_acts E (a # as) S = Option.bind (poll_acts E [a] S) (poll_acts E as)"
proof -
  have "poll_acts E [] = Some" by (simp add: fun_eq_iff)
  then show ?thesis by (cases a) simp_all
qed

lemma poll_acts_ok:
  assumes "event_ok S" "handlers_ok (ee_handlers E)" "list_all act_ok as"
  obtains T where "poll_acts E as S = Some T" "event_ok T" "client_step S T"
  using assms(1,3)
proof (induction as arbitrary: S thesis)
  case Nil
  then show ?case by simp
next
  case (Cons a as)
  have "\<exists>T. poll_acts E [a] S = Some T \<and> event_ok T \<and> client_step S T"
  proof (cases a)
    case (Ready_Handler ev)
    obtain T where "call_handler (ee_dbg E) (ee_handlers E) ev S = Some T" "event_ok T" "client_step S T"
      by (rule call_handler_ok [OF Cons.prems(2) assms(2)])
    then show ?thesis using Ready_Handler by simp
  next
    case (Ready_Op op)
    then have "op_ok op" using Cons.prems(3) by simp
    from event_op_ok [OF Cons.prems(2) this] obtain T where
      "do_event_op (ee_dbg E) op S = Some T" "event_ok T" "client_step S T" by blast
    then show ?thesis using Ready_Op by simp
  qed
  then obtain T where T: "poll_acts E [a] S = Some T" "event_ok T" "client_step S T" by auto
  obtain U where U: "poll_acts E as T = Some U" "event_ok U" "client_step T U"
    using Cons.IH [of T] T(2) Cons.prems(3) by auto
  have "poll_acts E (a # as) S = Some U" by (subst poll_acts_Cons) (simp only: T(1) U(1) Option.bind.simps)
  then show ?case using U client_step_trans [OF T(3) U(3)] by (intro Cons.prems(1) [of U])
qed

lemma process_events_ok:
  fixes E :: "'w event_env" and S :: "'w event_cycle" and timer :: ngx_msec_t and update post :: bool
  assumes "event_ok S" "due S = {}" "env_ok E W"
  defines "msec \<equiv> fst (ee_process_events E timer update post S)"
    and "sh \<equiv> fst (snd (ee_process_events E timer update post S))"
  obtains T where "ngx_process_events E timer update post S = Some T" "event_ok T" "current_msec T = msec"
    "accept_mutex T = sh" "accept_mutex_held T = accept_mutex_held S"
    "polled T = polled S @ [(timer, post, sh_lock (accept_mutex S))]" "msec = current_msec S \<Longrightarrow> due T = {}"
proof -
  obtain w as where r: "ee_process_events E timer update post S = (msec, sh, w, as)"
    by (metis msec_def sh_def prod.exhaust fst_conv snd_conv)
  define d where "d = sint (msec - current_msec S)"
  have d: "0 \<le> d" "d < 2 ^ 62" using assms(3) unfolding env_ok_def clock_ok_def d_def msec_def by (meson)+
  have msec: "msec = current_msec S + of_int d" by (simp add: d_def)
  have ok: "timers_ok S" using assms(1) by (simp add: event_ok_def)
  have "in_window (time_left S ev - d)" if "timer_set (event_at S ev)" for ev
  proof -
    have "0 < time_left S ev" "in_window (time_left S ev)" using that assms(2) ok by (auto simp: due_def timers_ok_def not_le)
    then show ?thesis using d by (simp add: in_window_def)
  qed
  note adv = clock_advances [OF ok this d]
  let ?T = "S\<lparr>current_msec := msec, accept_mutex := sh, outside := w,
           polled := polled S @ [(timer, post, sh_lock (accept_mutex S))]\<rparr>"
  have "timers_ok ?T" using adv(1) by (rule timers_ok_cong) (simp_all add: msec)
  moreover obtain qs where "posted_ok S qs" using assms(1) by (auto simp: event_ok_def)
  then have "posted_ok ?T qs" by (rule posted_ok_cong) simp_all
  ultimately have okT: "event_ok ?T" by (auto simp: event_ok_def)
  have "list_all act_ok as" using assms(3) r unfolding env_ok_def poll_ok_def by (metis snd_conv)
  then obtain U where U: "poll_acts E as ?T = Some U" "event_ok U" "client_step ?T U"
    using poll_acts_ok [OF okT] assms(3) by (metis env_ok_def)
  have "due U = {}" if "msec = current_msec S"
  proof -
    have "due ?T = due S" using that by (intro due_cong) simp_all
    then show ?thesis using U(3) assms(2) by (simp add: client_step_def)
  qed
  then show thesis using U r by (intro that [of U]) (simp_all add: ngx_process_events_def client_step_def)
qed

section \<open>A turn\<close>

lemma events_turn_ok:
  fixes E :: "'w event_env" and S :: "'w event_cycle" and timer :: ngx_msec_t and update post :: bool
  assumes "event_ok S" "due S = {}" "env_ok E W"
  defines "msec \<equiv> fst (ee_process_events E timer update post S)"
    and "sh \<equiv> fst (snd (ee_process_events E timer update post S))"
  obtains T where "events_turn E timer update post S = Some T" "event_ok T" "due T = {}" "current_msec T = msec"
    "polled T = polled S @ [(timer, post, sh_lock (accept_mutex S))]"
    "sh_lock (accept_mutex T) =
       (if accept_mutex_held S \<and> sh_lock sh = ngx_pid E then 0 else sh_lock sh)"
proof -
  let ?H = "ee_handlers E" and ?dbg = "ee_dbg E"
  have H: "handlers_ok ?H" "finite_work ?H Posted_Accept W" "finite_work ?H Posted_Events W"
    using assms(3) by (simp_all add: env_ok_def)
  obtain T where T: "ngx_process_events E timer update post S = Some T" "event_ok T" "current_msec T = msec"
    "accept_mutex T = sh" "accept_mutex_held T = accept_mutex_held S"
    "polled T = polled S @ [(timer, post, sh_lock (accept_mutex S))]" "msec = current_msec S \<Longrightarrow> due T = {}"
    by (rule process_events_ok [OF assms(1-3), of timer update post, folded msec_def sh_def]) (rule that)
  obtain qs where "posted_ok T qs" using T(2) by (auto simp: event_ok_def)
  from process_posted_run [OF T(2) this H(1,2), of ?dbg] obtain U where
    U: "ngx_event_process_posted ?dbg ?H Posted_Accept T = Some U" "event_ok U" "client_step T U" by blast
  define V where "V = (if accept_mutex_held U then unlock_accept_mutex E U else U)"
  have sV: "same_events U V" by (simp add: V_def)
  have okV: "event_ok V" by (rule same_events_ok [OF sV U(2)])
  have "\<exists>W. (if msec \<noteq> current_msec S then ngx_event_expire_timers ?dbg ?H V else Some V) = Some W \<and>
    event_ok W \<and> client_step V W \<and> due W = {}"
  proof (cases "msec = current_msec S")
    case True
    then have "due V = {}" using T(7) U(3) same_events_due [OF sV] by (simp add: client_step_def)
    then show ?thesis using True okV by simp
  next
    case False
    then show ?thesis using expire_timers_run [OF okV H(1), of ?dbg] by auto
  qed
  then obtain X where X: "(if msec \<noteq> current_msec S then ngx_event_expire_timers ?dbg ?H V else Some V) = Some X"
    "event_ok X" "client_step V X" "due X = {}" by blast
  obtain rs where "posted_ok X rs" using X(2) by (auto simp: event_ok_def)
  from process_posted_run [OF X(2) this H(1,3), of ?dbg] obtain Y where
    Y: "ngx_event_process_posted ?dbg ?H Posted_Events X = Some Y" "event_ok Y" "client_step X Y" by blast
  have st: "client_step V Y" by (rule client_step_trans [OF X(3) Y(3)])
  show thesis
  proof (rule that [of Y])
    show "events_turn E timer update post S = Some Y"
      using X(1) by (simp add: events_turn_def T(1,3) U(1) Let_def V_def [symmetric] Y(1) split: if_split_asm)
    show "due Y = {}" using Y(3) X(4) by (simp add: client_step_def)
    show "current_msec Y = msec" "polled Y = polled S @ [(timer, post, sh_lock (accept_mutex S))]"
      using st U(3) T(3,6) sV by (simp_all add: client_step_def same_events_def)
    show "sh_lock (accept_mutex Y) = (if accept_mutex_held S \<and> sh_lock sh = ngx_pid E then 0 else sh_lock sh)"
      using st U(3) T(4,5) by (simp add: client_step_def V_def unlock_accept_mutex_def sh_lock_unlock)
  qed (rule Y(2))
qed

lemma move_posted_event_ok:
  assumes "event_ok S" "\<not> ngx_queue_empty (ELHead Posted_Next) (event_links S)"
  obtains T where "ngx_event_move_posted_next S = Some T" "event_ok T" "due T = due S" "current_msec T = current_msec S"
    "accept_mutex T = accept_mutex S" "accept_mutex_held T = accept_mutex_held S" "polled T = polled S"
proof -
  obtain qs where qs: "posted_ok S qs" using assms(1) by (auto simp: event_ok_def)
  have "qs Posted_Next \<noteq> []" using assms(2) posted_ok_empty [OF qs] by simp
  from move_posted_next_ok [OF qs this] obtain T where
    T: "ngx_event_move_posted_next S = Some T"
      "posted_ok T (qs(Posted_Events := qs Posted_Events @ qs Posted_Next, Posted_Next := []))"
      "T = S\<lparr>event_at := \<lambda>ev. if ev \<in> set (qs Posted_Next) then wake_event (event_at S ev) else event_at S ev,
             event_links := event_links T\<rparr>" by blast
  have f: "timer_rbtree T = timer_rbtree S" "current_msec T = current_msec S" "accept_mutex T = accept_mutex S"
    "accept_mutex_held T = accept_mutex_held S" "polled T = polled S"
    by (subst T(3), simp)+
  have e: "timer_set (event_at T ev) = timer_set (event_at S ev)" "key_of T ev = key_of S ev" for ev
    by (subst T(3), simp add: wake_event_def)+
  have "timers_ok S" using assms(1) by (simp add: event_ok_def)
  then have "timers_ok T" by (rule timers_ok_cong) (simp_all add: f e)
  then have "event_ok T" using T(2) by (auto simp: event_ok_def)
  moreover have "due T = due S" by (rule due_cong) (simp_all add: f e)
  ultimately show thesis using T(1) f by (intro that)
qed

definition timeout_ok :: "'w event_env \<Rightarrow> 'w event_cycle \<Rightarrow> ngx_msec_t \<Rightarrow> bool" where
  \<comment> \<open>not to sleep past a deadline; with \<open>timer_resolution\<close> the deadlines are not looked at, and a timer signal
      interrupts the sleep\<close>
  "timeout_ok E S timer \<longleftrightarrow>
     (if timer_resolution E
      then timer = NGX_TIMER_INFINITE \<or> timer = 0 \<or> use_accept_mutex E \<and> timer = accept_mutex_delay E
      else \<forall>ev. timer_set (event_at S ev) \<longrightarrow> timer \<noteq> NGX_TIMER_INFINITE \<and> sint timer \<le> max 0 (time_left S ev))"

lemma sint_mono_unsigned:
  fixes a b :: "64 word"
  assumes "a < b" "0 \<le> sint b"
  shows "sint a \<le> sint b"
proof -
  have "uint b < 2 ^ 64" using unsigned_less [where 'a = int, of b] by simp
  then show ?thesis using assms sint_cases_64 [of a] sint_cases_64 [of b] by (auto simp: word_less_alt split: if_splits)
qed

lemma timeout_ok_turn:
  assumes "event_ok S" "timer = (if timer_resolution E then NGX_TIMER_INFINITE else ngx_event_find_timer S)"
    and "timer' = timer \<or> use_accept_mutex E \<and> timer' = accept_mutex_delay E \<and>
      (timer = NGX_TIMER_INFINITE \<or> accept_mutex_delay E < timer)"
  shows "timeout_ok E S timer'" "timeout_ok E S 0"
proof -
  have t: "timers_ok S" using assms(1) by (simp add: event_ok_def)
  show "timeout_ok E S 0" by (simp add: timeout_ok_def NGX_TIMER_INFINITE_def)
  show "timeout_ok E S timer'"
  proof (cases "timer_resolution E")
    case True
    then show ?thesis using assms(2,3) by (auto simp: timeout_ok_def)
  next
    case False
    then have tm: "timer = ngx_event_find_timer S" using assms(2) by simp
    from t show ?thesis
    proof (cases rule: find_timer_cases)
      case none
      then show ?thesis using False by (simp add: timeout_ok_def)
    next
      case (some ev)
      have ni: "timer \<noteq> NGX_TIMER_INFINITE" using some(3) tm by (auto simp: NGX_TIMER_INFINITE_def)
      then have le: "timer' \<le> timer" using assms(3) by auto
      have pos: "0 \<le> sint timer" using some(3) tm by simp
      have "sint timer' \<le> sint timer" using le pos sint_mono_unsigned by (cases "timer' = timer") auto
      moreover have "timer' \<noteq> NGX_TIMER_INFINITE"
      proof
        assume "timer' = NGX_TIMER_INFINITE"
        then have "timer = - 1" using le by (simp add: NGX_TIMER_INFINITE_def word_order.extremum_unique)
        then show False using ni by (simp add: NGX_TIMER_INFINITE_def)
      qed
      ultimately show ?thesis using some(2,3) tm False by (fastforce simp: timeout_ok_def)
    qed
  qed
qed

lemma timeout_ok_same: "same_events S T \<Longrightarrow> timeout_ok E T timer = timeout_ok E S timer"
  by (simp add: timeout_ok_def same_events_def time_left_def)

definition turn_ok :: "'w event_env \<Rightarrow> 'w event_cycle \<Rightarrow> bool" where
  \<comment> \<open>the state between two turns\<close>
  "turn_ok E S \<longleftrightarrow> event_ok S \<and> due S = {} \<and> sh_lock (accept_mutex S) \<noteq> ngx_pid E"

definition polled_once :: "'w event_env \<Rightarrow> 'w event_cycle \<Rightarrow> 'w event_cycle \<Rightarrow> bool" where
  \<comment> \<open>the event method is called once, with such a timeout, and told to post
      events exactly when this process holds the accept mutex\<close>
  "polled_once E S T \<longleftrightarrow>
     (\<exists>timer post lock. polled T = polled S @ [(timer, post, lock)] \<and> timeout_ok E S timer \<and>
        (post \<longleftrightarrow> lock = ngx_pid E))"

lemma process_events_and_timers_run:
  assumes "turn_ok E S" "env_ok E W" "lock_ok E"
  shows "\<exists>T. ngx_process_events_and_timers E S = Some T \<and> turn_ok E T \<and>
    (polled_once E S T \<or>
     use_accept_mutex E \<and> fst (ngx_trylock_accept_mutex E S) = NGX_ERROR \<and> same_events S T)"
proof -
  have ok: "event_ok S" "due S = {}" "sh_lock (accept_mutex S) \<noteq> ngx_pid E" and pid: "0 < ngx_pid E"
    using assms(1,3) by (simp_all add: turn_ok_def lock_ok_def)
  define timer where "timer = (if timer_resolution E then NGX_TIMER_INFINITE else ngx_event_find_timer S)"
  define update where "update = (\<not> timer_resolution E)"
  have unf: "ngx_process_events_and_timers E S = (case accept_turn E timer S of
           Inl S \<Rightarrow> Some S
         | Inr (timer, post, S) \<Rightarrow>
             if \<not> ngx_queue_empty (ELHead Posted_Next) (event_links S)
             then Option.bind (ngx_event_move_posted_next S) (events_turn E 0 update post)
             else events_turn E timer update post S)"
  proof (cases "timer_resolution E")
    case True
    then have e: "timer_resolution E = True" by simp
    show ?thesis unfolding ngx_process_events_and_timers_def timer_def update_def e not_True_eq_False by simp
  next
    case False
    then have e: "timer_resolution E = False" by simp
    show ?thesis unfolding ngx_process_events_and_timers_def timer_def update_def e not_False_eq_True by simp
  qed
  show ?thesis
  proof (cases "accept_turn E timer S")
    case (Inl T)
    note t = accept_turn_Inl [OF Inl pid ok(3)]
    then have "turn_ok E T" using ok same_events_ok [of S T] same_events_due [of S T] by (simp add: turn_ok_def)
    then show ?thesis using t unf Inl by simp
  next
    case (Inr r)
    obtain timer' post T where r: "r = (timer', post, T)" by (metis prod.exhaust)
    note t = accept_turn_Inr [OF Inr [unfolded r] pid ok(3)]
    have okT: "event_ok T" "due T = {}" using ok same_events_ok [OF t(1)] same_events_due [OF t(1)] by simp_all
    note to = timeout_ok_turn [OF ok(1) timer_def t(4)]
    have run: "\<exists>V. events_turn E tm update post U = Some V \<and> turn_ok E V \<and> polled_once E S V"
      if U: "event_ok U" "due U = {}" "accept_mutex U = accept_mutex T" "accept_mutex_held U = accept_mutex_held T"
        "polled U = polled T" "timeout_ok E S tm" for U tm
    proof -
      obtain V where V: "events_turn E tm update post U = Some V" "event_ok V" "due V = {}"
        "polled V = polled U @ [(tm, post, sh_lock (accept_mutex U))]"
        "sh_lock (accept_mutex V) =
          (if accept_mutex_held U \<and> sh_lock (fst (snd (ee_process_events E tm update post U))) = ngx_pid E then 0
           else sh_lock (fst (snd (ee_process_events E tm update post U))))"
        using events_turn_ok [OF U(1,2) assms(2), of tm update post] by metis
      have "sh_lock (fst (snd (ee_process_events E tm update post U))) = ngx_pid E \<longleftrightarrow> post"
        using assms(3) t(2) U(3) unfolding lock_ok_def by simp
      then have "turn_ok E V" using V pid t(3) U(4) by (auto simp: turn_ok_def)
      moreover have "polled_once E S V"
        using V(4) U(3,5,6) t(1,2) by (auto simp: polled_once_def same_events_def)
      ultimately show ?thesis using V(1) by blast
    qed
    show ?thesis
    proof (cases "ngx_queue_empty (ELHead Posted_Next) (event_links T)")
      case True
      then show ?thesis using run [OF okT refl refl refl to(1)] unf Inr r by auto
    next
      case False
      obtain U where U: "ngx_event_move_posted_next T = Some U" "event_ok U" "due U = due T"
        "accept_mutex U = accept_mutex T" "accept_mutex_held U = accept_mutex_held T" "polled U = polled T"
        by (rule move_posted_event_ok [OF okT(1) False])
      then show ?thesis using run [OF U(2) _ U(4,5,6) to(2)] okT(2) unf Inr r False by auto
    qed
  qed
qed

fun event_turns :: "'w event_env \<Rightarrow> nat \<Rightarrow> 'w event_cycle \<Rightarrow> 'w event_cycle option" where
  \<comment> \<open>the calls that the loop of \<open>ngx_worker_process_cycle\<close> makes\<close>
  "event_turns E 0 S = Some S"
| "event_turns E (Suc n) S = Option.bind (ngx_process_events_and_timers E S) (event_turns E n)"

lemma event_turns_run:
  assumes "turn_ok E S" "env_ok E W" "lock_ok E"
  shows "\<exists>T. event_turns E n S = Some T \<and> turn_ok E T"
  using assms(1)
proof (induction n arbitrary: S)
  case (Suc n)
  from process_events_and_timers_run [OF Suc.prems assms(2,3)] obtain T
    where "ngx_process_events_and_timers E S = Some T" "turn_ok E T" by blast
  then show ?case using Suc.IH [of T] by simp
qed simp

section \<open>Properties\<close>

text \<open>A state with three events: the timer of the first is due at 90, that of the second at 200, and
  the third is posted.\<close>

definition sample_event :: ngx_event where
  "sample_event = \<lparr>timer_key = 0, timer_set = False, timedout = False, cancelable = False, posted = False,
     ready = False, active = False, available = 0\<rparr>"

definition sample_cycle :: "ngx_msec_t \<Rightarrow> unit event_cycle" where
  "sample_cycle msec = ngx_post_event 3 Posted_Events
     \<lparr>event_at = (\<lambda>_. sample_event)(1 := sample_event\<lparr>timer_key := 90, timer_set := True\<rparr>,
        2 := sample_event\<lparr>timer_key := 200, timer_set := True\<rparr>),
      timer_rbtree = Node Black 1 Sentinel (Node Red 2 Sentinel Sentinel),
      event_links = ngx_queue_init (ELHead Posted_Accept) (ngx_queue_init (ELHead Posted_Next)
        (ngx_queue_init (ELHead Posted_Events) \<lparr>prev_of = \<lambda>_. ELNull, next_of = \<lambda>_. ELNull\<rparr>)),
      current_msec = msec, accept_mutex = \<lparr>sh_lock = 0, sh_wait = 0, sh_sem = 0\<rparr>,
      accept_mutex_held = False, accept_events = False, accept_disabled = 0,
      outside = (), called = [], polled = []\<rparr>"

definition sample_handlers :: "unit handlers" where
  "sample_handlers ev S = ((), [])"

definition sample_env :: "unit event_env" where
  "sample_env = \<lparr>ee_dbg = None, ee_handlers = sample_handlers,
     ee_process_events = \<lambda>timer update post S. (current_msec S + 50, accept_mutex S, (), []),
     ee_add_event = \<lambda>ev S. ((), True, True), ee_del_event = \<lambda>ev S. ((), False, True),
     ee_listening = [(Some 4, False)], timer_resolution = False, use_accept_mutex = True,
     accept_mutex_delay = 500, ee_shmtx = ngx_shmtx_create False True, ngx_pid = 7\<rparr>"

lemma sample_events:
  "timer_rbtree (sample_cycle msec) = Node Black 1 Sentinel (Node Red 2 Sentinel Sentinel)"
  "current_msec (sample_cycle msec) = msec" "called (sample_cycle msec) = []" "polled (sample_cycle msec) = []"
  "timer_set (event_at (sample_cycle msec) ev) \<longleftrightarrow> ev = 1 \<or> ev = 2"
  "key_of (sample_cycle msec) ev = (if ev = 1 then 90 else if ev = 2 then 200 else 0)"
  "sh_lock (accept_mutex (sample_cycle msec)) = 0"
  by (simp_all add: sample_cycle_def ngx_post_event_def sample_event_def)

lemma sample_timers_ok:
  assumes "sint (90 - msec) \<le> sint (200 - msec)" "in_window (sint (90 - msec))" "in_window (sint (200 - msec))"
  shows "timers_ok (sample_cycle msec)"
  using assms by (auto simp: timers_ok_def time_left_def sample_events rbt_def)

lemma sample_posted_ok: "posted_ok (sample_cycle msec) ((\<lambda>_. [])(Posted_Events := [3]))"
proof -
  let ?S = "\<lparr>event_at = (\<lambda>_. sample_event)(1 := sample_event\<lparr>timer_key := 90, timer_set := True\<rparr>,
        2 := sample_event\<lparr>timer_key := 200, timer_set := True\<rparr>),
      timer_rbtree = Node Black 1 Sentinel (Node Red 2 Sentinel Sentinel),
      event_links = \<lparr>prev_of = \<lambda>_. ELNull, next_of = \<lambda>_. ELNull\<rparr>,
      current_msec = msec, accept_mutex = \<lparr>sh_lock = 0, sh_wait = 0, sh_sem = 0\<rparr>,
      accept_mutex_held = False, accept_events = False, accept_disabled = 0,
      outside = (), called = [], polled = []\<rparr>"
  have "posted_ok (set_links (\<lambda>Q. ngx_queue_init (ELHead Posted_Accept) (ngx_queue_init (ELHead Posted_Next)
    (ngx_queue_init (ELHead Posted_Events) Q))) ?S) (\<lambda>_. [])"
    by (rule posted_ok_init) (simp add: sample_event_def)
  from post_event_ok [OF this, of 3 Posted_Events] show ?thesis
    by (simp add: sample_cycle_def set_links_def sample_event_def)
qed

lemma sample_event_ok:
  "event_ok (sample_cycle 80)" "event_ok (sample_cycle 100)"
  using sample_posted_ok sample_timers_ok [of 80] sample_timers_ok [of 100]
  by (auto simp: event_ok_def in_window_def)

lemma sample_due: "due (sample_cycle 80) = {}" "due (sample_cycle 100) = {1}"
  by (auto simp: due_def time_left_def sample_events)

lemma sample_handlers_ok: "handlers_ok sample_handlers" "finite_work sample_handlers q (\<lambda>_. 0)"
  "own_timers sample_handlers" "never_posts sample_handlers q" "never_deletes sample_handlers"
  by (simp_all add: sample_handlers_def handlers_ok_def finite_work_def own_timers_def never_posts_def never_deletes_def)

text \<open>C19. A turn of the event loop of a worker returns, and between turns no timer is due: every
  timer whose deadline passed while the worker slept has been fired, deleted or armed anew.  The event method is
  called once, and is told to post the events exactly when this process holds the accept mutex; after the turn
  the process does not hold it.  Its timeout does not pass the nearest deadline; with the directive \<open>timer_resolution\<close>, where a
  signal ends the sleep, it is infinite, unless the delay of the accept mutex or a posted event makes it shorter.  The
  only turn that does not reach the event method is one in which \<open>ngx_trylock_accept_mutex\<close> fails.  This holds
  when no timer is due at the start and the process does not hold the lock, the handlers, also those that the event method
  calls, arm timers for a positive time below \<open>2 ^ 62\<close> milliseconds and post finite work, and the event method returns
  within \<open>2 ^ 62\<close> milliseconds on a clock that does not go back and finds the lock with this process exactly when it
  had it.\<close>
theorem event_turn_correct:
  assumes "turn_ok E S" "env_ok E W" "lock_ok E"
  shows "\<exists>T. ngx_process_events_and_timers E S = Some T \<and> turn_ok E T \<and>
    (polled_once E S T \<or>
     use_accept_mutex E \<and> fst (ngx_trylock_accept_mutex E S) = NGX_ERROR \<and> same_events S T)"
  by (rule process_events_and_timers_run [OF assms])

theorem event_turn_correct_witness:
  "\<exists>T. ngx_process_events_and_timers sample_env (sample_cycle 80) = Some T \<and> due T = {}"
proof -
  have "turn_ok sample_env (sample_cycle 80)"
    by (simp add: turn_ok_def sample_event_ok sample_due sample_events sample_env_def)
  moreover have "env_ok sample_env (\<lambda>_. 0)"
    by (simp add: env_ok_def sample_env_def sample_handlers_ok clock_ok_def poll_ok_def)
  moreover have "lock_ok sample_env" by (simp add: lock_ok_def sample_env_def)
  ultimately show ?thesis using event_turn_correct [of sample_env "sample_cycle 80"] unfolding turn_ok_def by blast
qed

text \<open>C20. \<open>ngx_event_expire_timers\<close> returns and leaves no timer due, although its handlers may arm and delete timers, when
  they arm them for a positive time below \<open>2 ^ 62\<close> milliseconds (a handler that armed its own for 0 would be called for ever).
  It calls the handlers of events whose timers were due, each once and in
  the order of the deadlines, and of all of them when the handlers leave the timers of other events alone.\<close>
theorem expire_timers_correct:
  assumes "event_ok S" "handlers_ok H"
  shows "\<exists>T fired. ngx_event_expire_timers dbg H S = Some T \<and> event_ok T \<and> due T = {} \<and>
    called T = called S @ fired \<and> distinct fired \<and> set fired \<subseteq> due S \<and> (own_timers H \<longrightarrow> set fired = due S) \<and>
    sorted_wrt (\<lambda>a b. time_left S a \<le> time_left S b) fired"
  using expire_timers_run [OF assms, of dbg] by blast

theorem expire_timers_correct_witness:
  "\<exists>T. ngx_event_expire_timers None sample_handlers (sample_cycle 100) = Some T \<and> set (called T) = {1}"
  using expire_timers_correct [of "sample_cycle 100" sample_handlers None] sample_event_ok sample_handlers_ok sample_due
  by (auto simp: sample_events)

text \<open>C22. \<open>ngx_event_process_posted\<close> empties its queue, with pointers in place, when the
  handlers post only finite work to it (and arm timers, if they do, for a positive time below \<open>2 ^ 62\<close> milliseconds).  When they post nothing to it the calls follow the order of the queue,
  and when besides they delete no posted event every event of the queue is called, first in first out.\<close>
theorem process_posted_fifo:
  assumes "event_ok S" "posted_ok S qs" "handlers_ok H" "finite_work H q W"
  shows "\<exists>T qs' fired. ngx_event_process_posted dbg H q S = Some T \<and> event_ok T \<and> posted_ok T qs' \<and> qs' q = [] \<and>
    called T = called S @ fired \<and> (never_posts H q \<longrightarrow> subseq fired (qs q)) \<and>
    (never_posts H q \<and> never_deletes H \<longrightarrow> fired = qs q)"
  using process_posted_run [OF assms, of dbg] by blast

theorem process_posted_fifo_witness:
  "\<exists>T. ngx_event_process_posted None sample_handlers Posted_Events (sample_cycle 80) = Some T \<and> called T = [3]"
  using process_posted_fifo [OF sample_event_ok(1) sample_posted_ok sample_handlers_ok(1,2), of None Posted_Events]
    sample_handlers_ok
  by (auto simp: sample_events)

text \<open>C21. \<open>ngx_event_add_timer\<close> arms the timer of an event for the given time, in a window of \<open>2 ^ 62\<close> milliseconds around the
  clock in which all deadlines are: the deadline is exact
  when the timer was not set, and at most 299 milliseconds off when the old one is kept
  (\<open>NGX_TIMER_LAZY_DELAY\<close>).  The tree stays a red-black tree ordered by deadline although the keys
  wrap, no other event changes, and the timer can be deleted again.\<close>
theorem event_add_timer_correct:
  assumes "timers_ok S" "in_window (sint timer)"
  shows "\<exists>T. ngx_event_add_timer ev timer S = Some T \<and> timers_ok T \<and> timer_set (event_at T ev) \<and>
    \<bar>time_left T ev - sint timer\<bar> < 300 \<and> (\<not> timer_set (event_at S ev) \<longrightarrow> time_left T ev = sint timer) \<and>
    (\<forall>e. e \<noteq> ev \<longrightarrow> event_at T e = event_at S e) \<and>
    (\<exists>U. ngx_event_del_timer ev T = Some U \<and> timers_ok U \<and> \<not> timer_set (event_at U ev))"
proof -
  obtain T key where T: "ngx_event_add_timer ev timer S = Some T" "timers_ok T" "same_but_timers S T"
    "event_at T = (event_at S)(ev := (event_at S ev)\<lparr>timer_key := key, timer_set := True\<rparr>)"
    "key = current_msec S + timer \<or>
       timer_set (event_at S ev) \<and> key = key_of S ev \<and> \<bar>time_left S ev - sint timer\<bar> < 300"
    by (rule add_timer_ok [OF assms, of ev]) (rule that)
  have set: "timer_set (event_at T ev)" by (simp add: T(4))
  have "time_left T ev = sint timer \<or> timer_set (event_at S ev) \<and> time_left T ev = time_left S ev \<and> \<bar>time_left S ev - sint timer\<bar> < 300"
    using T(5) by (auto simp: time_left_def T(4) same_but_timersD [OF T(3)])
  moreover obtain U where "ngx_event_del_timer ev T = Some U" "timers_ok U"
    "event_at U = (event_at T)(ev := (event_at T ev)\<lparr>timer_set := False\<rparr>)"
    using del_timer_ok [OF T(2) set] by blast
  ultimately show ?thesis using T(1,2) set by (intro exI [of _ T]) (auto simp: T(4))
qed

theorem event_add_timer_correct_witness:
  "\<exists>T. ngx_event_add_timer 3 500 (sample_cycle 80) = Some T \<and> time_left T 3 = 500"
  using event_add_timer_correct [of "sample_cycle 80" 500 3] sample_event_ok(1)
  by (auto simp: event_ok_def in_window_def sample_events)

text \<open>\<open>ngx_event_find_timer\<close> is \<open>NGX_TIMER_INFINITE\<close> when no timer is set, and otherwise the time to the
  nearest deadline, or 0 when that is past.  \<open>ngx_event_no_timers_left\<close> returns, and says
  \<open>NGX_OK\<close> exactly when every timer that is set is cancelable.\<close>
theorem event_find_timer_nearest:
  assumes "timers_ok S"
  shows "(if \<exists>ev. timer_set (event_at S ev)
     then (\<exists>ev. timer_set (event_at S ev) \<and> (\<forall>e. timer_set (event_at S e) \<longrightarrow> time_left S ev \<le> time_left S e) \<and>
             sint (ngx_event_find_timer S) = max 0 (time_left S ev))
     else ngx_event_find_timer S = NGX_TIMER_INFINITE) \<and>
    ngx_event_no_timers_left S =
      Some (if \<forall>ev. timer_set (event_at S ev) \<longrightarrow> cancelable (event_at S ev) then NGX_OK else NGX_AGAIN)"
  using assms no_timers_left_eq [OF assms] by (cases rule: find_timer_cases) auto

theorem event_find_timer_nearest_witness:
  "ngx_event_find_timer (sample_cycle 80) \<noteq> NGX_TIMER_INFINITE \<and>
   ngx_event_no_timers_left (sample_cycle 80) = Some NGX_AGAIN"
proof -
  have "timers_ok (sample_cycle 80)" using sample_event_ok(1) by (simp add: event_ok_def)
  moreover have "\<not> cancelable (event_at (sample_cycle 80) 1)"
    by (simp add: sample_cycle_def ngx_post_event_def sample_event_def)
  ultimately show ?thesis using event_find_timer_nearest [of "sample_cycle 80"] sample_events(5) [of 80]
    by (auto simp: NGX_TIMER_INFINITE_def split: if_splits)
qed

end
