(* ===== verification/Limit_Req_Delay.thy ===== *)
theory Limit_Req_Delay
  imports Limit_Req_Service Ngx_Event_Turn
begin

text \<open>
  Delayed requests.  The phase engine of \<open>nginx/src/http/ngx_http_core_module.c\<close> calls the handler of the limiter
  in a phase of its own; for a request to be delayed the handler arms the timer of the write event of the connection and the
  engine stops.  The event loop calls \<open>ngx_http_request_handler\<close> of \<open>nginx/src/http/ngx_http_request.c\<close> when the timer
  expires, which calls \<open>ngx_http_limit_req_delay\<close>, which runs the engine again.  So the limiter, the phases and
  the event loop are composed here.

  A connection has one request, and two events: the write event with the even number, and the read event.  The other phases,
  the other handlers of a request and the contracts of the event module are parameters; subrequests and the reference counts of
  requests are left out.
\<close>

section \<open>The state of the requests\<close>

datatype write_handler = WH_Limit_Req_Delay | WH_Run_Phases | WH_Other
datatype read_handler = RH_Test_Reading | RH_Block_Reading | RH_Other

record http_world =
  ev_delayed :: "nat \<Rightarrow> bool"                   \<comment> \<open>\<open>ev->delayed\<close>\<close>
  conn_close :: "nat \<Rightarrow> bool"                   \<comment> \<open>\<open>c->close\<close>\<close>
  write_event_handler :: "nat \<Rightarrow> write_handler"  \<comment> \<open>of the request of a connection\<close>
  read_event_handler :: "nat \<Rightarrow> read_handler"
  phase_handler :: "nat \<Rightarrow> nat"
  limit_req_status :: "nat \<Rightarrow> nat"
  limiter :: lr_world                          \<comment> \<open>the zones\<close>
  finalized :: "(nat \<times> int) list"              \<comment> \<open>history: the calls of \<open>ngx_http_finalize_request\<close>\<close>
  terminated :: "nat list"                     \<comment> \<open>history: the calls of \<open>ngx_http_terminate_request\<close>\<close>

definition write_event :: "nat \<Rightarrow> nat" where
  "write_event c = 2 * c"

definition ev_write :: "nat \<Rightarrow> bool" where
  "ev_write ev \<longleftrightarrow> even ev"

definition ev_connection :: "nat \<Rightarrow> nat" where
  "ev_connection ev = ev div 2"

lemma write_event_simps [simp]: "ev_write (write_event c)" "ev_connection (write_event c) = c"
  by (simp_all add: write_event_def ev_write_def ev_connection_def)

section \<open>The phases\<close>

abbreviation (input) NGX_DONE :: int where "NGX_DONE \<equiv> -4"

type_synonym phase_fn = "ngx_msec_t \<Rightarrow> nat \<Rightarrow> http_world \<Rightarrow> (int \<times> http_world \<times> event_op list) option"
  \<comment> \<open>a handler or a checker for a time and a connection; \<open>None\<close> is an access to memory that is not there\<close>

definition ngx_http_core_generic_phase :: "phase_fn \<Rightarrow> nat \<Rightarrow> phase_fn" where
  \<comment> \<open>for \<open>ph->handler\<close> and \<open>ph->next\<close>\<close>
  "ngx_http_core_generic_phase handler nxt now c w =
     (case handler now c w of
        None \<Rightarrow> None
      | Some (rc, w, ops) \<Rightarrow>
          if rc = NGX_OK then Some (NGX_AGAIN, w\<lparr>phase_handler := (phase_handler w)(c := nxt)\<rparr>, ops)
          else if rc = NGX_DECLINED
          then Some (NGX_AGAIN, w\<lparr>phase_handler := (phase_handler w)(c := phase_handler w c + 1)\<rparr>, ops)
          else if rc = NGX_AGAIN \<or> rc = NGX_DONE then Some (NGX_OK, w, ops)
          else Some (NGX_OK, w\<lparr>finalized := finalized w @ [(c, rc)]\<rparr>, ops))"

partial_function (option) ngx_http_core_run_phases ::
    "phase_fn list \<Rightarrow> ngx_msec_t \<Rightarrow> nat \<Rightarrow> http_world \<Rightarrow> event_op list \<Rightarrow> (http_world \<times> event_op list) option" where
  \<comment> \<open>with the operations made so far; behind the last checker there is one that is \<open>NULL\<close>\<close>
  [code]: "ngx_http_core_run_phases ph now c w ops =
     (if phase_handler w c = length ph then Some (w, ops)
      else if length ph < phase_handler w c then None
      else case (ph ! phase_handler w c) now c w of
             None \<Rightarrow> None
           | Some (rc, w, ops') \<Rightarrow>
               if rc = NGX_OK then Some (w, ops @ ops') else ngx_http_core_run_phases ph now c w (ops @ ops'))"

definition limit_req_phase ::
    "slab \<Rightarrow> (nat \<Rightarrow> string \<Rightarrow> string option) \<Rightarrow> lr_conf \<Rightarrow> bool \<Rightarrow> phase_fn" where
  \<comment> \<open>\<open>ngx_http_limit_req_handler\<close> with what it does to the request; the values of the variables are those of the request\<close>
  "limit_req_phase alloc complex_value lrcf read_event_ok now c w =
     (case ngx_http_limit_req_handler alloc now (complex_value c) read_event_ok lrcf (limit_req_status w c) (limiter w) of
        None \<Rightarrow> None
      | Some (out, l) \<Rightarrow>
          let w = w\<lparr>limiter := l, limit_req_status := (limit_req_status w)(c := out_status out)\<rparr>
          in case out_timer out of
               None \<Rightarrow> Some (out_rc out, w, [])
             | Some delay \<Rightarrow>
                 Some (out_rc out,
                   w\<lparr>read_event_handler := (read_event_handler w)(c := RH_Test_Reading),
                     write_event_handler := (write_event_handler w)(c := WH_Limit_Req_Delay),
                     ev_delayed := (ev_delayed w)(write_event c := True)\<rparr>,
                   [Add_Timer (write_event c) delay]))"

section \<open>The handlers of events\<close>

definition limit_req_delay_run ::
    "bool \<Rightarrow> bool \<Rightarrow> phase_fn list \<Rightarrow> ngx_msec_t \<Rightarrow> nat \<Rightarrow> http_world \<Rightarrow> (http_world \<times> event_op list) option" where
  \<comment> \<open>\<open>ngx_http_limit_req_delay\<close> with its effects: whether the events could be armed, and the phases\<close>
  "limit_req_delay_run wev_ok rev_ok ph now c w =
     (case ngx_http_limit_req_delay (ev_delayed w (write_event c)) wev_ok rev_ok of
        Delay_Wait \<Rightarrow> Some (w, [])
      | Delay_Finalize rc \<Rightarrow> Some (w\<lparr>finalized := finalized w @ [(c, rc)]\<rparr>, [])
      | Delay_Run_Phases \<Rightarrow>
          ngx_http_core_run_phases ph now c
            (w\<lparr>read_event_handler := (read_event_handler w)(c := RH_Block_Reading),
               write_event_handler := (write_event_handler w)(c := WH_Run_Phases)\<rparr>) [])"

definition returned :: "http_world \<Rightarrow> (http_world \<times> event_op list) option \<Rightarrow> http_world \<times> event_op list" where
  \<comment> \<open>a handler of events returns; the properties say when phases do\<close>
  "returned w r = (case r of Some x \<Rightarrow> x | None \<Rightarrow> (w, []))"

definition ngx_http_request_handler ::
    "bool \<Rightarrow> bool \<Rightarrow> phase_fn list \<Rightarrow> (nat \<Rightarrow> http_world \<Rightarrow> http_world \<times> event_op list) \<Rightarrow>
     (nat \<Rightarrow> http_world \<Rightarrow> http_world \<times> event_op list) \<Rightarrow> http_world handlers" where
  \<comment> \<open>the last parameters are the write handler of a request that neither waits in the limiter nor runs its phases, and
      the read handlers\<close>
  "ngx_http_request_handler wev_ok rev_ok ph other_write read ev S =
     (let w = outside S; c = ev_connection ev; now = current_msec S
      in if conn_close w c then (w\<lparr>terminated := terminated w @ [c]\<rparr>, [])
         else
           let clear = ev_delayed w ev \<and> timedout (event_at S ev);
               w = (if clear then w\<lparr>ev_delayed := (ev_delayed w)(ev := False)\<rparr> else w);
               (w, ops) =
                 (if ev_write ev then
                    (case write_event_handler w c of
                       WH_Limit_Req_Delay \<Rightarrow> returned w (limit_req_delay_run wev_ok rev_ok ph now c w)
                     | WH_Run_Phases \<Rightarrow> returned w (ngx_http_core_run_phases ph now c w [])
                     | WH_Other \<Rightarrow> other_write c w)
                  else read c w)
           in (w, if clear then Set_Timedout ev False # ops else ops))"

section \<open>Waiting and going on\<close>

lemma wait_timer_ok:
  assumes "event_ok S" "due S = {}" "\<not> timer_set (event_at S ev)" "0 < sint delay" "sint delay < 2 ^ 62"
  obtains T where "do_event_ops dbg [Add_Timer ev delay] (S\<lparr>outside := w\<rparr>) = Some T" "event_ok T" "due T = {}"
    "timer_set (event_at T ev)" "time_left T ev = sint delay" "current_msec T = current_msec S" "called T = called S"
    "outside T = w"
proof -
  let ?S = "S\<lparr>outside := w\<rparr>"
  have ok: "event_ok ?S" by (rule event_ok_cong [OF assms(1)]) simp_all
  have du: "due ?S = {}" using assms(2) due_cong [of ?S S] by simp
  have op: "op_ok (Add_Timer ev delay)" using assms(4,5) by simp
  obtain T where T: "do_event_op dbg (Add_Timer ev delay) ?S = Some T" "event_ok T" "client_step ?S T"
    "outside T = outside ?S" "called T = called ?S"
    by (rule event_op_ok [OF ok op])
  have t: "timers_ok ?S" "in_window (sint delay)" using ok assms(4,5) by (auto simp: event_ok_def in_window_def)
  obtain T' key where T': "ngx_event_add_timer ev delay ?S = Some T'" "timers_ok T'" "same_but_timers ?S T'"
    "event_at T' = (event_at ?S)(ev := (event_at ?S ev)\<lparr>timer_key := key, timer_set := True\<rparr>)"
    "key = current_msec ?S + delay \<or>
       timer_set (event_at ?S ev) \<and> key = key_of ?S ev \<and> \<bar>time_left ?S ev - sint delay\<bar> < 300"
    by (rule add_timer_ok [OF t, of ev]) (rule that)
  have eq: "T' = T" using T(1) T'(1) by simp
  have "key = current_msec S + delay" using T'(5) assms(3) by simp
  then have "time_left T ev = sint delay" "timer_set (event_at T ev)"
    using T'(4) same_but_timersD(1) [OF T'(3)] by (simp_all add: eq time_left_def)
  moreover have "due T = {}" "current_msec T = current_msec S" using T(3) du by (simp_all add: client_step_def)
  ultimately show thesis using T(1,2,4,5) by (intro that [of T]) simp_all
qed

lemma expire_after:
  \<comment> \<open>which timer fires when the clock has moved on\<close>
  assumes "event_ok T" "due T = {}" "timer_set (event_at T ev)" "handlers_ok H" "0 \<le> t" "t < 2 ^ 62"
  defines "U \<equiv> T\<lparr>current_msec := current_msec T + of_int t\<rparr>"
  shows "\<exists>V fired. ngx_event_expire_timers dbg H U = Some V \<and> called V = called T @ fired \<and> event_ok V \<and> due V = {} \<and>
    (t < time_left T ev \<longrightarrow> ev \<notin> set fired) \<and> (time_left T ev \<le> t \<and> own_timers H \<longrightarrow> ev \<in> set fired)"
proof -
  have tm: "timers_ok T" using assms(1) by (simp add: event_ok_def)
  have w: "in_window (time_left T e - t)" if "timer_set (event_at T e)" for e
  proof -
    have "0 < time_left T e" "in_window (time_left T e)" using that assms(2) tm by (auto simp: due_def timers_ok_def not_le)
    then show ?thesis using assms(5,6) by (simp add: in_window_def)
  qed
  note adv = clock_advances [OF tm w assms(5,6), folded U_def]
  obtain qs where "posted_ok T qs" using assms(1) by (auto simp: event_ok_def)
  then have "posted_ok U qs" by (rule posted_ok_cong) (simp_all add: U_def)
  then have ok: "event_ok U" using adv(1) by (auto simp: event_ok_def)
  have d: "ev \<in> due U \<longleftrightarrow> time_left T ev \<le> t" using adv(2) [OF _ assms(3)] assms(3) by (simp add: due_def U_def)
  obtain V fired where "ngx_event_expire_timers dbg H U = Some V" "event_ok V" "due V = {}" "called V = called U @ fired"
    "set fired \<subseteq> due U" "own_timers H \<Longrightarrow> set fired = due U"
    using expire_timers_run [OF ok assms(4), of dbg] by blast
  then show ?thesis using d by (intro exI [of _ V] exI [of _ fired]) (auto simp: U_def)
qed

definition limiter_waits :: "nat \<Rightarrow> nat \<Rightarrow> http_world \<Rightarrow> bool" where
  \<comment> \<open>the request of a connection waits in the limiter, at a phase\<close>
  "limiter_waits c p w \<longleftrightarrow> phase_handler w c = p \<and> limit_req_status w c \<noteq> 0 \<and>
     write_event_handler w c = WH_Limit_Req_Delay \<and> ev_delayed w (write_event c)"

lemma handler_timer:
  \<comment> \<open>the handler sets a timer for a new request only, and answers \<open>NGX_AGAIN\<close> then\<close>
  assumes h: "ngx_http_limit_req_handler alloc now complex_value read_event_ok lrcf status w = Some (out, w')"
    and timer: "out_timer out = Some d"
  shows "out_rc out = NGX_AGAIN \<and> out_status out = NGX_HTTP_LIMIT_REQ_DELAYED"
proof -
  let ?limits = "case lc_limits lrcf of None \<Rightarrow> [] | Some ls \<Rightarrow> ls"
  have st: "status = 0" using h timer by (cases "status = 0") (auto simp: ngx_http_limit_req_handler_def)
  obtain res w1 where l: "lr_handler_loop alloc now complex_value ?limits 0 NGX_DECLINED 0 0 w = Some (res, w1)"
    using h st by (auto simp: ngx_http_limit_req_handler_def Let_def bind_eq_Some_conv)
  show ?thesis
  proof (cases res)
    case Key_Failed
    then show ?thesis using h l st timer by (auto simp: ngx_http_limit_req_handler_def)
  next
    case (Loop_End rc n e limit)
    consider "rc = NGX_DECLINED" | "rc = NGX_BUSY \<or> rc = NGX_ERROR" | "rc \<noteq> NGX_DECLINED" "\<not> (rc = NGX_BUSY \<or> rc = NGX_ERROR)"
      by blast
    then show ?thesis
    proof cases
      case 3
      then obtain delay e' l' w2 where a: "ngx_http_limit_req_account now ?limits n (if rc = NGX_AGAIN then 0 else e) limit w1 =
          Some ((delay, e', l'), w2)"
        using h l st Loop_End by (auto simp: ngx_http_limit_req_handler_def Let_def bind_eq_Some_conv)
      then show ?thesis using h l st Loop_End 3 timer
        by (simp add: ngx_http_limit_req_handler_def Let_def) (auto split: if_splits)
    qed (use h l st Loop_End timer in
        \<open>auto simp: ngx_http_limit_req_handler_def Let_def bind_eq_Some_conv split: if_splits\<close>)
  qed
qed

lemma limit_req_phase_stops:
  assumes "limit_req_phase alloc complex_value lrcf read_event_ok now c w = Some (rc, w1, op # ops)"
  shows "rc = NGX_AGAIN" "limiter_waits c (phase_handler w c) w1" "\<exists>d. op # ops = [Add_Timer (write_event c) d]"
  using assms handler_timer [of alloc now "complex_value c" read_event_ok lrcf "limit_req_status w c" "limiter w"]
  by (auto simp: limit_req_phase_def Let_def limiter_waits_def split: option.splits prod.splits)

lemma limit_req_phase_again:
  \<comment> \<open>the second call for a request does nothing\<close>
  assumes "limit_req_status w c \<noteq> 0"
  shows "limit_req_phase alloc complex_value lrcf read_event_ok now c w = Some (NGX_DECLINED, w, [])"
  using assms by (simp add: limit_req_phase_def ngx_http_limit_req_handler_def)

lemma run_phases_at:
  assumes "phase_handler w c < length ph"
  shows "ngx_http_core_run_phases ph now c w ops =
    (case (ph ! phase_handler w c) now c w of
       None \<Rightarrow> None
     | Some (rc, w, ops') \<Rightarrow>
         if rc = NGX_OK then Some (w, ops @ ops') else ngx_http_core_run_phases ph now c w (ops @ ops'))"
  using assms by (subst ngx_http_core_run_phases.simps) simp

definition resumed :: "nat \<Rightarrow> nat \<Rightarrow> http_world \<Rightarrow> http_world" where
  \<comment> \<open>a request that waited, back in the phases behind the limiter; the zones are as they were\<close>
  "resumed c p w = w\<lparr>ev_delayed := (ev_delayed w)(write_event c := False),
     read_event_handler := (read_event_handler w)(c := RH_Block_Reading),
     write_event_handler := (write_event_handler w)(c := WH_Run_Phases),
     phase_handler := (phase_handler w)(c := Suc p)\<rparr>"

lemma delay_runs_on:
  assumes "p < length ph" "ph ! p = ngx_http_core_generic_phase (limit_req_phase alloc complex_value lrcf read_event_ok) nxt"
    and "limiter_waits c p w"
  shows "limit_req_delay_run wev_ok True ph now c (w\<lparr>ev_delayed := (ev_delayed w)(write_event c := False)\<rparr>) =
    ngx_http_core_run_phases ph now c (resumed c p w) []"
proof -
  let ?w = "w\<lparr>ev_delayed := (ev_delayed w)(write_event c := False),
     read_event_handler := (read_event_handler w)(c := RH_Block_Reading),
     write_event_handler := (write_event_handler w)(c := WH_Run_Phases)\<rparr>"
  have p: "phase_handler ?w c = p" "limit_req_status ?w c \<noteq> 0" using assms(3) by (simp_all add: limiter_waits_def)
  have "(ph ! phase_handler ?w c) now c ?w = Some (NGX_AGAIN, ?w\<lparr>phase_handler := (phase_handler ?w)(c := Suc p)\<rparr>, [])"
    unfolding p(1) assms(2) ngx_http_core_generic_phase_def limit_req_phase_again [OF p(2)] by (simp add: p(1) [simplified])
  then have "ngx_http_core_run_phases ph now c ?w [] = ngx_http_core_run_phases ph now c (resumed c p w) []"
    using run_phases_at [of ?w c ph now "[]"] assms(1) p(1) by (simp add: resumed_def)
  then show ?thesis by (simp add: limit_req_delay_run_def ngx_http_limit_req_delay_def)
qed

section \<open>Properties\<close>

text \<open>C10. A request that the limiter delays is woken when its delay has passed and not before.  For a new request at a
  location with one limit, outside of the dry-run mode, whose key (of 1 to 65535 bytes) has an entry in a well-formed zone of a rate that is not
  zero, whose read event can be armed, and whose excess is within the burst and drains down to
  \<open>delay=\<close> in a millisecond or more, the phase of the limiter answers \<open>NGX_AGAIN\<close> and asks for a timer of the write event of the
  connection: the delay in which the part of the excess above \<open>delay=\<close> drains at the
  rate of the zone, rounded down to milliseconds.  When that event has no timer yet and no timer is due, the timer is armed; when the
  clock has moved on by less, \<open>ngx_event_expire_timers\<close> does not call the event, and when it has moved on by as much it does,
  whatever other timers are set, if no handler touches the timers of other events.  (All handlers arm timers for a positive
  time below \<open>2 ^ 62\<close> milliseconds, the clock moves by less than that, and the excess is small enough for its delay to be, too.)\<close>
theorem delayed_request_resumed:
  assumes "world_ok [limit] (limiter (outside S))" "lim_zone limit = z"
    and "complex_value c (ctx_key (w_ctx (limiter (outside S)) z)) = Some key" "key \<noteq> []" "length key \<le> 65535"
    and "sh_nodes (w_zone (limiter (outside S)) z) i = Some lr" "lr_key lr = ucast (ngx_crc32_short key)" "lr_data lr = key"
    and "lc_limits lrcf = Some [limit]" "lc_dry_run lrcf = 0" "limit_req_status (outside S) c = 0"
    and "rate = ctx_rate (w_ctx (limiter (outside S)) z)"
    and "e = lr_next_excess rate (lr_excess lr) (lr_elapsed (current_msec S) (lr_last lr))"
    and "lim_delay limit < e" "e \<le> lim_burst limit"
    and "unat rate \<le> (unat e - unat (lim_delay limit)) * 1000" "(unat e - unat (lim_delay limit)) * 1000 < 2 ^ 62"
    and "event_ok S" "due S = {}" "\<not> timer_set (event_at S (write_event c))"
  shows "\<exists>w1 d T.
    limit_req_phase alloc complex_value lrcf True (current_msec S) c (outside S) =
      Some (NGX_AGAIN, w1, [Add_Timer (write_event c) d]) \<and>
    unat rate * unat d \<le> (unat e - unat (lim_delay limit)) * 1000 \<and>
    (unat e - unat (lim_delay limit)) * 1000 < unat rate * (unat d + 1) \<and>
    do_event_ops dbg [Add_Timer (write_event c) d] (S\<lparr>outside := w1\<rparr>) = Some T \<and>
    (\<forall>t H. 0 \<le> t \<and> t < 2 ^ 62 \<and> handlers_ok H \<longrightarrow> (\<exists>V fired.
       ngx_event_expire_timers dbg H (T\<lparr>current_msec := current_msec T + of_int t\<rparr>) = Some V \<and>
       called V = called S @ fired \<and> (t < uint d \<longrightarrow> write_event c \<notin> set fired) \<and>
       (uint d \<le> t \<and> own_timers H \<longrightarrow> write_event c \<in> set fired)))"
proof -
  let ?x = "(unat e - unat (lim_delay limit)) * 1000"
  let ?d = "(e - lim_delay limit) * 1000 div rate"
  let ?ev = "write_event c"
  have rate: "rate \<noteq> 0" using assms(1,2,12) by (simp add: world_ok_def)
  obtain d where d: "lr_delay_of rate e (lim_delay limit) = Some d" "unat rate * unat d \<le> ?x"
    "?x < unat rate * (unat d + 1)"
    using delay_is_drain_time [OF rate assms(14)] assms(17) by auto
  then have dd: "?d = d" using rate by (simp add: lr_delay_of_def)
  have "unat d \<noteq> 0"
  proof
    assume "unat d = 0"
    then show False using d(3) assms(16) by simp
  qed
  then have "0 < int (unat d)" by (simp only: of_nat_0_less_iff)
  moreover have "0 < unat rate" using rate by (simp add: unat_gt_0)
  then have "unat d \<le> unat rate * unat d" by (cases "unat rate") simp_all
  then have "unat d < 2 ^ 62" using d(2) assms(17) by linarith
  then have "int (unat d) < int (2 ^ 62)" "sint d = int (unat d)" by (simp_all only: of_nat_less_iff, simp add: sint_eq_unat)
  moreover have "int (unat d) = uint d" by simp
  ultimately have sd: "sint d = uint d" "0 < sint d" "sint d < 2 ^ 62" by simp_all
  then have "d \<noteq> 0" by auto
  obtain l where h: "ngx_http_limit_req_handler alloc (current_msec S) (complex_value c) True lrcf 0 (limiter (outside S)) =
      Some (\<lparr>out_rc = NGX_AGAIN, out_status = NGX_HTTP_LIMIT_REQ_DELAYED, out_timer = Some d\<rparr>, l)"
    using limiter_decision [of limit "limiter (outside S)" "complex_value c" key i lr lrcf e "current_msec S" alloc,
        unfolded assms(2), OF assms(1,3-10) assms(13) [unfolded assms(12)]]
      assms(14,15) \<open>d \<noteq> 0\<close>
    unfolding limit_outcome_def Let_def assms(12) [symmetric] dd by (auto simp: not_less [symmetric])
  then obtain w1 where p: "limit_req_phase alloc complex_value lrcf True (current_msec S) c (outside S) =
      Some (NGX_AGAIN, w1, [Add_Timer ?ev d])"
    using assms(11) by (simp add: limit_req_phase_def Let_def)
  obtain T where T: "do_event_ops dbg [Add_Timer ?ev d] (S\<lparr>outside := w1\<rparr>) = Some T" "event_ok T" "due T = {}"
    "timer_set (event_at T ?ev)" "time_left T ?ev = sint d" "current_msec T = current_msec S" "called T = called S"
    by (rule wait_timer_ok [OF assms(18-20) sd(2,3)])
  have "\<exists>V fired. ngx_event_expire_timers dbg H (T\<lparr>current_msec := current_msec T + of_int t\<rparr>) = Some V \<and>
       called V = called S @ fired \<and> (t < uint d \<longrightarrow> ?ev \<notin> set fired) \<and> (uint d \<le> t \<and> own_timers H \<longrightarrow> ?ev \<in> set fired)"
    if "0 \<le> t" "t < 2 ^ 62" "handlers_ok H" for t H
    using expire_after [OF T(2-4) that(3,1,2), of dbg] T(5,7) sd(1) by auto
  then show ?thesis using p d(2,3) T(1) by blast
qed

text \<open>C11. A delayed request stays in the phase of the limiter and goes on behind it.  When the phase of the limiter
  asks for a timer, the phase engine stops there and the request waits.  While it waits (on a connection that is not to be
  closed), a write event that is ready before the timer changes nothing if it can be armed again, and otherwise
  finalizes the request with 500.  When the timer of the write event has expired and the read event can be armed, the event is no longer delayed
  or timed out, and the engine runs on from the phase behind the limiter: the limiter lets the request pass without
  charging the zones again.  The phases behind the limiter are any that return.\<close>
theorem delayed_request_runs_phases:
  assumes "p < length ph" "ph ! p = ngx_http_core_generic_phase (limit_req_phase alloc complex_value lrcf read_event_ok) nxt"
  shows "(\<forall>now c w rc w1 op ops. phase_handler w c = p \<and>
        limit_req_phase alloc complex_value lrcf read_event_ok now c w = Some (rc, w1, op # ops) \<longrightarrow>
        ngx_http_core_run_phases ph now c w [] = Some (w1, op # ops) \<and> limiter_waits c p w1) \<and>
    (\<forall>c S wev_ok. limiter_waits c p (outside S) \<and> \<not> conn_close (outside S) c \<longrightarrow>
        (if timedout (event_at S (write_event c))
         then \<forall>w' ops. ngx_http_core_run_phases ph (current_msec S) c (resumed c p (outside S)) [] = Some (w', ops) \<longrightarrow>
           ngx_http_request_handler wev_ok True ph other_write read (write_event c) S =
             (w', Set_Timedout (write_event c) False # ops)
         else ngx_http_request_handler wev_ok rev_ok ph other_write read (write_event c) S =
           (if wev_ok then outside S
            else (outside S)\<lparr>finalized := finalized (outside S) @ [(c, NGX_HTTP_INTERNAL_SERVER_ERROR)]\<rparr>, [])))"
proof -
  have 1: "ngx_http_core_run_phases ph now c w [] = Some (w1, op # ops) \<and> limiter_waits c p w1"
    if "phase_handler w c = p" "limit_req_phase alloc complex_value lrcf read_event_ok now c w = Some (rc, w1, op # ops)"
    for now c w rc w1 op ops
    using that limit_req_phase_stops [OF that(2)] run_phases_at [of w c ph now "[]"] assms
    by (simp add: ngx_http_core_generic_phase_def)
  have 2: "ngx_http_request_handler wev_ok True ph other_write read (write_event c) S =
        (w', Set_Timedout (write_event c) False # ops)"
    if "limiter_waits c p (outside S)" "\<not> conn_close (outside S) c" "timedout (event_at S (write_event c))"
      "ngx_http_core_run_phases ph (current_msec S) c (resumed c p (outside S)) [] = Some (w', ops)"
    for c S wev_ok w' ops
    using that delay_runs_on [OF assms that(1), of wev_ok "current_msec S"]
    by (simp add: ngx_http_request_handler_def Let_def limiter_waits_def returned_def)
  have 3: "ngx_http_request_handler wev_ok rev_ok ph other_write read (write_event c) S =
        (if wev_ok then outside S
         else (outside S)\<lparr>finalized := finalized (outside S) @ [(c, NGX_HTTP_INTERNAL_SERVER_ERROR)]\<rparr>, [])"
    if "limiter_waits c p (outside S)" "\<not> conn_close (outside S) c" "\<not> timedout (event_at S (write_event c))" for c S wev_ok
    using that by (simp add: ngx_http_request_handler_def limiter_waits_def limit_req_delay_run_def ngx_http_limit_req_delay_def
        returned_def Let_def)
  show ?thesis
  proof (intro conjI allI impI)
    fix c wev_ok and S :: "http_world event_cycle"
    assume "limiter_waits c p (outside S) \<and> \<not> conn_close (outside S) c"
    then show "if timedout (event_at S (write_event c))
         then \<forall>w' ops. ngx_http_core_run_phases ph (current_msec S) c (resumed c p (outside S)) [] = Some (w', ops) \<longrightarrow>
           ngx_http_request_handler wev_ok True ph other_write read (write_event c) S =
             (w', Set_Timedout (write_event c) False # ops)
         else ngx_http_request_handler wev_ok rev_ok ph other_write read (write_event c) S =
           (if wev_ok then outside S
            else (outside S)\<lparr>finalized := finalized (outside S) @ [(c, NGX_HTTP_INTERNAL_SERVER_ERROR)]\<rparr>, [])"
      using 2 3 by (cases "timedout (event_at S (write_event c))") simp_all
  qed (use 1 in blast)+
qed

section \<open>An instance\<close>

definition sample_http_world :: "lr_zone \<Rightarrow> http_world" where
  "sample_http_world sh = \<lparr>ev_delayed = \<lambda>_. False, conn_close = \<lambda>_. False, write_event_handler = \<lambda>_. WH_Run_Phases,
     read_event_handler = \<lambda>_. RH_Block_Reading, phase_handler = \<lambda>_. 0, limit_req_status = \<lambda>_. 0,
     limiter = sample_world sh, finalized = [], terminated = []\<rparr>"

definition sample_http_cycle :: "http_world \<Rightarrow> http_world event_cycle" where
  "sample_http_cycle w = \<lparr>event_at = \<lambda>_. sample_event, timer_rbtree = Sentinel,
     event_links = ngx_queue_init (ELHead Posted_Accept) (ngx_queue_init (ELHead Posted_Next)
        (ngx_queue_init (ELHead Posted_Events) \<lparr>prev_of = \<lambda>_. ELNull, next_of = \<lambda>_. ELNull\<rparr>)),
     current_msec = 0, accept_mutex = \<lparr>sh_lock = 0, sh_wait = 0, sh_sem = 0\<rparr>, accept_mutex_held = False,
     accept_events = False, accept_disabled = 0, outside = w, called = [], polled = []\<rparr>"

lemma sample_http_ok: "event_ok (sample_http_cycle w)" "due (sample_http_cycle w) = {}"
proof -
  have "timers_ok (sample_http_cycle w)" by (simp add: timers_ok_def sample_http_cycle_def sample_event_def rbt_def)
  moreover have "posted_ok (sample_http_cycle w) (\<lambda>_. [])"
    using posted_ok_init [of "(sample_http_cycle w)\<lparr>event_links := \<lparr>prev_of = \<lambda>_. ELNull, next_of = \<lambda>_. ELNull\<rparr>\<rparr>"]
    by (simp add: sample_http_cycle_def sample_event_def set_links_def)
  ultimately show "event_ok (sample_http_cycle w)" by (auto simp: event_ok_def)
  show "due (sample_http_cycle w) = {}" by (simp add: due_def sample_http_cycle_def sample_event_def)
qed

definition half_conf :: lr_conf where
  \<comment> \<open>that delays from half a request on\<close>
  "half_conf = sample_conf\<lparr>lc_limits := Some [sample_limit\<lparr>lim_delay := 500\<rparr>]\<rparr>"

text \<open>A request for a key with an idle entry, at a limit that delays from half a request on, waits 500 milliseconds.\<close>

theorem delayed_request_resumed_witness:
  "\<exists>sh w1 T. limit_req_phase first_free (\<lambda>_ _. Some ''k'') half_conf True 0 2 (sample_http_world sh) =
       Some (NGX_AGAIN, w1, [Add_Timer 4 500]) \<and>
     do_event_ops None [Add_Timer 4 500] ((sample_http_cycle (sample_http_world sh))\<lparr>outside := w1\<rparr>) = Some T"
proof -
  let ?limit = "sample_limit\<lparr>lim_delay := 500\<rparr>"
  obtain sh lr where sh: "zone_ok sh" "sh_nodes sh = [7 \<mapsto> lr]" "lr_key lr = ucast (ngx_crc32_short ''k'')"
    "lr_data lr = ''k''" "lr_excess lr = 0" "lr_last lr = 0" using key_zone by blast
  let ?S = "sample_http_cycle (sample_http_world sh)"
  have out: "outside ?S = sample_http_world sh" "limiter (sample_http_world sh) = sample_world sh" "current_msec ?S = 0"
    "\<not> timer_set (event_at ?S (write_event 2))" "limit_req_status (outside ?S) 2 = 0"
    by (simp_all add: sample_http_cycle_def sample_http_world_def sample_event_def)
  have w: "world_ok [?limit] (limiter (outside ?S))"
    using sh(1) by (simp add: out world_ok_def sample_world_def w_zone_def sample_limit_def)
  have e: "lr_next_excess 1000 (lr_excess lr) (lr_elapsed (current_msec ?S) (lr_last lr)) = 1000"
    by (simp add: out sh lr_next_excess_def lr_elapsed_def)
  have lim: "lim_zone ?limit = 0" "ctx_rate (w_ctx (limiter (outside ?S)) 0) = 1000"
    "sh_nodes (w_zone (limiter (outside ?S)) 0) 7 = Some lr"
    "lim_delay ?limit = 500" "lim_burst ?limit = 5000"
    by (simp_all add: out sample_world_def w_zone_def sh sample_limit_def)
  have conf: "lc_limits half_conf = Some [?limit]" "lc_dry_run half_conf = 0" by (simp_all add: half_conf_def sample_conf_def)
  note th = delayed_request_resumed [where limit = ?limit and z = 0 and complex_value = "\<lambda>_ _. Some ''k''"
      and key = "''k''" and i = 7 and lr = lr and lrcf = half_conf and rate = 1000 and e = 1000 and S = ?S
      and c = 2 and alloc = first_free and dbg = None, OF w lim(1) refl _ _ lim(3) sh(3,4) conf out(5) lim(2) [symmetric] e [symmetric]
      _ _ _ _ sample_http_ok out(4)]
  obtain w1 d T where
    r: "limit_req_phase first_free (\<lambda>_ _. Some ''k'') half_conf True 0 2 (sample_http_world sh) =
        Some (NGX_AGAIN, w1, [Add_Timer (write_event 2) d])"
      "1000 * unat d \<le> 500000" "500000 < 1000 * (unat d + 1)"
      "do_event_ops None [Add_Timer (write_event 2) d] (?S\<lparr>outside := w1\<rparr>) = Some T"
    using th by (simp add: lim(4,5) out) blast
  have "unat d \<le> 500" "500 \<le> unat d" using r(2,3) by simp_all
  then have "unat d = 500" by simp
  then have "d = 500" by (simp add: word_unat_eq_iff)
  moreover have "write_event 2 = 4" by (simp add: write_event_def)
  ultimately show ?thesis using r(1,4) by metis
qed

text \<open>The request of connection 2 waits in the only phase; after its timer the phases are at their end.\<close>

theorem delayed_request_runs_phases_witness:
  "\<exists>S w'. ngx_http_request_handler True True [ngx_http_core_generic_phase (limit_req_phase first_free (\<lambda>_ _. Some ''k'') half_conf True) 1]
      (\<lambda>c w. (w, [])) (\<lambda>c w. (w, [])) 4 S = (w', [Set_Timedout 4 False]) \<and>
    limiter_waits 2 0 (outside S) \<and> phase_handler w' 2 = 1 \<and> limiter w' = limiter (outside S)"
proof -
  let ?ph = "[ngx_http_core_generic_phase (limit_req_phase first_free (\<lambda>_ _. Some ''k'') half_conf True) 1]"
  let ?w = "(sample_http_world sample_zone)\<lparr>ev_delayed := \<lambda>_. True, write_event_handler := \<lambda>_. WH_Limit_Req_Delay,
    limit_req_status := \<lambda>_. NGX_HTTP_LIMIT_REQ_DELAYED\<rparr>"
  let ?S = "(sample_http_cycle ?w)\<lparr>event_at := \<lambda>_. sample_event\<lparr>timedout := True\<rparr>\<rparr>"
  define S where "S = ?S"
  have w: "limiter_waits 2 0 (outside S) \<and> \<not> conn_close (outside S) 2" "timedout (event_at S (write_event 2))" "write_event 2 = 4"
    by (simp_all add: S_def limiter_waits_def sample_http_cycle_def sample_http_world_def write_event_def)
  have run: "ngx_http_core_run_phases ?ph (current_msec S) 2 (resumed 2 0 (outside S)) [] = Some (resumed 2 0 (outside S), [])"
    by (subst ngx_http_core_run_phases.simps) (simp add: resumed_def)
  have t: "0 < length ?ph" "?ph ! 0 = ngx_http_core_generic_phase (limit_req_phase first_free (\<lambda>_ _. Some ''k'') half_conf True) 1"
    by simp_all
  note th = conjunct2 [OF delayed_request_runs_phases [where rev_ok = True, OF t], rule_format, OF w(1), unfolded if_P [OF w(2)],
      rule_format, OF run]
  have "phase_handler (resumed 2 0 (outside S)) 2 = 1" "limiter (resumed 2 0 (outside S)) = limiter (outside S)"
    by (simp_all add: resumed_def)
  then show ?thesis using th [of True "\<lambda>c w. (w, [])" "\<lambda>c w. (w, [])"] w(1) unfolding w(3) by metis
qed

end
