(* ===== verification/Vts_Limit_Stats.thy ===== *)
theory Vts_Limit_Stats
  imports Limit_Req_Service
begin

text \<open>
  The display of the limiter that the repository adds to the vhost traffic status module,
  \<open>_limit_req_stats_init\<close> and \<open>_limit_req_stats_get\<close> of
  \<open>nginx-module-vts-master/src/ngx_http_vhost_traffic_status_display_json.c\<close>.  It redeclares the structures of
  the limiter and reads the entry at the root of the tree of each zone, without the lock of the zone.
  With an empty zone it reads what follows the sentinel in memory, which is \<open>None\<close> here.
\<close>

section \<open>The code\<close>

definition limit_req_stats_init :: "lr_conf option \<Rightarrow> lr_conf \<Rightarrow> lr_conf option" where
  \<comment> \<open>the new value of \<open>_limit_req_stats_lrcf\<close>\<close>
  "limit_req_stats_init stored lrcf =
     (case lc_limits lrcf of Some (l # ls) \<Rightarrow> Some lrcf | _ \<Rightarrow> stored)"

definition limit_req_root :: "lr_zone \<Rightarrow> lr_node option" where
  "limit_req_root sh = (case sh_rbtree sh of Sentinel \<Rightarrow> None | Node c i l r \<Rightarrow> sh_nodes sh i)"

definition limit_req_stats_step :: "ngx_msec_t \<Rightarrow> ngx_uint_t \<Rightarrow> lr_node \<Rightarrow> 32 word \<Rightarrow> 32 word" where
  \<comment> \<open>one turn of the loop: from the value of \<open>excess\<close>, an \<open>int\<close>, to the next\<close>
  "limit_req_stats_step now rate lr excess =
     (let ms = now - lr_last lr;
          val1 = lr_excess lr;
          val2 = rate * ms div 1000;
          excess = (if val2 <s val1 then word_of_int (c_div (sint (val1 - val2 + 1000)) 1000) else excess)
      in if excess <s 0 then 0 else excess)"

fun limit_req_stats_loop :: "ngx_msec_t \<Rightarrow> lr_world \<Rightarrow> lr_limit list \<Rightarrow> 32 word \<Rightarrow> 32 word option" where
  "limit_req_stats_loop now w [] excess = Some excess"
| "limit_req_stats_loop now w (limit # limits) excess =
     (case limit_req_root (w_zone w (lim_zone limit)) of
        None \<Rightarrow> None
      | Some lr \<Rightarrow>
          limit_req_stats_loop now w limits
            (limit_req_stats_step now (ctx_rate (w_ctx w (lim_zone limit))) lr excess))"

definition limit_req_stats_get :: "ngx_msec_t \<Rightarrow> lr_conf option \<Rightarrow> lr_world \<Rightarrow> 32 word option" where
  "limit_req_stats_get now stored w =
     (case stored of
        None \<Rightarrow> Some 0
      | Some lrcf \<Rightarrow>
          limit_req_stats_loop now w (case lc_limits lrcf of None \<Rightarrow> [] | Some limits \<Rightarrow> limits) 0)"

section \<open>What it shows\<close>

definition shown_level :: "nat \<Rightarrow> nat \<Rightarrow> nat \<Rightarrow> nat" where
  \<comment> \<open>of an entry with the given excess, after some milliseconds: requests in the bucket, a part of one
      counted as one and a whole number one too many\<close>
  "shown_level rate excess ms =
     (if rate * ms div 1000 < excess then bucket_level rate excess ms div 1000 else 0)"

lemma stats_step:
  assumes "unat rate * unat (now - lr_last lr) < 2 ^ 63" "unat (lr_excess lr) < 2 ^ 40" "e = 0"
  shows "limit_req_stats_step now rate lr e =
    word_of_nat (shown_level (unat rate) (unat (lr_excess lr)) (unat (now - lr_last lr)))"
proof -
  let ?ms = "now - lr_last lr" and ?e = "lr_excess lr"
  define Q where "Q = unat rate * unat ?ms div 1000"
  have q: "unat (rate * ?ms div 1000) = Q"
    using unat_mult_exact [of rate ?ms] assms(1) by (simp add: Q_def unat_div)
  have "Q < 2 ^ 63" using assms(1) unfolding Q_def by simp
  then have sq: "sint (rate * ?ms div 1000) = int Q" using sint_eq_unat [of "rate * ?ms div 1000"] q by simp
  have se: "sint ?e = int (unat ?e)" using assms(2) by (intro sint_eq_unat) simp
  have lt: "rate * ?ms div 1000 <s ?e \<longleftrightarrow> Q < unat ?e" by (simp only: word_sless_alt sq se of_nat_less_iff)
  show ?thesis
  proof (cases "Q < unat ?e")
    case False
    then show ?thesis using lt assms(3) by (simp add: limit_req_stats_step_def Let_def shown_level_def Q_def)
  next
    case True
    let ?v = "?e - rate * ?ms div 1000 + 1000"
    let ?n = "unat ?e + 1000 - Q"
    have w: "?v = word_of_int (int (unat ?e) - int Q + 1000)" by (simp add: q [symmetric] flip: uint_nat)
    have "int (unat ?e) - int Q + 1000 = int ?n" using True by simp
    then have v: "?v = word_of_nat ?n" using w by (simp only: of_int_of_nat_eq)
    have n: "?n \<le> 2 ^ 40 + 1000" using assms(2) by simp
    then have "unat ?v = ?n" by (simp add: v unat_of_nat)
    then have "sint ?v = int ?n" using sint_eq_unat [of ?v] n by simp
    then have c: "c_div (sint ?v) 1000 = int (?n div 1000)" by (simp add: zdiv_int)
    have small: "?n div 1000 < 2 ^ 31" using n by simp
    have "sint (word_of_nat (?n div 1000) :: 32 word) = int (?n div 1000)"
      using small by (simp add: signed_of_nat signed_take_bit_int_eq_self)
    then have "\<not> word_of_nat (?n div 1000) <s (0 :: 32 word)" by (simp add: word_sless_alt)
    then show ?thesis using True lt
      by (simp add: limit_req_stats_step_def Let_def c shown_level_def bucket_level_def Q_def [symmetric])
  qed
qed

lemma limit_req_root_in_zone:
  assumes "zone_ok sh"
  shows "limit_req_root sh = None \<longleftrightarrow> sh_nodes sh = Map.empty"
    and "limit_req_root sh = Some lr \<Longrightarrow> \<exists>i. sh_nodes sh i = Some lr"
proof -
  have dom: "set (inorder (sh_rbtree sh)) = dom (sh_nodes sh)" using assms by (simp add: zone_ok_def)
  show "limit_req_root sh = Some lr \<Longrightarrow> \<exists>i. sh_nodes sh i = Some lr"
    by (auto simp: limit_req_root_def split: rbtree.splits)
  show "limit_req_root sh = None \<longleftrightarrow> sh_nodes sh = Map.empty"
  proof (cases "sh_rbtree sh")
    case Sentinel
    then show ?thesis using dom by (auto simp: limit_req_root_def)
  next
    case (Node c i l r)
    then have "i \<in> dom (sh_nodes sh)" using dom by auto
    then show ?thesis using Node by (auto simp: limit_req_root_def)
  qed
qed

lemma shown_level_zero: "shown_level rate excess ms = 0 \<longleftrightarrow> excess * 1000 \<le> rate * ms"
proof (cases "rate * ms div 1000 < excess")
  case True
  then have "1000 \<le> bucket_level rate excess ms" by (simp add: bucket_level_def)
  then have "0 < bucket_level rate excess ms div 1000" by (simp add: div_greater_zero_iff)
  moreover have "rate * ms < excess * 1000" using True by (simp add: div_less_iff_less_mult)
  ultimately show ?thesis using True by (simp add: shown_level_def)
next
  case False
  then have "excess * 1000 \<le> rate * ms" by (simp add: not_less less_eq_div_iff_mult_less_eq)
  then show ?thesis using False by (simp add: shown_level_def)
qed

lemma shown_level_small:
  assumes "excess < 2 ^ 40"
  shows "shown_level rate excess ms < 2 ^ 31"
proof -
  have "bucket_level rate excess ms \<le> 2 ^ 40 + 1000" using assms by (simp add: bucket_level_def)
  then have "bucket_level rate excess ms div 1000 \<le> (2 ^ 40 + 1000) div 1000" by (rule div_le_mono)
  then show ?thesis by (simp add: shown_level_def)
qed

section \<open>Properties\<close>

text \<open>C12. With one limit and one key the display shows the state of the limiter: it is 0 exactly when the excess
  of the key has drained, and otherwise the whole requests in the excess that the
  limiter would compute for one more request now.  The zone is well formed, the time below \<open>2 ^ 63\<close> and not before that of the entry, what
  drains is below \<open>2 ^ 63\<close> and the excess below \<open>2 ^ 40\<close>.\<close>
theorem vts_level_shown:
  assumes "lc_limits lrcf = Some [limit]" "zone_ok (w_zone w (lim_zone limit))" "sh_nodes (w_zone w (lim_zone limit)) = [i \<mapsto> lr]"
    and "rate = ctx_rate (w_ctx w (lim_zone limit))" "unat (lr_last lr) \<le> unat now" "unat now < 2 ^ 63"
    and "unat rate * unat (now - lr_last lr) < 2 ^ 63" "unat (lr_excess lr) < 2 ^ 40"
  shows "\<exists>n. limit_req_stats_get now (limit_req_stats_init stored lrcf) w = Some (word_of_nat n) \<and> n < 2 ^ 31 \<and>
    (n = 0 \<longleftrightarrow> unat (lr_excess lr) * 1000 \<le> unat rate * (unat now - unat (lr_last lr))) \<and>
    (n \<noteq> 0 \<longrightarrow> n = unat (lr_next_excess rate (lr_excess lr) (lr_elapsed now (lr_last lr))) div 1000)"
proof -
  let ?n = "shown_level (unat rate) (unat (lr_excess lr)) (unat (now - lr_last lr))"
  have "limit_req_root (w_zone w (lim_zone limit)) = Some lr"
  proof (cases "limit_req_root (w_zone w (lim_zone limit))")
    case None
    then show ?thesis using limit_req_root_in_zone(1) [OF assms(2)] assms(3) by (metis fun_upd_same option.distinct(1))
  next
    case (Some lr')
    from limit_req_root_in_zone(2) [OF assms(2) this] assms(3) have "lr' = lr" by (auto split: if_splits)
    then show ?thesis using Some by simp
  qed
  then have "limit_req_stats_get now (limit_req_stats_init stored lrcf) w = Some (word_of_nat ?n)"
    using stats_step [OF assms(7,8) refl] assms(1,4)
    by (simp add: limit_req_stats_get_def limit_req_stats_init_def)
  moreover note el = lr_elapsed_forward [OF assms(5,6)]
  have "unat (lr_excess lr) < 2 ^ 62" "unat rate * unat (now - lr_last lr) < 2 ^ 64" using assms(7,8) by simp_all
  from lr_next_excess_bucket [OF this(2,1)] have
    "?n \<noteq> 0 \<longrightarrow> ?n = unat (lr_next_excess rate (lr_excess lr) (lr_elapsed now (lr_last lr))) div 1000"
    by (simp add: el(1) shown_level_def)
  moreover have "?n = 0 \<longleftrightarrow> unat (lr_excess lr) * 1000 \<le> unat rate * (unat now - unat (lr_last lr))"
    by (simp add: shown_level_zero el(2))
  moreover have "?n < 2 ^ 31" by (rule shown_level_small [OF assms(8)])
  ultimately show ?thesis by (intro exI [of _ ?n] conjI)
qed

theorem vts_level_shown_witness:
  "\<exists>w n. limit_req_stats_get 4000 (limit_req_stats_init None sample_conf) w = Some (word_of_nat n) \<and> n = 2"
proof -
  obtain sh0 lr0 where sh0: "zone_ok sh0" "sh_nodes sh0 = [7 \<mapsto> lr0]" "lr_last lr0 = 0" using key_zone by blast
  define lr where "lr = lr0\<lparr>lr_excess := 5000\<rparr>"
  define sh where "sh = sh0\<lparr>sh_nodes := [7 \<mapsto> lr]\<rparr>"
  have "same_keys (sh_nodes sh0) [7 \<mapsto> lr]" using same_keys_upd [of "sh_nodes sh0" 7 lr0 lr] sh0(2) by (simp add: lr_def lr_id_def)
  then have sh: "zone_ok sh" "sh_nodes sh = [7 \<mapsto> lr]" "lr_excess lr = 5000" "lr_last lr = 0"
    using zone_ok_nodes [OF sh0(1)] sh0(3) by (simp_all add: sh_def lr_def)
  have z: "w_zone (sample_world sh) (lim_zone sample_limit) = sh" "ctx_rate (w_ctx (sample_world sh) (lim_zone sample_limit)) = 1000"
    "lc_limits sample_conf = Some [sample_limit]"
    by (simp_all add: sample_world_def w_zone_def sample_conf_def)
  have "\<exists>n. limit_req_stats_get 4000 (limit_req_stats_init None sample_conf) (sample_world sh) = Some (word_of_nat n) \<and> n < 2 ^ 31 \<and>
    (n = 0 \<longleftrightarrow> unat (lr_excess lr) * 1000 \<le> unat (1000 :: ngx_uint_t) * (unat (4000 :: ngx_msec_t) - unat (lr_last lr))) \<and>
    (n \<noteq> 0 \<longrightarrow> n = unat (lr_next_excess 1000 (lr_excess lr) (lr_elapsed 4000 (lr_last lr))) div 1000)"
    by (rule vts_level_shown [OF z(3)]) (simp_all add: z sh)
  then obtain n where n: "limit_req_stats_get 4000 (limit_req_stats_init None sample_conf) (sample_world sh) = Some (word_of_nat n)"
    "n \<noteq> 0" "n = unat (lr_next_excess 1000 5000 (lr_elapsed 4000 0)) div 1000"
    by (auto simp: sh)
  then have "n = 2" by (simp add: lr_next_excess_def lr_elapsed_def Let_def)
  with n(1) show ?thesis by blast
qed

text \<open>With several keys only the entry at the root counts: a full bucket elsewhere does not show.\<close>

lemma vts_level_root_only:
  "\<exists>sh lr. sh_nodes sh 1 = Some lr \<and> lr_excess lr = 5000 \<and> lr_last lr = 100 \<and> 1 \<in> set (inorder (sh_rbtree sh)) \<and>
     limit_req_stats_get 100 (Some sample_conf) (sample_world sh) = Some 0"
proof -
  let ?lr = "\<lambda>hash excess. \<lparr>lr_key = hash, lr_len = 1, lr_last = 100, lr_excess = excess, lr_count = 0, lr_data = ''k''\<rparr>"
  let ?sh = "\<lparr>sh_rbtree = Node Black 0 Sentinel (Node Red 1 Sentinel Sentinel),
    sh_queue = \<lparr>prev_of = \<lambda>_. QNull, next_of = \<lambda>_. QNull\<rparr>, sh_nodes = [0 \<mapsto> ?lr 3 0, 1 \<mapsto> ?lr 7 5000]\<rparr>"
  have "limit_req_stats_get 100 (Some sample_conf) (sample_world ?sh) = Some 0"
    by (simp add: limit_req_stats_get_def sample_conf_def sample_world_def w_zone_def limit_req_root_def limit_req_stats_step_def)
  then show ?thesis by (intro exI [of _ ?sh] exI [of _ "?lr 7 5000"]) simp
qed

end
