(* ===== verification/Limit_Req_Answers.thy ===== *)
theory Limit_Req_Answers
  imports Limit_Req_Delay Vts_Limit_Stats
begin

text \<open>
  What the handler answers to a run of requests for one key at a location with one limit, with the delays: a
  leaky bucket on natural numbers.  A burst in one millisecond is the case the test application asks for.
\<close>

section \<open>Runs of requests\<close>

fun limit_req_run ::
    "slab \<Rightarrow> (string \<Rightarrow> string option) \<Rightarrow> lr_conf \<Rightarrow> ngx_msec_t list \<Rightarrow> lr_world \<Rightarrow> (lr_outcome list \<times> lr_world) option" where
  \<comment> \<open>the handler for new requests at the given times\<close>
  "limit_req_run alloc complex_value lrcf [] w = Some ([], w)"
| "limit_req_run alloc complex_value lrcf (t # ts) w =
     Option.bind (ngx_http_limit_req_handler alloc t complex_value True lrcf 0 w) (\<lambda>(out, w).
       Option.bind (limit_req_run alloc complex_value lrcf ts w) (\<lambda>(outs, w). Some (out # outs, w)))"

definition fate_of :: "lr_outcome \<Rightarrow> nat \<times> nat option" where
  \<comment> \<open>the status and the delay in milliseconds\<close>
  "fate_of out = (out_status out, map_option unat (out_timer out))"

definition level_fate :: "nat \<Rightarrow> nat \<Rightarrow> nat \<Rightarrow> nat \<Rightarrow> nat \<times> nat option" where
  \<comment> \<open>of a request that brings the bucket to a level; all in thousandths of requests\<close>
  "level_fate rate burst delay x =
     (if x > burst then (NGX_HTTP_LIMIT_REQ_REJECTED, None)
      else if (x - delay) * 1000 div rate = 0 then (NGX_HTTP_LIMIT_REQ_PASSED, None)
      else (NGX_HTTP_LIMIT_REQ_DELAYED, Some ((x - delay) * 1000 div rate)))"

fun bucket_fates :: "nat \<Rightarrow> nat \<Rightarrow> nat \<Rightarrow> nat \<Rightarrow> nat \<Rightarrow> nat list \<Rightarrow> (nat \<times> nat option) list" where
  "bucket_fates rate burst delay e lst [] = []"
| "bucket_fates rate burst delay e lst (t # ts) =
     (let x = bucket_level rate e (t - lst)
      in level_fate rate burst delay x #
           (if x > burst then bucket_fates rate burst delay e lst ts else bucket_fates rate burst delay x t ts))"

lemma limit_outcome_fate:
  assumes "rate \<noteq> 0" "unat (lim_burst limit) < 2 ^ 54"
  shows "fate_of (limit_outcome lrcf limit rate e) =
    level_fate (unat rate) (unat (lim_burst limit)) (unat (lim_delay limit)) (unat e)"
proof (cases "e > lim_burst limit")
  case True
  then show ?thesis by (simp add: limit_outcome_def fate_of_def level_fate_def word_less_nat_alt)
next
  case False
  then have e: "unat e \<le> unat (lim_burst limit)" by (simp add: word_less_nat_alt)
  show ?thesis
  proof (cases "e \<le> lim_delay limit")
    case True
    then have "unat e - unat (lim_delay limit) = 0" by (simp add: word_le_nat_alt)
    then show ?thesis using True False e by (simp add: limit_outcome_def fate_of_def level_fate_def Let_def)
  next
    case 2: False
    then have s: "unat (e - lim_delay limit) = unat e - unat (lim_delay limit)" by (simp add: unat_sub word_le_nat_alt)
    have "(unat e - unat (lim_delay limit)) * 1000 < 2 ^ 64" using e assms(2) by simp
    then have "unat ((e - lim_delay limit) * 1000) = (unat e - unat (lim_delay limit)) * 1000"
      using unat_mult_exact [of "e - lim_delay limit" 1000] s by simp
    then have d: "unat ((e - lim_delay limit) * 1000 div rate) = (unat e - unat (lim_delay limit)) * 1000 div unat rate"
      by (simp add: unat_div)
    then have "(e - lim_delay limit) * 1000 div rate = 0 \<longleftrightarrow> (unat e - unat (lim_delay limit)) * 1000 div unat rate = 0"
      by (metis unat_0 unat_eq_zero)
    then show ?thesis using False 2 d e by (simp add: limit_outcome_def fate_of_def level_fate_def Let_def)
  qed
qed

lemma limit_req_run_entry:
  assumes "world_ok [limit] w"
    and "complex_value (ctx_key (w_ctx w (lim_zone limit))) = Some key" "key \<noteq> []" "length key \<le> 65535"
    and "sh_nodes (w_zone w (lim_zone limit)) i = Some lr" "lr_key lr = ucast (ngx_crc32_short key)" "lr_data lr = key"
    and "exact_times (ctx_rate (w_ctx w (lim_zone limit))) (lr_last lr) ts" "unat (lr_excess lr) < 2 ^ 62"
    and "unat (lim_burst limit) < 2 ^ 54" "lc_limits lrcf = Some [limit]" "lc_dry_run lrcf = 0"
  shows "\<exists>outs w'. limit_req_run alloc complex_value lrcf ts w = Some (outs, w') \<and>
    map fate_of outs = bucket_fates (unat (ctx_rate (w_ctx w (lim_zone limit)))) (unat (lim_burst limit))
      (unat (lim_delay limit)) (unat (lr_excess lr)) (unat (lr_last lr)) (map unat ts)"
  using assms(1,2,5-9)
proof (induction ts arbitrary: w lr)
  case Nil
  then show ?case by simp
next
  case (Cons t ts)
  let ?z = "lim_zone limit"
  let ?rate = "ctx_rate (w_ctx w ?z)"
  note et = exact_times_Cons [OF Cons.prems(6)]
  note el = lr_elapsed_forward [OF et(1,2)]
  define e where "e = lr_next_excess ?rate (lr_excess lr) (lr_elapsed t (lr_last lr))"
  have lv: "unat e = bucket_level (unat ?rate) (unat (lr_excess lr)) (unat t - unat (lr_last lr))"
    using lr_next_excess_bucket [of ?rate "t - lr_last lr" "lr_excess lr"] et(3) Cons.prems(7) el by (simp add: e_def)
  have rate: "?rate \<noteq> 0" using Cons.prems(1) by (simp add: world_ok_def)
  obtain w1 where w1: "ngx_http_limit_req_handler alloc t complex_value True lrcf 0 w =
      Some (limit_outcome lrcf limit ?rate e, w1)" "w_ctx w1 = w_ctx w"
    "sh_nodes (w_zone w1 ?z) i = Some (if e > lim_burst limit then lr
      else lr\<lparr>lr_excess := e, lr_last := (if lr_elapsed t (lr_last lr) \<noteq> 0 then t else lr_last lr)\<rparr>)"
    "world_ok [limit] w1"
    using limiter_decision [of limit w complex_value key i lr lrcf e t alloc, OF Cons.prems(1,2) assms(3,4) Cons.prems(3-5)
        assms(11,12) e_def] by blast
  have key: "complex_value (ctx_key (w_ctx w1 ?z)) = Some key" using Cons.prems(2) w1(2) by simp
  show ?case
  proof (cases "e > lim_burst limit")
    case True
    then have "sh_nodes (w_zone w1 ?z) i = Some lr" using w1(3) by simp
    from Cons.IH [OF w1(4) key this Cons.prems(4,5) _ Cons.prems(7)] et(4) show ?thesis
      using w1(1,2) True lv limit_outcome_fate [OF rate assms(10), of lrcf e]
      by (fastforce simp: word_less_nat_alt Let_def)
  next
    case False
    define lr1 where "lr1 = lr\<lparr>lr_excess := e, lr_last := t\<rparr>"
    have "lr_elapsed t (lr_last lr) = 0 \<Longrightarrow> lr_last lr = t" using el(1) by simp
    then have n: "sh_nodes (w_zone w1 ?z) i = Some lr1" using w1(3) False by (auto simp: lr1_def)
    have "unat e < 2 ^ 62" using False assms(10) by (simp add: word_less_nat_alt)
    then have x: "exact_times (ctx_rate (w_ctx w1 ?z)) (lr_last lr1) ts" "unat (lr_excess lr1) < 2 ^ 62"
      "lr_key lr1 = ucast (ngx_crc32_short key)" "lr_data lr1 = key"
      using et(5) w1(2) Cons.prems(4,5) by (simp_all add: lr1_def)
    from Cons.IH [OF w1(4) key n x(3,4,1,2)] show ?thesis
      using w1(1,2) False lv limit_outcome_fate [OF rate assms(10), of lrcf e]
      by (fastforce simp: word_less_nat_alt Let_def lr1_def)
  qed
qed

lemma limit_req_run_fresh:
  assumes ok: "world_ok [limit] w" and slab: "slab_ok alloc"
    and key: "complex_value (ctx_key (w_ctx w (lim_zone limit))) = Some key" "key \<noteq> []" "length key \<le> 65535"
    and new: "\<forall>j lr. sh_nodes (w_zone w (lim_zone limit)) j = Some lr \<longrightarrow> (lr_key lr, lr_data lr) \<noteq> (ucast (ngx_crc32_short key), key)"
    and room: "lr_alloc alloc t (ctx_rate (w_ctx w (lim_zone limit))) key (w_zone w (lim_zone limit)) = Some (Some i, sh1)"
    and times: "exact_times (ctx_rate (w_ctx w (lim_zone limit))) t ts" and burst: "unat (lim_burst limit) < 2 ^ 54"
    and conf: "lc_limits lrcf = Some [limit]" "lc_dry_run lrcf = 0"
  shows "\<exists>outs w'. limit_req_run alloc complex_value lrcf (t # ts) w = Some (outs, w') \<and>
    map fate_of outs = (NGX_HTTP_LIMIT_REQ_PASSED, None) #
      bucket_fates (unat (ctx_rate (w_ctx w (lim_zone limit)))) (unat (lim_burst limit)) (unat (lim_delay limit)) 0
        (unat t) (map unat ts)"
proof -
  let ?z = "lim_zone limit"
  let ?ctx = "w_ctx w ?z"
  have zok: "zone_ok (w_zone w ?z)" and rate: "ctx_rate ?ctx \<noteq> 0" using ok by (simp_all add: world_ok_def)
  obtain sh' lr where sh': "ngx_http_limit_req_lookup alloc t limit (ucast (ngx_crc32_short key)) key True ?ctx (w_zone w ?z) =
      Some (NGX_OK, 0, ?ctx, sh')"
    "zone_ok sh'" "sh_nodes sh' i = Some lr" "lr_key lr = ucast (ngx_crc32_short key)" "lr_data lr = key" "lr_excess lr = 0" "lr_last lr = t"
    using fresh_lookup [OF zok room slab new key(3), of limit True, simplified] by metis
  let ?w1 = "w_update ?z ?ctx sh' w"
  have h: "ngx_http_limit_req_handler alloc t complex_value True lrcf 0 w =
      Some (limit_outcome lrcf limit (ctx_rate ?ctx) 0, ?w1)"
    using handler_one_limit [of limit w complex_value key lrcf alloc t 0 sh', OF ok key conf] sh'(1) by simp
  have w1: "w_ctx ?w1 = w_ctx w" "w_zone ?w1 ?z = sh'" by (simp_all add: w_update_def w_zone_def)
  have ok1: "world_ok [limit] ?w1" using world_step(1) [OF ok, of 0 ?ctx sh'] sh'(2) by simp
  obtain outs w' where "limit_req_run alloc complex_value lrcf ts ?w1 = Some (outs, w')"
    "map fate_of outs = bucket_fates (unat (ctx_rate ?ctx)) (unat (lim_burst limit)) (unat (lim_delay limit)) 0 (unat t) (map unat ts)"
    using limit_req_run_entry [where alloc = alloc and complex_value = complex_value and lrcf = lrcf and ts = ts and lr = lr and i = i, OF ok1 _ key(2,3)]
      key(1) sh'(3-7) times burst conf by (auto simp: w1)
  moreover have "fate_of (limit_outcome lrcf limit (ctx_rate ?ctx) 0) = (NGX_HTTP_LIMIT_REQ_PASSED, None)"
    using limit_outcome_fate [OF rate burst, of lrcf 0] by (simp add: level_fate_def)
  ultimately show ?thesis using h by simp
qed

section \<open>A burst\<close>

definition request_fate :: "nat \<Rightarrow> nat \<Rightarrow> nat \<Rightarrow> nat \<Rightarrow> nat \<times> nat option" where
  \<comment> \<open>of a request of a burst, counted from 0, for a rate in requests per second, a burst and a delay\<close>
  "request_fate r b d j =
     (if j > b then (NGX_HTTP_LIMIT_REQ_REJECTED, None)
      else if j \<le> d then (NGX_HTTP_LIMIT_REQ_PASSED, None)
      else (NGX_HTTP_LIMIT_REQ_DELAYED, Some ((j - d) * 1000 div r)))"

lemma level_fate_burst:
  assumes "0 < r" "r \<le> 1000"
  shows "level_fate (1000 * r) (1000 * b) (1000 * d) (1000 * j) = request_fate r b d j"
proof -
  have x: "(1000 * j - 1000 * d) * 1000 div (1000 * r) = (j - d) * 1000 div r"
    by (simp add: mult.assoc mult.left_commute mult.commute [of _ 1000] flip: diff_mult_distrib2)
  have "(j - d) * 1000 div r = 0 \<longleftrightarrow> j \<le> d"
  proof
    assume "(j - d) * 1000 div r = 0"
    then have "(j - d) * 1000 < r" using assms(1) by (simp add: div_eq_0_iff)
    then show "j \<le> d" using assms(2) by simp
  qed simp
  then show ?thesis unfolding level_fate_def x by (simp add: request_fate_def)
qed

lemma upt_Suc_shift: "map f [0..<Suc n] = f 0 # map (\<lambda>j. f (Suc j)) [0..<n]"
  by (induction n) simp_all

lemma bucket_fates_burst:
  assumes "0 < r" "r \<le> 1000"
  shows "bucket_fates (1000 * r) (1000 * b) (1000 * d) (1000 * k) t (replicate n t) =
    map (\<lambda>j. request_fate r b d (if k \<le> b then k + 1 + j else k + 1)) [0..<n]"
proof (induction n arbitrary: k)
  case (Suc n)
  have l: "bucket_level (1000 * r) (1000 * k) 0 = 1000 * (k + 1)" by (simp add: bucket_level_def)
  show ?case
  proof (cases "k < b")
    case True
    then show ?thesis unfolding upt_Suc_shift replicate_Suc bucket_fates.simps diff_self_eq_0 Let_def l
      level_fate_burst [OF assms] using Suc.IH [of "k + 1"] by simp
  next
    case False
    then show ?thesis unfolding upt_Suc_shift replicate_Suc bucket_fates.simps diff_self_eq_0 Let_def l
      level_fate_burst [OF assms] using Suc.IH [of k] by (auto simp: request_fate_def)
  qed
qed simp

section \<open>Properties\<close>



end
