(* ===== verification/Ngx_Conf_File.thy ===== *)
theory Ngx_Conf_File
  imports Nginx_Prelude
begin

text \<open>
  The reader of configuration files, \<open>ngx_conf_read_token\<close> of \<open>core/ngx_conf_file.c\<close>: it reads one
  statement, the words of a directive up to its \<open>;\<close> or \<open>{\<close>, through a buffer of
  \<open>NGX_CONF_BUFFER\<close> bytes that it refills from the file.  A refill moves the word that is being read to the
  front of the buffer.

  The automaton of flags over the buffer is shown to read the same words as a scanner over the text with one
  mode at a time, whatever the places of the refills.  The words that are written with quotes and backslashes
  are read back.
\<close>

section \<open>The code\<close>

datatype conf_error =
    Unexpected_End | Too_Long | Read_Failed | Unexpected_Char char | No_Memory

datatype conf_rc = Token_Error conf_error | Token_Ok | Block_Start | Block_Done | File_Done

definition NGX_CONF_BUFFER :: nat where "NGX_CONF_BUFFER = 4096"

record conf_file =
  b_data :: string        \<comment> \<open>the bytes from \<open>b->start\<close> to \<open>b->last\<close>\<close>
  b_pos :: nat            \<comment> \<open>\<open>b->pos - b->start\<close>\<close>
  file_offset :: nat
  file_size :: nat
  conf_line :: nat

record token_state =      \<comment> \<open>the local variables\<close>
  need_space :: bool
  last_space :: bool
  sharp_comment :: bool
  variable :: bool
  quoted :: bool
  s_quoted :: bool
  d_quoted :: bool
  tok_start :: nat        \<comment> \<open>\<open>start - b->start\<close>\<close>
  start_line :: nat
  conf_args :: "string list"

abbreviation (input) CH_TAB :: char where "CH_TAB \<equiv> CHR 0x09"
abbreviation (input) CH_LF :: char where "CH_LF \<equiv> CHR 0x0A"
abbreviation (input) CH_CR :: char where "CH_CR \<equiv> CHR 0x0D"
abbreviation (input) CH_QUOT :: char where "CH_QUOT \<equiv> CHR 0x22"
abbreviation (input) CH_APOS :: char where "CH_APOS \<equiv> CHR 0x27"
abbreviation (input) CH_BSL :: char where "CH_BSL \<equiv> CHR 0x5C"

definition conf_blank :: "char \<Rightarrow> bool" where
  "conf_blank ch \<longleftrightarrow> ch = CHR '' '' \<or> ch = CH_TAB \<or> ch = CH_CR \<or> ch = CH_LF"

fun conf_unescape :: "char \<Rightarrow> string \<Rightarrow> string" where
  \<comment> \<open>the copy of a word; \<open>src[1]\<close> behind a last backslash is the character after the word\<close>
  "conf_unescape next [] = []"
| "conf_unescape next (c # cs) =
     (if c = CH_BSL then
        let d = (case cs of [] \<Rightarrow> next | d # ds \<Rightarrow> d)
        in if d = CH_QUOT \<or> d = CH_APOS \<or> d = CH_BSL then d # conf_unescape next (drop 1 cs)
           else if d = CHR ''t'' then CH_TAB # conf_unescape next (drop 1 cs)
           else if d = CHR ''r'' then CH_CR # conf_unescape next (drop 1 cs)
           else if d = CHR ''n'' then CH_LF # conf_unescape next (drop 1 cs)
           else c # conf_unescape next cs
      else c # conf_unescape next cs)"

definition conf_refill ::
    "(nat \<Rightarrow> nat \<Rightarrow> string option) \<Rightarrow> token_state \<Rightarrow> conf_file \<Rightarrow>
     (conf_error option \<times> conf_file) + token_state \<times> conf_file" where
  \<comment> \<open>at the head of the loop; \<open>Inl (None, _)\<close> is the end of the file.  The first parameter is
      \<open>ngx_read_file\<close> for an offset and a size, \<open>None\<close> when it fails.  The code tests
      \<open>len == NGX_CONF_BUFFER\<close>; the buffer holds no more\<close>
  "conf_refill pread tk f =
     (if b_pos f < length (b_data f) then Inr (tk, f)
      else if file_size f \<le> file_offset f then
        Inl (if conf_args tk \<noteq> [] \<or> \<not> last_space tk then Some Unexpected_End else None, f)
      else
        let len = b_pos f - tok_start tk
        in if NGX_CONF_BUFFER \<le> len then Inl (Some Too_Long, f\<lparr>conf_line := start_line tk\<rparr>)
           else
             let size = min (file_size f - file_offset f) (NGX_CONF_BUFFER - len)
             in case pread (file_offset f) size of
                  None \<Rightarrow> Inl (Some Read_Failed, f)
                | Some d \<Rightarrow>
                    if length d \<noteq> size then Inl (Some Read_Failed, f\<lparr>file_offset := file_offset f + length d\<rparr>)
                    else Inr (tk\<lparr>tok_start := 0\<rparr>,
                              f\<lparr>b_data := take len (drop (tok_start tk) (b_data f)) @ d, b_pos := len,
                                file_offset := file_offset f + size\<rparr>))"

definition token_first :: "char \<Rightarrow> conf_file \<Rightarrow> token_state \<Rightarrow> conf_rc \<times> token_state + token_state" where
  \<comment> \<open>a character after a space\<close>
  "token_first ch f tk =
     (let tk = tk\<lparr>tok_start := b_pos f - 1, start_line := conf_line f\<rparr>
      in if conf_blank ch then Inr tk
         else if ch = CHR '';'' \<or> ch = CHR ''{'' then
           (if conf_args tk = [] then Inl (Token_Error (Unexpected_Char ch), tk)
            else if ch = CHR ''{'' then Inl (Block_Start, tk) else Inl (Token_Ok, tk))
         else if ch = CHR ''}'' then
           (if conf_args tk \<noteq> [] then Inl (Token_Error (Unexpected_Char ch), tk) else Inl (Block_Done, tk))
         else if ch = CHR ''#'' then Inr (tk\<lparr>sharp_comment := True\<rparr>)
         else if ch = CH_BSL then Inr (tk\<lparr>quoted := True, last_space := False\<rparr>)
         else if ch = CH_QUOT then Inr (tk\<lparr>tok_start := tok_start tk + 1, d_quoted := True, last_space := False\<rparr>)
         else if ch = CH_APOS then Inr (tk\<lparr>tok_start := tok_start tk + 1, s_quoted := True, last_space := False\<rparr>)
         else if ch = CHR ''$'' then Inr (tk\<lparr>variable := True, last_space := False\<rparr>)
         else Inr (tk\<lparr>last_space := False\<rparr>))"

definition token_push :: "(nat \<Rightarrow> bool) \<Rightarrow> char \<Rightarrow> conf_file \<Rightarrow> token_state \<Rightarrow> conf_rc \<times> token_state + token_state" where
  \<comment> \<open>a word was found; the first parameter is the success of the allocations for the next word\<close>
  "token_push mem ch f tk =
     (if \<not> mem (length (conf_args tk)) then Inl (Token_Error No_Memory, tk)
      else
        let src = take (b_pos f - 1 - tok_start tk) (drop (tok_start tk) (b_data f));
            tk = tk\<lparr>conf_args := conf_args tk @ [conf_unescape ch src]\<rparr>
        in if ch = CHR '';'' then Inl (Token_Ok, tk)
           else if ch = CHR ''{'' then Inl (Block_Start, tk)
           else Inr tk)"

definition token_inside :: "(nat \<Rightarrow> bool) \<Rightarrow> char \<Rightarrow> conf_file \<Rightarrow> token_state \<Rightarrow> conf_rc \<times> token_state + token_state" where
  \<comment> \<open>a character inside a word\<close>
  "token_inside mem ch f tk =
     (if ch = CHR ''{'' \<and> variable tk then Inr tk
      else
        let tk = tk\<lparr>variable := False\<rparr>
        in if ch = CH_BSL then Inr (tk\<lparr>quoted := True\<rparr>)
           else if ch = CHR ''$'' then Inr (tk\<lparr>variable := True\<rparr>)
           else if d_quoted tk then
             (if ch = CH_QUOT then token_push mem ch f (tk\<lparr>d_quoted := False, need_space := True\<rparr>) else Inr tk)
           else if s_quoted tk then
             (if ch = CH_APOS then token_push mem ch f (tk\<lparr>s_quoted := False, need_space := True\<rparr>) else Inr tk)
           else if conf_blank ch \<or> ch = CHR '';'' \<or> ch = CHR ''{'' then token_push mem ch f (tk\<lparr>last_space := True\<rparr>)
           else Inr tk)"

definition token_char :: "(nat \<Rightarrow> bool) \<Rightarrow> char \<Rightarrow> conf_file \<Rightarrow> token_state \<Rightarrow> conf_rc \<times> token_state + token_state" where
  \<comment> \<open>one turn of the loop, for the character before \<open>b->pos\<close>\<close>
  "token_char mem ch f tk =
     (let tk = (if ch = CH_LF \<and> sharp_comment tk then tk\<lparr>sharp_comment := False\<rparr> else tk);
          word = (\<lambda>tk. if last_space tk then token_first ch f tk else token_inside mem ch f tk)
      in if sharp_comment tk then Inr tk
         else if quoted tk then Inr (tk\<lparr>quoted := False\<rparr>)
         else if need_space tk then
           (if conf_blank ch then Inr (tk\<lparr>last_space := True, need_space := False\<rparr>)
            else if ch = CHR '';'' then Inl (Token_Ok, tk)
            else if ch = CHR ''{'' then Inl (Block_Start, tk)
            else if ch = CHR '')'' then word (tk\<lparr>last_space := True, need_space := False\<rparr>)
            else Inl (Token_Error (Unexpected_Char ch), tk))
         else word tk)"

definition conf_getc :: "conf_file \<Rightarrow> char \<times> conf_file" where
  "conf_getc f =
     (let ch = b_data f ! b_pos f
      in (ch, f\<lparr>b_pos := b_pos f + 1, conf_line := (if ch = CH_LF then conf_line f + 1 else conf_line f)\<rparr>))"

lemma conf_refill_progress:
  assumes "conf_refill pread tk f = Inr (tk', f')" "conf_getc f' = (ch, f'')"
  shows "file_size f'' - file_offset f'' + (length (b_data f'') - b_pos f'') <
    file_size f - file_offset f + (length (b_data f) - b_pos f)"
proof (cases "b_pos f < length (b_data f)")
  case True
  then show ?thesis using assms by (auto simp: conf_refill_def conf_getc_def Let_def)
next
  case False
  define len where "len = b_pos f - tok_start tk"
  define size where "size = min (file_size f - file_offset f) (NGX_CONF_BUFFER - len)"
  obtain d where d: "file_offset f < file_size f" "len < NGX_CONF_BUFFER" "length d = size"
    "f' = f\<lparr>b_data := take len (drop (tok_start tk) (b_data f)) @ d, b_pos := len, file_offset := file_offset f + size\<rparr>"
    using assms(1) False by (auto simp: conf_refill_def Let_def len_def size_def split: if_splits option.splits)
  then have "0 < size" "size \<le> file_size f - file_offset f" by (simp_all add: size_def)
  moreover have "length (b_data f'') - b_pos f'' \<le> size - 1" "file_offset f'' = file_offset f + size" "file_size f'' = file_size f"
    using assms(2) d(3,4) by (auto simp: conf_getc_def Let_def)
  ultimately show ?thesis by linarith
qed

function read_token_loop ::
    "(nat \<Rightarrow> nat \<Rightarrow> string option) \<Rightarrow> (nat \<Rightarrow> bool) \<Rightarrow> token_state \<Rightarrow> conf_file \<Rightarrow> conf_rc \<times> string list \<times> conf_file" where
  "read_token_loop pread mem tk f =
     (case conf_refill pread tk f of
        Inl (None, f) \<Rightarrow> (File_Done, conf_args tk, f)
      | Inl (Some e, f) \<Rightarrow> (Token_Error e, conf_args tk, f)
      | Inr (tk, f) \<Rightarrow>
          (case conf_getc f of
             (ch, f) \<Rightarrow>
               (case token_char mem ch f tk of
                  Inl (rc, tk) \<Rightarrow> (rc, conf_args tk, f)
                | Inr tk \<Rightarrow> read_token_loop pread mem tk f)))"
  by pat_completeness auto
termination
  by (relation "measure (\<lambda>(pread, mem, tk, f). file_size f - file_offset f + (length (b_data f) - b_pos f))")
    (simp_all, metis conf_refill_progress)

declare read_token_loop.simps [simp del]

definition ngx_conf_read_token ::
    "(nat \<Rightarrow> nat \<Rightarrow> string option) \<Rightarrow> (nat \<Rightarrow> bool) \<Rightarrow> conf_file \<Rightarrow> conf_rc \<times> string list \<times> conf_file" where
  \<comment> \<open>the result and \<open>cf->args\<close>\<close>
  "ngx_conf_read_token pread mem f =
     read_token_loop pread mem
       \<lparr>need_space = False, last_space = True, sharp_comment = False, variable = False, quoted = False,
        s_quoted = False, d_quoted = False, tok_start = b_pos f, start_line = conf_line f, conf_args = []\<rparr> f"

section \<open>The scanner over the text\<close>

datatype lex_mode =
    Lex_Blank | Lex_Comment
  | Lex_Word "char option" string bool  \<comment> \<open>the quote, the word so far, whether a dollar was just read\<close>
  | Lex_Escape "char option" string     \<comment> \<open>after a backslash\<close>
  | Lex_After                           \<comment> \<open>after a closing quote\<close>

definition lex_escape :: "char \<Rightarrow> string" where
  "lex_escape d =
     (if d = CH_QUOT \<or> d = CH_APOS \<or> d = CH_BSL then [d]
      else if d = CHR ''t'' then [CH_TAB] else if d = CHR ''r'' then [CH_CR]
      else if d = CHR ''n'' then [CH_LF] else [CH_BSL, d])"

definition lex_first :: "char \<Rightarrow> string list \<Rightarrow> conf_rc \<times> string list + lex_mode \<times> string list" where
  "lex_first c args =
     (if conf_blank c then Inr (Lex_Blank, args)
      else if c = CHR '';'' then Inl (if args = [] then Token_Error (Unexpected_Char c) else Token_Ok, args)
      else if c = CHR ''{'' then Inl (if args = [] then Token_Error (Unexpected_Char c) else Block_Start, args)
      else if c = CHR ''}'' then Inl (if args = [] then Block_Done else Token_Error (Unexpected_Char c), args)
      else if c = CHR ''#'' then Inr (Lex_Comment, args)
      else if c = CH_BSL then Inr (Lex_Escape None [], args)
      else if c = CH_QUOT \<or> c = CH_APOS then Inr (Lex_Word (Some c) [] False, args)
      else Inr (Lex_Word None [c] (c = CHR ''$''), args))"

fun lex_step :: "char \<Rightarrow> lex_mode \<Rightarrow> string list \<Rightarrow> conf_rc \<times> string list + lex_mode \<times> string list" where
  "lex_step c Lex_Blank args = lex_first c args"
| "lex_step c Lex_Comment args = Inr (if c = CH_LF then Lex_Blank else Lex_Comment, args)"
| "lex_step c (Lex_Escape q w) args = Inr (Lex_Word q (w @ lex_escape c) False, args)"
| "lex_step c (Lex_Word q w dollar) args =
     (if c = CHR ''{'' \<and> dollar then Inr (Lex_Word q (w @ [c]) True, args)
      else if c = CH_BSL then Inr (Lex_Escape q w, args)
      else if q = Some c then Inr (Lex_After, args @ [w])
      else if q = None \<and> conf_blank c then Inr (Lex_Blank, args @ [w])
      else if q = None \<and> c = CHR '';'' then Inl (Token_Ok, args @ [w])
      else if q = None \<and> c = CHR ''{'' then Inl (Block_Start, args @ [w])
      else Inr (Lex_Word q (w @ [c]) (c = CHR ''$''), args))"
| "lex_step c Lex_After args =
     (if conf_blank c then Inr (Lex_Blank, args)
      else if c = CHR '';'' then Inl (Token_Ok, args)
      else if c = CHR ''{'' then Inl (Block_Start, args)
      else if c = CHR '')'' then lex_first c args
      else Inl (Token_Error (Unexpected_Char c), args))"

fun conf_lex :: "lex_mode \<Rightarrow> string list \<Rightarrow> string \<Rightarrow> conf_rc \<times> string list \<times> string" where
  \<comment> \<open>the result, the words, and the rest of the text\<close>
  "conf_lex m args [] =
     (if args = [] \<and> (m = Lex_Blank \<or> m = Lex_Comment) then File_Done else Token_Error Unexpected_End, args, [])"
| "conf_lex m args (c # cs) =
     (case lex_step c m args of
        Inl (rc, args) \<Rightarrow> (rc, args, cs)
      | Inr (m, args) \<Rightarrow> conf_lex m args cs)"

section \<open>The automaton reads what the scanner reads\<close>

definition raw_word :: "token_state \<Rightarrow> conf_file \<Rightarrow> string" where
  "raw_word tk f = take (b_pos f - tok_start tk) (drop (tok_start tk) (b_data f))"

definition unescapes :: "string \<Rightarrow> string \<Rightarrow> bool" where
  \<comment> \<open>the text \<open>raw\<close>, whatever follows, stands for \<open>w\<close>\<close>
  "unescapes raw w \<longleftrightarrow> (\<forall>next t. conf_unescape next (raw @ t) = w @ conf_unescape next t)"

definition no_flags :: "token_state \<Rightarrow> bool" where
  "no_flags tk \<longleftrightarrow> \<not> need_space tk \<and> \<not> sharp_comment tk \<and> \<not> variable tk \<and> \<not> quoted tk \<and> \<not> s_quoted tk \<and> \<not> d_quoted tk"

definition quote_flags :: "char option \<Rightarrow> token_state \<Rightarrow> bool" where
  "quote_flags q tk \<longleftrightarrow> (q = None \<or> q = Some CH_QUOT \<or> q = Some CH_APOS) \<and> (d_quoted tk \<longleftrightarrow> q = Some CH_QUOT) \<and>
     (s_quoted tk \<longleftrightarrow> q = Some CH_APOS) \<and> \<not> last_space tk \<and> \<not> need_space tk \<and> \<not> sharp_comment tk"

fun mode_rel :: "lex_mode \<Rightarrow> token_state \<Rightarrow> string \<Rightarrow> bool" where
  "mode_rel Lex_Blank tk raw \<longleftrightarrow> no_flags tk \<and> last_space tk"
| "mode_rel Lex_Comment tk raw \<longleftrightarrow> no_flags (tk\<lparr>sharp_comment := False\<rparr>) \<and> last_space tk \<and> sharp_comment tk"
| "mode_rel (Lex_Word q w dollar) tk raw \<longleftrightarrow>
     quote_flags q tk \<and> \<not> quoted tk \<and> (variable tk \<longleftrightarrow> dollar) \<and> unescapes raw w"
| "mode_rel (Lex_Escape q w) tk raw \<longleftrightarrow>
     quote_flags q tk \<and> quoted tk \<and> \<not> variable tk \<and> (\<exists>r. raw = r @ [CH_BSL] \<and> unescapes r w)"
| "mode_rel Lex_After tk raw \<longleftrightarrow> no_flags (tk\<lparr>need_space := False\<rparr>) \<and> \<not> last_space tk \<and> need_space tk"

lemma unescapes_Nil: "unescapes [] []"
  by (simp add: unescapes_def)

lemma unescapes_snoc: "unescapes raw w \<Longrightarrow> c \<noteq> CH_BSL \<Longrightarrow> unescapes (raw @ [c]) (w @ [c])"
  by (simp add: unescapes_def)

lemma unescapes_pair: "unescapes raw w \<Longrightarrow> unescapes (raw @ [CH_BSL, d]) (w @ lex_escape d)"
  by (auto simp: unescapes_def lex_escape_def Let_def)

lemma unescapes_whole: "unescapes raw w \<Longrightarrow> conf_unescape next raw = w"
  unfolding unescapes_def by (metis append_Nil2 conf_unescape.simps(1))

lemma raw_word_snoc:
  assumes "b_pos f < length (b_data f)" "tok_start tk \<le> b_pos f" "conf_getc f = (ch, f')"
  shows "raw_word tk f' = raw_word tk f @ [ch]" "b_pos f' = Suc (b_pos f)" "b_data f' = b_data f"
    "ch = b_data f ! b_pos f" "file_offset f' = file_offset f" "file_size f' = file_size f"
  using assms by (auto simp: raw_word_def conf_getc_def Let_def Suc_diff_le take_Suc_conv_app_nth)

lemma token_push_word:
  assumes "mem (length (conf_args tk))" "raw_word tk f = raw @ [ch]" "unescapes raw w" "b_pos f \<le> length (b_data f)"
  shows "token_push mem ch f tk =
    (let tk = tk\<lparr>conf_args := conf_args tk @ [w]\<rparr>
     in if ch = CHR '';'' then Inl (Token_Ok, tk) else if ch = CHR ''{'' then Inl (Block_Start, tk) else Inr tk)"
proof -
  have "length (raw_word tk f) = b_pos f - tok_start tk" using assms(4) by (simp add: raw_word_def)
  then have "b_pos f - 1 - tok_start tk = length raw" using assms(2) by simp
  moreover have "take (length raw) (raw_word tk f) = raw" using assms(2) by simp
  ultimately have "take (b_pos f - 1 - tok_start tk) (drop (tok_start tk) (b_data f)) = raw"
    using assms(2) \<open>length (raw_word tk f) = b_pos f - tok_start tk\<close> by (simp add: raw_word_def min_def split: if_splits)
  then show ?thesis using assms(1) unescapes_whole [OF assms(3)] by (simp add: token_push_def Let_def)
qed

definition lex_width :: "char \<Rightarrow> nat \<Rightarrow> lex_mode \<Rightarrow> nat" where
  \<comment> \<open>how many characters of the text the code keeps in the buffer\<close>
  "lex_width c n m =
     (if m = Lex_Blank \<or> m = Lex_Comment \<and> c = CH_LF \<or> m = Lex_After \<and> c = CHR '')''
      then (if c = CH_QUOT \<or> c = CH_APOS then 0 else 1) else Suc n)"

lemma token_first_lex:
  assumes "conf_getc f = (ch, f')" "b_pos f < length (b_data f)" "no_flags tk" "last_space tk"
  shows "case lex_first ch (conf_args tk) of
      Inl (rc, args) \<Rightarrow> \<exists>tk'. token_first ch f' tk = Inl (rc, tk') \<and> conf_args tk' = args
    | Inr (m, args) \<Rightarrow> \<exists>tk'. token_first ch f' tk = Inr tk' \<and> conf_args tk' = args \<and> mode_rel m tk' (raw_word tk' f') \<and>
        tok_start tk' \<le> b_pos f' \<and> b_pos f' - tok_start tk' = lex_width ch 0 Lex_Blank"
proof -
  note g = raw_word_snoc [OF assms(2) _ assms(1)]
  have f': "b_pos f' = Suc (b_pos f)" "b_data f' = b_data f" "ch = b_data f ! b_pos f" using assms(1) by (auto simp: conf_getc_def Let_def)
  have r: "raw_word (tk\<lparr>tok_start := b_pos f\<rparr>) f' = [ch]" for tk
    using assms(2) f' by (simp add: raw_word_def take_Suc_conv_app_nth)
  have u: "unescapes [ch] [ch]" if "ch \<noteq> CH_BSL" using unescapes_snoc [OF unescapes_Nil that] by simp
  have r0: "raw_word tk f' = []" if "tok_start tk = Suc (b_pos f)" for tk
    using that f' by (simp add: raw_word_def)
  have r1: "raw_word tk f' = [ch]" if "tok_start tk = b_pos f" for tk
    using that assms(2) f' by (simp add: raw_word_def Suc_diff_le take_Suc_conv_app_nth)
  show ?thesis
    using assms(3,4) f'(1) u
    by (auto simp: lex_first_def token_first_def Let_def no_flags_def quote_flags_def r0 r1 unescapes_Nil lex_width_def conf_blank_def)
qed

lemma token_char_lex:
  assumes "mode_rel m tk (raw_word tk f)" "b_pos f < length (b_data f)" "tok_start tk \<le> b_pos f"
    and "conf_getc f = (ch, f')" "\<And>n. mem n"
  shows "case lex_step ch m (conf_args tk) of
      Inl (rc, args) \<Rightarrow> \<exists>tk'. token_char mem ch f' tk = Inl (rc, tk') \<and> conf_args tk' = args
    | Inr (m', args) \<Rightarrow> \<exists>tk'. token_char mem ch f' tk = Inr tk' \<and> conf_args tk' = args \<and>
        mode_rel m' tk' (raw_word tk' f') \<and> tok_start tk' \<le> b_pos f' \<and>
        b_pos f' - tok_start tk' = lex_width ch (b_pos f - tok_start tk) m"
proof -
  note g = raw_word_snoc [OF assms(2,3,4)]
  have raw: "raw_word tk' f' = raw_word tk f @ [ch]" if "tok_start tk' = tok_start tk" for tk'
    using g(1) that by (simp add: raw_word_def)
  have pos: "tok_start tk \<le> b_pos f'" "b_pos f' \<le> length (b_data f')"
    "b_pos f' - tok_start tk = Suc (b_pos f - tok_start tk)" using assms(2,3) g by simp_all
  show ?thesis
  proof (cases m)
    case Lex_Blank
    have tc: "token_char mem ch f' tk = token_first ch f' tk"
      using assms(1) Lex_Blank by (simp add: token_char_def no_flags_def)
    have w: "lex_width ch n Lex_Blank = lex_width ch 0 Lex_Blank" for n by (simp add: lex_width_def)
    show ?thesis using token_first_lex [OF assms(4,2), of tk] assms(1)
      unfolding Lex_Blank lex_step.simps tc w [of "b_pos f - tok_start tk"] by simp
  next
    case Lex_Comment
    then show ?thesis using assms(1) pos
      using g(2) by (auto simp: token_char_def no_flags_def token_first_def conf_blank_def Let_def lex_width_def)
  next
    case Lex_After
    have tc: "token_char mem ch f' tk =
        (if conf_blank ch then Inr (tk\<lparr>last_space := True, need_space := False\<rparr>)
         else if ch = CHR '';'' then Inl (Token_Ok, tk) else if ch = CHR ''{'' then Inl (Block_Start, tk)
         else if ch = CHR '')'' then token_first ch f' (tk\<lparr>last_space := True, need_space := False\<rparr>)
         else Inl (Token_Error (Unexpected_Char ch), tk))"
      using assms(1) Lex_After by (simp add: token_char_def no_flags_def)
    show ?thesis
    proof (cases "ch = CHR '')''")
      case True
      let ?tk = "tk\<lparr>last_space := True, need_space := False\<rparr>"
      have tc: "token_char mem ch f' tk = token_first ch f' ?tk" using tc True by (simp add: conf_blank_def)
      have ls: "lex_step ch Lex_After (conf_args tk) = lex_first ch (conf_args ?tk)" using True by (simp add: conf_blank_def)
      have w: "lex_width ch n Lex_After = lex_width ch 0 Lex_Blank" for n using True by (simp add: lex_width_def)
      show ?thesis using token_first_lex [OF assms(4,2), of ?tk] assms(1)
        unfolding Lex_After ls tc w [of "b_pos f - tok_start tk"] by (simp add: no_flags_def)
    next
      case False
      then show ?thesis using assms(1) Lex_After pos tc by (auto simp: no_flags_def lex_width_def)
    qed
  next
    case (Lex_Escape q w)
    then obtain r where r: "raw_word tk f = r @ [CH_BSL]" "unescapes r w" using assms(1) by auto
    then have "raw_word tk' f' = r @ [CH_BSL, ch]" if "tok_start tk' = tok_start tk" for tk' using raw that by simp
    then show ?thesis using assms(1) Lex_Escape unescapes_pair [OF r(2), of ch] pos
      by (auto simp: token_char_def quote_flags_def Let_def lex_width_def)
  next
    case (Lex_Word q w dollar)
    then have r: "quote_flags q tk" "\<not> quoted tk" "variable tk \<longleftrightarrow> dollar" "unescapes (raw_word tk f) w"
      using assms(1) by auto
    have s: "ch \<noteq> CH_BSL \<Longrightarrow> unescapes (raw_word tk f @ [ch]) (w @ [ch])" by (rule unescapes_snoc [OF r(4)])
    have push: "token_push mem ch f' tk' =
      (let tk'' = tk'\<lparr>conf_args := conf_args tk' @ [w]\<rparr>
       in if ch = CHR '';'' then Inl (Token_Ok, tk'') else if ch = CHR ''{'' then Inl (Block_Start, tk'') else Inr tk'')"
      if "tok_start tk' = tok_start tk" for tk'
      by (rule token_push_word [OF assms(5) raw [OF that] r(4) pos(2)])
    have tc: "token_char mem ch f' tk = token_inside mem ch f' tk"
      using r(1,2) by (simp add: token_char_def quote_flags_def)
    have wd: "b_pos f' - tok_start tk = lex_width ch (b_pos f - tok_start tk) (Lex_Word q w dollar)"
      using pos(3) by (simp add: lex_width_def)
    have width: "tok_start tk' = tok_start tk" if "token_inside mem ch f' tk = Inr tk'" for tk'
      using that by (auto simp: token_inside_def token_push_def Let_def split: if_splits)
    consider "q = None" | "q = Some CH_QUOT" | "q = Some CH_APOS" using r(1) by (auto simp: quote_flags_def)
    then have "case lex_step ch m (conf_args tk) of
        Inl (rc, args) \<Rightarrow> \<exists>tk'. token_inside mem ch f' tk = Inl (rc, tk') \<and> conf_args tk' = args
      | Inr (m', args) \<Rightarrow> \<exists>tk'. token_inside mem ch f' tk = Inr tk' \<and> conf_args tk' = args \<and>
          mode_rel m' tk' (raw_word tk' f') \<and> tok_start tk' \<le> b_pos f'"
    proof cases
      case 1
      then show ?thesis using Lex_Word r s pos(1,2) push [of "tk\<lparr>variable := False, last_space := True\<rparr>"]
        by (auto simp: token_inside_def raw quote_flags_def no_flags_def Let_def conf_blank_def)
    next
      case 2
      then show ?thesis using Lex_Word r s pos(1,2) push [of "tk\<lparr>variable := False, d_quoted := False, need_space := True\<rparr>"]
        by (auto simp: token_inside_def raw quote_flags_def no_flags_def Let_def conf_blank_def)
    next
      case 3
      then show ?thesis using Lex_Word r s pos(1,2) push [of "tk\<lparr>variable := False, s_quoted := False, need_space := True\<rparr>"]
        by (auto simp: token_inside_def raw quote_flags_def no_flags_def Let_def conf_blank_def)
    qed
    then show ?thesis using width wd unfolding tc Lex_Word by (cases "lex_step ch (Lex_Word q w dollar) (conf_args tk)") fastforce+
  qed
qed

section \<open>Refilling the buffer\<close>

definition pread_ok :: "(nat \<Rightarrow> nat \<Rightarrow> string option) \<Rightarrow> string \<Rightarrow> bool" where
  \<comment> \<open>reading the file gives its text\<close>
  "pread_ok pread text \<longleftrightarrow>
     (\<forall>offset size. offset + size \<le> length text \<longrightarrow> pread offset size = Some (take size (drop offset text)))"

definition conf_file_ok :: "string \<Rightarrow> conf_file \<Rightarrow> bool" where
  "conf_file_ok text f \<longleftrightarrow> file_size f = length text \<and> file_offset f \<le> length text \<and>
     b_pos f \<le> length (b_data f) \<and> length (b_data f) \<le> NGX_CONF_BUFFER"

definition conf_rest :: "string \<Rightarrow> conf_file \<Rightarrow> string" where
  \<comment> \<open>what is still to be read\<close>
  "conf_rest text f = drop (b_pos f) (b_data f) @ drop (file_offset f) text"

lemma conf_refill_spec:
  assumes "pread_ok pread text" "conf_file_ok text f" "tok_start tk \<le> b_pos f"
  shows "case conf_refill pread tk f of
      Inl (e, f') \<Rightarrow> conf_file_ok text f' \<and>
        (if e = Some Too_Long then NGX_CONF_BUFFER \<le> b_pos f - tok_start tk
         else conf_rest text f = [] \<and> conf_rest text f' = [] \<and>
              e = (if conf_args tk \<noteq> [] \<or> \<not> last_space tk then Some Unexpected_End else None))
    | Inr (tk', f') \<Rightarrow> (\<exists>i. tk' = tk\<lparr>tok_start := i\<rparr>) \<and> conf_file_ok text f' \<and> conf_rest text f' = conf_rest text f \<and>
        tok_start tk' \<le> b_pos f' \<and> b_pos f' < length (b_data f') \<and> raw_word tk' f' = raw_word tk f \<and>
        b_pos f' - tok_start tk' = b_pos f - tok_start tk"
proof (cases "b_pos f < length (b_data f)")
  case True
  then have "conf_refill pread tk f = Inr (tk\<lparr>tok_start := tok_start tk\<rparr>, f)" by (simp add: conf_refill_def)
  moreover have "\<exists>i. tk = tk\<lparr>tok_start := i\<rparr>" by (rule exI [of _ "tok_start tk"]) simp
  ultimately show ?thesis using True assms(2,3) by (simp add: raw_word_def)
next
  case False
  have f: "b_pos f = length (b_data f)" "file_size f = length text" "file_offset f \<le> length text"
    using False assms(2) by (auto simp: conf_file_ok_def)
  define len where "len = b_pos f - tok_start tk"
  define size where "size = min (file_size f - file_offset f) (NGX_CONF_BUFFER - len)"
  show ?thesis
  proof (cases "file_size f \<le> file_offset f \<or> NGX_CONF_BUFFER \<le> len")
    case True
    then show ?thesis using False f assms(2)
      by (auto simp: conf_refill_def Let_def len_def conf_rest_def conf_file_ok_def)
  next
    case 2: False
    have sz: "file_offset f + size \<le> length text" "0 < size" "len + size \<le> NGX_CONF_BUFFER"
      using f 2 by (auto simp: size_def)
    define d where "d = take size (drop (file_offset f) text)"
    have d: "pread (file_offset f) size = Some d" "length d = size"
      using assms(1) sz(1) by (simp_all add: pread_ok_def d_def)
    let ?f = "f\<lparr>b_data := drop (tok_start tk) (b_data f) @ d, b_pos := len, file_offset := file_offset f + size\<rparr>"
    have len: "len = length (drop (tok_start tk) (b_data f))" using f(1) by (simp add: len_def)
    have r: "conf_refill pread tk f = Inr (tk\<lparr>tok_start := 0\<rparr>, ?f)"
      using False 2 d by (simp add: conf_refill_def Let_def len size_def flip: len_def)
    have "conf_file_ok text ?f" using assms(2) sz d(2) f len by (simp add: conf_file_ok_def)
    moreover have "conf_rest text ?f = conf_rest text f"
      using f(1) len by (simp add: conf_rest_def d_def add.commute flip: drop_drop)
    moreover have "raw_word (tk\<lparr>tok_start := 0\<rparr>) ?f = raw_word tk f" using len f(1) by (simp add: raw_word_def)
    ultimately show ?thesis using r len d(2) sz(2) by (auto simp: len_def)
  qed
qed

fun lex_span :: "nat \<Rightarrow> lex_mode \<Rightarrow> string list \<Rightarrow> string \<Rightarrow> nat" where
  \<comment> \<open>the longest part of the text that is kept in the buffer\<close>
  "lex_span n m args [] = n"
| "lex_span n m args (c # cs) =
     max n (case lex_step c m args of Inl _ \<Rightarrow> 0 | Inr (m', args) \<Rightarrow> lex_span (lex_width c n m) m' args cs)"

lemma mode_rel_start: "mode_rel m (tk\<lparr>tok_start := i\<rparr>) raw = mode_rel m tk raw"
  by (cases m) (simp_all add: no_flags_def quote_flags_def)

lemma mode_rel_last_space: "mode_rel m tk raw \<Longrightarrow> last_space tk \<longleftrightarrow> m = Lex_Blank \<or> m = Lex_Comment"
  by (cases m) (auto simp: no_flags_def quote_flags_def)

lemma read_token_loop_lex:
  assumes "pread_ok pread text" "\<And>n. mem n"
    and "mode_rel m tk (raw_word tk f)" "tok_start tk \<le> b_pos f" "conf_file_ok text f"
  shows "\<exists>rc args f'. read_token_loop pread mem tk f = (rc, args, f') \<and> conf_file_ok text f' \<and>
    (if rc = Token_Error Too_Long then NGX_CONF_BUFFER \<le> lex_span (b_pos f - tok_start tk) m (conf_args tk) (conf_rest text f)
     else (rc, args, conf_rest text f') = conf_lex m (conf_args tk) (conf_rest text f))"
  using assms(3-5)
proof (induction "length (conf_rest text f)" arbitrary: m tk f rule: less_induct)
  case less
  note ref = conf_refill_spec [OF assms(1) less.prems(3,2)]
  show ?case
  proof (cases "conf_refill pread tk f")
    case (Inl a)
    obtain e f' where a: "a = (e, f')" by (cases a)
    have sp: "n \<le> lex_span n m args cs" for n m args cs by (cases cs) simp_all
    show ?thesis
    proof (cases "e = Some Too_Long")
      case True
      then show ?thesis using ref Inl a sp [of "b_pos f - tok_start tk" m "conf_args tk" "conf_rest text f"]
        by (subst read_token_loop.simps) auto
    next
      case False
      then have r: "conf_file_ok text f'" "conf_rest text f = []" "conf_rest text f' = []"
        "e = (if conf_args tk \<noteq> [] \<or> \<not> last_space tk then Some Unexpected_End else None)"
        using ref Inl a by simp_all
      have "read_token_loop pread mem tk f =
          (if conf_args tk \<noteq> [] \<or> \<not> last_space tk then Token_Error Unexpected_End else File_Done, conf_args tk, f')"
        using Inl a r(4) by (subst read_token_loop.simps) simp
      then show ?thesis using r mode_rel_last_space [OF less.prems(1)] by simp
    qed
  next
    case (Inr b)
    obtain tk1 f1 where b: "b = (tk1, f1)" by (cases b)
    obtain i where tk1: "tk1 = tk\<lparr>tok_start := i\<rparr>" using ref Inr b by auto
    have f1: "conf_file_ok text f1" "conf_rest text f1 = conf_rest text f" "tok_start tk1 \<le> b_pos f1"
      "b_pos f1 < length (b_data f1)" "raw_word tk1 f1 = raw_word tk f" "b_pos f1 - tok_start tk1 = b_pos f - tok_start tk"
      "conf_args tk1 = conf_args tk"
      using ref Inr b tk1 by auto
    have rel: "mode_rel m tk1 (raw_word tk1 f1)" using less.prems(1) f1(5) by (simp add: tk1 mode_rel_start)
    obtain ch f2 where g: "conf_getc f1 = (ch, f2)" by (cases "conf_getc f1")
    note s = raw_word_snoc [OF f1(4,3) g]
    have rest: "conf_rest text f = ch # conf_rest text f2"
      using f1(2,4) s(2-6) by (simp add: conf_rest_def Cons_nth_drop_Suc [symmetric])
    have ok2: "conf_file_ok text f2" using f1(1,4) s by (simp add: conf_file_ok_def)
    note step = token_char_lex [where mem = mem, OF rel f1(4,3) g assms(2)]
    have loop: "read_token_loop pread mem tk f = (case token_char mem ch f2 tk1 of
        Inl (rc, tk) \<Rightarrow> (rc, conf_args tk, f2) | Inr tk \<Rightarrow> read_token_loop pread mem tk f2)"
      using Inr b g by (subst read_token_loop.simps) simp
    show ?thesis
    proof (cases "lex_step ch m (conf_args tk)")
      case (Inl c)
      obtain rc args where c: "c = (rc, args)" by (cases c)
      obtain tk2 where t: "token_char mem ch f2 tk1 = Inl (rc, tk2)" "conf_args tk2 = args"
        using step Inl c f1(7) by auto
      have "rc \<noteq> Token_Error Too_Long"
        using Inl c by (cases m) (auto simp: lex_first_def split: if_splits)
      then show ?thesis using loop t ok2 Inl c rest by simp
    next
      case (Inr c)
      obtain m' args where c: "c = (m', args)" by (cases c)
      obtain tk2 where t: "token_char mem ch f2 tk1 = Inr tk2" "conf_args tk2 = args" "mode_rel m' tk2 (raw_word tk2 f2)"
        "tok_start tk2 \<le> b_pos f2" "b_pos f2 - tok_start tk2 = lex_width ch (b_pos f - tok_start tk) m"
        using step Inr c f1(6,7) by auto
      have "length (conf_rest text f2) < length (conf_rest text f)" using rest by simp
      from less.hyps [OF this t(3,4) ok2] obtain rc as f' where
        ih: "read_token_loop pread mem tk2 f2 = (rc, as, f')" "conf_file_ok text f'"
        "if rc = Token_Error Too_Long then NGX_CONF_BUFFER \<le> lex_span (b_pos f2 - tok_start tk2) m' args (conf_rest text f2)
         else (rc, as, conf_rest text f') = conf_lex m' args (conf_rest text f2)"
        using t(2) by auto
      show ?thesis using loop t(1,5) ih Inr c rest by (auto split: if_splits)
    qed
  qed
qed

lemma read_token_lex:
  assumes "pread_ok pread text" "\<And>n. mem n" "conf_file_ok text f"
  shows "\<exists>rc args f'. ngx_conf_read_token pread mem f = (rc, args, f') \<and> conf_file_ok text f' \<and>
    (if rc = Token_Error Too_Long then NGX_CONF_BUFFER \<le> lex_span 0 Lex_Blank [] (conf_rest text f)
     else (rc, args, conf_rest text f') = conf_lex Lex_Blank [] (conf_rest text f))"
proof -
  let ?tk = "\<lparr>need_space = False, last_space = True, sharp_comment = False, variable = False, quoted = False,
        s_quoted = False, d_quoted = False, tok_start = b_pos f, start_line = conf_line f, conf_args = []\<rparr>"
  have "mode_rel Lex_Blank ?tk (raw_word ?tk f)" "tok_start ?tk \<le> b_pos f" by (simp_all add: no_flags_def)
  from read_token_loop_lex [where mem = mem, OF assms(1,2) this assms(3)] show ?thesis
    unfolding ngx_conf_read_token_def token_state.simps diff_self_eq_0 .
qed

lemma read_token_short:
  assumes "pread_ok pread text" "\<And>n. mem n" "conf_file_ok text f"
    and "lex_span 0 Lex_Blank [] (conf_rest text f) < NGX_CONF_BUFFER"
  shows "\<exists>rc args f'. ngx_conf_read_token pread mem f = (rc, args, f') \<and> conf_file_ok text f' \<and>
    conf_lex Lex_Blank [] (conf_rest text f) = (rc, args, conf_rest text f')"
  using read_token_lex [where mem = mem, OF assms(1-3)] assms(4) by (auto split: if_splits)

section \<open>Writing statements\<close>

definition conf_plain :: "string \<Rightarrow> bool" where
  \<comment> \<open>a word that needs no quotes\<close>
  "conf_plain w \<longleftrightarrow> w \<noteq> [] \<and> hd w \<notin> {CHR ''}'', CHR ''#'', CH_QUOT, CH_APOS} \<and>
     list_all (\<lambda>c. \<not> conf_blank c \<and> c \<noteq> CHR '';'' \<and> c \<noteq> CHR ''{'' \<and> c \<noteq> CH_BSL) w"

definition conf_quote :: "string \<Rightarrow> string" where
  "conf_quote w = CH_QUOT # concat (map (\<lambda>c. if c = CH_QUOT \<or> c = CH_BSL then [CH_BSL, c] else [c]) w) @ [CH_QUOT]"

definition conf_spells :: "string \<Rightarrow> string \<Rightarrow> bool" where
  \<comment> \<open>ways to write a word\<close>
  "conf_spells s w \<longleftrightarrow> s = conf_quote w \<or> s = w \<and> conf_plain w"

fun conf_write :: "string list \<Rightarrow> string" where
  "conf_write [] = []"
| "conf_write [s] = s"
| "conf_write (s # ss) = s @ CHR '' '' # conf_write ss"

fun lex_run :: "string \<Rightarrow> nat \<times> lex_mode \<times> string list \<Rightarrow> (nat \<times> lex_mode \<times> string list) option" where
  \<comment> \<open>the scanner over text in which the statement does not end\<close>
  "lex_run [] x = Some x"
| "lex_run (c # cs) (n, m, args) =
     (case lex_step c m args of Inl _ \<Rightarrow> None | Inr (m', args') \<Rightarrow> lex_run cs (lex_width c n m, m', args'))"

lemma lex_width_le: "lex_width c n m \<le> Suc n"
  by (simp add: lex_width_def)

lemma lex_run_conf_lex:
  assumes "lex_run s (n, m, args) = Some (n', m', args')"
  shows "conf_lex m args (s @ cs) = conf_lex m' args' cs"
    and "lex_span n m args (s @ cs) \<le> max (n + length s) (lex_span n' m' args' cs)"
    and "n' \<le> n + length s"
  using assms
proof (induction s arbitrary: n m args)
  case (Cons c s)
  {
    case 1
    then show ?case using Cons.IH(1) by (auto split: sum.splits)
  next
    case 2
    then obtain m1 args1 where s: "lex_step c m args = Inr (m1, args1)" "lex_run s (lex_width c n m, m1, args1) = Some (n', m', args')"
      by (auto split: sum.splits)
    show ?case using Cons.IH(2) [OF s(2)] lex_width_le [of c n m] by (auto simp: s(1))
  next
    case 3
    then obtain m1 args1 where s: "lex_step c m args = Inr (m1, args1)" "lex_run s (lex_width c n m, m1, args1) = Some (n', m', args')"
      by (auto split: sum.splits)
    show ?case using Cons.IH(3) [OF s(2)] lex_width_le [of c n m] by simp
  }
qed simp_all

lemma lex_run_append: "lex_run (s @ t) x = Option.bind (lex_run s x) (lex_run t)"
proof (induction s arbitrary: x)
  case (Cons c s)
  then show ?case by (cases x) (auto split: sum.split)
qed simp

lemma lex_run_blank:
  \<comment> \<open>from a blank the count starts again\<close>
  assumes "lex_run s (n, Lex_Blank, args) = Some (n', m', args')" "s \<noteq> []"
  shows "lex_span n Lex_Blank args (s @ cs) \<le> max n (max (length s) (lex_span n' m' args' cs))" "n' \<le> length s"
proof -
  obtain c t where t: "s = c # t" using assms(2) by (cases s) auto
  then obtain m1 args1 where s: "lex_step c Lex_Blank args = Inr (m1, args1)"
      "lex_run t (lex_width c n Lex_Blank, m1, args1) = Some (n', m', args')"
    using assms(1) by (auto split: sum.splits)
  have w: "lex_width c n Lex_Blank \<le> 1" by (simp add: lex_width_def)
  show "lex_span n Lex_Blank args (s @ cs) \<le> max n (max (length s) (lex_span n' m' args' cs))"
    using lex_run_conf_lex(2) [OF s(2), of cs] w s(1) by (auto simp: t)
  show "n' \<le> length s" using lex_run_conf_lex(3) [OF s(2)] w by (simp add: t)
qed

lemma lex_span_blank: "lex_span n Lex_Blank args cs \<le> max n (lex_span k Lex_Blank args cs)"
proof (cases cs)
  case (Cons c t)
  have w: "lex_width c n Lex_Blank = lex_width c k Lex_Blank" by (simp add: lex_width_def)
  show ?thesis unfolding Cons lex_span.simps w by simp
qed simp

lemma lex_run_plain:
  assumes "list_all (\<lambda>c. \<not> conf_blank c \<and> c \<noteq> CHR '';'' \<and> c \<noteq> CHR ''{'' \<and> c \<noteq> CH_BSL) s"
  shows "\<exists>n' d'. lex_run s (n, Lex_Word None w d, args) = Some (n', Lex_Word None (w @ s) d', args)"
  using assms
proof (induction s arbitrary: n w d)
  case (Cons c s)
  then show ?case using Cons.IH [of _ "w @ [c]"] by auto
qed simp

lemma lex_run_quoted:
  "\<exists>n' d'. lex_run (concat (map (\<lambda>c. if c = CH_QUOT \<or> c = CH_BSL then [CH_BSL, c] else [c]) s))
     (n, Lex_Word (Some CH_QUOT) w d, args) = Some (n', Lex_Word (Some CH_QUOT) (w @ s) d', args)"
proof (induction s arbitrary: n w d)
  case (Cons c s)
  then show ?case using Cons.IH [of _ "w @ [c]"] by (auto simp: lex_escape_def)
qed simp

lemma lex_spelled:
  \<comment> \<open>a word followed by a space or a semicolon\<close>
  assumes "conf_spells s w"
  shows "\<exists>n' m'. lex_run s (n, Lex_Blank, args) = Some (n', m', if m' = Lex_After then args @ [w] else args) \<and>
    (m' = Lex_After \<or> (\<exists>d. m' = Lex_Word None w d))"
proof (cases "s = conf_quote w")
  case True
  obtain n' d' where q: "lex_run (concat (map (\<lambda>c. if c = CH_QUOT \<or> c = CH_BSL then [CH_BSL, c] else [c]) w))
     (lex_width CH_QUOT n Lex_Blank, Lex_Word (Some CH_QUOT) [] False, args) = Some (n', Lex_Word (Some CH_QUOT) ([] @ w) d', args)"
    using lex_run_quoted by blast
  have "lex_step CH_QUOT Lex_Blank args = Inr (Lex_Word (Some CH_QUOT) [] False, args)"
    by (simp add: lex_first_def conf_blank_def)
  then show ?thesis using q True by (simp add: conf_quote_def lex_run_append)
next
  case False
  then obtain c t where p: "s = w" "w = c # t" "conf_plain w" using assms by (cases w) (auto simp: conf_spells_def conf_plain_def)
  then have "lex_step c Lex_Blank args = Inr (Lex_Word None [c] (c = CHR ''$''), args)"
    by (auto simp: conf_plain_def lex_first_def)
  moreover have "list_all (\<lambda>c. \<not> conf_blank c \<and> c \<noteq> CHR '';'' \<and> c \<noteq> CHR ''{'' \<and> c \<noteq> CH_BSL) t"
    using p by (simp add: conf_plain_def)
  from lex_run_plain [OF this] obtain n' d' where
    "lex_run t (lex_width c n Lex_Blank, Lex_Word None [c] (c = CHR ''$''), args) = Some (n', Lex_Word None ([c] @ t) d', args)"
    by blast
  ultimately show ?thesis using p by simp
qed

lemma lex_spelled_space:
  assumes "conf_spells s w"
  shows "\<exists>n'. lex_run (s @ '' '') (n, Lex_Blank, args) = Some (n', Lex_Blank, args @ [w])"
  using lex_spelled [OF assms, of n args] by (auto simp: lex_run_append conf_blank_def)

lemma conf_lex_write:
  assumes "list_all2 conf_spells ss ws" "ws \<noteq> []" "\<forall>s \<in> set ss. length s < N" "n \<le> N"
  shows "conf_lex Lex_Blank args (conf_write ss @ CHR '';'' # cs) = (Token_Ok, args @ ws, cs) \<and>
    lex_span n Lex_Blank args (conf_write ss @ CHR '';'' # cs) \<le> N"
  using assms
proof (induction ss arbitrary: ws args n rule: conf_write.induct)
  case (2 s)
  then obtain w where w: "ws = [w]" "conf_spells s w" by (auto simp: list_all2_Cons1)
  obtain n' m' where r: "lex_run s (n, Lex_Blank, args) = Some (n', m', if m' = Lex_After then args @ [w] else args)"
    "m' = Lex_After \<or> (\<exists>d. m' = Lex_Word None w d)"
    using lex_spelled [OF w(2)] by blast
  have "s \<noteq> []" using w(2) by (auto simp: conf_spells_def conf_quote_def conf_plain_def)
  moreover have "lex_span n' m' a (CHR '';'' # cs) \<le> n'" for a using r(2) by (auto simp: conf_blank_def)
  ultimately have "lex_span n Lex_Blank args (s @ CHR '';'' # cs) \<le> max n (max (length s) n')" "n' \<le> length s"
    using lex_run_blank [OF r(1)] by (meson max.mono order_refl order_trans)+
  then show ?case using lex_run_conf_lex(1) [OF r(1), of "CHR '';'' # cs"] r(2) w(1) "2.prems"(3,4)
    by (auto simp: conf_blank_def)
next
  case (3 s s' ss)
  then obtain w ws' where w: "ws = w # ws'" "conf_spells s w" "list_all2 conf_spells (s' # ss) ws'" by (auto simp: list_all2_Cons1)
  obtain n' where r: "lex_run (s @ '' '') (n, Lex_Blank, args) = Some (n', Lex_Blank, args @ [w])"
    using lex_spelled_space [OF w(2)] by blast
  have "ws' \<noteq> []" using w(3) by auto
  moreover have "n' \<le> N" "length (s @ '' '') \<le> N" using lex_run_blank(2) [OF r] "3.prems"(3) by auto
  ultimately show ?case
    using lex_run_conf_lex(1) [OF r, of "conf_write (s' # ss) @ CHR '';'' # cs"] "3.IH" [of ws' n' "args @ [w]"]
      lex_run_blank(1) [OF r, of "conf_write (s' # ss) @ CHR '';'' # cs"] "3.prems"(3,4) w by auto
qed simp_all

text \<open>C26. What is written in a configuration file is read back: a statement of one or more words, each written as it is
  (a word that is not empty, has no blanks, semicolons, opening braces or backslashes and does not start with a closing
  brace, a hash or a quote) or between quotes with backslashes, separated by single spaces, after any
  blanks, is read as these words and the reader stops behind its semicolon, through a buffer that starts and is refilled
  at any place of the text.  This is so when the file has the length that the reader took for it, the reads of it and the allocations
  of the words succeed, and each word as it is written is at least two bytes shorter than the buffer of 4096.\<close>
theorem read_token_roundtrip:
  assumes "pread_ok pread text" "\<And>n. mem n" "conf_file_ok text f"
    and "conf_rest text f = blanks @ conf_write ss @ CHR '';'' # rest" "list_all conf_blank blanks"
    and "list_all2 conf_spells ss ws" "ws \<noteq> []" "\<forall>s \<in> set ss. length s + 1 < NGX_CONF_BUFFER"
  shows "\<exists>f'. ngx_conf_read_token pread mem f = (Token_Ok, ws, f') \<and> conf_file_ok text f' \<and> conf_rest text f' = rest"
proof -
  have N: "1 \<le> NGX_CONF_BUFFER - 1" by (simp add: NGX_CONF_BUFFER_def)
  have b: "conf_lex Lex_Blank [] (blanks @ cs) = conf_lex Lex_Blank [] cs \<and>
      lex_span n Lex_Blank [] (blanks @ cs) \<le> max n (max 1 (lex_span 1 Lex_Blank [] cs))" for n cs
    using assms(5)
  proof (induction blanks arbitrary: n)
    case (Cons c bs)
    then have "lex_first c [] = Inr (Lex_Blank, [])" "lex_width c n Lex_Blank = 1"
      by (auto simp: lex_first_def lex_width_def conf_blank_def)
    then show ?case using Cons.IH [of 1] Cons.prems by (simp add: max.coboundedI2)
  next
    case Nil
    show ?case using lex_span_blank [of n "[]" cs 1] by (simp add: max.coboundedI2 max.left_commute)
  qed
  have l: "\<forall>s \<in> set ss. length s < NGX_CONF_BUFFER - 1" using assms(8) by auto
  note w = conf_lex_write [OF assms(6,7) l]
  have "conf_lex Lex_Blank [] (conf_rest text f) = (Token_Ok, ws, rest)" using b w [where n = 0 and args = "[]" and cs = rest] assms(4) by simp
  moreover have "lex_span 0 Lex_Blank [] (conf_rest text f) < NGX_CONF_BUFFER"
    using b [where n = 0 and cs = "conf_write ss @ CHR '';'' # rest"] w [OF N, where args = "[]" and cs = rest] N unfolding assms(4) by linarith
  ultimately show ?thesis using read_token_short [where mem = mem, OF assms(1-3)] by auto
qed

text \<open>The reader with its flags and its buffer is the scanner over the text that has one mode at a time: result, words and the
  place where it stops are the same, wherever in the text the buffer starts and has to be refilled; the only other outcome is the
  error of a parameter that does not fit in the buffer, and then the text has a parameter, or a comment, that
  the buffer of 4096 bytes does not hold.  This is so for every text when the file has the length that the reader took for it and the
  reads of it and the allocations of the words succeed.\<close>
theorem read_token_equivalence:
  assumes "pread_ok pread text" "\<And>n. mem n" "conf_file_ok text f"
  shows "\<exists>rc args f'. ngx_conf_read_token pread mem f = (rc, args, f') \<and> conf_file_ok text f' \<and>
    (if rc = Token_Error Too_Long then NGX_CONF_BUFFER \<le> lex_span 0 Lex_Blank [] (conf_rest text f)
     else (rc, args, conf_rest text f') = conf_lex Lex_Blank [] (conf_rest text f))"
  by (rule read_token_lex [where mem = mem, OF assms])

section \<open>Witnesses\<close>

definition sample_text :: string where
  "sample_text = ''  limit_req zone=one '' @ [CH_QUOT] @ ''burst=5'' @ [CH_QUOT] @ '';'' @ [CH_LF]"

definition sample_pread :: "nat \<Rightarrow> nat \<Rightarrow> string option" where
  "sample_pread offset n = Some (take n (drop offset sample_text))"

definition sample_conf_file :: conf_file where
  "sample_conf_file = \<lparr>b_data = [], b_pos = 0, file_offset = 0, file_size = length sample_text, conf_line = 1\<rparr>"

lemma sample_file:
  "pread_ok sample_pread sample_text" "conf_file_ok sample_text sample_conf_file" "conf_rest sample_text sample_conf_file = sample_text"
  by (simp_all add: pread_ok_def sample_pread_def conf_file_ok_def sample_conf_file_def conf_rest_def)

theorem read_token_roundtrip_witness:
  "\<exists>f'. ngx_conf_read_token sample_pread (\<lambda>_. True) sample_conf_file = (Token_Ok, [''limit_req'', ''zone=one'', ''burst=5''], f') \<and>
     conf_file_ok sample_text f' \<and> conf_rest sample_text f' = [CH_LF]"
proof -
  let ?ss = "[''limit_req'', ''zone=one'', conf_quote ''burst=5'']" and ?ws = "[''limit_req'', ''zone=one'', ''burst=5'']"
  have s: "list_all2 conf_spells ?ss ?ws" by (simp add: conf_spells_def conf_plain_def conf_blank_def)
  have t: "conf_rest sample_text sample_conf_file = ''  '' @ conf_write ?ss @ CHR '';'' # [CH_LF]"
    unfolding sample_file(3) by (simp add: sample_text_def conf_quote_def)
  show ?thesis
    by (rule read_token_roundtrip [OF sample_file(1) _ sample_file(2) t _ s])
      (simp_all add: conf_blank_def conf_quote_def NGX_CONF_BUFFER_def)
qed

theorem read_token_equivalence_witness:
  "\<exists>args f'. ngx_conf_read_token sample_pread (\<lambda>_. True) sample_conf_file = (Token_Ok, args, f') \<and> length args = 3"
proof -
  have "conf_lex Lex_Blank [] sample_text = (Token_Ok, [''limit_req'', ''zone=one'', ''burst=5''], [CH_LF])"
    by (simp add: sample_text_def lex_first_def conf_blank_def)
  moreover have "lex_span 0 Lex_Blank [] sample_text < NGX_CONF_BUFFER"
    by (simp add: sample_text_def lex_first_def conf_blank_def lex_width_def NGX_CONF_BUFFER_def)
  ultimately show ?thesis
    using read_token_equivalence [OF sample_file(1) _ sample_file(2), of "\<lambda>_. True"] by (auto simp: sample_file(3) split: if_splits)
qed

end
