(* ===== verification/Ngx_Conf_Parse.thy ===== *)
theory Ngx_Conf_Parse
  imports Ngx_Conf_File "HOL-Library.Monad_Syntax"
begin

text \<open>
  The rest of \<open>core/ngx_conf_file.c\<close>: \<open>ngx_conf_handler\<close>, which finds the command of a directive in the tables
  of the modules and checks its place and its arguments, and \<open>ngx_conf_parse\<close>, which reads statements and
  calls the commands.  The command of a block calls \<open>ngx_conf_parse\<close> again, so that the parser calls itself
  through the table.

  The commands themselves are data here: the \<open>set\<close> function of a directive, and for a block what it does before
  and after it calls the parser.
\<close>

section \<open>Commands\<close>

definition NGX_CONF_NOARGS :: ngx_uint_t where "NGX_CONF_NOARGS = 1"
definition NGX_CONF_TAKE1 :: ngx_uint_t where "NGX_CONF_TAKE1 = 0x2"
definition NGX_CONF_TAKE2 :: ngx_uint_t where "NGX_CONF_TAKE2 = 0x4"
definition NGX_CONF_TAKE3 :: ngx_uint_t where "NGX_CONF_TAKE3 = 0x8"
definition NGX_CONF_MAX_ARGS :: nat where "NGX_CONF_MAX_ARGS = 8"
definition NGX_CONF_BLOCK :: ngx_uint_t where "NGX_CONF_BLOCK = 0x100"
definition NGX_CONF_FLAG :: ngx_uint_t where "NGX_CONF_FLAG = 0x200"
definition NGX_CONF_ANY :: ngx_uint_t where "NGX_CONF_ANY = 0x400"
definition NGX_CONF_1MORE :: ngx_uint_t where "NGX_CONF_1MORE = 0x800"
definition NGX_CONF_2MORE :: ngx_uint_t where "NGX_CONF_2MORE = 0x1000"
definition NGX_CONF_MODULE :: nat where "NGX_CONF_MODULE = 0x464E4F43"

datatype conf_rv = Rv_Ok | Rv_Error | Rv_Message string   \<comment> \<open>what a \<open>set\<close> function returns\<close>

record 'w conf_context =       \<comment> \<open>the fields of \<open>cf\<close> that say what is allowed\<close>
  ctx_module_type :: nat
  ctx_cmd_type :: ngx_uint_t
  ctx_handler :: "(string list \<Rightarrow> 'w \<Rightarrow> conf_rv \<times> 'w) option"

datatype 'w conf_set =
    Set_Directive "string list \<Rightarrow> 'w \<Rightarrow> conf_rv \<times> 'w"
  | Set_Block "string list \<Rightarrow> 'w \<Rightarrow> 'w conf_context option \<times> 'w" "'w \<Rightarrow> conf_rv \<times> 'w"
    \<comment> \<open>before the call of \<open>ngx_conf_parse\<close>, \<open>None\<close> for a failure, and after it\<close>

record 'w ngx_command =
  cmd_name :: string
  cmd_type :: ngx_uint_t
  cmd_set :: "'w conf_set"

record 'w conf_module =
  mod_type :: nat
  mod_commands :: "'w ngx_command list"

section \<open>Finding the command\<close>

datatype conf_refusal = Not_Terminated | No_Opening | Invalid_Number | Not_Allowed_Here | Unknown_Directive

definition argument_number :: "nat \<Rightarrow> ngx_uint_t" where
  "argument_number i = push_bit i NGX_CONF_NOARGS"

definition conf_args_ok :: "ngx_uint_t \<Rightarrow> nat \<Rightarrow> bool" where
  \<comment> \<open>is the directive's argument count right?\<close>
  "conf_args_ok ty nelts \<longleftrightarrow>
     (if ty AND NGX_CONF_ANY \<noteq> 0 then True
      else if ty AND NGX_CONF_FLAG \<noteq> 0 then nelts = 2
      else if ty AND NGX_CONF_1MORE \<noteq> 0 then \<not> nelts < 2
      else if ty AND NGX_CONF_2MORE \<noteq> 0 then \<not> nelts < 3
      else if nelts > NGX_CONF_MAX_ARGS then False
      else ty AND argument_number (nelts - 1) \<noteq> 0)"

fun conf_commands_loop ::
    "'w conf_context \<Rightarrow> nat \<Rightarrow> conf_rc \<Rightarrow> string list \<Rightarrow> 'w ngx_command list \<Rightarrow> bool \<Rightarrow>
     (conf_refusal + 'w ngx_command) option \<times> bool" where
  \<comment> \<open>the commands of a module: what is returned for a command, if any, and \<open>found\<close>\<close>
  "conf_commands_loop ctx ty rc args [] found = (None, found)"
| "conf_commands_loop ctx ty rc args (cmd # cmds) found =
     (let name = hd args
      in if length name \<noteq> length (cmd_name cmd) then conf_commands_loop ctx ty rc args cmds found
         else if c_strcmp name (cmd_name cmd) \<noteq> 0 then conf_commands_loop ctx ty rc args cmds found
         else if ty \<noteq> NGX_CONF_MODULE \<and> ty \<noteq> ctx_module_type ctx then conf_commands_loop ctx ty rc args cmds True
         else if cmd_type cmd AND ctx_cmd_type ctx = 0 then conf_commands_loop ctx ty rc args cmds True
         else if cmd_type cmd AND NGX_CONF_BLOCK = 0 \<and> rc \<noteq> Token_Ok then (Some (Inl Not_Terminated), True)
         else if cmd_type cmd AND NGX_CONF_BLOCK \<noteq> 0 \<and> rc \<noteq> Block_Start then (Some (Inl No_Opening), True)
         else if \<not> conf_args_ok (cmd_type cmd) (length args) then (Some (Inl Invalid_Number), True)
         else (Some (Inr cmd), True))"

fun conf_modules_loop ::
    "'w conf_context \<Rightarrow> conf_rc \<Rightarrow> string list \<Rightarrow> 'w conf_module list \<Rightarrow> bool \<Rightarrow> conf_refusal + 'w ngx_command" where
  "conf_modules_loop ctx rc args [] found = Inl (if found then Not_Allowed_Here else Unknown_Directive)"
| "conf_modules_loop ctx rc args (m # ms) found =
     (case conf_commands_loop ctx (mod_type m) rc args (mod_commands m) found of
        (Some r, found) \<Rightarrow> r
      | (None, found) \<Rightarrow> conf_modules_loop ctx rc args ms found)"

definition ngx_conf_handler ::
    "'w conf_module list \<Rightarrow> 'w conf_context \<Rightarrow> conf_rc \<Rightarrow> string list \<Rightarrow> conf_refusal + 'w ngx_command" where
  \<comment> \<open>up to the call of \<open>cmd->set\<close>\<close>
  "ngx_conf_handler modules ctx rc args = conf_modules_loop ctx rc args modules False"

section \<open>The parser\<close>

datatype parse_type = Parse_File | Parse_Block | Parse_Param

datatype 'w conf_next =
    Parse_Done bool 'w                                            \<comment> \<open>without an error or with one\<close>
  | Parse_On 'w                                                   \<comment> \<open>the next statement\<close>
  | Parse_Inner "'w conf_context" "'w \<Rightarrow> conf_rv \<times> 'w" 'w       \<comment> \<open>the command of a block calls the parser\<close>

definition conf_called :: "conf_rv \<times> 'w \<Rightarrow> 'w conf_next" where
  \<comment> \<open>after the call of a handler\<close>
  "conf_called r = (case r of (rv, w) \<Rightarrow> if rv = Rv_Ok then Parse_On w else Parse_Done False w)"

definition conf_statement ::
    "'w conf_module list \<Rightarrow> parse_type \<Rightarrow> 'w conf_context \<Rightarrow> conf_rc \<Rightarrow> string list \<Rightarrow> 'w \<Rightarrow> 'w conf_next" where
  \<comment> \<open>one turn of the loop, after the call of \<open>ngx_conf_read_token\<close>\<close>
  "conf_statement modules ty ctx rc args w =
     (case rc of
        Token_Error e \<Rightarrow> Parse_Done False w
      | Block_Done \<Rightarrow> Parse_Done (ty = Parse_Block) w
      | File_Done \<Rightarrow> Parse_Done (ty \<noteq> Parse_Block) w
      | _ \<Rightarrow>
          if rc = Block_Start \<and> ty = Parse_Param then Parse_Done False w
          else
            (case ctx_handler ctx of
               Some handler \<Rightarrow> if rc = Block_Start then Parse_Done False w else conf_called (handler args w)
             | None \<Rightarrow>
                 (case ngx_conf_handler modules ctx rc args of
                    Inl e \<Rightarrow> Parse_Done False w
                  | Inr cmd \<Rightarrow>
                      (case cmd_set cmd of
                         Set_Directive set_conf \<Rightarrow> conf_called (set_conf args w)
                       | Set_Block enter leave \<Rightarrow>
                           (case enter args w of
                              (None, w) \<Rightarrow> Parse_Done False w
                            | (Some inner, w) \<Rightarrow> Parse_Inner inner leave w)))))"

partial_function (option) ngx_conf_parse ::
    "'w conf_module list \<Rightarrow> (nat \<Rightarrow> nat \<Rightarrow> string option) \<Rightarrow> (nat \<Rightarrow> bool) \<Rightarrow>
     parse_type \<Rightarrow> 'w conf_context \<Rightarrow> conf_file \<Rightarrow> 'w \<Rightarrow> (bool \<times> conf_file \<times> 'w) option" where
  \<comment> \<open>the loop; whether it is done without an error\<close>
  "ngx_conf_parse modules pread mem ty ctx f w =
     (case ngx_conf_read_token pread mem f of
        (rc, args, f) \<Rightarrow>
          (case conf_statement modules ty ctx rc args w of
             Parse_Done ok w \<Rightarrow> Some (ok, f, w)
           | Parse_On w \<Rightarrow> ngx_conf_parse modules pread mem ty ctx f w
           | Parse_Inner inner leave w \<Rightarrow>
               Option.bind (ngx_conf_parse modules pread mem Parse_Block inner f w) (\<lambda>(ok, f, w).
                 if \<not> ok then Some (False, f, w)
                 else
                   (case leave w of
                      (rv, w) \<Rightarrow>
                        if rv = Rv_Ok then ngx_conf_parse modules pread mem ty ctx f w else Some (False, f, w)))))"

declare ngx_conf_parse.simps [code]

definition ngx_conf_parse_file ::
    "'w conf_module list \<Rightarrow> bool \<times> bool \<times> bool \<times> bool \<Rightarrow> (nat \<Rightarrow> nat \<Rightarrow> string option) \<Rightarrow> nat \<Rightarrow> (nat \<Rightarrow> bool) \<Rightarrow>
     'w conf_context \<Rightarrow> 'w \<Rightarrow> (bool \<times> 'w) option" where
  \<comment> \<open>with a filename: the success of opening it, of the allocation of the buffer, of \<open>ngx_conf_add_dump\<close> and of
      closing it, then reading it and its size\<close>
  "ngx_conf_parse_file modules ok pread fsize mem ctx w =
     (case ok of
        (open_ok, alloc_ok, dump_ok, close_ok) \<Rightarrow>
          if \<not> open_ok then Some (False, w)
          else if \<not> alloc_ok \<or> \<not> dump_ok then Some (False, w)
          else
            Option.bind
              (ngx_conf_parse modules pread mem Parse_File ctx
                 \<lparr>b_data = [], b_pos = 0, file_offset = 0, file_size = fsize, conf_line = 1\<rparr> w)
              (\<lambda>(ok, f, w). Some (ok \<and> close_ok, w)))"

section \<open>The parser ends\<close>

definition conf_left :: "conf_file \<Rightarrow> nat" where
  "conf_left f = file_size f - file_offset f + (length (b_data f) - b_pos f)"

lemma conf_refill_left:
  assumes "conf_refill pread tk f = Inr (tk', f')"
  shows "conf_left (snd (conf_getc f')) < conf_left f"
  using conf_refill_progress [OF assms, of "fst (conf_getc f')" "snd (conf_getc f')"] by (simp add: conf_left_def)

lemma conf_refill_end:
  assumes "conf_refill pread tk f = Inl (e, f')"
  shows "conf_left f' \<le> conf_left f"
  using assms by (auto simp: conf_refill_def conf_left_def Let_def split: if_splits option.splits)

lemma read_token_loop_left:
  assumes "read_token_loop pread mem tk f = (rc, args, f')"
  shows "conf_left f' \<le> conf_left f" and "rc = Token_Ok \<or> rc = Block_Start \<Longrightarrow> conf_left f' < conf_left f"
proof -
  have "conf_left f' \<le> conf_left f \<and> (rc = Token_Ok \<or> rc = Block_Start \<longrightarrow> conf_left f' < conf_left f)"
    using assms
  proof (induction pread mem tk f rule: read_token_loop.induct)
    case (1 pread mem tk f)
    show ?case
    proof (cases "conf_refill pread tk f")
      case (Inl a)
      then show ?thesis using 1(2) conf_refill_end [of pread tk f "fst a" "snd a"]
        by (subst (asm) read_token_loop.simps) (auto split: option.splits prod.splits)
    next
      case (Inr b)
      obtain tk1 f1 where b: "b = (tk1, f1)" by (cases b)
      obtain ch f2 where g: "conf_getc f1 = (ch, f2)" by (cases "conf_getc f1")
      have lt: "conf_left f2 < conf_left f" using conf_refill_left [of pread tk f tk1 f1] Inr b g by simp
      show ?thesis
      proof (cases "token_char mem ch f2 tk1")
        case Inl
        then show ?thesis using 1(2) \<open>conf_refill pread tk f = Inr b\<close> b g lt
          by (subst (asm) read_token_loop.simps) (auto split: prod.splits)
      next
        case (Inr tk2)
        then have "read_token_loop pread mem tk2 f2 = (rc, args, f')"
          using 1(2) \<open>conf_refill pread tk f = Inr b\<close> b g by (subst (asm) read_token_loop.simps) simp
        from 1(1) [OF \<open>conf_refill pread tk f = Inr b\<close> b [symmetric] g [symmetric] Inr this] lt show ?thesis by auto
      qed
    qed
  qed
  then show "conf_left f' \<le> conf_left f" "rc = Token_Ok \<or> rc = Block_Start \<Longrightarrow> conf_left f' < conf_left f" by auto
qed

lemma conf_statement_goes_on:
  assumes "conf_statement modules ty ctx rc args w = nxt" "\<forall>ok w. nxt \<noteq> Parse_Done ok w"
  shows "rc = Token_Ok \<or> rc = Block_Start"
  using assms by (cases rc) (auto simp: conf_statement_def)

lemma conf_parse_ends:
  "\<exists>ok f' w'. ngx_conf_parse modules pread mem ty ctx f w = Some (ok, f', w') \<and> conf_left f' \<le> conf_left f"
proof (induction "conf_left f" arbitrary: ty ctx f w rule: less_induct)
  case less
  obtain rc args f1 where r: "ngx_conf_read_token pread mem f = (rc, args, f1)" by (cases "ngx_conf_read_token pread mem f") auto
  note l = read_token_loop_left [OF r [unfolded ngx_conf_read_token_def]]
  show ?case
  proof (cases "conf_statement modules ty ctx rc args w")
    case Parse_Done
    then show ?thesis using r l(1) by (subst ngx_conf_parse.simps) simp
  next
    case (Parse_On w1)
    then have lt: "conf_left f1 < conf_left f" using l(2) conf_statement_goes_on [OF Parse_On] by simp
    then show ?thesis using r Parse_On less [OF lt, of ty ctx w1] by (subst ngx_conf_parse.simps) auto
  next
    case (Parse_Inner inner leave w1)
    then have lt: "conf_left f1 < conf_left f" using l(2) conf_statement_goes_on [OF Parse_Inner] by simp
    obtain ok f2 w2 where i: "ngx_conf_parse modules pread mem Parse_Block inner f1 w1 = Some (ok, f2, w2)" "conf_left f2 \<le> conf_left f1"
      using less [OF lt, of Parse_Block inner w1] by blast
    obtain rv w3 where v: "leave w2 = (rv, w3)" by (cases "leave w2")
    have "conf_left f2 < conf_left f" using lt i(2) by simp
    from less [OF this, of ty ctx w3] show ?thesis
      using r Parse_Inner i v lt by (subst ngx_conf_parse.simps) auto
  qed
qed

section \<open>The statements of a text and a machine with a stack\<close>

definition goes_on :: "conf_rc \<Rightarrow> bool" where
  "goes_on rc \<longleftrightarrow> rc = Token_Ok \<or> rc = Block_Start \<or> rc = Block_Done"

lemma conf_lex_rest:
  assumes "conf_lex m args text = (rc, as, rest)"
  shows "length rest \<le> length text" and "goes_on rc \<Longrightarrow> length rest < length text"
proof -
  have "length rest \<le> length text \<and> (goes_on rc \<longrightarrow> length rest < length text)"
    using assms
  proof (induction "text" arbitrary: m args)
    case (Cons c cs)
    then show ?case by (cases "lex_step c m args") (fastforce split: prod.splits)+
  qed (auto simp: goes_on_def split: if_splits)
  then show "length rest \<le> length text" "goes_on rc \<Longrightarrow> length rest < length text" by auto
qed

function conf_tokens :: "string \<Rightarrow> (conf_rc \<times> string list) list" where
  "conf_tokens text =
     (case conf_lex Lex_Blank [] text of
        (rc, args, rest) \<Rightarrow> (rc, args) # (if goes_on rc then conf_tokens rest else []))"
  by pat_completeness auto
termination
  by (relation "measure length") (simp_all, metis conf_lex_rest(2))

function conf_short :: "string \<Rightarrow> bool" where
  \<comment> \<open>no word and no comment is too long for the buffer\<close>
  "conf_short text \<longleftrightarrow>
     lex_span 0 Lex_Blank [] text < NGX_CONF_BUFFER \<and>
     (case conf_lex Lex_Blank [] text of (rc, args, rest) \<Rightarrow> goes_on rc \<longrightarrow> conf_short rest)"
  by pat_completeness auto
termination
  by (relation "measure length") (simp_all, metis conf_lex_rest(2))

declare conf_tokens.simps [simp del] conf_short.simps [simp del]

type_synonym 'w conf_frame = "parse_type \<times> 'w conf_context \<times> ('w \<Rightarrow> conf_rv \<times> 'w)"

fun conf_run ::
    "'w conf_module list \<Rightarrow> 'w conf_frame list \<Rightarrow> parse_type \<Rightarrow> 'w conf_context \<Rightarrow> (conf_rc \<times> string list) list \<Rightarrow> 'w \<Rightarrow>
     bool \<times> 'w" where
  \<comment> \<open>the statements one after the other, with the blocks that are open on a stack\<close>
  "conf_run modules stack ty ctx [] w = (False, w)"
| "conf_run modules stack ty ctx ((rc, args) # ts) w =
     (case conf_statement modules ty ctx rc args w of
        Parse_On w \<Rightarrow> conf_run modules stack ty ctx ts w
      | Parse_Inner inner leave w \<Rightarrow> conf_run modules ((ty, ctx, leave) # stack) Parse_Block inner ts w
      | Parse_Done ok w \<Rightarrow>
          if \<not> ok then (False, w)
          else
            (case stack of
               [] \<Rightarrow> (True, w)
             | (ty, ctx, leave) # stack \<Rightarrow>
                 (case leave w of
                    (rv, w) \<Rightarrow> if rv = Rv_Ok then conf_run modules stack ty ctx ts w else (False, w))))"

definition conf_return ::
    "'w conf_module list \<Rightarrow> 'w conf_frame list \<Rightarrow> (conf_rc \<times> string list) list \<Rightarrow> 'w \<Rightarrow> bool \<times> 'w" where
  \<comment> \<open>the end of a block without an error\<close>
  "conf_return modules stack ts w =
     (case stack of
        [] \<Rightarrow> (True, w)
      | (ty, ctx, leave) # stack \<Rightarrow>
          (case leave w of (rv, w) \<Rightarrow> if rv = Rv_Ok then conf_run modules stack ty ctx ts w else (False, w)))"

lemma conf_parse_run:
  assumes "pread_ok pread text" "\<And>n. mem n"
  shows "\<lbrakk>conf_file_ok text f; conf_short (conf_rest text f); ty \<noteq> Parse_Block \<longrightarrow> stack = [];
      ngx_conf_parse modules pread mem ty ctx f w = Some (ok, f', w')\<rbrakk> \<Longrightarrow>
    conf_file_ok text f' \<and> (ok \<and> ty = Parse_Block \<longrightarrow> conf_short (conf_rest text f')) \<and>
    conf_run modules stack ty ctx (conf_tokens (conf_rest text f)) w =
      (if ok then conf_return modules stack (conf_tokens (conf_rest text f')) w' else (False, w'))"
proof (induction "conf_left f" arbitrary: ty ctx f w stack ok f' w' rule: less_induct)
  case less
  have sp: "lex_span 0 Lex_Blank [] (conf_rest text f) < NGX_CONF_BUFFER"
    using less.prems(2) by (subst (asm) conf_short.simps) simp
  obtain rc args f1 where r: "ngx_conf_read_token pread mem f = (rc, args, f1)" "conf_file_ok text f1"
    "conf_lex Lex_Blank [] (conf_rest text f) = (rc, args, conf_rest text f1)"
    using read_token_short [where mem = mem, OF assms less.prems(1) sp] by blast
  have tok: "conf_tokens (conf_rest text f) = (rc, args) # (if goes_on rc then conf_tokens (conf_rest text f1) else [])"
    using r(3) by (subst conf_tokens.simps) simp
  have short: "goes_on rc \<Longrightarrow> conf_short (conf_rest text f1)"
    using less.prems(2) r(3) by (subst (asm) conf_short.simps) simp
  note l = read_token_loop_left [OF r(1) [unfolded ngx_conf_read_token_def]]
  note parse = less.prems(4) [unfolded ngx_conf_parse.simps [of modules pread mem ty ctx f]]
  show ?case
  proof (cases "conf_statement modules ty ctx rc args w")
    case (Parse_Done ok1 w1)
    then have eq: "ok1 = ok" "w1 = w'" "f1 = f'" using parse r(1) by simp_all
    show ?thesis
    proof (cases ok)
      case True
      then have "rc = Block_Done \<and> ty = Parse_Block \<or> rc = File_Done \<and> ty \<noteq> Parse_Block"
        using Parse_Done eq(1)
        by (cases rc) (auto simp: conf_statement_def conf_called_def split: if_splits option.splits sum.splits conf_set.splits prod.splits)
      then show ?thesis
        using True Parse_Done eq r(2) tok short less.prems(3) by (auto simp: conf_return_def goes_on_def)
    next
      case False
      then show ?thesis using Parse_Done eq r(2) tok by simp
    qed
  next
    case (Parse_On w1)
    then have g: "rc = Token_Ok \<or> rc = Block_Start" using conf_statement_goes_on [OF Parse_On] by simp
    then have lt: "conf_left f1 < conf_left f" using l(2) by simp
    have "ngx_conf_parse modules pread mem ty ctx f1 w1 = Some (ok, f', w')" using parse r(1) Parse_On by simp
    from less.hyps [OF lt r(2) _ less.prems(3) this] show ?thesis
      using short g tok Parse_On by (auto simp: goes_on_def)
  next
    case (Parse_Inner inner leave w1)
    then have g: "rc = Token_Ok \<or> rc = Block_Start" using conf_statement_goes_on [OF Parse_Inner] by simp
    then have lt: "conf_left f1 < conf_left f" using l(2) by simp
    have short1: "conf_short (conf_rest text f1)" using short g by (auto simp: goes_on_def)
    obtain ok2 f2 w2 where i: "ngx_conf_parse modules pread mem Parse_Block inner f1 w1 = Some (ok2, f2, w2)" "conf_left f2 \<le> conf_left f1"
      using conf_parse_ends [of modules pread mem Parse_Block inner f1 w1] by blast
    obtain rv w3 where v: "leave w2 = (rv, w3)" by (cases "leave w2")
    note ih = less.hyps [OF lt r(2) short1 _ i(1), of "(ty, ctx, leave) # stack"]
    have run: "conf_run modules stack ty ctx (conf_tokens (conf_rest text f)) w =
        conf_run modules ((ty, ctx, leave) # stack) Parse_Block inner (conf_tokens (conf_rest text f1)) w1"
      using tok g Parse_Inner by (auto simp: goes_on_def)
    show ?thesis
    proof (cases "ok2 \<and> rv = Rv_Ok")
      case False
      then have "\<not> ok \<and> f' = f2 \<and> w' = (if ok2 then w3 else w2)" using parse r(1) Parse_Inner i(1) v by auto
      then show ?thesis using ih run False v by (auto simp: conf_return_def)
    next
      case True
      then have "ngx_conf_parse modules pread mem ty ctx f2 w3 = Some (ok, f', w')" using parse r(1) Parse_Inner i(1) v by simp
      moreover have "conf_left f2 < conf_left f" using lt i(2) by simp
      ultimately show ?thesis using less.hyps [of f2 ty stack ctx w3 ok f' w'] ih run True v less.prems(3)
        by (auto simp: conf_return_def)
    qed
  qed
qed

section \<open>Which command is called\<close>

definition conf_named :: "string list \<Rightarrow> 'w ngx_command \<Rightarrow> bool" where
  "conf_named args cmd \<longleftrightarrow> cmd_name cmd = hd args"

definition conf_here :: "'w conf_context \<Rightarrow> nat \<Rightarrow> 'w ngx_command \<Rightarrow> bool" where
  \<comment> \<open>the command of a module of that type may stand in the context\<close>
  "conf_here ctx ty cmd \<longleftrightarrow>
     (ty = NGX_CONF_MODULE \<or> ty = ctx_module_type ctx) \<and> cmd_type cmd AND ctx_cmd_type ctx \<noteq> 0"

definition conf_checked :: "conf_rc \<Rightarrow> string list \<Rightarrow> 'w ngx_command \<Rightarrow> conf_refusal + 'w ngx_command" where
  "conf_checked rc args cmd =
     (if cmd_type cmd AND NGX_CONF_BLOCK = 0 \<and> rc \<noteq> Token_Ok then Inl Not_Terminated
      else if cmd_type cmd AND NGX_CONF_BLOCK \<noteq> 0 \<and> rc \<noteq> Block_Start then Inl No_Opening
      else if \<not> conf_args_ok (cmd_type cmd) (length args) then Inl Invalid_Number
      else Inr cmd)"

definition conf_candidates :: "'w conf_module list \<Rightarrow> 'w conf_context \<Rightarrow> string list \<Rightarrow> 'w ngx_command list" where
  "conf_candidates modules ctx args =
     concat (map (\<lambda>m. filter (\<lambda>cmd. conf_named args cmd \<and> conf_here ctx (mod_type m) cmd) (mod_commands m)) modules)"

lemma conf_commands_loop_eq:
  assumes "no_nul (hd args)" "\<forall>cmd \<in> set cmds. no_nul (cmd_name cmd)"
  shows "conf_commands_loop ctx ty rc args cmds found =
    (case filter (\<lambda>cmd. conf_named args cmd \<and> conf_here ctx ty cmd) cmds of
       [] \<Rightarrow> (None, found \<or> (\<exists>cmd \<in> set cmds. conf_named args cmd))
     | cmd # _ \<Rightarrow> (Some (conf_checked rc args cmd), True))"
  using assms(2)
proof (induction cmds arbitrary: found)
  case (Cons cmd cmds)
  have n: "conf_named args cmd \<longleftrightarrow> length (hd args) = length (cmd_name cmd) \<and> c_strcmp (hd args) (cmd_name cmd) = 0"
    using c_strcmp_eq_0 [OF assms(1)] Cons.prems by (auto simp: conf_named_def)
  have ih: "conf_commands_loop ctx ty rc args cmds found' =
    (case filter (\<lambda>cmd. conf_named args cmd \<and> conf_here ctx ty cmd) cmds of
       [] \<Rightarrow> (None, found' \<or> (\<exists>cmd \<in> set cmds. conf_named args cmd))
     | cmd # _ \<Rightarrow> (Some (conf_checked rc args cmd), True))" for found'
    by (rule Cons.IH) (use Cons.prems in simp)
  consider "conf_named args cmd" "conf_here ctx ty cmd" | "conf_named args cmd" "\<not> conf_here ctx ty cmd" | "\<not> conf_named args cmd"
    by blast
  then show ?case
  proof cases
    case 1
    then have h: "(ty \<noteq> NGX_CONF_MODULE \<and> ty \<noteq> ctx_module_type ctx) = False" "(cmd_type cmd AND ctx_cmd_type ctx = 0) = False"
      "(length (hd args) \<noteq> length (cmd_name cmd)) = False" "(c_strcmp (hd args) (cmd_name cmd) \<noteq> 0) = False"
      using n by (auto simp: conf_here_def)
    have "conf_commands_loop ctx ty rc args (cmd # cmds) found = (Some (conf_checked rc args cmd), True)"
      unfolding conf_commands_loop.simps Let_def h conf_checked_def by simp
    then show ?thesis using 1 by simp
  next
    case 2
    then have "conf_commands_loop ctx ty rc args (cmd # cmds) found = conf_commands_loop ctx ty rc args cmds True"
      using n by (auto simp: conf_here_def Let_def)
    moreover have "(found \<or> (\<exists>a \<in> set (cmd # cmds). conf_named args a)) = True"
      "(True \<or> (\<exists>a \<in> set cmds. conf_named args a)) = True" using 2 by auto
    moreover have "filter (\<lambda>cmd. conf_named args cmd \<and> conf_here ctx ty cmd) (cmd # cmds) =
        filter (\<lambda>cmd. conf_named args cmd \<and> conf_here ctx ty cmd) cmds" using 2 by simp
    ultimately show ?thesis by (simp only: ih)
  next
    case 3
    then have "conf_commands_loop ctx ty rc args (cmd # cmds) found = conf_commands_loop ctx ty rc args cmds found"
      using n by (auto simp: Let_def)
    moreover have "(\<exists>a \<in> set (cmd # cmds). conf_named args a) = (\<exists>a \<in> set cmds. conf_named args a)" using 3 by auto
    moreover have "filter (\<lambda>cmd. conf_named args cmd \<and> conf_here ctx ty cmd) (cmd # cmds) =
        filter (\<lambda>cmd. conf_named args cmd \<and> conf_here ctx ty cmd) cmds" using 3 by simp
    ultimately show ?thesis by (simp only: ih)
  qed
qed simp

lemma conf_modules_loop_eq:
  assumes "no_nul (hd args)" "\<forall>m \<in> set modules. \<forall>cmd \<in> set (mod_commands m). no_nul (cmd_name cmd)"
  shows "conf_modules_loop ctx rc args modules found =
    (case conf_candidates modules ctx args of
       [] \<Rightarrow> Inl (if found \<or> (\<exists>m \<in> set modules. \<exists>cmd \<in> set (mod_commands m). conf_named args cmd)
                  then Not_Allowed_Here else Unknown_Directive)
     | cmd # _ \<Rightarrow> conf_checked rc args cmd)"
  using assms(2)
proof (induction modules arbitrary: found)
  case (Cons m ms)
  let ?here = "filter (\<lambda>cmd. conf_named args cmd \<and> conf_here ctx (mod_type m) cmd) (mod_commands m)"
  have c: "conf_candidates (m # ms) ctx args = ?here @ conf_candidates ms ctx args" by (simp add: conf_candidates_def)
  have l: "\<forall>cmd \<in> set (mod_commands m). no_nul (cmd_name cmd)" using Cons.prems by simp
  note l = conf_commands_loop_eq [OF assms(1) l, of ctx "mod_type m" rc found]
  show ?case
  proof (cases ?here)
    case Nil
    then have "conf_modules_loop ctx rc args (m # ms) found =
        conf_modules_loop ctx rc args ms (found \<or> (\<exists>cmd \<in> set (mod_commands m). conf_named args cmd))"
      using l by simp
    also have "\<dots> = (case conf_candidates ms ctx args of
       [] \<Rightarrow> Inl (if (found \<or> (\<exists>cmd \<in> set (mod_commands m). conf_named args cmd)) \<or>
                     (\<exists>m \<in> set ms. \<exists>cmd \<in> set (mod_commands m). conf_named args cmd)
                  then Not_Allowed_Here else Unknown_Directive)
     | cmd # _ \<Rightarrow> conf_checked rc args cmd)"
      by (rule Cons.IH) (use Cons.prems in simp)
    finally show ?thesis unfolding c Nil append_Nil by (simp only: list.set bex_simps disj_assoc)
  next
    case (Cons cmd cmds)
    then show ?thesis using l unfolding c by simp
  qed
qed (simp add: conf_candidates_def)

lemma conf_parse_file_run:
  assumes "pread_ok pread text" "\<And>n. mem n" "conf_short text"
  shows "ngx_conf_parse_file modules (True, True, True, True) pread (length text) mem ctx w =
    Some (conf_run modules [] Parse_File ctx (conf_tokens text) w)"
proof -
  let ?f = "\<lparr>b_data = [], b_pos = 0, file_offset = 0, file_size = length text, conf_line = 1\<rparr>"
  have f: "conf_file_ok text ?f" "conf_rest text ?f = text" by (simp_all add: conf_file_ok_def conf_rest_def)
  obtain ok f' w' where p: "ngx_conf_parse modules pread mem Parse_File ctx ?f w = Some (ok, f', w')"
    using conf_parse_ends [of modules pread mem Parse_File ctx ?f w] by blast
  then have "conf_run modules [] Parse_File ctx (conf_tokens text) w = (ok, w')"
    using conf_parse_run [where mem = mem, OF assms(1,2) f(1) _ _ p, of "[]"] assms(3) f(2)
    by (simp add: conf_return_def)
  then show ?thesis using p by (simp add: ngx_conf_parse_file_def)
qed

lemma lex_span_length: "lex_span n m args text \<le> n + length text"
proof (induction "text" arbitrary: n m args)
  case (Cons c cs)
  have "lex_span (lex_width c n m) m' as cs \<le> n + length (c # cs)" for m' as
    using Cons.IH [of "lex_width c n m" m' as] lex_width_le [of c n m] by simp
  then show ?case by (auto split: sum.split)
qed simp

lemma conf_short_length: "length text < NGX_CONF_BUFFER \<Longrightarrow> conf_short text"
proof (induction "text" rule: conf_short.induct)
  case (1 "text")
  obtain rc args rest where l: "conf_lex Lex_Blank [] text = (rc, args, rest)" by (metis prod_cases3)
  have "length rest < NGX_CONF_BUFFER" using conf_lex_rest(1) [OF l] 1(2) by simp
  then have "goes_on rc \<Longrightarrow> conf_short rest" using 1(1) [OF l [symmetric] refl] by simp
  then show ?case using l lex_span_length [of 0 Lex_Blank "[]" "text"] 1(2) by (subst conf_short.simps) simp
qed

section \<open>Properties\<close>

text \<open>The command of a directive, for words and names of commands without a NUL: among the commands of that name in all modules, in their order, those whose module and type
  allow the context count, and the first of them decides: it is called when the statement ends with a semicolon or, for a
  block, with a brace, and the number of words fits its type.  Without one the directive is refused as misplaced when
  some module has a command of that name, and as unknown otherwise.\<close>
theorem conf_handler_correct:
  assumes "no_nul (hd args)" "\<forall>m \<in> set modules. \<forall>cmd \<in> set (mod_commands m). no_nul (cmd_name cmd)"
  shows "ngx_conf_handler modules ctx rc args =
    (case conf_candidates modules ctx args of
       [] \<Rightarrow> Inl (if \<exists>m \<in> set modules. \<exists>cmd \<in> set (mod_commands m). conf_named args cmd then Not_Allowed_Here else Unknown_Directive)
     | cmd # _ \<Rightarrow> conf_checked rc args cmd)"
  using conf_modules_loop_eq [OF assms, of ctx rc False] by (simp only: ngx_conf_handler_def simp_thms)

text \<open>C25. The parser of a file that is opened ends, whatever the file, the reads of it and their failures, the allocations and the
  commands are (a command is a function of the model, and so one that returns): every turn of its loop takes at least one
  character, in the blocks too.\<close>
theorem conf_parse_terminates:
  "\<exists>ok w'. ngx_conf_parse_file modules (True, True, True, True) pread fsize mem ctx w = Some (ok, w')"
proof -
  obtain ok f' w' where "ngx_conf_parse modules pread mem Parse_File ctx
      \<lparr>b_data = [], b_pos = 0, file_offset = 0, file_size = fsize, conf_line = 1\<rparr> w = Some (ok, f', w')"
    using conf_parse_ends [of modules pread mem Parse_File ctx] by metis
  then show ?thesis by (simp add: ngx_conf_parse_file_def)
qed

text \<open>C24. The parser, which is called again by the commands of blocks and reads through a buffer, does what a machine does that
  has the statements of the whole text as a list and the open blocks on a stack: it calls the same commands
  in the same order and contexts on the same words, and fails at the same place.  This is so when the file is opened and closed,
  the reads of it and the allocations succeed, and no parameter and no comment of it is too long for the buffer of 4096 bytes.\<close>
theorem conf_parse_equivalence:
  assumes "pread_ok pread text" "\<And>n. mem n" "conf_short text"
  shows "ngx_conf_parse_file modules (True, True, True, True) pread (length text) mem ctx w =
    Some (conf_run modules [] Parse_File ctx (conf_tokens text) w)"
  by (rule conf_parse_file_run [where mem = mem, OF assms])

section \<open>Witnesses\<close>

definition sample_modules :: "string list conf_module list" where
  \<comment> \<open>a block and a directive that records its argument\<close>
  "sample_modules =
     [\<lparr>mod_type = 1, mod_commands =
         [\<lparr>cmd_name = ''http'', cmd_type = 0x1000001 OR NGX_CONF_BLOCK,
           cmd_set = Set_Block (\<lambda>args w. (Some \<lparr>ctx_module_type = 2, ctx_cmd_type = 0x2000000, ctx_handler = None\<rparr>, w)) (\<lambda>w. (Rv_Ok, w))\<rparr>]\<rparr>,
      \<lparr>mod_type = 2, mod_commands =
         [\<lparr>cmd_name = ''rate'', cmd_type = 0x2000000 OR NGX_CONF_TAKE1,
           cmd_set = Set_Directive (\<lambda>args w. (Rv_Ok, w @ tl args))\<rparr>]\<rparr>]"

definition sample_context :: "string list conf_context" where
  "sample_context = \<lparr>ctx_module_type = 1, ctx_cmd_type = 0x1000000, ctx_handler = None\<rparr>"

theorem conf_handler_correct_witness:
  "ngx_conf_handler sample_modules sample_context Token_Ok [''rate'', ''5''] = Inl Not_Allowed_Here"
  by (subst conf_handler_correct)
    (simp_all add: sample_modules_def cval_def conf_candidates_def conf_named_def conf_here_def sample_context_def NGX_CONF_MODULE_def)

definition sample_statements :: string where
  "sample_statements = ''http { rate 5; }''"

theorem conf_parse_equivalence_witness:
  "ngx_conf_parse_file sample_modules (True, True, True, True)
     (\<lambda>offset n. Some (take n (drop offset sample_statements))) (length sample_statements) (\<lambda>_. True) sample_context [] =
   Some (True, [''5''])"
proof -
  have l: "conf_lex Lex_Blank [] sample_statements = (Block_Start, [''http''], '' rate 5; }'')"
    "conf_lex Lex_Blank [] '' rate 5; }'' = (Token_Ok, [''rate'', ''5''], '' }'')"
    "conf_lex Lex_Blank [] '' }'' = (Block_Done, [], [])" "conf_lex Lex_Blank [] [] = (File_Done, [], [])"
    by (simp_all add: sample_statements_def lex_first_def conf_blank_def)
  have sp: "lex_span 0 Lex_Blank [] sample_statements < NGX_CONF_BUFFER" "lex_span 0 Lex_Blank [] '' rate 5; }'' < NGX_CONF_BUFFER"
    "lex_span 0 Lex_Blank [] '' }'' < NGX_CONF_BUFFER" "lex_span 0 Lex_Blank [] [] < NGX_CONF_BUFFER"
    by (simp_all add: sample_statements_def lex_first_def conf_blank_def lex_width_def NGX_CONF_BUFFER_def)
  note c = conf_short.simps [of sample_statements] conf_short.simps [of "'' rate 5; }''"] conf_short.simps [of "'' }''"]
    conf_short.simps [of "[]"]
  note t = conf_tokens.simps [of sample_statements] conf_tokens.simps [of "'' rate 5; }''"] conf_tokens.simps [of "'' }''"]
    conf_tokens.simps [of "[]"]
  have short: "conf_short sample_statements" by (simp add: c l sp goes_on_def del: conf_lex.simps lex_span.simps)
  have tok: "conf_tokens sample_statements =
      [(Block_Start, [''http'']), (Token_Ok, [''rate'', ''5'']), (Block_Done, []), (File_Done, [])]"
    by (simp add: t l goes_on_def del: conf_lex.simps)
  have h: "ngx_conf_handler sample_modules sample_context Block_Start [''http''] = Inr (hd (mod_commands (sample_modules ! 0)))"
    "ngx_conf_handler sample_modules \<lparr>ctx_module_type = 2, ctx_cmd_type = 0x2000000, ctx_handler = None\<rparr> Token_Ok [''rate'', ''5''] =
      Inr (hd (mod_commands (sample_modules ! 1)))"
    by (simp_all add: ngx_conf_handler_def sample_modules_def sample_context_def c_strcmp_eq_0 cval_def
        NGX_CONF_MODULE_def NGX_CONF_BLOCK_def conf_args_ok_def NGX_CONF_ANY_def NGX_CONF_FLAG_def NGX_CONF_1MORE_def
        NGX_CONF_2MORE_def NGX_CONF_MAX_ARGS_def argument_number_def NGX_CONF_NOARGS_def NGX_CONF_TAKE1_def)
  have run: "conf_run sample_modules [] Parse_File sample_context (conf_tokens sample_statements) [] = (True, [''5''])"
    unfolding tok using h by (simp add: conf_statement_def conf_called_def sample_modules_def sample_context_def)
  show ?thesis
    using conf_parse_equivalence [OF _ _ short, of "\<lambda>offset n. Some (take n (drop offset sample_statements))" "\<lambda>_. True"
        sample_modules sample_context "[]"] run by (simp add: pread_ok_def)
qed

end
