(* ===== verification/Ngx_Conf_Slots.thy ===== *)
theory Ngx_Conf_Slots
  imports Ngx_Conf_Parse Limit_Req_Conf
begin

text \<open>
  The \<open>set\<close> functions that \<open>core/ngx_conf_file.c\<close> offers to the modules, \<open>ngx_conf_set_flag_slot\<close> to
  \<open>ngx_conf_set_bitmask_slot\<close>, and the table of commands of the limiter, which uses them for its settings.  A
  function is given the words of the statement and the value of the field and returns its new value.

  A field that is set once keeps its value: this is a contract that the functions share, and from it follows how
  often a directive may stand in a level of the configuration.
\<close>

section \<open>The functions\<close>

type_synonym conf_post = "(int \<Rightarrow> conf_rv \<times> int) option"   \<comment> \<open>\<open>cmd->post\<close>, given the field\<close>

definition conf_post :: "conf_post \<Rightarrow> int \<Rightarrow> conf_rv \<times> int" where
  "conf_post post v = (case post of None \<Rightarrow> (Rv_Ok, v) | Some handler \<Rightarrow> handler v)"

abbreviation (input) is_duplicate :: conf_rv where "is_duplicate \<equiv> Rv_Message ''is duplicate''"
abbreviation (input) invalid_value :: conf_rv where "invalid_value \<equiv> Rv_Message ''invalid value''"

definition ngx_conf_set_flag_slot :: "conf_post \<Rightarrow> string list \<Rightarrow> int \<Rightarrow> conf_rv \<times> int" where
  "ngx_conf_set_flag_slot post value fp =
     (if fp \<noteq> NGX_CONF_UNSET then (is_duplicate, fp)
      else if ngx_strcasecmp (value ! 1) ''on'' = 0 then conf_post post 1
      else if ngx_strcasecmp (value ! 1) ''off'' = 0 then conf_post post 0
      else (Rv_Error, fp))"

definition ngx_conf_set_str_slot ::
    "(string \<Rightarrow> conf_rv \<times> string) option \<Rightarrow> string list \<Rightarrow> string option \<Rightarrow> conf_rv \<times> string option" where
  "ngx_conf_set_str_slot post value field =
     (if field \<noteq> None then (is_duplicate, field)
      else
        (case post of
           None \<Rightarrow> (Rv_Ok, Some (value ! 1))
         | Some handler \<Rightarrow> (case handler (value ! 1) of (rv, s) \<Rightarrow> (rv, Some s))))"

definition ngx_conf_set_str_array_slot ::
    "bool \<Rightarrow> bool \<Rightarrow> (string \<Rightarrow> conf_rv \<times> string) option \<Rightarrow> string list \<Rightarrow> string list option \<Rightarrow> conf_rv \<times> string list option" where
  \<comment> \<open>the flags are the success of the allocations; \<open>None\<close> is the value before the first word.  When the array cannot be
      created the code leaves \<open>NULL\<close>, and the parser stops\<close>
  "ngx_conf_set_str_array_slot create_ok push_ok post value a =
     (if a = None \<and> \<not> create_ok then (Rv_Error, a)
      else
        let ss = (case a of None \<Rightarrow> [] | Some ss \<Rightarrow> ss)
        in if \<not> push_ok then (Rv_Error, Some ss)
           else
             (case post of
                None \<Rightarrow> (Rv_Ok, Some (ss @ [value ! 1]))
              | Some handler \<Rightarrow> (case handler (value ! 1) of (rv, s) \<Rightarrow> (rv, Some (ss @ [s])))))"

definition ngx_conf_set_keyval_slot ::
    "bool \<Rightarrow> bool \<Rightarrow> (string \<times> string \<Rightarrow> conf_rv \<times> string \<times> string) option \<Rightarrow> string list \<Rightarrow>
     (string \<times> string) list option \<Rightarrow> conf_rv \<times> (string \<times> string) list option" where
  "ngx_conf_set_keyval_slot create_ok push_ok post value a =
     (if a = None \<and> \<not> create_ok then (Rv_Error, a)
      else
        let kvs = (case a of None \<Rightarrow> [] | Some kvs \<Rightarrow> kvs)
        in if \<not> push_ok then (Rv_Error, Some kvs)
           else
             (case post of
                None \<Rightarrow> (Rv_Ok, Some (kvs @ [(value ! 1, value ! 2)]))
              | Some handler \<Rightarrow> (case handler (value ! 1, value ! 2) of (rv, kv) \<Rightarrow> (rv, Some (kvs @ [kv])))))"

definition ngx_conf_set_num_slot :: "conf_post \<Rightarrow> string list \<Rightarrow> int \<Rightarrow> conf_rv \<times> int" where
  "ngx_conf_set_num_slot post value np =
     (if np \<noteq> NGX_CONF_UNSET then (is_duplicate, np)
      else
        let np = ngx_atoi (value ! 1) (length (value ! 1))
        in if np = NGX_ERROR then (Rv_Message ''invalid number'', np) else conf_post post np)"

definition ngx_conf_set_size_slot :: "conf_post \<Rightarrow> string list \<Rightarrow> int \<Rightarrow> conf_rv \<times> int" where
  "ngx_conf_set_size_slot post value sp =
     (if sp \<noteq> NGX_CONF_UNSET then (is_duplicate, sp)
      else
        let sp = ngx_parse_size (value ! 1)
        in if sp = NGX_ERROR then (invalid_value, sp) else conf_post post sp)"

definition ngx_conf_set_off_slot :: "conf_post \<Rightarrow> string list \<Rightarrow> int \<Rightarrow> conf_rv \<times> int" where
  "ngx_conf_set_off_slot post value op =
     (if op \<noteq> NGX_CONF_UNSET then (is_duplicate, op)
      else
        let op = ngx_parse_offset (value ! 1)
        in if op = NGX_ERROR then (invalid_value, op) else conf_post post op)"

definition ngx_conf_set_msec_slot :: "conf_post \<Rightarrow> string list \<Rightarrow> int \<Rightarrow> conf_rv \<times> int" where
  "ngx_conf_set_msec_slot post value msp =
     (if msp \<noteq> NGX_CONF_UNSET then (is_duplicate, msp)
      else
        let msp = ngx_parse_time (value ! 1) False
        in if msp = NGX_ERROR then (invalid_value, msp) else conf_post post msp)"

definition ngx_conf_set_sec_slot :: "conf_post \<Rightarrow> string list \<Rightarrow> int \<Rightarrow> conf_rv \<times> int" where
  "ngx_conf_set_sec_slot post value sp =
     (if sp \<noteq> NGX_CONF_UNSET then (is_duplicate, sp)
      else
        let sp = ngx_parse_time (value ! 1) True
        in if sp = NGX_ERROR then (invalid_value, sp) else conf_post post sp)"

definition ngx_conf_set_bufs_slot :: "string list \<Rightarrow> int \<times> int \<Rightarrow> conf_rv \<times> int \<times> int" where
  \<comment> \<open>\<open>num\<close> and \<open>size\<close>\<close>
  "ngx_conf_set_bufs_slot value bufs =
     (if fst bufs \<noteq> 0 then (is_duplicate, bufs)
      else
        let num = ngx_atoi (value ! 1) (length (value ! 1))
        in if num = NGX_ERROR \<or> num = 0 then (invalid_value, num, snd bufs)
           else
             let sz = ngx_parse_size (value ! 2)
             in if sz = NGX_ERROR \<or> sz = 0 then (invalid_value, num, sz) else (Rv_Ok, num, sz))"

fun enum_find :: "(string \<times> int) list \<Rightarrow> string \<Rightarrow> int option" where
  "enum_find [] s = None"
| "enum_find ((name, v) # es) s =
     (if length name \<noteq> length s \<or> ngx_strcasecmp name s \<noteq> 0 then enum_find es s else Some v)"

definition ngx_conf_set_enum_slot :: "(string \<times> int) list \<Rightarrow> string list \<Rightarrow> int \<Rightarrow> conf_rv \<times> int" where
  "ngx_conf_set_enum_slot e value np =
     (if np \<noteq> NGX_CONF_UNSET then (is_duplicate, np)
      else (case enum_find e (value ! 1) of Some v \<Rightarrow> (Rv_Ok, v) | None \<Rightarrow> (Rv_Error, np)))"

fun bitmask_find :: "(string \<times> ngx_uint_t) list \<Rightarrow> string \<Rightarrow> ngx_uint_t option" where
  "bitmask_find [] s = None"
| "bitmask_find ((name, m) # ms) s =
     (if length name \<noteq> length s \<or> ngx_strcasecmp name s \<noteq> 0 then bitmask_find ms s else Some m)"

fun bitmask_loop :: "(string \<times> ngx_uint_t) list \<Rightarrow> string list \<Rightarrow> ngx_uint_t \<Rightarrow> conf_rv \<times> ngx_uint_t" where
  "bitmask_loop masks [] np = (Rv_Ok, np)"
| "bitmask_loop masks (v # vs) np =
     (case bitmask_find masks v of
        None \<Rightarrow> (Rv_Error, np)
      | Some m \<Rightarrow> bitmask_loop masks vs (if np AND m \<noteq> 0 then np else np OR m))"

definition ngx_conf_set_bitmask_slot :: "(string \<times> ngx_uint_t) list \<Rightarrow> string list \<Rightarrow> ngx_uint_t \<Rightarrow> conf_rv \<times> ngx_uint_t" where
  "ngx_conf_set_bitmask_slot masks value np = bitmask_loop masks (tl value) np"

definition ngx_conf_check_num_bounds :: "int \<Rightarrow> int \<Rightarrow> int \<Rightarrow> conf_rv \<times> int" where
  "ngx_conf_check_num_bounds low high np =
     (if high = -1 then (if low \<le> np then (Rv_Ok, np) else (Rv_Error, np))
      else if low \<le> np \<and> np \<le> high then (Rv_Ok, np) else (Rv_Error, np))"

section \<open>What a field promises\<close>

fun set_all :: "(string list \<Rightarrow> 'v \<Rightarrow> conf_rv \<times> 'v) \<Rightarrow> string list list \<Rightarrow> 'v \<Rightarrow> bool \<times> 'v" where
  \<comment> \<open>the statements of a level for one field, up to the first that is refused\<close>
  "set_all set_slot [] v = (True, v)"
| "set_all set_slot (value # vs) v =
     (case set_slot value v of (rv, v) \<Rightarrow> if rv = Rv_Ok then set_all set_slot vs v else (False, v))"

locale conf_slot =
  fixes set_slot :: "string list \<Rightarrow> 'v \<Rightarrow> conf_rv \<times> 'v"
    and unset :: "'v \<Rightarrow> bool"
  assumes refused: "\<not> unset v \<Longrightarrow> set_slot value v = (is_duplicate, v)"
    and stored: "unset v \<Longrightarrow> set_slot value v = (Rv_Ok, v') \<Longrightarrow> \<not> unset v'"
begin

lemma once:
  assumes "unset v" "set_all set_slot vs v = (True, v')"
  shows "vs = [] \<and> v' = v \<or> (\<exists>x. vs = [x] \<and> set_slot x v = (Rv_Ok, v'))"
proof (cases vs)
  case Nil
  then show ?thesis using assms by simp
next
  case (Cons x ws)
  obtain rv v1 where s: "set_slot x v = (rv, v1)" by (cases "set_slot x v")
  then have "rv = Rv_Ok" "set_all set_slot ws v1 = (True, v')" using assms(2) Cons by (auto split: if_splits)
  moreover have "\<not> unset v1" using stored [OF assms(1)] s \<open>rv = Rv_Ok\<close> by simp
  ultimately show ?thesis using s Cons refused by (cases ws) auto
qed

lemma kept: "\<not> unset v \<Longrightarrow> snd (set_all set_slot vs v) = v"
  by (cases vs) (simp_all add: refused)

end

lemma conf_post_None: "conf_post None v = (Rv_Ok, v)"
  by (simp add: conf_post_def)

interpretation flag_slot: conf_slot "ngx_conf_set_flag_slot None" "\<lambda>v. v = -1"
  by unfold_locales (auto simp: ngx_conf_set_flag_slot_def conf_post_None split: if_splits)

interpretation str_slot: conf_slot "ngx_conf_set_str_slot post" "\<lambda>v. v = None"
  by unfold_locales (auto simp: ngx_conf_set_str_slot_def split: if_splits option.splits prod.splits)

interpretation num_slot: conf_slot "ngx_conf_set_num_slot None" "\<lambda>v. v = -1"
  by unfold_locales (auto simp: ngx_conf_set_num_slot_def conf_post_None Let_def split: if_splits)

interpretation status_slot: conf_slot "ngx_conf_set_num_slot (Some (ngx_conf_check_num_bounds 400 599))" "\<lambda>v. v = -1"
  by unfold_locales
    (auto simp: ngx_conf_set_num_slot_def conf_post_def ngx_conf_check_num_bounds_def Let_def split: if_splits)

interpretation size_slot: conf_slot "ngx_conf_set_size_slot None" "\<lambda>v. v = -1"
  by unfold_locales (auto simp: ngx_conf_set_size_slot_def conf_post_None Let_def split: if_splits)

interpretation off_slot: conf_slot "ngx_conf_set_off_slot None" "\<lambda>v. v = -1"
  by unfold_locales (auto simp: ngx_conf_set_off_slot_def conf_post_None Let_def split: if_splits)

interpretation msec_slot: conf_slot "ngx_conf_set_msec_slot None" "\<lambda>v. v = -1"
  by unfold_locales (auto simp: ngx_conf_set_msec_slot_def conf_post_None Let_def split: if_splits)

interpretation sec_slot: conf_slot "ngx_conf_set_sec_slot None" "\<lambda>v. v = -1"
  by unfold_locales (auto simp: ngx_conf_set_sec_slot_def conf_post_None Let_def split: if_splits)

interpretation bufs_slot: conf_slot ngx_conf_set_bufs_slot "\<lambda>v. fst v = 0"
  by unfold_locales (auto simp: ngx_conf_set_bufs_slot_def Let_def split: if_splits)

definition ngx_http_limit_req_log_levels :: "(string \<times> int) list" where
  "ngx_http_limit_req_log_levels = [(''info'', 7), (''notice'', 6), (''warn'', 5), (''error'', 4)]"

interpretation level_slot: conf_slot "ngx_conf_set_enum_slot ngx_http_limit_req_log_levels" "\<lambda>v. v = -1"
  by unfold_locales
    (auto simp: ngx_conf_set_enum_slot_def ngx_http_limit_req_log_levels_def split: if_splits option.splits)

section \<open>The commands of the limiter\<close>

definition NGX_HTTP_MODULE :: nat where "NGX_HTTP_MODULE = 0x50545448"
definition NGX_HTTP_MAIN_CONF :: ngx_uint_t where "NGX_HTTP_MAIN_CONF = 0x02000000"
definition NGX_HTTP_SRV_CONF :: ngx_uint_t where "NGX_HTTP_SRV_CONF = 0x04000000"
definition NGX_HTTP_LOC_CONF :: ngx_uint_t where "NGX_HTTP_LOC_CONF = 0x08000000"

record limit_req_level =      \<comment> \<open>what the commands of the limiter change\<close>
  lv_zones :: "shm_zone list"
  lv_conf :: lr_conf          \<comment> \<open>of the level that is read\<close>

definition lr_conf_rv :: "lr_conf_error \<Rightarrow> conf_rv" where
  "lr_conf_rv e = (if e = Is_Duplicate then is_duplicate else Rv_Error)"

definition set_field ::
    "(string list \<Rightarrow> int \<Rightarrow> conf_rv \<times> int) \<Rightarrow> (lr_conf \<Rightarrow> int) \<Rightarrow> (int \<Rightarrow> lr_conf \<Rightarrow> lr_conf) \<Rightarrow> limit_req_level conf_set" where
  \<comment> \<open>a slot of the configuration at an offset\<close>
  "set_field slot get put =
     Set_Directive (\<lambda>value w. case slot value (get (lv_conf w)) of (rv, v) \<Rightarrow> (rv, w\<lparr>lv_conf := put v (lv_conf w)\<rparr>))"

definition ngx_http_limit_req_commands :: "int \<Rightarrow> limit_req_level ngx_command list" where
  \<comment> \<open>with the size of a page; every allocation succeeds\<close>
  "ngx_http_limit_req_commands pagesize =
     [\<lparr>cmd_name = ''limit_req_zone'', cmd_type = NGX_HTTP_MAIN_CONF OR NGX_CONF_TAKE3,
       cmd_set = Set_Directive (\<lambda>value w.
         case ngx_http_limit_req_zone True True True pagesize (tl value) (lv_zones w) of
           Inl e \<Rightarrow> (lr_conf_rv e, w)
         | Inr zones \<Rightarrow> (Rv_Ok, w\<lparr>lv_zones := zones\<rparr>))\<rparr>,
      \<lparr>cmd_name = ''limit_req'',
       cmd_type = NGX_HTTP_MAIN_CONF OR NGX_HTTP_SRV_CONF OR NGX_HTTP_LOC_CONF OR (NGX_CONF_TAKE1 OR NGX_CONF_TAKE2 OR NGX_CONF_TAKE3),
       cmd_set = Set_Directive (\<lambda>value w.
         case ngx_http_limit_req True True True (tl value) (lv_conf w) (lv_zones w) of
           Inl e \<Rightarrow> (lr_conf_rv e, w)
         | Inr (conf, zones) \<Rightarrow> (Rv_Ok, \<lparr>lv_zones = zones, lv_conf = conf\<rparr>))\<rparr>,
      \<lparr>cmd_name = ''limit_req_log_level'', cmd_type = NGX_HTTP_MAIN_CONF OR NGX_HTTP_SRV_CONF OR NGX_HTTP_LOC_CONF OR NGX_CONF_TAKE1,
       cmd_set = set_field (ngx_conf_set_enum_slot ngx_http_limit_req_log_levels)
         (\<lambda>c. sint (lc_limit_log_level c)) (\<lambda>v c. c\<lparr>lc_limit_log_level := word_of_int v\<rparr>)\<rparr>,
      \<lparr>cmd_name = ''limit_req_status'', cmd_type = NGX_HTTP_MAIN_CONF OR NGX_HTTP_SRV_CONF OR NGX_HTTP_LOC_CONF OR NGX_CONF_TAKE1,
       cmd_set = set_field (ngx_conf_set_num_slot (Some (ngx_conf_check_num_bounds 400 599)))
         (\<lambda>c. sint (lc_status_code c)) (\<lambda>v c. c\<lparr>lc_status_code := word_of_int v\<rparr>)\<rparr>,
      \<lparr>cmd_name = ''limit_req_dry_run'', cmd_type = NGX_HTTP_MAIN_CONF OR NGX_HTTP_SRV_CONF OR NGX_HTTP_LOC_CONF OR NGX_CONF_FLAG,
       cmd_set = set_field (ngx_conf_set_flag_slot None) lc_dry_run (\<lambda>v c. c\<lparr>lc_dry_run := v\<rparr>)\<rparr>]"

definition ngx_http_limit_req_module :: "int \<Rightarrow> limit_req_level conf_module" where
  "ngx_http_limit_req_module pagesize =
     \<lparr>mod_type = NGX_HTTP_MODULE, mod_commands = ngx_http_limit_req_commands pagesize\<rparr>"

section \<open>The settings of a level\<close>

datatype limit_req_setting = Log_Level | Status | Dry_Run

fun setting_name :: "limit_req_setting \<Rightarrow> string" where
  "setting_name Log_Level = ''limit_req_log_level''"
| "setting_name Status = ''limit_req_status''"
| "setting_name Dry_Run = ''limit_req_dry_run''"

fun setting_slot :: "limit_req_setting \<Rightarrow> string list \<Rightarrow> int \<Rightarrow> conf_rv \<times> int" where
  "setting_slot Log_Level = ngx_conf_set_enum_slot ngx_http_limit_req_log_levels"
| "setting_slot Status = ngx_conf_set_num_slot (Some (ngx_conf_check_num_bounds 400 599))"
| "setting_slot Dry_Run = ngx_conf_set_flag_slot None"

fun setting_of :: "limit_req_setting \<Rightarrow> lr_conf \<Rightarrow> int" where
  "setting_of Log_Level c = sint (lc_limit_log_level c)"
| "setting_of Status c = sint (lc_status_code c)"
| "setting_of Dry_Run c = lc_dry_run c"

fun put_setting :: "limit_req_setting \<Rightarrow> int \<Rightarrow> lr_conf \<Rightarrow> lr_conf" where
  "put_setting Log_Level v c = c\<lparr>lc_limit_log_level := word_of_int v\<rparr>"
| "put_setting Status v c = c\<lparr>lc_status_code := word_of_int v\<rparr>"
| "put_setting Dry_Run v c = c\<lparr>lc_dry_run := v\<rparr>"

fun setting_value :: "limit_req_setting \<Rightarrow> string \<Rightarrow> int option" where
  \<comment> \<open>what a word stands for\<close>
  "setting_value Log_Level s = enum_find ngx_http_limit_req_log_levels s"
| "setting_value Status s =
     (let n = ngx_atoi s (length s) in if 400 \<le> n \<and> n \<le> 599 then Some n else None)"
| "setting_value Dry_Run s =
     (if ngx_strcasecmp s ''on'' = 0 then Some 1 else if ngx_strcasecmp s ''off'' = 0 then Some 0 else None)"

interpretation setting: conf_slot "setting_slot k" "\<lambda>v. v = -1"
  by (cases k) (simp_all add: level_slot.conf_slot_axioms status_slot.conf_slot_axioms flag_slot.conf_slot_axioms)

lemma setting_slot_ok:
  "setting_slot k [name, s] (-1) = (Rv_Ok, v) \<longleftrightarrow> setting_value k s = Some v"
  by (cases k)
    (auto simp: ngx_conf_set_enum_slot_def ngx_conf_set_num_slot_def ngx_conf_set_flag_slot_def conf_post_def
      ngx_conf_check_num_bounds_def Let_def split: option.splits)

lemma setting_value_range: "setting_value k s = Some v \<Longrightarrow> 0 \<le> v \<and> v < 1000"
  by (cases k) (auto simp: ngx_http_limit_req_log_levels_def Let_def split: if_splits)

lemma setting_of_put:
  "setting_of k (put_setting k v c) = (if k = Dry_Run then v else sint (word_of_int v :: 64 word))"
  "k \<noteq> k' \<Longrightarrow> setting_of k' (put_setting k v c) = setting_of k' c"
  by (cases k; cases k'; simp)+

lemmas conf_type_defs = NGX_HTTP_MAIN_CONF_def NGX_HTTP_SRV_CONF_def NGX_HTTP_LOC_CONF_def NGX_CONF_TAKE1_def NGX_CONF_TAKE2_def
  NGX_CONF_TAKE3_def NGX_CONF_FLAG_def NGX_CONF_BLOCK_def NGX_CONF_ANY_def NGX_CONF_1MORE_def NGX_CONF_2MORE_def
  NGX_CONF_MAX_ARGS_def NGX_CONF_NOARGS_def conf_args_ok_def argument_number_def

definition http_context :: "'w conf_context \<Rightarrow> bool" where
  \<comment> \<open>inside \<open>http\<close>, \<open>server\<close> or \<open>location\<close>\<close>
  "http_context ctx \<longleftrightarrow> ctx_module_type ctx = NGX_HTTP_MODULE \<and> ctx_handler ctx = None \<and>
     ctx_cmd_type ctx \<in> {NGX_HTTP_MAIN_CONF, NGX_HTTP_SRV_CONF, NGX_HTTP_LOC_CONF}"

lemma limit_req_setting_found:
  assumes "http_context ctx"
  shows "conf_statement [ngx_http_limit_req_module pagesize] ty ctx Token_Ok [setting_name k, s] w =
    conf_called (case setting_slot k [setting_name k, s] (setting_of k (lv_conf w)) of
      (rv, v) \<Rightarrow> (rv, w\<lparr>lv_conf := put_setting k v (lv_conf w)\<rparr>))"
proof -
  have c: "conf_args_ok (NGX_HTTP_MAIN_CONF OR NGX_HTTP_SRV_CONF OR NGX_HTTP_LOC_CONF OR NGX_CONF_TAKE1) (Suc (Suc 0))"
    "conf_args_ok (NGX_HTTP_MAIN_CONF OR NGX_HTTP_SRV_CONF OR NGX_HTTP_LOC_CONF OR NGX_CONF_FLAG) (Suc (Suc 0))"
    by (simp_all add: conf_type_defs)
  have b: "(NGX_HTTP_MAIN_CONF OR NGX_HTTP_SRV_CONF OR NGX_HTTP_LOC_CONF OR NGX_CONF_TAKE1) AND NGX_CONF_BLOCK = 0"
    "(NGX_HTTP_MAIN_CONF OR NGX_HTTP_SRV_CONF OR NGX_HTTP_LOC_CONF OR NGX_CONF_FLAG) AND NGX_CONF_BLOCK = 0"
    by (simp_all add: conf_type_defs)
  have t: "(NGX_HTTP_MAIN_CONF OR NGX_HTTP_SRV_CONF OR NGX_HTTP_LOC_CONF OR NGX_CONF_TAKE1) AND ctx_cmd_type ctx \<noteq> 0"
    "(NGX_HTTP_MAIN_CONF OR NGX_HTTP_SRV_CONF OR NGX_HTTP_LOC_CONF OR NGX_CONF_FLAG) AND ctx_cmd_type ctx \<noteq> 0"
    using assms by (auto simp: http_context_def conf_type_defs)
  have e: "setting_of Log_Level = (\<lambda>c. sint (lc_limit_log_level c))" "setting_of Status = (\<lambda>c. sint (lc_status_code c))"
    "setting_of Dry_Run = lc_dry_run" "put_setting Log_Level = (\<lambda>v c. c\<lparr>lc_limit_log_level := word_of_int v\<rparr>)"
    "put_setting Status = (\<lambda>v c. c\<lparr>lc_status_code := word_of_int v\<rparr>)" "put_setting Dry_Run = (\<lambda>v c. c\<lparr>lc_dry_run := v\<rparr>)"
    by (simp_all add: fun_eq_iff)
  have "\<exists>cmd. ngx_conf_handler [ngx_http_limit_req_module pagesize] ctx Token_Ok [setting_name k, s] = Inr cmd \<and>
    cmd_set cmd = set_field (setting_slot k) (setting_of k) (put_setting k)"
    using assms b c t
    by (cases k) (simp_all add: ngx_conf_handler_def ngx_http_limit_req_module_def ngx_http_limit_req_commands_def
      c_strcmp_eq_0 cval_def http_context_def e)
  then obtain cmd where "ngx_conf_handler [ngx_http_limit_req_module pagesize] ctx Token_Ok [setting_name k, s] = Inr cmd"
    "cmd_set cmd = set_field (setting_slot k) (setting_of k) (put_setting k)" by blast
  then show ?thesis using assms by (simp add: conf_statement_def http_context_def set_field_def)
qed

definition setting_statement :: "limit_req_setting \<times> string \<Rightarrow> conf_rc \<times> string list" where
  "setting_statement x = (Token_Ok, [setting_name (fst x), snd x])"

definition setting_words :: "limit_req_setting \<Rightarrow> (limit_req_setting \<times> string) list \<Rightarrow> string list list" where
  "setting_words k xs = map (\<lambda>x. [setting_name k, snd x]) (filter (\<lambda>x. fst x = k) xs)"

abbreviation (input) settings_level ::
    "int \<Rightarrow> limit_req_level conf_context \<Rightarrow> (limit_req_setting \<times> string) list \<Rightarrow> limit_req_level \<Rightarrow> bool \<times> limit_req_level" where
  \<comment> \<open>a level with these statements\<close>
  "settings_level pagesize ctx xs w \<equiv>
     conf_run [ngx_http_limit_req_module pagesize] [] Parse_File ctx (map setting_statement xs @ [(File_Done, [])]) w"

lemma settings_run:
  assumes "http_context ctx" "\<forall>k. -1 \<le> setting_of k (lv_conf w) \<and> setting_of k (lv_conf w) < 1000"
  shows "(fst (settings_level pagesize ctx xs w) \<longleftrightarrow>
      (\<forall>k. fst (set_all (setting_slot k) (setting_words k xs) (setting_of k (lv_conf w))))) \<and>
    (fst (settings_level pagesize ctx xs w) \<longrightarrow>
      (\<forall>k. setting_of k (lv_conf (snd (settings_level pagesize ctx xs w))) =
        snd (set_all (setting_slot k) (setting_words k xs) (setting_of k (lv_conf w)))))"
  using assms(2)
proof (induction xs arbitrary: w)
  case Nil
  show ?case by (simp add: conf_statement_def setting_words_def)
next
  case (Cons x xs)
  obtain k s where x: "x = (k, s)" by (cases x)
  let ?c = "lv_conf w"
  obtain rv v where sl: "setting_slot k [setting_name k, s] (setting_of k ?c) = (rv, v)"
    by (cases "setting_slot k [setting_name k, s] (setting_of k ?c)")
  let ?w = "w\<lparr>lv_conf := put_setting k v ?c\<rparr>"
  have run: "settings_level pagesize ctx (x # xs) w = (if rv = Rv_Ok then settings_level pagesize ctx xs ?w else (False, ?w))"
    using limit_req_setting_found [OF assms(1), of pagesize Parse_File k s w] sl
    by (simp add: x setting_statement_def conf_called_def)
  have words: "setting_words k (x # xs) = [setting_name k, s] # setting_words k xs"
    "\<And>k'. k' \<noteq> k \<Longrightarrow> setting_words k' (x # xs) = setting_words k' xs"
    by (simp_all add: setting_words_def x)
  show ?case
  proof (cases "rv = Rv_Ok")
    case True
    then have "setting_of k ?c = -1" using sl setting.refused [of "setting_of k ?c" k] by (metis Pair_inject conf_rv.distinct(3))
    then have v: "0 \<le> v" "v < 1000" using sl True setting_slot_ok setting_value_range by metis+
    then have "setting_of k (put_setting k v ?c) = v"
      by (simp add: setting_of_put signed_of_int signed_take_bit_int_eq_self)
    then have set_of: "setting_of k' (lv_conf ?w) = (if k' = k then v else setting_of k' ?c)" for k'
      by (simp add: setting_of_put)
    then have "\<forall>k'. -1 \<le> setting_of k' (lv_conf ?w) \<and> setting_of k' (lv_conf ?w) < 1000" using Cons.prems v by simp
    note ih = Cons.IH [OF this]
    have "set_all (setting_slot k') (setting_words k' (x # xs)) (setting_of k' ?c) =
        set_all (setting_slot k') (setting_words k' xs) (setting_of k' (lv_conf ?w))" for k'
      using sl True words set_of by (cases "k' = k") simp_all
    then show ?thesis using ih run True by simp
  next
    case False
    have "\<not> fst (set_all (setting_slot k) (setting_words k (x # xs)) (setting_of k ?c))" using False sl words(1) by simp
    then show ?thesis using run False by auto
  qed
qed

lemma set_all_setting:
  "fst (set_all (setting_slot k) (map (\<lambda>s. [setting_name k, s]) ss) (-1)) \<longleftrightarrow>
     ss = [] \<or> (\<exists>s. ss = [s] \<and> setting_value k s \<noteq> None)"
  "fst (set_all (setting_slot k) (map (\<lambda>s. [setting_name k, s]) ss) (-1)) \<Longrightarrow>
     snd (set_all (setting_slot k) (map (\<lambda>s. [setting_name k, s]) ss) (-1)) =
       (case ss of [] \<Rightarrow> -1 | s # _ \<Rightarrow> the (setting_value k s))"
proof -
  let ?set = "set_all (setting_slot k) (map (\<lambda>s. [setting_name k, s]) ss) (-1)"
  obtain ok v where sv: "?set = (ok, v)" by (cases ?set)
  have r: "ss = [] \<and> v = -1 \<or> (\<exists>s. ss = [s] \<and> setting_value k s = Some v)" if ok
    using setting.once [of "-1" k "map (\<lambda>s. [setting_name k, s]) ss" v] sv that
    by (auto simp: setting_slot_ok map_eq_Cons_conv)
  have "fst (set_all (setting_slot k) [[setting_name k, s]] (-1))" if "setting_value k s = Some u" for s u
    using setting_slot_ok [of k "setting_name k" s u] that by simp
  note one = this
  have "ok" if s: "ss = [] \<or> (\<exists>s. ss = [s] \<and> setting_value k s \<noteq> None)"
  proof (cases ss)
    case Nil
    then show ?thesis using sv by simp
  next
    case (Cons s ss')
    then obtain u where "ss = [s]" "setting_value k s = Some u" using s by auto
    then show ?thesis using one [of s u] sv by (simp del: set_all.simps)
  qed
  then show "fst ?set \<longleftrightarrow> ss = [] \<or> (\<exists>s. ss = [s] \<and> setting_value k s \<noteq> None)" using r sv by fastforce
  show "fst ?set \<Longrightarrow> snd ?set = (case ss of [] \<Rightarrow> -1 | s # _ \<Rightarrow> the (setting_value k s))" using r sv by auto
qed

lemma distinct_filter_fst:
  "distinct (map fst xs) \<longleftrightarrow> (\<forall>k. length (filter (\<lambda>x. fst x = k) xs) \<le> 1)"
proof (induction xs)
  case (Cons x xs)
  have "fst x \<in> set (map fst xs) \<longleftrightarrow> filter (\<lambda>y. fst y = fst x) xs \<noteq> []"
    unfolding filter_empty_conv set_map image_iff by fastforce
  then show ?case using Cons.IH by (auto simp: le_Suc_eq)
qed simp

lemma map_of_filter: "map_of xs k = (case filter (\<lambda>x. fst x = k) xs of [] \<Rightarrow> None | x # _ \<Rightarrow> Some (snd x))"
  by (induction xs) auto

text \<open>C27. The settings of the limiter in a level of the configuration, \<open>limit_req_status\<close>, \<open>limit_req_dry_run\<close> and
  \<open>limit_req_log_level\<close>, are accepted exactly when each of them stands there at most once and with a valid value,
  a status from 400 to 599, \<open>on\<close> or \<open>off\<close>, one of four levels; then the level has these values and what is not
  set stays unset.  This is of a level inside \<open>http\<close>, \<open>server\<close> or \<open>location\<close> that has no other statements, in which none of the three is
  set before, read by the module of the limiter alone.\<close>
theorem limit_req_settings_once:
  assumes "http_context ctx" "\<forall>k. setting_of k (lv_conf w) = -1"
    and "conf_run [ngx_http_limit_req_module pagesize] [] Parse_File ctx (map setting_statement xs @ [(File_Done, [])]) w = (ok, w')"
  shows "(ok \<longleftrightarrow> distinct (map fst xs) \<and> (\<forall>x \<in> set xs. setting_value (fst x) (snd x) \<noteq> None)) \<and>
    (ok \<longrightarrow> setting_of k (lv_conf w') = (case map_of xs k of None \<Rightarrow> -1 | Some s \<Rightarrow> the (setting_value k s)))"
proof -
  let ?ws = "\<lambda>k. map snd (filter (\<lambda>x. fst x = k) xs)"
  have words: "setting_words k xs = map (\<lambda>s. [setting_name k, s]) (?ws k)" for k by (simp add: setting_words_def)
  have "\<forall>k. -1 \<le> setting_of k (lv_conf w) \<and> setting_of k (lv_conf w) < 1000" using assms(2) by simp
  note run = settings_run [OF assms(1) this, of pagesize xs, unfolded assms(3) words, simplified assms(2)]
  have one: "fst (set_all (setting_slot k) (map (\<lambda>s. [setting_name k, s]) (?ws k)) (-1)) \<longleftrightarrow>
      length (filter (\<lambda>x. fst x = k) xs) \<le> 1 \<and> (\<forall>x \<in> set xs. fst x = k \<longrightarrow> setting_value k (snd x) \<noteq> None)" for k
  proof (cases "filter (\<lambda>x. fst x = k) xs")
    case Nil
    then show ?thesis unfolding set_all_setting(1) by (auto simp: filter_empty_conv)
  next
    case (Cons x ys)
    then have "{x \<in> set xs. fst x = k} = insert x (set ys)" by (metis list.set(2) set_filter)
    then show ?thesis using Cons unfolding set_all_setting(1) by (cases ys) auto
  qed
  have "ok \<longleftrightarrow> distinct (map fst xs) \<and> (\<forall>x \<in> set xs. setting_value (fst x) (snd x) \<noteq> None)"
    using run one by (auto simp: distinct_filter_fst)
  moreover have "setting_of k (lv_conf w') = (case map_of xs k of None \<Rightarrow> -1 | Some s \<Rightarrow> the (setting_value k s))" if ok
    using run that set_all_setting(2) [of k "?ws k"] by (auto simp: map_of_filter split: list.splits)
  ultimately show ?thesis by simp
qed

theorem limit_req_settings_once_witness:
  "\<exists>ok w'. conf_run [ngx_http_limit_req_module 4096] [] Parse_File \<lparr>ctx_module_type = NGX_HTTP_MODULE, ctx_cmd_type = NGX_HTTP_LOC_CONF, ctx_handler = None\<rparr>
     (map setting_statement [(Status, ''429''), (Dry_Run, ''on'')] @ [(File_Done, [])])
     \<lparr>lv_zones = [], lv_conf = \<lparr>lc_limits = None, lc_limit_log_level = -1, lc_delay_log_level = 0, lc_status_code = -1, lc_dry_run = -1\<rparr>\<rparr> =
     (ok, w') \<and> ok \<and> setting_of Status (lv_conf w') = 429"
proof -
  let ?ctx = "\<lparr>ctx_module_type = NGX_HTTP_MODULE, ctx_cmd_type = NGX_HTTP_LOC_CONF, ctx_handler = None\<rparr>"
  let ?w = "\<lparr>lv_zones = [], lv_conf = \<lparr>lc_limits = None, lc_limit_log_level = -1, lc_delay_log_level = 0, lc_status_code = -1, lc_dry_run = -1\<rparr>\<rparr>"
  let ?xs = "[(Status, ''429''), (Dry_Run, ''on'')]"
  have ctx: "http_context ?ctx" by (simp add: http_context_def)
  have unset: "\<forall>k. setting_of k (lv_conf ?w) = -1"
  proof
    fix k
    show "setting_of k (lv_conf ?w) = -1" by (cases k) simp_all
  qed
  have v: "setting_value Status ''429'' = Some 429" "setting_value Dry_Run ''on'' = Some 1"
    by (simp_all add: ngx_atoi_def cval_def Let_def)
  obtain ok w' where run: "settings_level 4096 ?ctx ?xs ?w = (ok, w')" by (cases "settings_level 4096 ?ctx ?xs ?w")
  show ?thesis using limit_req_settings_once [OF ctx unset run, of Status] run v by auto
qed

end
