(* ===== verification/Test_Rate_Limiting.thy ===== *)
theory Test_Rate_Limiting
  imports Limit_Req_Answers Ngx_Conf_Slots
begin

text \<open>
  The test application \<open>src/apps/test-rate-limiting/test_rate_limiting.cpp\<close>: its settings with the requests
  each of them sends, the configuration that \<open>configure_proxy\<close> writes for nginx, and the statistics it
  traces.  The text of the configuration is read by the parser of nginx, its directives configure the limiter, and
  the requests of every setting get the answers of the limiter.
\<close>

section \<open>The settings\<close>

datatype test_step =
    Http_Get string string nat     \<comment> \<open>\<open>http_get_nginx\<close>: location, query and number of parallel requests\<close>
  | Usleep nat                     \<comment> \<open>in microseconds\<close>

record setting_ctx =               \<comment> \<open>the descriptions are left out\<close>
  title :: string
  rpszone_size :: string
  rps_limit :: string
  reqburst :: string
  burstdelay :: string
  fxn :: "test_step list"          \<comment> \<open>the calls of the function\<close>

definition settings :: "setting_ctx list" where
  "settings =
     [\<lparr>title = ''setting-1'', rpszone_size = ''10m'', rps_limit = ''10'', reqburst = ''burst=20'', burstdelay = ''delay=10'',
        fxn = [Http_Get ''/test-path/myfile'' ''any'' 40]\<rparr>,
      \<lparr>title = ''setting-1-delayed1sec'', rpszone_size = ''10m'', rps_limit = ''10'', reqburst = ''burst=20'', burstdelay = ''delay=10'',
        fxn = [Http_Get ''/test-path/slow-reply'' ''any'' 40]\<rparr>,
      \<lparr>title = ''setting-2'', rpszone_size = ''10m'', rps_limit = ''10'', reqburst = ''burst=20'', burstdelay = ''delay=10'',
        fxn = [Http_Get ''/test-path/myfile'' ''any'' 40, Usleep (1200 * 1000), Http_Get ''/test-path/myfile'' ''any'' 20]\<rparr>,
      \<lparr>title = ''setting-2-delayed1sec'', rpszone_size = ''10m'', rps_limit = ''10'', reqburst = ''burst=20'', burstdelay = ''delay=10'',
        fxn = [Http_Get ''/test-path/slow-reply'' ''any'' 40, Usleep (1200 * 1000), Http_Get ''/test-path/slow-reply'' ''any'' 20]\<rparr>,
      \<lparr>title = ''setting-3'', rpszone_size = ''10m'', rps_limit = ''10'', reqburst = ''burst=20'', burstdelay = ''delay=10'',
        fxn = [Http_Get ''/test-path/myfile'' ''any'' 40, Usleep (700 * 1000), Http_Get ''/test-path/myfile'' ''any'' 20]\<rparr>,
      \<lparr>title = ''setting-3-delayed1sec'', rpszone_size = ''10m'', rps_limit = ''10'', reqburst = ''burst=20'', burstdelay = ''delay=10'',
        fxn = [Http_Get ''/test-path/slow-reply'' ''any'' 40, Usleep (700 * 1000), Http_Get ''/test-path/slow-reply'' ''any'' 20]\<rparr>,
      \<lparr>title = ''setting-4'', rpszone_size = ''10m'', rps_limit = ''10'', reqburst = ''burst=20'', burstdelay = ''delay=10'',
        fxn = concat (replicate 40 [Http_Get ''/test-path/myfile'' ''any'' 1, Usleep (25 * 1000)])\<rparr>,
      \<lparr>title = ''setting-5'', rpszone_size = ''10m'', rps_limit = ''10'', reqburst = ''burst=20'', burstdelay = ''delay=10'',
        fxn = concat (replicate 40 [Http_Get ''/test-path/myfile'' ''any'' 4, Usleep (100 * 1000)])\<rparr>,
      \<lparr>title = ''setting-6'', rpszone_size = ''10m'', rps_limit = ''10'', reqburst = ''burst=20'', burstdelay = ''delay=10'',
        fxn = [Http_Get ''/test-path/media.mp4'' ''t0=0&res=720x480'' 50, Usleep (1600 * 1000), Http_Get ''/test-path/media.mp4'' ''t0=0&res=720x480'' 18, Usleep (1000 * 1000), Http_Get ''/test-path/media.mp4'' ''t0=0&res=720x480'' 5]\<rparr>,
      \<lparr>title = ''setting-7'', rpszone_size = ''10m'', rps_limit = ''5'', reqburst = ''burst=12'', burstdelay = ''delay=8'',
        fxn = concat (replicate 5 [Http_Get ''/test-path/media.mp4'' ''t0=0&res=720x480'' 8, Usleep (1000 * 1000)])\<rparr>,
      \<lparr>title = ''setting-8'', rpszone_size = ''10m'', rps_limit = ''5'', reqburst = ''burst=12'', burstdelay = ''delay=8'',
        fxn = concat (replicate 40 [Http_Get ''/test-path/media.mp4'' ''t0=0&res=720x480'' 1, Usleep (125 * 1000)])\<rparr>,
      \<lparr>title = ''setting-9'', rpszone_size = ''10m'', rps_limit = ''10'', reqburst = ''burst=50'', burstdelay = ''delay=25'',
        fxn = [Http_Get ''/test-path/myfile'' ''any'' 100]\<rparr>,
      \<lparr>title = ''setting-10'', rpszone_size = ''10m'', rps_limit = ''10'', reqburst = ''burst=50'', burstdelay = ''delay=25'',
        fxn = [Http_Get ''/test-path/myfile'' ''any'' 50]\<rparr>,
      \<lparr>title = ''setting-11'', rpszone_size = ''10m'', rps_limit = ''10'', reqburst = ''burst=50'', burstdelay = ''delay=25'',
        fxn = [Http_Get ''/test-path/myfile'' ''any'' 50, Usleep (1000 * 1000), Http_Get ''/test-path/myfile'' ''any'' 50]\<rparr>]"

section \<open>The configuration\<close>

record test_paths =                \<comment> \<open>the macros that the build defines\<close>
  tp_prefix :: string
  tp_project_dir :: string

text \<open>The text that \<open>configure_proxy\<close> writes to the file, in five parts.\<close>

definition proxy_main :: "test_paths \<Rightarrow> string" where
  "proxy_main tp =
     ''\<newline>daemon off;\<newline>user nginx nginx;\<newline>worker_processes auto;\<newline>error_log /dev/stderr '' @ ''error'' @
     '';\<newline>thread_pool tcdn_webcache_thread_pool threads=8;\<newline>events {\<newline>    worker_connections 1024;\<newline>}\<newline>'' @
     ''worker_rlimit_nofile 30000;\<newline>pid '' @ tp_prefix tp @ ''/tmp/test_rate_limiting/nginx.pid'' @ '';\<newline>''"

definition proxy_http :: "test_paths \<Rightarrow> string" where
  "proxy_http tp =
     ''http {\<newline>    include '' @ tp_project_dir tp @ ''/assets/nginx_mime.types'' @
     '';\<newline>    default_type application/octet-stream;\<newline>\<newline>    upstream backend {\<newline>        server '' @
     ''127.0.0.1'' @ '':'' @ ''8886'' @ '';\<newline>    }\<newline>\<newline>    log_format stats-log '' @
     [CH_APOS] @ ''$msec, $status'' @ [CH_APOS] @ '';\<newline>    access_log '' @
     tp_prefix tp @ ''/tmp/test_rate_limiting/proxy_stats.log'' @ '' stats-log;\<newline>\<newline>    vhost_traffic_status_zone;\<newline>\<newline>''"

definition proxy_zone :: "string \<Rightarrow> string \<Rightarrow> string" where
  "proxy_zone zone_size limit =
     ''    limit_req_zone $binary_remote_addr zone=mylimit:'' @ zone_size @ '' rate='' @ limit @ ''r/s;\<newline>\<newline>''"

definition proxy_server :: "string \<Rightarrow> string \<Rightarrow> string" where
  "proxy_server burst delay =
     ''    server {\<newline>        listen '' @ ''127.0.0.1'' @ '':'' @ ''8885'' @
     '';\<newline>        server_name nginx-proxy;\<newline>        location /test-path {\<newline>            proxy_pass http://backend;\<newline>'' @
     ''            limit_req zone=mylimit '' @ burst @ '' '' @ delay @ '';\<newline>        }\<newline>    }\<newline>''"

definition proxy_status :: string where
  "proxy_status =
     ''    server {\<newline>        listen '' @ ''127.0.0.1'' @ '':'' @ ''8887'' @
     '';\<newline>        server_name nginx-status;\<newline>        location /status {\<newline>            vhost_traffic_status_display;\<newline>'' @
     ''        }\<newline>        location = /basic_status {\<newline>            stub_status;\<newline>        }\<newline>    }\<newline>}\<newline>    ''"

definition configure_proxy :: "test_paths \<Rightarrow> string \<Rightarrow> string \<Rightarrow> string \<Rightarrow> string \<Rightarrow> string" where
  "configure_proxy tp zone_size limit burst delay =
     proxy_main tp @ proxy_http tp @ proxy_zone zone_size limit @ proxy_server burst delay @ proxy_status"

definition zone_words :: "string \<Rightarrow> string \<Rightarrow> string list" where
  "zone_words zone_size limit =
     [''limit_req_zone'', ''$binary_remote_addr'', ''zone=mylimit:'' @ zone_size, ''rate='' @ limit @ ''r/s'']"

definition limit_words :: "string \<Rightarrow> string \<Rightarrow> string list" where
  "limit_words burst delay = [''limit_req'', ''zone=mylimit'', burst, delay]"

definition proxy_statements :: "test_paths \<Rightarrow> string \<Rightarrow> string \<Rightarrow> string \<Rightarrow> string \<Rightarrow> (conf_rc \<times> string list) list" where
  \<comment> \<open>what the text should say\<close>
  "proxy_statements tp zone_size limit burst delay =
     [(Token_Ok, [''daemon'', ''off'']), (Token_Ok, [''user'', ''nginx'', ''nginx'']), (Token_Ok, [''worker_processes'', ''auto'']),
      (Token_Ok, [''error_log'', ''/dev/stderr'', ''error'']),
      (Token_Ok, [''thread_pool'', ''tcdn_webcache_thread_pool'', ''threads=8'']),
      (Block_Start, [''events'']), (Token_Ok, [''worker_connections'', ''1024'']), (Block_Done, []),
      (Token_Ok, [''worker_rlimit_nofile'', ''30000'']),
      (Token_Ok, [''pid'', tp_prefix tp @ ''/tmp/test_rate_limiting/nginx.pid'']),
      (Block_Start, [''http'']), (Token_Ok, [''include'', tp_project_dir tp @ ''/assets/nginx_mime.types'']),
      (Token_Ok, [''default_type'', ''application/octet-stream'']),
      (Block_Start, [''upstream'', ''backend'']), (Token_Ok, [''server'', ''127.0.0.1:8886'']), (Block_Done, []),
      (Token_Ok, [''log_format'', ''stats-log'', ''$msec, $status'']),
      (Token_Ok, [''access_log'', tp_prefix tp @ ''/tmp/test_rate_limiting/proxy_stats.log'', ''stats-log'']),
      (Token_Ok, [''vhost_traffic_status_zone'']),
      (Token_Ok, zone_words zone_size limit),
      (Block_Start, [''server'']), (Token_Ok, [''listen'', ''127.0.0.1:8885'']), (Token_Ok, [''server_name'', ''nginx-proxy'']),
      (Block_Start, [''location'', ''/test-path'']), (Token_Ok, [''proxy_pass'', ''http://backend'']),
      (Token_Ok, limit_words burst delay), (Block_Done, []), (Block_Done, []),
      (Block_Start, [''server'']), (Token_Ok, [''listen'', ''127.0.0.1:8887'']), (Token_Ok, [''server_name'', ''nginx-status'']),
      (Block_Start, [''location'', ''/status'']), (Token_Ok, [''vhost_traffic_status_display'']), (Block_Done, []),
      (Block_Start, [''location'', ''='', ''/basic_status'']), (Token_Ok, [''stub_status'']), (Block_Done, []), (Block_Done, []),
      (Block_Done, []), (File_Done, [])]"

section \<open>The text is read\<close>

fun conf_scan :: "lex_mode \<Rightarrow> string list \<Rightarrow> string \<Rightarrow> (conf_rc \<times> string list) list" where
  \<comment> \<open>the statements in one pass\<close>
  "conf_scan m args [] =
     [(if args = [] \<and> (m = Lex_Blank \<or> m = Lex_Comment) then File_Done else Token_Error Unexpected_End, args)]"
| "conf_scan m args (c # cs) =
     (case lex_step c m args of
        Inl (rc, args) \<Rightarrow> (rc, args) # (if goes_on rc then conf_scan Lex_Blank [] cs else [])
      | Inr (m, args) \<Rightarrow> conf_scan m args cs)"

lemma conf_scan_lex:
  "conf_scan m args text =
    (case conf_lex m args text of (rc, args, rest) \<Rightarrow> (rc, args) # (if goes_on rc then conf_scan Lex_Blank [] rest else []))"
proof (induction "text" arbitrary: m args)
  case (Cons c cs)
  then show ?case by (simp split: sum.split prod.split)
qed (simp add: goes_on_def)

lemma conf_tokens_scan: "conf_tokens text = conf_scan Lex_Blank [] text"
proof (induction "text" rule: conf_tokens.induct)
  case (1 "text")
  obtain rc args rest where l: "conf_lex Lex_Blank [] text = (rc, args, rest)" by (metis prod_cases3)
  then show ?case using 1 [OF l [symmetric] refl] by (subst conf_tokens.simps, subst conf_scan_lex) simp
qed

definition conf_chars :: "string \<Rightarrow> bool" where
  \<comment> \<open>characters that stand for themselves inside a word\<close>
  "conf_chars w \<longleftrightarrow> list_all (\<lambda>c. \<not> conf_blank c \<and> c \<noteq> CHR '';'' \<and> c \<noteq> CHR ''{'' \<and> c \<noteq> CH_BSL) w"

lemma conf_scan_chars:
  assumes "conf_chars w" "c \<noteq> CHR ''{''"
  shows "conf_scan (Lex_Word None v d) args (w @ c # cs) = conf_scan (Lex_Word None (v @ w) False) args (c # cs)"
proof -
  have "conf_scan (Lex_Word None v d) args (c # cs) = conf_scan (Lex_Word None v False) args (c # cs)" for v d
    using assms(2) by simp
  note eq = this
  have "\<exists>d'. conf_scan (Lex_Word None v d) args (w @ t) = conf_scan (Lex_Word None (v @ w) d') args t" for t
    using assms(1)
  proof (induction w arbitrary: v d)
    case (Cons b w)
    then have "conf_scan (Lex_Word None v d) args ((b # w) @ t) = conf_scan (Lex_Word None (v @ [b]) (b = CHR ''$'')) args (w @ t)"
      by (simp add: conf_chars_def)
    then show ?case using Cons.IH [of "v @ [b]"] Cons.prems by (auto simp: conf_chars_def)
  qed auto
  then show ?thesis using eq by metis
qed

lemma conf_scan_word:
  assumes "conf_plain w" "c \<noteq> CHR ''{''"
  shows "conf_scan Lex_Blank args (w @ c # cs) = conf_scan (Lex_Word None w False) args (c # cs)"
proof -
  obtain b w' where w: "w = b # w'" using assms(1) by (cases w) (auto simp: conf_plain_def)
  then have "conf_chars w'" "lex_first b args = Inr (Lex_Word None [b] (b = CHR ''$''), args)"
    using assms(1) by (auto simp: conf_plain_def conf_chars_def lex_first_def)
  then show ?thesis using conf_scan_chars [OF _ assms(2), of w' "[b]"] by (simp add: w)
qed

lemmas conf_scans = conf_scan_word conf_scan_chars lex_first_def conf_blank_def goes_on_def

lemma conf_scan_main:
  assumes "conf_plain (tp_prefix tp)"
  shows "conf_scan Lex_Blank [] (proxy_main tp @ rest) = take 10 (proxy_statements tp z l b d) @ conf_scan Lex_Blank [] rest"
  using assms by (simp add: proxy_main_def proxy_statements_def conf_scans)

lemma conf_scan_http:
  assumes "conf_plain (tp_prefix tp)" "conf_plain (tp_project_dir tp)"
  shows "conf_scan Lex_Blank [] (proxy_http tp @ rest) = take 9 (drop 10 (proxy_statements tp z l b d)) @ conf_scan Lex_Blank [] rest"
  using assms by (simp add: proxy_http_def proxy_statements_def conf_scans)

lemma conf_scan_zone:
  assumes "conf_chars z" "conf_chars l"
  shows "conf_scan Lex_Blank [] (proxy_zone z l @ rest) = (Token_Ok, zone_words z l) # conf_scan Lex_Blank [] rest"
  using assms by (simp add: proxy_zone_def zone_words_def conf_scans)

lemma conf_scan_server:
  assumes "conf_plain b" "conf_plain d"
  shows "conf_scan Lex_Blank [] (proxy_server b d @ rest) = take 8 (drop 20 (proxy_statements tp z l b d)) @ conf_scan Lex_Blank [] rest"
  using assms by (simp add: proxy_server_def proxy_statements_def limit_words_def conf_scans)

lemma conf_scan_status: "conf_scan Lex_Blank [] proxy_status = drop 28 (proxy_statements tp z l b d)"
  by (simp add: proxy_status_def proxy_statements_def conf_scans)

lemma conf_tokens_proxy:
  assumes "conf_plain (tp_prefix tp)" "conf_plain (tp_project_dir tp)" "conf_chars z" "conf_chars l" "conf_plain b" "conf_plain d"
  shows "conf_tokens (configure_proxy tp z l b d) = proxy_statements tp z l b d"
  unfolding conf_tokens_scan configure_proxy_def conf_scan_main [OF assms(1), where z = z and l = l and b = b and d = d]
    conf_scan_http [OF assms(1,2), where z = z and l = l and b = b and d = d] conf_scan_zone [OF assms(3,4)]
    conf_scan_server [OF assms(5,6), where tp = tp and z = z and l = l] conf_scan_status [where tp = tp and z = z and l = l and b = b and d = d]
  by (simp add: proxy_statements_def)

section \<open>From the directives to the answers\<close>

definition http_main :: "limit_req_level conf_context" where
  "http_main = \<lparr>ctx_module_type = NGX_HTTP_MODULE, ctx_cmd_type = NGX_HTTP_MAIN_CONF, ctx_handler = None\<rparr>"

definition http_location :: "limit_req_level conf_context" where
  "http_location = \<lparr>ctx_module_type = NGX_HTTP_MODULE, ctx_cmd_type = NGX_HTTP_LOC_CONF, ctx_handler = None\<rparr>"

lemma limit_req_zone_found:
  assumes "ngx_http_limit_req_zone True True True pg (tl (zone_words z r)) (lv_zones lv) = Inr zones"
  shows "conf_statement [ngx_http_limit_req_module pg] ty http_main Token_Ok (zone_words z r) lv = Parse_On (lv\<lparr>lv_zones := zones\<rparr>)"
proof -
  have n: "length (zone_words z r) = Suc (Suc (Suc (Suc 0)))" "hd (zone_words z r) = ''limit_req_zone''" by (simp_all add: zone_words_def)
  show ?thesis using assms n
    by (simp add: conf_statement_def http_main_def ngx_conf_handler_def ngx_http_limit_req_module_def
        ngx_http_limit_req_commands_def c_strcmp_eq_0 cval_def conf_type_defs conf_called_def Let_def)
qed

lemma limit_req_found:
  assumes "ngx_http_limit_req True True True (tl (limit_words b d)) (lv_conf lv) (lv_zones lv) = Inr (conf, zones)"
  shows "conf_statement [ngx_http_limit_req_module pg] ty http_location Token_Ok (limit_words b d) lv =
    Parse_On \<lparr>lv_zones = zones, lv_conf = conf\<rparr>"
proof -
  have n: "length (limit_words b d) = Suc (Suc (Suc (Suc 0)))" "hd (limit_words b d) = ''limit_req''" by (simp_all add: limit_words_def)
  show ?thesis using assms n
    by (simp add: conf_statement_def http_location_def ngx_conf_handler_def ngx_http_limit_req_module_def
        ngx_http_limit_req_commands_def c_strcmp_eq_0 cval_def conf_type_defs conf_called_def Let_def)
qed

lemma unat_word_1000:
  assumes "0 < x" "x * 1000 < 2 ^ 63"
  shows "unat (word_of_int (x * 1000) :: 64 word) = 1000 * nat x"
proof -
  have "uint (word_of_int (x * 1000) :: 64 word) = x * 1000" using assms by (subst uint_word_of_int) simp
  then show ?thesis using assms(1) by (simp add: nat_mult_distrib mult.commute flip: nat_uint_eq)
qed

lemma directives_accepted:
  assumes "decimal r" "dec_value r * 1000 \<le> NGX_MAX_INT_T_VALUE" "decimal b" "decimal d"
    and "ngx_parse_size z = sz" "sz \<noteq> NGX_ERROR" "8 * pg \<le> sz" "lc_limits c' = None"
  defines "ctx \<equiv> \<lparr>ctx_sh = 0, ctx_rate = word_of_int (dec_value r * 1000), ctx_key = ''$binary_remote_addr'', ctx_node = None\<rparr>"
    and "limit \<equiv> \<lparr>lim_zone = 0, lim_burst = word_of_int (dec_value b * 1000), lim_delay = word_of_int (dec_value d * 1000)\<rparr>"
  defines "zones \<equiv> [\<lparr>sz_name = ''mylimit'', sz_size = nat sz, sz_tag = LIMIT_REQ_TAG, sz_data = Some ctx\<rparr>]"
  shows "conf_statement [ngx_http_limit_req_module pg] ty http_main Token_Ok (zone_words z r) \<lparr>lv_zones = [], lv_conf = c\<rparr> =
      Parse_On \<lparr>lv_zones = zones, lv_conf = c\<rparr>"
    and "conf_statement [ngx_http_limit_req_module pg] ty http_location Token_Ok (limit_words (''burst='' @ b) (''delay='' @ d))
      \<lparr>lv_zones = zones, lv_conf = c'\<rparr> =
      Parse_On \<lparr>lv_zones = zones, lv_conf = c'\<lparr>lc_limits := Some [limit]\<rparr>\<rparr>"
proof -
  have "ngx_http_limit_req_zone True True True pg (tl (zone_words z r)) [] = Inr zones"
    using limit_req_zone_accepts [OF assms(1,2) _ _ _ assms(5-7), of "''r/s''" 1 "''mylimit''" "[]" "''$binary_remote_addr''"]
    by (simp add: rate_unit_def zone_words_def zones_def ctx_def)
  then show "conf_statement [ngx_http_limit_req_module pg] ty http_main Token_Ok (zone_words z r) \<lparr>lv_zones = [], lv_conf = c\<rparr> =
      Parse_On \<lparr>lv_zones = zones, lv_conf = c\<rparr>"
    using limit_req_zone_found [of pg z r "\<lparr>lv_zones = [], lv_conf = c\<rparr>"] by simp
  have f: "shm_find ''mylimit'' 0 zones = Some 0" by (simp add: zones_def)
  have "ngx_http_limit_req True True True (tl (limit_words (''burst='' @ b) (''delay='' @ d))) c' zones =
      Inr (c'\<lparr>lc_limits := Some [limit]\<rparr>, zones)"
    using limit_req_accepts [OF f, of "[Opt_Burst b, Opt_Delay d]" c'] assms(3,4,8)
    by (simp add: limit_words_def limit_def zones_def)
  then show "conf_statement [ngx_http_limit_req_module pg] ty http_location Token_Ok (limit_words (''burst='' @ b) (''delay='' @ d))
      \<lparr>lv_zones = zones, lv_conf = c'\<rparr> =
      Parse_On \<lparr>lv_zones = zones, lv_conf = c'\<lparr>lc_limits := Some [limit]\<rparr>\<rparr>"
    using limit_req_found [of "''burst='' @ b" "''delay='' @ d" "\<lparr>lv_zones = zones, lv_conf = c'\<rparr>"] by simp
qed

section \<open>The requests of a setting\<close>

fun script_times :: "nat \<Rightarrow> test_step list \<Rightarrow> nat list" where
  \<comment> \<open>the milliseconds at which the requests are sent\<close>
  "script_times t [] = []"
| "script_times t (Http_Get location query n # ss) = replicate n t @ script_times t ss"
| "script_times t (Usleep us # ss) = script_times (t + us div 1000) ss"

definition setting_fates :: "setting_ctx \<Rightarrow> (nat \<times> nat option) list" where
  \<comment> \<open>what the bucket with the numbers of the setting answers\<close>
  "setting_fates s =
     (NGX_HTTP_LIMIT_REQ_PASSED, None) #
     bucket_fates (1000 * nat (dec_value (rps_limit s))) (1000 * nat (dec_value (drop 6 (reqburst s))))
       (1000 * nat (dec_value (drop 6 (burstdelay s)))) 0 0 (tl (script_times 0 (fxn s)))"

definition count_status :: "nat \<Rightarrow> (nat \<times> nat option) list \<Rightarrow> nat" where
  "count_status st fates = length (filter (\<lambda>x. fst x = st) fates)"

lemma script_times_sorted: "sorted (script_times t ss) \<and> (\<forall>x \<in> set (script_times t ss). t \<le> x)"
proof (induction ss arbitrary: t)
  case (Cons step ss)
  show ?case
  proof (cases step)
    case (Http_Get l q n)
    then show ?thesis using Cons.IH [of t] by (auto simp: sorted_append)
  next
    case (Usleep us)
    then show ?thesis using Cons.IH [of "t + us div 1000"] by (auto dest: add_leD1)
  qed
qed simp

fun script_length :: "test_step list \<Rightarrow> nat" where
  "script_length [] = 0"
| "script_length (Http_Get location query n # ss) = script_length ss"
| "script_length (Usleep us # ss) = us div 1000 + script_length ss"

lemma script_times_bound: "x \<in> set (script_times t ss) \<Longrightarrow> x \<le> t + script_length ss"
  by (induction t ss rule: script_times.induct) fastforce+

lemma script_length_concat: "script_length (concat (replicate n ss)) = n * script_length ss"
proof -
  have "script_length (xs @ ys) = script_length xs + script_length ys" for xs ys
    by (induction xs rule: script_length.induct) simp_all
  then show ?thesis by (induction n) simp_all
qed

lemma script_times_first:
  assumes "0 < k"
  shows "\<exists>ts. script_times t (Http_Get l q k # ss) = t # ts"
    and "0 < n \<Longrightarrow> \<exists>ts. script_times t (concat (replicate n (Http_Get l q k # ss))) = t # ts"
proof -
  show f: "\<exists>ts. script_times t (Http_Get l q k # ss) = t # ts" for ss using assms by (cases k) auto
  show "0 < n \<Longrightarrow> \<exists>ts. script_times t (concat (replicate n (Http_Get l q k # ss))) = t # ts"
    using f by (cases n) simp_all
qed

lemma bucket_fates_shift: "bucket_fates rate burst delay e (c + l) (map ((+) c) ts) = bucket_fates rate burst delay e l ts"
  by (induction ts arbitrary: e l) (simp_all add: Let_def)

lemma setting_scripts:
  "list_all (\<lambda>s. (\<exists>ts. script_times 0 (fxn s) = 0 # ts) \<and> script_length (fxn s) \<le> 10000) settings"
  unfolding settings_def
  by (simp add: script_length_concat script_times_first del: script_times.simps)

lemma setting_numbers:
  "list_all (\<lambda>s. rpszone_size s = ''10m'' \<and> decimal (rps_limit s) \<and> dec_value (rps_limit s) \<le> 1000 \<and>
     reqburst s = ''burst='' @ drop 6 (reqburst s) \<and> decimal (drop 6 (reqburst s)) \<and> dec_value (drop 6 (reqburst s)) \<le> 1000 \<and>
     burstdelay s = ''delay='' @ drop 6 (burstdelay s) \<and> decimal (drop 6 (burstdelay s)) \<and> dec_value (drop 6 (burstdelay s)) \<le> 1000) settings"
  unfolding settings_def by (simp add: decimal_def is_digit_def cval_def)

lemma replicate_Suc_numeral: "replicate (numeral k) x = x # replicate (pred_numeral k) x"
  by (simp add: numeral_eq_Suc)

definition setting_counts :: "setting_ctx \<Rightarrow> nat \<times> nat \<times> nat" where
  \<comment> \<open>how many requests of the setting pass at once, wait, and are rejected\<close>
  "setting_counts s =
     (let fates = setting_fates s
      in (count_status NGX_HTTP_LIMIT_REQ_PASSED fates, count_status NGX_HTTP_LIMIT_REQ_DELAYED fates,
          count_status NGX_HTTP_LIMIT_REQ_REJECTED fates))"

lemmas counting = setting_counts_def setting_fates_def count_status_def cval_def replicate_Suc_numeral bucket_level_def level_fate_def

lemma counts_1: "setting_counts
    \<lparr>title = x, rpszone_size = z, rps_limit = ''10'', reqburst = ''burst=20'', burstdelay = ''delay=10'', fxn = [Http_Get l q 40]\<rparr> = (11, 10, 19)"
  by (simp add: counting)

lemma counts_2: "setting_counts
    \<lparr>title = x, rpszone_size = z, rps_limit = ''10'', reqburst = ''burst=20'', burstdelay = ''delay=10'', fxn = [Http_Get l q 40, Usleep (1200 * 1000), Http_Get l' q' 20]\<rparr> = (13, 20, 27)"
  by (simp add: counting)

lemma counts_3: "setting_counts
    \<lparr>title = x, rpszone_size = z, rps_limit = ''10'', reqburst = ''burst=20'', burstdelay = ''delay=10'', fxn = [Http_Get l q 40, Usleep (700 * 1000), Http_Get l' q' 20]\<rparr> = (11, 17, 32)"
  by (simp add: counting)

lemma counts_4: "setting_counts
    \<lparr>title = x, rpszone_size = z, rps_limit = ''10'', reqburst = ''burst=20'', burstdelay = ''delay=10'', fxn = concat (replicate 40 [Http_Get l q 1, Usleep (25 * 1000)])\<rparr> = (14, 16, 10)"
  by (simp add: counting)

lemma counts_5: "setting_counts
    \<lparr>title = x, rpszone_size = z, rps_limit = ''10'', reqburst = ''burst=20'', burstdelay = ''delay=10'', fxn = concat (replicate 40 [Http_Get l q 4, Usleep (100 * 1000)])\<rparr> = (14, 46, 100)"
  by (simp add: counting)

lemma counts_6: "setting_counts
    \<lparr>title = x, rpszone_size = z, rps_limit = ''10'', reqburst = ''burst=20'', burstdelay = ''delay=10'', fxn = [Http_Get l q 50, Usleep (1600 * 1000), Http_Get l' q' 18, Usleep (1000 * 1000), Http_Get m p 5]\<rparr> = (17, 25, 31)"
  by (simp add: counting)

lemma counts_7: "setting_counts
    \<lparr>title = x, rpszone_size = z, rps_limit = ''5'', reqburst = ''burst=12'', burstdelay = ''delay=8'', fxn = concat (replicate 5 [Http_Get l q 8, Usleep (1000 * 1000)])\<rparr> = (19, 14, 7)"
  by (simp add: counting)

lemma counts_8: "setting_counts
    \<lparr>title = x, rpszone_size = z, rps_limit = ''5'', reqburst = ''burst=12'', burstdelay = ''delay=8'', fxn = concat (replicate 40 [Http_Get l q 1, Usleep (125 * 1000)])\<rparr> = (22, 15, 3)"
  by (simp add: counting)

lemma counts_9: "setting_counts
    \<lparr>title = x, rpszone_size = z, rps_limit = ''10'', reqburst = ''burst=50'', burstdelay = ''delay=25'', fxn = [Http_Get l q 100]\<rparr> = (26, 25, 49)"
  by (simp add: counting)

lemma counts_10: "setting_counts
    \<lparr>title = x, rpszone_size = z, rps_limit = ''10'', reqburst = ''burst=50'', burstdelay = ''delay=25'', fxn = [Http_Get l q 50]\<rparr> = (26, 24, 0)"
  by (simp add: counting)

lemma counts_11: "setting_counts
    \<lparr>title = x, rpszone_size = z, rps_limit = ''10'', reqburst = ''burst=50'', burstdelay = ''delay=25'', fxn = [Http_Get l q 50, Usleep (1000 * 1000), Http_Get l' q' 50]\<rparr> = (26, 35, 39)"
  by (simp add: counting)

lemma settings_table:
  "map setting_counts settings =
     [(11, 10, 19), (11, 10, 19), (13, 20, 27), (13, 20, 27), (11, 17, 32), (11, 17, 32), (14, 16, 10), (14, 46, 100),
      (17, 25, 31), (19, 14, 7), (22, 15, 3), (26, 25, 49), (26, 24, 0), (26, 35, 39)]"
  by (simp only: settings_def list.map counts_1 counts_2 counts_3 counts_4 counts_5 counts_6 counts_7 counts_8 counts_9 counts_10 counts_11)

section \<open>The answers to a setting\<close>

definition setting_level :: "setting_ctx \<Rightarrow> lr_conf \<Rightarrow> limit_req_level option" where
  \<comment> \<open>what the two directives leave, read by the module of the limiter in the blocks where they stand\<close>
  "setting_level s c =
     (case conf_statement [ngx_http_limit_req_module 4096] Parse_Block http_main Token_Ok
             (zone_words (rpszone_size s) (rps_limit s)) \<lparr>lv_zones = [], lv_conf = c\<rparr> of
        Parse_On lv \<Rightarrow>
          (case conf_statement [ngx_http_limit_req_module 4096] Parse_Block http_location Token_Ok
                  (limit_words (reqburst s) (burstdelay s)) (lv\<lparr>lv_conf := c\<rparr>) of
             Parse_On lv \<Rightarrow> Some lv
           | _ \<Rightarrow> None)
      | _ \<Rightarrow> None)"

definition answer_counts :: "lr_outcome list \<Rightarrow> nat \<times> nat \<times> nat" where
  \<comment> \<open>passed at once, delayed, rejected\<close>
  "answer_counts outs =
     (count_status NGX_HTTP_LIMIT_REQ_PASSED (map fate_of outs), count_status NGX_HTTP_LIMIT_REQ_DELAYED (map fate_of outs),
      count_status NGX_HTTP_LIMIT_REQ_REJECTED (map fate_of outs))"

lemma size_10m: "ngx_parse_size ''10m'' = 10485760"
  using ngx_parse_size_scaled [of "CHR ''m''" "''10''"] by (simp add: size_scale_def is_digit_def cval_def)

lemma setting_level_read:
  assumes "s \<in> set settings" "ngx_http_limit_req_create_conf True = Some c"
  shows "\<exists>lv. setting_level s c = Some lv \<and>
    sz_data (lv_zones lv ! 0) = Some \<lparr>ctx_sh = 0, ctx_rate = word_of_int (dec_value (rps_limit s) * 1000),
      ctx_key = ''$binary_remote_addr'', ctx_node = None\<rparr> \<and>
    lc_limits (lv_conf lv) = Some [\<lparr>lim_zone = 0, lim_burst = word_of_int (dec_value (drop 6 (reqburst s)) * 1000),
      lim_delay = word_of_int (dec_value (drop 6 (burstdelay s)) * 1000)\<rparr>] \<and> lc_dry_run (lv_conf lv) = NGX_CONF_UNSET"
proof -
  note n = setting_numbers [unfolded list_all_iff, rule_format, OF assms(1)]
  have c: "lc_limits c = None" "lc_dry_run c = NGX_CONF_UNSET"
    using assms(2) by (auto simp: ngx_http_limit_req_create_conf_def)
  have d: "decimal (rps_limit s)" "dec_value (rps_limit s) * 1000 \<le> NGX_MAX_INT_T_VALUE" "decimal (drop 6 (reqburst s))"
    "decimal (drop 6 (burstdelay s))" using n by simp_all
  have e: "zone_words (rpszone_size s) (rps_limit s) = zone_words ''10m'' (rps_limit s)"
    "limit_words (reqburst s) (burstdelay s) = limit_words (''burst='' @ drop 6 (reqburst s)) (''delay='' @ drop 6 (burstdelay s))"
    using n by metis+
  note a = directives_accepted [where pg = 4096 and ty = Parse_Block, OF d size_10m _ _ c(1), simplified]
  show ?thesis unfolding setting_level_def e using a c(2) by simp
qed

lemma word_number:
  assumes "decimal d" "dec_value d \<le> 1000"
  shows "unat (word_of_int (dec_value d * 1000) :: ngx_uint_t) = 1000 * nat (dec_value d)"
  using assms by (intro unat_word_1000) (simp_all add: decimal_def)

lemma unat_shift:
  assumes "unat (t :: ngx_msec_t) < 2 ^ 62" "m \<le> 10000"
  shows "unat (t + of_nat m) = unat t + m"
proof -
  have m: "unat (of_nat m :: ngx_msec_t) = m" using assms(2) by (simp add: unat_of_nat take_bit_nat_eq_self)
  then show ?thesis using assms by (subst unat_plus_simple [THEN iffD1]) (simp_all add: word_le_nat_alt unat_word_ariths)
qed

lemma exact_times_shift:
  assumes "unat t < 2 ^ 62" "unat rate \<le> 1000000" "sorted (0 # ms)" "\<forall>m \<in> set ms. m \<le> 10000"
  shows "exact_times rate t (map (\<lambda>m. t + of_nat m) ms)" "map unat (map (\<lambda>m. t + of_nat m) ms) = map ((+) (unat t)) ms"
proof -
  have u: "\<forall>m \<in> set ms. unat (t + of_nat m) = unat t + m" using unat_shift [OF assms(1)] assms(4) by blast
  then show e: "map unat (map (\<lambda>m. t + of_nat m) ms) = map ((+) (unat t)) ms" by simp
  have "unat rate * m < 2 ^ 64" if "m \<in> set ms" for m
  proof -
    have "unat rate * m \<le> 1000000 * 10000" using that assms(2,4) by (intro mult_le_mono) auto
    then show ?thesis by simp
  qed
  moreover have "sorted (map ((+) (unat t)) ms)" using assms(3) by (simp add: sorted_map sorted_wrt_map)
  ultimately show "exact_times rate t (map (\<lambda>m. t + of_nat m) ms)"
    using u assms(1,4) e by (fastforce simp: exact_times_def list_all_iff simp del: map_map)
qed

lemma script_times_upto:
  assumes "s \<in> set settings"
  shows "\<exists>ms. script_times 0 (fxn s) = 0 # ms \<and> sorted (0 # ms) \<and> (\<forall>m \<in> set ms. m \<le> 10000)"
proof -
  obtain ms where ms: "script_times 0 (fxn s) = 0 # ms" "script_length (fxn s) \<le> 10000"
    using setting_scripts [unfolded list_all_iff] assms by metis
  have "m \<le> 10000" if "m \<in> set ms" for m
    using script_times_bound [of m 0 "fxn s"] that ms by simp
  with ms script_times_sorted [of 0 "fxn s"] show ?thesis by simp
qed

lemma empty_zone_alloc:
  assumes "alloc Map.empty (lr_node_size key) = Some i"
  and sh: "sh = lr_empty_zone (sh0\<lparr>sh_nodes := Map.empty\<rparr>)"
  shows "lr_alloc alloc now rate key sh = Some (Some i, sh)" "sh_nodes sh = Map.empty" "zone_ok sh"
proof -
  show n: "sh_nodes sh = Map.empty" "zone_ok sh" using lr_empty_zone_ok by (simp_all add: sh lr_empty_zone_def)
  have "lru_rep (sh_queue sh) []" using queue_rep_init [of QHead] by (simp add: sh lr_empty_zone_def)
  then have "ngx_queue_empty QHead (sh_queue sh)" using lru.rep_empty by fastforce
  then have "ngx_http_limit_req_expire now rate n sh = Some sh" for n
    by (simp add: ngx_http_limit_req_expire.simps)
  then show "lr_alloc alloc now rate key sh = Some (Some i, sh)" using assms(1) n by (simp add: lr_alloc_def)
qed

lemma setting_run:
  assumes "s \<in> set settings" "slab_ok alloc" "alloc Map.empty (lr_node_size key) = Some i"
    and "complex_value ''$binary_remote_addr'' = Some key" "key \<noteq> []" "length key \<le> 65535" "unat t < 2 ^ 62"
    and "ngx_http_limit_req_create_conf True = Some c"
  shows "\<exists>lv ctx outs w'. setting_level s c = Some lv \<and> sz_data (lv_zones lv ! 0) = Some ctx \<and>
    limit_req_run alloc complex_value (ngx_http_limit_req_merge_conf c (lv_conf lv))
      (map (\<lambda>m. t + of_nat m) (script_times 0 (fxn s)))
      \<lparr>w_ctx = (\<lambda>_. ctx), w_sh = (\<lambda>_. lr_empty_zone (sh0\<lparr>sh_nodes := Map.empty\<rparr>))\<rparr> = Some (outs, w') \<and>
    map fate_of outs = setting_fates s"
proof -
  let ?rate = "word_of_int (dec_value (rps_limit s) * 1000) :: ngx_uint_t"
  let ?ctx = "\<lparr>ctx_sh = 0, ctx_rate = ?rate, ctx_key = ''$binary_remote_addr'', ctx_node = None\<rparr> :: lr_ctx"
  let ?limit = "\<lparr>lim_zone = 0, lim_burst = word_of_int (dec_value (drop 6 (reqburst s)) * 1000),
      lim_delay = word_of_int (dec_value (drop 6 (burstdelay s)) * 1000)\<rparr>"
  let ?sh = "lr_empty_zone (sh0\<lparr>sh_nodes := Map.empty\<rparr>)"
  let ?w = "\<lparr>w_ctx = (\<lambda>_. ?ctx), w_sh = (\<lambda>_. ?sh)\<rparr>"
  obtain lv where lv: "setting_level s c = Some lv" "sz_data (lv_zones lv ! 0) = Some ?ctx"
    "lc_limits (lv_conf lv) = Some [?limit]" "lc_dry_run (lv_conf lv) = NGX_CONF_UNSET"
    using setting_level_read [OF assms(1,8)] by blast
  note n = setting_numbers [unfolded list_all_iff, rule_format, OF assms(1)]
  have d: "decimal (rps_limit s)" "dec_value (rps_limit s) \<le> 1000" "decimal (drop 6 (reqburst s))"
    "dec_value (drop 6 (reqburst s)) \<le> 1000" "decimal (drop 6 (burstdelay s))" "dec_value (drop 6 (burstdelay s)) \<le> 1000"
    using n by simp_all
  have u: "unat ?rate = 1000 * nat (dec_value (rps_limit s))"
    "unat (lim_burst ?limit) = 1000 * nat (dec_value (drop 6 (reqburst s)))"
    "unat (lim_delay ?limit) = 1000 * nat (dec_value (drop 6 (burstdelay s)))"
    using word_number [OF d(1,2)] word_number [OF d(3,4)] word_number [OF d(5,6)] by (simp_all only: lr_limit.simps)
  have pos: "0 < dec_value (rps_limit s)" "dec_value (rps_limit s) \<le> 1000" "dec_value (drop 6 (reqburst s)) \<le> 1000"
    using n by (auto simp: decimal_def)
  then have small: "unat ?rate \<le> 1000000" "0 < unat ?rate" "unat (lim_burst ?limit) < 2 ^ 54" by (simp_all only: u) simp_all
  obtain ms where ms: "script_times 0 (fxn s) = 0 # ms" "sorted (0 # ms)" "\<forall>m \<in> set ms. m \<le> 10000"
    using script_times_upto [OF assms(1)] by blast
  note e = empty_zone_alloc [where alloc = alloc and sh = ?sh, OF assms(3) refl]
  have c: "lc_limits (ngx_http_limit_req_merge_conf c (lv_conf lv)) = Some [?limit]"
    "lc_dry_run (ngx_http_limit_req_merge_conf c (lv_conf lv)) = 0"
    using lv(3,4) assms(8) by (auto simp: ngx_http_limit_req_merge_conf_def ngx_conf_merge_value_def ngx_http_limit_req_create_conf_def Let_def)
  have z: "w_zone ?w (lim_zone ?limit) = ?sh" "w_ctx ?w (lim_zone ?limit) = ?ctx" by (simp_all add: w_zone_def)
  have "?rate \<noteq> 0" using small(2) by (metis less_irrefl unat_0)
  then have ok: "world_ok [?limit] ?w" using e(3) by (simp add: world_ok_def z(1) [simplified])
  note x = exact_times_shift [OF assms(7) small(1) ms(2,3)]
  have cv: "complex_value (ctx_key (w_ctx ?w (lim_zone ?limit))) = Some key" using assms(4) by simp
  have new: "\<forall>j lr. sh_nodes (w_zone ?w (lim_zone ?limit)) j = Some lr \<longrightarrow>
      (lr_key lr, lr_data lr) \<noteq> (ucast (ngx_crc32_short key), key)" unfolding z e(2) by simp
  have room: "lr_alloc alloc t (ctx_rate (w_ctx ?w (lim_zone ?limit))) key (w_zone ?w (lim_zone ?limit)) = Some (Some i, ?sh)"
    unfolding z by (rule e(1))
  have times: "exact_times (ctx_rate (w_ctx ?w (lim_zone ?limit))) t (map (\<lambda>m. t + of_nat m) ms)"
    unfolding z lr_ctx.simps by (rule x(1))
  have "(fst (NGX_HTTP_LIMIT_REQ_PASSED, None :: nat option), None) #
      bucket_fates (unat ?rate) (unat (lim_burst ?limit)) (unat (lim_delay ?limit)) 0 (unat t + 0) (map ((+) (unat t)) ms) =
      setting_fates s"
    unfolding bucket_fates_shift u by (simp add: setting_fates_def ms(1))
  then obtain outs w' where run: "limit_req_run alloc complex_value (ngx_http_limit_req_merge_conf c (lv_conf lv))
      (t # map (\<lambda>m. t + of_nat m) ms) ?w = Some (outs, w')" "map fate_of outs = setting_fates s"
    using limit_req_run_fresh [where limit = ?limit and w = ?w and alloc = alloc and complex_value = complex_value and key = key, OF ok assms(2) cv assms(5,6) new room times small(3) c]
    unfolding z lr_ctx.simps x(2) by auto
  have "map (\<lambda>m. t + of_nat m) (script_times 0 (fxn s)) = t # map (\<lambda>m. t + of_nat m) ms" by (simp add: ms(1))
  then show ?thesis using lv(1,2) run by metis
qed

section \<open>Properties\<close>

text \<open>C8. Each of the 14 settings, from the words of its two directives to the answers of its requests: so many of them pass at
  once, so many are delayed and so many are rejected.  The directives are read by the module of the limiter alone in the contexts of \<open>http\<close> and
  of \<open>location\<close>, with pages of 4096 bytes and a level for which there is memory; the zone has no entries at first and room for one; the
  key is that of one address, of 1 to 65535 bytes; the requests of one call arrive in the same millisecond, the waits take
  exactly their time, the first millisecond is below \<open>2 ^ 62\<close>, and the requests are answered one after the other.\<close>
theorem test_settings_answers:
  assumes "k < 14" "slab_ok alloc" "alloc Map.empty (lr_node_size key) = Some i"
    and "complex_value ''$binary_remote_addr'' = Some key" "key \<noteq> []" "length key \<le> 65535" "unat t < 2 ^ 62"
    and "ngx_http_limit_req_create_conf True = Some c"
  shows "\<exists>lv ctx outs w'. setting_level (settings ! k) c = Some lv \<and> sz_data (lv_zones lv ! 0) = Some ctx \<and>
    limit_req_run alloc complex_value (ngx_http_limit_req_merge_conf c (lv_conf lv))
      (map (\<lambda>m. t + of_nat m) (script_times 0 (fxn (settings ! k))))
      \<lparr>w_ctx = (\<lambda>_. ctx), w_sh = (\<lambda>_. lr_empty_zone (sh0\<lparr>sh_nodes := Map.empty\<rparr>))\<rparr> = Some (outs, w') \<and>
    answer_counts outs =
      [(11, 10, 19), (11, 10, 19), (13, 20, 27), (13, 20, 27), (11, 17, 32), (11, 17, 32), (14, 16, 10), (14, 46, 100),
       (17, 25, 31), (19, 14, 7), (22, 15, 3), (26, 25, 49), (26, 24, 0), (26, 35, 39)] ! k"
proof -
  have "length settings = 14" by (simp add: settings_def)
  then have k: "settings ! k \<in> set settings" "map setting_counts settings ! k = setting_counts (settings ! k)"
    using assms(1) by simp_all
  have "answer_counts outs = setting_counts (settings ! k)" if "map fate_of outs = setting_fates (settings ! k)" for outs
    using that by (simp add: answer_counts_def setting_counts_def Let_def)
  then show ?thesis
    using setting_run [where ?sh0.0 = sh0 and alloc = alloc and complex_value = complex_value and key = key and i = i, OF k(1) assms(2-8)] k(2) unfolding settings_table by metis
qed

theorem test_settings_answers_witness:
  "\<exists>c lv ctx outs w'. ngx_http_limit_req_create_conf True = Some c \<and> setting_level (settings ! 4) c = Some lv \<and>
    limit_req_run first_free (\<lambda>_. Some ''k'') (ngx_http_limit_req_merge_conf c (lv_conf lv))
      (map (\<lambda>m. 7 + of_nat m) (script_times 0 (fxn (settings ! 4))))
      \<lparr>w_ctx = (\<lambda>_. ctx), w_sh = (\<lambda>_. sample_zone)\<rparr> = Some (outs, w') \<and>
    answer_counts outs = (11, 17, 32)"
proof -
  obtain c where c: "ngx_http_limit_req_create_conf True = Some c" by (simp add: ngx_http_limit_req_create_conf_def)
  have f: "first_free Map.empty (lr_node_size ''k'') = Some 0" by (simp add: first_free_def)
  show ?thesis
    using test_settings_answers [OF _ first_free_ok f _ _ _ _ c, of 4 "\<lambda>_. Some ''k''" 7
        "\<lparr>sh_rbtree = Sentinel, sh_queue = \<lparr>prev_of = (\<lambda>_. QNull), next_of = (\<lambda>_. QNull)\<rparr>, sh_nodes = Map.empty\<rparr>"] c
    by (fastforce simp: sample_zone_def)
qed

text \<open>C9. The text that \<open>configure_proxy\<close> makes says what it should: from a file of this text the parser of nginx reads these
  statements, runs the commands of any modules on their words, and, unless one fails, ends with the file.  The paths, \<open>burst=\<close> and
  \<open>delay=\<close> are words that need no quotes, the size and the rate have no blanks, semicolons, opening braces or
  backslashes, the text is shorter than the buffer of 4096 bytes, the file is opened and closed, and the reads of it and the
  allocations succeed.\<close>
theorem proxy_config_read:
  assumes "conf_plain (tp_prefix tp)" "conf_plain (tp_project_dir tp)" "conf_chars z" "conf_chars l" "conf_plain b" "conf_plain d"
    and "pread_ok pread (configure_proxy tp z l b d)" "\<And>n. mem n" "length (configure_proxy tp z l b d) < NGX_CONF_BUFFER"
  shows "ngx_conf_parse_file modules (True, True, True, True) pread (length (configure_proxy tp z l b d)) mem ctx w =
    Some (conf_run modules [] Parse_File ctx (proxy_statements tp z l b d) w)"
  using conf_parse_file_run [where mem = mem, OF assms(7,8) conf_short_length [OF assms(9)], of modules ctx w]
  unfolding conf_tokens_proxy [OF assms(1-6)] .

theorem proxy_config_read_witness:
  "ngx_conf_parse_file sample_modules (True, True, True, True)
     (\<lambda>offset n. Some (take n (drop offset (configure_proxy \<lparr>tp_prefix = ''/opt'', tp_project_dir = ''/src''\<rparr> ''10m'' ''10'' ''burst=20'' ''delay=10''))))
     (length (configure_proxy \<lparr>tp_prefix = ''/opt'', tp_project_dir = ''/src''\<rparr> ''10m'' ''10'' ''burst=20'' ''delay=10''))
     (\<lambda>_. True) sample_context [] =
   Some (conf_run sample_modules [] Parse_File sample_context
     (proxy_statements \<lparr>tp_prefix = ''/opt'', tp_project_dir = ''/src''\<rparr> ''10m'' ''10'' ''burst=20'' ''delay=10'') [])"
proof (rule proxy_config_read)
  show "length (configure_proxy \<lparr>tp_prefix = ''/opt'', tp_project_dir = ''/src''\<rparr> ''10m'' ''10'' ''burst=20'' ''delay=10'') < NGX_CONF_BUFFER"
    by (simp add: configure_proxy_def proxy_main_def proxy_http_def proxy_zone_def proxy_server_def proxy_status_def NGX_CONF_BUFFER_def)
qed (simp_all add: pread_ok_def conf_plain_def conf_chars_def conf_blank_def)

end
