(* ===== verification/Spec2Isabelle.thy ===== *)
theory Spec2Isabelle
  imports Limit_Req_Memory Ngx_Escape Libcurl_Wrap Interr_Usleep Test_Rate_Limiting
begin

text \<open>
  This repository measures the request limiter of nginx under load: it carries nginx with a
  changed \<open>ngx_http_limit_req_module.c\<close>, and a test application with a small HTTP client over
  libcurl.  The development models the limiter, from the text of its configuration to the fate of
  each request, the parts of the nginx core it stands on, and the test with its tools.

  \<^bold>\<open>The parts and how they interact.\<close>  A zone is shared memory of all worker processes.  It
  holds a red-black tree of entries, one for each key, ordered by the CRC-32 of the key and then by
  the key, and a queue of the same entries by last use.  For a request the handler evaluates the key
  of each configured limit, hashes it, and looks it up under the lock of the zone: an entry that is
  found leaks and is charged with the request, a new one is allocated, old ones are evicted to make
  room.  A request that passes all but the last limit holds references on the entries on the way
  until it accounts them, and gives them back when a later limit rejects it.  When the key of a later limit cannot be computed
  it does not: the context of the worker then still notes the reference, and the next lookup in that zone
  overwrites it.  A request that has to wait is woken by a timer of the event loop and goes on through the phases.

  \<^item> \<open>Nginx_Prelude\<close>: the C integer types of a 64-bit Linux build as words of their width,
    strings, and the lemmas on words the other theories share.
  \<^item> \<open>Limit_Req\<close>: \<open>src/http/modules/ngx_http_limit_req_module.c\<close> at run time, one definition
    for each function; the fields of \<open>lr_node\<close>, \<open>lr_zone\<close>, \<open>lr_ctx\<close>, \<open>lr_limit\<close> and \<open>lr_conf\<close> are
    those of the structs.  The memory of a zone is a map from addresses to entries; an access
    to an address that is not allocated, and a division by zero, is \<open>None\<close>.
    \<open>Limit_Req_Zone\<close> has the invariant of a zone (\<open>zone_ok\<close>) and that lookup and eviction
    keep it, \<open>Limit_Req_Handler\<close> how the references add up on every path of the handler,
    \<open>Limit_Req_Workers\<close> the interleaving of workers, \<open>Limit_Req_Rate\<close> the refinement of an
    entry to a leaky bucket over the naturals with the bounds a client is promised,
    \<open>Limit_Req_Service\<close> these results put together as promises of the whole limiter, and \<open>Limit_Req_Answers\<close> the
    refinement of whole runs of requests to the bucket, with the answer to each of them.
  \<^item> \<open>Limit_Req_Delay\<close>: delayed requests, with the phase engine of \<open>http/ngx_http_core_module.c\<close>,
    \<open>ngx_http_request_handler\<close> of \<open>http/ngx_http_request.c\<close> and the timers of the event loop.
  \<^item> \<open>Vts_Limit_Stats\<close>: the display of the limiter that the repository adds to the vhost traffic status module.
  \<^item> \<open>Limit_Req_Conf\<close>: the directives \<open>limit_req_zone\<close> and \<open>limit_req\<close>, the merging of levels,
    and \<open>ngx_shared_memory_add\<close> of \<open>core/ngx_cycle.c\<close>, errors as values of a sum type.
  \<^item> \<open>Ngx_Conf_File\<close>, \<open>Ngx_Conf_Parse\<close> and \<open>Ngx_Conf_Slots\<close>: \<open>core/ngx_conf_file.c\<close>, which reads the words of a statement
    through a buffer, finds the command of the directive in the tables of the modules, calls itself for blocks, and offers
    the modules functions that set a field once; and the table of commands of the limiter.
  \<^item> \<open>Ngx_Rbtree\<close> and \<open>Ngx_Queue\<close>: the containers of \<open>core/ngx_rbtree.c\<close> and
    \<open>core/ngx_queue.c\<close>.  The tree with parent pointers is a zipper, on which insertion, deletion
    and both rebalancing loops are written as in the code and proved to keep the order, the colours
    and the black height.  The queue is a store of links, refined to lists.
  \<^item> \<open>Ngx_String\<close>, \<open>Ngx_Number\<close>, \<open>Ngx_Escape\<close>, \<open>Ngx_Crc32\<close>: comparison, search and sorting; the
    parsers of numbers, sizes and times with their overflow checks; base64, URI, HTML and
    JSON escaping; the table-driven CRC against the bitwise one.
  \<^item> \<open>Ngx_Slab\<close>: the allocator of shared memory, \<open>core/ngx_slab.c\<close>, with its page descriptors,
    free list, slots and bitmaps.  \<open>Ngx_Slab_Pages\<close>, \<open>Ngx_Slab_Take\<close> and \<open>Ngx_Slab_Release\<close> have the
    invariant of the pages (the blocks tile the pool, the free list holds exactly the free blocks, no two
    free blocks are adjacent) and that taking and releasing pages keep it; \<open>Ngx_Slab_Chunks\<close>, \<open>Ngx_Slab_Slots\<close>,
    \<open>Ngx_Slab_Pool\<close>, \<open>Ngx_Slab_Give\<close> and \<open>Ngx_Slab_New\<close> do the same for the pages cut into chunks and for the
    counters; \<open>Ngx_Slab_Alloc\<close> and \<open>Ngx_Slab_Free\<close> are the two operations as a whole, \<open>Ngx_Slab_View\<close> reads the
    blocks and the areas in use out of a pool, and \<open>Ngx_Slab_Contract\<close> has the contract of an allocator as a
    locale, its interpretation, and the properties.
  \<^item> \<open>Limit_Req_Memory\<close>: lookup and eviction of the limiter with their calls of the slab allocator, a
    refinement of \<open>Limit_Req\<close>, where the allocator is a parameter.
  \<^item> \<open>Ngx_Shmtx\<close>: the spin lock with a semaphore of \<open>core/ngx_shmtx.c\<close>, as a step relation of any
    number of processes.
  \<^item> \<open>Ngx_Event_Timer\<close>, \<open>Ngx_Event_Posted\<close>, \<open>Ngx_Event_Loop\<close> and \<open>Ngx_Event_Turn\<close>: the loop of a worker
    process, in which the limiter runs and which wakes the requests it delays: the timers of
    \<open>event/ngx_event_timer.c\<close> in a red-black tree ordered by keys that wrap, the queues of
    \<open>event/ngx_event_posted.c\<close> over shared links, the accept mutex of \<open>event/ngx_event_accept.c\<close>, and
    \<open>ngx_process_events_and_timers\<close> of \<open>event/ngx_event.c\<close>.  The handlers are a parameter, any client of these
    operations; two history fields record the calls of handlers and of the event method.
  \<^item> \<open>Interr_Usleep\<close> and \<open>Libcurl_Wrap\<close>: \<open>src/libs/utils/interr_usleep.c\<close>, again a step
    relation of threads, and the HTTP client \<open>src/libs/utils/libcurl_wrap.c\<close>, whose calls to libcurl
    are inputs of the model.
  \<^item> \<open>Test_Rate_Limiting\<close>: \<open>src/apps/test-rate-limiting/test_rate_limiting.cpp\<close>, its settings with the requests they send, and
    the configuration it writes.

  \<^bold>\<open>What is shown.\<close>  For the limiter: no path of the handler meets a dangling entry; the references add up, and a request
  whose keys could all be computed leaves none; eviction never frees an entry that a worker notes a reference on, a client that keeps to the rate
  is never rejected, a client never gets more than the rate and the burst allow, the answers to any run of requests for one key are those of a leaky
  bucket, and the numbers written in the configuration are the ones that hold (\<open>configured_burst\<close> below).  A delayed request is woken when
  its delay has passed and goes on behind the limiter without being charged again.  For the configuration: the reader with its buffer and flags is a
  scanner over the text, words that are written with quotes are read back, the parser that calls itself is a machine with a stack,
  and it ends.  For the test: nginx reads what \<open>configure_proxy\<close> writes, and each of its settings gives these numbers of answers.
  For the memory of the limiter: an
  allocation gives an area apart from all others or fails only without room, a release takes back exactly
  one area, wrong pointers are refused but those between the last page and the end of the pool (and those into the bitmap of a page of small
  chunks), which the code lets through, what is given back is joined without fragmentation, and the entries of a zone are
  at any time exactly the areas it holds.  For the containers:
  refinement of lists and of search trees with the balance conditions.  For the parsers: exactness up
  to the overflow, and the round trips of the encoders.  For the two concurrent parts: mutual
  exclusion and that no wake-up is lost.  For the event loop: its loops end when the handlers keep to their contract, no timer stays due between two
  turns, the sleep does not pass a deadline (but with \<open>timer_resolution\<close>, where a signal ends it), and the accept mutex is given back.  The conditions
  under which each of these holds stand with the property.

  \<^bold>\<open>Bounds.\<close>  Words have the width of the build.  Loops of the code that end are recursive
  functions with a proof of termination, but the search of the free list, the loops that follow the
  links of a queue, those that call handlers or phases and the parser of the configuration, partial functions of which the theorems show that they end
  (the phases behind the limiter are assumed to return); no definition uses fuel.  The bound of
  \<open>2 ^ 62\<close> on the burst in the theorems on the limiter, that of \<open>2 ^ 62\<close>
  milliseconds on the distance of a timer from the clock, and that of \<open>2 ^ 63\<close> on the times, are what
  keeps its signed arithmetic exact.

  \<^bold>\<open>Not modelled.\<close>  Logging; the event methods and the start of the event loop; of the HTTP processing subrequests, posted requests, the reference
  counts of requests, the other phases and the other modules of nginx, which are parameters where the limiter meets them; \<open>include\<close>, the option \<open>-g\<close>, the dump
  and the list of open files of \<open>ngx_conf_file.c\<close>; the
  formatted printing of \<open>ngx_string.c\<close>, which reads a variable argument list; the compilation and
  evaluation of the key, which is an input; the contents of the areas the allocator gives, of which only its
  bitmaps are kept; libcurl but \<open>curl_slist_append\<close>, and the other vendored libraries; the processes, threads and plots of the test application.
\<close>

section \<open>From the configuration to the requests\<close>

text \<open>C6. From the text of the configuration to the requests served: with the directives
  \<open>limit_req_zone ... rate=<r>r/s\<close> and \<open>limit_req zone=... burst=<b>\<close>, of any number of requests for a new key
  in one millisecond exactly the first and \<open>b\<close> more are not rejected by the lookup.  The numbers are decimal and positive, \<open>r * 1000\<close> does not overflow
  and \<open>b * 1000\<close> is below \<open>2 ^ 62\<close>; the name of the zone is not empty and has no colon and no NUL, no zone is declared before, its size is a valid one of at least
  eight pages, and there is memory for the configuration; the zone is well formed and has room for the entry; the key has at most 65535 bytes and the
  millisecond is below \<open>2 ^ 63\<close>.\<close>
theorem configured_burst:
  assumes "decimal r" "dec_value r * 1000 \<le> NGX_MAX_INT_T_VALUE" "decimal b" "dec_value b * 1000 < 2 ^ 62"
    and "name \<noteq> []" "CHR '':'' \<notin> set name" "no_nul name" "ngx_parse_size s = sz" "sz \<noteq> NGX_ERROR" "8 * pg \<le> sz"
    and "zone_ok sh" "slab_ok alloc" "length key \<le> 65535" "unat t < 2 ^ 63"
    and "\<forall>j lr. sh_nodes sh j = Some lr \<longrightarrow> (lr_key lr, lr_data lr) \<noteq> (hash, key)"
    and "lr_alloc alloc t (word_of_int (dec_value r * 1000)) key sh = Some (Some i, sh1)"
  shows "\<exists>zones zones' lrcf' ctx limit sh'.
    ngx_http_limit_req_zone True True True pg [k, ''zone='' @ name @ '':'' @ s, ''rate='' @ r @ ''r/s''] [] = Inr zones \<and>
    ngx_http_limit_req True True True [''zone='' @ name, ''burst='' @ b] (lrcf\<lparr>lc_limits := None\<rparr>) zones = Inr (lrcf', zones') \<and>
    sz_data (zones' ! 0) = Some ctx \<and> lc_limits lrcf' = Some [limit] \<and>
    lr_serve alloc limit hash key ctx (replicate (Suc n) t) sh =
      Some (True # replicate (min n (nat (dec_value b))) True @ replicate (n - nat (dec_value b)) False, sh')"
proof -
  let ?ctx = "\<lparr>ctx_sh = 0, ctx_rate = word_of_int (dec_value r * 1000), ctx_key = k, ctx_node = None\<rparr> :: lr_ctx"
  let ?z = "\<lparr>sz_name = name, sz_size = nat sz, sz_tag = LIMIT_REQ_TAG, sz_data = Some ?ctx\<rparr>"
  let ?limit = "\<lparr>lim_zone = 0, lim_burst = word_of_int (dec_value b * 1000), lim_delay = 0\<rparr>"
  have z: "ngx_http_limit_req_zone True True True pg [k, ''zone='' @ name @ '':'' @ s, ''rate='' @ r @ ''r/s''] [] = Inr [?z]"
    using limit_req_zone_accepts [OF assms(1,2) _ assms(5,6,8-10), of "''r/s''" 1 "[]" k] by (simp add: rate_unit_def)
  have f: "shm_find name 0 [?z] = Some 0"
    using c_strncmp_prefix [OF assms(7), of name] by (simp del: c_strncmp.simps)
  have l: "ngx_http_limit_req True True True [''zone='' @ name, ''burst='' @ b] (lrcf\<lparr>lc_limits := None\<rparr>) [?z] =
      Inr (lrcf\<lparr>lc_limits := Some [?limit]\<rparr>, [?z])"
    using limit_req_accepts [OF f, of "[Opt_Burst b]" "lrcf\<lparr>lc_limits := None\<rparr>"] assms(3) by simp
  have "0 < dec_value b" using assms(3) by (simp add: decimal_def)
  then have "uint (word_of_int (dec_value b * 1000) :: ngx_uint_t) = dec_value b * 1000"
    using assms(4) by (subst uint_word_of_int) simp
  then have u: "unat (word_of_int (dec_value b * 1000) :: ngx_uint_t) = nat (dec_value b) * 1000"
    using \<open>0 < dec_value b\<close> by (simp add: nat_uint_eq [symmetric] nat_mult_distrib)
  moreover have "nat (dec_value b) * 1000 < 2 ^ 62" using assms(4) by simp
  ultimately have lb: "unat (lim_burst ?limit) = nat (dec_value b) * 1000" "unat (lim_burst ?limit) < 2 ^ 62"
    by (simp_all only: lr_limit.simps)
  obtain sh' where "lr_serve alloc ?limit hash key ?ctx (replicate (Suc n) t) sh =
      Some (True # replicate (min n (nat (dec_value b))) True @ replicate (n - nat (dec_value b)) False, sh')"
    using fresh_serve [OF assms(11-13,15) _ assms(14) lb(2), of ?ctx i sh1 n] assms(16)
    unfolding lb(1) by (auto simp: bucket_burst)
  with z l show ?thesis by fastforce
qed

theorem configured_burst_witness:
  "\<exists>zones zones' lrcf' ctx limit sh'.
    ngx_http_limit_req_zone True True True 4096 [''$k'', ''zone=one:1m'', ''rate=10r/s''] [] = Inr zones \<and>
    ngx_http_limit_req True True True [''zone=one'', ''burst=20''] (sample_conf\<lparr>lc_limits := None\<rparr>) zones = Inr (lrcf', zones') \<and>
    sz_data (zones' ! 0) = Some ctx \<and> lc_limits lrcf' = Some [limit] \<and>
    lr_serve first_free limit 5 ''k'' ctx (replicate (Suc 39) 0) sample_zone =
      Some (True # replicate 20 True @ replicate 19 False, sh')"
proof -
  have d: "decimal ''10''" "dec_value ''10'' = 10" "decimal ''20''" "dec_value ''20'' = 20"
    by (simp_all add: decimal_def is_digit_def cval_def)
  show ?thesis
    using configured_burst [OF d(1) _ d(3) _ _ _ _ size_1m _ _ sample_zone_ok(1) first_free_ok, of "''one''" 4096 "''k''" 0 5 0 sample_zone
        "''$k''" sample_conf 39] d(2,4)
    by (simp add: sample_alloc sample_zone_ok(2) cval_def del: dec_value_from_simps replicate_Suc replicate.simps)
qed

end
